(* ===== verification/KV_Prelude.thy ===== *)
theory KV_Prelude
  imports Main "HOL-Library.Product_Lexorder" "HOL-Library.Multiset"
begin

text \<open>
  Shared vocabulary of the development: Python exceptions as values and the
  result type they live in, checked list access, byte regions laid out by a moving
  cursor, reachability in a transition system, and the locales that the components
  interpret.  Nothing in this theory models a particular source file.
\<close>

named_theorems res_simps \<open>unfolding of the result monad\<close>
named_theorems region_intros \<open>building stacks of byte regions\<close>

section \<open>Results and exceptions\<close>

text \<open>A Python exception is a value; messages are not modelled, only the class.\<close>

datatype py_error =
    ValueError | TypeError | KeyError | IndexError | AssertionError | RuntimeError
  | AttributeError | TimeoutError | OverflowError | ZeroDivisionError | FileNotFoundError

type_synonym 'a result = "py_error + 'a"

definition bind_res :: "'a result \<Rightarrow> ('a \<Rightarrow> 'b result) \<Rightarrow> 'b result" where
  "bind_res m f = (case m of Inl e \<Rightarrow> Inl e | Inr x \<Rightarrow> f x)"

lemma bind_res_Inr [simp, res_simps]: "bind_res (Inr x) f = f x"
  by (simp add: bind_res_def)

lemma bind_res_Inl [simp, res_simps]: "bind_res (Inl e) f = Inl e"
  by (simp add: bind_res_def)

lemma bind_res_eq_Inr: "bind_res m f = Inr y \<longleftrightarrow> (\<exists>x. m = Inr x \<and> f x = Inr y)"
  by (cases m) auto

lemma bind_res_eq_Inl:
  "bind_res m f = Inl e \<longleftrightarrow> m = Inl e \<or> (\<exists>x. m = Inr x \<and> f x = Inl e)"
  by (cases m) auto

lemma bind_res_InrE:
  assumes "bind_res m f = Inr y"
  obtains x where "m = Inr x" and "f x = Inr y"
  using assms by (auto simp: bind_res_eq_Inr)

text \<open>A \<open>for\<close> loop whose body may raise, threading a state.\<close>

fun fold_res :: "('a \<Rightarrow> 's \<Rightarrow> 's result) \<Rightarrow> 'a list \<Rightarrow> 's \<Rightarrow> 's result" where
  "fold_res f [] s = Inr s"
| "fold_res f (x # xs) s = bind_res (f x s) (fold_res f xs)"

text \<open>A list comprehension whose element expression may raise.\<close>

fun map_res :: "('a \<Rightarrow> 'b result) \<Rightarrow> 'a list \<Rightarrow> 'b list result" where
  "map_res f [] = Inr []"
| "map_res f (x # xs) = bind_res (f x) (\<lambda>y. bind_res (map_res f xs) (\<lambda>ys. Inr (y # ys)))"

lemma fold_res_append:
  "fold_res f (xs @ ys) s = bind_res (fold_res f xs s) (fold_res f ys)"
  by (induction xs arbitrary: s) (auto simp: bind_res_def split: sum.splits)

lemma fold_res_invariant:
  assumes "fold_res f xs s = Inr t" and "I s"
    and "\<And>x s t. x \<in> set xs \<Longrightarrow> I s \<Longrightarrow> f x s = Inr t \<Longrightarrow> I t"
  shows "I t"
  using assms
proof (induction xs arbitrary: s)
  case Nil
  then show ?case by simp
next
  case (Cons x xs)
  then obtain u where u: "f x s = Inr u" and rest: "fold_res f xs u = Inr t"
    by (auto simp: bind_res_eq_Inr)
  have "I u" using Cons.prems(2) u Cons.prems(3) by auto
  then show ?case using rest Cons.prems(3) by (auto intro: Cons.IH)
qed

lemma map_res_eq_Inr:
  "map_res f xs = Inr ys \<longleftrightarrow> list_all2 (\<lambda>x y. f x = Inr y) xs ys"
  by (induction xs arbitrary: ys) (auto simp: bind_res_eq_Inr list_all2_Cons1)

lemma map_res_map: "(\<And>x. x \<in> set xs \<Longrightarrow> f x = Inr (g x)) \<Longrightarrow> map_res f xs = Inr (map g xs)"
  by (induction xs) auto

lemma map_res_Inr [simp]: "map_res (\<lambda>x. Inr (g x)) xs = Inr (map g xs)"
  by (rule map_res_map) simp

text \<open>How an iteration ends: it goes on, leaves the loop, or raises.\<close>

datatype flow = Continue | Break | Raise py_error

fun for_loop :: "('a \<Rightarrow> 's \<Rightarrow> 's \<times> flow) \<Rightarrow> 'a list \<Rightarrow> 's \<Rightarrow> 's \<times> py_error option" where
  "for_loop f [] s = (s, None)"
| "for_loop f (x # xs) s = (case f x s of
       (s', Continue) \<Rightarrow> for_loop f xs s'
     | (s', Break) \<Rightarrow> (s', None)
     | (s', Raise e) \<Rightarrow> (s', Some e))"

text \<open>\<open>min\<close> of a Python list: \<open>ValueError\<close> on an empty one, the least element otherwise.\<close>

definition py_min :: "'a::linorder list \<Rightarrow> 'a result" where
  "py_min xs = (case xs of [] \<Rightarrow> Inl ValueError | y # ys \<Rightarrow> Inr (fold min ys y))"

lemma fold_min_in: "fold min ys (y::'a::linorder) \<in> insert y (set ys)"
proof (induction ys arbitrary: y)
  case (Cons z ys)
  have "fold min ys (min z y) \<in> insert (min z y) (set ys)" by (rule Cons.IH)
  moreover have "min z y \<in> {z, y}" by (auto simp: min_def)
  ultimately show ?case by auto
qed simp

lemma fold_min_le: "x \<in> insert y (set ys) \<Longrightarrow> fold min ys (y::'a::linorder) \<le> x"
proof (induction ys arbitrary: x y)
  case (Cons z ys)
  have a: "fold min ys (min z y) \<le> min z y" by (rule Cons.IH) simp
  show ?case
  proof (cases "x \<in> set ys")
    case True
    then show ?thesis by (auto intro: Cons.IH)
  next
    case False
    with Cons.prems have "min z y \<le> x" by auto
    with a have "fold min ys (min z y) \<le> x" by (rule order_trans)
    then show ?thesis by simp
  qed
qed simp

lemma py_min_Inr: "py_min xs = Inr m \<Longrightarrow> m \<in> set xs \<and> (\<forall>x \<in> set xs. m \<le> x)"
proof (cases xs)
  case (Cons y ys)
  assume "py_min xs = Inr m"
  then have "m = fold min ys y" using Cons by (simp add: py_min_def)
  then show ?thesis using fold_min_in[of ys y] fold_min_le[of _ y ys] Cons by auto
qed (simp add: py_min_def)

lemma py_min_Inl: "py_min xs = Inl e \<longleftrightarrow> xs = [] \<and> e = ValueError"
  by (auto simp: py_min_def split: list.splits)

section \<open>Byte regions\<close>

text \<open>
  A region is an offset and a length.  \<open>stacked lo hi rs\<close> says that the regions lie in
  \<open>[lo, hi)\<close> one after the other, so they cannot overlap.
\<close>

type_synonym region = "int \<times> int"

fun stacked :: "int \<Rightarrow> int \<Rightarrow> region list \<Rightarrow> bool" where
  "stacked lo hi [] \<longleftrightarrow> lo \<le> hi"
| "stacked lo hi ((off, len) # rs) \<longleftrightarrow> lo \<le> off \<and> 0 \<le> len \<and> stacked (off + len) hi rs"

definition region_set :: "region \<Rightarrow> int set" where
  "region_set r = {fst r ..< fst r + snd r}"

definition disjoint_regions :: "region list \<Rightarrow> bool" where
  "disjoint_regions rs \<longleftrightarrow>
     (\<forall>i < length rs. \<forall>j < length rs. i \<noteq> j \<longrightarrow> region_set (rs ! i) \<inter> region_set (rs ! j) = {})"

lemma stacked_le: "stacked lo hi rs \<Longrightarrow> lo \<le> hi"
  by (induction lo hi rs rule: stacked.induct) auto

lemma stacked_append [region_intros]:
  "stacked lo mid rs \<Longrightarrow> stacked mid hi rs' \<Longrightarrow> stacked lo hi (rs @ rs')"
proof (induction lo mid rs rule: stacked.induct)
  case (1 lo mid)
  then show ?case by (cases rs') auto
qed auto

lemma stacked_widen: "stacked lo hi rs \<Longrightarrow> lo' \<le> lo \<Longrightarrow> hi \<le> hi' \<Longrightarrow> stacked lo' hi' rs"
  by (induction lo hi rs arbitrary: lo' rule: stacked.induct) auto

lemma stacked_bounds:
  "stacked lo hi rs \<Longrightarrow> (off, len) \<in> set rs \<Longrightarrow> lo \<le> off \<and> 0 \<le> len \<and> off + len \<le> hi"
proof (induction lo hi rs rule: stacked.induct)
  case (2 lo hi o' l' rs)
  then show ?case
    by (cases "(off, len) \<in> set rs") (auto dest: stacked_le)
qed simp

lemma stacked_region_set: "stacked lo hi rs \<Longrightarrow> r \<in> set rs \<Longrightarrow> region_set r \<subseteq> {lo..<hi}"
  by (cases r) (fastforce simp: region_set_def dest: stacked_bounds)

lemma stacked_nth_less:
  "stacked lo hi rs \<Longrightarrow> i < j \<Longrightarrow> j < length rs \<Longrightarrow> fst (rs ! i) + snd (rs ! i) \<le> fst (rs ! j)"
proof (induction lo hi rs arbitrary: i j rule: stacked.induct)
  case (2 lo hi off len rs)
  then obtain j' where j: "j = Suc j'" by (cases j) auto
  have rest: "stacked (off + len) hi rs" and len: "0 \<le> len" using 2 by auto
  show ?case
  proof (cases i)
    case 0
    have "(fst (rs ! j'), snd (rs ! j')) \<in> set rs" using 2 j by simp
    then show ?thesis using stacked_bounds[OF rest] 0 j by fastforce
  next
    case (Suc i')
    then show ?thesis using 2 j by auto
  qed
qed simp

lemma stacked_disjoint: "stacked lo hi rs \<Longrightarrow> disjoint_regions rs"
  unfolding disjoint_regions_def
proof (intro allI impI)
  fix i j
  assume s: "stacked lo hi rs" and ij: "i < length rs" "j < length rs" "i \<noteq> j"
  show "region_set (rs ! i) \<inter> region_set (rs ! j) = {}"
  proof (cases "i < j")
    case True
    with s ij show ?thesis by (auto simp: region_set_def dest: stacked_nth_less)
  next
    case False
    with ij have "j < i" by simp
    with s ij show ?thesis by (auto simp: region_set_def dest: stacked_nth_less)
  qed
qed

text \<open>
  A cursor that hands out regions and only moves forward.  Whoever provides such a
  cursor (the pool carver, the per-part offset counters of the layout) gets the
  disjointness of everything it ever handed out.
\<close>

fun run_cursor :: "('s \<Rightarrow> 'r \<Rightarrow> 's \<times> region list) \<Rightarrow> 's \<Rightarrow> 'r list \<Rightarrow> 's \<times> region list" where
  "run_cursor tk s [] = (s, [])"
| "run_cursor tk s (r # rs) =
     (let (s', regs) = tk s r; (s'', regs') = run_cursor tk s' rs in (s'', regs @ regs'))"

locale bump_cursor =
  fixes pos :: "'s \<Rightarrow> int"
    and tk :: "'s \<Rightarrow> 'r \<Rightarrow> 's \<times> region list"
    and ok :: "'r \<Rightarrow> bool"
  assumes tk_stacked: "ok r \<Longrightarrow> stacked (pos s) (pos (fst (tk s r))) (snd (tk s r))"
begin

lemma run_stacked:
  "(\<And>r. r \<in> set rs \<Longrightarrow> ok r) \<Longrightarrow>
     stacked (pos s) (pos (fst (run_cursor tk s rs))) (snd (run_cursor tk s rs))"
proof (induction rs arbitrary: s)
  case Nil
  then show ?case by simp
next
  case (Cons r rs)
  obtain s' regs where t: "tk s r = (s', regs)" by (cases "tk s r")
  have a: "stacked (pos s) (pos s') regs" using tk_stacked[of r s] Cons.prems t by simp
  have "stacked (pos s') (pos (fst (run_cursor tk s' rs))) (snd (run_cursor tk s' rs))"
    by (rule Cons.IH) (use Cons.prems in auto)
  then show ?case using a t by (auto simp: Let_def split: prod.splits intro: stacked_append)
qed

lemma run_disjoint:
  "(\<And>r. r \<in> set rs \<Longrightarrow> ok r) \<Longrightarrow> disjoint_regions (snd (run_cursor tk s rs))"
  by (rule stacked_disjoint[OF run_stacked])

lemma run_within:
  assumes "\<And>r. r \<in> set rs \<Longrightarrow> ok r" and "reg \<in> set (snd (run_cursor tk s rs))"
  shows "region_set reg \<subseteq> {pos s ..< pos (fst (run_cursor tk s rs))}"
  using stacked_region_set[OF run_stacked assms(2)] assms(1) by blast

end

section \<open>Reachable states\<close>

inductive reach :: "('s \<Rightarrow> bool) \<Rightarrow> ('s \<Rightarrow> 's \<Rightarrow> bool) \<Rightarrow> 's \<Rightarrow> bool" for init step where
  reach_init: "init s \<Longrightarrow> reach init step s"
| reach_step: "reach init step s \<Longrightarrow> step s t \<Longrightarrow> reach init step t"

locale inductive_invariant =
  fixes init :: "'s \<Rightarrow> bool" and step :: "'s \<Rightarrow> 's \<Rightarrow> bool" and inv :: "'s \<Rightarrow> bool"
  assumes init_inv: "init s \<Longrightarrow> inv s"
    and step_inv: "inv s \<Longrightarrow> step s t \<Longrightarrow> inv t"
begin

lemma reach_inv: "reach init step s \<Longrightarrow> inv s"
  by (induction rule: reach.induct) (blast intro: init_inv step_inv)+

end

section \<open>Encoders and decoders\<close>

text \<open>
  What a client of a lossless encoder relies on: encoding a valid value succeeds and
  decoding the encoding gives the value back.
\<close>

locale lossless_codec =
  fixes valid :: "'a \<Rightarrow> bool" and enc :: "'a \<Rightarrow> 'c result" and dec :: "'c \<Rightarrow> 'a result"
  assumes enc_total: "valid x \<Longrightarrow> \<exists>c. enc x = Inr c"
    and dec_enc: "valid x \<Longrightarrow> enc x = Inr c \<Longrightarrow> dec c = Inr x"
begin

lemma round_trip: "valid x \<Longrightarrow> bind_res (enc x) dec = Inr x"
  using enc_total dec_enc by (fastforce simp: bind_res_def)

lemma enc_inj: "valid x \<Longrightarrow> valid y \<Longrightarrow> enc x = enc y \<Longrightarrow> x = y"
  using enc_total dec_enc by (metis sum.inject(2))

lemma round_trip_list: "(\<And>x. x \<in> set xs \<Longrightarrow> valid x) \<Longrightarrow>
    bind_res (map_res enc xs) (map_res dec) = Inr xs"
proof (induction xs)
  case (Cons x xs)
  obtain c where "enc x = Inr c" using enc_total Cons.prems by (meson list.set_intros(1))
  moreover have "dec c = Inr x" using dec_enc Cons.prems calculation by auto
  moreover obtain cs where "map_res enc xs = Inr cs" "map_res dec cs = Inr xs"
    using Cons by (auto simp: bind_res_eq_Inr)
  ultimately show ?case by simp
qed simp

end

section \<open>Generic list facts\<close>

lemma sum_list_filter_split:
  "sum_list (map f xs) =
     sum_list (map f (filter P xs)) + sum_list (map f (filter (\<lambda>x. \<not> P x) xs))"
  for f :: "'a \<Rightarrow> int"
  by (induction xs) auto

lemma sum_list_update_less:
  "k < length xs \<Longrightarrow> f x < f (xs ! k) \<Longrightarrow> sum_list (map f (xs[k := x])) < (sum_list (map f xs) :: nat)"
  by (induction xs arbitrary: k) (auto split: nat.splits)

lemma sum_list_nonneg_int: "(\<And>x. x \<in> set xs \<Longrightarrow> (0::int) \<le> f x) \<Longrightarrow> 0 \<le> sum_list (map f xs)"
  by (induction xs) auto

lemma member_le_sum_list_int:
  "(\<And>x. x \<in> set xs \<Longrightarrow> (0::int) \<le> f x) \<Longrightarrow> x \<in> set xs \<Longrightarrow> f x \<le> sum_list (map f xs)"
proof (induction xs)
  case (Cons y ys)
  have "0 \<le> sum_list (map f ys)" using Cons.prems by (intro sum_list_nonneg_int) auto
  moreover have "0 \<le> f y" using Cons.prems by auto
  ultimately show ?case using Cons by (auto intro: add_increasing)
qed simp

lemma sum_list_le_int:
  "(\<And>x. x \<in> set xs \<Longrightarrow> f x \<le> g x) \<Longrightarrow> sum_list (map f xs) \<le> sum_list (map g xs)"
  for f g :: "'a \<Rightarrow> int"
  by (induction xs) (auto intro: add_mono)

end
