(* ===== verification/Runtime_Spec.thy ===== *)
theory Runtime_Spec
  imports KV_Prelude
begin

text \<open>
  Cache geometry and alignment arithmetic of the fixed-profile runtime:
  \<^verbatim>\<open>compression/runtime/spec.py\<close>, and the tensor element types that the other
  components name.
\<close>

section \<open>Element types\<close>

datatype dtype =
    BFloat16 | Float16 | Float32 | Float64 | UInt8 | Int8 | Int16 | Int32 | Int64 | BoolT

fun itemsize :: "dtype \<Rightarrow> nat" where
  "itemsize BFloat16 = 2"
| "itemsize Float16 = 2"
| "itemsize Float32 = 4"
| "itemsize Float64 = 8"
| "itemsize UInt8 = 1"
| "itemsize Int8 = 1"
| "itemsize Int16 = 2"
| "itemsize Int32 = 4"
| "itemsize Int64 = 8"
| "itemsize BoolT = 1"

lemma itemsize_pos [simp]: "0 < itemsize d"
  by (cases d) auto

lemma itemsize_le_8: "itemsize d \<le> 8"
  by (cases d) auto

section \<open>Rounding up to an alignment\<close>

definition round_up :: "int \<Rightarrow> int \<Rightarrow> int" where
  "round_up value alignment = (value + alignment - 1) div alignment * alignment"

definition ALIGNMENT :: int where
  "ALIGNMENT = 256"

abbreviation round256 :: "int \<Rightarrow> int" where
  "round256 v \<equiv> round_up v ALIGNMENT"

named_theorems align \<open>alignment arithmetic\<close>

lemma round_up_ge: "0 < a \<Longrightarrow> v \<le> round_up v a"
proof -
  assume a: "0 < a"
  have "(v + a - 1) mod a < a" using a by simp
  moreover have "(v + a - 1) div a * a + (v + a - 1) mod a = v + a - 1" by simp
  ultimately show ?thesis unfolding round_up_def by linarith
qed

lemma round_up_less: "0 < a \<Longrightarrow> round_up v a < v + a"
proof -
  assume a: "0 < a"
  have "0 \<le> (v + a - 1) mod a" using a by simp
  moreover have "(v + a - 1) div a * a + (v + a - 1) mod a = v + a - 1" by simp
  ultimately show ?thesis unfolding round_up_def by linarith
qed

lemma round_up_dvd: "a dvd round_up v a"
  by (simp add: round_up_def)

lemma round_up_id: "0 < a \<Longrightarrow> a dvd v \<Longrightarrow> round_up v a = v"
proof -
  assume a: "0 < a" and d: "a dvd v"
  then have "a dvd round_up v a - v" by (simp add: round_up_dvd)
  moreover have "0 \<le> round_up v a - v" "round_up v a - v < a"
    using round_up_ge[OF a] round_up_less[OF a, of v] by (auto simp: algebra_simps)
  ultimately have "round_up v a - v = 0" by (metis zdvd_not_zless order_le_less)
  then show ?thesis by simp
qed

lemma round_up_least: "0 < a \<Longrightarrow> a dvd w \<Longrightarrow> v \<le> w \<Longrightarrow> round_up v a \<le> w"
proof (rule ccontr)
  assume a: "0 < a" and w: "a dvd w" "v \<le> w" and n: "\<not> round_up v a \<le> w"
  then have "0 < round_up v a - w" "round_up v a - w < a"
    using round_up_less[OF a, of v] by auto
  moreover have "a dvd round_up v a - w" using w by (simp add: round_up_dvd)
  ultimately show False using zdvd_not_zless by blast
qed

lemma round_up_mono: "0 < a \<Longrightarrow> v \<le> w \<Longrightarrow> round_up v a \<le> round_up w a"
  by (rule round_up_least) (auto simp: round_up_dvd intro: order_trans round_up_ge)

lemma round_up_add_le: "0 < a \<Longrightarrow> round_up (v + w) a \<le> round_up v a + round_up w a"
  by (rule round_up_least) (auto simp: round_up_dvd intro: add_mono round_up_ge)

lemma ALIGNMENT_pos [simp]: "0 < ALIGNMENT"
  by (simp add: ALIGNMENT_def)

lemma round256_ge [align, simp]: "v \<le> round256 v"
  by (rule round_up_ge) simp

lemma round256_dvd [align, simp]: "ALIGNMENT dvd round256 v"
  by (rule round_up_dvd)

lemma round256_id [align]: "ALIGNMENT dvd v \<Longrightarrow> round256 v = v"
  by (rule round_up_id) simp

lemma round256_idem [simp]: "round256 (round256 v) = round256 v"
  by (simp add: round256_id)

lemma round256_nonneg [simp]: "0 \<le> v \<Longrightarrow> 0 \<le> round256 v"
  using round256_ge[of v] by linarith

lemma round256_mono: "v \<le> w \<Longrightarrow> round256 v \<le> round256 w"
  by (rule round_up_mono) auto

lemma round256_add_dvd: "ALIGNMENT dvd v \<Longrightarrow> round256 (v + w) = v + round256 w"
proof (rule antisym)
  assume v: "ALIGNMENT dvd v"
  show "round256 (v + w) \<le> v + round256 w" using v by (intro round_up_least) auto
  have "round256 w \<le> round256 (v + w) - v" using v
    by (intro round_up_least) (use round256_ge[of "v + w"] in \<open>auto simp: algebra_simps\<close>)
  then show "v + round256 w \<le> round256 (v + w)" by simp
qed

section \<open>CacheSpec\<close>

record cache_spec =
  cs_layer_index :: int
  cs_block_size :: int
  cs_num_kv_heads :: int
  cs_head_size :: int
  cs_dtype :: dtype
  cs_head_size_v :: int

text \<open>The constructor with \<open>__post_init__\<close>: a missing V head size is the K head size.\<close>

definition CacheSpec :: "int \<Rightarrow> int \<Rightarrow> int \<Rightarrow> int \<Rightarrow> dtype \<Rightarrow> int option \<Rightarrow> cache_spec" where
  "CacheSpec layer_index block_size num_kv_heads head_size dt head_size_v =
     \<lparr>cs_layer_index = layer_index, cs_block_size = block_size, cs_num_kv_heads = num_kv_heads,
      cs_head_size = head_size, cs_dtype = dt,
      cs_head_size_v = (case head_size_v of None \<Rightarrow> head_size | Some v \<Rightarrow> v)\<rparr>"

definition wf_spec :: "cache_spec \<Rightarrow> bool" where
  "wf_spec s \<longleftrightarrow> 0 < cs_block_size s \<and> 0 < cs_num_kv_heads s \<and> 0 < cs_head_size s \<and>
     0 < cs_head_size_v s"

end
