(* ===== verification/Py_Values.thy ===== *)
theory Py_Values
  imports Complex_Main KV_Prelude
begin

text \<open>
  Dynamic Python values as they come out of JSON configuration files and metadata
  dictionaries, with the operations of the language that the sources apply to them:
  truth value, \<open>int()\<close>, \<open>tuple()\<close>, ordering comparison, hashing, \<open>round\<close>, and dictionary
  access.  A float is the rational number it denotes; NaN and infinities are not values here.
\<close>

section \<open>Values\<close>

datatype pyval =
    PNone
  | PBool bool
  | PInt int
  | PFloat rat
  | PStr string
  | PList "pyval list"
  | PDict "(string \<times> pyval) list"

type_synonym pydict = "(string \<times> pyval) list"

fun truthy :: "pyval \<Rightarrow> bool" where
  "truthy PNone = False"
| "truthy (PBool b) = b"
| "truthy (PInt i) = (i \<noteq> 0)"
| "truthy (PFloat r) = (r \<noteq> 0)"
| "truthy (PStr s) = (s \<noteq> [])"
| "truthy (PList xs) = (xs \<noteq> [])"
| "truthy (PDict d) = (d \<noteq> [])"

section \<open>Dictionaries\<close>

definition dict_get :: "(string \<times> 'v) list \<Rightarrow> string \<Rightarrow> 'v \<Rightarrow> 'v" where
  "dict_get d k dflt = (case map_of d k of None \<Rightarrow> dflt | Some v \<Rightarrow> v)"

definition dict_item :: "(string \<times> 'v) list \<Rightarrow> string \<Rightarrow> 'v result" where
  "dict_item d k = (case map_of d k of None \<Rightarrow> Inl KeyError | Some v \<Rightarrow> Inr v)"

definition dict_has :: "(string \<times> 'v) list \<Rightarrow> string \<Rightarrow> bool" where
  "dict_has d k \<longleftrightarrow> k \<in> set (map fst d)"

definition dict_pop :: "('k \<times> 'v) list \<Rightarrow> 'k \<Rightarrow> ('k \<times> 'v) list" where
  "dict_pop d k = filter (\<lambda>kv. fst kv \<noteq> k) d"

text \<open>Assignment keeps the position of a key that is already there.\<close>

fun dict_set :: "('k \<times> 'v) list \<Rightarrow> 'k \<Rightarrow> 'v \<Rightarrow> ('k \<times> 'v) list" where
  "dict_set [] k v = [(k, v)]"
| "dict_set ((k', v') # d) k v = (if k' = k then (k', v) # d else (k', v') # dict_set d k v)"

lemma map_of_dict_set [simp]: "map_of (dict_set d k v) = (map_of d)(k \<mapsto> v)"
  by (induction d k v rule: dict_set.induct) auto

lemma keys_dict_set: "map fst (dict_set d k v) = map fst d @ (if k \<in> set (map fst d) then [] else [k])"
  by (induction d k v rule: dict_set.induct) auto

lemma set_keys_dict_set [simp]: "fst ` set (dict_set d k v) = insert k (fst ` set d)"
  by (induction d k v rule: dict_set.induct) auto

lemma set_dict_set_sub: "x \<in> set (dict_set d k v) \<Longrightarrow> x = (k, v) \<or> x \<in> set d"
  by (induction d k v rule: dict_set.induct) (auto split: if_splits)

lemma distinct_dict_set: "distinct (map fst d) \<Longrightarrow> distinct (map fst (dict_set d k v))"
  by (simp add: keys_dict_set del: set_map)

lemma dict_set_fresh: "k \<notin> fst ` set d \<Longrightarrow> dict_set d k v = d @ [(k, v)]"
  by (induction d k v rule: dict_set.induct) auto

lemma map_of_dict_pop [simp]: "map_of (dict_pop d k) = (map_of d)(k := None)"
  unfolding dict_pop_def by (induction d) auto

lemma set_keys_dict_pop [simp]: "fst ` set (dict_pop d k) = fst ` set d - {k}"
  by (auto simp: dict_pop_def)

lemma distinct_dict_pop: "distinct (map fst d) \<Longrightarrow> distinct (map fst (dict_pop d k))"
  by (simp add: dict_pop_def distinct_map_filter)

text \<open>\<open>v.get(...)\<close> on a value that is not a dictionary has no such attribute.\<close>

definition as_dict :: "pyval \<Rightarrow> pydict result" where
  "as_dict v = (case v of PDict d \<Rightarrow> Inr d | _ \<Rightarrow> Inl AttributeError)"

section \<open>Integers from values\<close>

definition is_digit :: "char \<Rightarrow> bool" where
  "is_digit c \<longleftrightarrow> 48 \<le> (of_char c :: nat) \<and> (of_char c :: nat) \<le> 57"

definition digit_val :: "char \<Rightarrow> int" where
  "digit_val c = int (of_char c) - 48"

definition is_space :: "char \<Rightarrow> bool" where
  "is_space c \<longleftrightarrow> (of_char c :: nat) \<in> {9, 10, 11, 12, 13, 28, 29, 30, 31, 32, 133, 160}"

definition py_strip :: "string \<Rightarrow> string" where
  "py_strip s = rev (dropWhile is_space (rev (dropWhile is_space s)))"

text \<open>Decimal digits, a single underscore allowed between two of them.\<close>

fun parse_digits :: "bool \<Rightarrow> int \<Rightarrow> string \<Rightarrow> int option" where
  "parse_digits after acc [] = (if after then Some acc else None)"
| "parse_digits after acc (c # cs) =
     (if is_digit c then parse_digits True (10 * acc + digit_val c) cs
      else if c = CHR ''_'' \<and> after then parse_digits False acc cs
      else None)"

definition py_parse_int :: "string \<Rightarrow> int option" where
  "py_parse_int s = (case py_strip s of
       [] \<Rightarrow> None
     | c # cs \<Rightarrow> if c = CHR ''-'' then map_option uminus (parse_digits False 0 cs)
                else if c = CHR ''+'' then parse_digits False 0 cs
                else parse_digits False 0 (c # cs))"

fun py_int :: "pyval \<Rightarrow> int result" where
  "py_int (PBool b) = Inr (if b then 1 else 0)"
| "py_int (PInt i) = Inr i"
| "py_int (PFloat r) = Inr (if 0 \<le> r then \<lfloor>r\<rfloor> else \<lceil>r\<rceil>)"
| "py_int (PStr s) = (case py_parse_int s of None \<Rightarrow> Inl ValueError | Some i \<Rightarrow> Inr i)"
| "py_int PNone = Inl TypeError"
| "py_int (PList _) = Inl TypeError"
| "py_int (PDict _) = Inl TypeError"

text \<open>\<open>round(x)\<close>: to the nearest integer, ties to the even one.\<close>

definition py_round :: "rat \<Rightarrow> int" where
  "py_round x = (let f = \<lfloor>x\<rfloor>; d = x - of_int f in
     if d < 1/2 then f else if 1/2 < d then f + 1 else if even f then f else f + 1)"

lemma py_round_bounds: "of_int (py_round x) - 1/2 \<le> x \<and> x \<le> of_int (py_round x) + 1/2"
  by (auto simp: py_round_def Let_def field_simps) linarith+

lemma py_round_nonneg: "0 \<le> x \<Longrightarrow> 0 \<le> py_round x"
  by (auto simp: py_round_def Let_def)

lemma py_round_le_int: "x \<le> of_int n \<Longrightarrow> py_round x \<le> n"
proof -
  assume x: "x \<le> of_int n"
  have "of_int (py_round x) \<le> x + 1/2" using py_round_bounds[of x] by linarith
  also have "\<dots> < of_int (n + 1)" using x by simp
  finally show ?thesis by linarith
qed

section \<open>Numbers, iteration and hashing\<close>

fun as_num :: "pyval \<Rightarrow> rat option" where
  "as_num (PBool b) = Some (if b then 1 else 0)"
| "as_num (PInt i) = Some (of_int i)"
| "as_num (PFloat r) = Some r"
| "as_num _ = None"

text \<open>\<open>tuple(v)\<close>: the elements of a list, the characters of a string, the keys of a dictionary.\<close>

fun py_tuple :: "pyval \<Rightarrow> pyval list result" where
  "py_tuple (PList xs) = Inr xs"
| "py_tuple (PStr s) = Inr (map (\<lambda>c. PStr [c]) s)"
| "py_tuple (PDict d) = Inr (map (\<lambda>kv. PStr (fst kv)) d)"
| "py_tuple _ = Inl TypeError"

fun hashable :: "pyval \<Rightarrow> bool" where
  "hashable (PList _) = False"
| "hashable (PDict _) = False"
| "hashable _ = True"

text \<open>
  \<open>sorted\<close> of a set of hashable values raises when it has to compare two values that are
  neither both strings nor both numbers.
\<close>

definition sort_raises :: "pyval list \<Rightarrow> bool" where
  "sort_raises xs \<longleftrightarrow>
     (let ys = remdups (map (\<lambda>v. case as_num v of Some r \<Rightarrow> PFloat r | None \<Rightarrow> v) xs) in
      2 \<le> length ys \<and> \<not> list_all (\<lambda>v. as_num v \<noteq> None) ys \<and>
      \<not> list_all (\<lambda>v. case v of PStr _ \<Rightarrow> True | _ \<Rightarrow> False) ys)"

section \<open>Slices\<close>

text \<open>\<open>xs[a:b]\<close>: negative bounds count from the end, bounds out of range are clipped.\<close>

definition slice_bound :: "nat \<Rightarrow> int \<Rightarrow> nat" where
  "slice_bound n i = nat (if i < 0 then max 0 (i + int n) else min i (int n))"

definition py_slice :: "'a list \<Rightarrow> int \<Rightarrow> int \<Rightarrow> 'a list" where
  "py_slice xs a b = drop (slice_bound (length xs) a) (take (slice_bound (length xs) b) xs)"

lemma py_slice_in_range:
  "0 \<le> a \<Longrightarrow> a \<le> b \<Longrightarrow> b \<le> int (length xs) \<Longrightarrow> py_slice xs a b = take (nat (b - a)) (drop (nat a) xs)"
  by (simp add: py_slice_def slice_bound_def take_drop nat_diff_distrib)

section \<open>Decimal output\<close>

fun show_nat :: "nat \<Rightarrow> string" where
  "show_nat n = (if n < 10 then [char_of (48 + n)] else show_nat (n div 10) @ [char_of (48 + n mod 10)])"

declare show_nat.simps [simp del]

definition show_int :: "int \<Rightarrow> string" where
  "show_int i = (if i < 0 then CHR ''-'' # show_nat (nat (- i)) else show_nat (nat i))"

lemma is_digit_char_of [simp]: "d < 10 \<Longrightarrow> is_digit (char_of (48 + d :: nat))"
  by (simp add: is_digit_def)

lemma digit_val_char_of [simp]: "d < 10 \<Longrightarrow> digit_val (char_of (48 + d :: nat)) = int d"
  by (simp add: digit_val_def)

lemma show_nat_digits: "c \<in> set (show_nat n) \<Longrightarrow> is_digit c"
proof (induction n rule: show_nat.induct)
  case (1 n)
  then show ?case by (cases "n < 10") (auto simp: show_nat.simps[of n] split: if_splits)
qed

lemma show_nat_nonempty: "show_nat n \<noteq> []"
  by (subst show_nat.simps) simp

lemma parse_digits_append:
  "(\<And>c. c \<in> set xs \<Longrightarrow> is_digit c) \<Longrightarrow> xs \<noteq> [] \<Longrightarrow>
   parse_digits b acc (xs @ ys) =
     parse_digits True (fold (\<lambda>c a. 10 * a + digit_val c) xs acc) ys"
  by (induction xs arbitrary: b acc) (auto, metis append_Nil fold_simps(1))

lemma fold_digits_show_nat: "fold (\<lambda>c a. 10 * a + digit_val c) (show_nat n) acc =
    acc * 10 ^ length (show_nat n) + int n"
proof (induction n arbitrary: acc rule: show_nat.induct)
  case (1 n)
  show ?case
  proof (cases "n < 10")
    case True
    then show ?thesis by (simp add: show_nat.simps[of n])
  next
    case False
    have "n mod 10 < 10" by simp
    then have "digit_val (char_of (48 + n mod 10)) = int (n mod 10)" by (rule digit_val_char_of)
    moreover have "int n = 10 * int (n div 10) + int (n mod 10)" by presburger
    ultimately show ?thesis using False "1.IH"[OF False]
      by (simp add: show_nat.simps[of n] algebra_simps)
  qed
qed

lemma parse_show_nat: "parse_digits b 0 (show_nat n) = Some (int n)"
  using parse_digits_append[of "show_nat n" b 0 "[]"] show_nat_digits[of _ n] show_nat_nonempty[of n]
    fold_digits_show_nat[of n 0] by simp

lemma digit_not_space: "is_digit c \<Longrightarrow> \<not> is_space c"
  by (auto simp: is_digit_def is_space_def)

lemma minus_not_space: "\<not> is_space (CHR ''-'')"
  by (simp add: is_space_def)

lemma py_strip_id:
  assumes "\<And>c. c \<in> set s \<Longrightarrow> \<not> is_space c"
  shows "py_strip s = s"
proof -
  have d: "dropWhile is_space xs = xs" if "\<And>c. c \<in> set xs \<Longrightarrow> \<not> is_space c" for xs
    using that by (cases xs) auto
  show ?thesis unfolding py_strip_def using assms d[of s] d[of "rev s"] by simp
qed

lemma py_parse_show_int: "py_parse_int (show_int i) = Some i"
proof -
  have dig: "is_digit c" if "c \<in> set (show_nat n)" for c n using that by (rule show_nat_digits)
  have sp: "py_strip (show_int i) = show_int i"
  proof (rule py_strip_id)
    show "\<not> is_space c" if "c \<in> set (show_int i)" for c
      using that digit_not_space[OF dig] minus_not_space by (auto simp: show_int_def split: if_splits)
  qed
  show ?thesis
  proof (cases "i < 0")
    case True
    then show ?thesis using sp by (simp add: py_parse_int_def show_int_def parse_show_nat)
  next
    case False
    obtain c cs where c: "show_nat (nat i) = c # cs" using show_nat_nonempty by (cases "show_nat (nat i)") auto
    then have "is_digit c" using dig by (metis list.set_intros(1))
    then have "c \<noteq> CHR ''-''" "c \<noteq> CHR ''+''" by (auto simp: is_digit_def)
    then show ?thesis using False sp c parse_show_nat[of False "nat i"]
      by (simp add: py_parse_int_def show_int_def)
  qed
qed

lemma underscore_not_in_show_int: "CHR ''_'' \<notin> set (show_int i)"
  using show_nat_digits[of "CHR ''_''"] by (auto simp: show_int_def is_digit_def)

end
