(* ===== verification/Runtime_Config.thy ===== *)
theory Runtime_Config
  imports Py_Values
begin

text \<open>
  The configuration of the fixed-profile runtime (\<^verbatim>\<open>compression/runtime/config.py\<close>):
  how \<open>CompressionConfig.from_extra_config\<close> turns the connector's JSON object into a
  configuration, which inputs it refuses and with which exception.  Log output and the
  once-per-process warning flag, which nothing reads but the logger, are left out.
\<close>

section \<open>Model\<close>

datatype quant_axis = Channel | Token | Tensor

datatype split_type = HeadSplit | LayerSplit

datatype transport = RawTransport | CompressionTransport | RawAggregateTransport

datatype stage = Aggregate | Transformer | Quantizer | Codec

text \<open>
  A configuration after validation.  The fields \<open>seed\<close> and \<open>score_path\<close> are the only ones
  whose type the code never checks, so they stay dynamic values.
\<close>

record config =
  cfg_enabled :: bool
  cfg_transport :: transport
  cfg_seed :: pyval
  cfg_split_type :: split_type
  cfg_score_path :: pyval
  cfg_hybrid_ratio :: rat
  cfg_axis_key :: quant_axis
  cfg_axis_value :: quant_axis
  cfg_high_key_num_levels :: int
  cfg_high_value_num_levels :: int
  cfg_low_key_num_levels :: int
  cfg_low_value_num_levels :: int
  cfg_slot_count :: int
  cfg_logical_blocks_per_chunk :: int
  cfg_pipeline :: "stage list"

text \<open>The dataclass defaults (\<open>transformer\<close> and \<open>codec\<close> have a single admitted value).\<close>

definition default_config :: config where
  "default_config = \<lparr>cfg_enabled = False, cfg_transport = CompressionTransport,
     cfg_seed = PInt 3237919422, cfg_split_type = LayerSplit, cfg_score_path = PNone,
     cfg_hybrid_ratio = 4/5, cfg_axis_key = Channel, cfg_axis_value = Token,
     cfg_high_key_num_levels = 12, cfg_high_value_num_levels = 8,
     cfg_low_key_num_levels = 6, cfg_low_value_num_levels = 4,
     cfg_slot_count = 2, cfg_logical_blocks_per_chunk = 1,
     cfg_pipeline = [Transformer, Quantizer, Codec]\<rparr>"

definition available :: "config \<Rightarrow> bool" where
  "available c = cfg_enabled c"

definition is_raw_aggregate :: "config \<Rightarrow> bool" where
  "is_raw_aggregate c \<longleftrightarrow> cfg_transport c = RawAggregateTransport"

definition uses_aggregate :: "config \<Rightarrow> bool" where
  "uses_aggregate c \<longleftrightarrow> Aggregate \<in> set (cfg_pipeline c)"

definition uses_transformer :: "config \<Rightarrow> bool" where
  "uses_transformer c \<longleftrightarrow> \<not> uses_aggregate c \<and> Transformer \<in> set (cfg_pipeline c)"

definition uses_quantizer :: "config \<Rightarrow> bool" where
  "uses_quantizer c \<longleftrightarrow> \<not> uses_aggregate c \<and> Quantizer \<in> set (cfg_pipeline c)"

definition uses_codec :: "config \<Rightarrow> bool" where
  "uses_codec c \<longleftrightarrow> \<not> uses_aggregate c \<and> Codec \<in> set (cfg_pipeline c)"

subsection \<open>raw aggregate\<close>

definition RAW_AGGREGATE_KEY :: string where "RAW_AGGREGATE_KEY = ''raw_aggregate''"
definition RAW_AGGREGATE_ALIAS :: string where "RAW_AGGREGATE_ALIAS = ''raw_agg''"
definition RAW_AGGREGATE_SLOT_COUNT :: int where "RAW_AGGREGATE_SLOT_COUNT = 2"
definition RAW_AGGREGATE_LOGICAL_BLOCKS_PER_CHUNK :: int where
  "RAW_AGGREGATE_LOGICAL_BLOCKS_PER_CHUNK = 160"

definition parse_raw_aggregate :: "pydict \<Rightarrow> (int \<times> int) option result" where
  "parse_raw_aggregate extra =
     (let raw = (case map_of extra RAW_AGGREGATE_KEY of
                   Some v \<Rightarrow> Some v
                 | None \<Rightarrow> map_of extra RAW_AGGREGATE_ALIAS) in
      case raw of
        None \<Rightarrow> Inr None
      | Some v \<Rightarrow>
         if v = PNone \<or> v = PBool False then Inr None
         else (case (if v = PBool True then PDict [] else v) of
           PDict d \<Rightarrow>
             if \<not> list_all (\<lambda>k. k \<in> {''slot_count'', ''logical_blocks_per_chunk''}) (map fst d)
             then Inl ValueError
             else bind_res (py_int (dict_get d ''slot_count'' (PInt RAW_AGGREGATE_SLOT_COUNT)))
               (\<lambda>slot_count. bind_res (py_int (dict_get d ''logical_blocks_per_chunk''
                                 (PInt RAW_AGGREGATE_LOGICAL_BLOCKS_PER_CHUNK)))
               (\<lambda>lbpc. if slot_count < 1 then Inl ValueError
                       else if lbpc < 1 then Inl ValueError
                       else Inr (Some (slot_count, lbpc))))
         | _ \<Rightarrow> Inl ValueError))"

subsection \<open>Keyword construction\<close>

text \<open>The dataclass fields that remain once \<open>enabled\<close> and \<open>transport\<close> are given.\<close>

definition config_fields :: "string list" where
  "config_fields = [''transformer'', ''seed'', ''split_type'', ''score_path'', ''hybrid_ratio'',
     ''axis_key'', ''axis_value'', ''high_key_num_levels'', ''high_value_num_levels'',
     ''low_key_num_levels'', ''low_value_num_levels'', ''codec'', ''slot_count'',
     ''logical_blocks_per_chunk'', ''pipeline'']"

definition stage_of :: "pyval \<Rightarrow> stage option" where
  "stage_of v = (if v = PStr ''aggregate'' then Some Aggregate
     else if v = PStr ''transformer'' then Some Transformer
     else if v = PStr ''quantizer'' then Some Quantizer
     else if v = PStr ''codec'' then Some Codec else None)"

definition axis_of :: "pyval \<Rightarrow> quant_axis result" where
  "axis_of v = (if v = PStr ''channel'' then Inr Channel else if v = PStr ''token'' then Inr Token
     else if v = PStr ''tensor'' then Inr Tensor else Inl ValueError)"

definition split_of :: "pyval \<Rightarrow> split_type result" where
  "split_of v = (if v = PStr ''head'' then Inr HeadSplit
     else if v = PStr ''layer'' then Inr LayerSplit else Inl ValueError)"

text \<open>\<open>type(x) is int\<close> and a range check; a \<open>bool\<close> is not an \<open>int\<close> here.\<close>

definition int_in :: "(int \<Rightarrow> bool) \<Rightarrow> pyval \<Rightarrow> int result" where
  "int_in P v = (case v of PInt i \<Rightarrow> if P i then Inr i else Inl ValueError | _ \<Rightarrow> Inl ValueError)"

text \<open>
  The stage checks: unknown stages (their message sorts them, which can itself raise),
  duplicates, and the order of the stages when there is no \<open>aggregate\<close>.
\<close>

definition ordered_stages :: "stage list \<Rightarrow> bool" where
  "ordered_stages stages \<longleftrightarrow>
     stages = filter (\<lambda>s. s \<in> set stages) [Transformer, Quantizer, Codec]"

definition check_pipeline :: "pyval list \<Rightarrow> stage list result" where
  "check_pipeline p =
     (if \<not> list_all hashable p then Inl TypeError
      else let unknown = filter (\<lambda>v. stage_of v = None) p in
        if unknown \<noteq> [] then (if sort_raises unknown then Inl TypeError else Inl ValueError)
        else let stages = map (the \<circ> stage_of) p in
          if \<not> distinct stages then Inl ValueError
          else if Aggregate \<notin> set stages \<and> \<not> ordered_stages stages then Inl ValueError
          else Inr stages)"

definition check_ratio :: "pyval \<Rightarrow> rat result" where
  "check_ratio v = (case as_num v of None \<Rightarrow> Inl TypeError
     | Some r \<Rightarrow> if 0 \<le> r \<and> r \<le> 1 then Inr r else Inl ValueError)"

text \<open>The part of \<open>from_extra_config\<close> after the dictionary has been normalized.\<close>

definition build_config :: "pydict \<Rightarrow> pyval list \<Rightarrow> config result" where
  "build_config d pipeline =
     (let get = dict_get d;
          levels = int_in (\<lambda>i. 2 \<le> i \<and> i \<le> 256) in
      if \<not> list_all (\<lambda>k. k \<in> set config_fields) (map fst d) then Inl TypeError
      else if get ''transformer'' (PStr ''hadamard'') \<noteq> PStr ''hadamard'' then Inl ValueError
      else if get ''codec'' (PStr ''ans'') \<noteq> PStr ''ans'' then Inl ValueError
      else bind_res (int_in (\<lambda>i. 1 \<le> i) (get ''slot_count'' (PInt 2))) (\<lambda>slot_count.
           bind_res (int_in (\<lambda>i. 1 \<le> i) (get ''logical_blocks_per_chunk'' (PInt 1))) (\<lambda>lbpc.
           bind_res (check_pipeline pipeline) (\<lambda>stages.
           bind_res (check_ratio (get ''hybrid_ratio'' (PFloat (4/5)))) (\<lambda>ratio.
           bind_res (levels (get ''high_key_num_levels'' (PInt 12))) (\<lambda>hk.
           bind_res (levels (get ''high_value_num_levels'' (PInt 8))) (\<lambda>hv.
           bind_res (levels (get ''low_key_num_levels'' (PInt 6))) (\<lambda>lk.
           bind_res (levels (get ''low_value_num_levels'' (PInt 4))) (\<lambda>lv.
           bind_res (split_of (get ''split_type'' (PStr ''layer''))) (\<lambda>split.
           bind_res (axis_of (get ''axis_key'' (PStr ''channel''))) (\<lambda>ak.
           bind_res (axis_of (get ''axis_value'' (PStr ''token''))) (\<lambda>av.
             Inr \<lparr>cfg_enabled = True, cfg_transport = CompressionTransport,
               cfg_seed = get ''seed'' (PInt 3237919422), cfg_split_type = split,
               cfg_score_path = get ''score_path'' PNone, cfg_hybrid_ratio = ratio,
               cfg_axis_key = ak, cfg_axis_value = av,
               cfg_high_key_num_levels = hk, cfg_high_value_num_levels = hv,
               cfg_low_key_num_levels = lk, cfg_low_value_num_levels = lv,
               cfg_slot_count = slot_count, cfg_logical_blocks_per_chunk = lbpc,
               cfg_pipeline = stages\<rparr>))))))))))))"

definition from_extra_config :: "pydict option \<Rightarrow> config result" where
  "from_extra_config arg =
     (let extra = (case arg of None \<Rightarrow> [] | Some d \<Rightarrow> d) in
      bind_res (parse_raw_aggregate extra) (\<lambda>ra. case ra of
        Some (slot_count, lbpc) \<Rightarrow>
          let compression = dict_get extra ''compression'' PNone in
          bind_res (if truthy compression then as_dict compression else Inr []) (\<lambda>_.
            Inr (default_config\<lparr>cfg_enabled := True, cfg_transport := RawAggregateTransport,
              cfg_pipeline := [Aggregate], cfg_slot_count := slot_count,
              cfg_logical_blocks_per_chunk := lbpc\<rparr>))
      | None \<Rightarrow>
          let raw = dict_get extra ''compression'' (PDict []) in
          bind_res (as_dict (if raw = PNone then PDict [] else raw)) (\<lambda>d.
            if \<not> truthy (dict_get d ''enable-compression-pipeline'' (PBool False))
            then Inr (default_config\<lparr>cfg_transport := RawTransport\<rparr>)
            else let normalized = dict_pop d ''enable-compression-pipeline'' in
              bind_res (case map_of normalized ''pipeline'' of
                  None \<Rightarrow> Inr [PStr ''transformer'', PStr ''quantizer'', PStr ''codec'']
                | Some v \<Rightarrow> py_tuple v) (build_config normalized))))"

section \<open>Properties\<close>

text \<open>What the rest of the runtime relies on.\<close>

definition wf_config :: "config \<Rightarrow> bool" where
  "wf_config c \<longleftrightarrow>
     1 \<le> cfg_slot_count c \<and> 1 \<le> cfg_logical_blocks_per_chunk c \<and>
     0 \<le> cfg_hybrid_ratio c \<and> cfg_hybrid_ratio c \<le> 1 \<and>
     (\<forall>n \<in> {cfg_high_key_num_levels c, cfg_high_value_num_levels c,
           cfg_low_key_num_levels c, cfg_low_value_num_levels c}. 2 \<le> n \<and> n \<le> 256) \<and>
     distinct (cfg_pipeline c) \<and>
     (Aggregate \<in> set (cfg_pipeline c) \<or> ordered_stages (cfg_pipeline c))"

lemma wf_default_config [simp]: "wf_config default_config"
  by (simp add: wf_config_def default_config_def ordered_stages_def)

lemma wf_raw_config: "wf_config (default_config\<lparr>cfg_transport := t\<rparr>)"
  by (simp add: wf_config_def default_config_def ordered_stages_def)

lemma wf_aggregate_config:
  "1 \<le> sc \<Longrightarrow> 1 \<le> lb \<Longrightarrow> wf_config (default_config\<lparr>cfg_enabled := True,
     cfg_transport := RawAggregateTransport, cfg_pipeline := [Aggregate],
     cfg_slot_count := sc, cfg_logical_blocks_per_chunk := lb\<rparr>)"
  by (simp add: wf_config_def default_config_def)

lemma check_pipeline_wf:
  "check_pipeline p = Inr stages \<Longrightarrow> distinct stages \<and>
     (Aggregate \<in> set stages \<or> ordered_stages stages)"
  by (auto simp: check_pipeline_def Let_def split: if_split_asm)

lemma int_in_Inr: "int_in P v = Inr i \<longleftrightarrow> v = PInt i \<and> P i"
  by (auto simp: int_in_def split: pyval.splits if_splits)

lemma check_ratio_Inr: "check_ratio v = Inr r \<Longrightarrow> 0 \<le> r \<and> r \<le> 1"
  by (auto simp: check_ratio_def split: option.splits if_splits)

lemma build_config_wf:
  assumes "build_config d p = Inr c"
  shows "wf_config c \<and> cfg_enabled c \<and> cfg_transport c = CompressionTransport"
  using assms unfolding build_config_def Let_def
  apply (split if_split_asm, simp)
  apply (split if_split_asm, simp)
  apply (split if_split_asm, simp)
  apply (elim bind_res_InrE)
  apply (drule check_pipeline_wf, drule check_ratio_Inr)
  apply (simp only: int_in_Inr sum.inject)
  apply (elim conjE, hypsubst)
  apply (simp add: wf_config_def)
  done

lemma parse_raw_aggregate_pos:
  "parse_raw_aggregate extra = Inr (Some (slot_count, lbpc)) \<Longrightarrow> 1 \<le> slot_count \<and> 1 \<le> lbpc"
  unfolding parse_raw_aggregate_def Let_def
  by (auto simp: bind_res_eq_Inr split: option.splits if_splits pyval.splits)

text \<open>
  C39: Whatever JSON object the connector is given, a configuration that
  \<open>from_extra_config\<close> accepts satisfies every bound the planner relies on: at least one
  slot and one block per chunk, a ratio in [0, 1], quantization levels in [2, 256],
  distinct stages, in the order transformer, quantizer, codec unless there is an
  aggregate stage; and it is enabled exactly when its transport is not the raw one.
\<close>

theorem from_extra_config_wf:
  assumes "from_extra_config arg = Inr c"
  shows "wf_config c \<and> (cfg_enabled c \<longleftrightarrow> cfg_transport c \<noteq> RawTransport) \<and>
    (is_raw_aggregate c \<longrightarrow> cfg_pipeline c = [Aggregate])"
proof -
  let ?extra = "case arg of None \<Rightarrow> [] | Some d \<Rightarrow> d"
  from assms obtain ra where ra: "parse_raw_aggregate ?extra = Inr ra"
    by (auto simp: from_extra_config_def Let_def bind_res_eq_Inr)
  show ?thesis
  proof (cases ra)
    case None
    with assms ra show ?thesis
      by (auto simp: from_extra_config_def Let_def bind_res_eq_Inr is_raw_aggregate_def wf_raw_config
          default_config_def[THEN arg_cong[of _ _ cfg_enabled]] split: if_split_asm
          dest: build_config_wf)
  next
    case (Some p)
    with ra have "1 \<le> fst p \<and> 1 \<le> snd p" by (cases p) (simp add: parse_raw_aggregate_pos)
    with assms ra Some show ?thesis
      by (cases p) (auto simp: from_extra_config_def Let_def bind_res_eq_Inr wf_aggregate_config)
  qed
qed

text \<open>A configuration with every optional part present passes, so the property is not vacuous.\<close>

theorem from_extra_config_wf_witness:
  "\<exists>c. from_extra_config (Some [(''compression'', PDict [
       (''enable-compression-pipeline'', PBool True),
       (''pipeline'', PList [PStr ''quantizer'', PStr ''codec'']),
       (''hybrid_ratio'', PFloat (1/2)), (''slot_count'', PInt 4)])]) = Inr c \<and>
     wf_config c \<and> cfg_enabled c \<and> cfg_slot_count c = 4"
proof -
  let ?arg = "Some [(''compression'', PDict [
       (''enable-compression-pipeline'', PBool True),
       (''pipeline'', PList [PStr ''quantizer'', PStr ''codec'']),
       (''hybrid_ratio'', PFloat (1/2)), (''slot_count'', PInt 4)])]"
  let ?c = "default_config\<lparr>cfg_enabled := True, cfg_pipeline := [Quantizer, Codec],
     cfg_hybrid_ratio := 1/2, cfg_slot_count := 4\<rparr>"
  have "from_extra_config ?arg = Inr ?c" by code_simp
  from this from_extra_config_wf[OF this] show ?thesis by (auto simp: default_config_def)
qed

text \<open>
  The raw aggregate transport has priority: when the aggregate key asks for it, the
  resulting configuration does not depend on the compression section at all, which is
  only required to be an object or empty.
\<close>

lemma raw_aggregate_wins:
  assumes "parse_raw_aggregate extra = Inr (Some (slot_count, lbpc))"
    and "\<not> truthy (dict_get extra ''compression'' PNone) \<or>
         (\<exists>d. map_of extra ''compression'' = Some (PDict d))"
  shows "from_extra_config (Some extra) = Inr (default_config\<lparr>cfg_enabled := True,
    cfg_transport := RawAggregateTransport, cfg_pipeline := [Aggregate],
    cfg_slot_count := slot_count, cfg_logical_blocks_per_chunk := lbpc\<rparr>)"
  using assms by (auto simp: from_extra_config_def Let_def as_dict_def dict_get_def)

lemma raw_aggregate_wins_witness:
  "from_extra_config (Some [(''raw_agg'', PDict [(''slot_count'', PStr ''3'')]),
      (''compression'', PDict [(''enable-compression-pipeline'', PBool True),
         (''codec'', PStr ''lc'')])]) =
   Inr (default_config\<lparr>cfg_enabled := True, cfg_transport := RawAggregateTransport,
     cfg_pipeline := [Aggregate], cfg_slot_count := 3, cfg_logical_blocks_per_chunk := 160\<rparr>)"
  by (rule raw_aggregate_wins) (code_simp, simp)

end
