(* ===== verification/Workspace_Allocator.thy ===== *)
theory Workspace_Allocator
  imports Runtime_Spec
begin

text \<open>
  The fixed workspace allocator handed to nvCOMP
  (\<^verbatim>\<open>compression/runtime/memory.py\<close>, \<open>_PoolAllocation\<close> and
  \<open>FixedWorkspaceAllocator\<close>): best fit over a free list of byte regions, coalescing on
  release.  An allocation object is live from \<open>__call__\<close> until its \<open>__del__\<close> runs
  \<open>release\<close>; the machine below interleaves both freely.
\<close>

section \<open>Model\<close>

record workspace =
  ws_base :: int
  ws_size :: int
  ws_free :: "region list"

record pool_allocation =
  pa_offset :: int
  pa_nbytes :: int
  pa_ptr :: int

definition FixedWorkspaceAllocator :: "int \<Rightarrow> int \<Rightarrow> workspace" where
  "FixedWorkspaceAllocator base n = \<lparr>ws_base = base, ws_size = n, ws_free = [(0, n)]\<rparr>"

definition PoolAllocation :: "workspace \<Rightarrow> int \<Rightarrow> int \<Rightarrow> pool_allocation" where
  "PoolAllocation w off nbytes = \<lparr>pa_offset = off, pa_nbytes = nbytes, pa_ptr = ws_base w + off\<rparr>"

definition alloc_candidates :: "int \<Rightarrow> region list \<Rightarrow> (int \<times> nat \<times> int) list" where
  "alloc_candidates nb free =
     [(len, index, off). (index, off, len) \<leftarrow> zip [0..<length free] free, nb \<le> len]"

text \<open>\<open>del self._free[index]\<close>\<close>

definition del_index :: "nat \<Rightarrow> 'a list \<Rightarrow> 'a list" where
  "del_index i xs = take i xs @ drop (Suc i) xs"

text \<open>\<open>__call__\<close>: \<open>min\<close> of no candidates raises before the free list is touched.\<close>

definition ws_alloc :: "workspace \<Rightarrow> int \<Rightarrow> (workspace \<times> pool_allocation) result" where
  "ws_alloc w nbytes =
     (let nb = round_up nbytes ALIGNMENT in
      bind_res (py_min (alloc_candidates nb (ws_free w))) (\<lambda>(len, index, off).
        let free = del_index index (ws_free w);
            free' = (if nb < len then free @ [(off + nb, len - nb)] else free)
        in Inr (w\<lparr>ws_free := free'\<rparr>, PoolAllocation w off nb)))"

text \<open>The merge loop of \<open>release\<close>; the accumulator holds \<open>merged\<close> with its last element first.\<close>

fun merge_free :: "region list \<Rightarrow> region list \<Rightarrow> region list" where
  "merge_free merged [] = rev merged"
| "merge_free [] ((off, len) # rest) = merge_free [(off, len)] rest"
| "merge_free ((poff, plen) # merged) ((off, len) # rest) =
     (if poff + plen = off then merge_free ((poff, plen + len) # merged) rest
      else merge_free ((off, len) # (poff, plen) # merged) rest)"

definition ws_release :: "workspace \<Rightarrow> int \<Rightarrow> int \<Rightarrow> workspace" where
  "ws_release w off nbytes =
     w\<lparr>ws_free := merge_free [] (sort (ws_free w @ [(off, nbytes)]))\<rparr>"

text \<open>
  The allocator together with the allocations that are alive.  \<open>least\<close> bounds the request
  sizes from below: \<open>0\<close> admits every request, \<open>1\<close> excludes empty ones.
\<close>

type_synonym ws_state = "workspace \<times> pool_allocation list"

inductive ws_step :: "int \<Rightarrow> ws_state \<Rightarrow> ws_state \<Rightarrow> bool" for least where
  call: "ws_alloc w nbytes = Inr (w', a) \<Longrightarrow> least \<le> nbytes \<Longrightarrow>
    ws_step least (w, live) (w', a # live)"
| del: "i < length live \<Longrightarrow>
    ws_step least (w, live)
      (ws_release w (pa_offset (live ! i)) (pa_nbytes (live ! i)), del_index i live)"

definition ws_init :: "int \<Rightarrow> int \<Rightarrow> ws_state \<Rightarrow> bool" where
  "ws_init base n s \<longleftrightarrow> 0 \<le> n \<and> s = (FixedWorkspaceAllocator base n, [])"

section \<open>Occupancy\<close>

text \<open>How many regions of a list contain an address.\<close>

definition occ :: "int \<Rightarrow> region list \<Rightarrow> nat" where
  "occ x rs = length (filter (\<lambda>r. x \<in> region_set r) rs)"

abbreviation live_regions :: "pool_allocation list \<Rightarrow> region list" where
  "live_regions live \<equiv> map (\<lambda>a. (pa_offset a, pa_nbytes a)) live"

lemma occ_simps [simp]:
  "occ x [] = 0"
  "occ x (rs @ rs') = occ x rs + occ x rs'"
  "occ x ((off, len) # rs) = (if off \<le> x \<and> x < off + len then 1 else 0) + occ x rs"
  by (auto simp: occ_def region_set_def)

lemma occ_rev [simp]: "occ x (rev rs) = occ x rs"
  by (simp add: occ_def rev_filter[symmetric])

lemma occ_mset: "mset rs = mset rs' \<Longrightarrow> occ x rs = occ x rs'"
  unfolding occ_def by (metis mset_filter size_mset)

lemma occ_sort [simp]: "occ x (sort rs) = occ x rs"
  by (rule occ_mset) simp

lemma occ_pos_iff: "0 < occ x rs \<longleftrightarrow> (\<exists>r \<in> set rs. x \<in> region_set r)"
  by (auto simp: occ_def filter_empty_conv)

lemma occ_pos: "r \<in> set rs \<Longrightarrow> x \<in> region_set r \<Longrightarrow> 0 < occ x rs"
  by (auto simp: occ_def filter_empty_conv)

lemma mset_del_index: "i < length xs \<Longrightarrow> mset xs = add_mset (xs ! i) (mset (del_index i xs))"
  unfolding del_index_def
  by (metis add_mset_add_single append_take_drop_id Cons_nth_drop_Suc mset.simps(2)
      mset_append union_mset_add_mset_right)

lemma set_del_index: "set (del_index i xs) \<subseteq> set xs"
  by (auto simp: del_index_def dest: in_set_takeD in_set_dropD)

lemma list_all_del_index: "list_all P xs \<Longrightarrow> list_all P (del_index i xs)"
  using set_del_index[of i xs] by (auto simp: list_all_iff)

lemma map_del_index: "map f (del_index i xs) = del_index i (map f xs)"
  by (simp add: del_index_def take_map drop_map)

lemma occ_del_index:
  "i < length rs \<Longrightarrow>
   occ x rs = (if x \<in> region_set (rs ! i) then 1 else 0) + occ x (del_index i rs)"
  using occ_mset[of rs "rs ! i # del_index i rs"] mset_del_index[of i rs]
  by (cases "rs ! i") (auto simp: region_set_def)

abbreviation nonneg_lens :: "region list \<Rightarrow> bool" where
  "nonneg_lens rs \<equiv> list_all (\<lambda>r. 0 \<le> snd r) rs"

lemma occ_merge_free:
  "nonneg_lens merged \<Longrightarrow> nonneg_lens rs \<Longrightarrow> occ x (merge_free merged rs) = occ x merged + occ x rs"
  by (induction merged rs rule: merge_free.induct) auto

lemma merge_free_nonneg:
  "nonneg_lens merged \<Longrightarrow> nonneg_lens rs \<Longrightarrow> nonneg_lens (merge_free merged rs)"
  by (induction merged rs rule: merge_free.induct) (auto simp: list_all_iff)

lemma in_alloc_candidates:
  "(len, index, off) \<in> set (alloc_candidates nb free) \<longleftrightarrow>
     index < length free \<and> free ! index = (off, len) \<and> nb \<le> len"
  by (auto simp: alloc_candidates_def set_zip intro: exI[of _ index])

section \<open>The allocator invariant\<close>

text \<open>
  Every address of the buffer is in exactly one region, free or live; no region leaves the
  buffer; no length is negative.
\<close>

definition ws_inv :: "int \<Rightarrow> int \<Rightarrow> ws_state \<Rightarrow> bool" where
  "ws_inv base n s \<longleftrightarrow>
     ws_base (fst s) = base \<and> ws_size (fst s) = n \<and>
     (\<forall>x. occ x (ws_free (fst s) @ live_regions (snd s)) = (if 0 \<le> x \<and> x < n then 1 else 0)) \<and>
     nonneg_lens (ws_free (fst s) @ live_regions (snd s)) \<and>
     (\<forall>a \<in> set (snd s). pa_ptr a = base + pa_offset a)"

lemma ws_inv_init: "ws_init base n s \<Longrightarrow> ws_inv base n s"
  by (auto simp: ws_init_def ws_inv_def FixedWorkspaceAllocator_def)

text \<open>What a successful allocation did: it split or removed the best fitting free region.\<close>

lemma ws_allocE:
  assumes "ws_alloc w nbytes = Inr (w', a)"
  obtains i len where "i < length (ws_free w)"
    and "ws_free w ! i = (pa_offset a, len)" and "pa_nbytes a = round256 nbytes"
    and "round256 nbytes \<le> len" and "a = PoolAllocation w (pa_offset a) (round256 nbytes)"
    and "\<forall>r \<in> set (ws_free w). round256 nbytes \<le> snd r \<longrightarrow> len \<le> snd r"
    and "w' = w\<lparr>ws_free := del_index i (ws_free w) @
           (if round256 nbytes < len
            then [(pa_offset a + round256 nbytes, len - round256 nbytes)] else [])\<rparr>"
proof -
  obtain len i off where m: "py_min (alloc_candidates (round256 nbytes) (ws_free w)) = Inr (len, i, off)"
    and r: "a = PoolAllocation w off (round256 nbytes)"
    and w': "w' = w\<lparr>ws_free := del_index i (ws_free w) @
           (if round256 nbytes < len then [(off + round256 nbytes, len - round256 nbytes)] else [])\<rparr>"
    using assms by (auto simp: ws_alloc_def Let_def bind_res_eq_Inr split: if_splits)
  have mem: "(len, i, off) \<in> set (alloc_candidates (round256 nbytes) (ws_free w))"
    and least: "\<forall>c \<in> set (alloc_candidates (round256 nbytes) (ws_free w)). (len, i, off) \<le> c"
    using py_min_Inr[OF m] by auto
  have best: "len \<le> snd r" if "r \<in> set (ws_free w)" and "round256 nbytes \<le> snd r" for r
  proof -
    obtain j where "j < length (ws_free w)" "ws_free w ! j = r"
      using \<open>r \<in> set (ws_free w)\<close> by (auto simp: in_set_conv_nth)
    then have "(snd r, j, fst r) \<in> set (alloc_candidates (round256 nbytes) (ws_free w))"
      using that by (simp add: in_alloc_candidates)
    then have "(len, i, off) \<le> (snd r, j, fst r)" using least by blast
    then show ?thesis by (auto simp: less_eq_prod_def)
  qed
  show ?thesis
    using that[of i len] mem r w' best by (auto simp: in_alloc_candidates PoolAllocation_def)
qed

lemma ws_inv_transfer:
  assumes "ws_inv base n (w, live)" and "ws_base w' = ws_base w" and "ws_size w' = ws_size w"
    and "\<And>x. occ x (ws_free w') + occ x (live_regions live') =
           occ x (ws_free w) + occ x (live_regions live)"
    and "nonneg_lens (ws_free w')" and "nonneg_lens (live_regions live')"
    and "\<And>a. a \<in> set live' \<Longrightarrow> pa_ptr a = ws_base w + pa_offset a"
  shows "ws_inv base n (w', live')"
  using assms by (simp add: ws_inv_def)

lemma ws_call_inv:
  assumes inv: "ws_inv base n (w, live)" and al: "ws_alloc w nbytes = Inr (w', a)" and "0 \<le> nbytes"
  shows "ws_inv base n (w', a # live)"
proof -
  from al obtain i len where i: "i < length (ws_free w)"
    and fr: "ws_free w ! i = (pa_offset a, len)" and sz: "pa_nbytes a = round256 nbytes"
    and fit: "round256 nbytes \<le> len" and a: "a = PoolAllocation w (pa_offset a) (round256 nbytes)"
    and w': "w' = w\<lparr>ws_free := del_index i (ws_free w) @
           (if round256 nbytes < len
            then [(pa_offset a + round256 nbytes, len - round256 nbytes)] else [])\<rparr>"
    by (rule ws_allocE)
  have nn: "0 \<le> round256 nbytes" using assms(3) by simp
  show ?thesis
  proof (rule ws_inv_transfer[OF inv])
    show "occ x (ws_free w') + occ x (live_regions (a # live)) =
        occ x (ws_free w) + occ x (live_regions live)" for x
      using occ_del_index[OF i, of x] fr sz fit w' nn by (auto simp: region_set_def)
    show "nonneg_lens (ws_free w')"
      using inv set_del_index[of i "ws_free w"] w' fit by (auto simp: ws_inv_def list_all_iff)
    show "nonneg_lens (live_regions (a # live))"
      using inv sz nn by (simp add: ws_inv_def)
    have "pa_ptr a = ws_base w + pa_offset a"
      using arg_cong[OF a, of pa_ptr] by (simp add: PoolAllocation_def)
    then show "pa_ptr b = ws_base w + pa_offset b" if "b \<in> set (a # live)" for b
      using that inv by (auto simp: ws_inv_def)
  qed (use w' in simp_all)
qed

lemma ws_del_inv:
  assumes inv: "ws_inv base n (w, live)" and i: "i < length live"
  shows "ws_inv base n (ws_release w (pa_offset (live ! i)) (pa_nbytes (live ! i)), del_index i live)"
    (is "ws_inv base n (?w', _)")
proof (rule ws_inv_transfer[OF inv])
  let ?r = "(pa_offset (live ! i), pa_nbytes (live ! i))"
  have nn: "nonneg_lens (sort (ws_free w @ [?r]))"
    using inv nth_mem[OF i] by (auto simp: ws_inv_def list_all_iff ball_Un)
  have lv: "live_regions (del_index i live) = del_index i (live_regions live)"
    by (rule map_del_index)
  show "occ x (ws_free ?w') + occ x (live_regions (del_index i live)) =
      occ x (ws_free w) + occ x (live_regions live)" for x
    using occ_merge_free[OF _ nn, of "[]" x] lv occ_del_index[of i "live_regions live" x] i
    by (auto simp: region_set_def ws_release_def)
  show "nonneg_lens (ws_free ?w')"
    using merge_free_nonneg[OF _ nn, of "[]"] by (simp add: ws_release_def)
  show "nonneg_lens (live_regions (del_index i live))"
    using inv unfolding map_del_index by (intro list_all_del_index) (simp add: ws_inv_def)
  show "pa_ptr a = ws_base w + pa_offset a" if "a \<in> set (del_index i live)" for a
    using that inv set_del_index[of i live] by (auto simp: ws_inv_def)
qed (simp_all add: ws_release_def)

interpretation ws: inductive_invariant "ws_init base n" "ws_step 0" "ws_inv base n" for base n
proof
  show "ws_inv base n s" if "ws_init base n s" for s using that by (rule ws_inv_init)
  show "ws_inv base n t" if "ws_inv base n s" and "ws_step 0 s t" for s t
    using that(2,1) by (cases rule: ws_step.cases) (auto intro: ws_call_inv ws_del_inv)
qed

section \<open>Coalescing\<close>

text \<open>A list of regions that covers \<open>[lo, hi)\<close> end to end.\<close>

fun tiles :: "int \<Rightarrow> int \<Rightarrow> region list \<Rightarrow> bool" where
  "tiles lo hi [] \<longleftrightarrow> lo = hi"
| "tiles lo hi ((off, len) # rs) \<longleftrightarrow> off = lo \<and> tiles (off + len) hi rs"

abbreviation pos_lens :: "region list \<Rightarrow> bool" where
  "pos_lens rs \<equiv> list_all (\<lambda>r. 0 < snd r) rs"

lemma occ_below: "(\<And>r. r \<in> set rs \<Longrightarrow> x < fst r) \<Longrightarrow> occ x rs = 0"
  by (fastforce simp: occ_def filter_empty_conv region_set_def)

lemma sorted_cover_tiles:
  "sorted rs \<Longrightarrow> pos_lens rs \<Longrightarrow> lo \<le> hi \<Longrightarrow>
   (\<And>x. occ x rs = (if lo \<le> x \<and> x < hi then 1 else 0)) \<Longrightarrow> tiles lo hi rs"
proof (induction rs arbitrary: lo)
  case Nil
  from Nil.prems(4)[of lo] Nil.prems(3) show ?case by (auto split: if_splits)
next
  case (Cons r rs)
  obtain off len where r: "r = (off, len)" by (cases r)
  have len: "0 < len" using Cons.prems(2) r by simp
  have later: "off \<le> fst q" if "q \<in> set rs" for q
    using that Cons.prems(1) r by (auto simp: less_eq_prod_def)
  note cover = Cons.prems(4)
  have in1: "lo \<le> x \<and> x < hi \<and> occ x rs = 0" if "off \<le> x" "x < off + len" for x
    using cover[of x] that r by (auto split: if_splits)
  have "lo \<le> off" and hi: "off + len \<le> hi"
    using in1[of off] in1[of "off + len - 1"] len by auto
  moreover have "\<not> lo < off"
  proof
    assume "lo < off"
    then have "occ lo (r # rs) = 0" using later r by (intro occ_below) force
    then show False using cover[of lo] \<open>lo < off\<close> hi len by (auto split: if_splits)
  qed
  ultimately have off: "off = lo" by simp
  have "tiles (off + len) hi rs"
  proof (rule Cons.IH)
    show "occ x rs = (if off + len \<le> x \<and> x < hi then 1 else 0)" for x
      using cover[of x] in1[of x] r off len by (auto split: if_splits)
  qed (use Cons.prems hi in auto)
  then show ?case using r off by simp
qed

lemma merge_free_tiles:
  "tiles (poff + plen) hi rs \<Longrightarrow> merge_free [(poff, plen)] rs = [(poff, hi - poff)]"
proof (induction rs arbitrary: plen)
  case (Cons r rs)
  then show ?case by (cases r) (auto simp: algebra_simps)
qed auto

lemma merge_free_whole:
  assumes "tiles 0 n rs" and "rs \<noteq> []"
  shows "merge_free [] rs = [(0, n)]"
  using assms merge_free_tiles[of 0 _ n] by (cases rs) auto

lemma merge_free_pos: "pos_lens merged \<Longrightarrow> pos_lens rs \<Longrightarrow> pos_lens (merge_free merged rs)"
  by (induction merged rs rule: merge_free.induct) (auto simp: list_all_iff)

text \<open>The stronger invariant when no request is empty.\<close>

definition ws_inv_pos :: "int \<Rightarrow> int \<Rightarrow> ws_state \<Rightarrow> bool" where
  "ws_inv_pos base n s \<longleftrightarrow> ws_inv base n s \<and>
     pos_lens (ws_free (fst s)) \<and> pos_lens (live_regions (snd s)) \<and>
     (snd s = [] \<longrightarrow> ws_free (fst s) = [(0, n)])"

lemma ws_call_inv_pos:
  assumes "ws_inv_pos base n (w, live)" and "ws_alloc w nbytes = Inr (w', a)" and "1 \<le> nbytes"
  shows "ws_inv_pos base n (w', a # live)"
proof -
  have inv: "ws_inv base n (w', a # live)"
    using assms by (intro ws_call_inv) (auto simp: ws_inv_pos_def)
  have "0 < round256 nbytes" using round256_ge[of nbytes] assms(3) by linarith
  with assms(2) have "pos_lens (ws_free w')" "0 < pa_nbytes a"
    using assms(1) by (auto elim!: ws_allocE simp: ws_inv_pos_def intro!: list_all_del_index)
  then show ?thesis using inv assms(1) by (auto simp: ws_inv_pos_def)
qed

lemma ws_del_inv_pos:
  assumes inv: "ws_inv_pos base n (w, live)" and i: "i < length live"
  shows "ws_inv_pos base n
    (ws_release w (pa_offset (live ! i)) (pa_nbytes (live ! i)), del_index i live)"
    (is "ws_inv_pos base n (?w', ?live')")
proof -
  let ?rs = "sort (ws_free w @ [(pa_offset (live ! i), pa_nbytes (live ! i))])"
  have i': "ws_inv base n (?w', ?live')"
    using inv i by (intro ws_del_inv) (auto simp: ws_inv_pos_def)
  have pos: "pos_lens ?rs"
    using inv nth_mem[OF i] by (auto simp: ws_inv_pos_def list_all_iff ball_Un)
  have "ws_free ?w' = [(0, n)]" if "?live' = []"
  proof -
    have "nonneg_lens ?rs" using pos by (auto simp: list_all_iff)
    then have "occ x ?rs = occ x (ws_free ?w')" for x
      using occ_merge_free[of "[]" ?rs x] by (simp add: ws_release_def)
    then have cover: "occ x ?rs = (if 0 \<le> x \<and> x < n then 1 else 0)" for x
      using i' that by (simp add: ws_inv_def)
    have "0 \<le> n"
      using cover[of "pa_offset (live ! i)"] inv nth_mem[OF i]
      by (auto simp: ws_inv_pos_def list_all_iff ball_Un split: if_splits)
    then have "tiles 0 n ?rs" using pos cover by (intro sorted_cover_tiles) auto
    moreover have "?rs \<noteq> []" by (metis append_is_Nil_conv list.distinct(1) mset_sort mset_zero_iff)
    ultimately show ?thesis using merge_free_whole[of n ?rs] by (simp add: ws_release_def)
  qed
  moreover have "pos_lens (ws_free ?w')"
    using merge_free_pos[OF _ pos, of "[]"] by (simp add: ws_release_def)
  moreover have "pos_lens (live_regions ?live')"
    using inv unfolding map_del_index by (intro list_all_del_index) (simp add: ws_inv_pos_def)
  ultimately show ?thesis using i' by (simp add: ws_inv_pos_def)
qed

definition ws_init_pos :: "int \<Rightarrow> int \<Rightarrow> ws_state \<Rightarrow> bool" where
  "ws_init_pos base n s \<longleftrightarrow> 0 < n \<and> ws_init base n s"

interpretation ws_pos: inductive_invariant "ws_init_pos base n" "ws_step 1" "ws_inv_pos base n"
  for base n
proof
  show "ws_inv_pos base n s" if "ws_init_pos base n s" for s
    using that ws_inv_init[of base n s]
    by (auto simp: ws_init_pos_def ws_inv_pos_def ws_init_def FixedWorkspaceAllocator_def)
  show "ws_inv_pos base n t" if "ws_inv_pos base n s" and "ws_step 1 s t" for s t
    using that(2,1) by (cases rule: ws_step.cases) (auto intro: ws_call_inv_pos ws_del_inv_pos)
qed

section \<open>Alignment\<close>

definition ws_aligned :: "ws_state \<Rightarrow> bool" where
  "ws_aligned s \<longleftrightarrow>
     list_all (\<lambda>r. ALIGNMENT dvd fst r) (ws_free (fst s) @ live_regions (snd s))"

lemma merge_free_offsets: "list_all (\<lambda>r. P (fst r)) merged \<Longrightarrow> list_all (\<lambda>r. P (fst r)) rs \<Longrightarrow>
    list_all (\<lambda>r. P (fst r)) (merge_free merged rs)"
  by (induction merged rs rule: merge_free.induct) (auto simp: list_all_iff)

interpretation ws_al: inductive_invariant "ws_init base n" "ws_step 0" ws_aligned for base n
proof
  show "ws_aligned s" if "ws_init base n s" for s
    using that by (auto simp: ws_init_def ws_aligned_def FixedWorkspaceAllocator_def)
  show "ws_aligned t" if al: "ws_aligned s" and st: "ws_step 0 s t" for s t
    using st
  proof cases
    case (call w nbytes w' a live)
    have fr: "list_all (\<lambda>r. ALIGNMENT dvd fst r) (ws_free w)" using al call by (simp add: ws_aligned_def)
    from call(3) obtain i len where i: "i < length (ws_free w)" "ws_free w ! i = (pa_offset a, len)"
      and w': "w' = w\<lparr>ws_free := del_index i (ws_free w) @
           (if round256 nbytes < len
            then [(pa_offset a + round256 nbytes, len - round256 nbytes)] else [])\<rparr>"
      by (rule ws_allocE)
    have "ALIGNMENT dvd pa_offset a" using fr i by (metis fst_conv list_all_length)
    moreover have "list_all (\<lambda>r. ALIGNMENT dvd fst r) (del_index i (ws_free w))"
      by (rule list_all_del_index[OF fr])
    ultimately show ?thesis using al call w' by (simp add: ws_aligned_def)
  next
    case (del i live w)
    then have "list_all (\<lambda>r. ALIGNMENT dvd fst r)
        (sort (ws_free w @ [(pa_offset (live ! i), pa_nbytes (live ! i))]))"
      using al nth_mem[OF del(3)] by (auto simp: ws_aligned_def list_all_iff ball_Un)
    then show ?thesis
      using al del unfolding ws_aligned_def ws_release_def
      by (auto intro!: merge_free_offsets list_all_del_index simp: map_del_index)
  qed
qed

section \<open>Properties\<close>

lemma nth_in_del_index: "j < length xs \<Longrightarrow> j \<noteq> i \<Longrightarrow> xs ! j \<in> set (del_index i xs)"
proof (cases "j < i")
  case True
  assume "j < length xs"
  with True have "xs ! j \<in> set (take i xs)" by (auto simp: in_set_conv_nth intro!: exI[of _ j])
  then show ?thesis by (simp add: del_index_def)
next
  case False
  assume "j < length xs" "j \<noteq> i"
  with False have "xs ! j \<in> set (drop (Suc i) xs)"
    by (auto simp: in_set_conv_nth intro!: exI[of _ "j - Suc i"])
  then show ?thesis by (simp add: del_index_def)
qed

lemma occ_le1_disjoint:
  assumes "\<And>x. occ x rs \<le> 1"
  shows "disjoint_regions rs"
  unfolding disjoint_regions_def
proof (intro allI impI, rule ccontr)
  fix i j
  assume ij: "i < length rs" "j < length rs" "i \<noteq> j"
    and "region_set (rs ! i) \<inter> region_set (rs ! j) \<noteq> {}"
  then obtain x where x: "x \<in> region_set (rs ! i)" "x \<in> region_set (rs ! j)" by auto
  have "0 < occ x (del_index i rs)"
    using nth_in_del_index[OF ij(2) ij(3)[symmetric]] x(2) by (rule occ_pos)
  then show False using occ_del_index[OF ij(1), of x] x(1) assms[of x] by simp
qed

text \<open>
  C1: In every state the allocator can reach, through any interleaving of allocations and
  releases, the free regions and the live allocations are pairwise disjoint and together
  cover the workspace exactly; each live allocation starts on a 256-byte boundary, stays
  inside the buffer, and its pointer is the buffer's address plus its offset.
\<close>

theorem ws_live_allocations_safe:
  assumes "reach (ws_init base n) (ws_step 0) (w, live)"
  shows "disjoint_regions (ws_free w @ live_regions live) \<and>
    \<Union> (region_set ` set (ws_free w @ live_regions live)) = {0..<n} \<and>
    (\<forall>a \<in> set live. ALIGNMENT dvd pa_offset a \<and> pa_ptr a = base + pa_offset a)"
proof (intro conjI)
  have inv: "ws_inv base n (w, live)" using assms by (rule ws.reach_inv)
  then have occ: "occ x (ws_free w @ live_regions live) = (if 0 \<le> x \<and> x < n then 1 else 0)" for x
    by (simp add: ws_inv_def)
  show "disjoint_regions (ws_free w @ live_regions live)"
    by (rule occ_le1_disjoint) (simp only: occ, simp)
  have "(\<exists>r \<in> set (ws_free w @ live_regions live). x \<in> region_set r) \<longleftrightarrow> 0 \<le> x \<and> x < n" for x
    using occ[of x] by (subst occ_pos_iff[symmetric]) (auto split: if_splits)
  then show "\<Union> (region_set ` set (ws_free w @ live_regions live)) = {0..<n}"
    by (auto simp: set_eq_iff)
  show "\<forall>a \<in> set live. ALIGNMENT dvd pa_offset a \<and> pa_ptr a = base + pa_offset a"
    using inv ws_al.reach_inv[OF assms] by (auto simp: ws_inv_def ws_aligned_def list_all_iff ball_Un)
qed

text \<open>
  An allocation fails (with the \<open>ValueError\<close> of \<open>min([])\<close>) exactly when no free region
  is as long as the rounded request; otherwise it takes its bytes from the start of a
  shortest region that is long enough (best fit).
\<close>

lemma ws_alloc_best_fit:
  "(ws_alloc w nbytes = Inl e \<longleftrightarrow>
      e = ValueError \<and> (\<forall>r \<in> set (ws_free w). snd r < round256 nbytes)) \<and>
   (\<forall>w' a. ws_alloc w nbytes = Inr (w', a) \<longrightarrow>
      pa_nbytes a = round256 nbytes \<and>
      (\<exists>len. (pa_offset a, len) \<in> set (ws_free w) \<and> round256 nbytes \<le> len \<and>
         (\<forall>r \<in> set (ws_free w). round256 nbytes \<le> snd r \<longrightarrow> len \<le> snd r)))"
proof (intro conjI allI impI)
  have "alloc_candidates (round256 nbytes) (ws_free w) = [] \<longleftrightarrow>
      (\<forall>l i off. (l, i, off) \<notin> set (alloc_candidates (round256 nbytes) (ws_free w)))"
    by (cases "alloc_candidates (round256 nbytes) (ws_free w)") fastforce+
  also have "\<dots> \<longleftrightarrow> (\<forall>r \<in> set (ws_free w). snd r < round256 nbytes)"
    by (auto simp: in_alloc_candidates all_set_conv_all_nth not_le) (metis not_le prod.collapse)
  finally show "ws_alloc w nbytes = Inl e \<longleftrightarrow>
      e = ValueError \<and> (\<forall>r \<in> set (ws_free w). snd r < round256 nbytes)"
    by (auto simp: ws_alloc_def Let_def bind_res_eq_Inl py_min_Inl)
next
  fix w' a assume "ws_alloc w nbytes = Inr (w', a)"
  then show "pa_nbytes a = round256 nbytes"
    and "\<exists>len. (pa_offset a, len) \<in> set (ws_free w) \<and> round256 nbytes \<le> len \<and>
         (\<forall>r \<in> set (ws_free w). round256 nbytes \<le> snd r \<longrightarrow> len \<le> snd r)"
    by (auto elim!: ws_allocE) (metis nth_mem)
qed

lemma ws_alloc_best_fit_witness:
  "\<exists>w' a. ws_alloc \<lparr>ws_base = 0, ws_size = 4096, ws_free = [(0, 1024), (2048, 512)]\<rparr> 300 = Inr (w', a) \<and>
     pa_nbytes a = 512 \<and> pa_offset a = 2048 \<and>
     ws_alloc \<lparr>ws_base = 0, ws_size = 4096, ws_free = [(0, 1024), (2048, 512)]\<rparr> 1025 = Inl ValueError"
proof -
  let ?w = "\<lparr>ws_base = 0, ws_size = 4096, ws_free = [(0, 1024), (2048, 512)]\<rparr>"
  have r: "ws_alloc ?w 300 = Inr (\<lparr>ws_base = 0, ws_size = 4096, ws_free = [(0, 1024)]\<rparr>,
      \<lparr>pa_offset = 2048, pa_nbytes = 512, pa_ptr = 2048\<rparr>)" by code_simp
  have "round256 300 = 512" "round256 1025 = 1280" by code_simp+
  then show ?thesis using ws_alloc_best_fit[of ?w 1025 ValueError] ws_alloc_best_fit[of ?w 300] r by auto
qed

text \<open>
  C9: As long as no request is empty, releasing every allocation restores the workspace
  completely: whatever happened before, with nothing live the free list is the single
  region of the whole buffer again, so fragmentation never outlives the allocations.
\<close>

theorem ws_release_all_coalesces:
  assumes "reach (ws_init_pos base n) (ws_step 1) (w, [])"
  shows "ws_free w = [(0, n)]"
  using ws_pos.reach_inv[OF assms] by (simp add: ws_inv_pos_def)

lemma ws_step_callI:
  "ws_alloc w nbytes = Inr r \<Longrightarrow> least \<le> nbytes \<Longrightarrow>
    ws_step least (w, live) (fst r, snd r # live)"
  by (cases r) (simp add: ws_step.call)

lemma ws_example_run:
  "reach (ws_init_pos 4096 1024) (ws_step 1)
     (\<lparr>ws_base = 4096, ws_size = 1024, ws_free = [(512, 512)]\<rparr>,
      [\<lparr>pa_offset = 256, pa_nbytes = 256, pa_ptr = 4352\<rparr>,
       \<lparr>pa_offset = 0, pa_nbytes = 256, pa_ptr = 4096\<rparr>])"
proof -
  let ?w0 = "FixedWorkspaceAllocator 4096 1024"
  let ?w1 = "\<lparr>ws_base = 4096, ws_size = 1024, ws_free = [(256, 768)]\<rparr>"
  let ?a = "\<lparr>pa_offset = 0, pa_nbytes = 256, pa_ptr = 4096\<rparr>"
  have 0: "reach (ws_init_pos 4096 1024) (ws_step 1) (?w0, [])"
    by (rule reach_init) (simp add: ws_init_pos_def ws_init_def)
  have "ws_alloc ?w0 100 = Inr (?w1, ?a)" by code_simp
  from ws_step_callI[OF this, of 1 "[]"] have 1: "reach (ws_init_pos 4096 1024) (ws_step 1) (?w1, [?a])"
    using reach_step[OF 0] by simp
  have "ws_alloc ?w1 256 = Inr (\<lparr>ws_base = 4096, ws_size = 1024, ws_free = [(512, 512)]\<rparr>,
      \<lparr>pa_offset = 256, pa_nbytes = 256, pa_ptr = 4352\<rparr>)" by code_simp
  from ws_step_callI[OF this, of 1 "[?a]"] show ?thesis using reach_step[OF 1] by simp
qed

lemma ws_step_mono: "ws_step m s t \<Longrightarrow> k \<le> m \<Longrightarrow> ws_step k s t"
  by (induction rule: ws_step.induct) (auto intro: ws_step.intros)

lemma reach_ws_mono:
  "reach (ws_init_pos base n) (ws_step 1) s \<Longrightarrow> reach (ws_init base n) (ws_step 0) s"
proof (induction rule: reach.induct)
  case (reach_init s)
  then show ?case by (auto intro: reach.reach_init simp: ws_init_pos_def)
next
  case (reach_step s t)
  then show ?case by (auto intro: reach.reach_step dest: ws_step_mono[where k = 0])
qed

theorem ws_live_allocations_safe_witness:
  "disjoint_regions [(512, 512), (256, 256), (0, 256)] \<and>
   \<Union> (region_set ` {(512, 512), (256, 256), (0, 256)}) = {0..<1024}"
  using ws_live_allocations_safe[OF reach_ws_mono[OF ws_example_run]] by simp

lemma ws_release_run:
  "reach (ws_init_pos 4096 1024) (ws_step 1)
     (\<lparr>ws_base = 4096, ws_size = 1024, ws_free = [(0, 1024)]\<rparr>, [])"
proof -
  let ?w = "\<lambda>free. \<lparr>ws_base = 4096, ws_size = 1024, ws_free = free\<rparr>"
  have "ws_release (?w [(512, 512)]) 256 256 = ?w [(256, 768)]" by code_simp
  then have 1: "reach (ws_init_pos 4096 1024) (ws_step 1)
      (?w [(256, 768)], [\<lparr>pa_offset = 0, pa_nbytes = 256, pa_ptr = 4096\<rparr>])"
    using reach_step[OF ws_example_run ws_step.del[of 0]] by (simp add: del_index_def)
  have "ws_release (?w [(256, 768)]) 0 256 = ?w [(0, 1024)]" by code_simp
  then show ?thesis using reach_step[OF 1 ws_step.del[of 0]] by (simp add: del_index_def)
qed

theorem ws_release_all_coalesces_witness:
  "ws_free \<lparr>ws_base = 4096, ws_size = 1024, ws_free = [(0, 1024)]\<rparr> = [(0, 1024)]"
  by (rule ws_release_all_coalesces[OF ws_release_run])

text \<open>
  Why the previous property excludes empty requests: an empty allocation that outlives its
  neighbour comes back as an empty region inside a larger one and is never merged.
\<close>

lemma ws_empty_region_residue:
  "ws_free (ws_release \<lparr>ws_base = 0, ws_size = 1024, ws_free = [(0, 1024)]\<rparr> 256 0) =
     [(0, 1024), (256, 0)]"
  by code_simp

end
