(* ===== verification/Runtime_Layout.thy ===== *)
theory Runtime_Layout
  imports Runtime_Spec Runtime_Config Workspace_Allocator
begin

text \<open>
  The byte layout of one compressed chunk (\<^verbatim>\<open>compression/runtime/layout.py\<close>): where each
  layer's raw and packed bytes and the quantization side data of each head section lie,
  and how large the slot arenas have to be.
\<close>

unbundle bit_operations_syntax

section \<open>Model\<close>

datatype kv_part = KeyPart | ValuePart

abbreviation by_part :: "'a \<times> 'a \<Rightarrow> kv_part \<Rightarrow> 'a" where
  "by_part t p \<equiv> (case p of KeyPart \<Rightarrow> fst t | ValuePart \<Rightarrow> snd t)"

record quant_section =
  qs_head_start :: int
  qs_head_count :: int
  qs_num_levels :: int
  qs_axis :: quant_axis
  qs_aux_min_offset :: int
  qs_aux_scale_offset :: int

record layer_part =
  lp_layer_name :: string
  lp_layer_index :: int
  lp_kv_part :: kv_part
  lp_group_index :: int
  lp_block_size :: int
  lp_num_heads :: int
  lp_head_size :: int
  lp_dtype :: dtype
  lp_raw_offset :: int
  lp_raw_bytes :: int
  lp_u8_offset :: int
  lp_sections :: "quant_section list"

record layout =
  ly_layer_parts :: "layer_part list"
  ly_raw_bytes_by_part :: "int \<times> int"
  ly_u8_bytes_by_part :: "int \<times> int"
  ly_packed_bytes_by_part :: "int \<times> int"
  ly_aux_bytes_by_part :: "int \<times> int"
  ly_arena_bytes :: int
  ly_scratch_stride :: int
  ly_u8_base :: int
  ly_aux_arena_bytes :: int
  ly_fa_group_indices :: "int set"
  ly_index_rows_by_group :: "(int \<times> nat) list"
  ly_aggregate :: bool

definition layout_parts :: "layout \<Rightarrow> kv_part \<Rightarrow> layer_part list" where
  "layout_parts l kv = filter (\<lambda>part. lp_kv_part part = kv) (ly_layer_parts l)"

definition max_of :: "int list \<Rightarrow> int" where
  "max_of xs = fold max (tl xs) (hd xs)"

definition raw_tail_capacity :: "layout \<Rightarrow> int" where
  "raw_tail_capacity l =
     (if ly_aggregate l then 0
      else round_up (max_of [sum_list [(lp_block_size part - 1) * lp_num_heads part * lp_head_size part * 2.
                                        part \<leftarrow> layout_parts l kv].
                             kv \<leftarrow> [KeyPart, ValuePart]]) ALIGNMENT)"

definition raw_tail_bytes :: "layout \<Rightarrow> kv_part \<Rightarrow> (int \<rightharpoonup> int) \<Rightarrow> int result" where
  "raw_tail_bytes l kv tokens =
     bind_res (map_res (\<lambda>part. case tokens (lp_group_index part) of
                  None \<Rightarrow> Inl KeyError
                | Some t \<Rightarrow> Inr (t mod lp_block_size part * lp_num_heads part * lp_head_size part * 2))
               (layout_parts l kv)) (\<lambda>ns. Inr (sum_list ns))"

fun any_res :: "('a \<Rightarrow> bool result) \<Rightarrow> 'a list \<Rightarrow> bool result" where
  "any_res f [] = Inr False"
| "any_res f (x # xs) = bind_res (f x) (\<lambda>b. if b then Inr True else any_res f xs)"

definition has_body :: "layout \<Rightarrow> (int \<rightharpoonup> int) \<Rightarrow> bool result" where
  "has_body l tokens =
     any_res (\<lambda>part. case tokens (lp_group_index part) of
                None \<Rightarrow> Inl KeyError | Some t \<Rightarrow> Inr (lp_block_size part \<le> t))
       (layout_parts l KeyPart)"

fun reduction_shape :: "quant_axis \<Rightarrow> int \<times> int \<times> int \<times> int \<Rightarrow> int list" where
  "reduction_shape Channel (blocks, tokens, heads, head_size) = [1, 1, heads, head_size]"
| "reduction_shape Token (blocks, tokens, heads, head_size) = [blocks, tokens, 1, 1]"
| "reduction_shape Tensor (blocks, tokens, heads, head_size) = [1, 1, 1, 1]"

definition split_counts ::
    "config \<Rightarrow> int \<Rightarrow> int \<Rightarrow> (int \<rightharpoonup> int) \<Rightarrow> int \<Rightarrow> (int \<times> int) result" where
  "split_counts cfg layer_index num_heads low_head_counts num_model_layers =
     (if cfg_split_type cfg = HeadSplit then
        (case low_head_counts layer_index of
           None \<Rightarrow> Inl KeyError
         | Some low \<Rightarrow> Inr (low, num_heads - low))
      else
        let low_layer_count = py_round (of_int num_model_layers * (33/100));
            is_low = 0 < low_layer_count \<and> num_model_layers - low_layer_count \<le> layer_index
        in Inr (if is_low then (num_heads, 0) else (0, num_heads)))"

text \<open>Bytes of one auxiliary tensor (minimum or scale) of a section.\<close>

definition aux_nbytes :: "quant_axis \<Rightarrow> int \<Rightarrow> int \<Rightarrow> int \<Rightarrow> int \<Rightarrow> int" where
  "aux_nbytes axis chunk_blocks block_size head_size head_count =
     prod_list (reduction_shape axis (chunk_blocks, block_size, head_count, head_size)) * 2"

text \<open>The two aligned auxiliary regions taken from the offset counter for one section.\<close>

definition aux_take :: "int \<Rightarrow> int \<Rightarrow> int \<times> region list" where
  "aux_take aux nbytes =
     (let min_offset = round_up aux ALIGNMENT;
          scale_offset = round_up (min_offset + nbytes) ALIGNMENT
      in (scale_offset + nbytes, [(min_offset, nbytes), (scale_offset, nbytes)]))"

text \<open>The loop over the low and the high precision heads of a layer.\<close>

fun add_sections ::
    "(int \<Rightarrow> int) \<Rightarrow> quant_axis \<Rightarrow> (int \<times> int) list \<Rightarrow> int \<Rightarrow> int \<Rightarrow> int \<times> quant_section list" where
  "add_sections nbytes axis [] head_start aux = (aux, [])"
| "add_sections nbytes axis ((head_count, levels) # rest) head_start aux =
     (if head_count = 0 then add_sections nbytes axis rest head_start aux
      else let (aux', regs) = aux_take aux (nbytes head_count);
               sec = \<lparr>qs_head_start = head_start, qs_head_count = head_count,
                      qs_num_levels = levels, qs_axis = axis,
                      qs_aux_min_offset = fst (regs ! 0), qs_aux_scale_offset = fst (regs ! 1)\<rparr>;
               (aux'', secs) = add_sections nbytes axis rest (head_start + head_count) aux'
           in (aux'', sec # secs))"

record layout_acc =
  la_raw :: "kv_part \<Rightarrow> int"
  la_u8 :: "kv_part \<Rightarrow> int"
  la_aux :: "kv_part \<Rightarrow> int"
  la_parts :: "layer_part list"
  la_groups :: "int list"

definition part_head_size :: "cache_spec \<Rightarrow> kv_part \<Rightarrow> int" where
  "part_head_size spec kv = (case kv of KeyPart \<Rightarrow> cs_head_size spec | ValuePart \<Rightarrow> cs_head_size_v spec)"

definition part_axis :: "config \<Rightarrow> kv_part \<Rightarrow> quant_axis" where
  "part_axis cfg kv = (case kv of KeyPart \<Rightarrow> cfg_axis_key cfg | ValuePart \<Rightarrow> cfg_axis_value cfg)"

definition part_levels :: "config \<Rightarrow> kv_part \<Rightarrow> int \<times> int" where
  "part_levels cfg kv = (case kv of
       KeyPart \<Rightarrow> (cfg_low_key_num_levels cfg, cfg_high_key_num_levels cfg)
     | ValuePart \<Rightarrow> (cfg_low_value_num_levels cfg, cfg_high_value_num_levels cfg))"

definition layer_numel :: "config \<Rightarrow> cache_spec \<Rightarrow> kv_part \<Rightarrow> int" where
  "layer_numel cfg spec kv =
     cfg_logical_blocks_per_chunk cfg * cs_block_size spec * cs_num_kv_heads spec * part_head_size spec kv"

text \<open>One iteration of the inner loop: the K or the V part of one layer.\<close>

definition add_part ::
    "config \<Rightarrow> string \<Rightarrow> cache_spec \<Rightarrow> int \<Rightarrow> int \<times> int \<Rightarrow> kv_part \<Rightarrow> layout_acc \<Rightarrow> layout_acc" where
  "add_part cfg name spec grp heads kv acc =
     (let hsize = part_head_size spec kv;
          numel = layer_numel cfg spec kv;
          nbytes = aux_nbytes (part_axis cfg kv) (cfg_logical_blocks_per_chunk cfg) (cs_block_size spec) hsize;
          (aux', secs) = add_sections nbytes (part_axis cfg kv)
             [(fst heads, fst (part_levels cfg kv)), (snd heads, snd (part_levels cfg kv))]
             0 (la_aux acc kv);
          part = \<lparr>lp_layer_name = name, lp_layer_index = cs_layer_index spec, lp_kv_part = kv,
                  lp_group_index = grp, lp_block_size = cs_block_size spec,
                  lp_num_heads = cs_num_kv_heads spec, lp_head_size = hsize, lp_dtype = cs_dtype spec,
                  lp_raw_offset = 0, lp_raw_bytes = numel * 2, lp_u8_offset = la_u8 acc kv,
                  lp_sections = secs\<rparr>
      in \<lparr>la_raw = (la_raw acc)(kv := la_raw acc kv + numel * 2),
          la_u8 = (la_u8 acc)(kv := la_u8 acc kv + numel),
          la_aux = (la_aux acc)(kv := aux'),
          la_parts = la_parts acc @ [part],
          la_groups = la_groups acc\<rparr>)"

definition add_layer ::
    "config \<Rightarrow> (int \<rightharpoonup> int) \<Rightarrow> int \<Rightarrow> (string \<rightharpoonup> int) \<Rightarrow> string \<times> cache_spec \<Rightarrow> layout_acc \<Rightarrow>
     layout_acc result" where
  "add_layer cfg low_head_counts num_model_layers group_indices ns acc =
     (let name = fst ns; spec = snd ns;
          grp = (case group_indices name of None \<Rightarrow> 0 | Some g \<Rightarrow> g) in
      bind_res (split_counts cfg (cs_layer_index spec) (cs_num_kv_heads spec) low_head_counts
                  num_model_layers) (\<lambda>heads.
        Inr (add_part cfg name spec grp heads ValuePart
              (add_part cfg name spec grp heads KeyPart
                (acc\<lparr>la_groups := la_groups acc @ [grp]\<rparr>)))))"

definition pow2_size :: "int \<Rightarrow> bool" where
  "pow2_size n \<longleftrightarrow> \<not> (n < 1 \<or> n AND (n - 1) \<noteq> 0)"

text \<open>The per-layer admission checks, in the order the loop makes them.\<close>

definition check_spec :: "config \<Rightarrow> string \<times> cache_spec \<Rightarrow> unit \<Rightarrow> unit result" where
  "check_spec cfg ns u =
     (if uses_transformer cfg \<and> \<not> (pow2_size (cs_head_size (snd ns)) \<and> pow2_size (cs_head_size_v (snd ns)))
      then Inl ValueError
      else if cs_dtype (snd ns) \<noteq> BFloat16 then Inl ValueError
      else Inr u)"

definition scratch_stride_of :: "config \<Rightarrow> (string \<times> cache_spec) list \<Rightarrow> int" where
  "scratch_stride_of cfg fa_specs =
     round_up (max_of [cfg_logical_blocks_per_chunk cfg * cs_block_size spec * cs_num_kv_heads spec * hs * 2.
                         (_, spec) \<leftarrow> fa_specs, hs \<leftarrow> [cs_head_size spec, cs_head_size_v spec]])
       ALIGNMENT"

definition finish_layout :: "config \<Rightarrow> int \<Rightarrow> layout_acc \<Rightarrow> layout" where
  "finish_layout cfg scratch_stride acc =
     (let u8_base = round_up (2 * scratch_stride) ALIGNMENT;
          raw_by_part = (la_raw acc KeyPart, la_raw acc ValuePart);
          u8_by_part = (la_u8 acc KeyPart, la_u8 acc ValuePart);
          aux_by_part = (round_up (la_aux acc KeyPart) ALIGNMENT, round_up (la_aux acc ValuePart) ALIGNMENT);
          aggregate = Aggregate \<in> set (cfg_pipeline cfg);
          quant = Quantizer \<in> set (cfg_pipeline cfg) \<and> \<not> aggregate;
          packed_by_part = (if quant then u8_by_part else raw_by_part);
          arena_bytes = (if aggregate then round_up (max (fst raw_by_part) (snd raw_by_part)) ALIGNMENT
                         else round_up (max (2 * scratch_stride)
                                (u8_base + max (fst packed_by_part) (snd packed_by_part))) ALIGNMENT);
          aux_arena_bytes = (if aggregate \<or> \<not> quant then 0
                             else 2 * max (fst aux_by_part) (snd aux_by_part))
      in \<lparr>ly_layer_parts = la_parts acc, ly_raw_bytes_by_part = raw_by_part,
          ly_u8_bytes_by_part = u8_by_part, ly_packed_bytes_by_part = packed_by_part,
          ly_aux_bytes_by_part = aux_by_part, ly_arena_bytes = arena_bytes,
          ly_scratch_stride = scratch_stride, ly_u8_base = u8_base,
          ly_aux_arena_bytes = aux_arena_bytes, ly_fa_group_indices = set (la_groups acc),
          ly_index_rows_by_group =
            (let gs = sorted_list_of_set (set (la_groups acc)) in zip gs [0..<length gs]),
          ly_aggregate = aggregate\<rparr>)"

definition empty_acc :: layout_acc where
  "empty_acc = \<lparr>la_raw = (\<lambda>_. 0), la_u8 = (\<lambda>_. 0), la_aux = (\<lambda>_. 0), la_parts = [], la_groups = []\<rparr>"

definition build_compression_layout ::
    "(string \<times> cache_spec) list \<Rightarrow> config \<Rightarrow> (int \<rightharpoonup> int) \<Rightarrow> int \<Rightarrow> (string \<rightharpoonup> int) \<Rightarrow> layout result" where
  "build_compression_layout specs cfg low_head_counts num_model_layers group_indices =
     (let fa_specs = sort_key (\<lambda>ns. cs_layer_index (snd ns)) specs in
      if fa_specs = [] then Inl ValueError
      else if length (remdups (map (\<lambda>ns. cs_block_size (snd ns)) fa_specs)) \<noteq> 1 then Inl ValueError
      else bind_res (fold_res (check_spec cfg) fa_specs ()) (\<lambda>_.
        bind_res (fold_res (add_layer cfg low_head_counts num_model_layers group_indices) fa_specs empty_acc)
          (\<lambda>acc. Inr (finish_layout cfg (scratch_stride_of cfg fa_specs) acc))))"

section \<open>Sections of one part\<close>

interpretation aux_cursor: bump_cursor "\<lambda>aux. aux" aux_take "\<lambda>nbytes. 0 \<le> nbytes"
proof
  fix r s :: int
  assume "0 \<le> r"
  then show "stacked s (fst (aux_take s r)) (snd (aux_take s r))"
    using round256_ge[of s] round256_ge[of "round256 s + r"] by (simp add: aux_take_def Let_def)
qed

definition part_aux_regions :: "config \<Rightarrow> layer_part \<Rightarrow> region list" where
  "part_aux_regions cfg part = concat (map (\<lambda>sec.
     let nb = aux_nbytes (qs_axis sec) (cfg_logical_blocks_per_chunk cfg) (lp_block_size part)
                (lp_head_size part) (qs_head_count sec)
     in [(qs_aux_min_offset sec, nb), (qs_aux_scale_offset sec, nb)]) (lp_sections part))"

definition part_heads :: "layer_part \<Rightarrow> region list" where
  "part_heads part = map (\<lambda>sec. (qs_head_start sec, qs_head_count sec)) (lp_sections part)"

lemma aux_nbytes_nonneg:
  "0 \<le> cb \<Longrightarrow> 0 \<le> bs \<Longrightarrow> 0 \<le> hs \<Longrightarrow> 0 \<le> hc \<Longrightarrow> 0 \<le> aux_nbytes ax cb bs hs hc"
  by (cases ax) (auto simp: aux_nbytes_def)

lemma add_sections_stacked:
  assumes "\<And>c. 0 \<le> c \<Longrightarrow> 0 \<le> nb c" and "list_all (\<lambda>h. 0 \<le> fst h) hs"
  shows "stacked aux (fst (add_sections nb ax hs h0 aux))
    (concat (map (\<lambda>s. [(qs_aux_min_offset s, nb (qs_head_count s)),
                      (qs_aux_scale_offset s, nb (qs_head_count s))])
       (snd (add_sections nb ax hs h0 aux))))"
  using assms(2)
proof (induction hs arbitrary: h0 aux)
  case Nil
  then show ?case by simp
next
  case (Cons h rest)
  obtain c lv where h: "h = (c, lv)" by (cases h)
  show ?case
  proof (cases "c = 0")
    case True
    with Cons h show ?thesis by simp
  next
    case False
    let ?aux = "fst (aux_take aux (nb c))"
    have "stacked aux ?aux (snd (aux_take aux (nb c)))"
      by (rule aux_cursor.tk_stacked) (use Cons.prems h assms(1) in \<open>simp\<close>)
    moreover have "stacked ?aux (fst (add_sections nb ax rest (h0 + c) ?aux))
        (concat (map (\<lambda>s. [(qs_aux_min_offset s, nb (qs_head_count s)),
                      (qs_aux_scale_offset s, nb (qs_head_count s))])
          (snd (add_sections nb ax rest (h0 + c) ?aux))))"
      by (rule Cons.IH) (use Cons.prems in simp)
    ultimately show ?thesis using False h
      by (auto simp: aux_take_def Let_def prod.case_eq_if)
  qed
qed

lemma add_sections_heads:
  "tiles h0 (h0 + sum_list (map fst hs))
     (map (\<lambda>s. (qs_head_start s, qs_head_count s)) (snd (add_sections nb ax hs h0 aux)))"
proof (induction hs arbitrary: h0 aux)
  case (Cons h hs)
  obtain c lv where h: "h = (c, lv)" by (cases h)
  show ?case using Cons.IH[of "h0 + c"] Cons.IH[of h0] h
    by (simp add: prod.case_eq_if Let_def add.assoc)
qed simp

lemma add_sections_sec:
  "s \<in> set (snd (add_sections nb ax hs h0 aux)) \<Longrightarrow> qs_axis s = ax \<and>
     ALIGNMENT dvd qs_aux_min_offset s \<and> ALIGNMENT dvd qs_aux_scale_offset s"
proof (induction hs arbitrary: h0 aux)
  case (Cons h hs)
  obtain c lv where h: "h = (c, lv)" by (cases h)
  show ?case using Cons h
    by (auto simp: prod.case_eq_if Let_def aux_take_def split: if_splits)
qed simp

section \<open>The accumulator\<close>

abbreviation parts_of :: "layer_part list \<Rightarrow> kv_part \<Rightarrow> layer_part list" where
  "parts_of ps kv \<equiv> filter (\<lambda>part. lp_kv_part part = kv) ps"

definition part_u8_region :: "layer_part \<Rightarrow> region" where
  "part_u8_region part = (lp_u8_offset part, lp_raw_bytes part div 2)"

definition wf_part :: "config \<Rightarrow> (string \<times> cache_spec) list \<Rightarrow> layer_part \<Rightarrow> bool" where
  "wf_part cfg specs part \<longleftrightarrow>
     tiles 0 (lp_num_heads part) (part_heads part) \<and> lp_raw_offset part = 0 \<and>
     (\<forall>sec \<in> set (lp_sections part). ALIGNMENT dvd qs_aux_min_offset sec \<and>
        ALIGNMENT dvd qs_aux_scale_offset sec) \<and>
     (\<exists>ns \<in> set specs. lp_layer_name part = fst ns \<and> lp_block_size part = cs_block_size (snd ns) \<and>
        lp_num_heads part = cs_num_kv_heads (snd ns) \<and>
        lp_head_size part = part_head_size (snd ns) (lp_kv_part part) \<and>
        lp_raw_bytes part = 2 * layer_numel cfg (snd ns) (lp_kv_part part))"

definition wf_acc :: "config \<Rightarrow> (string \<times> cache_spec) list \<Rightarrow> layout_acc \<Rightarrow> bool" where
  "wf_acc cfg specs acc \<longleftrightarrow>
     (\<forall>kv. tiles 0 (la_u8 acc kv) (map part_u8_region (parts_of (la_parts acc) kv)) \<and>
           stacked 0 (la_aux acc kv) (concat (map (part_aux_regions cfg) (parts_of (la_parts acc) kv))) \<and>
           la_raw acc kv = 2 * la_u8 acc kv) \<and>
     (\<forall>part \<in> set (la_parts acc). wf_part cfg specs part)"

lemma tiles_append: "tiles lo mid rs \<Longrightarrow> tiles mid hi rs' \<Longrightarrow> tiles lo hi (rs @ rs')"
  by (induction lo mid rs rule: tiles.induct) auto

lemma tiles_stacked:
  "tiles lo hi rs \<Longrightarrow> (\<And>r. r \<in> set rs \<Longrightarrow> 0 \<le> snd r) \<Longrightarrow> stacked lo hi rs"
  by (induction lo hi rs rule: tiles.induct) force+

lemma wf_acc_groups [simp]: "wf_acc cfg specs (acc\<lparr>la_groups := g\<rparr>) = wf_acc cfg specs acc"
  by (simp add: wf_acc_def)

lemma wf_acc_empty: "wf_acc cfg specs empty_acc"
  by (simp add: wf_acc_def empty_acc_def)

text \<open>What a valid input of the layout builder is.\<close>

definition wf_layout_input ::
    "(string \<times> cache_spec) list \<Rightarrow> config \<Rightarrow> (int \<rightharpoonup> int) \<Rightarrow> bool" where
  "wf_layout_input specs cfg low_head_counts \<longleftrightarrow>
     wf_config cfg \<and> (\<forall>ns \<in> set specs. wf_spec (snd ns) \<and>
       (\<forall>low. low_head_counts (cs_layer_index (snd ns)) = Some low \<longrightarrow>
          0 \<le> low \<and> low \<le> cs_num_kv_heads (snd ns)))"

lemma split_counts_sum:
  assumes "split_counts cfg i n lows m = Inr heads" and "0 \<le> n"
    and "\<And>low. lows i = Some low \<Longrightarrow> 0 \<le> low \<and> low \<le> n"
  shows "0 \<le> fst heads \<and> 0 \<le> snd heads \<and> fst heads + snd heads = n"
  using assms by (auto simp: split_counts_def Let_def split: if_splits option.splits)

lemma add_part_wf:
  assumes acc: "wf_acc cfg specs acc" and ns: "(name, spec) \<in> set specs"
    and spec: "wf_spec spec" and cfg: "wf_config cfg"
    and heads: "0 \<le> fst heads" "0 \<le> snd heads" "fst heads + snd heads = cs_num_kv_heads spec"
  shows "wf_acc cfg specs (add_part cfg name spec grp heads kv acc)"
proof -
  let ?ax = "part_axis cfg kv"
  let ?nb = "aux_nbytes ?ax (cfg_logical_blocks_per_chunk cfg) (cs_block_size spec) (part_head_size spec kv)"
  define hs where "hs = [(fst heads, fst (part_levels cfg kv)), (snd heads, snd (part_levels cfg kv))]"
  let ?r = "add_sections ?nb ?ax hs 0 (la_aux acc kv)"
  define part where "part = \<lparr>lp_layer_name = name, lp_layer_index = cs_layer_index spec, lp_kv_part = kv,
                  lp_group_index = grp, lp_block_size = cs_block_size spec,
                  lp_num_heads = cs_num_kv_heads spec, lp_head_size = part_head_size spec kv,
                  lp_dtype = cs_dtype spec, lp_raw_offset = 0,
                  lp_raw_bytes = layer_numel cfg spec kv * 2, lp_u8_offset = la_u8 acc kv,
                  lp_sections = snd ?r\<rparr>"
  have eq: "add_part cfg name spec grp heads kv acc =
      \<lparr>la_raw = (la_raw acc)(kv := la_raw acc kv + layer_numel cfg spec kv * 2),
       la_u8 = (la_u8 acc)(kv := la_u8 acc kv + layer_numel cfg spec kv),
       la_aux = (la_aux acc)(kv := fst ?r),
       la_parts = la_parts acc @ [part], la_groups = la_groups acc\<rparr>"
    unfolding add_part_def part_def Let_def prod.case_eq_if hs_def by (rule refl)
  have nn: "list_all (\<lambda>h. 0 \<le> fst h) hs" and sum: "sum_list (map fst hs) = cs_num_kv_heads spec"
    using heads by (simp_all add: hs_def)
  have pos: "0 \<le> ?nb c" if "0 \<le> c" for c
    using that spec cfg by (intro aux_nbytes_nonneg) (auto simp: wf_spec_def wf_config_def
        part_head_size_def split: kv_part.splits)
  have "part_aux_regions cfg part =
      concat (map (\<lambda>s. [(qs_aux_min_offset s, ?nb (qs_head_count s)),
                      (qs_aux_scale_offset s, ?nb (qs_head_count s))]) (snd ?r))"
    unfolding part_aux_regions_def Let_def part_def
    by (rule arg_cong[where f = concat], rule map_cong) (auto dest: add_sections_sec)
  then have aux: "stacked (la_aux acc kv) (fst ?r) (part_aux_regions cfg part)"
    using add_sections_stacked[of ?nb hs "la_aux acc kv" ?ax 0] pos nn by simp
  have "tiles 0 (cs_num_kv_heads spec) (part_heads part)"
    using add_sections_heads[of 0 hs ?nb ?ax "la_aux acc kv"] sum by (simp add: part_heads_def part_def)
  moreover have "ALIGNMENT dvd qs_aux_min_offset s \<and> ALIGNMENT dvd qs_aux_scale_offset s"
    if "s \<in> set (lp_sections part)" for s
    using that add_sections_sec[of s ?nb ?ax hs 0 "la_aux acc kv"] by (simp add: part_def)
  ultimately have "wf_part cfg specs part"
    using ns unfolding wf_part_def by (auto simp: part_def intro!: bexI[of _ "(name, spec)"])
  moreover have "lp_kv_part part = kv" "part_u8_region part = (la_u8 acc kv, layer_numel cfg spec kv)"
    by (simp_all add: part_def part_u8_region_def)
  ultimately show ?thesis
    using acc aux unfolding eq wf_acc_def
    by (auto intro: tiles_append stacked_append simp: algebra_simps)
qed

lemma add_layer_wf:
  assumes "add_layer cfg lows m gs ns acc = Inr acc'" and "wf_acc cfg specs acc"
    and "ns \<in> set specs" and "wf_layout_input specs cfg lows"
  shows "wf_acc cfg specs acc'"
proof -
  have spec: "wf_spec (snd ns)" and cfg: "wf_config cfg"
    and low: "\<And>low. lows (cs_layer_index (snd ns)) = Some low \<Longrightarrow> 0 \<le> low \<and> low \<le> cs_num_kv_heads (snd ns)"
    using assms(3,4) by (auto simp: wf_layout_input_def)
  obtain heads where h: "split_counts cfg (cs_layer_index (snd ns)) (cs_num_kv_heads (snd ns)) lows m = Inr heads"
    and acc': "acc' = add_part cfg (fst ns) (snd ns) (case gs (fst ns) of None \<Rightarrow> 0 | Some g \<Rightarrow> g) heads ValuePart
       (add_part cfg (fst ns) (snd ns) (case gs (fst ns) of None \<Rightarrow> 0 | Some g \<Rightarrow> g) heads KeyPart
         (acc\<lparr>la_groups := la_groups acc @ [case gs (fst ns) of None \<Rightarrow> 0 | Some g \<Rightarrow> g]\<rparr>))"
    using assms(1) by (auto simp: add_layer_def Let_def bind_res_eq_Inr)
  have "0 \<le> cs_num_kv_heads (snd ns)" using spec by (simp add: wf_spec_def)
  then have "0 \<le> fst heads \<and> 0 \<le> snd heads \<and> fst heads + snd heads = cs_num_kv_heads (snd ns)"
    using split_counts_sum[OF h] low by blast
  then show ?thesis using assms(2,3) spec cfg unfolding acc' by (intro add_part_wf) auto
qed

text \<open>The final accumulator behind a layout that was built.\<close>

lemma build_layoutE:
  assumes "build_compression_layout specs cfg lows m gs = Inr l" and "wf_layout_input specs cfg lows"
  obtains acc where "wf_acc cfg specs acc" and "specs \<noteq> []"
    and "l = finish_layout cfg (scratch_stride_of cfg (sort_key (\<lambda>ns. cs_layer_index (snd ns)) specs)) acc"
    and "\<forall>ns \<in> set specs. cs_dtype (snd ns) = BFloat16"
proof -
  let ?fa = "sort_key (\<lambda>ns. cs_layer_index (snd ns)) specs"
  obtain acc where chk: "fold_res (check_spec cfg) ?fa () = Inr ()"
    and f: "fold_res (add_layer cfg lows m gs) ?fa empty_acc = Inr acc"
    and l: "l = finish_layout cfg (scratch_stride_of cfg ?fa) acc" and ne: "?fa \<noteq> []"
    using assms(1) by (auto simp: build_compression_layout_def Let_def bind_res_eq_Inr split: if_splits)
  have "wf_acc cfg specs acc"
    by (rule fold_res_invariant[where I = "wf_acc cfg specs", OF f wf_acc_empty]) (auto intro: add_layer_wf assms(2))
  moreover have "\<forall>ns \<in> set xs. cs_dtype (snd ns) = BFloat16"
    if "fold_res (check_spec cfg) xs () = Inr ()" for xs
    using that by (induction xs) (auto simp: bind_res_eq_Inr check_spec_def split: if_splits)
  then have "\<forall>ns \<in> set specs. cs_dtype (snd ns) = BFloat16" using chk by force
  moreover have "specs \<noteq> []" using ne by auto
  ultimately show ?thesis using l that by blast
qed

lemma fold_max_ge: "y \<in> insert z (set ys) \<Longrightarrow> y \<le> fold max ys (z::int)"
proof (induction ys arbitrary: y z)
  case (Cons w ys)
  have a: "max w z \<le> fold max ys (max w z)" by (rule Cons.IH) simp
  show ?case
  proof (cases "y \<in> set ys")
    case True
    then show ?thesis by (auto intro: Cons.IH)
  next
    case False
    with Cons.prems have "y \<le> max w z" by auto
    with a have "y \<le> fold max ys (max w z)" by (rule order_trans[rotated])
    then show ?thesis by simp
  qed
qed simp

lemma max_of_ge: "x \<in> set xs \<Longrightarrow> x \<le> max_of xs"
  unfolding max_of_def by (cases xs) (auto intro: fold_max_ge)

lemma scratch_stride_ge:
  assumes "ns \<in> set fa"
  shows "2 * layer_numel cfg (snd ns) kv \<le> scratch_stride_of cfg fa"
proof -
  let ?L = "[cfg_logical_blocks_per_chunk cfg * cs_block_size spec * cs_num_kv_heads spec * hs * 2.
        (_, spec) \<leftarrow> fa, hs \<leftarrow> [cs_head_size spec, cs_head_size_v spec]]"
  obtain n spec where ns: "ns = (n, spec)" by (cases ns)
  have "cfg_logical_blocks_per_chunk cfg * cs_block_size spec * cs_num_kv_heads spec
      * part_head_size spec kv * 2 \<in> set ?L"
    unfolding set_concat set_map UN_iff bex_simps by (rule bexI[OF _ assms]) (simp add: ns part_head_size_def split: kv_part.splits)
  then have "2 * layer_numel cfg (snd ns) kv \<le> max_of ?L"
    using max_of_ge by (simp add: ns layer_numel_def mult.commute)
  then show ?thesis unfolding scratch_stride_of_def by (rule order_trans) simp
qed

lemma layer_numel_pos: "wf_spec spec \<Longrightarrow> wf_config cfg \<Longrightarrow> 0 < layer_numel cfg spec kv"
  by (cases kv) (auto simp: layer_numel_def part_head_size_def wf_spec_def wf_config_def)

lemma wf_part_pos:
  assumes "wf_part cfg specs part" and "wf_layout_input specs cfg lows"
  shows "0 < lp_block_size part \<and> 0 < lp_num_heads part \<and> 0 < lp_head_size part"
proof -
  obtain ns where ns: "ns \<in> set specs" "lp_block_size part = cs_block_size (snd ns)"
      "lp_num_heads part = cs_num_kv_heads (snd ns)"
      "lp_head_size part = part_head_size (snd ns) (lp_kv_part part)"
    using assms(1) by (auto simp: wf_part_def)
  moreover have "wf_spec (snd ns)" using assms(2) ns(1) by (simp add: wf_layout_input_def)
  ultimately show ?thesis by (simp add: wf_spec_def part_head_size_def split: kv_part.splits)
qed

lemma wf_acc_u8_stacked:
  assumes "wf_acc cfg specs acc" and "wf_layout_input specs cfg lows"
  shows "stacked 0 (la_u8 acc kv) (map part_u8_region (parts_of (la_parts acc) kv))"
proof -
  have "0 \<le> snd (part_u8_region part)" if "part \<in> set (la_parts acc)" for part
    using that assms layer_numel_pos[of _ cfg "lp_kv_part part"]
    by (fastforce simp: wf_acc_def wf_part_def part_u8_region_def wf_layout_input_def)
  then show ?thesis using assms(1) by (intro tiles_stacked) (auto simp: wf_acc_def)
qed

text \<open>Sizes of a layout that was built: aligned and not negative.\<close>

lemma layout_sizes_nonneg:
  assumes "build_compression_layout specs cfg lows m gs = Inr l" and "wf_layout_input specs cfg lows"
  shows "ALIGNMENT dvd ly_arena_bytes l \<and> 0 \<le> ly_arena_bytes l \<and>
    ALIGNMENT dvd ly_aux_arena_bytes l \<and> 0 \<le> ly_aux_arena_bytes l \<and>
    ALIGNMENT dvd raw_tail_capacity l \<and> 0 \<le> raw_tail_capacity l"
proof -
  let ?fa = "sort_key (\<lambda>ns. cs_layer_index (snd ns)) specs"
  from assms obtain acc where acc: "wf_acc cfg specs acc" and ne: "specs \<noteq> []"
    and l: "l = finish_layout cfg (scratch_stride_of cfg ?fa) acc" by (rule build_layoutE)
  have raw: "0 \<le> la_raw acc kv" for kv
    using stacked_le[OF wf_acc_u8_stacked[OF acc assms(2), of kv]] acc by (simp add: wf_acc_def)
  have aux: "0 \<le> la_aux acc kv" for kv
    using acc stacked_le unfolding wf_acc_def by blast
  obtain ns where ns: "ns \<in> set specs" using ne by (cases specs) auto
  have "0 < layer_numel cfg (snd ns) KeyPart"
    using assms(2) ns by (intro layer_numel_pos) (auto simp: wf_layout_input_def)
  then have sc: "0 \<le> scratch_stride_of cfg ?fa"
    using scratch_stride_ge[of ns ?fa cfg KeyPart] ns by simp
  have arena: "ALIGNMENT dvd ly_arena_bytes l \<and> 0 \<le> ly_arena_bytes l"
    unfolding l using raw[of KeyPart] sc by (auto simp: finish_layout_def Let_def)
  have auxb: "ALIGNMENT dvd ly_aux_arena_bytes l \<and> 0 \<le> ly_aux_arena_bytes l"
    unfolding l using aux[of KeyPart] aux[of ValuePart] by (auto simp: finish_layout_def Let_def max_def dvd_mult)
  have "0 \<le> sum_list (map (\<lambda>part. (lp_block_size part - 1) * lp_num_heads part * lp_head_size part * 2)
      (layout_parts l KeyPart))"
  proof (rule sum_list_nonneg_int)
    fix part assume "part \<in> set (layout_parts l KeyPart)"
    then have "part \<in> set (la_parts acc)" unfolding l by (simp add: layout_parts_def finish_layout_def Let_def)
    then have "0 < lp_block_size part \<and> 0 < lp_num_heads part \<and> 0 < lp_head_size part"
      using acc assms(2) by (intro wf_part_pos) (auto simp: wf_acc_def)
    then show "0 \<le> (lp_block_size part - 1) * lp_num_heads part * lp_head_size part * 2" by simp
  qed
  then have "0 \<le> raw_tail_capacity l"
    unfolding raw_tail_capacity_def
    by (auto intro!: order_trans[OF _ round256_ge] order_trans[OF _ max_of_ge])
  then show ?thesis using arena auxb by (simp add: raw_tail_capacity_def)
qed

section \<open>A two-layer model used by the witnesses\<close>

definition demo_specs :: "(string \<times> cache_spec) list" where
  "demo_specs = [(''layers.1'', CacheSpec 1 16 4 8 BFloat16 None),
                 (''layers.0'', CacheSpec 0 16 4 8 BFloat16 (Some 16))]"

definition demo_config :: config where
  "demo_config = default_config\<lparr>cfg_enabled := True, cfg_split_type := HeadSplit\<rparr>"

definition demo_lows :: "int \<rightharpoonup> int" where
  "demo_lows = [0 \<mapsto> 1, 1 \<mapsto> 3]"

definition demo_layout :: layout where
  "demo_layout = projr (build_compression_layout demo_specs demo_config demo_lows 2 Map.empty)"

lemma demo_built: "build_compression_layout demo_specs demo_config demo_lows 2 Map.empty = Inr demo_layout"
proof -
  have "isl (build_compression_layout demo_specs demo_config demo_lows 2 Map.empty) = False"
    by code_simp
  then show ?thesis unfolding demo_layout_def by simp
qed

lemma demo_input: "wf_layout_input demo_specs demo_config demo_lows"
  by (auto simp: wf_layout_input_def demo_specs_def demo_config_def demo_lows_def CacheSpec_def
      wf_spec_def wf_config_def default_config_def ordered_stages_def)

section \<open>Properties\<close>

text \<open>
  The packed streams of a layout are gapless: for K and for V, the byte regions of the
  layers' quantized values follow one another from offset 0 to the recorded stream length,
  in layer order, so no two layers share a byte and none is left out.
\<close>

lemma layout_u8_stream_tiles:
  assumes "build_compression_layout specs cfg lows num_layers groups = Inr l"
    and "wf_layout_input specs cfg lows"
  shows "tiles 0 (by_part (ly_u8_bytes_by_part l) kv) (map part_u8_region (layout_parts l kv)) \<and>
    disjoint_regions (map part_u8_region (layout_parts l kv))"
proof -
  from assms obtain acc where acc: "wf_acc cfg specs acc"
    and l: "l = finish_layout cfg (scratch_stride_of cfg (sort_key (\<lambda>ns. cs_layer_index (snd ns)) specs)) acc"
    by (rule build_layoutE)
  have ps: "layout_parts l kv = parts_of (la_parts acc) kv"
    and u8: "by_part (ly_u8_bytes_by_part l) kv = la_u8 acc kv"
    unfolding l by (simp_all add: layout_parts_def finish_layout_def Let_def split: kv_part.splits)
  have t: "tiles 0 (la_u8 acc kv) (map part_u8_region (parts_of (la_parts acc) kv))"
    using acc by (simp add: wf_acc_def)
  have "stacked 0 (la_u8 acc kv) (map part_u8_region (parts_of (la_parts acc) kv))"
    by (rule wf_acc_u8_stacked[OF acc assms(2)])
  then show ?thesis using t ps u8 by (simp add: stacked_disjoint)
qed

lemma layout_u8_stream_tiles_witness:
  "tiles 0 (by_part (ly_u8_bytes_by_part demo_layout) KeyPart)
     (map part_u8_region (layout_parts demo_layout KeyPart)) \<and>
   disjoint_regions (map part_u8_region (layout_parts demo_layout KeyPart)) \<and>
   ly_u8_bytes_by_part demo_layout = (1024, 1536)"
proof -
  have "ly_u8_bytes_by_part demo_layout = (1024, 1536)" by code_simp
  with layout_u8_stream_tiles[OF demo_built demo_input, of KeyPart] show ?thesis by blast
qed

text \<open>
  C5: The minimum and scale tensors of all quantization sections of a part lie in pairwise
  disjoint, 256-byte aligned regions inside the auxiliary bytes reserved for that part, and
  both parts fit in half of the auxiliary arena when quantization is on.
\<close>

theorem layout_aux_regions_disjoint:
  assumes "build_compression_layout specs cfg lows num_layers groups = Inr l"
    and "wf_layout_input specs cfg lows"
  shows "stacked 0 (by_part (ly_aux_bytes_by_part l) kv)
           (concat (map (part_aux_regions cfg) (layout_parts l kv))) \<and>
    disjoint_regions (concat (map (part_aux_regions cfg) (layout_parts l kv))) \<and>
    (\<forall>part \<in> set (layout_parts l kv). \<forall>sec \<in> set (lp_sections part).
       ALIGNMENT dvd qs_aux_min_offset sec \<and> ALIGNMENT dvd qs_aux_scale_offset sec) \<and>
    (uses_quantizer cfg \<longrightarrow> 2 * by_part (ly_aux_bytes_by_part l) kv \<le> ly_aux_arena_bytes l)"
proof -
  from assms obtain acc where acc: "wf_acc cfg specs acc"
    and l: "l = finish_layout cfg (scratch_stride_of cfg (sort_key (\<lambda>ns. cs_layer_index (snd ns)) specs)) acc"
    by (rule build_layoutE)
  have ps: "layout_parts l kv = parts_of (la_parts acc) kv"
    and aux: "by_part (ly_aux_bytes_by_part l) kv = round256 (la_aux acc kv)"
    unfolding l by (simp_all add: layout_parts_def finish_layout_def Let_def split: kv_part.splits)
  have "stacked 0 (la_aux acc kv) (concat (map (part_aux_regions cfg) (parts_of (la_parts acc) kv)))"
    using acc by (simp add: wf_acc_def)
  then have "stacked 0 (round256 (la_aux acc kv))
      (concat (map (part_aux_regions cfg) (parts_of (la_parts acc) kv)))"
    by (rule stacked_widen) simp_all
  moreover have "2 * by_part (ly_aux_bytes_by_part l) kv \<le> ly_aux_arena_bytes l" if "uses_quantizer cfg"
    using that unfolding l
    by (auto simp: finish_layout_def Let_def uses_quantizer_def uses_aggregate_def split: kv_part.splits)
  moreover have "ALIGNMENT dvd qs_aux_min_offset sec \<and> ALIGNMENT dvd qs_aux_scale_offset sec"
    if "part \<in> set (layout_parts l kv)" "sec \<in> set (lp_sections part)" for part sec
    using that acc ps by (auto simp: wf_acc_def wf_part_def)
  ultimately show ?thesis using ps aux by (auto dest: stacked_disjoint)
qed

theorem layout_aux_regions_disjoint_witness:
  "disjoint_regions (concat (map (part_aux_regions demo_config) (layout_parts demo_layout ValuePart))) \<and>
   2 * by_part (ly_aux_bytes_by_part demo_layout) ValuePart \<le> ly_aux_arena_bytes demo_layout \<and>
   length (concat (map (part_aux_regions demo_config) (layout_parts demo_layout ValuePart))) = 8"
proof -
  have "length (concat (map (part_aux_regions demo_config) (layout_parts demo_layout ValuePart))) = 8"
    by code_simp
  moreover have "uses_quantizer demo_config" by code_simp
  ultimately show ?thesis
    using layout_aux_regions_disjoint[OF demo_built demo_input, of ValuePart] by blast
qed

text \<open>
  C28: The arena of a slot is large enough and its parts cannot collide: without an
  aggregate stage, each layer's raw bytes fit in one of the two scratch buffers, the
  scratch buffers end before the packed stream begins, and the packed stream of either
  part ends inside the arena; with an aggregate stage the whole raw stream fits.
\<close>

theorem layout_arena_bounds:
  assumes "build_compression_layout specs cfg lows num_layers groups = Inr l"
    and "wf_layout_input specs cfg lows"
  shows "(\<forall>part \<in> set (ly_layer_parts l). lp_raw_offset part = 0 \<and> lp_raw_bytes part \<le> ly_scratch_stride l) \<and>
    ALIGNMENT dvd ly_arena_bytes l \<and>
    (if ly_aggregate l then by_part (ly_raw_bytes_by_part l) kv \<le> ly_arena_bytes l
     else 2 * ly_scratch_stride l \<le> ly_u8_base l \<and>
       ly_u8_base l + by_part (ly_packed_bytes_by_part l) kv \<le> ly_arena_bytes l)"
proof -
  let ?fa = "sort_key (\<lambda>ns. cs_layer_index (snd ns)) specs"
  from assms obtain acc where acc: "wf_acc cfg specs acc"
    and l: "l = finish_layout cfg (scratch_stride_of cfg ?fa) acc"
    by (rule build_layoutE)
  have "lp_raw_offset part = 0 \<and> lp_raw_bytes part \<le> scratch_stride_of cfg ?fa"
    if "part \<in> set (la_parts acc)" for part
    using that acc scratch_stride_ge[of _ ?fa cfg "lp_kv_part part"]
    by (fastforce simp: wf_acc_def wf_part_def)
  moreover have "max a b \<le> c \<Longrightarrow> by_part (a, b) kv \<le> c" for a b c :: int
    by (cases kv) auto
  ultimately show ?thesis
    unfolding l by (auto simp: finish_layout_def Let_def split: kv_part.splits
        intro!: order_trans[OF _ round256_ge])
qed

theorem layout_arena_bounds_witness:
  "2 * ly_scratch_stride demo_layout \<le> ly_u8_base demo_layout \<and>
   ly_u8_base demo_layout + by_part (ly_packed_bytes_by_part demo_layout) ValuePart
     \<le> ly_arena_bytes demo_layout \<and> ly_arena_bytes demo_layout = 5632"
proof -
  have "\<not> ly_aggregate demo_layout" and "ly_arena_bytes demo_layout = 5632" by code_simp+
  then show ?thesis using layout_arena_bounds[OF demo_built demo_input, of ValuePart] by simp
qed

text \<open>
  In every part, the quantization sections partition the heads: the low-precision heads
  come first, the high-precision heads follow, together they are exactly the part's heads,
  and a part has one or two sections.
\<close>

lemma layout_sections_partition_heads:
  assumes "build_compression_layout specs cfg lows num_layers groups = Inr l"
    and "wf_layout_input specs cfg lows"
    and "part \<in> set (ly_layer_parts l)"
  shows "tiles 0 (lp_num_heads part) (part_heads part)"
proof -
  from assms(1,2) obtain acc where acc: "wf_acc cfg specs acc"
    and l: "l = finish_layout cfg (scratch_stride_of cfg (sort_key (\<lambda>ns. cs_layer_index (snd ns)) specs)) acc"
    by (rule build_layoutE)
  have "ly_layer_parts l = la_parts acc" unfolding l by (simp add: finish_layout_def Let_def)
  then show ?thesis using acc assms(3) by (simp add: wf_acc_def wf_part_def)
qed

lemma layout_sections_partition_heads_witness:
  "tiles 0 (lp_num_heads (ly_layer_parts demo_layout ! 0)) (part_heads (ly_layer_parts demo_layout ! 0)) \<and>
   part_heads (ly_layer_parts demo_layout ! 0) = [(0, 1), (1, 3)]"
proof -
  have "ly_layer_parts demo_layout ! 0 \<in> set (ly_layer_parts demo_layout)"
    by (rule nth_mem) code_simp
  moreover have "part_heads (ly_layer_parts demo_layout ! 0) = [(0, 1), (1, 3)]" by code_simp
  ultimately show ?thesis using layout_sections_partition_heads[OF demo_built demo_input] by blast
qed

text \<open>
  The raw tail always fits: for any token counts, the bytes of the partial blocks of
  either part are at most the capacity that every slot reserves for them.
\<close>

lemma raw_tail_fits:
  assumes "build_compression_layout specs cfg lows num_layers groups = Inr l"
    and "wf_layout_input specs cfg lows" and "\<not> ly_aggregate l"
    and "raw_tail_bytes l kv tokens = Inr n"
  shows "0 \<le> n \<and> n \<le> raw_tail_capacity l"
proof -
  from assms(1,2) obtain acc where acc: "wf_acc cfg specs acc"
    and l: "l = finish_layout cfg (scratch_stride_of cfg (sort_key (\<lambda>ns. cs_layer_index (snd ns)) specs)) acc"
    by (rule build_layoutE)
  let ?cap = "\<lambda>part. (lp_block_size part - 1) * lp_num_heads part * lp_head_size part * 2"
  have wf: "0 < lp_block_size part \<and> 0 < lp_num_heads part \<and> 0 < lp_head_size part"
    if "part \<in> set (layout_parts l kv)" for part
    using that acc assms(2) unfolding l
    by (intro wf_part_pos) (auto simp: layout_parts_def finish_layout_def Let_def wf_acc_def)
  obtain ns where ns: "list_all2 (\<lambda>part x. (case tokens (lp_group_index part) of None \<Rightarrow> Inl KeyError
        | Some t \<Rightarrow> Inr (t mod lp_block_size part * lp_num_heads part * lp_head_size part * 2)) = Inr x)
      (layout_parts l kv) ns" and n: "n = sum_list ns"
    using assms(4) unfolding raw_tail_bytes_def bind_res_eq_Inr map_res_eq_Inr by auto
  have le: "0 \<le> x \<and> x \<le> ?cap part" if "0 < lp_block_size part \<and> 0 < lp_num_heads part \<and> 0 < lp_head_size part"
    and "x = t mod lp_block_size part * lp_num_heads part * lp_head_size part * 2" for x t part
  proof -
    have "0 \<le> t mod lp_block_size part" "t mod lp_block_size part \<le> lp_block_size part - 1"
      using that(1) pos_mod_bound[of "lp_block_size part" t] by auto
    then show ?thesis using that by (auto intro!: mult_right_mono)
  qed
  have "0 \<le> sum_list ns \<and> sum_list ns \<le> sum_list (map ?cap (layout_parts l kv))"
    using ns wf
  proof (induction rule: list_all2_induct)
    case (Cons part ps x xs)
    then obtain t where "x = t mod lp_block_size part * lp_num_heads part * lp_head_size part * 2"
      by (auto split: option.splits)
    then have "0 \<le> x \<and> x \<le> ?cap part" by (intro le[of part x t]) (simp_all add: Cons.prems)
    then show ?case using Cons by (auto intro: add_mono)
  qed simp
  moreover have "sum_list (map ?cap (layout_parts l kv)) \<le> raw_tail_capacity l"
    unfolding raw_tail_capacity_def using assms(3)
    by (cases kv) (auto intro!: order_trans[OF _ round256_ge] max_of_ge)
  ultimately show ?thesis using n by simp
qed

lemma raw_tail_fits_witness:
  "raw_tail_bytes demo_layout ValuePart [0 \<mapsto> 31] = Inr 2880 \<and> (2880::int) \<le> raw_tail_capacity demo_layout"
proof -
  have r: "raw_tail_bytes demo_layout ValuePart [0 \<mapsto> 31] = Inr 2880" and "\<not> ly_aggregate demo_layout"
    by code_simp+
  then show ?thesis using raw_tail_fits[OF demo_built demo_input] by blast
qed

end
