(* ===== verification/Head_Scores.thy ===== *)
theory Head_Scores
  imports Runtime_Spec Runtime_Config
begin

text \<open>
  Selection of the low-precision heads (\<^verbatim>\<open>compression/runtime/scores.py\<close>).  The score file
  reader \<open>_load_scores\<close> is numpy/torch input and appears as the parameter \<open>load\<close>; an array
  is its shape and its values in row-major order, a non-finite value being \<open>None\<close>.
\<close>

section \<open>Model\<close>

record score_array =
  sa_shape :: "nat list"
  sa_values :: "rat option list"

record head_selection =
  hs_low_counts :: "(int \<times> int) list"
  hs_local_orders :: "(int \<times> nat list) list"

definition layer_selection :: "(string \<times> cache_spec) list \<Rightarrow> head_selection" where
  "layer_selection fa_specs =
     \<lparr>hs_low_counts = fold (\<lambda>ns d. dict_set d (cs_layer_index (snd ns)) 0) fa_specs [],
      hs_local_orders = fold (\<lambda>ns d. dict_set d (cs_layer_index (snd ns))
         [0..<nat (cs_num_kv_heads (snd ns))]) fa_specs []\<rparr>"

text \<open>The offsets of the rows of all layers, in the order of the specifications.\<close>

definition layer_offsets :: "nat \<Rightarrow> nat \<Rightarrow> string \<times> cache_spec \<Rightarrow> nat list result" where
  "layer_offsets rows cols ns =
     (let layer_index = cs_layer_index (snd ns) in
      if \<not> (0 \<le> layer_index \<and> layer_index < int rows) then Inl ValueError
      else Inr [nat layer_index * cols ..< nat layer_index * cols + cols])"

text \<open>\<open>np.argsort(kind="stable")\<close>\<close>

definition argsort :: "rat list \<Rightarrow> nat list" where
  "argsort vs = sort_key (\<lambda>i. vs ! i) [0..<length vs]"

definition selected_offsets :: "rat list \<Rightarrow> nat list \<Rightarrow> rat \<Rightarrow> nat list" where
  "selected_offsets flat_scores candidate_array ratio =
     (let low_count = py_round (of_nat (length candidate_array) * ratio) in
      map ((!) candidate_array)
        (take (nat low_count) (argsort (map ((!) flat_scores) candidate_array))))"

definition score_mask :: "rat list \<Rightarrow> nat list \<Rightarrow> rat \<Rightarrow> bool list" where
  "score_mask flat_scores candidate_array ratio =
     map (\<lambda>i. i \<in> set (selected_offsets flat_scores candidate_array ratio)) [0..<length flat_scores]"

text \<open>First head of this rank in a row of scores, when the widths are compatible.\<close>

definition head_start :: "nat \<Rightarrow> int \<Rightarrow> int \<Rightarrow> int \<Rightarrow> int result" where
  "head_start score_heads local_heads tp_rank tp_size =
     (if int score_heads = local_heads then Inr 0
      else if int score_heads = local_heads * tp_size then Inr (tp_rank * local_heads)
      else if local_heads = 1 \<and> 0 < score_heads \<and> int score_heads < tp_size \<and> tp_size mod int score_heads = 0
      then Inr (tp_rank div (tp_size div int score_heads))
      else Inl ValueError)"

text \<open>\<open>np.flatnonzero\<close>\<close>

definition flatnonzero :: "bool list \<Rightarrow> nat list" where
  "flatnonzero bs = filter (\<lambda>i. bs ! i) [0..<length bs]"

definition local_mask :: "bool list \<Rightarrow> nat \<Rightarrow> int \<Rightarrow> int \<Rightarrow> int \<Rightarrow> bool list" where
  "local_mask msk cols layer_index start local_heads =
     py_slice (take cols (drop (nat layer_index * cols) msk)) start (start + local_heads)"

definition select_layer ::
    "bool list \<Rightarrow> nat \<Rightarrow> int \<Rightarrow> int \<Rightarrow> string \<times> cache_spec \<Rightarrow> head_selection \<Rightarrow> head_selection result" where
  "select_layer msk cols tp_rank tp_size ns sel =
     (let layer_index = cs_layer_index (snd ns); local_heads = cs_num_kv_heads (snd ns) in
      bind_res (head_start cols local_heads tp_rank tp_size) (\<lambda>start.
        let lm = local_mask msk cols layer_index start local_heads;
            low = flatnonzero lm;
            high = flatnonzero (map Not lm)
        in Inr \<lparr>hs_low_counts = dict_set (hs_low_counts sel) layer_index (int (length low)),
                hs_local_orders = dict_set (hs_local_orders sel) layer_index (low @ high)\<rparr>))"

definition head_scores_selection ::
    "(string \<times> cache_spec) list \<Rightarrow> rat \<Rightarrow> int \<Rightarrow> int \<Rightarrow> score_array \<Rightarrow> head_selection result" where
  "head_scores_selection fa_specs ratio tp_rank tp_size scores =
     (case sa_shape scores of
        [rows, cols] \<Rightarrow>
          if None \<in> set (sa_values scores) then Inl ValueError
          else bind_res (map_res (layer_offsets rows cols) fa_specs) (\<lambda>offs.
            fold_res (select_layer (score_mask (map the (sa_values scores)) (concat offs) ratio)
                        cols tp_rank tp_size)
              fa_specs \<lparr>hs_low_counts = [], hs_local_orders = []\<rparr>)
      | _ \<Rightarrow> Inl ValueError)"

definition build_head_selection ::
    "(pyval \<Rightarrow> score_array result) \<Rightarrow> (string \<times> cache_spec) list \<Rightarrow> config \<Rightarrow> int \<Rightarrow> int \<Rightarrow>
     score_array option \<Rightarrow> head_selection result" where
  "build_head_selection load specs cfg tp_rank tp_size scores =
     (if cfg_split_type cfg = LayerSplit then Inr (layer_selection specs)
      else bind_res (case scores of
               Some s \<Rightarrow> Inr s
             | None \<Rightarrow> if cfg_score_path cfg = PNone then Inl AssertionError
                       else load (cfg_score_path cfg))
             (head_scores_selection specs (cfg_hybrid_ratio cfg) tp_rank tp_size))"

section \<open>The mask\<close>

lemma argsort_perm: "mset (argsort vs) = mset [0..<length vs]"
  by (simp add: argsort_def)

lemma set_argsort [simp]: "set (argsort vs) = {..<length vs}"
  by (auto simp: argsort_def)

lemma length_argsort [simp]: "length (argsort vs) = length vs"
  by (simp add: argsort_def)

lemma distinct_argsort [simp]: "distinct (argsort vs)"
  by (simp add: argsort_def)

lemma argsort_sorted: "i \<le> j \<Longrightarrow> j < length vs \<Longrightarrow> vs ! (argsort vs ! i) \<le> vs ! (argsort vs ! j)"
  using sorted_sort_key[of "\<lambda>i. vs ! i" "[0..<length vs]"]
  by (auto simp: argsort_def sorted_iff_nth_mono)

definition low_count_of :: "nat list \<Rightarrow> rat \<Rightarrow> nat" where
  "low_count_of cands ratio = nat (py_round (of_nat (length cands) * ratio))"

lemma low_count_le:
  assumes "0 \<le> ratio" "ratio \<le> 1"
  shows "low_count_of cands ratio \<le> length cands"
proof -
  have "of_nat (length cands) * ratio \<le> of_nat (length cands) * 1"
    using assms by (intro mult_left_mono) auto
  then have "py_round (of_nat (length cands) * ratio) \<le> int (length cands)"
    by (intro py_round_le_int) simp
  then show ?thesis by (simp add: low_count_of_def)
qed

lemma selected_offsets_alt:
  "selected_offsets flat cands ratio =
     map ((!) cands) (take (low_count_of cands ratio) (argsort (map ((!) flat) cands)))"
  by (simp add: selected_offsets_def low_count_of_def)

lemma selected_subset: "set (selected_offsets flat cands ratio) \<subseteq> set cands"
  by (auto simp: selected_offsets_alt dest!: in_set_takeD)

lemma selected_count:
  assumes "distinct cands" "0 \<le> ratio" "ratio \<le> 1"
  shows "distinct (selected_offsets flat cands ratio)"
    and "length (selected_offsets flat cands ratio) = low_count_of cands ratio"
proof -
  have "set (take n (argsort (map ((!) flat) cands))) \<subseteq> {..<length cands}" for n
    by (auto dest!: in_set_takeD)
  then show "distinct (selected_offsets flat cands ratio)"
    using assms(1) unfolding selected_offsets_alt
    by (auto simp: distinct_map inj_on_def nth_eq_iff_index_eq subset_iff)
  show "length (selected_offsets flat cands ratio) = low_count_of cands ratio"
    using low_count_le[OF assms(2,3), of cands] by (simp add: selected_offsets_alt)
qed

lemma selected_lowest:
  assumes "p \<in> set (selected_offsets flat cands ratio)"
    and "q \<in> set cands" "q \<notin> set (selected_offsets flat cands ratio)"
  shows "flat ! p \<le> flat ! q"
proof -
  let ?vs = "map ((!) flat) cands"
  let ?n = "low_count_of cands ratio"
  obtain i where i: "i < ?n" "i < length cands" and p: "p = cands ! (argsort ?vs ! i)"
    using assms(1) by (auto simp: selected_offsets_alt in_set_conv_nth)
  obtain q' where q': "q' < length cands" "q = cands ! q'" using assms(2) by (auto simp: in_set_conv_nth)
  then have "q' \<in> set (argsort ?vs)" by simp
  then obtain j where j: "j < length cands" "argsort ?vs ! j = q'"
    unfolding in_set_conv_nth by auto
  have "\<not> j < ?n"
  proof
    assume "j < ?n"
    then have "q' \<in> set (take ?n (argsort ?vs))"
      using j by (auto simp: in_set_conv_nth intro!: exI[of _ j])
    then show False using assms(3) q' by (auto simp: selected_offsets_alt)
  qed
  with i have "?vs ! (argsort ?vs ! i) \<le> ?vs ! (argsort ?vs ! j)"
    using j by (intro argsort_sorted) auto
  moreover have "argsort ?vs ! i < length cands"
    using nth_mem[of i "argsort ?vs"] i by simp
  ultimately show ?thesis using p q' j by simp
qed

section \<open>One layer\<close>

lemma flatnonzero_perm:
  "mset (flatnonzero bs @ flatnonzero (map Not bs)) = mset [0..<length bs]"
proof -
  have "flatnonzero (map Not bs) = filter (\<lambda>i. \<not> bs ! i) [0..<length bs]"
    by (auto simp: flatnonzero_def intro!: filter_cong)
  then show ?thesis unfolding flatnonzero_def 
    by (simp only: mset_append mset_filter multiset_partition[symmetric])
qed

lemma sorted_flatnonzero [simp]: "sorted (flatnonzero bs)"
  by (simp add: flatnonzero_def sorted_wrt_filter)

lemma in_flatnonzero [simp]: "p \<in> set (flatnonzero bs) \<longleftrightarrow> p < length bs \<and> bs ! p"
  by (auto simp: flatnonzero_def)

lemma head_start_in_range:
  assumes "head_start cols h r n = Inr start" "0 < h" "0 \<le> r" "r < n"
  shows "0 \<le> start \<and> start + h \<le> int cols"
proof -
  consider "int cols = h" "start = 0" | "int cols = h * n" "start = r * h"
    | "h = 1" "0 < cols" "n mod int cols = 0" "start = r div (n div int cols)" "int cols < n"
    using assms(1) by (auto simp: head_start_def split: if_splits)
  then show ?thesis
  proof cases
    case 2
    have "(r + 1) * h \<le> n * h" using assms by (intro mult_right_mono) auto
    then show ?thesis using 2 assms by (auto simp: algebra_simps)
  next
    case 3
    have n: "n = int cols * (n div int cols)" using 3 by auto
    then have pos: "0 < n div int cols" using assms 3 by (simp add: pos_imp_zdiv_pos_iff)
    have "r < int cols * (n div int cols)" using n assms by linarith
    moreover have "r div (n div int cols) * (n div int cols) \<le> r"
      using pos by (simp add: minus_mod_eq_div_mult[symmetric])
    ultimately have "r div (n div int cols) < int cols"
      using pos by (smt (verit) mult.commute mult_right_mono)
    then show ?thesis using 3 pos assms by (auto simp: pos_imp_zdiv_nonneg_iff)
  qed (use assms in auto)
qed

lemma local_mask_nth:
  assumes "length msk = rows * cols" "0 \<le> layer" "layer < int rows"
    and "0 \<le> start" "0 \<le> h" "start + h \<le> int cols"
  shows "length (local_mask msk cols layer start h) = nat h"
    and "p < nat h \<Longrightarrow> local_mask msk cols layer start h ! p = msk ! (nat layer * cols + nat start + p)"
proof -
  have "(nat layer + 1) * cols \<le> rows * cols" using assms(2,3) by (intro mult_right_mono) auto
  then have row: "nat layer * cols + cols \<le> length msk" using assms(1) by (simp add: algebra_simps)
  then have len: "length (take cols (drop (nat layer * cols) msk)) = cols" by simp
  have sl: "local_mask msk cols layer start h =
      take (nat h) (drop (nat start) (take cols (drop (nat layer * cols) msk)))"
    unfolding local_mask_def using assms len
    by (subst py_slice_in_range) (auto simp del: length_take length_drop)
  show "length (local_mask msk cols layer start h) = nat h" using sl len assms by simp
  assume "p < nat h"
  then show "local_mask msk cols layer start h ! p = msk ! (nat layer * cols + nat start + p)"
    using sl row assms(4-6) by (simp add: add.assoc)
qed

text \<open>What the loop stores for one layer.\<close>

definition layer_result ::
    "bool list \<Rightarrow> nat \<Rightarrow> int \<Rightarrow> int \<Rightarrow> cache_spec \<Rightarrow> (int \<times> nat list) result" where
  "layer_result msk cols tp_rank tp_size spec =
     bind_res (head_start cols (cs_num_kv_heads spec) tp_rank tp_size) (\<lambda>start.
       let lm = local_mask msk cols (cs_layer_index spec) start (cs_num_kv_heads spec)
       in Inr (int (length (flatnonzero lm)), flatnonzero lm @ flatnonzero (map Not lm)))"

lemma select_layer_alt:
  "select_layer msk cols r n ns sel =
     bind_res (layer_result msk cols r n (snd ns)) (\<lambda>(low, order).
       Inr \<lparr>hs_low_counts = dict_set (hs_low_counts sel) (cs_layer_index (snd ns)) low,
            hs_local_orders = dict_set (hs_local_orders sel) (cs_layer_index (snd ns)) order\<rparr>)"
  by (auto simp: select_layer_def layer_result_def Let_def bind_res_def split: sum.splits)

text \<open>With distinct layer indices every layer's entry survives the loop.\<close>

lemma fold_select_entries:
  assumes "fold_res (select_layer msk cols r n) specs sel = Inr sel'"
    and "distinct (map (\<lambda>ns. cs_layer_index (snd ns)) specs)"
  shows "(\<forall>ns \<in> set specs. \<exists>low order. layer_result msk cols r n (snd ns) = Inr (low, order) \<and>
            map_of (hs_low_counts sel') (cs_layer_index (snd ns)) = Some low \<and>
            map_of (hs_local_orders sel') (cs_layer_index (snd ns)) = Some order) \<and>
         (\<forall>k. k \<notin> (\<lambda>ns. cs_layer_index (snd ns)) ` set specs \<longrightarrow>
            map_of (hs_low_counts sel') k = map_of (hs_low_counts sel) k \<and>
            map_of (hs_local_orders sel') k = map_of (hs_local_orders sel) k)"
  using assms
proof (induction specs arbitrary: sel)
  case (Cons ns specs)
  obtain low order where lr: "layer_result msk cols r n (snd ns) = Inr (low, order)"
    and rest: "fold_res (select_layer msk cols r n) specs
       \<lparr>hs_low_counts = dict_set (hs_low_counts sel) (cs_layer_index (snd ns)) low,
        hs_local_orders = dict_set (hs_local_orders sel) (cs_layer_index (snd ns)) order\<rparr> = Inr sel'"
    using Cons.prems(1) by (auto simp: select_layer_alt[of msk cols r n ns] bind_res_eq_Inr)
  note IH = Cons.IH[OF rest] Cons.prems(2)
  then have "map_of (hs_low_counts sel') (cs_layer_index (snd ns)) = Some low \<and>
      map_of (hs_local_orders sel') (cs_layer_index (snd ns)) = Some order" by simp
  then show ?case using IH lr by auto
qed simp

section \<open>Properties\<close>

text \<open>A two-dimensional array holds rows times columns values.\<close>

definition wf_scores :: "score_array \<Rightarrow> bool" where
  "wf_scores sc \<longleftrightarrow> length (sa_values sc) = prod_list (sa_shape sc)"

text \<open>The score of a head of a layer, as seen by one tensor-parallel rank.\<close>

definition local_score :: "score_array \<Rightarrow> int \<Rightarrow> int \<Rightarrow> nat \<Rightarrow> rat" where
  "local_score sc layer start p =
     the (sa_values sc ! (nat layer * (sa_shape sc ! 1) + nat start + p))"

lemma head_scores_selectionE:
  assumes "head_scores_selection specs ratio r n sc = Inr sel"
  obtains rows cols offs where "sa_shape sc = [rows, cols]" and "None \<notin> set (sa_values sc)"
    and "list_all2 (\<lambda>ns os. layer_offsets rows cols ns = Inr os) specs offs"
    and "fold_res (select_layer (score_mask (map the (sa_values sc)) (concat offs) ratio) cols r n)
           specs \<lparr>hs_low_counts = [], hs_local_orders = []\<rparr> = Inr sel"
  using assms by (auto simp: head_scores_selection_def bind_res_eq_Inr map_res_eq_Inr
      split: list.splits if_splits)

lemma layer_offsets_mem:
  assumes "list_all2 (\<lambda>ns os. layer_offsets rows cols ns = Inr os) specs offs" and "ns \<in> set specs"
  shows "0 \<le> cs_layer_index (snd ns) \<and> cs_layer_index (snd ns) < int rows \<and>
    {nat (cs_layer_index (snd ns)) * cols ..< nat (cs_layer_index (snd ns)) * cols + cols} \<subseteq> set (concat offs)"
  using assms
  by (induction specs offs rule: list_all2_induct) (auto simp: layer_offsets_def Let_def split: if_splits)

lemma score_mask_nth [simp]:
  "i < length flat \<Longrightarrow> score_mask flat cands ratio ! i \<longleftrightarrow> i \<in> set (selected_offsets flat cands ratio)"
  by (simp add: score_mask_def)

lemma head_order_facts:
  assumes "head_scores_selection specs ratio tp_rank tp_size sc = Inr sel" and "wf_scores sc"
    and "distinct (map (\<lambda>ns. cs_layer_index (snd ns)) specs)" and "ns \<in> set specs"
    and "0 < cs_num_kv_heads (snd ns)" and "0 \<le> tp_rank" and "tp_rank < tp_size"
  shows "\<exists>low order start.
    map_of (hs_low_counts sel) (cs_layer_index (snd ns)) = Some (int low) \<and>
    map_of (hs_local_orders sel) (cs_layer_index (snd ns)) = Some order \<and>
    mset order = mset [0..<nat (cs_num_kv_heads (snd ns))] \<and> int low \<le> cs_num_kv_heads (snd ns) \<and>
    sorted (take low order) \<and> sorted (drop low order) \<and>
    head_start (sa_shape sc ! 1) (cs_num_kv_heads (snd ns)) tp_rank tp_size = Inr start \<and>
    (\<forall>p \<in> set (take low order). \<forall>q \<in> set (drop low order).
       local_score sc (cs_layer_index (snd ns)) start p \<le> local_score sc (cs_layer_index (snd ns)) start q)"
proof -
  obtain rows cols offs where sh: "sa_shape sc = [rows, cols]"
    and offs: "list_all2 (\<lambda>ns os. layer_offsets rows cols ns = Inr os) specs offs"
    and fold: "fold_res (select_layer (score_mask (map the (sa_values sc)) (concat offs) ratio) cols tp_rank tp_size)
           specs \<lparr>hs_low_counts = [], hs_local_orders = []\<rparr> = Inr sel"
    using assms(1) by (rule head_scores_selectionE)
  let ?flat = "map the (sa_values sc)" and ?layer = "cs_layer_index (snd ns)"
  let ?sel = "set (selected_offsets ?flat (concat offs) ratio)" and ?h = "cs_num_kv_heads (snd ns)"
  let ?msk = "score_mask ?flat (concat offs) ratio"
  have layer: "0 \<le> ?layer" "?layer < int rows"
    and row: "{nat ?layer * cols ..< nat ?layer * cols + cols} \<subseteq> set (concat offs)"
    using layer_offsets_mem[OF offs assms(4)] by auto
  have len: "length ?msk = rows * cols" using assms(2) sh by (simp add: wf_scores_def score_mask_def)
  obtain low order where lr: "layer_result ?msk cols tp_rank tp_size (snd ns) = Inr (low, order)"
    and maps: "map_of (hs_low_counts sel) ?layer = Some low" "map_of (hs_local_orders sel) ?layer = Some order"
    using fold_select_entries[OF fold assms(3)] assms(4) by blast
  obtain start where st: "head_start cols ?h tp_rank tp_size = Inr start"
    and lowd: "low = int (length (flatnonzero (local_mask ?msk cols ?layer start ?h)))"
    and ord: "order = flatnonzero (local_mask ?msk cols ?layer start ?h) @
               flatnonzero (map Not (local_mask ?msk cols ?layer start ?h))"
    using lr by (auto simp: layer_result_def bind_res_eq_Inr Let_def)
  have rng: "0 \<le> start" "start + ?h \<le> int cols" using head_start_in_range[OF st] assms(5-7) by auto
  let ?lm = "local_mask ?msk cols ?layer start ?h"
  have llen: "length ?lm = nat ?h" using local_mask_nth(1)[OF len layer rng(1) _ rng(2)] assms(5) by simp
  have off: "nat ?layer * cols + nat start + p < rows * cols" if "p < nat ?h" for p
  proof -
    have "(nat ?layer + 1) * cols \<le> rows * cols" using layer by (intro mult_right_mono) auto
    then show ?thesis using that rng by (simp add: algebra_simps)
  qed
  have lmn: "?lm ! p \<longleftrightarrow> nat ?layer * cols + nat start + p \<in> ?sel" if "p < nat ?h" for p
    using local_mask_nth(2)[OF len layer rng(1) _ rng(2) that] assms(5) off[OF that] len
    by (simp add: score_mask_def)
  have sc: "local_score sc ?layer start p = ?flat ! (nat ?layer * cols + nat start + p)" if "p < nat ?h" for p
    using off[OF that] assms(2) sh by (simp add: local_score_def wf_scores_def)
  have "local_score sc ?layer start p \<le> local_score sc ?layer start q"
    if "p \<in> set (flatnonzero ?lm)" "q \<in> set (flatnonzero (map Not ?lm))" for p q
  proof -
    have pq: "p < nat ?h" "q < nat ?h" "?lm ! p" "\<not> ?lm ! q" using that llen by auto
    have "nat ?layer * cols + nat start + q \<in> set (concat offs)"
      using row pq(2) rng by (auto simp: subset_iff)
    then show ?thesis using selected_lowest lmn pq sc by simp
  qed
  moreover have "int (length (flatnonzero ?lm)) \<le> ?h"
    using length_filter_le[of "(!) ?lm" "[0..<length ?lm]"] llen assms(5) unfolding flatnonzero_def by simp
  ultimately show ?thesis
    using maps st sh flatnonzero_perm[of ?lm] llen unfolding ord lowd
    by (intro exI[of _ "length (flatnonzero ?lm)"] exI[of _ "flatnonzero ?lm @ flatnonzero (map Not ?lm)"]
        exI[of _ start]) (simp del: in_flatnonzero)
qed

lemma head_selection_low_bounds:
  assumes "head_scores_selection specs ratio tp_rank tp_size sc = Inr sel" and "wf_scores sc"
    and "distinct (map (\<lambda>ns. cs_layer_index (snd ns)) specs)" and "ns \<in> set specs"
    and "0 < cs_num_kv_heads (snd ns)" and "0 \<le> tp_rank" and "tp_rank < tp_size"
    and "map_of (hs_low_counts sel) (cs_layer_index (snd ns)) = Some low"
  shows "0 \<le> low \<and> low \<le> cs_num_kv_heads (snd ns)"
  using head_order_facts[OF assms(1-7)] assms(8) by auto

text \<open>
  Head selection is a correct reordering.  For every layer the stored order is a
  permutation of the rank's own heads, the low-precision heads come first, both groups keep
  the original order, and no low-precision head has a higher score than a high-precision
  head of the layer.
\<close>

lemma head_order_sound:
  assumes "head_scores_selection specs ratio tp_rank tp_size sc = Inr sel" and "wf_scores sc"
    and "distinct (map (\<lambda>ns. cs_layer_index (snd ns)) specs)" and "ns \<in> set specs"
    and "0 < cs_num_kv_heads (snd ns)" and "0 \<le> tp_rank" and "tp_rank < tp_size"
  shows "\<exists>low order start.
    map_of (hs_low_counts sel) (cs_layer_index (snd ns)) = Some (int low) \<and>
    map_of (hs_local_orders sel) (cs_layer_index (snd ns)) = Some order \<and>
    mset order = mset [0..<nat (cs_num_kv_heads (snd ns))] \<and> int low \<le> cs_num_kv_heads (snd ns) \<and>
    sorted (take low order) \<and> sorted (drop low order) \<and>
    head_start (sa_shape sc ! 1) (cs_num_kv_heads (snd ns)) tp_rank tp_size = Inr start \<and>
    (\<forall>p \<in> set (take low order). \<forall>q \<in> set (drop low order).
       local_score sc (cs_layer_index (snd ns)) start p \<le> local_score sc (cs_layer_index (snd ns)) start q)"
  using assms by (rule head_order_facts)

text \<open>
  Exactly the configured share of heads is low precision: over all candidate positions,
  \<open>round(size * hybrid_ratio)\<close> are selected, all of them candidates, and every selected
  position has a score at most that of every candidate left out.
\<close>

lemma low_head_budget:
  assumes "distinct cands" and "0 \<le> ratio" and "ratio \<le> 1" and "\<forall>c \<in> set cands. c < length flat"
  shows "card {i. i < length flat \<and> score_mask flat cands ratio ! i} =
      nat (py_round (of_nat (length cands) * ratio)) \<and>
    (\<forall>p < length flat. \<forall>q \<in> set cands. score_mask flat cands ratio ! p \<and> \<not> score_mask flat cands ratio ! q \<longrightarrow>
       p \<in> set cands \<and> flat ! p \<le> flat ! q)"
proof -
  let ?sel = "selected_offsets flat cands ratio"
  have sub: "set ?sel \<subseteq> set cands" by (rule selected_subset)
  then have "{i. i < length flat \<and> score_mask flat cands ratio ! i} = set ?sel"
    using assms(4) by auto
  then have "card {i. i < length flat \<and> score_mask flat cands ratio ! i} = low_count_of cands ratio"
    using selected_count[OF assms(1-3)] by (simp add: distinct_card)
  moreover have "p \<in> set cands \<and> flat ! p \<le> flat ! q"
    if "p < length flat" "q \<in> set cands" "score_mask flat cands ratio ! p" "\<not> score_mask flat cands ratio ! q" for p q
    using that sub assms(4) selected_lowest[of p flat cands ratio q] by auto
  ultimately show ?thesis by (simp add: low_count_of_def)
qed

lemma low_head_budget_witness:
  "card {i. i < length [3, 1, 2, 5 :: rat] \<and> score_mask [3, 1, 2, 5] [0, 1, 2, 3] (1/2) ! i} = 2"
proof -
  have r: "nat (py_round (of_nat (length [0, 1, 2, 3 :: nat]) * (1/2))) = 2" by code_simp
  have "\<forall>c \<in> set [0, 1, 2, 3 :: nat]. c < length [3, 1, 2, 5 :: rat]" by simp
  from low_head_budget[OF _ _ _ this, of "1/2"] show ?thesis unfolding r by simp
qed

lemma head_order_sound_witness:
  "\<exists>low order. let sel = projr (head_scores_selection [(''l0'', CacheSpec 0 16 2 8 BFloat16 None)] (1/2) 1 2
       \<lparr>sa_shape = [1, 4], sa_values = [Some 3, Some 1, Some 9, Some 2]\<rparr>) in
     map_of (hs_low_counts sel) 0 = Some (int low) \<and> map_of (hs_local_orders sel) 0 = Some order \<and>
     mset order = mset [0, 1] \<and> int low \<le> 2"
proof -
  let ?specs = "[(''l0'', CacheSpec 0 16 2 8 BFloat16 None)]"
  let ?sc = "\<lparr>sa_shape = [1, 4], sa_values = [Some 3, Some 1, Some 9, Some (2::rat)]\<rparr>"
  have "isl (head_scores_selection ?specs (1/2) 1 2 ?sc) = False" by code_simp
  then have b: "head_scores_selection ?specs (1/2) 1 2 ?sc =
      Inr (projr (head_scores_selection ?specs (1/2) 1 2 ?sc))" by simp
  have "wf_scores ?sc" by (simp add: wf_scores_def)
  moreover have "[0..<nat 2] = [0, 1]" by code_simp
  ultimately show ?thesis
    using head_order_sound[OF b, of "(''l0'', CacheSpec 0 16 2 8 BFloat16 None)"]
    by (auto simp: CacheSpec_def Let_def)
qed

end
