(* ===== verification/Memory_Plan.thy ===== *)
theory Memory_Plan
  imports Runtime_Layout Head_Scores
begin

text \<open>
  Memory planning (\<^verbatim>\<open>compression/runtime/memory.py\<close>): the process-wide registry of nvCOMP
  workspace allocators, the auditing allocator of the sizing probe, and
  \<open>build_memory_plan\<close>.  What nvCOMP itself does during the probe is a parameter: the trace
  of its allocations, the output bound it reports per input size, the driver memory before
  and after, and a failure if it raises one.
\<close>

section \<open>The allocator registry\<close>

text \<open>
  \<open>_workspace_allocators\<close> maps a CUDA stream to its allocator (here: an identifier);
  \<open>rg_hook\<close> says whether nvCOMP's device allocator is \<open>_allocate_workspace\<close>.
\<close>

record registry =
  rg_allocators :: "(int \<times> int) list"
  rg_hook :: bool

datatype alloc_source = Registered int | ExternalAllocation

definition allocate_workspace :: "registry \<Rightarrow> int \<Rightarrow> alloc_source" where
  "allocate_workspace rg stream = (case map_of (rg_allocators rg) stream of
       Some a \<Rightarrow> Registered a | None \<Rightarrow> ExternalAllocation)"

definition register_workspace_allocators :: "(int \<times> int) list \<Rightarrow> registry \<Rightarrow> registry result" where
  "register_workspace_allocators allocators rg =
     (if fst ` set (rg_allocators rg) \<inter> fst ` set allocators \<noteq> {} then Inl RuntimeError
      else Inr \<lparr>rg_allocators = fold (\<lambda>(s, a) d. dict_set d s a) allocators (rg_allocators rg),
                rg_hook = (rg_hook rg \<or> rg_allocators rg = [])\<rparr>)"

definition unregister_workspace_allocators :: "int list \<Rightarrow> registry \<Rightarrow> registry" where
  "unregister_workspace_allocators streams rg =
     (let d = fold (\<lambda>s d. dict_pop d s) streams (rg_allocators rg)
      in \<lparr>rg_allocators = d, rg_hook = (if d = [] then False else rg_hook rg)\<rparr>)"

section \<open>The auditing allocator\<close>

record audit =
  au_live_bytes :: int
  au_peak_bytes :: int
  au_requests :: "int list"

definition AuditAllocator :: audit where
  "AuditAllocator = \<lparr>au_live_bytes = 0, au_peak_bytes = 0, au_requests = []\<rparr>"

definition audit_call :: "audit \<Rightarrow> int \<Rightarrow> audit \<times> int" where
  "audit_call a nbytes =
     (let accounted = round_up nbytes ALIGNMENT; live = au_live_bytes a + accounted
      in (\<lparr>au_live_bytes = live, au_peak_bytes = max (au_peak_bytes a) live,
           au_requests = au_requests a @ [nbytes]\<rparr>, accounted))"

definition audit_release :: "audit \<Rightarrow> int \<Rightarrow> audit" where
  "audit_release a nbytes = a\<lparr>au_live_bytes := au_live_bytes a - nbytes\<rparr>"

text \<open>What a client does to an allocator: request bytes, or drop the i-th live allocation.\<close>

datatype audit_event = AuditCall int | AuditDrop nat

fun run_audit :: "audit_event list \<Rightarrow> audit \<times> int list \<Rightarrow> audit \<times> int list" where
  "run_audit [] s = s"
| "run_audit (AuditCall n # es) (a, live) =
     (let (a', acc) = audit_call a n in run_audit es (a', live @ [acc]))"
| "run_audit (AuditDrop i # es) (a, live) =
     (if i < length live then run_audit es (audit_release a (live ! i), del_index i live)
      else run_audit es (a, live))"

section \<open>The probe\<close>

record nvcomp_probe =
  pr_stream :: int
  pr_audit_id :: int
  pr_trace :: "audit_event list"
  pr_max_output :: "int \<Rightarrow> int"
  pr_free_before :: int
  pr_free_after :: int
  pr_raises :: "py_error option"

definition probe_operators ::
    "nvcomp_probe \<Rightarrow> registry \<Rightarrow> int \<times> int \<Rightarrow> registry \<times> (int \<times> (int \<times> int) \<times> int) result" where
  "probe_operators nv rg sizes =
     (case register_workspace_allocators [(pr_stream nv, pr_audit_id nv)] rg of
        Inl e \<Rightarrow> (rg, Inl e)
      | Inr rg1 \<Rightarrow>
          (unregister_workspace_allocators [pr_stream nv] rg1,
           case pr_raises nv of
             Some e \<Rightarrow> Inl e
           | None \<Rightarrow>
               let peak = au_peak_bytes (fst (run_audit (pr_trace nv) (AuditAllocator, [])));
                   probe_sizes = sorted_list_of_set {fst sizes, snd sizes};
                   m = max_of (map (pr_max_output nv) probe_sizes)
               in Inr (round_up peak ALIGNMENT, (m, m), max 0 (pr_free_before nv - pr_free_after nv))))"

section \<open>The plan\<close>

definition DRIVER_GUARD_BYTES :: int where
  "DRIVER_GUARD_BYTES = 4 * 2 ^ 20"

record memory_plan =
  mp_config :: config
  mp_layout :: layout
  mp_head_selection :: head_selection
  mp_codec_workspace_bytes :: int
  mp_codec_max_output_bytes :: "int \<times> int"
  mp_blocks_per_logical :: int
  mp_metadata_bytes :: int
  mp_retained_driver_bytes :: int
  mp_guard_bytes :: int
  mp_reserved_bytes :: int

definition unique_layers :: "layer_part list \<Rightarrow> (string \<times> layer_part) list" where
  "unique_layers parts = fold (\<lambda>part d. dict_set d (lp_layer_name part) part) parts []"

definition sign_bytes :: "config \<Rightarrow> layout \<Rightarrow> int" where
  "sign_bytes cfg l =
     (if uses_transformer cfg
      then sum_list (map (\<lambda>part. round_up (lp_num_heads part * lp_head_size part * 2) ALIGNMENT)
             (ly_layer_parts l))
      else 0)"

definition order_bytes :: "layout \<Rightarrow> int" where
  "order_bytes l =
     sum_list (map (\<lambda>kp. round_up (lp_num_heads (snd kp) * 8) ALIGNMENT)
       (unique_layers (ly_layer_parts l)))"

definition num_index_rows :: "layout \<Rightarrow> int" where
  "num_index_rows l =
     max (max (int (length (ly_index_rows_by_group l)))
              (int (card (lp_layer_name ` set (ly_layer_parts l))))) 1"

definition slot_bytes :: "config \<Rightarrow> layout \<Rightarrow> int" where
  "slot_bytes cfg l =
     ly_arena_bytes l + (if uses_aggregate cfg then 0 else ly_arena_bytes l)
       + ly_aux_arena_bytes l + raw_tail_capacity l"

definition metadata_bytes_of :: "config \<Rightarrow> layout \<Rightarrow> int \<Rightarrow> int" where
  "metadata_bytes_of cfg l blocks_per_logical =
     sign_bytes cfg l + order_bytes l
       + cfg_slot_count cfg * round_up (num_index_rows l * cfg_logical_blocks_per_chunk cfg
                                          * blocks_per_logical * 8) ALIGNMENT
       + (cfg_slot_count cfg - 1) * (sign_bytes cfg l + order_bytes l)"

text \<open>The last part of \<open>build_memory_plan\<close>, once the layout and the probe are known.\<close>

definition finish_plan ::
    "config \<Rightarrow> layout \<Rightarrow> head_selection \<Rightarrow> int \<Rightarrow> int \<times> (int \<times> int) \<times> int \<Rightarrow> memory_plan result" where
  "finish_plan cfg l0 sel blocks_per_logical probed =
     (let (workspace0, max_outputs, retained0) = probed;
          l = l0\<lparr>ly_arena_bytes :=
                   round_up (max (ly_arena_bytes l0) (max (fst max_outputs) (snd max_outputs))) ALIGNMENT\<rparr>
      in if ly_layer_parts l \<noteq> [] \<and> blocks_per_logical = 0 then Inl ZeroDivisionError
         else if \<exists>part \<in> set (ly_layer_parts l). lp_block_size part mod blocks_per_logical \<noteq> 0
         then Inl ValueError
         else let metadata = metadata_bytes_of cfg l blocks_per_logical;
                  workspace = (if uses_codec cfg then workspace0 * cfg_slot_count cfg else workspace0);
                  retained = (if uses_codec cfg then retained0 * cfg_slot_count cfg else retained0);
                  reserved = round_up (cfg_slot_count cfg * slot_bytes cfg l + workspace + metadata
                               + retained + DRIVER_GUARD_BYTES) ALIGNMENT
              in Inr \<lparr>mp_config = cfg, mp_layout = l, mp_head_selection = sel,
                   mp_codec_workspace_bytes = workspace, mp_codec_max_output_bytes = max_outputs,
                   mp_blocks_per_logical = blocks_per_logical, mp_metadata_bytes = metadata,
                   mp_retained_driver_bytes = retained, mp_guard_bytes = DRIVER_GUARD_BYTES,
                   mp_reserved_bytes = reserved\<rparr>)"

definition planning_config :: "config \<Rightarrow> config" where
  "planning_config cfg =
     (if Quantizer \<notin> set (cfg_pipeline cfg) then cfg\<lparr>cfg_split_type := LayerSplit\<rparr> else cfg)"

definition model_layers :: "int \<Rightarrow> head_selection \<Rightarrow> int" where
  "model_layers num_layers sel =
     (if num_layers \<noteq> 0 then num_layers
      else (if hs_low_counts sel = [] then -1 else max_of (map fst (hs_low_counts sel))) + 1)"

text \<open>Everything up to the layout; none of it touches the registry.\<close>

definition plan_layout ::
    "(pyval \<Rightarrow> score_array result) \<Rightarrow> config \<Rightarrow> (string \<times> cache_spec) list \<Rightarrow> int \<Rightarrow> int \<Rightarrow> int \<Rightarrow>
     (head_selection \<times> layout) result" where
  "plan_layout load cfg specs tp_size tp_rank num_layers =
     bind_res (if truthy (cfg_score_path cfg) then bind_res (load (cfg_score_path cfg)) (\<lambda>s. Inr (Some s))
               else Inr None) (\<lambda>scores.
     bind_res (build_head_selection load specs (planning_config cfg) tp_rank tp_size scores) (\<lambda>sel.
     bind_res (build_compression_layout specs (planning_config cfg) (map_of (hs_low_counts sel))
                 (model_layers num_layers sel) Map.empty) (\<lambda>l.
       Inr (sel, l))))"

definition build_memory_plan ::
    "(pyval \<Rightarrow> score_array result) \<Rightarrow> nvcomp_probe \<Rightarrow> registry \<Rightarrow> config \<Rightarrow> (string \<times> cache_spec) list \<Rightarrow>
     int \<Rightarrow> int \<Rightarrow> int \<Rightarrow> int \<Rightarrow> registry \<times> memory_plan option result" where
  "build_memory_plan load nv rg cfg specs blocks_per_logical tp_size tp_rank num_layers =
     (if \<not> available cfg then (rg, Inr None)
      else case plan_layout load cfg specs tp_size tp_rank num_layers of
        Inl e \<Rightarrow> (rg, Inl e)
      | Inr (sel, l) \<Rightarrow>
          let (rg', probed) = (if uses_codec cfg then probe_operators nv rg (ly_packed_bytes_by_part l)
                               else (rg, Inr (0, (0, 0), 0)))
          in (rg', bind_res probed (\<lambda>pr.
                bind_res (finish_plan cfg l sel blocks_per_logical pr) (\<lambda>p. Inr (Some p)))))"

section \<open>Registry facts\<close>

text \<open>nvCOMP's hook is installed exactly while some stream is registered.\<close>

definition registry_ok :: "registry \<Rightarrow> bool" where
  "registry_ok rg \<longleftrightarrow> (rg_hook rg \<longleftrightarrow> rg_allocators rg \<noteq> []) \<and> distinct (map fst (rg_allocators rg))"

definition rg_init :: "registry \<Rightarrow> bool" where
  "rg_init rg \<longleftrightarrow> rg = \<lparr>rg_allocators = [], rg_hook = False\<rparr>"

inductive rg_step :: "registry \<Rightarrow> registry \<Rightarrow> bool" where
  reg: "allocators \<noteq> [] \<Longrightarrow> register_workspace_allocators allocators rg = Inr rg' \<Longrightarrow> rg_step rg rg'"
| unreg: "rg_step rg (unregister_workspace_allocators streams rg)"

lemma fold_dict_set_keys:
  "fst ` set (fold (\<lambda>(s, a) d. dict_set d s a) xs d) = fst ` set d \<union> fst ` set xs"
  by (induction xs arbitrary: d) (auto simp: case_prod_beta)

lemma fold_dict_set_distinct:
  "distinct (map fst d) \<Longrightarrow> distinct (map fst (fold (\<lambda>(s, a) d. dict_set d s a) xs d))"
  by (induction xs arbitrary: d) (auto intro: distinct_dict_set)

lemma fold_dict_pop_distinct:
  "distinct (map fst d) \<Longrightarrow> distinct (map fst (fold (\<lambda>s d. dict_pop d s) xs d))"
  by (induction xs arbitrary: d) (auto intro: distinct_dict_pop)

lemma fold_dict_pop_nil [simp]: "fold (\<lambda>s d. dict_pop d s) xs [] = []"
  by (induction xs) (auto simp: dict_pop_def)

interpretation rg: inductive_invariant rg_init rg_step registry_ok
proof
  fix s :: registry
  show "rg_init s \<Longrightarrow> registry_ok s" by (simp add: rg_init_def registry_ok_def)
next
  fix s t
  assume "registry_ok s" and step: "rg_step s t"
  from step show "registry_ok t"
  proof cases
    case r: (reg allocators)
    have "fold (\<lambda>(s, a) d. dict_set d s a) allocators (rg_allocators s) \<noteq> []"
      using fold_dict_set_keys[of allocators "rg_allocators s"] r(1) by auto
    then show ?thesis using r \<open>registry_ok s\<close> fold_dict_set_distinct[of "rg_allocators s" allocators]
      by (auto simp: registry_ok_def register_workspace_allocators_def split: if_splits)
  next
    case (unreg streams)
    then show ?thesis using \<open>registry_ok s\<close> fold_dict_pop_distinct
      by (auto simp: registry_ok_def unregister_workspace_allocators_def Let_def)
  qed
qed

lemma dict_pop_single [simp]: "dict_pop [(k, v)] k = []"
  by (simp add: dict_pop_def)

lemma dict_pop_fresh: "k \<notin> fst ` set d \<Longrightarrow> dict_pop (d @ [(k, v)]) k = d"
  unfolding dict_pop_def by (induction d) auto

text \<open>
  The sizing probe leaves the allocator registry exactly as it found it, whether it
  succeeds, nvCOMP raises, or its stream was already registered.
\<close>

lemma probe_registry_neutral:
  assumes "reach rg_init rg_step rg"
  shows "fst (probe_operators nv rg sizes) = rg"
proof -
  have ok: "registry_ok rg" by (rule rg.reach_inv[OF assms])
  show ?thesis
  proof (cases "pr_stream nv \<in> fst ` set (rg_allocators rg)")
    case True
    then show ?thesis by (simp add: probe_operators_def register_workspace_allocators_def)
  next
    case False
    then show ?thesis using ok
      by (cases "rg_allocators rg = []")
        (simp_all add: probe_operators_def register_workspace_allocators_def dict_set_fresh
          dict_pop_fresh unregister_workspace_allocators_def registry_ok_def Let_def)
  qed
qed

lemma probe_registry_neutral_witness:
  "fst (probe_operators \<lparr>pr_stream = 7, pr_audit_id = 1, pr_trace = [], pr_max_output = (\<lambda>n. n),
      pr_free_before = 0, pr_free_after = 0, pr_raises = Some RuntimeError\<rparr>
      \<lparr>rg_allocators = [(5, 2)], rg_hook = True\<rparr> (4, 8)) = \<lparr>rg_allocators = [(5, 2)], rg_hook = True\<rparr>"
proof (rule probe_registry_neutral)
  let ?s0 = "\<lparr>rg_allocators = [], rg_hook = False\<rparr>"
  have "rg_step ?s0 \<lparr>rg_allocators = [(5, 2)], rg_hook = True\<rparr>"
    by (rule rg_step.reg[of "[(5, 2)]"]) (simp_all add: register_workspace_allocators_def)
  moreover have "reach rg_init rg_step ?s0" by (rule reach_init) (simp add: rg_init_def)
  ultimately show "reach rg_init rg_step \<lparr>rg_allocators = [(5, 2)], rg_hook = True\<rparr>"
    by (rule reach_step[rotated])
qed

section \<open>Audit facts\<close>

lemma sum_list_del_index: "i < length xs \<Longrightarrow> sum_list (del_index i xs) = sum_list xs - (xs ! i :: int)"
  using mset_del_index[of i xs] by (metis add_diff_cancel_left' sum_mset.add_mset sum_mset_sum_list)

definition audit_ok :: "audit \<times> int list \<Rightarrow> bool" where
  "audit_ok s \<longleftrightarrow> au_live_bytes (fst s) = sum_list (snd s) \<and> au_live_bytes (fst s) \<le> au_peak_bytes (fst s) \<and>
     0 \<le> au_peak_bytes (fst s) \<and> ALIGNMENT dvd au_peak_bytes (fst s) \<and>
     (\<forall>x \<in> set (snd s). ALIGNMENT dvd x \<and> 0 \<le> x)"

lemma dvd_sum_list_int: "(\<And>x. x \<in> set xs \<Longrightarrow> (a::int) dvd x) \<Longrightarrow> a dvd sum_list xs"
  by (induction xs) auto

fun audit_events_ok :: "audit_event list \<Rightarrow> bool" where
  "audit_events_ok [] = True"
| "audit_events_ok (AuditCall n # es) = (0 \<le> n \<and> audit_events_ok es)"
| "audit_events_ok (AuditDrop i # es) = audit_events_ok es"

lemma run_audit_append: "run_audit (es @ es') s = run_audit es' (run_audit es s)"
  by (induction es s rule: run_audit.induct) (auto simp: Let_def split: prod.splits)

lemma run_audit_ok: "audit_events_ok es \<Longrightarrow> audit_ok s \<Longrightarrow> audit_ok (run_audit es s)"
proof (induction es s rule: run_audit.induct)
  case (2 n es a live)
  have "ALIGNMENT dvd sum_list live" using "2.prems" by (intro dvd_sum_list_int) (auto simp: audit_ok_def)
  then have "audit_ok (\<lparr>au_live_bytes = au_live_bytes a + round256 n,
      au_peak_bytes = max (au_peak_bytes a) (au_live_bytes a + round256 n),
      au_requests = au_requests a @ [n]\<rparr>, live @ [round256 n])"
    using "2.prems" by (auto simp: audit_ok_def max_def)
  then show ?case using 2 by (simp add: audit_call_def Let_def)
next
  case (3 i es a live)
  show ?case
  proof (cases "i < length live")
    case True
    have "0 \<le> live ! i" "sum_list live \<le> au_peak_bytes a" using "3.prems" True by (auto simp: audit_ok_def)
    then have "sum_list live - live ! i \<le> au_peak_bytes a" by linarith
    moreover have "\<forall>x \<in> set (del_index i live). ALIGNMENT dvd x \<and> 0 \<le> x"
      using "3.prems" set_del_index[of i live] by (auto simp: audit_ok_def)
    ultimately have "audit_ok (audit_release a (live ! i), del_index i live)"
      using "3.prems" True by (simp add: audit_ok_def audit_release_def sum_list_del_index)
    then show ?thesis using 3 True by simp
  qed (use 3 in simp)
qed simp

lemma audit_peak_mono: "au_peak_bytes (fst s) \<le> au_peak_bytes (fst (run_audit es s))"
  by (induction es s rule: run_audit.induct)
    (auto simp: audit_call_def audit_release_def Let_def intro: order_trans split: if_splits)

lemma audit_peak_attained:
  "au_peak_bytes (fst (run_audit es s)) = au_peak_bytes (fst s) \<or>
   (\<exists>es1 es2. es = es1 @ es2 \<and> au_peak_bytes (fst (run_audit es s)) = au_live_bytes (fst (run_audit es1 s)))"
proof (induction es rule: rev_induct)
  case (snoc e es)
  obtain a live where r: "run_audit es s = (a, live)" by (cases "run_audit es s")
  have last: "run_audit (es @ [e]) s = run_audit [e] (a, live)" by (simp add: run_audit_append r)
  have "au_peak_bytes (fst (run_audit [e] (a, live))) = au_peak_bytes a \<or>
      au_peak_bytes (fst (run_audit [e] (a, live))) = au_live_bytes (fst (run_audit [e] (a, live)))"
    by (cases e) (auto simp: audit_call_def audit_release_def Let_def max_def)
  then show ?case
  proof
    assume p: "au_peak_bytes (fst (run_audit [e] (a, live))) = au_peak_bytes a"
    from snoc.IH show ?thesis
    proof
      assume "\<exists>es1 es2. es = es1 @ es2 \<and> au_peak_bytes (fst (run_audit es s)) = au_live_bytes (fst (run_audit es1 s))"
      then obtain es1 es2 where "es = es1 @ es2"
        "au_peak_bytes (fst (run_audit es s)) = au_live_bytes (fst (run_audit es1 s))" by blast
      then show ?thesis using p last r by (metis append.assoc fst_conv)
    qed (use p last r in simp)
  next
    assume p: "au_peak_bytes (fst (run_audit [e] (a, live))) = au_live_bytes (fst (run_audit [e] (a, live)))"
    show ?thesis using p last by (metis append_Nil2)
  qed
qed simp

text \<open>
  The audited peak is the true peak: for any sequence of requests and releases, the live
  byte counter is the sum of the rounded live allocations at every moment, the recorded peak
  is the largest value it ever had, and it is a multiple of the alignment (so the workspace
  the plan reserves per slot is exactly the peak).
\<close>

lemma audit_peak_exact:
  assumes "audit_events_ok es"
  shows "round_up (au_peak_bytes (fst (run_audit es (AuditAllocator, [])))) ALIGNMENT =
           au_peak_bytes (fst (run_audit es (AuditAllocator, []))) \<and>
    (\<forall>es1 es2. es = es1 @ es2 \<longrightarrow>
       sum_list (snd (run_audit es1 (AuditAllocator, []))) \<le> au_peak_bytes (fst (run_audit es (AuditAllocator, [])))) \<and>
    (\<exists>es1 es2. es = es1 @ es2 \<and>
       sum_list (snd (run_audit es1 (AuditAllocator, []))) = au_peak_bytes (fst (run_audit es (AuditAllocator, []))))"
proof -
  let ?s = "(AuditAllocator, [])"
  have init: "audit_ok ?s" by (simp add: audit_ok_def AuditAllocator_def)
  have pre: "audit_events_ok es1" if "es = es1 @ es2" for es1 es2
    using assms unfolding that by (induction es1 rule: audit_events_ok.induct) auto
  have live: "au_live_bytes (fst (run_audit es1 ?s)) = sum_list (snd (run_audit es1 ?s))"
    "au_live_bytes (fst (run_audit es1 ?s)) \<le> au_peak_bytes (fst (run_audit es ?s))" if "es = es1 @ es2" for es1 es2
    using run_audit_ok[OF pre[OF that] init] audit_peak_mono[of "run_audit es1 ?s" es2] that
    by (auto simp: audit_ok_def run_audit_append)
  have "\<exists>es1 es2. es = es1 @ es2 \<and>
       sum_list (snd (run_audit es1 ?s)) = au_peak_bytes (fst (run_audit es ?s))"
    using audit_peak_attained[of es ?s]
  proof
    assume "au_peak_bytes (fst (run_audit es ?s)) = au_peak_bytes (fst ?s)"
    then show ?thesis by (intro exI[of _ "[]"] exI[of _ es]) (simp add: AuditAllocator_def)
  qed (use live in metis)
  then show ?thesis using run_audit_ok[OF assms init] live by (auto simp: audit_ok_def intro: round256_id)
qed

lemma audit_peak_exact_witness:
  "\<exists>es1 es2. [AuditCall 300, AuditCall 10, AuditDrop 0, AuditCall 100] = es1 @ es2 \<and>
     sum_list (snd (run_audit es1 (AuditAllocator, []))) = 768"
proof -
  let ?es = "[AuditCall 300, AuditCall 10, AuditDrop 0, AuditCall 100]"
  have "au_peak_bytes (fst (run_audit ?es (AuditAllocator, []))) = 768" by code_simp
  then show ?thesis using audit_peak_exact[of ?es] by simp
qed

end
