(* ===== verification/Runtime_Manager.thy ===== *)
theory Runtime_Manager
  imports Memory_Plan
begin

text \<open>
  The runtime object (\<^verbatim>\<open>compression/runtime/manager.py\<close>): carving one device buffer into the
  slots' arenas, index rows, codec workspaces and per-stream metadata, registering the
  workspaces with nvCOMP, binding the caches, the byte counts of a chunk, and the checks of
  \<open>decode\<close>.  Tensors are regions of the bulk buffer.  The pipeline and codec constructors
  only matter here by the exception they may raise, which is a parameter.
\<close>

unbundle bit_operations_syntax

section \<open>Carving the pool\<close>

record pool_carver =
  pc_size :: int
  pc_offset :: int

text \<open>\<open>take\<close> computes an aligned interval and slices the buffer with it; slicing clips.\<close>

definition carver_next :: "int \<Rightarrow> int \<Rightarrow> int \<times> region list" where
  "carver_next off nbytes =
     (let start = round_up off ALIGNMENT in (start + nbytes, [(start, nbytes)]))"

definition clip_region :: "int \<Rightarrow> region \<Rightarrow> region" where
  "clip_region n r =
     (let a = min (fst r) n; b = min (fst r + snd r) n in (a, max 0 (b - a)))"

definition pool_take :: "pool_carver \<Rightarrow> int \<Rightarrow> pool_carver \<times> region" where
  "pool_take c nbytes =
     (let (end', regs) = carver_next (pc_offset c) nbytes
      in (c\<lparr>pc_offset := end'\<rparr>, clip_region (pc_size c) (hd regs)))"

record slot_buffers =
  sb_arena_a :: region
  sb_arena_b :: region
  sb_aux :: region
  sb_raw_tail :: region
  sb_block_indices :: region

datatype meta_key = OrderOf string | SignOf string kv_part

record runtime =
  rt_plan :: memory_plan
  rt_layout :: layout
  rt_raw_tail_capacity :: int
  rt_bulk_bytes :: int
  rt_slots :: "slot_buffers list"
  rt_streams :: "int list"
  rt_workspaces :: "region list"
  rt_metadata :: "(meta_key \<times> region) list list"
  rt_metadata_initialized :: bool
  rt_owns_nvcomp_allocator :: bool
  rt_head_orders :: "(string \<times> nat list) list"
  rt_identity_orders :: "string set"

definition indices_bytes :: "config \<Rightarrow> layout \<Rightarrow> int \<Rightarrow> int" where
  "indices_bytes cfg l blocks_per_logical =
     cfg_logical_blocks_per_chunk cfg * blocks_per_logical * num_index_rows l * 8"

text \<open>The five buffers of a slot; the view of the index rows raises if the slice came out short.\<close>

definition carve_slot ::
    "config \<Rightarrow> layout \<Rightarrow> int \<Rightarrow> pool_carver \<Rightarrow> (pool_carver \<times> slot_buffers) result" where
  "carve_slot cfg l blocks_per_logical c =
     (let (c1, arena_a) = pool_take c (ly_arena_bytes l);
          (c2, arena_b) = pool_take c1 (if uses_aggregate cfg then 0 else ly_arena_bytes l);
          (c3, aux) = pool_take c2 (ly_aux_arena_bytes l);
          (c4, raw_tail) = pool_take c3 (raw_tail_capacity l);
          (c5, indices) = pool_take c4 (indices_bytes cfg l blocks_per_logical)
      in if snd indices \<noteq> indices_bytes cfg l blocks_per_logical then Inl RuntimeError
         else Inr (c5, \<lparr>sb_arena_a = arena_a, sb_arena_b = arena_b, sb_aux = aux,
                        sb_raw_tail = raw_tail, sb_block_indices = indices\<rparr>))"

fun carve_slots ::
    "nat \<Rightarrow> config \<Rightarrow> layout \<Rightarrow> int \<Rightarrow> pool_carver \<Rightarrow> (pool_carver \<times> slot_buffers list) result" where
  "carve_slots 0 cfg l bpl c = Inr (c, [])"
| "carve_slots (Suc n) cfg l bpl c =
     bind_res (carve_slot cfg l bpl c) (\<lambda>(c', slot).
       bind_res (carve_slots n cfg l bpl c') (\<lambda>(c'', slots). Inr (c'', slot # slots)))"

fun carve_workspaces :: "nat \<Rightarrow> int \<Rightarrow> pool_carver \<Rightarrow> pool_carver \<times> region list" where
  "carve_workspaces 0 n c = (c, [])"
| "carve_workspaces (Suc k) n c =
     (let (c', r) = pool_take c n; (c'', rs) = carve_workspaces k n c' in (c'', r # rs))"

text \<open>
  The metadata of one stream: an order for each layer name met for the first time and, with
  a transformer, the signs of every part, whose view raises on a short slice.
\<close>

fun carve_parts ::
    "bool \<Rightarrow> string list \<Rightarrow> layer_part list \<Rightarrow> pool_carver \<Rightarrow> (pool_carver \<times> (meta_key \<times> region) list) result" where
  "carve_parts tr orders [] c = Inr (c, [])"
| "carve_parts tr orders (part # parts) c =
     (let name = lp_layer_name part;
          fresh = name \<notin> set orders;
          (c1, new_order) = (if fresh then (let (c', r) = pool_take c (lp_num_heads part * 8)
                                            in (c', [(OrderOf name, r)]))
                             else (c, []));
          orders' = (if fresh then name # orders else orders)
      in if \<not> tr then
           bind_res (carve_parts tr orders' parts c1) (\<lambda>(c2, rest). Inr (c2, new_order @ rest))
         else
           let nb = lp_num_heads part * lp_head_size part * 2;
               (c2, sign) = pool_take c1 nb
           in if snd sign \<noteq> nb then Inl RuntimeError
              else bind_res (carve_parts tr orders' parts c2) (\<lambda>(c3, rest).
                     Inr (c3, new_order @ (SignOf name (lp_kv_part part), sign) # rest)))"

text \<open>One pipeline per stream; \<open>raises\<close> stands for the codec and pipeline constructors.\<close>

fun carve_pipelines ::
    "(int \<Rightarrow> py_error option) \<Rightarrow> bool \<Rightarrow> layer_part list \<Rightarrow> int list \<Rightarrow> pool_carver \<Rightarrow>
     (pool_carver \<times> (meta_key \<times> region) list list) result" where
  "carve_pipelines raises tr parts [] c = Inr (c, [])"
| "carve_pipelines raises tr parts (stream # streams) c =
     bind_res (carve_parts tr [] parts c) (\<lambda>(c', meta).
       case raises stream of
         Some e \<Rightarrow> Inl e
       | None \<Rightarrow> bind_res (carve_pipelines raises tr parts streams c') (\<lambda>(c'', metas).
                   Inr (c'', meta # metas)))"

section \<open>Construction and shutdown\<close>

definition fixed_bytes :: "memory_plan \<Rightarrow> int" where
  "fixed_bytes plan =
     cfg_slot_count (mp_config plan) * slot_bytes (mp_config plan) (mp_layout plan)
       + mp_codec_workspace_bytes plan + mp_metadata_bytes plan"

definition workspace_by_stream :: "int list \<Rightarrow> (int \<times> int) list" where
  "workspace_by_stream streams = zip streams (map int [0..<length streams])"

definition release_workspace_allocator :: "runtime \<Rightarrow> registry \<Rightarrow> registry \<times> runtime" where
  "release_workspace_allocator rt rg =
     (if rt_owns_nvcomp_allocator rt
      then (unregister_workspace_allocators (rt_streams rt) rg, rt\<lparr>rt_owns_nvcomp_allocator := False\<rparr>)
      else (rg, rt))"

text \<open>
  \<open>streams\<close> are the CUDA streams created for the slots.  The registration happens after the
  workspaces are carved; a failure after it takes the registration back.
\<close>

definition CompressionRuntime ::
    "(int \<Rightarrow> py_error option) \<Rightarrow> memory_plan \<Rightarrow> int \<Rightarrow> int list \<Rightarrow> registry \<Rightarrow> registry \<times> runtime result" where
  "CompressionRuntime raises plan blocks_per_logical streams rg =
     (let cfg = mp_config plan; l = mp_layout plan;
          bulk = fixed_bytes plan;
          c0 = \<lparr>pc_size = bulk, pc_offset = 0\<rparr>
      in case carve_slots (nat (cfg_slot_count cfg)) cfg l blocks_per_logical c0 of
           Inl e \<Rightarrow> (rg, Inl e)
         | Inr (c1, slots) \<Rightarrow>
             let (c2, workspaces) =
                   (if uses_codec cfg
                    then carve_workspaces (length slots)
                           (mp_codec_workspace_bytes plan div int (length slots)) c1
                    else (c1, []))
             in case (if uses_codec cfg then register_workspace_allocators (workspace_by_stream streams) rg
                      else Inr rg) of
                  Inl e \<Rightarrow> (rg, Inl e)
                | Inr rg1 \<Rightarrow>
                    (case carve_pipelines raises (uses_transformer cfg) (ly_layer_parts l) streams c2 of
                       Inl e \<Rightarrow> (if uses_codec cfg then unregister_workspace_allocators streams rg1 else rg1, Inl e)
                     | Inr (c3, metas) \<Rightarrow>
                         (rg1, Inr \<lparr>rt_plan = plan, rt_layout = l, rt_raw_tail_capacity = raw_tail_capacity l,
                            rt_bulk_bytes = bulk, rt_slots = slots, rt_streams = streams,
                            rt_workspaces = workspaces, rt_metadata = metas,
                            rt_metadata_initialized = False, rt_owns_nvcomp_allocator = uses_codec cfg,
                            rt_head_orders = [], rt_identity_orders = {}\<rparr>)))"

definition shutdown :: "runtime \<Rightarrow> registry \<Rightarrow> registry \<times> runtime" where
  "shutdown rt rg = release_workspace_allocator rt rg"

section \<open>Binding, byte counts and decode checks\<close>

text \<open>
  Hadamard signs: \<open>draw seed n\<close> is \<open>torch.randint(0, 2, (n,))\<close> of a generator with that seed.
\<close>

definition build_signs :: "(int \<Rightarrow> int \<Rightarrow> int list) \<Rightarrow> layer_part \<Rightarrow> nat list \<Rightarrow> int \<Rightarrow> int list list" where
  "build_signs draw part order seed =
     map (\<lambda>original_head. map (\<lambda>b. b * 2 - 1)
            (draw (seed XOR push_bit 16 (lp_layer_index part) XOR int original_head) (lp_head_size part)))
       order"

definition bind_layout :: "(string \<rightharpoonup> int) \<Rightarrow> layout \<Rightarrow> layout result" where
  "bind_layout group_indices l =
     bind_res (map_res (\<lambda>part. case group_indices (lp_layer_name part) of
                  None \<Rightarrow> Inl KeyError | Some g \<Rightarrow> Inr (part\<lparr>lp_group_index := g\<rparr>)) (ly_layer_parts l))
       (\<lambda>parts. let gs = sorted_list_of_set (lp_group_index ` set parts) in
          Inr (l\<lparr>ly_layer_parts := parts, ly_fa_group_indices := set gs,
                 ly_index_rows_by_group := zip gs [0..<length gs]\<rparr>))"

text \<open>The order stored for a layer name is that of its last part.\<close>

definition bind_orders :: "head_selection \<Rightarrow> layer_part list \<Rightarrow> (string \<times> nat list) list result" where
  "bind_orders sel parts =
     map_res (\<lambda>(name, part). case map_of (hs_local_orders sel) (lp_layer_index part) of
        None \<Rightarrow> Inl KeyError | Some order \<Rightarrow> Inr (name, order)) (unique_layers parts)"

definition bind_kv_caches :: "runtime \<Rightarrow> (string \<rightharpoonup> int) \<Rightarrow> runtime result" where
  "bind_kv_caches rt group_indices =
     bind_res (bind_layout group_indices (rt_layout rt)) (\<lambda>l.
       let rt' = rt\<lparr>rt_layout := l\<rparr> in
       if rt_metadata_initialized rt then Inr rt'
       else bind_res (bind_orders (mp_head_selection (rt_plan rt)) (ly_layer_parts l)) (\<lambda>orders.
         Inr (rt'\<lparr>rt_head_orders := orders,
                  rt_identity_orders := fst ` set (filter (\<lambda>(name, order). order = [0..<length order]) orders),
                  rt_metadata_initialized := True\<rparr>)))"

definition data_bytes :: "runtime \<Rightarrow> kv_part \<Rightarrow> (int \<rightharpoonup> int) option \<Rightarrow> int result" where
  "data_bytes rt kv tokens =
     (let cfg = mp_config (rt_plan rt); l = rt_layout rt;
          lengths = (if Quantizer \<in> set (cfg_pipeline cfg) then ly_u8_bytes_by_part l else ly_raw_bytes_by_part l)
      in if uses_aggregate cfg then
           (case tokens of
              None \<Rightarrow> Inr (by_part (ly_raw_bytes_by_part l) kv)
            | Some t \<Rightarrow> Inr (sum_list (map (\<lambda>part.
                let count = (case t (lp_group_index part) of None \<Rightarrow> 0 | Some n \<Rightarrow> n);
                    blocks = (count + lp_block_size part - 1) div lp_block_size part
                in blocks * lp_num_heads part * lp_block_size part * lp_head_size part * 2)
                (layout_parts l kv))))
         else (case tokens of
              None \<Rightarrow> Inr (by_part lengths kv)
            | Some t \<Rightarrow> bind_res (has_body l t) (\<lambda>b. Inr (if b then by_part lengths kv else 0))))"

definition aux_bytes :: "runtime \<Rightarrow> kv_part \<Rightarrow> (int \<rightharpoonup> int) option \<Rightarrow> int result" where
  "aux_bytes rt kv tokens =
     (let full = (if Quantizer \<in> set (cfg_pipeline (mp_config (rt_plan rt)))
                  then by_part (ly_aux_bytes_by_part (rt_layout rt)) kv else 0)
      in case tokens of
           None \<Rightarrow> Inr full
         | Some t \<Rightarrow> bind_res (has_body (rt_layout rt) t) (\<lambda>b. Inr (if b then full else 0)))"

text \<open>The admission checks of \<open>decode\<close>, before the pipeline runs.\<close>

definition decode_check :: "runtime \<Rightarrow> int \<Rightarrow> kv_part \<Rightarrow> int \<Rightarrow> int \<Rightarrow> (int \<rightharpoonup> int) \<Rightarrow> unit result" where
  "decode_check rt slot_id kv codec_bytes u8_bytes tokens =
     bind_res (data_bytes rt kv (Some tokens)) (\<lambda>expected.
       let slot = (if slot_id < 0 then slot_id + int (length (rt_slots rt)) else slot_id) in
       if u8_bytes \<noteq> expected then Inl ValueError
       else if \<not> (0 \<le> slot \<and> slot < int (length (rt_slots rt))) then Inl IndexError
       else if \<not> (0 \<le> codec_bytes \<and> codec_bytes \<le> snd (sb_arena_a (rt_slots rt ! nat slot)))
       then Inl ValueError
       else if Codec \<notin> set (cfg_pipeline (mp_config (rt_plan rt))) \<and> codec_bytes \<noteq> u8_bytes
       then Inl ValueError
       else Inr ())"

section \<open>The carver as a cursor\<close>

interpretation carver: bump_cursor "\<lambda>off. off" carver_next "\<lambda>nbytes. 0 \<le> nbytes"
  by unfold_locales (simp add: carver_next_def Let_def)

abbreviation carve_end :: "int \<Rightarrow> int list \<Rightarrow> int" where
  "carve_end off ns \<equiv> fst (run_cursor carver_next off ns)"

abbreviation carve_regions :: "int \<Rightarrow> int list \<Rightarrow> region list" where
  "carve_regions off ns \<equiv> snd (run_cursor carver_next off ns)"

lemma run_cursor_append:
  "run_cursor tk s (xs @ ys) =
     (fst (run_cursor tk (fst (run_cursor tk s xs)) ys),
      snd (run_cursor tk s xs) @ snd (run_cursor tk (fst (run_cursor tk s xs)) ys))"
  by (induction xs arbitrary: s) (auto simp: Let_def split: prod.splits)

lemma carve_Cons [simp]:
  "run_cursor carver_next off (n # ns) =
     (carve_end (round256 off + n) ns, (round256 off, n) # carve_regions (round256 off + n) ns)"
  by (simp add: carver_next_def Let_def split: prod.splits)

declare run_cursor.simps(2) [simp del]

lemma carve_total:
  "round256 (carve_end off ns) = round256 off + sum_list (map round256 ns)"
  by (induction ns arbitrary: off) (simp_all add: round256_add_dvd)

text \<open>A list of requests fits if the carver ends inside the buffer.\<close>

definition fits :: "pool_carver \<Rightarrow> int list \<Rightarrow> bool" where
  "fits c ns \<longleftrightarrow> (\<forall>n \<in> set ns. 0 \<le> n) \<and> carve_end (pc_offset c) ns \<le> pc_size c"

abbreviation after :: "pool_carver \<Rightarrow> int list \<Rightarrow> pool_carver" where
  "after c ns \<equiv> c\<lparr>pc_offset := carve_end (pc_offset c) ns\<rparr>"

lemma carve_end_ge: "\<forall>n \<in> set ns. 0 \<le> n \<Longrightarrow> off \<le> carve_end off ns"
  using stacked_le[OF carver.run_stacked[of ns off]] by blast

lemma fits_append:
  "fits c (xs @ ys) \<longleftrightarrow> fits c xs \<and> fits (after c xs) ys"
  using carve_end_ge[of ys "carve_end (pc_offset c) xs"]
  by (auto simp: fits_def run_cursor_append)

lemma fits_Cons [simp]:
  "fits c (n # ns) \<longleftrightarrow> 0 \<le> n \<and> round256 (pc_offset c) + n \<le> pc_size c \<and>
     fits (c\<lparr>pc_offset := round256 (pc_offset c) + n\<rparr>) ns"
  using carve_end_ge[of ns "round256 (pc_offset c) + n"] by (auto simp: fits_def)

lemma pool_take_fits:
  assumes "0 \<le> n" and "round256 (pc_offset c) + n \<le> pc_size c"
  shows "pool_take c n = (c\<lparr>pc_offset := round256 (pc_offset c) + n\<rparr>, (round256 (pc_offset c), n))"
  using assms by (auto simp: pool_take_def carver_next_def clip_region_def Let_def)

lemma fits_sum:
  assumes "\<forall>n \<in> set ns. 0 \<le> n" and "round256 (pc_offset c) + sum_list (map round256 ns) \<le> pc_size c"
  shows "fits c ns"
  using assms carve_total[of "pc_offset c" ns] round256_ge[of "carve_end (pc_offset c) ns"]
  by (auto simp: fits_def)

section \<open>The constructor's requests\<close>

definition slot_requests :: "config \<Rightarrow> layout \<Rightarrow> int \<Rightarrow> int list" where
  "slot_requests cfg l bpl =
     [ly_arena_bytes l, if uses_aggregate cfg then 0 else ly_arena_bytes l, ly_aux_arena_bytes l,
      raw_tail_capacity l, indices_bytes cfg l bpl]"

fun part_requests :: "bool \<Rightarrow> string list \<Rightarrow> layer_part list \<Rightarrow> int list" where
  "part_requests tr orders [] = []"
| "part_requests tr orders (part # parts) =
     (if lp_layer_name part \<notin> set orders then [lp_num_heads part * 8] else []) @
     (if tr then [lp_num_heads part * lp_head_size part * 2] else []) @
     part_requests tr (if lp_layer_name part \<notin> set orders then lp_layer_name part # orders else orders) parts"

definition slot_regions :: "slot_buffers \<Rightarrow> region list" where
  "slot_regions s = [sb_arena_a s, sb_arena_b s, sb_aux s, sb_raw_tail s, sb_block_indices s]"

definition runtime_regions :: "runtime \<Rightarrow> region list" where
  "runtime_regions rt =
     concat (map slot_regions (rt_slots rt)) @ rt_workspaces rt @ map snd (concat (rt_metadata rt))"

lemma carve_slot_fits:
  assumes "fits c (slot_requests cfg l bpl)"
  shows "\<exists>s. carve_slot cfg l bpl c = Inr (after c (slot_requests cfg l bpl), s) \<and>
    slot_regions s = carve_regions (pc_offset c) (slot_requests cfg l bpl)"
  using assms by (auto simp: slot_requests_def carve_slot_def slot_regions_def pool_take_fits Let_def)

lemma carve_slots_fits:
  assumes "fits c (concat (replicate n (slot_requests cfg l bpl)))"
  shows "\<exists>ss. carve_slots n cfg l bpl c = Inr (after c (concat (replicate n (slot_requests cfg l bpl))), ss) \<and>
    length ss = n \<and>
    concat (map slot_regions ss) = carve_regions (pc_offset c) (concat (replicate n (slot_requests cfg l bpl)))"
  using assms
proof (induction n arbitrary: c)
  case (Suc n)
  let ?r = "slot_requests cfg l bpl"
  have f: "fits c ?r" "fits (after c ?r) (concat (replicate n ?r))"
    using Suc.prems by (simp_all add: fits_append)
  obtain s where s: "carve_slot cfg l bpl c = Inr (after c ?r, s)"
    "slot_regions s = carve_regions (pc_offset c) ?r" using carve_slot_fits[OF f(1)] by blast
  obtain ss where ss: "carve_slots n cfg l bpl (after c ?r) = Inr (after (after c ?r) (concat (replicate n ?r)), ss)"
    "length ss = n" "concat (map slot_regions ss) = carve_regions (pc_offset (after c ?r)) (concat (replicate n ?r))"
    using Suc.IH[OF f(2)] by blast
  show ?case using s ss by (simp add: run_cursor_append)
qed simp

lemma carve_workspaces_fits:
  assumes "fits c (replicate k n)"
  shows "carve_workspaces k n c = (after c (replicate k n), carve_regions (pc_offset c) (replicate k n))"
  using assms
proof (induction k arbitrary: c)
  case (Suc k)
  then show ?case using Suc.IH[of "c\<lparr>pc_offset := round256 (pc_offset c) + n\<rparr>"]
    by (simp add: pool_take_fits Let_def)
qed simp

lemma carve_parts_fits:
  assumes "fits c (part_requests tr orders parts)"
  shows "\<exists>meta. carve_parts tr orders parts c = Inr (after c (part_requests tr orders parts), meta) \<and>
    map snd meta = carve_regions (pc_offset c) (part_requests tr orders parts)"
  using assms
proof (induction parts arbitrary: orders c)
  case (Cons part parts)
  let ?n = "lp_num_heads part * 8" and ?m = "lp_num_heads part * lp_head_size part * 2"
  let ?fresh = "lp_layer_name part \<notin> set orders"
  let ?o = "if ?fresh then lp_layer_name part # orders else orders"
  define c1 where "c1 = (if ?fresh then c\<lparr>pc_offset := round256 (pc_offset c) + ?n\<rparr> else c)"
  define c2 where "c2 = (if tr then c1\<lparr>pc_offset := round256 (pc_offset c1) + ?m\<rparr> else c1)"
  have "fits c2 (part_requests tr ?o parts)" using Cons.prems by (auto simp: c1_def c2_def split: if_splits)
  then obtain meta where "carve_parts tr ?o parts c2 = Inr (after c2 (part_requests tr ?o parts), meta)"
    "map snd meta = carve_regions (pc_offset c2) (part_requests tr ?o parts)" using Cons.IH by blast
  then show ?case using Cons.prems
    by (cases ?fresh; cases tr) (auto simp: c1_def c2_def pool_take_fits Let_def)
qed simp

lemma carve_pipelines_fits:
  assumes "fits c (concat (replicate (length streams) (part_requests tr [] parts)))"
    and "\<And>s. s \<in> set streams \<Longrightarrow> raises s = None"
  shows "\<exists>metas. carve_pipelines raises tr parts streams c =
      Inr (after c (concat (replicate (length streams) (part_requests tr [] parts))), metas) \<and>
    map snd (concat metas) = carve_regions (pc_offset c) (concat (replicate (length streams) (part_requests tr [] parts)))"
  using assms
proof (induction streams arbitrary: c)
  case (Cons s streams)
  let ?r = "part_requests tr [] parts"
  have f: "fits c ?r" "fits (after c ?r) (concat (replicate (length streams) ?r))"
    using Cons.prems by (simp_all add: fits_append)
  obtain meta where m: "carve_parts tr [] parts c = Inr (after c ?r, meta)"
    "map snd meta = carve_regions (pc_offset c) ?r" using carve_parts_fits[OF f(1)] by blast
  obtain metas where "carve_pipelines raises tr parts streams (after c ?r) =
      Inr (after (after c ?r) (concat (replicate (length streams) ?r)), metas)"
    "map snd (concat metas) = carve_regions (pc_offset (after c ?r)) (concat (replicate (length streams) ?r))"
    using Cons.IH[OF f(2)] Cons.prems(2) by auto
  then show ?case using m Cons.prems(2) by (simp add: run_cursor_append)
qed simp

section \<open>The plan reserves what the constructor requests\<close>

lemma fold_dict_set_entries:
  "fst ` set (fold (\<lambda>x d. dict_set d (k x) x) xs d) = fst ` set d \<union> k ` set xs"
  "distinct (map fst d) \<Longrightarrow> distinct (map fst (fold (\<lambda>x d. dict_set d (k x) x) xs d))"
  "e \<in> set (fold (\<lambda>x d. dict_set d (k x) x) xs d) \<Longrightarrow> e \<in> set d \<or> (snd e \<in> set xs \<and> fst e = k (snd e))"
proof -
  have mem: "e \<in> set (dict_set d a b) \<Longrightarrow> e \<in> set d \<or> e = (a, b)" for d :: "('a \<times> 'b) list" and a b e
    by (induction d a b rule: dict_set.induct) (auto split: if_splits)
  show "fst ` set (fold (\<lambda>x d. dict_set d (k x) x) xs d) = fst ` set d \<union> k ` set xs"
    by (induction xs arbitrary: d) auto
  show "distinct (map fst d) \<Longrightarrow> distinct (map fst (fold (\<lambda>x d. dict_set d (k x) x) xs d))"
    by (induction xs arbitrary: d) (auto intro: distinct_dict_set)
  show "e \<in> set (fold (\<lambda>x d. dict_set d (k x) x) xs d) \<Longrightarrow> e \<in> set d \<or> (snd e \<in> set xs \<and> fst e = k (snd e))"
  proof (induction xs arbitrary: d)
    case (Cons x xs)
    then have "e \<in> set (dict_set d (k x) x) \<or> (snd e \<in> set xs \<and> fst e = k (snd e))" by simp
    then show ?case using mem[of e d "k x" x] by auto
  qed simp
qed

lemma order_bytes_sum:
  assumes "\<And>p. p \<in> set (ly_layer_parts l) \<Longrightarrow> lp_num_heads p = heads (lp_layer_name p)"
  shows "order_bytes l = (\<Sum>name \<in> lp_layer_name ` set (ly_layer_parts l). round256 (heads name * 8))"
proof -
  let ?u = "unique_layers (ly_layer_parts l)"
  have keys: "fst ` set ?u = lp_layer_name ` set (ly_layer_parts l)" "distinct (map fst ?u)"
    by (simp_all add: unique_layers_def fold_dict_set_entries)
  have "map (\<lambda>kp. round_up (lp_num_heads (snd kp) * 8) ALIGNMENT) ?u = map (\<lambda>kp. round256 (heads (fst kp) * 8)) ?u"
    using fold_dict_set_entries(3)[of _ lp_layer_name "ly_layer_parts l" "[]"] assms
    by (auto simp: unique_layers_def)
  then have "order_bytes l = sum_list (map (\<lambda>k. round256 (heads k * 8)) (map fst ?u))"
    unfolding order_bytes_def map_map comp_def by (rule arg_cong)
  also have "\<dots> = (\<Sum>k \<in> set (map fst ?u). round256 (heads k * 8))"
    by (rule sum_list_distinct_conv_sum_set[OF keys(2)])
  finally show ?thesis using keys(1) by simp
qed

lemma part_requests_sum:
  assumes "\<And>p. p \<in> set parts \<Longrightarrow> lp_num_heads p = heads (lp_layer_name p)"
  shows "sum_list (map round256 (part_requests tr orders parts)) =
    (\<Sum>name \<in> lp_layer_name ` set parts - set orders. round256 (heads name * 8)) +
    (if tr then sum_list (map (\<lambda>part. round256 (lp_num_heads part * lp_head_size part * 2)) parts) else 0)"
  using assms
proof (induction parts arbitrary: orders)
  case (Cons p parts)
  let ?name = "lp_layer_name p" and ?f = "\<lambda>name. round256 (heads name * 8)"
  have hp: "lp_num_heads p = heads ?name" using Cons.prems by simp
  show ?case
  proof (cases "?name \<in> set orders")
    case True
    then have "lp_layer_name ` set (p # parts) - set orders = lp_layer_name ` set parts - set orders" by auto
    then show ?thesis using Cons.IH[of orders] Cons.prems True by simp
  next
    case False
    have "lp_layer_name ` set (p # parts) - set orders =
        insert ?name (lp_layer_name ` set parts - set (?name # orders))" using False by auto
    then have "sum ?f (lp_layer_name ` set (p # parts) - set orders) =
        ?f ?name + sum ?f (lp_layer_name ` set parts - set (?name # orders))" by simp
    then show ?thesis using Cons.IH[of "?name # orders"] Cons.prems False hp by simp
  qed
qed simp

text \<open>What the plan guarantees about the layout it carries.\<close>

definition plan_ok :: "memory_plan \<Rightarrow> bool" where
  "plan_ok plan \<longleftrightarrow> (let cfg = mp_config plan; l = mp_layout plan in
     1 \<le> cfg_slot_count cfg \<and> 1 \<le> cfg_logical_blocks_per_chunk cfg \<and> 1 \<le> mp_blocks_per_logical plan \<and>
     ALIGNMENT dvd ly_arena_bytes l \<and> 0 \<le> ly_arena_bytes l \<and>
     ALIGNMENT dvd ly_aux_arena_bytes l \<and> 0 \<le> ly_aux_arena_bytes l \<and>
     ALIGNMENT dvd raw_tail_capacity l \<and> 0 \<le> raw_tail_capacity l \<and>
     (\<exists>w. 0 \<le> w \<and> ALIGNMENT dvd w \<and>
        mp_codec_workspace_bytes plan = (if uses_codec cfg then w * cfg_slot_count cfg else 0)) \<and>
     mp_metadata_bytes plan = metadata_bytes_of cfg l (mp_blocks_per_logical plan) \<and>
     (\<exists>heads. \<forall>p \<in> set (ly_layer_parts l). lp_num_heads p = heads (lp_layer_name p)) \<and>
     (\<forall>p \<in> set (ly_layer_parts l). 0 \<le> lp_num_heads p \<and> 0 \<le> lp_head_size p))"

definition workspace_requests :: "memory_plan \<Rightarrow> int list" where
  "workspace_requests plan = (if uses_codec (mp_config plan)
     then replicate (nat (cfg_slot_count (mp_config plan)))
            (mp_codec_workspace_bytes plan div cfg_slot_count (mp_config plan)) else [])"

definition runtime_requests :: "memory_plan \<Rightarrow> int \<Rightarrow> int list" where
  "runtime_requests plan bpl =
     (let cfg = mp_config plan; l = mp_layout plan; n = nat (cfg_slot_count cfg) in
      concat (replicate n (slot_requests cfg l bpl)) @ workspace_requests plan @
      concat (replicate n (part_requests (uses_transformer cfg) [] (ly_layer_parts l))))"

lemma sum_list_concat_replicate:
  "sum_list (map f (concat (replicate n xs))) = int n * sum_list (map f xs)" for f :: "'a \<Rightarrow> int"
  by (induction n) (simp_all add: algebra_simps)

lemma part_requests_nonneg:
  "(\<And>p. p \<in> set parts \<Longrightarrow> 0 \<le> lp_num_heads p \<and> 0 \<le> lp_head_size p) \<Longrightarrow>
   \<forall>n \<in> set (part_requests tr orders parts). 0 \<le> n"
  by (induction parts arbitrary: orders) auto

lemma runtime_requests_total:
  assumes "plan_ok plan"
  shows "sum_list (map round256 (runtime_requests plan (mp_blocks_per_logical plan))) = fixed_bytes plan"
proof -
  let ?cfg = "mp_config plan" and ?l = "mp_layout plan" and ?b = "mp_blocks_per_logical plan"
  let ?S = "cfg_slot_count ?cfg"
  obtain heads where heads: "\<And>p. p \<in> set (ly_layer_parts ?l) \<Longrightarrow> lp_num_heads p = heads (lp_layer_name p)"
    using assms by (auto simp: plan_ok_def Let_def)
  obtain w where w: "ALIGNMENT dvd w"
      "mp_codec_workspace_bytes plan = (if uses_codec ?cfg then w * ?S else 0)" and S: "1 \<le> ?S"
    using assms by (auto simp: plan_ok_def Let_def)
  have slots: "sum_list (map round256 (slot_requests ?cfg ?l ?b)) =
      slot_bytes ?cfg ?l + round256 (indices_bytes ?cfg ?l ?b)"
    using assms by (auto simp: plan_ok_def Let_def slot_requests_def slot_bytes_def round256_id)
  have "sum_list (map round256 (part_requests (uses_transformer ?cfg) [] (ly_layer_parts ?l))) =
      order_bytes ?l + sign_bytes ?cfg ?l"
    using part_requests_sum[of "ly_layer_parts ?l" heads "uses_transformer ?cfg" "[]"] heads
      order_bytes_sum[of ?l heads] by (simp add: sign_bytes_def)
  moreover have "sum_list (map round256 (workspace_requests plan)) = mp_codec_workspace_bytes plan"
    using w S by (simp add: workspace_requests_def sum_list_replicate round256_id)
  moreover have "round256 (indices_bytes ?cfg ?l ?b) =
      round_up (num_index_rows ?l * cfg_logical_blocks_per_chunk ?cfg * ?b * 8) ALIGNMENT"
    by (simp add: indices_bytes_def algebra_simps)
  moreover have "mp_metadata_bytes plan = metadata_bytes_of ?cfg ?l ?b" using assms by (simp add: plan_ok_def Let_def)
  ultimately show ?thesis using slots S
    by (simp add: runtime_requests_def Let_def sum_list_concat_replicate fixed_bytes_def
        metadata_bytes_of_def algebra_simps)
qed

lemma runtime_requests_nonneg:
  assumes "plan_ok plan"
  shows "\<forall>n \<in> set (runtime_requests plan (mp_blocks_per_logical plan)). 0 \<le> n"
proof -
  have "\<forall>n \<in> set (part_requests tr [] (ly_layer_parts (mp_layout plan))). 0 \<le> n" for tr
    using assms by (intro part_requests_nonneg) (auto simp: plan_ok_def Let_def)
  moreover have "0 \<le> mp_codec_workspace_bytes plan" "1 \<le> cfg_slot_count (mp_config plan)"
    using assms by (auto simp: plan_ok_def Let_def)
  moreover have "0 \<le> indices_bytes (mp_config plan) (mp_layout plan) (mp_blocks_per_logical plan)"
    using assms by (simp add: plan_ok_def Let_def indices_bytes_def num_index_rows_def)
  ultimately show ?thesis using assms
    by (auto simp: runtime_requests_def workspace_requests_def slot_requests_def plan_ok_def Let_def
        pos_imp_zdiv_nonneg_iff)
qed

lemma runtime_constructed:
  assumes "plan_ok plan" and "length streams = nat (cfg_slot_count (mp_config plan))"
    and "\<And>s. s \<in> set streams \<Longrightarrow> raises s = None"
    and "(if uses_codec (mp_config plan) then register_workspace_allocators (workspace_by_stream streams) rg
          else Inr rg) = Inr rg1"
  obtains rt where
    "CompressionRuntime raises plan (mp_blocks_per_logical plan) streams rg = (rg1, Inr rt)"
    and "runtime_regions rt = carve_regions 0 (runtime_requests plan (mp_blocks_per_logical plan))"
    and "rt_bulk_bytes rt = fixed_bytes plan" and "rt_layout rt = mp_layout plan" and "rt_plan rt = plan"
    and "length (rt_slots rt) = nat (cfg_slot_count (mp_config plan))"
    and "concat (map slot_regions (rt_slots rt)) =
      carve_regions 0 (concat (replicate (nat (cfg_slot_count (mp_config plan)))
        (slot_requests (mp_config plan) (mp_layout plan) (mp_blocks_per_logical plan))))"
proof -
  let ?cfg = "mp_config plan" and ?l = "mp_layout plan" and ?b = "mp_blocks_per_logical plan"
  let ?c = "\<lparr>pc_size = fixed_bytes plan, pc_offset = 0\<rparr>" and ?n = "nat (cfg_slot_count ?cfg)"
  let ?s = "concat (replicate ?n (slot_requests ?cfg ?l ?b))"
  let ?p = "part_requests (uses_transformer ?cfg) [] (ly_layer_parts ?l)"
  have S: "0 < cfg_slot_count ?cfg" using assms(1) by (simp add: plan_ok_def Let_def)
  have "fits ?c (runtime_requests plan ?b)"
    using runtime_requests_total[OF assms(1)] runtime_requests_nonneg[OF assms(1)]
    by (intro fits_sum) (auto simp: round_up_def ALIGNMENT_def)
  then have f: "fits ?c ?s" "fits (after ?c ?s) (workspace_requests plan)"
    "fits (after (after ?c ?s) (workspace_requests plan)) (concat (replicate (length streams) ?p))"
    unfolding runtime_requests_def Let_def assms(2) by (simp_all only: fits_append)
  obtain ss where ss: "carve_slots ?n ?cfg ?l ?b ?c = Inr (after ?c ?s, ss)" "length ss = ?n"
    "concat (map slot_regions ss) = carve_regions (pc_offset ?c) ?s"
    using carve_slots_fits[OF f(1)] by blast
  have ws: "(if uses_codec ?cfg then carve_workspaces (length ss)
        (mp_codec_workspace_bytes plan div int (length ss)) (after ?c ?s) else (after ?c ?s, [])) =
      (after (after ?c ?s) (workspace_requests plan),
       carve_regions (pc_offset (after ?c ?s)) (workspace_requests plan))"
    using carve_workspaces_fits[of "after ?c ?s" ?n "mp_codec_workspace_bytes plan div cfg_slot_count ?cfg"]
      f(2) ss(2) S by (cases "uses_codec ?cfg") (simp_all add: workspace_requests_def)
  obtain ms where ms: "carve_pipelines raises (uses_transformer ?cfg) (ly_layer_parts ?l) streams
        (after (after ?c ?s) (workspace_requests plan)) =
      Inr (after (after (after ?c ?s) (workspace_requests plan)) (concat (replicate (length streams) ?p)), ms)"
    "map snd (concat ms) = carve_regions (pc_offset (after (after ?c ?s) (workspace_requests plan)))
       (concat (replicate (length streams) ?p))"
    using carve_pipelines_fits[OF f(3), of raises] assms(3) by blast
  let ?rt = "\<lparr>rt_plan = plan, rt_layout = ?l, rt_raw_tail_capacity = raw_tail_capacity ?l,
     rt_bulk_bytes = fixed_bytes plan, rt_slots = ss, rt_streams = streams,
     rt_workspaces = carve_regions (pc_offset (after ?c ?s)) (workspace_requests plan), rt_metadata = ms,
     rt_metadata_initialized = False, rt_owns_nvcomp_allocator = uses_codec ?cfg,
     rt_head_orders = [], rt_identity_orders = {}\<rparr>"
  have "CompressionRuntime raises plan ?b streams rg = (rg1, Inr ?rt)"
    unfolding CompressionRuntime_def Let_def ss(1) sum.case prod.case ws assms(4) ms(1) by simp
  moreover have "runtime_regions ?rt = carve_regions 0 (runtime_requests plan ?b)"
    using ss ms(2) by (simp add: runtime_regions_def runtime_requests_def Let_def run_cursor_append assms(2))
  ultimately show ?thesis using that[of ?rt] ss by simp
qed

text \<open>The documented environment of planning: valid specifications, ranks, score files and probe trace.\<close>

definition plan_input_ok ::
    "(pyval \<Rightarrow> score_array result) \<Rightarrow> nvcomp_probe \<Rightarrow> config \<Rightarrow> (string \<times> cache_spec) list \<Rightarrow> int \<Rightarrow> int \<Rightarrow> int \<Rightarrow> bool" where
  "plan_input_ok load nv cfg specs bpl tp_size tp_rank \<longleftrightarrow>
     wf_config cfg \<and> (\<forall>ns \<in> set specs. wf_spec (snd ns)) \<and> distinct (map fst specs) \<and>
     distinct (map (\<lambda>ns. cs_layer_index (snd ns)) specs) \<and> 0 \<le> tp_rank \<and> tp_rank < tp_size \<and>
     (\<forall>path s. load path = Inr s \<longrightarrow> wf_scores s) \<and> audit_events_ok (pr_trace nv) \<and> 1 \<le> bpl"

lemma layer_selection_low: "map_of (hs_low_counts (layer_selection specs)) k = Some low \<Longrightarrow> low = 0"
proof -
  have "(\<forall>k low. map_of d k = Some low \<longrightarrow> low = 0) \<Longrightarrow>
      map_of (fold (\<lambda>ns d. dict_set d (cs_layer_index (snd ns)) 0) specs d) k = Some low \<Longrightarrow> low = 0" for d
  proof (induction specs arbitrary: d)
    case (Cons ns specs)
    show ?case by (rule Cons.IH[of "dict_set d (cs_layer_index (snd ns)) 0"]) (use Cons.prems in \<open>auto split: if_splits\<close>)
  qed simp
  from this[of "[]"] show "map_of (hs_low_counts (layer_selection specs)) k = Some low \<Longrightarrow> low = 0"
    by (simp add: layer_selection_def)
qed

lemma plan_layout_input:
  assumes "plan_layout load cfg specs tp_size tp_rank nl = Inr (sel, l)"
    and "plan_input_ok load nv cfg specs bpl tp_size tp_rank"
  shows "wf_layout_input specs (planning_config cfg) (map_of (hs_low_counts sel)) \<and>
    build_compression_layout specs (planning_config cfg) (map_of (hs_low_counts sel))
      (model_layers nl sel) Map.empty = Inr l"
proof -
  obtain scores where sel: "build_head_selection load specs (planning_config cfg) tp_rank tp_size scores = Inr sel"
    and l: "build_compression_layout specs (planning_config cfg) (map_of (hs_low_counts sel))
      (model_layers nl sel) Map.empty = Inr l"
    and sc: "\<And>s. scores = Some s \<Longrightarrow> \<exists>path. load path = Inr s"
    using assms(1) by (auto simp: plan_layout_def bind_res_eq_Inr split: if_splits)
  have low: "0 \<le> low \<and> low \<le> cs_num_kv_heads (snd ns)"
    if ns: "ns \<in> set specs" and m: "map_of (hs_low_counts sel) (cs_layer_index (snd ns)) = Some low" for ns low
  proof (cases "cfg_split_type (planning_config cfg) = LayerSplit")
    case True
    then have "low = 0" using sel m layer_selection_low by (auto simp: build_head_selection_def)
    then show ?thesis using assms(2) ns by (auto simp: plan_input_ok_def wf_spec_def)
  next
    case False
    then obtain s path where "load path = Inr s"
      and hs: "head_scores_selection specs (cfg_hybrid_ratio (planning_config cfg)) tp_rank tp_size s = Inr sel"
      using sel sc by (auto simp: build_head_selection_def bind_res_eq_Inr split: if_splits option.splits)
    then have "wf_scores s" using assms(2) by (auto simp: plan_input_ok_def)
    then show ?thesis using head_selection_low_bounds[OF hs] ns m assms(2)
      by (auto simp: plan_input_ok_def wf_spec_def)
  qed
  have "wf_config (planning_config cfg)"
    using assms(2) by (auto simp: plan_input_ok_def planning_config_def wf_config_def)
  then show ?thesis using low l assms(2) by (auto simp: wf_layout_input_def plan_input_ok_def)
qed

lemma probe_result:
  assumes "probe_operators nv rg sizes = (rg', Inr (w, mo, ret))" and "audit_events_ok (pr_trace nv)"
  shows "0 \<le> w \<and> ALIGNMENT dvd w"
proof -
  have w: "w = round256 (au_peak_bytes (fst (run_audit (pr_trace nv) (AuditAllocator, []))))"
    using assms(1) by (auto simp: probe_operators_def Let_def split: sum.splits option.splits)
  have "audit_ok (run_audit (pr_trace nv) (AuditAllocator, []))"
    by (rule run_audit_ok[OF assms(2)]) (simp add: audit_ok_def AuditAllocator_def)
  then show ?thesis unfolding w by (simp add: audit_ok_def)
qed

lemma probe_retained: "probe_operators nv rg sizes = (rg', Inr (w, mo, ret)) \<Longrightarrow> 0 \<le> ret"
  by (auto simp: probe_operators_def Let_def split: sum.splits option.splits)

lemma build_planE:
  assumes "build_memory_plan load nv rg cfg specs bpl tp_size tp_rank nl = (rg', Inr (Some plan))"
  obtains sel l0 w mo ret where "plan_layout load cfg specs tp_size tp_rank nl = Inr (sel, l0)"
    and "uses_codec cfg \<longrightarrow> probe_operators nv rg (ly_packed_bytes_by_part l0) = (rg', Inr (w, mo, ret))"
    and "\<not> uses_codec cfg \<longrightarrow> w = 0 \<and> ret = 0" and "finish_plan cfg l0 sel bpl (w, mo, ret) = Inr plan"
  using assms
  by (auto simp: build_memory_plan_def bind_res_eq_Inr split: if_splits sum.splits prod.splits)

lemma build_plan_ok:
  assumes "build_memory_plan load nv rg cfg specs bpl tp_size tp_rank nl = (rg', Inr (Some plan))"
    and "plan_input_ok load nv cfg specs bpl tp_size tp_rank"
  shows "plan_ok plan \<and> mp_blocks_per_logical plan = bpl \<and> mp_config plan = cfg"
proof -
  obtain sel l0 w mo ret where pl: "plan_layout load cfg specs tp_size tp_rank nl = Inr (sel, l0)"
    and probed: "uses_codec cfg \<longrightarrow> probe_operators nv rg (ly_packed_bytes_by_part l0) = (rg', Inr (w, mo, ret))"
    and none: "\<not> uses_codec cfg \<longrightarrow> w = 0 \<and> ret = 0" and fin: "finish_plan cfg l0 sel bpl (w, mo, ret) = Inr plan"
    using assms(1) by (rule build_planE)
  have inp: "wf_layout_input specs (planning_config cfg) (map_of (hs_low_counts sel))"
    and bl: "build_compression_layout specs (planning_config cfg) (map_of (hs_low_counts sel))
      (model_layers nl sel) Map.empty = Inr l0"
    using plan_layout_input[OF pl assms(2)] by auto
  obtain acc where acc: "wf_acc (planning_config cfg) specs acc" and parts: "ly_layer_parts l0 = la_parts acc"
    using bl inp by (rule build_layoutE) (simp add: finish_layout_def Let_def)
  define heads where "heads name = cs_num_kv_heads (the (map_of specs name))" for name
  have hd: "lp_num_heads p = heads (lp_layer_name p) \<and> 0 \<le> lp_num_heads p \<and> 0 \<le> lp_head_size p"
    if "p \<in> set (ly_layer_parts l0)" for p
  proof -
    have wf: "wf_part (planning_config cfg) specs p" using acc parts that by (auto simp: wf_acc_def)
    then obtain ns where "ns \<in> set specs" "lp_layer_name p = fst ns" "lp_num_heads p = cs_num_kv_heads (snd ns)"
      by (auto simp: wf_part_def)
    moreover have "map_of specs (fst ns) = Some (snd ns)"
      using assms(2) calculation(1) by (simp add: plan_input_ok_def)
    ultimately show ?thesis using wf_part_pos[OF wf inp] by (simp add: heads_def)
  qed
  have w: "0 \<le> w \<and> ALIGNMENT dvd w"
    using probed none probe_result assms(2) by (cases "uses_codec cfg") (auto simp: plan_input_ok_def)
  have sizes: "0 \<le> ly_arena_bytes l0" "ALIGNMENT dvd ly_aux_arena_bytes l0" "0 \<le> ly_aux_arena_bytes l0"
      "ALIGNMENT dvd raw_tail_capacity l0" "0 \<le> raw_tail_capacity l0"
    using layout_sizes_nonneg[OF bl inp] by auto
  define l where "l = l0\<lparr>ly_arena_bytes := round256 (max (ly_arena_bytes l0) (max (fst mo) (snd mo)))\<rparr>"
  have plan: "mp_config plan = cfg" "mp_layout plan = l" "mp_blocks_per_logical plan = bpl"
    "mp_metadata_bytes plan = metadata_bytes_of cfg l bpl"
    "mp_codec_workspace_bytes plan = (if uses_codec cfg then w * cfg_slot_count cfg else w)"
    using fin by (auto simp: finish_plan_def Let_def l_def split: if_splits)
  have "raw_tail_capacity l = raw_tail_capacity l0" "ly_layer_parts l = ly_layer_parts l0"
    "ly_aux_arena_bytes l = ly_aux_arena_bytes l0" "ALIGNMENT dvd ly_arena_bytes l" "0 \<le> ly_arena_bytes l"
    using sizes by (simp_all add: l_def raw_tail_capacity_def layout_parts_def)
  moreover have "1 \<le> cfg_slot_count cfg" "1 \<le> cfg_logical_blocks_per_chunk cfg" "1 \<le> bpl"
    using assms(2) by (auto simp: plan_input_ok_def wf_config_def)
  moreover have "\<exists>heads. \<forall>p \<in> set (ly_layer_parts l0). lp_num_heads p = heads (lp_layer_name p)"
    and "\<forall>p \<in> set (ly_layer_parts l0). 0 \<le> lp_num_heads p \<and> 0 \<le> lp_head_size p" using hd by blast+
  moreover have "\<exists>w'. 0 \<le> w' \<and> ALIGNMENT dvd w' \<and>
      mp_codec_workspace_bytes plan = (if uses_codec cfg then w' * cfg_slot_count cfg else 0)"
    using plan(5) w none by (intro exI[of _ w]) auto
  ultimately show ?thesis using sizes unfolding plan_ok_def Let_def plan(1-4) by (simp split del: if_split)
qed

lemma plan_reserved_covers:
  assumes "build_memory_plan load nv rg cfg specs bpl tp_size tp_rank nl = (rg', Inr (Some plan))"
    and "1 \<le> cfg_slot_count cfg"
  shows "fixed_bytes plan \<le> mp_reserved_bytes plan"
proof -
  obtain sel l0 w mo ret
    where probed: "uses_codec cfg \<longrightarrow> probe_operators nv rg (ly_packed_bytes_by_part l0) = (rg', Inr (w, mo, ret))"
    and none: "\<not> uses_codec cfg \<longrightarrow> w = 0 \<and> ret = 0" and fin: "finish_plan cfg l0 sel bpl (w, mo, ret) = Inr plan"
    using assms(1) by (rule build_planE)
  have ret: "0 \<le> ret" using probed none probe_retained by (cases "uses_codec cfg") auto
  define l where "l = l0\<lparr>ly_arena_bytes := round256 (max (ly_arena_bytes l0) (max (fst mo) (snd mo)))\<rparr>"
  let ?r = "if uses_codec cfg then ret * cfg_slot_count cfg else ret"
  have "mp_reserved_bytes plan = round256 (fixed_bytes plan + ?r + DRIVER_GUARD_BYTES)"
    using fin by (auto simp: finish_plan_def Let_def fixed_bytes_def l_def[symmetric] split: if_splits)
  moreover have "0 \<le> ?r" using ret assms(2) by simp
  moreover have "0 \<le> DRIVER_GUARD_BYTES" by (simp add: DRIVER_GUARD_BYTES_def)
  ultimately show ?thesis
    using round256_ge[of "fixed_bytes plan + ?r + DRIVER_GUARD_BYTES"] by linarith
qed

lemma carve_regions_requests: "map snd (carve_regions off ns) = ns"
  by (induction ns arbitrary: off) simp_all

lemma carve_regions_aligned: "r \<in> set (carve_regions off ns) \<Longrightarrow> ALIGNMENT dvd fst r"
  by (induction ns arbitrary: off) auto

section \<open>Properties\<close>

text \<open>
  C2: The memory plan and the runtime agree.  A runtime built from a memory plan, with the
  same number of kernel blocks per logical block, carves every buffer it needs out of its
  bulk allocation: no slice is truncated, all of them are aligned and pairwise disjoint, and
  the bulk allocation is within the bytes the plan reserved.
\<close>

theorem runtime_buffers_safe:
  assumes "build_memory_plan load nv rg0 cfg specs bpl tp_size tp_rank num_layers = (rg0', Inr (Some plan))"
    and "plan_input_ok load nv cfg specs bpl tp_size tp_rank"
    and "length streams = nat (cfg_slot_count cfg)" and "\<forall>s \<in> set streams. raises s = None"
    and "fst ` set (rg_allocators rg) \<inter> set streams = {}"
  shows "\<exists>rg1 rt. CompressionRuntime raises plan bpl streams rg = (rg1, Inr rt) \<and>
    map snd (runtime_regions rt) = runtime_requests plan bpl \<and>
    stacked 0 (rt_bulk_bytes rt) (runtime_regions rt) \<and> disjoint_regions (runtime_regions rt) \<and>
    (\<forall>r \<in> set (runtime_regions rt). ALIGNMENT dvd fst r) \<and> rt_bulk_bytes rt \<le> mp_reserved_bytes plan"
proof -
  have ok: "plan_ok plan" and b: "mp_blocks_per_logical plan = bpl" and c: "mp_config plan = cfg"
    using build_plan_ok[OF assms(1,2)] by auto
  have "fst ` set (workspace_by_stream streams) \<subseteq> set streams"
    by (auto simp: workspace_by_stream_def dest: set_zip_leftD)
  then have dis: "fst ` set (rg_allocators rg) \<inter> fst ` set (workspace_by_stream streams) = {}" using assms(5) by blast
  obtain rg1 where rg1: "(if uses_codec (mp_config plan) then register_workspace_allocators
      (workspace_by_stream streams) rg else Inr rg) = Inr rg1"
    using dis by (cases "uses_codec (mp_config plan)") (auto simp: register_workspace_allocators_def)
  obtain rt where rt: "CompressionRuntime raises plan bpl streams rg = (rg1, Inr rt)"
    "runtime_regions rt = carve_regions 0 (runtime_requests plan bpl)" "rt_bulk_bytes rt = fixed_bytes plan"
    using runtime_constructed[OF ok _ _ rg1] assms(3,4) unfolding b c by blast
  have nn: "\<forall>n \<in> set (runtime_requests plan bpl). 0 \<le> n" using runtime_requests_nonneg[OF ok] b by simp
  have st0: "stacked 0 (carve_end 0 (runtime_requests plan bpl)) (carve_regions 0 (runtime_requests plan bpl))"
    using carver.run_stacked[of "runtime_requests plan bpl" 0] nn by blast
  have "carve_end 0 (runtime_requests plan bpl) \<le> fixed_bytes plan"
    using carve_total[of 0 "runtime_requests plan bpl"] runtime_requests_total[OF ok] b
      round256_ge[of "carve_end 0 (runtime_requests plan bpl)"] by (simp add: round_up_def ALIGNMENT_def)
  then have st: "stacked 0 (fixed_bytes plan) (carve_regions 0 (runtime_requests plan bpl))"
    by (rule stacked_widen[OF st0 order_refl])
  have "fixed_bytes plan \<le> mp_reserved_bytes plan"
    using plan_reserved_covers[OF assms(1)] assms(2) by (simp add: plan_input_ok_def wf_config_def)
  then show ?thesis using rt st stacked_disjoint[OF st] carve_regions_aligned
    by (intro exI[of _ rg1] exI[of _ rt]) (simp add: carve_regions_requests)
qed

text \<open>The plan of the two-layer model with a head-split quantizer and no codec stage.\<close>

definition demo_scores :: score_array where
  "demo_scores = \<lparr>sa_shape = [2, 4], sa_values = map Some [1, 5, 2, 7, 3, 8, 6, 4]\<rparr>"

definition demo_plan_config :: config where
  "demo_plan_config = demo_config\<lparr>cfg_score_path := PStr ''scores.npy'', cfg_hybrid_ratio := 1/2\<rparr>"

definition demo_probe :: nvcomp_probe where
  "demo_probe = \<lparr>pr_stream = 9, pr_audit_id = 0, pr_trace = [AuditCall 1000, AuditCall 300, AuditDrop 0],
     pr_max_output = (\<lambda>n. n + 64), pr_free_before = 4096, pr_free_after = 1024, pr_raises = None\<rparr>"

definition demo_load :: "pyval \<Rightarrow> score_array result" where
  "demo_load path = Inr demo_scores"

abbreviation demo_build :: "registry \<times> memory_plan option result" where
  "demo_build \<equiv> build_memory_plan demo_load demo_probe \<lparr>rg_allocators = [], rg_hook = False\<rparr>
     demo_plan_config demo_specs 2 1 0 2"

definition demo_plan :: memory_plan where
  "demo_plan = the (projr (snd demo_build))"

lemma demo_plan_built: "\<exists>rg'. demo_build = (rg', Inr (Some demo_plan))"
proof -
  have "(case snd demo_build of Inr (Some _) \<Rightarrow> True | _ \<Rightarrow> False)" by code_simp
  then show ?thesis unfolding demo_plan_def
    by (cases "demo_build") (auto split: sum.splits option.splits)
qed

lemma demo_plan_input: "plan_input_ok demo_load demo_probe demo_plan_config demo_specs 2 1 0"
  by (auto simp: plan_input_ok_def demo_load_def demo_probe_def demo_plan_config_def demo_config_def
      demo_specs_def demo_scores_def CacheSpec_def wf_spec_def wf_config_def default_config_def
      ordered_stages_def wf_scores_def)

theorem runtime_buffers_safe_witness:
  "\<exists>rg1 rt. CompressionRuntime (\<lambda>_. None) demo_plan 2 [11, 12] \<lparr>rg_allocators = [], rg_hook = False\<rparr> = (rg1, Inr rt) \<and>
     disjoint_regions (runtime_regions rt) \<and> stacked 0 (rt_bulk_bytes rt) (runtime_regions rt)"
proof -
  obtain rg' where b: "demo_build = (rg', Inr (Some demo_plan))" using demo_plan_built by blast
  have "length [11, 12 :: int] = nat (cfg_slot_count demo_plan_config)" by code_simp
  then show ?thesis
    using runtime_buffers_safe[OF b demo_plan_input, of "[11, 12]" "\<lambda>_. None" "\<lparr>rg_allocators = [], rg_hook = False\<rparr>"]
    by auto
qed

lemma fold_dict_set_append:
  "distinct (map fst xs) \<Longrightarrow> fst ` set d \<inter> fst ` set xs = {} \<Longrightarrow>
   fold (\<lambda>(s, a) d. dict_set d s a) xs d = d @ xs"
proof (induction xs arbitrary: d)
  case (Cons x xs)
  have "dict_set d (fst x) (snd x) = d @ [x]" using Cons.prems by (auto simp: dict_set_fresh)
  then show ?case using Cons.IH[of "d @ [x]"] Cons.prems by (auto simp: case_prod_beta)
qed simp

lemma fold_dict_pop: "fold (\<lambda>s d. dict_pop d s) ss d = filter (\<lambda>e. fst e \<notin> set ss) d"
  by (induction ss arbitrary: d) (auto simp: dict_pop_def intro!: filter_cong)

lemma register_unregister:
  assumes "registry_ok rg" and "distinct streams" and "streams \<noteq> []"
    and "register_workspace_allocators (workspace_by_stream streams) rg = Inr rg1"
  shows "unregister_workspace_allocators streams rg1 = rg"
proof -
  have keys: "map fst (workspace_by_stream streams) = streams" by (simp add: workspace_by_stream_def)
  have dis: "fst ` set (rg_allocators rg) \<inter> fst ` set (workspace_by_stream streams) = {}"
    and rg1: "rg1 = \<lparr>rg_allocators = rg_allocators rg @ workspace_by_stream streams,
               rg_hook = (rg_hook rg \<or> rg_allocators rg = [])\<rparr>"
    using assms(2,4) fold_dict_set_append[of "workspace_by_stream streams" "rg_allocators rg"] keys
    by (auto simp: register_workspace_allocators_def split: if_splits)
  have set: "fst ` set (workspace_by_stream streams) = set streams" using keys by (metis list.set_map)
  have "filter (\<lambda>e. fst e \<notin> set streams) (rg_allocators rg) = rg_allocators rg"
    using dis set by (auto simp: filter_id_conv)
  moreover have "filter (\<lambda>e. fst e \<notin> set streams) (workspace_by_stream streams) = []"
    using set by (auto simp: filter_empty_conv)
  ultimately show ?thesis using assms(1) unfolding rg1
    by (auto simp: unregister_workspace_allocators_def fold_dict_pop Let_def registry_ok_def)
qed

text \<open>
  Registration with nvCOMP is balanced.  If constructing a runtime fails at any point, the
  allocator registry is what it was before; if it succeeds, shutting the runtime down restores
  it, and a second shutdown changes nothing.
\<close>

lemma runtime_registry_balanced:
  assumes "reach rg_init rg_step rg" and "distinct streams" and "streams \<noteq> []"
  shows "case CompressionRuntime raises plan bpl streams rg of
      (rg1, Inl e) \<Rightarrow> rg1 = rg
    | (rg1, Inr rt) \<Rightarrow> fst (shutdown rt rg1) = rg \<and>
        fst (shutdown (snd (shutdown rt rg1)) rg) = rg"
proof -
  have ok: "registry_ok rg" by (rule rg.reach_inv[OF assms(1)])
  show ?thesis
    using register_unregister[OF ok assms(2,3)]
    by (auto simp: CompressionRuntime_def Let_def shutdown_def release_workspace_allocator_def
        split: sum.splits prod.splits if_splits)
qed

lemma runtime_registry_balanced_witness:
  "case CompressionRuntime (\<lambda>s. if s = 12 then Some ValueError else None)
     (demo_plan\<lparr>mp_config := default_config\<rparr>) 2 [11, 12] \<lparr>rg_allocators = [], rg_hook = False\<rparr> of
      (rg1, Inl e) \<Rightarrow> rg1 = \<lparr>rg_allocators = [], rg_hook = False\<rparr>
    | (rg1, Inr rt) \<Rightarrow> fst (shutdown rt rg1) = \<lparr>rg_allocators = [], rg_hook = False\<rparr> \<and>
        fst (shutdown (snd (shutdown rt rg1)) \<lparr>rg_allocators = [], rg_hook = False\<rparr>) =
          \<lparr>rg_allocators = [], rg_hook = False\<rparr>"
  by (rule runtime_registry_balanced) (auto intro: reach_init simp: rg_init_def)

end
