(* ===== verification/Wire_Values.thy ===== *)
theory Wire_Values
  imports Py_Values Runtime_Spec "HOL-Library.Word"
begin

text \<open>
  Values that travel in a compressed payload: tensors as element type, shape and raw bytes,
  and the Python containers that hold them in metadata.  A tensor here is contiguous and
  starts at byte 0 of its storage; \<open>view\<close> and \<open>reshape\<close> raise as torch documents it.
\<close>

type_synonym byte = "8 word"

record tensor =
  tn_dtype :: dtype
  tn_shape :: "nat list"
  tn_bytes :: "byte list"

definition tn_numel :: "tensor \<Rightarrow> nat" where
  "tn_numel t = prod_list (tn_shape t)"

definition tn_nbytes :: "tensor \<Rightarrow> nat" where
  "tn_nbytes t = tn_numel t * itemsize (tn_dtype t)"

definition wf_tensor :: "tensor \<Rightarrow> bool" where
  "wf_tensor t \<longleftrightarrow> length (tn_bytes t) = tn_nbytes t"

datatype wkey = KStr string | KInt int

datatype wval =
    WNone
  | WBool bool
  | WInt int
  | WFloat rat
  | WStr string
  | WTensor tensor
  | WList "wval list"
  | WTuple "wval list"
  | WDict "(wkey \<times> wval) list"

type_synonym wdict = "(wkey \<times> wval) list"

definition wget :: "wdict \<Rightarrow> string \<Rightarrow> wval \<Rightarrow> wval" where
  "wget d k dflt = (case map_of d (KStr k) of None \<Rightarrow> dflt | Some v \<Rightarrow> v)"

definition witem :: "wdict \<Rightarrow> string \<Rightarrow> wval result" where
  "witem d k = (case map_of d (KStr k) of None \<Rightarrow> Inl KeyError | Some v \<Rightarrow> Inr v)"

definition whas :: "wdict \<Rightarrow> string \<Rightarrow> bool" where
  "whas d k \<longleftrightarrow> map_of d (KStr k) \<noteq> None"

fun wtruthy :: "wval \<Rightarrow> bool result" where
  "wtruthy WNone = Inr False"
| "wtruthy (WBool b) = Inr b"
| "wtruthy (WInt i) = Inr (i \<noteq> 0)"
| "wtruthy (WFloat r) = Inr (r \<noteq> 0)"
| "wtruthy (WStr s) = Inr (s \<noteq> [])"
| "wtruthy (WTensor t) = (if tn_numel t = 1 then Inr (\<exists>b \<in> set (tn_bytes t). b \<noteq> 0) else Inl RuntimeError)"
| "wtruthy (WList xs) = Inr (xs \<noteq> [])"
| "wtruthy (WTuple xs) = Inr (xs \<noteq> [])"
| "wtruthy (WDict d) = Inr (d \<noteq> [])"

text \<open>\<open>int(v)\<close>; a tensor as an integer is not used by the code.\<close>

fun wint :: "wval \<Rightarrow> int result" where
  "wint (WBool b) = Inr (if b then 1 else 0)"
| "wint (WInt i) = Inr i"
| "wint (WFloat r) = py_int (PFloat r)"
| "wint (WStr s) = py_int (PStr s)"
| "wint _ = Inl TypeError"

definition wdict_of :: "wval \<Rightarrow> wdict result" where
  "wdict_of v = (case v of WDict d \<Rightarrow> Inr d | _ \<Rightarrow> Inl AttributeError)"

section \<open>Element types by name\<close>

fun dtype_name :: "dtype \<Rightarrow> string" where
  "dtype_name BFloat16 = ''bfloat16''"
| "dtype_name Float16 = ''float16''"
| "dtype_name Float32 = ''float32''"
| "dtype_name Float64 = ''float64''"
| "dtype_name UInt8 = ''uint8''"
| "dtype_name Int8 = ''int8''"
| "dtype_name Int16 = ''int16''"
| "dtype_name Int32 = ''int32''"
| "dtype_name Int64 = ''int64''"
| "dtype_name BoolT = ''bool''"

definition all_dtypes :: "dtype list" where
  "all_dtypes = [BFloat16, Float16, Float32, Float64, UInt8, Int8, Int16, Int32, Int64, BoolT]"

text \<open>\<open>getattr(torch, name)\<close>\<close>

definition torch_dtype :: "wval \<Rightarrow> dtype result" where
  "torch_dtype v = (case v of
       WStr s \<Rightarrow> (case find (\<lambda>d. dtype_name d = s) all_dtypes of Some d \<Rightarrow> Inr d | None \<Rightarrow> Inl AttributeError)
     | _ \<Rightarrow> Inl TypeError)"

lemma torch_dtype_name [simp]: "torch_dtype (WStr (dtype_name d)) = Inr d"
  by (cases d) (simp_all add: torch_dtype_def all_dtypes_def)

definition shape_val :: "nat list \<Rightarrow> wval" where
  "shape_val sh = WList (map (\<lambda>n. WInt (int n)) sh)"

fun dims_of :: "wval list \<Rightarrow> nat list result" where
  "dims_of [] = Inr []"
| "dims_of (WInt i # vs) = (if i < 0 then Inl RuntimeError else bind_res (dims_of vs) (\<lambda>ns. Inr (nat i # ns)))"
| "dims_of (_ # vs) = Inl TypeError"

lemma dims_of_shape [simp]: "dims_of (map (\<lambda>n. WInt (int n)) sh) = Inr sh"
  by (induction sh) auto

section \<open>Byte views\<close>

text \<open>
  \<open>t.view(torch.uint8).flatten()\<close>: a zero-dimensional tensor cannot change its element size.
\<close>

definition view_bytes :: "tensor \<Rightarrow> byte list result" where
  "view_bytes t = (if tn_shape t = [] \<and> itemsize (tn_dtype t) \<noteq> 1 then Inl RuntimeError else Inr (tn_bytes t))"

text \<open>
  \<open>storage[start:start + len].view(dtype).reshape(shape)\<close> of a byte tensor: the offset and
  the length have to be multiples of the element size and the shape has to fit.
\<close>

definition view_as :: "byte list \<Rightarrow> int \<Rightarrow> int \<Rightarrow> dtype \<Rightarrow> wval \<Rightarrow> tensor result" where
  "view_as storage start stop d shape =
     (let bs = py_slice storage start stop;
          off = int (slice_bound (length storage) start) in
      if off mod int (itemsize d) \<noteq> 0 \<or> length bs mod itemsize d \<noteq> 0 then Inl RuntimeError
      else case shape of
        WList vs \<Rightarrow> bind_res (dims_of vs) (\<lambda>sh.
          if prod_list sh * itemsize d \<noteq> length bs then Inl RuntimeError
          else Inr \<lparr>tn_dtype = d, tn_shape = sh, tn_bytes = bs\<rparr>)
      | _ \<Rightarrow> Inl TypeError)"

lemma view_as_exact:
  assumes "wf_tensor t" and "storage = pre @ tn_bytes t @ post"
    and "length pre mod itemsize (tn_dtype t) = 0"
  shows "view_as storage (int (length pre)) (int (length pre) + int (length (tn_bytes t))) (tn_dtype t)
    (shape_val (tn_shape t)) = Inr t"
proof -
  have len: "length (tn_bytes t) = prod_list (tn_shape t) * itemsize (tn_dtype t)"
    using assms(1) by (simp add: wf_tensor_def tn_nbytes_def tn_numel_def)
  have sl: "py_slice storage (int (length pre)) (int (length pre) + int (length (tn_bytes t))) = tn_bytes t"
    using assms(2) by (subst py_slice_in_range) auto
  have "int (slice_bound (length storage) (int (length pre))) = int (length pre)"
    using assms(2) by (simp add: slice_bound_def)
  moreover have "int (length pre) mod int (itemsize (tn_dtype t)) = 0"
    using assms(3) by (simp flip: of_nat_mod)
  ultimately show ?thesis using sl len by (simp add: view_as_def shape_val_def Let_def)
qed

end
