(* ===== verification/Wire.thy ===== *)
theory Wire
  imports Wire_Values
begin

text \<open>
  The wire format of compressed payloads (\<^verbatim>\<open>compression/wire.py\<close>): quantization tensors are
  replaced by placeholders and coalesced into one padded byte tensor, bodies above the chunk
  limit are cut into byte chunks, and \<open>restore_from_wire\<close> undoes both.  \<open>repr\<close> stands for
  \<open>str()\<close> of a value that is neither a string, an integer, a boolean nor \<open>None\<close>.
\<close>

section \<open>Model\<close>

definition AUX_PLACEHOLDER :: string where
  "AUX_PLACEHOLDER = ''__kvserve_aux_tensor__''"

record compressed_kv =
  ck_request_id :: string
  ck_layer_id :: int
  ck_compressed_tensor :: "tensor option"
  ck_metadata :: wval
  ck_original_size :: int
  ck_compressed_size :: int
  ck_is_chunked :: bool
  ck_chunks :: "tensor list option"
  ck_chunk_metadata :: "wval list option"

record compressed_wire =
  cw_meta :: wdict
  cw_body_chunks :: "tensor list"
  cw_aux_tensors :: "tensor list"

definition wire_nbytes :: "compressed_wire \<Rightarrow> nat" where
  "wire_nbytes w = sum_list (map tn_nbytes (cw_body_chunks w @ cw_aux_tensors w))"

subsection \<open>Packing\<close>

text \<open>\<open>_pack_qparams\<close>; the list of auxiliary tensors grows from left to right.\<close>

fun pack_qparams :: "wval \<Rightarrow> tensor list \<Rightarrow> tensor list \<times> wval"
  and pack_list :: "wval list \<Rightarrow> tensor list \<Rightarrow> tensor list \<times> wval list"
  and pack_dict :: "wdict \<Rightarrow> tensor list \<Rightarrow> tensor list \<times> wdict" where
  "pack_qparams (WTensor t) aux = (aux @ [t], WList [WStr AUX_PLACEHOLDER, WInt (int (length aux))])"
| "pack_qparams (WDict d) aux = (let (aux', d') = pack_dict d aux in (aux', WDict d'))"
| "pack_qparams (WList vs) aux = (let (aux', vs') = pack_list vs aux in (aux', WList vs'))"
| "pack_qparams (WTuple vs) aux = (let (aux', vs') = pack_list vs aux in (aux', WList vs'))"
| "pack_qparams v aux = (aux, v)"
| "pack_list [] aux = (aux, [])"
| "pack_list (v # vs) aux =
     (let r = pack_qparams v aux; rs = pack_list vs (fst r) in (fst rs, snd r # snd rs))"
| "pack_dict [] aux = (aux, [])"
| "pack_dict ((k, v) # d) aux =
     (let r = pack_qparams v aux; rs = pack_dict d (fst r) in (fst rs, (k, snd r) # snd rs))"

definition QPARAMS :: wkey where
  "QPARAMS = KStr ''quantization_params''"

definition pack_metadata :: "wval \<Rightarrow> tensor list \<Rightarrow> tensor list \<times> wval" where
  "pack_metadata obj aux = (case obj of
       WDict d \<Rightarrow> (case map_of d QPARAMS of
          None \<Rightarrow> (aux, WDict d)
        | Some q \<Rightarrow> (let (aux', q') = pack_qparams q aux in (aux', WDict (dict_set d QPARAMS q'))))
     | _ \<Rightarrow> (aux, obj))"

fun pack_metadata_list :: "wval list \<Rightarrow> tensor list \<Rightarrow> tensor list \<times> wval list" where
  "pack_metadata_list [] aux = (aux, [])"
| "pack_metadata_list (v # vs) aux =
     (let r = pack_metadata v aux; rs = pack_metadata_list vs (fst r) in (fst rs, snd r # snd rs))"

subsection \<open>Unpacking\<close>

definition is_aux_placeholder :: "wval \<Rightarrow> bool" where
  "is_aux_placeholder v = (case v of WList [WStr s, x] \<Rightarrow> s = AUX_PLACEHOLDER | _ \<Rightarrow> False)"

text \<open>\<open>xs[int(v)]\<close>\<close>

definition aux_item :: "tensor list \<Rightarrow> wval \<Rightarrow> wval result" where
  "aux_item aux v = bind_res (wint v) (\<lambda>i.
     let j = (if i < 0 then i + int (length aux) else i)
     in if 0 \<le> j \<and> j < int (length aux) then Inr (WTensor (aux ! nat j)) else Inl IndexError)"

fun unpack_qparams :: "tensor list \<Rightarrow> wval \<Rightarrow> wval result"
  and unpack_list :: "tensor list \<Rightarrow> wval list \<Rightarrow> wval list result"
  and unpack_dict :: "tensor list \<Rightarrow> wdict \<Rightarrow> wdict result" where
  "unpack_qparams aux (WList vs) =
     (if is_aux_placeholder (WList vs) then aux_item aux (vs ! 1)
      else bind_res (unpack_list aux vs) (\<lambda>vs'. Inr (WList vs')))"
| "unpack_qparams aux (WDict d) = bind_res (unpack_dict aux d) (\<lambda>d'. Inr (WDict d'))"
| "unpack_qparams aux v = Inr v"
| "unpack_list aux [] = Inr []"
| "unpack_list aux (v # vs) =
     bind_res (unpack_qparams aux v) (\<lambda>v'. bind_res (unpack_list aux vs) (\<lambda>vs'. Inr (v' # vs')))"
| "unpack_dict aux [] = Inr []"
| "unpack_dict aux ((k, v) # d) =
     bind_res (unpack_qparams aux v) (\<lambda>v'. bind_res (unpack_dict aux d) (\<lambda>d'. Inr ((k, v') # d')))"

definition unpack_metadata :: "tensor list \<Rightarrow> wval \<Rightarrow> wval result" where
  "unpack_metadata aux obj = (case obj of
       WDict d \<Rightarrow> (case map_of d QPARAMS of
          None \<Rightarrow> Inr obj
        | Some q \<Rightarrow> bind_res (unpack_qparams aux q) (\<lambda>q'. Inr (WDict (dict_set d QPARAMS q'))))
     | _ \<Rightarrow> Inr obj)"

subsection \<open>Coalescing the auxiliary tensors\<close>

definition aux_spec :: "nat \<Rightarrow> tensor \<Rightarrow> wval" where
  "aux_spec off t = WDict [(KStr ''storage'', WInt 0), (KStr ''offset'', WInt (int off)),
     (KStr ''nbytes'', WInt (int (length (tn_bytes t)))), (KStr ''shape'', shape_val (tn_shape t)),
     (KStr ''dtype'', WStr (dtype_name (tn_dtype t)))]"

fun coalesce_loop :: "nat \<Rightarrow> tensor list \<Rightarrow> byte list \<times> wval list" where
  "coalesce_loop offset [] = ([], [])"
| "coalesce_loop offset (t # ts) =
     (let padding = nat ((- int offset) mod int (itemsize (tn_dtype t)));
          start = offset + padding;
          (bytes, layout) = coalesce_loop (start + length (tn_bytes t)) ts
      in (replicate padding 0 @ tn_bytes t @ bytes, aux_spec start t # layout))"

definition byte_tensor :: "byte list \<Rightarrow> tensor" where
  "byte_tensor bs = \<lparr>tn_dtype = UInt8, tn_shape = [length bs], tn_bytes = bs\<rparr>"

definition coalesce_aux_tensors :: "wdict \<Rightarrow> tensor list \<Rightarrow> wdict \<times> tensor list" where
  "coalesce_aux_tensors meta aux =
     (if length aux \<le> 1 then (meta, aux)
      else let (bytes, layout) = coalesce_loop 0 aux
           in (dict_set meta (KStr ''aux_layout'')
                 (WDict [(KStr ''mode'', WStr ''coalesced_bytes''), (KStr ''tensors'', WList layout)]),
               [byte_tensor bytes]))"

definition expand_one :: "byte list \<Rightarrow> wval \<Rightarrow> tensor result" where
  "expand_one storage spec =
     bind_res (wdict_of spec) (\<lambda>d.
     bind_res (wint (wget d ''storage'' (WInt 0))) (\<lambda>st.
     if st \<noteq> 0 then Inl ValueError
     else bind_res (bind_res (witem d ''offset'') wint) (\<lambda>start.
     bind_res (bind_res (witem d ''nbytes'') wint) (\<lambda>n.
     bind_res (bind_res (witem d ''dtype'') torch_dtype) (\<lambda>dt.
     bind_res (witem d ''shape'') (\<lambda>sh. view_as storage start (start + n) dt sh))))))"

definition expand_aux_tensors :: "tensor list \<Rightarrow> wval \<Rightarrow> tensor list result" where
  "expand_aux_tensors wire_aux aux_layout =
     bind_res (wtruthy aux_layout) (\<lambda>present.
       if \<not> present then Inr wire_aux
       else bind_res (wdict_of aux_layout) (\<lambda>d.
         if wget d ''mode'' WNone \<noteq> WStr ''coalesced_bytes'' then Inl ValueError
         else case wire_aux of
           [] \<Rightarrow> Inr []
         | t # _ \<Rightarrow> bind_res (view_bytes t) (\<lambda>storage.
             case wget d ''tensors'' (WList []) of
               WList specs \<Rightarrow> map_res (expand_one storage) specs
             | _ \<Rightarrow> Inl TypeError)))"

subsection \<open>Bodies\<close>

function split_bytes :: "nat \<Rightarrow> byte list \<Rightarrow> byte list list" where
  "split_bytes n bs = (if bs = [] \<or> n = 0 then [] else take n bs # split_bytes n (drop n bs))"
  by pat_completeness auto
termination by (relation "measure (\<lambda>(n, bs). length bs)") auto

declare split_bytes.simps [simp del]

definition split_tensor_bytes :: "tensor \<Rightarrow> int \<Rightarrow> tensor list result" where
  "split_tensor_bytes t max_chunk_bytes =
     (if max_chunk_bytes \<le> 0 then Inl ValueError
      else bind_res (view_bytes t) (\<lambda>bs.
        Inr (map byte_tensor (split_bytes (nat max_chunk_bytes) bs))))"

definition tensor_spec :: "tensor \<Rightarrow> wval" where
  "tensor_spec t = WDict [(KStr ''shape'', shape_val (tn_shape t)),
     (KStr ''dtype'', WStr (dtype_name (tn_dtype t)))]"

definition restore_tensor_from_bytes :: "byte list \<Rightarrow> wval \<Rightarrow> tensor result" where
  "restore_tensor_from_bytes bs spec =
     bind_res (wdict_of spec) (\<lambda>d.
     bind_res (bind_res (witem d ''dtype'') torch_dtype) (\<lambda>dt.
     bind_res (witem d ''shape'') (\<lambda>sh. view_as bs 0 (int (length bs)) dt sh)))"

fun has_tensor :: "wval \<Rightarrow> bool" where
  "has_tensor (WTensor t) = True"
| "has_tensor (WDict d) = (\<exists>kv \<in> set d. has_tensor (snd kv))"
| "has_tensor (WList vs) = (\<exists>v \<in> set vs. has_tensor v)"
| "has_tensor (WTuple vs) = (\<exists>v \<in> set vs. has_tensor v)"
| "has_tensor v = False"

definition assert_no_tensor :: "wdict \<Rightarrow> unit result" where
  "assert_no_tensor d = (if has_tensor (WDict d) then Inl TypeError else Inr ())"

subsection \<open>The two directions\<close>

definition seal :: "wdict \<Rightarrow> tensor list \<Rightarrow> tensor list \<Rightarrow> compressed_wire result" where
  "seal meta aux body =
     (let (meta', wire_aux) = coalesce_aux_tensors meta aux in
      bind_res (assert_no_tensor meta') (\<lambda>_.
        Inr \<lparr>cw_meta = meta', cw_body_chunks = body, cw_aux_tensors = wire_aux\<rparr>))"

definition build_wire :: "compressed_kv \<Rightarrow> int \<Rightarrow> compressed_wire result" where
  "build_wire c max_chunk_bytes =
     (if ck_is_chunked c then
        (case (ck_chunks c, ck_chunk_metadata c) of
           (Some (ch # chs), Some (cm # cms)) \<Rightarrow>
             let (aux1, md) = pack_metadata (ck_metadata c) [];
                 (aux2, cmd) = pack_metadata_list (cm # cms) aux1
             in seal [(KStr ''is_chunked'', WBool True), (KStr ''layer_id'', WInt (ck_layer_id c)),
                      (KStr ''original_size'', WInt (ck_original_size c)),
                      (KStr ''compressed_size'', WInt (ck_compressed_size c)),
                      (KStr ''metadata'', md), (KStr ''chunk_metadata'', WList cmd),
                      (KStr ''body_mode'', WStr ''manager_chunks'')] aux2 (ch # chs)
         | _ \<Rightarrow> Inl ValueError)
      else (case ck_compressed_tensor c of
          None \<Rightarrow> Inl ValueError
        | Some body \<Rightarrow>
            bind_res (if max_chunk_bytes < int (tn_nbytes body)
                      then bind_res (split_tensor_bytes body max_chunk_bytes) (\<lambda>cs. Inr (cs, ''byte_chunks''))
                      else Inr ([body], ''single'')) (\<lambda>(chunks, mode).
              let (aux, md) = pack_metadata (ck_metadata c) []
              in seal [(KStr ''is_chunked'', WBool False), (KStr ''layer_id'', WInt (ck_layer_id c)),
                       (KStr ''original_size'', WInt (ck_original_size c)),
                       (KStr ''compressed_size'', WInt (ck_compressed_size c)),
                       (KStr ''metadata'', md), (KStr ''body_mode'', WStr mode),
                       (KStr ''body_spec'', tensor_spec body)] aux chunks)))"

definition py_str :: "(wval \<Rightarrow> string) \<Rightarrow> wval \<Rightarrow> string" where
  "py_str repr v = (case v of WStr s \<Rightarrow> s | WInt i \<Rightarrow> show_int i
     | WBool b \<Rightarrow> (if b then ''True'' else ''False'') | WNone \<Rightarrow> ''None'' | _ \<Rightarrow> repr v)"

definition metadata_request_id :: "(wval \<Rightarrow> string) \<Rightarrow> wval \<Rightarrow> string" where
  "metadata_request_id repr md = (case md of
       WDict d \<Rightarrow> py_str repr (wget d ''request_id'' (WStr ''unknown''))
     | _ \<Rightarrow> ''unknown'')"

definition restore_from_wire :: "(wval \<Rightarrow> string) \<Rightarrow> compressed_wire \<Rightarrow> compressed_kv result" where
  "restore_from_wire repr w =
     (let meta = cw_meta w in
      bind_res (expand_aux_tensors (cw_aux_tensors w) (wget meta ''aux_layout'' WNone)) (\<lambda>aux.
      bind_res (bind_res (witem meta ''is_chunked'') wtruthy) (\<lambda>is_chunked.
      bind_res (unpack_metadata aux (wget meta ''metadata'' WNone)) (\<lambda>inner.
      let rid = metadata_request_id repr inner in
      if is_chunked then
        bind_res (wint (wget meta ''layer_id'' (WInt (-1)))) (\<lambda>layer.
        bind_res (wint (wget meta ''original_size'' (WInt 0))) (\<lambda>osize.
        bind_res (wint (wget meta ''compressed_size'' (WInt 0))) (\<lambda>csize.
        bind_res (case wget meta ''chunk_metadata'' (WList []) of
                    WList cms \<Rightarrow> map_res (unpack_metadata aux) cms | _ \<Rightarrow> Inl TypeError) (\<lambda>cmd.
          Inr \<lparr>ck_request_id = rid, ck_layer_id = layer, ck_compressed_tensor = None,
               ck_metadata = inner, ck_original_size = osize, ck_compressed_size = csize,
               ck_is_chunked = True, ck_chunks = Some (cw_body_chunks w), ck_chunk_metadata = Some cmd\<rparr>))))
      else
        bind_res (if wget meta ''body_mode'' WNone = WStr ''byte_chunks'' then
                    bind_res (map_res view_bytes (cw_body_chunks w)) (\<lambda>bss.
                      if bss = [] then Inl RuntimeError
                      else bind_res (witem meta ''body_spec'') (restore_tensor_from_bytes (concat bss)))
                  else (case cw_body_chunks w of [] \<Rightarrow> Inl IndexError | b # _ \<Rightarrow> Inr b)) (\<lambda>body.
        bind_res (wint (wget meta ''layer_id'' (WInt (-1)))) (\<lambda>layer.
        bind_res (wint (wget meta ''original_size'' (WInt 0))) (\<lambda>osize.
        bind_res (wint (wget meta ''compressed_size'' (WInt 0))) (\<lambda>csize.
          Inr \<lparr>ck_request_id = rid, ck_layer_id = layer, ck_compressed_tensor = Some body,
               ck_metadata = inner, ck_original_size = osize, ck_compressed_size = csize,
               ck_is_chunked = False, ck_chunks = None, ck_chunk_metadata = None\<rparr>))))))))"

section \<open>Packing and unpacking\<close>

text \<open>What a packed value becomes again: tuples come back as lists, nothing else changes.\<close>

fun norm_q :: "wval \<Rightarrow> wval" where
  "norm_q (WDict d) = WDict (map (\<lambda>kv. (fst kv, norm_q (snd kv))) d)"
| "norm_q (WList vs) = WList (map norm_q vs)"
| "norm_q (WTuple vs) = WList (map norm_q vs)"
| "norm_q v = v"

fun q_tensors :: "wval \<Rightarrow> tensor list" where
  "q_tensors (WTensor t) = [t]"
| "q_tensors (WDict d) = concat (map (\<lambda>kv. q_tensors (snd kv)) d)"
| "q_tensors (WList vs) = concat (map q_tensors vs)"
| "q_tensors (WTuple vs) = concat (map q_tensors vs)"
| "q_tensors v = []"

text \<open>No list in the value can be taken for a placeholder.\<close>

definition like_placeholder :: "wval list \<Rightarrow> bool" where
  "like_placeholder vs \<longleftrightarrow> length vs = 2 \<and> vs ! 0 = WStr AUX_PLACEHOLDER"

fun unambiguous :: "wval \<Rightarrow> bool" where
  "unambiguous (WDict d) = (\<forall>kv \<in> set d. unambiguous (snd kv))"
| "unambiguous (WList vs) = (\<not> like_placeholder vs \<and> (\<forall>v \<in> set vs. unambiguous v))"
| "unambiguous (WTuple vs) = (\<not> like_placeholder vs \<and> (\<forall>v \<in> set vs. unambiguous v))"
| "unambiguous v = True"

lemma pack_aux:
  "fst (pack_qparams v aux) = aux @ q_tensors v"
  "fst (pack_list vs aux) = aux @ concat (map q_tensors vs)"
  "fst (pack_dict d aux) = aux @ concat (map (\<lambda>kv. q_tensors (snd kv)) d)"
  by (induction v aux and vs aux and d aux rule: pack_qparams_pack_list_pack_dict.induct)
    (auto simp: Let_def prod.case_eq_if)

lemma pack_no_tensor:
  "\<not> has_tensor (snd (pack_qparams v aux))"
  "\<forall>x \<in> set (snd (pack_list vs aux)). \<not> has_tensor x"
  "\<forall>kv \<in> set (snd (pack_dict d aux)). \<not> has_tensor (snd kv)"
  by (induction v aux and vs aux and d aux rule: pack_qparams_pack_list_pack_dict.induct)
    (auto simp: Let_def prod.case_eq_if)

lemma pack_str: "snd (pack_qparams v aux) = WStr s \<longleftrightarrow> v = WStr s"
  by (cases v) (auto simp: Let_def prod.case_eq_if)

lemma is_aux_placeholder_list: "is_aux_placeholder (WList vs) \<longleftrightarrow> like_placeholder vs"
proof -
  consider "vs = []" | x where "vs = [x]" | x y where "vs = [x, y]" | x y z zs where "vs = x # y # z # zs"
    by (metis list.exhaust)
  then show ?thesis
    by cases (auto simp: is_aux_placeholder_def like_placeholder_def split: wval.splits)
qed

lemma pack_list_placeholder: "like_placeholder (snd (pack_list vs aux)) \<longleftrightarrow> like_placeholder vs"
proof -
  consider "vs = []" | x where "vs = [x]" | x y where "vs = [x, y]" | x y z zs where "vs = x # y # z # zs"
    by (metis list.exhaust)
  then show ?thesis
    by cases (auto simp: like_placeholder_def Let_def prod.case_eq_if pack_str)
qed

lemma aux_item_at: "aux_item (aux @ t # ext) (WInt (int (length aux))) = Inr (WTensor t)"
  by (simp add: aux_item_def Let_def)

text \<open>Unpacking with any extension of the tensors collected so far gives the value back.\<close>

lemma pack_unpack:
  "unambiguous v \<Longrightarrow> unpack_qparams (aux @ q_tensors v @ ext) (snd (pack_qparams v aux)) = Inr (norm_q v)"
  "\<forall>v \<in> set vs. unambiguous v \<Longrightarrow>
     unpack_list (aux @ concat (map q_tensors vs) @ ext) (snd (pack_list vs aux)) = Inr (map norm_q vs)"
  "\<forall>kv \<in> set d. unambiguous (snd kv) \<Longrightarrow>
     unpack_dict (aux @ concat (map (\<lambda>kv. q_tensors (snd kv)) d) @ ext) (snd (pack_dict d aux)) =
       Inr (map (\<lambda>kv. (fst kv, norm_q (snd kv))) d)"
proof (induction v aux and vs aux and d aux arbitrary: ext and ext and ext
    rule: pack_qparams_pack_list_pack_dict.induct)
  case (1 t aux)
  then show ?case by (simp add: is_aux_placeholder_def aux_item_at)
next
  case (3 vs aux)
  then show ?case
    by (simp add: Let_def prod.case_eq_if is_aux_placeholder_list pack_list_placeholder)
next
  case (4 vs aux)
  then show ?case
    by (simp add: Let_def prod.case_eq_if is_aux_placeholder_list pack_list_placeholder)
next
  case (7 v vs aux)
  have "unpack_qparams (aux @ q_tensors v @ concat (map q_tensors vs) @ ext) (snd (pack_qparams v aux)) =
      Inr (norm_q v)" using 7 by simp
  moreover have "unpack_list ((aux @ q_tensors v) @ concat (map q_tensors vs) @ ext)
      (snd (pack_list vs (aux @ q_tensors v))) = Inr (map norm_q vs)"
    using 7 by (simp add: pack_aux)
  ultimately show ?case by (simp add: Let_def prod.case_eq_if pack_aux)
next
  case (9 k v d aux)
  have "unpack_qparams (aux @ q_tensors v @ concat (map (\<lambda>kv. q_tensors (snd kv)) d) @ ext)
      (snd (pack_qparams v aux)) = Inr (norm_q v)" using 9 by simp
  moreover have "unpack_dict ((aux @ q_tensors v) @ concat (map (\<lambda>kv. q_tensors (snd kv)) d) @ ext)
      (snd (pack_dict d (aux @ q_tensors v))) = Inr (map (\<lambda>kv. (fst kv, norm_q (snd kv))) d)"
    using 9 by (simp add: pack_aux)
  ultimately show ?case by (simp add: Let_def prod.case_eq_if pack_aux)
qed (auto simp: Let_def prod.case_eq_if)

section \<open>Metadata\<close>

definition md_tensors :: "wval \<Rightarrow> tensor list" where
  "md_tensors md = (case md of WDict d \<Rightarrow> (case map_of d QPARAMS of None \<Rightarrow> [] | Some q \<Rightarrow> q_tensors q) | _ \<Rightarrow> [])"

definition norm_md :: "wval \<Rightarrow> wval" where
  "norm_md md = (case md of
       WDict d \<Rightarrow> (case map_of d QPARAMS of None \<Rightarrow> md | Some q \<Rightarrow> WDict (dict_set d QPARAMS (norm_q q)))
     | _ \<Rightarrow> md)"

text \<open>Tensors of metadata occur only under \<open>quantization_params\<close>, and that value is unambiguous.\<close>

definition valid_md :: "wval \<Rightarrow> bool" where
  "valid_md md \<longleftrightarrow> (\<forall>t \<in> set (md_tensors md). wf_tensor t) \<and> (case md of
       WDict d \<Rightarrow> distinct (map fst d) \<and> (\<forall>kv \<in> set d.
         if fst kv = QPARAMS then unambiguous (snd kv) else \<not> has_tensor (snd kv))
     | _ \<Rightarrow> \<not> has_tensor md)"

lemma dict_set_twice [simp]: "dict_set (dict_set d k v) k w = dict_set d k w"
  by (induction d k v rule: dict_set.induct) auto

lemma dict_set_same: "map_of d k = Some v \<Longrightarrow> dict_set d k v = d"
  by (induction d k v rule: dict_set.induct) auto

lemma in_dict_set: "distinct (map fst d) \<Longrightarrow> kv \<in> set (dict_set d k v) \<Longrightarrow> kv = (k, v) \<or> (kv \<in> set d \<and> fst kv \<noteq> k)"
  by (induction d k v rule: dict_set.induct) (auto simp: image_iff split: if_splits)

lemma pack_metadata_facts:
  assumes "valid_md md"
  shows "fst (pack_metadata md aux) = aux @ md_tensors md"
    and "unpack_metadata (aux @ md_tensors md @ ext) (snd (pack_metadata md aux)) = Inr (norm_md md)"
    and "\<not> has_tensor (snd (pack_metadata md aux))"
proof -
  have all: "fst (pack_metadata md aux) = aux @ md_tensors md \<and>
      unpack_metadata (aux @ md_tensors md @ ext) (snd (pack_metadata md aux)) = Inr (norm_md md) \<and>
      \<not> has_tensor (snd (pack_metadata md aux))"
  proof (cases "\<exists>d q. md = WDict d \<and> map_of d QPARAMS = Some q")
    case True
    then obtain d q where d: "md = WDict d" "map_of d QPARAMS = Some q" by blast
    then have dist: "distinct (map fst d)" and q: "unambiguous q"
      using assms map_of_SomeD[OF d(2)] by (auto simp: valid_md_def)
    have "\<not> has_tensor (snd kv)" if "kv \<in> set (dict_set d QPARAMS (snd (pack_qparams q aux)))" for kv
      using in_dict_set[OF dist that] assms d pack_no_tensor(1) by (auto simp: valid_md_def)
    then show ?thesis using d q
      by (simp add: pack_metadata_def unpack_metadata_def md_tensors_def norm_md_def pack_aux
          pack_unpack prod.case_eq_if Let_def)
  next
    case False
    then show ?thesis using assms
      by (cases md) (auto simp: pack_metadata_def unpack_metadata_def md_tensors_def norm_md_def
          valid_md_def map_of_eq_None_iff image_iff split: if_splits option.splits, force)
  qed
  then show "fst (pack_metadata md aux) = aux @ md_tensors md"
    "unpack_metadata (aux @ md_tensors md @ ext) (snd (pack_metadata md aux)) = Inr (norm_md md)"
    "\<not> has_tensor (snd (pack_metadata md aux))" by auto
qed

lemma pack_metadata_list_facts:
  assumes "\<forall>md \<in> set mds. valid_md md"
  shows "fst (pack_metadata_list mds aux) = aux @ concat (map md_tensors mds) \<and>
    map_res (unpack_metadata (aux @ concat (map md_tensors mds) @ ext)) (snd (pack_metadata_list mds aux)) =
      Inr (map norm_md mds) \<and>
    (\<forall>x \<in> set (snd (pack_metadata_list mds aux)). \<not> has_tensor x)"
  using assms
proof (induction mds arbitrary: aux)
  case (Cons md mds)
  have "valid_md md" using Cons.prems by simp
  note md = pack_metadata_facts[OF this]
  show ?case using Cons.IH[of "aux @ md_tensors md"] Cons.prems md
    by (simp add: Let_def)
qed simp

section \<open>Coalescing and splitting\<close>

lemma padding_aligned:
  "(off + nat ((- int off) mod int n)) mod n = 0" if "0 < n"
proof -
  have "0 \<le> (- int off) mod int n" using that by simp
  then have "int (off + nat ((- int off) mod int n)) = int off + (- int off) mod int n" by simp
  also have "\<dots> mod int n = 0" by (simp add: mod_add_right_eq)
  finally have "int ((off + nat ((- int off) mod int n)) mod n) = 0" by (simp add: of_nat_mod)
  then show ?thesis by simp
qed

lemma expand_one_spec:
  assumes "wf_tensor t" and "storage = pre @ tn_bytes t @ post" and "length pre mod itemsize (tn_dtype t) = 0"
  shows "expand_one storage (aux_spec (length pre) t) = Inr t"
  using view_as_exact[OF assms]
  by (simp add: expand_one_def aux_spec_def wdict_of_def wget_def witem_def)

lemma coalesce_expand_loop:
  assumes "\<forall>t \<in> set ts. wf_tensor t" and "length pre = off"
  shows "map_res (expand_one (pre @ fst (coalesce_loop off ts))) (snd (coalesce_loop off ts)) = Inr ts"
  using assms
proof (induction ts arbitrary: pre off)
  case (Cons t ts)
  let ?pad = "nat ((- int off) mod int (itemsize (tn_dtype t)))"
  let ?rest = "coalesce_loop (off + ?pad + length (tn_bytes t)) ts"
  let ?pre = "pre @ replicate ?pad 0"
  have "expand_one (?pre @ tn_bytes t @ fst ?rest) (aux_spec (length ?pre) t) = Inr t"
    using Cons.prems padding_aligned[of "itemsize (tn_dtype t)" off]
    by (intro expand_one_spec[where post = "fst ?rest"]) auto
  moreover have "map_res (expand_one ((?pre @ tn_bytes t) @ fst ?rest)) (snd ?rest) = Inr ts"
    using Cons.prems by (intro Cons.IH) auto
  ultimately show ?case using Cons.prems by (simp add: Let_def prod.case_eq_if)
qed simp

lemma coalesce_layout_plain: "x \<in> set (snd (coalesce_loop off ts)) \<Longrightarrow> \<not> has_tensor x"
  by (induction off ts rule: coalesce_loop.induct)
    (auto simp: Let_def prod.case_eq_if aux_spec_def shape_val_def)

lemma coalesce_expand:
  assumes "\<forall>t \<in> set aux. wf_tensor t" and "map_of meta (KStr ''aux_layout'') = None"
    and "\<forall>kv \<in> set meta. \<not> has_tensor (snd kv)" and "distinct (map fst meta)"
  shows "expand_aux_tensors (snd (coalesce_aux_tensors meta aux))
      (wget (fst (coalesce_aux_tensors meta aux)) ''aux_layout'' WNone) = Inr aux"
    and "k \<noteq> KStr ''aux_layout'' \<Longrightarrow> map_of (fst (coalesce_aux_tensors meta aux)) k = map_of meta k"
    and "assert_no_tensor (fst (coalesce_aux_tensors meta aux)) = Inr ()"
proof -
  show "expand_aux_tensors (snd (coalesce_aux_tensors meta aux))
      (wget (fst (coalesce_aux_tensors meta aux)) ''aux_layout'' WNone) = Inr aux"
  proof (cases "length aux \<le> 1")
    case True
    then show ?thesis using assms(2) by (simp add: coalesce_aux_tensors_def expand_aux_tensors_def wget_def)
  next
    case False
    have "map_res (expand_one (fst (coalesce_loop 0 aux))) (snd (coalesce_loop 0 aux)) = Inr aux"
      using coalesce_expand_loop[OF assms(1), of "[]" 0] by simp
    then show ?thesis using False
      by (simp add: coalesce_aux_tensors_def expand_aux_tensors_def wget_def wdict_of_def
          byte_tensor_def view_bytes_def prod.case_eq_if)
  qed
  show "k \<noteq> KStr ''aux_layout'' \<Longrightarrow> map_of (fst (coalesce_aux_tensors meta aux)) k = map_of meta k"
    by (simp add: coalesce_aux_tensors_def prod.case_eq_if)
  have "\<not> has_tensor (snd kv)" if "kv \<in> set (fst (coalesce_aux_tensors meta aux))" for kv
  proof (cases "length aux \<le> 1")
    case False
    then have "kv \<in> set meta \<or> snd kv = WDict [(KStr ''mode'', WStr ''coalesced_bytes''),
        (KStr ''tensors'', WList (snd (coalesce_loop 0 aux)))]"
      using that in_dict_set[OF assms(4), of kv "KStr ''aux_layout''"]
      by (fastforce simp: coalesce_aux_tensors_def prod.case_eq_if)
    then show ?thesis using assms(3) coalesce_layout_plain by auto
  qed (use that assms(3) in \<open>simp add: coalesce_aux_tensors_def\<close>)
  then show "assert_no_tensor (fst (coalesce_aux_tensors meta aux)) = Inr ()"
    by (auto simp: assert_no_tensor_def)
qed

lemma split_bytes_Nil [simp]: "split_bytes n [] = []"
  by (simp add: split_bytes.simps)

lemma concat_split_bytes: "0 < n \<Longrightarrow> concat (split_bytes n bs) = bs"
proof (induction n bs rule: split_bytes.induct)
  case (1 n bs)
  then show ?case by (cases "bs = []") (auto simp: split_bytes.simps[of n bs])
qed

lemma split_bytes_bounds: "0 < n \<Longrightarrow> c \<in> set (split_bytes n bs) \<Longrightarrow> 0 < length c \<and> length c \<le> n"
proof (induction n bs rule: split_bytes.induct)
  case (1 n bs)
  then show ?case by (cases "bs = []") (auto simp: split_bytes.simps[of n bs])
qed

lemma restore_tensor_exact:
  assumes "wf_tensor t"
  shows "restore_tensor_from_bytes (tn_bytes t) (tensor_spec t) = Inr t"
  using view_as_exact[OF assms, of "tn_bytes t" "[]" "[]"]
  by (simp add: restore_tensor_from_bytes_def tensor_spec_def wdict_of_def witem_def)

section \<open>Properties\<close>

definition norm_kv :: "(wval \<Rightarrow> string) \<Rightarrow> compressed_kv \<Rightarrow> compressed_kv" where
  "norm_kv repr c =
     c\<lparr>ck_request_id := metadata_request_id repr (norm_md (ck_metadata c)),
       ck_metadata := norm_md (ck_metadata c),
       ck_compressed_tensor := (if ck_is_chunked c then None else ck_compressed_tensor c),
       ck_chunks := (if ck_is_chunked c then ck_chunks c else None),
       ck_chunk_metadata := (if ck_is_chunked c then map_option (map norm_md) (ck_chunk_metadata c) else None)\<rparr>"

text \<open>
  A payload the sender produces: valid metadata, and either a body tensor that is not an
  oversized scalar, or at least one chunk with metadata.
\<close>

definition valid_kv :: "int \<Rightarrow> compressed_kv \<Rightarrow> bool" where
  "valid_kv max_chunk_bytes c \<longleftrightarrow> valid_md (ck_metadata c) \<and>
     (if ck_is_chunked c
      then (\<exists>cs ms. ck_chunks c = Some cs \<and> cs \<noteq> [] \<and> ck_chunk_metadata c = Some ms \<and> ms \<noteq> [] \<and>
              (\<forall>m \<in> set ms. valid_md m))
      else (\<exists>t. ck_compressed_tensor c = Some t \<and> wf_tensor t \<and>
              (int (tn_nbytes t) \<le> max_chunk_bytes \<or> (0 < max_chunk_bytes \<and> tn_shape t \<noteq> []))))"

lemma seal_facts:
  assumes "\<forall>t \<in> set aux. wf_tensor t" and "map_of meta (KStr ''aux_layout'') = None"
    and "\<forall>kv \<in> set meta. \<not> has_tensor (snd kv)" and "distinct (map fst meta)"
  obtains w where "seal meta aux body = Inr w" and "cw_body_chunks w = body"
    and "expand_aux_tensors (cw_aux_tensors w) (wget (cw_meta w) ''aux_layout'' WNone) = Inr aux"
    and "\<And>k. k \<noteq> KStr ''aux_layout'' \<Longrightarrow> map_of (cw_meta w) k = map_of meta k"
  using coalesce_expand[OF assms] that
  by (simp add: seal_def prod.case_eq_if)

lemma byte_chunks_restore:
  assumes "wf_tensor t" and "tn_shape t \<noteq> []" and "0 < n" and "n < int (tn_nbytes t)"
  obtains cs where "split_tensor_bytes t n = Inr cs"
    and "map_res view_bytes cs = Inr (split_bytes (nat n) (tn_bytes t))"
    and "split_bytes (nat n) (tn_bytes t) \<noteq> []"
    and "concat (split_bytes (nat n) (tn_bytes t)) = tn_bytes t"
proof -
  have ne: "tn_bytes t \<noteq> []" using assms by (auto simp: wf_tensor_def)
  have "map_res view_bytes (map byte_tensor bs) = Inr bs" for bs
    by (induction bs) (auto simp: view_bytes_def byte_tensor_def)
  moreover have "split_bytes (nat n) (tn_bytes t) \<noteq> []"
    using ne assms(3) by (simp add: split_bytes.simps)
  ultimately show ?thesis
    using that assms(2,3) concat_split_bytes[of "nat n" "tn_bytes t"]
    by (simp add: split_tensor_bytes_def view_bytes_def)
qed

lemma wire_chunked_round_trip:
  assumes "valid_kv n c" and True: "ck_is_chunked c"
  shows "\<exists>w. build_wire c n = Inr w \<and> restore_from_wire repr w = Inr (norm_kv repr c)"
proof -
  obtain ch chs cm cms where c: "ck_chunks c = Some (ch # chs)" "ck_chunk_metadata c = Some (cm # cms)"
    and vm: "valid_md (ck_metadata c)" and vc: "\<forall>m \<in> set (cm # cms). valid_md m"
    using assms by (auto simp: valid_kv_def neq_Nil_conv)
  let ?p = "pack_metadata (ck_metadata c) []"
  let ?q = "pack_metadata_list (cm # cms) (fst ?p)"
  note md = pack_metadata_facts[OF vm] and ml = pack_metadata_list_facts[OF vc]
  let ?meta = "[(KStr ''is_chunked'', WBool True), (KStr ''layer_id'', WInt (ck_layer_id c)),
                (KStr ''original_size'', WInt (ck_original_size c)),
                (KStr ''compressed_size'', WInt (ck_compressed_size c)),
                (KStr ''metadata'', snd ?p), (KStr ''chunk_metadata'', WList (snd ?q)),
                (KStr ''body_mode'', WStr ''manager_chunks'')]"
  have aux: "fst ?q = md_tensors (ck_metadata c) @ concat (map md_tensors (cm # cms))"
    using md(1)[of "[]"] ml by simp
  have wf: "\<forall>t \<in> set (fst ?q). wf_tensor t" using vm vc unfolding aux by (auto simp: valid_md_def)
  have nt: "\<forall>kv \<in> set ?meta. \<not> has_tensor (snd kv)" using md(3)[of "[]"] ml by simp
  obtain w where w: "seal ?meta (fst ?q) (ch # chs) = Inr w" "cw_body_chunks w = ch # chs"
    "expand_aux_tensors (cw_aux_tensors w) (wget (cw_meta w) ''aux_layout'' WNone) = Inr (fst ?q)"
    "\<And>k. k \<noteq> KStr ''aux_layout'' \<Longrightarrow> map_of (cw_meta w) k = map_of ?meta k"
    using seal_facts[OF wf _ nt, of "ch # chs"] by (auto simp del: pack_metadata_list.simps)
  have "build_wire c n = Inr w"
    using True c w(1) by (simp add: build_wire_def Let_def prod.case_eq_if del: pack_metadata_list.simps)
  moreover have "unpack_metadata (fst ?q) (snd ?p) = Inr (norm_md (ck_metadata c))"
    using md(2)[of "[]"] unfolding aux by simp
  moreover have "map_res (unpack_metadata (fst ?q)) (snd ?q) = Inr (map norm_md (cm # cms))"
    using ml[of "fst ?p" "[]"] md(1)[of "[]"] unfolding aux by simp
  ultimately show ?thesis
    using True c w by (intro exI[of _ w])
      (simp add: restore_from_wire_def Let_def wget_def witem_def norm_kv_def del: pack_metadata_list.simps)
qed

lemma wire_body_round_trip:
  assumes "valid_kv n c" and False: "\<not> ck_is_chunked c"
  shows "\<exists>w. build_wire c n = Inr w \<and> restore_from_wire repr w = Inr (norm_kv repr c)"
proof -
  obtain t where t: "ck_compressed_tensor c = Some t" "wf_tensor t"
    and size: "int (tn_nbytes t) \<le> n \<or> (0 < n \<and> tn_shape t \<noteq> [])" and vm: "valid_md (ck_metadata c)"
    using assms by (auto simp: valid_kv_def)
  let ?p = "pack_metadata (ck_metadata c) []"
  note md = pack_metadata_facts[OF vm]
  let ?meta = "\<lambda>mode. [(KStr ''is_chunked'', WBool False), (KStr ''layer_id'', WInt (ck_layer_id c)),
                (KStr ''original_size'', WInt (ck_original_size c)),
                (KStr ''compressed_size'', WInt (ck_compressed_size c)),
                (KStr ''metadata'', snd ?p), (KStr ''body_mode'', WStr mode),
                (KStr ''body_spec'', tensor_spec t)]"
  have aux: "fst ?p = md_tensors (ck_metadata c)" using md(1)[of "[]"] by simp
  have wf: "\<forall>u \<in> set (fst ?p). wf_tensor u" using vm unfolding aux by (auto simp: valid_md_def)
  have nt: "\<forall>kv \<in> set (?meta mode). \<not> has_tensor (snd kv)" for mode
    using md(3)[of "[]"] by (simp add: tensor_spec_def shape_val_def)
  have un: "unpack_metadata (fst ?p) (snd ?p) = Inr (norm_md (ck_metadata c))"
    using md(2)[of "[]" "[]"] unfolding aux by simp
  show ?thesis
  proof (cases "n < int (tn_nbytes t)")
    case True
    then obtain cs where cs: "split_tensor_bytes t n = Inr cs"
      "map_res view_bytes cs = Inr (split_bytes (nat n) (tn_bytes t))"
      "split_bytes (nat n) (tn_bytes t) \<noteq> []" "concat (split_bytes (nat n) (tn_bytes t)) = tn_bytes t"
      using byte_chunks_restore[OF t(2)] size by auto
    obtain w where w: "seal (?meta ''byte_chunks'') (fst ?p) cs = Inr w" "cw_body_chunks w = cs"
      "expand_aux_tensors (cw_aux_tensors w) (wget (cw_meta w) ''aux_layout'' WNone) = Inr (fst ?p)"
      "\<And>k. k \<noteq> KStr ''aux_layout'' \<Longrightarrow> map_of (cw_meta w) k = map_of (?meta ''byte_chunks'') k"
      using seal_facts[OF wf _ nt[of "''byte_chunks''"], of cs] by auto
    have "build_wire c n = Inr w" using False t True cs(1) w(1)
      by (simp add: build_wire_def Let_def prod.case_eq_if)
    then show ?thesis using False t cs w un restore_tensor_exact[OF t(2)]
      by (intro exI[of _ w]) (simp add: restore_from_wire_def Let_def wget_def witem_def norm_kv_def)
  next
    case small: False
    obtain w where w: "seal (?meta ''single'') (fst ?p) [t] = Inr w" "cw_body_chunks w = [t]"
      "expand_aux_tensors (cw_aux_tensors w) (wget (cw_meta w) ''aux_layout'' WNone) = Inr (fst ?p)"
      "\<And>k. k \<noteq> KStr ''aux_layout'' \<Longrightarrow> map_of (cw_meta w) k = map_of (?meta ''single'') k"
      using seal_facts[OF wf _ nt[of "''single''"], of "[t]"] by auto
    have "build_wire c n = Inr w" using False t small w(1)
      by (simp add: build_wire_def Let_def prod.case_eq_if)
    then show ?thesis using False t w un
      by (intro exI[of _ w]) (simp add: restore_from_wire_def Let_def wget_def witem_def norm_kv_def)
  qed
qed

interpretation wire: lossless_codec "\<lambda>c. valid_kv n c \<and> norm_kv repr c = c" "\<lambda>c. build_wire c n"
  "restore_from_wire repr" for n repr
proof
  fix c
  assume "valid_kv n c \<and> norm_kv repr c = c"
  then have rt: "\<exists>w. build_wire c n = Inr w \<and> restore_from_wire repr w = Inr c"
    using wire_chunked_round_trip[of n c repr] wire_body_round_trip[of n c repr] by (cases "ck_is_chunked c") auto
  then show "\<exists>w. build_wire c n = Inr w" by blast
  fix w
  assume "build_wire c n = Inr w"
  then show "restore_from_wire repr w = Inr c" using rt by auto
qed

text \<open>
  C3: Wire round trip.  Building the wire form of any valid payload succeeds, and restoring it
  gives the payload back: body bytes, shapes and element types, every quantization tensor in
  its place, with tuples of the quantization parameters turned into lists and the request id
  taken from the metadata.
\<close>

theorem wire_round_trip:
  assumes "valid_kv max_chunk_bytes c"
  shows "\<exists>w. build_wire c max_chunk_bytes = Inr w \<and> restore_from_wire repr w = Inr (norm_kv repr c)"
  using assms wire_chunked_round_trip wire_body_round_trip by (cases "ck_is_chunked c") auto

definition demo_kv :: compressed_kv where
  "demo_kv = \<lparr>ck_request_id = ''r1'', ck_layer_id = 3,
     ck_compressed_tensor = Some \<lparr>tn_dtype = Int16, tn_shape = [3], tn_bytes = [1, 2, 3, 4, 5, 6]\<rparr>,
     ck_metadata = WDict [(KStr ''request_id'', WStr ''r1''),
       (KStr ''quantization_params'', WDict [
          (KInt 0, WTensor \<lparr>tn_dtype = UInt8, tn_shape = [1], tn_bytes = [9]\<rparr>),
          (KInt 1, WList [WInt 4, WTensor \<lparr>tn_dtype = Float32, tn_shape = [1], tn_bytes = [1, 2, 3, 4]\<rparr>])])],
     ck_original_size = 12, ck_compressed_size = 6, ck_is_chunked = False, ck_chunks = None,
     ck_chunk_metadata = None\<rparr>"

lemma demo_kv_valid: "valid_kv 4 demo_kv"
  by (simp add: valid_kv_def demo_kv_def valid_md_def md_tensors_def QPARAMS_def wf_tensor_def
      tn_nbytes_def tn_numel_def like_placeholder_def)

theorem wire_round_trip_witness:
  "\<exists>w. build_wire demo_kv 4 = Inr w \<and> restore_from_wire (\<lambda>_. []) w = Inr demo_kv \<and>
     length (cw_body_chunks w) = 2 \<and> map tn_nbytes (cw_aux_tensors w) = [8]"
proof -
  have "norm_kv (\<lambda>_. []) demo_kv = demo_kv" by code_simp
  moreover have "(case build_wire demo_kv 4 of Inr w \<Rightarrow> length (cw_body_chunks w) = 2 \<and>
      map tn_nbytes (cw_aux_tensors w) = [8] | Inl _ \<Rightarrow> False)" by code_simp
  ultimately show ?thesis using wire_round_trip[OF demo_kv_valid, of "\<lambda>_. []"] by auto
qed

text \<open>
  Two different payloads never share a wire form: on payloads that restoring leaves
  unchanged, \<open>build_wire\<close> is injective, and a whole batch of them survives being sent.
\<close>

lemma wire_batch_lossless:
  assumes "\<forall>c \<in> set cs. valid_kv n c \<and> norm_kv repr c = c"
  shows "bind_res (map_res (\<lambda>c. build_wire c n) cs) (map_res (restore_from_wire repr)) = Inr cs \<and>
    inj_on (\<lambda>c. build_wire c n) (set cs)"
  using wire.round_trip_list[of cs n repr] wire.enc_inj[of n _ repr] assms
  by (auto simp: inj_on_def)

lemma wire_batch_lossless_witness:
  "bind_res (map_res (\<lambda>c. build_wire c 4) [demo_kv]) (map_res (restore_from_wire (\<lambda>_. []))) = Inr [demo_kv]"
proof -
  have "norm_kv (\<lambda>_. []) demo_kv = demo_kv" by code_simp
  then show ?thesis using wire_batch_lossless[of "[demo_kv]" 4 "\<lambda>_. []"] demo_kv_valid by simp
qed

text \<open>
  Chunks of a body respect the limit: every byte chunk is non-empty and at most
  \<open>max_chunk_bytes\<close> long, and together they are the body's bytes in order.
\<close>

lemma byte_chunks_bounded:
  assumes "split_tensor_bytes t n = Inr cs"
  shows "(\<forall>c \<in> set cs. 0 < tn_nbytes c \<and> int (tn_nbytes c) \<le> n) \<and> concat (map tn_bytes cs) = tn_bytes t"
proof -
  have n: "0 < n" and cs: "cs = map byte_tensor (split_bytes (nat n) (tn_bytes t))"
    using assms by (auto simp: split_tensor_bytes_def view_bytes_def split: if_splits)
  have "concat (map tn_bytes cs) = tn_bytes t"
    unfolding cs using concat_split_bytes[of "nat n" "tn_bytes t"] n by (simp add: byte_tensor_def comp_def)
  then show ?thesis unfolding cs using split_bytes_bounds[of "nat n" _ "tn_bytes t"] n
    by (fastforce simp: byte_tensor_def tn_nbytes_def tn_numel_def)
qed

lemma byte_chunks_bounded_witness:
  "\<exists>cs. split_tensor_bytes \<lparr>tn_dtype = Int16, tn_shape = [3], tn_bytes = [1, 2, 3, 4, 5, 6]\<rparr> 4 = Inr cs \<and>
     map tn_nbytes cs = [4, 2] \<and> (\<forall>c \<in> set cs. tn_nbytes c \<le> 4)"
proof -
  let ?t = "\<lparr>tn_dtype = Int16, tn_shape = [3], tn_bytes = [1, 2, 3, 4, 5, 6]\<rparr>"
  have c: "split_tensor_bytes ?t 4 = Inr [byte_tensor [1, 2, 3, 4], byte_tensor [5, 6]]" by code_simp
  show ?thesis using byte_chunks_bounded[OF c] c
    by (intro exI[of _ "[byte_tensor [1, 2, 3, 4], byte_tensor [5, 6]]"])
      (simp add: tn_nbytes_def tn_numel_def byte_tensor_def)
qed

end
