(* ===== verification/Nccl_Transport.thy ===== *)
theory Nccl_Transport
  imports Wire_Values "HOL-Library.Sublist"
begin

text \<open>
  The NCCL transport (\<^verbatim>\<open>transport/nccl_transport.py\<close>): the producer's send queue with its
  retry rotation and byte accounting, the consumer's listener, staging credits and completion
  queue, and the two of them as one interleaving system.  Sockets, CUDA events and NCCL are
  the environment: the listener's allocation may fail, completions may fail, and NCCL pairs
  the k-th receive with the k-th send, so the tensors of an accepted message arrive with the
  bytes the producer submitted.  Statistics and log output are left out.
\<close>

section \<open>Messages and sizes\<close>

datatype payload =
    RawPayload tensor
  | BundlePayload wval "tensor list" "tensor list"

fun payload_tensors :: "payload \<Rightarrow> tensor list" where
  "payload_tensors (RawPayload t) = [t]"
| "payload_tensors (BundlePayload meta body aux) = body @ aux"

definition payload_nbytes :: "payload \<Rightarrow> int" where
  "payload_nbytes p = sum_list (map (\<lambda>t. int (tn_nbytes t)) (payload_tensors p))"

type_synonym spec = "nat list \<times> dtype"

definition tensor_spec :: "tensor \<Rightarrow> spec" where
  "tensor_spec t = (tn_shape t, tn_dtype t)"

definition spec_nbytes :: "spec \<Rightarrow> int" where
  "spec_nbytes sp = int (prod_list (fst sp) * itemsize (snd sp))"

text \<open>A freshly allocated tensor once NCCL has filled it.\<close>

definition allocate_from_spec :: "spec \<Rightarrow> byte list \<Rightarrow> tensor" where
  "allocate_from_spec sp bs = \<lparr>tn_dtype = snd sp, tn_shape = fst sp, tn_bytes = bs\<rparr>"

datatype msg =
    InitMsg
  | PutMsg string "string list" spec
  | PutBundleMsg string "string list" wval "spec list" "spec list"

datatype ack = AckOk | AckOom | AckRetry

section \<open>The producer\<close>

record send_item =
  si_request_id :: string
  si_layer_names :: "string list"
  si_payload :: payload
  si_payload_bytes :: int

record sender =
  tx_queue :: "send_item list"
  tx_current :: "send_item option"
  tx_inflight :: int
  tx_pending_bytes :: int
  tx_completions :: "int list"

definition sender_init :: sender where
  "sender_init = \<lparr>tx_queue = [], tx_current = None, tx_inflight = 0, tx_pending_bytes = 0, tx_completions = []\<rparr>"

definition enqueue :: "sender \<Rightarrow> string \<Rightarrow> string list \<Rightarrow> payload \<Rightarrow> sender" where
  "enqueue tx rid layer_names p =
     (let n = payload_nbytes p in
      tx\<lparr>tx_pending_bytes := tx_pending_bytes tx + n,
         tx_queue := tx_queue tx @ [\<lparr>si_request_id = rid, si_layer_names = layer_names,
                                     si_payload = p, si_payload_bytes = n\<rparr>]\<rparr>)"

definition send :: "sender \<Rightarrow> string \<Rightarrow> string list \<Rightarrow> tensor \<Rightarrow> sender" where
  "send tx rid layer_names t = enqueue tx rid layer_names (RawPayload t)"

definition send_bundle ::
    "sender \<Rightarrow> string \<Rightarrow> string list \<Rightarrow> wval \<Rightarrow> tensor list \<Rightarrow> tensor list \<Rightarrow> sender" where
  "send_bundle tx rid layer_names meta body aux = enqueue tx rid layer_names (BundlePayload meta body aux)"

text \<open>When \<open>wait_for_sent\<close> and \<open>wait_for_below\<close> return.\<close>

definition all_sent :: "sender \<Rightarrow> bool" where
  "all_sent tx \<longleftrightarrow> tx_queue tx = [] \<and> tx_inflight tx = 0"

definition below :: "sender \<Rightarrow> int \<Rightarrow> bool" where
  "below tx max_pending \<longleftrightarrow> tx_pending_bytes tx \<le> max_pending"

text \<open>The send loop takes the next item once the previous one has been dealt with.\<close>

definition pop_item :: "sender \<Rightarrow> sender option" where
  "pop_item tx = (case (tx_current tx, tx_queue tx) of
       (None, item # rest) \<Rightarrow> Some (tx\<lparr>tx_queue := rest, tx_current := Some item, tx_inflight := tx_inflight tx + 1\<rparr>)
     | _ \<Rightarrow> None)"

fun message_of :: "send_item \<Rightarrow> msg" where
  "message_of item = (case si_payload item of
       RawPayload t \<Rightarrow> PutMsg (si_request_id item) (si_layer_names item) (tensor_spec t)
     | BundlePayload meta body aux \<Rightarrow>
         PutBundleMsg (si_request_id item) (si_layer_names item) meta (map tensor_spec body) (map tensor_spec aux))"

definition finish_send_item :: "sender \<Rightarrow> int \<Rightarrow> sender" where
  "finish_send_item tx n = tx\<lparr>tx_pending_bytes := tx_pending_bytes tx - n, tx_inflight := tx_inflight tx - 1\<rparr>"

text \<open>Insertion before the first queued item of the same request, or at the end.\<close>

fun retry_insert :: "send_item \<Rightarrow> send_item list \<Rightarrow> send_item list" where
  "retry_insert item [] = [item]"
| "retry_insert item (x # xs) =
     (if si_request_id x = si_request_id item then item # x # xs else x # retry_insert item xs)"

text \<open>
  What the loop does with the answer; \<open>submit_fails\<close> is an exception of the NCCL submission
  after a positive answer.
\<close>

definition react :: "sender \<Rightarrow> ack \<Rightarrow> bool \<Rightarrow> sender" where
  "react tx a submit_fails = (case tx_current tx of
       None \<Rightarrow> tx
     | Some item \<Rightarrow> (let tx' = tx\<lparr>tx_current := None\<rparr> in
         if a = AckRetry then
           tx'\<lparr>tx_inflight := tx_inflight tx' - 1, tx_queue := retry_insert item (tx_queue tx')\<rparr>
         else if a = AckOk \<and> \<not> submit_fails then
           tx'\<lparr>tx_completions := tx_completions tx' @ [si_payload_bytes item]\<rparr>
         else finish_send_item tx' (si_payload_bytes item)))"

text \<open>One turn of the completion loop; a failing event is retired all the same.\<close>

definition retire_send :: "sender \<Rightarrow> sender option" where
  "retire_send tx = (case tx_completions tx of
       [] \<Rightarrow> None
     | n # rest \<Rightarrow> Some (finish_send_item (tx\<lparr>tx_completions := rest\<rparr>) n))"

section \<open>The consumer\<close>

type_synonym delivery = "string list \<times> payload option"

record receiver =
  rx_comm :: bool
  rx_capacity_bytes :: int
  rx_reserved_bytes :: int
  rx_expected_requests :: "string set"
  rx_priority_request :: "string option"
  rx_received :: "(string \<times> delivery list) list"
  rx_completions :: "(string \<times> string list \<times> payload \<times> int) list"

definition receiver_init :: "int \<Rightarrow> receiver" where
  "receiver_init recv_buffer_size =
     \<lparr>rx_comm = False, rx_capacity_bytes = max 1 recv_buffer_size, rx_reserved_bytes = 0,
      rx_expected_requests = {}, rx_priority_request = None, rx_received = [], rx_completions = []\<rparr>"

definition deliver :: "receiver \<Rightarrow> string \<Rightarrow> delivery \<Rightarrow> receiver" where
  "deliver rx rid e = rx\<lparr>rx_received := dict_set (rx_received rx) rid
     ((case map_of (rx_received rx) rid of None \<Rightarrow> [] | Some es \<Rightarrow> es) @ [e])\<rparr>"

definition drain_received :: "receiver \<Rightarrow> receiver \<times> (string \<times> delivery list) list" where
  "drain_received rx = (rx\<lparr>rx_received := []\<rparr>, filter (\<lambda>kv. snd kv \<noteq> []) (rx_received rx))"

definition release_received :: "receiver \<Rightarrow> string \<Rightarrow> int \<Rightarrow> receiver" where
  "release_received rx rid n =
     (if n \<le> 0 then rx
      else rx\<lparr>rx_reserved_bytes := max 0 (rx_reserved_bytes rx - n),
              rx_priority_request := (if rx_priority_request rx = Some rid then None
                                      else rx_priority_request rx)\<rparr>)"

definition set_expected_requests :: "receiver \<Rightarrow> string list \<Rightarrow> receiver" where
  "set_expected_requests rx rids = rx\<lparr>rx_expected_requests := set rids\<rparr>"

definition over_budget :: "receiver \<Rightarrow> int \<Rightarrow> bool" where
  "over_budget rx n \<longleftrightarrow> 0 < rx_reserved_bytes rx \<and> rx_capacity_bytes rx < rx_reserved_bytes rx + n"

text \<open>\<open>_reserve_received\<close> as the listener calls it, without waiting.\<close>

definition reserve_received :: "receiver \<Rightarrow> string \<Rightarrow> int \<Rightarrow> receiver option" where
  "reserve_received rx rid n =
     (if \<not> over_budget rx n then Some (rx\<lparr>rx_reserved_bytes := rx_reserved_bytes rx + n\<rparr>)
      else if rid \<in> rx_expected_requests rx \<and> rx_priority_request rx = None
      then Some (rx\<lparr>rx_priority_request := Some rid, rx_reserved_bytes := rx_reserved_bytes rx + n\<rparr>)
      else None)"

definition mark_failed :: "receiver \<Rightarrow> string \<Rightarrow> receiver" where
  "mark_failed rx rid = deliver rx rid ([], None)"

text \<open>One turn of the completion loop; \<open>ok\<close> says whether the receive event succeeded.\<close>

definition retire_recv :: "receiver \<Rightarrow> bool \<Rightarrow> receiver option" where
  "retire_recv rx ok = (case rx_completions rx of
       [] \<Rightarrow> None
     | (rid, layer_names, p, n) # rest \<Rightarrow>
         (let rx' = rx\<lparr>rx_completions := rest\<rparr> in
          Some (if ok then deliver rx' rid (layer_names, Some p)
                else mark_failed (release_received rx' rid n) rid)))"

text \<open>The tensors of a message once NCCL has filled them with the given bytes, in order.\<close>

definition received_payload :: "msg \<Rightarrow> byte list list \<Rightarrow> payload" where
  "received_payload m data = (case m of
       PutMsg rid names sp \<Rightarrow> RawPayload (allocate_from_spec sp (data ! 0))
     | PutBundleMsg rid names meta body aux \<Rightarrow>
         BundlePayload meta (map2 allocate_from_spec body (take (length body) data))
           (map2 allocate_from_spec aux (drop (length body) data))
     | InitMsg \<Rightarrow> BundlePayload WNone [] [])"

definition msg_nbytes :: "msg \<Rightarrow> int" where
  "msg_nbytes m = (case m of
       InitMsg \<Rightarrow> 0
     | PutMsg rid names sp \<Rightarrow> spec_nbytes sp
     | PutBundleMsg rid names meta body aux \<Rightarrow> sum_list (map spec_nbytes (body @ aux)))"

text \<open>The body shared by \<open>PUT\<close> and \<open>PUT_BUNDLE\<close>; \<open>oom\<close> is a failing device allocation.\<close>

definition accept_put :: "receiver \<Rightarrow> string \<Rightarrow> string list \<Rightarrow> msg \<Rightarrow> byte list list \<Rightarrow> bool \<Rightarrow> receiver \<times> ack" where
  "accept_put rx rid layer_names m data oom =
     (if \<not> rx_comm rx then (mark_failed rx rid, AckOom)
      else case reserve_received rx rid (msg_nbytes m) of
        None \<Rightarrow> (rx, AckRetry)
      | Some rx1 \<Rightarrow>
          if oom then (mark_failed (release_received rx1 rid (msg_nbytes m)) rid, AckOom)
          else (rx1\<lparr>rx_completions := rx_completions rx1 @
                      [(rid, layer_names, received_payload m data, msg_nbytes m)]\<rparr>, AckOk))"

definition listen :: "receiver \<Rightarrow> msg \<Rightarrow> byte list list \<Rightarrow> bool \<Rightarrow> receiver \<times> ack option" where
  "listen rx m data oom = (case m of
       InitMsg \<Rightarrow> (rx\<lparr>rx_comm := True\<rparr>, None)
     | PutMsg rid names sp \<Rightarrow> (let (rx', a) = accept_put rx rid names m data oom in (rx', Some a))
     | PutBundleMsg rid names meta body aux \<Rightarrow>
         (let (rx', a) = accept_put rx rid names m data oom in (rx', Some a)))"

section \<open>The two ends together\<close>

text \<open>
  \<open>nt_ack\<close> is the answer on its way back.  The last three fields are history: everything ever
  enqueued, the payloads handed out by \<open>drain_received\<close> per request, and the requests that
  met a failure.  The threads interleave freely; only the send loop waits for its answer.
\<close>

record net =
  nt_tx :: sender
  nt_rx :: receiver
  nt_ack :: "ack option"
  nt_log :: "send_item list"
  nt_delivered :: "string \<Rightarrow> payload list"
  nt_failed :: "string set"

abbreviation successes :: "delivery list \<Rightarrow> payload list" where
  "successes es \<equiv> List.map_filter snd es"

abbreviation received_for :: "receiver \<Rightarrow> string \<Rightarrow> payload list" where
  "received_for rx rid \<equiv> successes (case map_of (rx_received rx) rid of None \<Rightarrow> [] | Some es \<Rightarrow> es)"

definition net_init :: "int \<Rightarrow> net \<Rightarrow> bool" where
  "net_init cap s \<longleftrightarrow> s = \<lparr>nt_tx = sender_init, nt_rx = receiver_init cap, nt_ack = None, nt_log = [],
     nt_delivered = (\<lambda>_. []), nt_failed = {}\<rparr>"

inductive net_step :: "net \<Rightarrow> net \<Rightarrow> bool" where
  n_send: "(\<And>t. t \<in> set (payload_tensors p) \<Longrightarrow> wf_tensor t) \<Longrightarrow>
    net_step s (s\<lparr>nt_tx := enqueue (nt_tx s) rid names p,
                  nt_log := nt_log s @ [\<lparr>si_request_id = rid, si_layer_names = names, si_payload = p,
                                         si_payload_bytes = payload_nbytes p\<rparr>]\<rparr>)"
| n_init: "net_step s (s\<lparr>nt_rx := fst (listen (nt_rx s) InitMsg [] False)\<rparr>)"
| n_pop: "pop_item (nt_tx s) = Some tx' \<Longrightarrow> nt_ack s = None \<Longrightarrow> net_step s (s\<lparr>nt_tx := tx'\<rparr>)"
| n_listen: "tx_current (nt_tx s) = Some item \<Longrightarrow> nt_ack s = None \<Longrightarrow>
    listen (nt_rx s) (message_of item) (map tn_bytes (payload_tensors (si_payload item))) oom = (rx', Some a) \<Longrightarrow>
    net_step s (s\<lparr>nt_rx := rx', nt_ack := Some a,
                  nt_failed := (if a = AckOom then insert (si_request_id item) (nt_failed s) else nt_failed s)\<rparr>)"
| n_react: "nt_ack s = Some a \<Longrightarrow> net_step s (s\<lparr>nt_tx := react (nt_tx s) a False, nt_ack := None\<rparr>)"
| n_retire_send: "retire_send (nt_tx s) = Some tx' \<Longrightarrow> net_step s (s\<lparr>nt_tx := tx'\<rparr>)"
| n_retire_recv: "retire_recv (nt_rx s) ok = Some rx' \<Longrightarrow>
    net_step s (s\<lparr>nt_rx := rx',
                  nt_failed := (if ok then nt_failed s
                                else insert (fst (hd (rx_completions (nt_rx s)))) (nt_failed s))\<rparr>)"
| n_drain: "net_step s (s\<lparr>nt_rx := fst (drain_received (nt_rx s)),
    nt_delivered := (\<lambda>rid. nt_delivered s rid @
      successes (case map_of (snd (drain_received (nt_rx s))) rid of None \<Rightarrow> [] | Some es \<Rightarrow> es))\<rparr>)"
| n_release: "net_step s (s\<lparr>nt_rx := release_received (nt_rx s) rid n\<rparr>)"
| n_expect: "net_step s (s\<lparr>nt_rx := set_expected_requests (nt_rx s) rids\<rparr>)"

subsection \<open>What has arrived and what is still at the producer\<close>

definition arrived :: "net \<Rightarrow> string \<Rightarrow> payload list" where
  "arrived s rid = nt_delivered s rid @ received_for (nt_rx s) rid @
     map (\<lambda>c. fst (snd (snd c))) (filter (\<lambda>c. fst c = rid) (rx_completions (nt_rx s)))"

definition waiting_items :: "net \<Rightarrow> send_item list" where
  "waiting_items s = (case (tx_current (nt_tx s), nt_ack s) of
       (None, _) \<Rightarrow> []
     | (Some item, Some AckOk) \<Rightarrow> []
     | (Some item, Some AckOom) \<Rightarrow> []
     | (Some item, _) \<Rightarrow> [item]) @ tx_queue (nt_tx s)"

definition of_request :: "string \<Rightarrow> send_item list \<Rightarrow> payload list" where
  "of_request rid items = map si_payload (filter (\<lambda>i. si_request_id i = rid) items)"

lemma of_request_simps [simp]:
  "of_request rid [] = []"
  "of_request rid (i # is) = (if si_request_id i = rid then si_payload i # of_request rid is else of_request rid is)"
  "of_request rid (is @ js) = of_request rid is @ of_request rid js"
  by (simp_all add: of_request_def)

lemma of_request_retry [simp]:
  "of_request rid (retry_insert item q) =
     (if si_request_id item = rid then si_payload item # of_request rid q else of_request rid q)"
  by (induction item q rule: retry_insert.induct) auto

lemma received_payload_of_message:
  assumes "\<forall>t \<in> set (payload_tensors (si_payload item)). wf_tensor t"
  shows "received_payload (message_of item) (map tn_bytes (payload_tensors (si_payload item))) = si_payload item"
proof -
  have re: "map2 allocate_from_spec (map tensor_spec ts) (map tn_bytes ts) = ts" for ts
    by (induction ts) (auto simp: allocate_from_spec_def tensor_spec_def)
  show ?thesis
    by (cases "si_payload item") (simp_all add: received_payload_def allocate_from_spec_def tensor_spec_def re)
qed

lemma successes_append [simp]: "successes (es @ fs) = successes es @ successes fs"
  by (simp add: map_filter_def)

lemma map_of_deliver:
  "map_of (rx_received (deliver rx rid e)) r =
     (if r = rid then Some ((case map_of (rx_received rx) rid of None \<Rightarrow> [] | Some es \<Rightarrow> es) @ [e])
      else map_of (rx_received rx) r)"
  by (simp add: deliver_def)

lemma received_for_deliver:
  "received_for (deliver rx rid e) r = received_for rx r @ (if r = rid then successes [e] else [])"
  by (auto simp: map_of_deliver map_filter_simps)

lemma deliver_other [simp]:
  "rx_completions (deliver rx rid e) = rx_completions rx"
  "rx_completions (release_received rx rid n) = rx_completions rx"
  "rx_received (release_received rx rid n) = rx_received rx"
  by (simp_all add: deliver_def release_received_def)

lemma distinct_deliver: "distinct (map fst (rx_received rx)) \<Longrightarrow> distinct (map fst (rx_received (deliver rx rid e)))"
  by (simp add: deliver_def distinct_dict_set)

lemma listen_put_cases:
  assumes "listen rx (message_of item) data oom = (rx', Some a)"
  obtains (retry) "a = AckRetry" "rx' = rx"
  | (oom) "a = AckOom" "rx_completions rx' = rx_completions rx"
      "\<And>r. received_for rx' r = received_for rx r"
      "distinct (map fst (rx_received rx)) \<Longrightarrow> distinct (map fst (rx_received rx'))"
  | (ok) n where "a = AckOk" "rx_received rx' = rx_received rx"
      "rx_completions rx' = rx_completions rx @
         [(si_request_id item, si_layer_names item, received_payload (message_of item) data, n)]"
proof -
  obtain rid names m where acc: "accept_put rx rid names m data oom = (rx', a)"
    and m: "m = message_of item" "rid = si_request_id item" "names = si_layer_names item"
    using assms by (cases "si_payload item") (auto simp: listen_def Let_def split: prod.splits)
  have fail: "received_for (mark_failed x rid) r = received_for x r" for x r
    unfolding mark_failed_def received_for_deliver by (simp add: map_filter_simps)
  consider "\<not> rx_comm rx" "rx' = mark_failed rx rid" "a = AckOom"
    | "rx' = rx" "a = AckRetry"
    | rx1 where "reserve_received rx rid (msg_nbytes m) = Some rx1" "a = AckOom"
        "rx' = mark_failed (release_received rx1 rid (msg_nbytes m)) rid"
    | rx1 where "reserve_received rx rid (msg_nbytes m) = Some rx1" "a = AckOk"
        "rx' = rx1\<lparr>rx_completions := rx_completions rx1 @ [(rid, names, received_payload m data, msg_nbytes m)]\<rparr>"
    using acc by (auto simp: accept_put_def split: if_splits option.splits)
  then show ?thesis
  proof cases
    case 1
    then show ?thesis using oom fail by (simp add: mark_failed_def distinct_deliver)
  next
    case 2
    then show ?thesis using retry by simp
  next
    case (3 rx1)
    have "rx_received rx1 = rx_received rx" "rx_completions rx1 = rx_completions rx"
      using 3(1) by (auto simp: reserve_received_def split: if_splits)
    then show ?thesis using 3 oom fail by (simp add: mark_failed_def distinct_deliver)
  next
    case (4 rx1)
    have "rx_received rx1 = rx_received rx" "rx_completions rx1 = rx_completions rx"
      using 4(1) by (auto simp: reserve_received_def split: if_splits)
    then show ?thesis using 4 ok m by simp
  qed
qed

text \<open>The part of the invariant about one request.\<close>

definition flows :: "net \<Rightarrow> string \<Rightarrow> bool" where
  "flows s rid \<longleftrightarrow> (\<exists>handled. of_request rid (nt_log s) = handled @ of_request rid (waiting_items s) \<and>
     subseq (arrived s rid) handled \<and> (rid \<notin> nt_failed s \<longrightarrow> arrived s rid = handled))"

lemma flows_same:
  assumes "flows s rid" and "of_request rid (nt_log t) = of_request rid (nt_log s) @ new"
    and "of_request rid (waiting_items t) = of_request rid (waiting_items s) @ new"
    and "arrived t rid = arrived s rid" and "nt_failed s \<subseteq> nt_failed t"
  shows "flows t rid"
  using assms by (auto simp: flows_def)

lemma flows_handled:
  assumes "flows s rid" and "nt_log t = nt_log s"
    and "of_request rid (waiting_items s) = fin @ of_request rid (waiting_items t)"
    and "nt_failed s \<subseteq> nt_failed t"
    and "arrived t rid = arrived s rid @ fin \<or> (rid \<in> nt_failed t \<and> subseq (arrived t rid) (arrived s rid))"
  shows "flows t rid"
proof -
  obtain handled where h: "of_request rid (nt_log s) = handled @ of_request rid (waiting_items s)"
    "subseq (arrived s rid) handled" "rid \<notin> nt_failed s \<longrightarrow> arrived s rid = handled"
    using assms(1) by (auto simp: flows_def)
  show ?thesis unfolding flows_def
  proof (intro exI conjI)
    show "of_request rid (nt_log t) = (handled @ fin) @ of_request rid (waiting_items t)"
      using h(1) assms(2,3) by simp
    show "subseq (arrived t rid) (handled @ fin)"
      using assms(5) h(2) by (auto intro: list_emb_append_mono subseq_order.trans)
    show "rid \<notin> nt_failed t \<longrightarrow> arrived t rid = handled @ fin"
      using assms(4,5) h(3) by auto
  qed
qed

definition net_ok :: "net \<Rightarrow> bool" where
  "net_ok s \<longleftrightarrow>
     (\<forall>item \<in> set (tx_queue (nt_tx s)) \<union> set_option (tx_current (nt_tx s)).
        \<forall>t \<in> set (payload_tensors (si_payload item)). wf_tensor t) \<and>
     (nt_ack s \<noteq> None \<longrightarrow> tx_current (nt_tx s) \<noteq> None) \<and> distinct (map fst (rx_received (nt_rx s)))"

lemma set_retry_insert [simp]: "set (retry_insert item q) = insert item (set q)"
  by (induction item q rule: retry_insert.induct) auto

lemma retire_recv_cases:
  assumes "retire_recv rx ok = Some rx'"
  obtains rid names p n rest where "rx_completions rx = (rid, names, p, n) # rest"
    and "rx_completions rx' = rest"
    and "\<And>r. received_for rx' r = received_for rx r @ (if ok \<and> r = rid then [p] else [])"
    and "distinct (map fst (rx_received rx)) \<Longrightarrow> distinct (map fst (rx_received rx'))"
proof -
  obtain rid names p n rest where c: "rx_completions rx = (rid, names, p, n) # rest"
    and rx': "rx' = (if ok then deliver (rx\<lparr>rx_completions := rest\<rparr>) rid (names, Some p)
                else mark_failed (release_received (rx\<lparr>rx_completions := rest\<rparr>) rid n) rid)"
    using assms by (auto simp: retire_recv_def Let_def split: list.splits prod.splits)
  have "received_for rx' r = received_for rx r @ (if ok \<and> r = rid then [p] else [])" for r
    unfolding rx' mark_failed_def
    by (cases ok) (simp_all only: received_for_deliver if_True if_False, simp_all add: map_filter_simps)
  then show ?thesis using that c rx' by (simp add: mark_failed_def distinct_deliver)
qed

lemma net_ok_step: "net_step s t \<Longrightarrow> net_ok s \<Longrightarrow> net_ok t"
proof (induction rule: net_step.induct)
  case (n_listen s item oom rx' a)
  from n_listen(3) show ?case by (cases rule: listen_put_cases) (use n_listen in \<open>auto simp: net_ok_def\<close>)
next
  case (n_retire_recv s ok rx')
  from n_retire_recv(1) show ?case by (rule retire_recv_cases) (use n_retire_recv in \<open>auto simp: net_ok_def\<close>)
qed (auto simp: net_ok_def enqueue_def listen_def pop_item_def react_def finish_send_item_def Let_def
    retire_send_def drain_received_def release_received_def set_expected_requests_def
    split: option.splits list.splits if_splits)

lemma received_after_drain: "distinct (map fst d) \<Longrightarrow>
   successes (case map_of (filter (\<lambda>kv. snd kv \<noteq> []) d) rid of None \<Rightarrow> [] | Some es \<Rightarrow> es) =
   successes (case map_of d rid of None \<Rightarrow> [] | Some es \<Rightarrow> es)"
proof (induction d)
  case (Cons kv d)
  have "map_of (filter (\<lambda>kv. snd kv \<noteq> []) d) (fst kv) = None"
    using Cons.prems by (auto simp: map_of_eq_None_iff)
  then show ?case using Cons by (cases kv) (auto simp: map_filter_simps)
qed simp

lemma flows_step:
  assumes "net_step s t" and "net_ok s" and "flows s rid"
  shows "flows t rid"
  using assms
proof (induction rule: net_step.induct)
  case (n_send p s r names)
  let ?item = "\<lparr>si_request_id = r, si_layer_names = names, si_payload = p, si_payload_bytes = payload_nbytes p\<rparr>"
  show ?case
    by (rule flows_same[OF n_send(3), where new = "of_request rid [?item]"])
      (auto simp: enqueue_def waiting_items_def arrived_def Let_def split: option.splits)
next
  case (n_init s)
  then show ?case by (auto intro!: flows_same[OF n_init(2), where new = "[]"]
      simp: listen_def waiting_items_def arrived_def)
next
  case (n_pop s tx')
  then show ?case by (auto intro!: flows_same[OF n_pop(4), where new = "[]"]
      simp: pop_item_def waiting_items_def arrived_def split: option.splits list.splits)
next
  case (n_listen s item oom rx' a)
  have wf: "\<forall>t \<in> set (payload_tensors (si_payload item)). wf_tensor t"
    using n_listen by (auto simp: net_ok_def)
  have w: "waiting_items s = item # tx_queue (nt_tx s)" using n_listen by (simp add: waiting_items_def)
  from n_listen(3) show ?case
  proof (cases rule: listen_put_cases)
    case retry
    then show ?thesis using n_listen w
      by (intro flows_same[OF n_listen(5), where new = "[]"]) (auto simp: waiting_items_def arrived_def)
  next
    case oom
    then show ?thesis using n_listen w
      by (intro flows_handled[OF n_listen(5), where fin = "of_request rid [item]"])
        (auto simp: waiting_items_def arrived_def)
  next
    case (ok n)
    then show ?thesis using n_listen w received_payload_of_message[OF wf]
      by (intro flows_handled[OF n_listen(5), where fin = "of_request rid [item]"])
        (auto simp: waiting_items_def arrived_def)
  qed
next
  case (n_react s a)
  then obtain item where "tx_current (nt_tx s) = Some item" by (auto simp: net_ok_def)
  then show ?case using n_react
    by (cases a) (auto intro!: flows_same[OF n_react(3), where new = "[]"]
        simp: react_def finish_send_item_def waiting_items_def arrived_def Let_def)
next
  case (n_retire_send s tx')
  then show ?case by (auto intro!: flows_same[OF n_retire_send(3), where new = "[]"]
      simp: retire_send_def finish_send_item_def waiting_items_def arrived_def split: list.splits option.splits)
next
  case (n_retire_recv s ok rx')
  from n_retire_recv(1) obtain r names p n rest
    where c: "rx_completions (nt_rx s) = (r, names, p, n) # rest" "rx_completions rx' = rest"
      "\<And>q. received_for rx' q = received_for (nt_rx s) q @ (if ok \<and> q = r then [p] else [])"
    by (rule retire_recv_cases) blast
  let ?t = "s\<lparr>nt_rx := rx', nt_failed := (if ok then nt_failed s
              else insert (fst (hd (rx_completions (nt_rx s)))) (nt_failed s))\<rparr>"
  have w: "waiting_items ?t = waiting_items s" by (simp add: waiting_items_def)
  have "arrived ?t rid = arrived s rid \<or> (\<not> ok \<and> rid = r \<and> subseq (arrived ?t rid) (arrived s rid))"
    using c by (cases ok) (auto simp: arrived_def intro!: list_emb_append_mono list_emb_Cons)
  then show ?case using w c(1)
    by (intro flows_handled[OF n_retire_recv(3), where fin = "[]"]) auto
next
  case (n_drain s)
  then have "distinct (map fst (rx_received (nt_rx s)))" by (simp add: net_ok_def)
  then show ?case using received_after_drain[of "rx_received (nt_rx s)" rid]
    by (intro flows_same[OF n_drain(2), where new = "[]"])
      (auto simp: drain_received_def waiting_items_def arrived_def map_filter_simps)
next
  case (n_release s r n)
  then show ?case by (auto intro!: flows_same[OF n_release(2), where new = "[]"] simp: waiting_items_def arrived_def)
next
  case (n_expect s rids)
  then show ?case by (auto intro!: flows_same[OF n_expect(2), where new = "[]"]
      simp: waiting_items_def arrived_def set_expected_requests_def)
qed

interpretation nccl: inductive_invariant "net_init cap" net_step "\<lambda>s. net_ok s \<and> (\<forall>rid. flows s rid)" for cap
proof
  fix s
  show "net_init cap s \<Longrightarrow> net_ok s \<and> (\<forall>rid. flows s rid)"
    by (simp add: net_init_def net_ok_def flows_def sender_init_def receiver_init_def waiting_items_def
        arrived_def map_filter_simps)
next
  fix s t
  assume "net_ok s \<and> (\<forall>rid. flows s rid)" "net_step s t"
  then show "net_ok t \<and> (\<forall>rid. flows t rid)" using net_ok_step flows_step by blast
qed

section \<open>Byte accounting of the producer\<close>

definition tx_accounts :: "net \<Rightarrow> bool" where
  "tx_accounts s \<longleftrightarrow> (let tx = nt_tx s in
     tx_pending_bytes tx = sum_list (map si_payload_bytes (tx_queue tx))
        + (case tx_current tx of None \<Rightarrow> 0 | Some i \<Rightarrow> si_payload_bytes i) + sum_list (tx_completions tx) \<and>
     tx_inflight tx = (case tx_current tx of None \<Rightarrow> 0 | Some i \<Rightarrow> 1) + int (length (tx_completions tx)) \<and>
     (\<forall>i \<in> set (tx_queue tx) \<union> set_option (tx_current tx). 0 \<le> si_payload_bytes i) \<and>
     (\<forall>n \<in> set (tx_completions tx). 0 \<le> n))"

lemma sum_retry_insert [simp]:
  "sum_list (map si_payload_bytes (retry_insert item q)) =
     si_payload_bytes item + sum_list (map si_payload_bytes q)"
  by (induction item q rule: retry_insert.induct) auto

lemma payload_nbytes_nonneg [simp]: "0 \<le> payload_nbytes p"
  unfolding payload_nbytes_def by (rule sum_list_nonneg_int) simp

interpretation tx: inductive_invariant "net_init cap" net_step tx_accounts for cap
proof
  fix s
  show "net_init cap s \<Longrightarrow> tx_accounts s" by (simp add: net_init_def tx_accounts_def sender_init_def)
next
  fix s t
  assume acc: "tx_accounts s" and step: "net_step s t"
  from step acc show "tx_accounts t"
    by (induction rule: net_step.induct)
      (auto simp: tx_accounts_def enqueue_def pop_item_def react_def finish_send_item_def retire_send_def Let_def
        split: option.splits list.splits if_splits)
qed

section \<open>Properties of the connection\<close>


text \<open>
  The byte counter behind \<open>wait_for_below\<close> is exact: in every reachable state the pending
  bytes are those of the queued items, the item in hand and the submitted items not yet
  retired; in particular they are never negative and are zero exactly when
  \<open>wait_for_sent\<close> returns with nothing of positive size left.
\<close>

lemma pending_bytes_exact:
  assumes "reach (net_init cap) net_step s"
  shows "tx_pending_bytes (nt_tx s) = sum_list (map si_payload_bytes (tx_queue (nt_tx s)))
      + (case tx_current (nt_tx s) of None \<Rightarrow> 0 | Some i \<Rightarrow> si_payload_bytes i)
      + sum_list (tx_completions (nt_tx s)) \<and>
    0 \<le> tx_pending_bytes (nt_tx s) \<and> 0 \<le> tx_inflight (nt_tx s) \<and>
    (all_sent (nt_tx s) \<longrightarrow> tx_pending_bytes (nt_tx s) = 0 \<and> tx_current (nt_tx s) = None \<and>
       tx_completions (nt_tx s) = [])"
proof -
  have acc: "tx_accounts s" by (rule tx.reach_inv[OF assms])
  then have "0 \<le> sum_list (map si_payload_bytes (tx_queue (nt_tx s)))"
    "0 \<le> sum_list (tx_completions (nt_tx s))"
    by (auto simp: tx_accounts_def Let_def intro!: sum_list_nonneg_int sum_list_nonneg)
  then show ?thesis using acc
    by (auto simp: tx_accounts_def Let_def all_sent_def split: option.splits)
qed

subsection \<open>A short run\<close>

definition demo_tensor :: tensor where
  "demo_tensor = \<lparr>tn_dtype = UInt8, tn_shape = [2], tn_bytes = [7, 8]\<rparr>"

definition demo_item :: send_item where
  "demo_item = \<lparr>si_request_id = ''r'', si_layer_names = [''l0''], si_payload = RawPayload demo_tensor,
     si_payload_bytes = 2\<rparr>"

definition demo_net :: net where
  "demo_net = \<lparr>nt_tx = sender_init\<lparr>tx_current := Some demo_item, tx_inflight := 1, tx_pending_bytes := 2\<rparr>,
     nt_rx = (receiver_init 100)\<lparr>rx_comm := True, rx_reserved_bytes := 2,
        rx_completions := [(''r'', [''l0''], RawPayload demo_tensor, 2)]\<rparr>,
     nt_ack = Some AckOk, nt_log = [demo_item], nt_delivered = (\<lambda>_. []), nt_failed = {}\<rparr>"

lemma demo_net_reachable: "reach (net_init 100) net_step demo_net"
proof -
  let ?s0 = "\<lparr>nt_tx = sender_init, nt_rx = receiver_init 100, nt_ack = None, nt_log = [],
     nt_delivered = (\<lambda>_. []), nt_failed = {}\<rparr>"
  let ?s1 = "?s0\<lparr>nt_rx := (receiver_init 100)\<lparr>rx_comm := True\<rparr>\<rparr>"
  let ?s2 = "?s1\<lparr>nt_tx := sender_init\<lparr>tx_queue := [demo_item], tx_pending_bytes := 2\<rparr>, nt_log := [demo_item]\<rparr>"
  let ?s3 = "?s2\<lparr>nt_tx := sender_init\<lparr>tx_current := Some demo_item, tx_inflight := 1, tx_pending_bytes := 2\<rparr>\<rparr>"
  have s1: "net_step ?s0 ?s1" using n_init[of ?s0] by (simp add: listen_def)
  have s2: "net_step ?s1 ?s2"
    using n_send[of "RawPayload demo_tensor" ?s1 "''r''" "[''l0'']"]
    by (simp add: demo_tensor_def wf_tensor_def tn_nbytes_def tn_numel_def enqueue_def demo_item_def
        payload_nbytes_def sender_init_def)
  have s3: "net_step ?s2 ?s3"
    using n_pop[of ?s2 "nt_tx ?s3"] by (simp add: pop_item_def sender_init_def)
  have s4: "net_step ?s3 demo_net"
    using n_listen[of ?s3 demo_item False "nt_rx demo_net" AckOk]
    by (simp add: sender_init_def listen_def accept_put_def reserve_received_def over_budget_def receiver_init_def
        demo_item_def demo_tensor_def tensor_spec_def spec_nbytes_def msg_nbytes_def received_payload_def
        allocate_from_spec_def demo_net_def)
  have "reach (net_init 100) net_step ?s0" by (rule reach_init) (simp add: net_init_def)
  from reach_step[OF reach_step[OF reach_step[OF reach_step[OF this s1] s2] s3] s4]
  show ?thesis .
qed


lemma pending_bytes_exact_witness:
  "tx_pending_bytes (nt_tx demo_net) = 2 \<and>
   tx_pending_bytes (nt_tx demo_net) = sum_list (map si_payload_bytes (tx_queue (nt_tx demo_net)))
      + (case tx_current (nt_tx demo_net) of None \<Rightarrow> 0 | Some i \<Rightarrow> si_payload_bytes i)
      + sum_list (tx_completions (nt_tx demo_net))"
proof -
  have "tx_pending_bytes (nt_tx demo_net) = 2" by code_simp
  then show ?thesis using pending_bytes_exact[OF demo_net_reachable] by blast
qed

section \<open>Retry rotation\<close>

text \<open>One turn of the send loop that ends in a retry: the head is taken, refused and put back.\<close>

definition retry_turn :: "sender \<Rightarrow> sender" where
  "retry_turn tx = (case pop_item tx of None \<Rightarrow> tx | Some tx' \<Rightarrow> react tx' AckRetry False)"

definition rotate_queue :: "send_item list \<Rightarrow> send_item list" where
  "rotate_queue q = (case q of [] \<Rightarrow> [] | item # rest \<Rightarrow> retry_insert item rest)"

lemma retry_turn_queue:
  "tx_current tx = None \<Longrightarrow> retry_turn tx = tx\<lparr>tx_queue := rotate_queue (tx_queue tx)\<rparr>"
  by (auto simp: retry_turn_def pop_item_def react_def rotate_queue_def Let_def split: list.splits)

lemma retry_turns_queue:
  "tx_current tx = None \<Longrightarrow> (retry_turn ^^ k) tx = tx\<lparr>tx_queue := (rotate_queue ^^ k) (tx_queue tx)\<rparr>"
  by (induction k) (simp_all add: retry_turn_queue)

lemma retry_insert_fresh:
  "si_request_id item \<notin> si_request_id ` set q \<Longrightarrow> retry_insert item q = q @ [item]"
  by (induction item q rule: retry_insert.induct) auto

lemma rotate_queue_distinct:
  "distinct (map si_request_id q) \<Longrightarrow> (rotate_queue ^^ k) q = rotate k q"
proof (induction k)
  case (Suc k)
  have "distinct (map si_request_id (rotate k q))" using Suc.prems by (simp add: rotate_map[symmetric])
  then have "rotate_queue (rotate k q) = rotate1 (rotate k q)"
    by (cases "rotate k q") (auto simp: rotate_queue_def retry_insert_fresh)
  then show ?case using Suc by simp
qed simp

text \<open>
  No starvation among single-item requests: if every queued item belongs to a different
  request, then k refusals in a row bring the item at position k to the head of the queue,
  so every request is tried again within one round, and the byte counters do not move.
\<close>

lemma retry_round_robin:
  assumes "tx_current tx = None" and "distinct (map si_request_id (tx_queue tx))" and "k < length (tx_queue tx)"
  shows "hd (tx_queue ((retry_turn ^^ k) tx)) = tx_queue tx ! k \<and>
    length (tx_queue ((retry_turn ^^ k) tx)) = length (tx_queue tx) \<and>
    tx_pending_bytes ((retry_turn ^^ k) tx) = tx_pending_bytes tx"
proof -
  have "tx_queue tx \<noteq> []" using assms(3) by auto
  from hd_rotate_conv_nth[OF this, of k] show ?thesis
    using assms rotate_queue_distinct[OF assms(2), of k] by (simp add: retry_turns_queue)
qed

lemma retry_round_robin_witness:
  "hd (tx_queue ((retry_turn ^^ 1) (sender_init\<lparr>tx_queue := [demo_item, demo_item\<lparr>si_request_id := ''q''\<rparr>]\<rparr>))) =
     demo_item\<lparr>si_request_id := ''q''\<rparr>"
  using retry_round_robin[of "sender_init\<lparr>tx_queue := [demo_item, demo_item\<lparr>si_request_id := ''q''\<rparr>]\<rparr>" 1]
  by (simp add: demo_item_def sender_init_def)

text \<open>
  Two items of one request at the head block the queue: while the receiver keeps refusing
  the first of them, every turn puts it back in front, so no item of any other request is
  tried, however many turns pass.
\<close>

lemma retry_starves_others:
  assumes "tx_current tx = None" and "tx_queue tx = a # b # rest" and "si_request_id a = si_request_id b"
  shows "tx_queue ((retry_turn ^^ k) tx) = a # b # rest"
proof -
  have "(rotate_queue ^^ k) (a # b # rest) = a # b # rest"
    using assms(3) by (induction k) (auto simp: rotate_queue_def)
  then show ?thesis using assms by (simp add: retry_turns_queue)
qed

lemma retry_starves_others_witness:
  "tx_queue ((retry_turn ^^ 1000) (sender_init\<lparr>tx_queue :=
       [demo_item, demo_item, demo_item\<lparr>si_request_id := ''urgent''\<rparr>]\<rparr>)) =
     [demo_item, demo_item, demo_item\<lparr>si_request_id := ''urgent''\<rparr>]"
  by (rule retry_starves_others) (simp_all add: sender_init_def)

end
