(* ===== verification/Recv_Credits.thy ===== *)
theory Recv_Credits
  imports Nccl_Transport
begin

text \<open>
  The receiver's staging credits (\<^verbatim>\<open>transport/nccl_transport.py\<close>, \<open>_reserve_received\<close>,
  \<open>release_received\<close>, \<open>set_expected_requests\<close>) as a machine of their own: the payloads that
  hold credit are listed with the way they were admitted, every admission goes through
  \<open>reserve_received\<close> and every release returns the bytes of a payload that holds credit.
\<close>

section \<open>The credit machine\<close>

record holding =
  hl_request :: string
  hl_bytes :: int
  hl_overflow :: bool

type_synonym credit_state = "receiver \<times> holding list"

text \<open>
  \<open>limit\<close> bounds the size of one payload.  With \<open>solo\<close>, a request holds credit for at most
  one payload at a time.
\<close>

inductive credit_step :: "bool \<Rightarrow> int \<Rightarrow> credit_state \<Rightarrow> credit_state \<Rightarrow> bool" for solo limit where
  admit: "reserve_received rx rid n = Some rx' \<Longrightarrow> 0 \<le> n \<Longrightarrow> n \<le> limit \<Longrightarrow>
    (solo \<longrightarrow> rid \<notin> hl_request ` set held) \<Longrightarrow>
    credit_step solo limit (rx, held)
      (rx', held @ [\<lparr>hl_request = rid, hl_bytes = n, hl_overflow = over_budget rx n\<rparr>])"
| free: "held = hs @ h # hs' \<Longrightarrow>
    credit_step solo limit (rx, held) (release_received rx (hl_request h) (hl_bytes h), hs @ hs')"
| expect: "credit_step solo limit (rx, held) (set_expected_requests rx rids, held)"

definition credit_init :: "int \<Rightarrow> credit_state \<Rightarrow> bool" where
  "credit_init cap s \<longleftrightarrow> s = (receiver_init cap, [])"

abbreviation bytes_of :: "holding list \<Rightarrow> int" where
  "bytes_of hs \<equiv> sum_list (map hl_bytes hs)"

abbreviation overflow_of :: "holding list \<Rightarrow> holding list" where
  "overflow_of hs \<equiv> filter hl_overflow hs"

definition credit_ok :: "int \<Rightarrow> int \<Rightarrow> credit_state \<Rightarrow> bool" where
  "credit_ok cap limit s \<longleftrightarrow>
     rx_capacity_bytes (fst s) = max 1 cap \<and> rx_reserved_bytes (fst s) = bytes_of (snd s) \<and>
     (\<forall>h \<in> set (snd s). 0 \<le> hl_bytes h \<and> hl_bytes h \<le> limit) \<and>
     bytes_of (filter (\<lambda>h. \<not> hl_overflow h) (snd s)) \<le> max (max 1 cap) limit"

lemma bytes_nonneg: "(\<forall>h \<in> set hs. 0 \<le> hl_bytes h) \<Longrightarrow> 0 \<le> bytes_of hs"
  by (rule sum_list_nonneg_int) simp

lemma bytes_filter_le: "(\<forall>h \<in> set hs. 0 \<le> hl_bytes h) \<Longrightarrow> bytes_of (filter P hs) \<le> bytes_of hs"
  using sum_list_filter_split[of hl_bytes hs P] bytes_nonneg[of "filter (\<lambda>h. \<not> P h) hs"] by simp

lemma reserve_facts:
  assumes "reserve_received rx rid n = Some rx'"
  shows "rx_reserved_bytes rx' = rx_reserved_bytes rx + n" and "rx_capacity_bytes rx' = rx_capacity_bytes rx"
    and "over_budget rx n \<Longrightarrow> rx_priority_request rx = None \<and> rx_priority_request rx' = Some rid"
    and "\<not> over_budget rx n \<Longrightarrow> rx_priority_request rx' = rx_priority_request rx"
  using assms by (auto simp: reserve_received_def split: if_splits)

lemma release_facts:
  assumes "0 \<le> n" and "n \<le> rx_reserved_bytes rx"
  shows "rx_reserved_bytes (release_received rx rid n) = rx_reserved_bytes rx - n"
    and "rx_capacity_bytes (release_received rx rid n) = rx_capacity_bytes rx"
  using assms by (auto simp: release_received_def)

interpretation credit: inductive_invariant "credit_init cap" "credit_step solo limit" "credit_ok cap limit"
  for cap solo limit
proof
  fix s
  show "credit_init cap s \<Longrightarrow> credit_ok cap limit s"
    by (auto simp: credit_init_def credit_ok_def receiver_init_def)
next
  fix s t
  assume ok: "credit_ok cap limit s" and step: "credit_step solo limit s t"
  from step ok show "credit_ok cap limit t"
  proof (induction rule: credit_step.induct)
    case (admit rx rid n rx' held)
    note rf = reserve_facts[OF admit(1)]
    have nn: "\<forall>h \<in> set held. 0 \<le> hl_bytes h" using admit by (auto simp: credit_ok_def)
    have "bytes_of (filter (\<lambda>h. \<not> hl_overflow h) held) + n \<le> max (max 1 cap) limit" if "\<not> over_budget rx n"
    proof (cases "rx_reserved_bytes rx \<le> 0")
      case True
      then show ?thesis using admit bytes_filter_le[OF nn, of "\<lambda>h. \<not> hl_overflow h"]
        by (auto simp: credit_ok_def)
    next
      case False
      then show ?thesis using that admit bytes_filter_le[OF nn, of "\<lambda>h. \<not> hl_overflow h"]
        by (auto simp: credit_ok_def over_budget_def)
    qed
    then show ?case using admit rf by (auto simp: credit_ok_def)
  next
    case (free held hs h hs' rx)
    have nn: "\<forall>x \<in> set (hs @ hs'). 0 \<le> hl_bytes x" "0 \<le> hl_bytes h" using free by (auto simp: credit_ok_def)
    then have "hl_bytes h \<le> rx_reserved_bytes rx"
      using free bytes_nonneg[of "hs @ hs'"] by (auto simp: credit_ok_def)
    then show ?case using free nn(2) release_facts[of "hl_bytes h" rx "hl_request h"]
      by (auto simp: credit_ok_def split: if_splits)
  qed (auto simp: credit_ok_def set_expected_requests_def)
qed

section \<open>One overflow at a time\<close>

text \<open>With one payload per request, the priority marker names the holder of the overflow.\<close>

definition overflow_ok :: "credit_state \<Rightarrow> bool" where
  "overflow_ok s \<longleftrightarrow> distinct (map hl_request (snd s)) \<and>
     (\<forall>h \<in> set (snd s). 0 \<le> hl_bytes h \<and> (hl_overflow h \<longrightarrow> rx_priority_request (fst s) = Some (hl_request h)))"

interpretation overflow: inductive_invariant "credit_init cap" "credit_step True limit" overflow_ok for cap limit
proof
  fix s
  show "credit_init cap s \<Longrightarrow> overflow_ok s" by (auto simp: credit_init_def overflow_ok_def)
next
  fix s t
  assume ok: "overflow_ok s" and step: "credit_step True limit s t"
  from step ok show "overflow_ok t"
  proof (induction rule: credit_step.induct)
    case (admit rx rid n rx' held)
    note rf = reserve_facts[OF admit(1)]
    show ?case using admit rf(3,4) by (cases "over_budget rx n") (auto simp: overflow_ok_def)
  next
    case (free held hs h hs' rx)
    then have "hl_request x \<noteq> hl_request h" if "x \<in> set (hs @ hs')" for x
      using that by (auto simp: overflow_ok_def image_iff)
    then show ?case using free by (auto simp: overflow_ok_def release_received_def)
  qed (auto simp: overflow_ok_def set_expected_requests_def)
qed

lemma distinct_same_le1: "distinct xs \<Longrightarrow> (\<forall>x \<in> set xs. x = c) \<Longrightarrow> length xs \<le> 1"
  by (cases xs; cases "tl xs") auto

lemma overflow_ok_single: "overflow_ok s \<Longrightarrow> length (overflow_of (snd s)) \<le> 1"
proof -
  assume ok: "overflow_ok s"
  have "length (map hl_request (overflow_of (snd s))) \<le> 1"
  proof (rule distinct_same_le1)
    show "distinct (map hl_request (overflow_of (snd s)))"
      using ok by (simp add: overflow_ok_def distinct_map_filter)
    show "\<forall>x \<in> set (map hl_request (overflow_of (snd s))). x = the (rx_priority_request (fst s))"
      using ok by (auto simp: overflow_ok_def)
  qed
  then show ?thesis by simp
qed

section \<open>Properties\<close>


text \<open>
  One extra payload at most, if each request stages one payload at a time: then at most
  one priority overflow holds credit and the total stays below the capacity (or one oversized
  payload) plus one payload.
\<close>

lemma single_priority_overflow:
  assumes "reach (credit_init cap) (credit_step True limit) (rx, held)" and "0 \<le> limit"
  shows "length (overflow_of held) \<le> 1 \<and> rx_reserved_bytes rx \<le> max (max 1 cap) limit + limit"
proof -
  have ok: "credit_ok cap limit (rx, held)" by (rule credit.reach_inv[OF assms(1)])
  have one: "length (overflow_of held) \<le> 1"
    using overflow_ok_single[OF overflow.reach_inv[OF assms(1)]] by simp
  then have "bytes_of (overflow_of held) \<le> limit"
  proof (cases "overflow_of held")
    case (Cons h hs)
    then have "hs = []" "h \<in> set held" using one by (auto simp: filter_eq_Cons_iff)
    then show ?thesis using Cons ok by (auto simp: credit_ok_def)
  qed (use assms(2) in simp)
  then show ?thesis using one ok sum_list_filter_split[of hl_bytes held hl_overflow]
    by (simp add: credit_ok_def)
qed

text \<open>
  An empty buffer, a payload within the budget, and a scheduled request while no priority
  is outstanding are always admitted; otherwise the producer is told to retry.
\<close>

lemma admission_complete:
  "reserve_received rx rid n = None \<longleftrightarrow>
     0 < rx_reserved_bytes rx \<and> rx_capacity_bytes rx < rx_reserved_bytes rx + n \<and>
     \<not> (rid \<in> rx_expected_requests rx \<and> rx_priority_request rx = None)"
  by (auto simp: reserve_received_def over_budget_def)

subsection \<open>Concrete runs\<close>

lemma credit_admit:
  assumes "reach (credit_init cap) (credit_step solo limit) (rx, held)"
    and "reserve_received rx rid n = Some rx'" and "0 \<le> n" "n \<le> limit"
    and "solo \<longrightarrow> rid \<notin> hl_request ` set held" and "ov = over_budget rx n"
  shows "reach (credit_init cap) (credit_step solo limit)
    (rx', held @ [\<lparr>hl_request = rid, hl_bytes = n, hl_overflow = ov\<rparr>])"
  using reach_step[OF assms(1) credit_step.admit[OF assms(2-5)]] assms(6) by simp

abbreviation hold :: "string \<Rightarrow> int \<Rightarrow> bool \<Rightarrow> holding" where
  "hold rid n ov \<equiv> \<lparr>hl_request = rid, hl_bytes = n, hl_overflow = ov\<rparr>"

abbreviation credit_rx :: "int \<Rightarrow> string option \<Rightarrow> receiver" where
  "credit_rx n p \<equiv> (receiver_init 10)\<lparr>rx_reserved_bytes := n, rx_expected_requests := {''a''}, rx_priority_request := p\<rparr>"

lemma credit_run_expect: "reach (credit_init 10) (credit_step solo 8) (credit_rx 0 None, [])"
proof -
  have "reach (credit_init 10) (credit_step solo 8) (receiver_init 10, [])"
    by (rule reach_init) (simp add: credit_init_def)
  from reach_step[OF this credit_step.expect[of _ _ _ _ "[''a'']"]] show ?thesis
    by (simp add: set_expected_requests_def receiver_init_def)
qed

lemma credit_run_overflow:
  "reach (credit_init 10) (credit_step solo 8) (credit_rx 14 (Some ''a''), [hold ''f'' 7 False, hold ''a'' 7 True])"
proof -
  have "reach (credit_init 10) (credit_step solo 8) (credit_rx 7 None, [] @ [hold ''f'' 7 False])"
    by (rule credit_admit[OF credit_run_expect])
      (simp_all add: reserve_received_def over_budget_def receiver_init_def)
  then have "reach (credit_init 10) (credit_step solo 8)
      (credit_rx 14 (Some ''a''), ([] @ [hold ''f'' 7 False]) @ [hold ''a'' 7 True])"
    by (rule credit_admit) (simp_all add: reserve_received_def over_budget_def receiver_init_def)
  then show ?thesis by simp
qed


lemma single_priority_overflow_witness:
  "length (overflow_of [hold ''f'' 7 False, hold ''a'' 7 True]) \<le> 1 \<and>
   rx_reserved_bytes (credit_rx 14 (Some ''a'')) \<le> max (max 1 10) 8 + 8"
  using single_priority_overflow[OF credit_run_overflow[of True]] by simp

text \<open>
  Without that discipline two priority payloads can be staged at once: releasing an
  earlier payload of a request clears the marker although its overflow payload still holds
  credit, so a second overflow is admitted.  Here 27 bytes are staged with a capacity of 10.
\<close>

lemma two_priority_overflows:
  "\<exists>rx held. reach (credit_init 10) (credit_step False 9) (rx, held) \<and> length (overflow_of held) = 2 \<and>
     rx_reserved_bytes rx = 27"
proof -
  let ?R = "\<lambda>rx held. reach (credit_init 10) (credit_step False 9) (rx, held)"
  have "reach (credit_init 10) (credit_step False 9) (receiver_init 10, [])"
    by (rule reach_init) (simp add: credit_init_def)
  from reach_step[OF this credit_step.expect[of _ _ _ _ "[''a'']"]]
  have r0: "?R (credit_rx 0 None) []" by (simp add: set_expected_requests_def receiver_init_def)
  have r1: "?R (credit_rx 1 None) ([] @ [hold ''a'' 1 False])"
    by (rule credit_admit[OF r0]) code_simp+
  have r2: "?R (credit_rx 10 None) (([] @ [hold ''a'' 1 False]) @ [hold ''f'' 9 False])"
    by (rule credit_admit[OF r1]) code_simp+
  have r3: "?R (credit_rx 19 (Some ''a'')) ((([] @ [hold ''a'' 1 False]) @ [hold ''f'' 9 False]) @ [hold ''a'' 9 True])"
    by (rule credit_admit[OF r2]) code_simp+
  have rel: "release_received (credit_rx 19 (Some ''a'')) (hl_request (hold ''a'' 1 False)) (hl_bytes (hold ''a'' 1 False)) =
      credit_rx 18 None" by code_simp
  have "credit_step False 9
      (credit_rx 19 (Some ''a''), (([] @ [hold ''a'' 1 False]) @ [hold ''f'' 9 False]) @ [hold ''a'' 9 True])
      (release_received (credit_rx 19 (Some ''a'')) (hl_request (hold ''a'' 1 False)) (hl_bytes (hold ''a'' 1 False)),
       [] @ [hold ''f'' 9 False, hold ''a'' 9 True])"
    by (rule credit_step.free) simp
  from reach_step[OF r3, OF this] have r4: "?R (credit_rx 18 None) [hold ''f'' 9 False, hold ''a'' 9 True]"
    unfolding rel append_Nil .
  have "?R (credit_rx 27 (Some ''a'')) ([hold ''f'' 9 False, hold ''a'' 9 True] @ [hold ''a'' 9 True])"
    by (rule credit_admit[OF r4]) code_simp+
  moreover have "length (overflow_of ([hold ''f'' 9 False, hold ''a'' 9 True] @ [hold ''a'' 9 True])) = 2"
    and "rx_reserved_bytes (credit_rx 27 (Some ''a'')) = 27" by simp_all
  ultimately show ?thesis by blast
qed

end
