(* ===== verification/Bandit_State.thy ===== *)
theory Bandit_State
  imports Py_Values
begin

text \<open>
  The bandit statistics of the online controller
  (\<^verbatim>\<open>compression/controller/bandit_state.py\<close>): usage counts and moving averages of prediction
  residuals per accuracy bucket, bandwidth interval and profile, and their JSON form.  A
  float is the rational it denotes; the file itself is the JSON value written and read.
\<close>

section \<open>Model\<close>

type_synonym bandit_key = "int \<times> int \<times> string"

record bandit =
  bs_alpha :: rat
  bs_state :: "(bandit_key \<times> (int \<times> rat)) list"

definition BanditStateManager :: "rat \<Rightarrow> bandit" where
  "BanditStateManager alpha = \<lparr>bs_alpha = alpha, bs_state = []\<rparr>"

definition get_stats :: "bandit \<Rightarrow> bandit_key \<Rightarrow> int \<times> rat" where
  "get_stats b key = (case map_of (bs_state b) key of None \<Rightarrow> (0, 0) | Some s \<Rightarrow> s)"

definition bandit_update :: "bandit \<Rightarrow> bandit_key \<Rightarrow> rat \<Rightarrow> bandit" where
  "bandit_update b key delta_obs =
     (let (n, old) = get_stats b key;
          new = (1 - bs_alpha b) * old + bs_alpha b * delta_obs
      in b\<lparr>bs_state := dict_set (bs_state b) key (n + 1, new)\<rparr>)"

definition get_usage_count :: "bandit \<Rightarrow> bandit_key \<Rightarrow> int" where
  "get_usage_count b key = fst (get_stats b key)"

definition get_residual :: "bandit \<Rightarrow> bandit_key \<Rightarrow> rat" where
  "get_residual b key = snd (get_stats b key)"

definition bandit_reset :: "bandit \<Rightarrow> bandit" where
  "bandit_reset b = b\<lparr>bs_state := []\<rparr>"

definition get_total_states :: "bandit \<Rightarrow> nat" where
  "get_total_states b = length (bs_state b)"

definition get_memory_size :: "bandit \<Rightarrow> nat" where
  "get_memory_size b = get_total_states b * 60"

subsection \<open>Saving and loading\<close>

record bandit_json =
  bj_alpha :: rat
  bj_state :: "(string \<times> (int \<times> rat)) list"

definition key_string :: "bandit_key \<Rightarrow> string" where
  "key_string k = (case k of (b, i, p) \<Rightarrow> show_int b @ ''_'' @ show_int i @ ''_'' @ p)"

definition bandit_save :: "bandit \<Rightarrow> bandit_json" where
  "bandit_save b = \<lparr>bj_alpha = bs_alpha b,
     bj_state = fold (\<lambda>(k, s) d. dict_set d (key_string k) s) (bs_state b) []\<rparr>"

text \<open>\<open>s.split(c, 2)\<close>\<close>

definition split_once :: "char \<Rightarrow> string \<Rightarrow> string \<times> string option" where
  "split_once c s = (takeWhile (\<lambda>x. x \<noteq> c) s,
     case dropWhile (\<lambda>x. x \<noteq> c) s of [] \<Rightarrow> None | _ # rest \<Rightarrow> Some rest)"

definition split_twice :: "char \<Rightarrow> string \<Rightarrow> string list" where
  "split_twice c s = (case split_once c s of
       (a, None) \<Rightarrow> [a]
     | (a, Some r) \<Rightarrow> (case split_once c r of (b, None) \<Rightarrow> [a, b] | (b, Some t) \<Rightarrow> [a, b, t]))"

definition load_entry :: "string \<times> (int \<times> rat) \<Rightarrow> (bandit_key \<times> (int \<times> rat)) list \<Rightarrow>
    (bandit_key \<times> (int \<times> rat)) list result" where
  "load_entry e st = (case split_twice (CHR ''_'') (fst e) of
       [a, b, p] \<Rightarrow>
         bind_res (py_int (PStr a)) (\<lambda>bucket.
         bind_res (py_int (PStr b)) (\<lambda>interval.
           Inr (dict_set st (bucket, interval, p) (snd e))))
     | _ \<Rightarrow> Inr st)"

definition bandit_load :: "bandit_json \<Rightarrow> bandit result" where
  "bandit_load j = bind_res (fold_res load_entry (bj_state j) []) (\<lambda>st.
     Inr \<lparr>bs_alpha = bj_alpha j, bs_state = st\<rparr>)"

section \<open>Keys\<close>

lemma split_once_append: "c \<notin> set a \<Longrightarrow> split_once c (a @ c # r) = (a, Some r)"
proof -
  assume c: "c \<notin> set a"
  have "takeWhile (\<lambda>x. x \<noteq> c) (a @ c # r) = a" "dropWhile (\<lambda>x. x \<noteq> c) (a @ c # r) = c # r"
    using c by (induction a) auto
  then show ?thesis by (simp add: split_once_def)
qed

lemma split_key_string: "split_twice (CHR ''_'') (key_string (b, i, p)) = [show_int b, show_int i, p]"
proof -
  have "CHR ''_'' \<notin> set (show_int n)" for n by (rule underscore_not_in_show_int)
  then show ?thesis by (simp add: key_string_def split_twice_def split_once_append)
qed

declare py_parse_show_int [simp]

lemma key_string_inj: "inj key_string"
proof (rule injI)
  fix k l
  assume eq: "key_string k = key_string l"
  obtain b i p b' i' p' where kl: "k = (b, i, p)" "l = (b', i', p')" by (cases k; cases l)
  have "[show_int b, show_int i, p] = [show_int b', show_int i', p']"
    using eq split_key_string[of b i p] split_key_string[of b' i' p'] kl by metis
  then have "py_int (PStr (show_int b)) = py_int (PStr (show_int b'))"
    "py_int (PStr (show_int i)) = py_int (PStr (show_int i'))" "p = p'" by auto
  then show "k = l" using kl by simp
qed

lemma load_entry_key: "load_entry (key_string k, s) st = Inr (dict_set st k s)"
  by (cases k) (simp add: load_entry_def split_key_string)

lemma save_entries:
  "distinct (map fst st) \<Longrightarrow> fst ` set acc \<inter> key_string ` fst ` set st = {} \<Longrightarrow>
   fold (\<lambda>(k, s) d. dict_set d (key_string k) s) st acc = acc @ map (\<lambda>(k, s). (key_string k, s)) st"
proof (induction st arbitrary: acc)
  case (Cons e st)
  have "key_string (fst e) \<notin> fst ` set acc" using Cons.prems(2) by auto
  moreover have "key_string (fst e) \<notin> key_string ` fst ` set st"
    using Cons.prems(1) key_string_inj by (auto simp: inj_image_mem_iff)
  ultimately show ?case using Cons.IH[of "acc @ [(key_string (fst e), snd e)]"] Cons.prems
    by (auto simp: dict_set_fresh case_prod_beta)
qed simp

lemma load_entries:
  "distinct (map fst st) \<Longrightarrow> fst ` set acc \<inter> fst ` set st = {} \<Longrightarrow>
   fold_res load_entry (map (\<lambda>(k, s). (key_string k, s)) st) acc = Inr (acc @ st)"
proof (induction st arbitrary: acc)
  case (Cons e st)
  have "fst e \<notin> fst ` set acc" using Cons.prems(2) by auto
  then show ?case using Cons.IH[of "acc @ [e]"] Cons.prems
    by (auto simp: dict_set_fresh case_prod_beta load_entry_key)
qed simp

interpretation bandit_json: lossless_codec "\<lambda>b. distinct (map fst (bs_state b))" "\<lambda>b. Inr (bandit_save b)" bandit_load
  by unfold_locales (auto simp: bandit_save_def bandit_load_def save_entries load_entries)

section \<open>Properties\<close>

text \<open>
  Bandit state survives a save and a load: counts, averages and their order come back
  for every key, also for profile identifiers that contain underscores and for negative
  numbers, and no two keys collide in the file.
\<close>

lemma bandit_save_load:
  assumes "distinct (map fst (bs_state b))"
  shows "bandit_load (bandit_save b) = Inr b \<and> length (bj_state (bandit_save b)) = get_total_states b"
  using bandit_json.round_trip[OF assms] assms
  by (simp add: bandit_save_def save_entries get_total_states_def)

lemma bandit_save_load_witness:
  "bandit_load (bandit_save \<lparr>bs_alpha = 1/5, bs_state = [((1, 2, ''llama_T0_Q2''), (3, 5/2)), ((-1, 0, ''p''), (1, -4))]\<rparr>) =
     Inr \<lparr>bs_alpha = 1/5, bs_state = [((1, 2, ''llama_T0_Q2''), (3, 5/2)), ((-1, 0, ''p''), (1, -4))]\<rparr>"
  using bandit_save_load[of "\<lparr>bs_alpha = 1/5, bs_state = [((1, 2, ''llama_T0_Q2''), (3, 5/2)), ((-1, 0, ''p''), (1, -4))]\<rparr>"]
  by simp

text \<open>A run of updates.\<close>

definition bandit_run :: "(bandit_key \<times> rat) list \<Rightarrow> bandit \<Rightarrow> bandit" where
  "bandit_run us b = fold (\<lambda>(k, d) b. bandit_update b k d) us b"

lemma update_stats:
  "get_stats (bandit_update b k d) l =
     (if l = k then (fst (get_stats b k) + 1, (1 - bs_alpha b) * snd (get_stats b k) + bs_alpha b * d)
      else get_stats b l)"
  "bs_alpha (bandit_update b k d) = bs_alpha b"
  by (auto simp: bandit_update_def get_stats_def Let_def split: prod.splits)

lemma update_distinct: "distinct (map fst (bs_state b)) \<Longrightarrow> distinct (map fst (bs_state (bandit_update b k d)))"
  by (simp add: bandit_update_def distinct_dict_set prod.case_eq_if Let_def)

text \<open>The average of the observations \<open>ds\<close> of one key, latest last.\<close>

fun ewma :: "rat \<Rightarrow> rat \<Rightarrow> rat list \<Rightarrow> rat" where
  "ewma a old [] = old"
| "ewma a old (d # ds) = ewma a ((1 - a) * old + a * d) ds"

lemma run_stats:
  "get_stats (bandit_run us b) k =
     (fst (get_stats b k) + int (length (filter (\<lambda>u. fst u = k) us)),
      ewma (bs_alpha b) (snd (get_stats b k)) (map snd (filter (\<lambda>u. fst u = k) us)))"
  unfolding bandit_run_def
  by (induction us arbitrary: b) (auto simp: update_stats split: prod.splits)

lemma ewma_range:
  "0 \<le> a \<Longrightarrow> a \<le> 1 \<Longrightarrow> lo \<le> old \<Longrightarrow> old \<le> hi \<Longrightarrow> (\<And>d. d \<in> set ds \<Longrightarrow> lo \<le> d \<and> d \<le> hi) \<Longrightarrow>
   lo \<le> ewma a old ds \<and> ewma a old ds \<le> hi"
proof (induction ds arbitrary: old)
  case (Cons d ds)
  have "lo \<le> (1 - a) * old + a * d" "(1 - a) * old + a * d \<le> hi"
    using convex_bound_le[of old hi d "1 - a" a] convex_bound_le[of "- old" "- lo" "- d" "1 - a" a] Cons.prems
    by auto
  then show ?case using Cons by simp
qed simp

lemma ewma_const: "ewma a old (replicate n d) = (1 - a) ^ n * old + (1 - (1 - a) ^ n) * d"
proof (induction n arbitrary: old)
  case (Suc n)
  show ?case using Suc.IH[of "(1 - a) * old + a * d"] by (simp add: algebra_simps)
qed simp

text \<open>
  What the bandit learns.  After any sequence of updates of a fresh manager, the usage
  count of a key is the number of its updates, its residual stays within any range that
  contains zero and all its observations, updates of other keys do not matter, and n equal
  observations \<open>d\<close> give exactly \<open>d * (1 - (1 - alpha)^n)\<close>.
\<close>

lemma bandit_learns:
  assumes "0 \<le> alpha" and "alpha \<le> 1"
    and "\<forall>u \<in> set us. fst u = k \<longrightarrow> lo \<le> snd u \<and> snd u \<le> hi" and "lo \<le> 0" and "0 \<le> hi"
  shows "let b = bandit_run us (BanditStateManager alpha); n = length (filter (\<lambda>u. fst u = k) us) in
    get_usage_count b k = int n \<and> lo \<le> get_residual b k \<and> get_residual b k \<le> hi \<and>
    (\<forall>d. (\<forall>u \<in> set us. fst u = k \<longrightarrow> snd u = d) \<longrightarrow> get_residual b k = d * (1 - (1 - alpha) ^ n))"
proof -
  let ?ds = "map snd (filter (\<lambda>u. fst u = k) us)"
  have st: "get_stats (bandit_run us (BanditStateManager alpha)) k =
      (int (length (filter (\<lambda>u. fst u = k) us)), ewma alpha 0 ?ds)"
    by (simp add: run_stats) (simp add: BanditStateManager_def get_stats_def)
  have "lo \<le> ewma alpha 0 ?ds \<and> ewma alpha 0 ?ds \<le> hi"
    using assms by (intro ewma_range) auto
  moreover have "ewma alpha 0 ?ds = d * (1 - (1 - alpha) ^ length (filter (\<lambda>u. fst u = k) us))"
    if "\<forall>u \<in> set us. fst u = k \<longrightarrow> snd u = d" for d
  proof -
    have "?ds = replicate (length (filter (\<lambda>u. fst u = k) us)) d"
      using that by (intro replicate_eqI) auto
    then show ?thesis by (simp add: ewma_const mult.commute)
  qed
  ultimately show ?thesis using st by (simp add: get_usage_count_def get_residual_def Let_def)
qed

lemma bandit_learns_witness:
  "let b = bandit_run [((0, 0, ''p''), 10), ((0, 1, ''p''), 99), ((0, 0, ''p''), 10)] (BanditStateManager (1/2)) in
     get_usage_count b (0, 0, ''p'') = 2 \<and> get_residual b (0, 0, ''p'') = 15/2"
  using bandit_learns[of "1/2" "[((0, 0, ''p''), 10), ((0, 1, ''p''), 99), ((0, 0, ''p''), 10)]" "(0, 0, ''p'')" 0 10]
  by (simp add: Let_def power2_eq_square)

end
