(* ===== verification/Online_Controller.thy ===== *)
theory Online_Controller
  imports Bandit_State
begin

text \<open>
  Profile selection (\<^verbatim>\<open>compression/controller\<close>): profiles and their metrics
  (\<^verbatim>\<open>profile.py\<close>), the latency model (\<^verbatim>\<open>analytical_model.py\<close>), the profile library
  (\<^verbatim>\<open>profile_library.py\<close>) and the two-tier controller (\<^verbatim>\<open>online_controller.py\<close>).  Floats are
  rationals.  \<open>random.random()\<close> and \<open>random.choice\<close> are arguments of the decision.
\<close>

section \<open>Profiles\<close>

record profile =
  pf_profile_id :: string
  pf_metadata :: pydict
  pf_compression_config :: pydict
  pf_performance_metrics :: pydict
  pf_quality_metrics :: pydict

definition profile_from_dict :: "pydict \<Rightarrow> profile result" where
  "profile_from_dict data =
     (let dict_at = (\<lambda>k. bind_res (dict_item data k) (\<lambda>v. case v of PDict d \<Rightarrow> Inr d | _ \<Rightarrow> Inl TypeError)) in
      bind_res (bind_res (dict_item data ''profile_id'') (\<lambda>v. case v of PStr s \<Rightarrow> Inr s | _ \<Rightarrow> Inl TypeError)) (\<lambda>pid.
      bind_res (case dict_get data ''metadata'' (PDict []) of PDict d \<Rightarrow> Inr d | _ \<Rightarrow> Inl TypeError) (\<lambda>md.
      bind_res (dict_at ''compression_config'') (\<lambda>cc.
      bind_res (dict_at ''performance_metrics'') (\<lambda>pm.
      bind_res (dict_at ''quality_metrics'') (\<lambda>qm.
        Inr \<lparr>pf_profile_id = pid, pf_metadata = md, pf_compression_config = cc,
             pf_performance_metrics = pm, pf_quality_metrics = qm\<rparr>))))))"

definition profile_to_dict :: "profile \<Rightarrow> pydict" where
  "profile_to_dict p = [(''profile_id'', PStr (pf_profile_id p)), (''metadata'', PDict (pf_metadata p)),
     (''compression_config'', PDict (pf_compression_config p)),
     (''performance_metrics'', PDict (pf_performance_metrics p)),
     (''quality_metrics'', PDict (pf_quality_metrics p))]"

definition metric :: "pydict \<Rightarrow> string \<Rightarrow> rat result" where
  "metric d k = bind_res (dict_item d k) (\<lambda>v. case as_num v of None \<Rightarrow> Inl TypeError | Some r \<Rightarrow> Inr r)"

definition compression_ratio :: "profile \<Rightarrow> rat result" where
  "compression_ratio p = metric (pf_performance_metrics p) ''compression_ratio''"

definition harmonic_speed :: "profile \<Rightarrow> rat result" where
  "harmonic_speed p = metric (pf_performance_metrics p) ''harmonic_speed_mbps''"

definition py_div :: "rat \<Rightarrow> rat \<Rightarrow> rat result" where
  "py_div a b = (if b = 0 then Inl ZeroDivisionError else Inr (a / b))"

text \<open>The default of \<open>get\<close> is evaluated whether or not the key is there.\<close>

definition critical_bandwidth :: "profile \<Rightarrow> rat result" where
  "critical_bandwidth p =
     bind_res (compression_ratio p) (\<lambda>cr. bind_res (py_div 1 cr) (\<lambda>inv.
     bind_res (harmonic_speed p) (\<lambda>s.
       case map_of (pf_performance_metrics p) ''critical_bandwidth_mbps'' of
         None \<Rightarrow> Inr ((1 - inv) * s)
       | Some v \<Rightarrow> (case as_num v of None \<Rightarrow> Inl TypeError | Some r \<Rightarrow> Inr r))))"

definition accuracy :: "profile \<Rightarrow> rat result" where
  "accuracy p = metric (pf_quality_metrics p) ''accuracy''"

section \<open>The latency model\<close>

definition predict_latency :: "profile \<Rightarrow> rat \<Rightarrow> rat \<Rightarrow> rat \<Rightarrow> rat result" where
  "predict_latency p V_bytes B_mbps T_model_ms =
     (let V_mb = V_bytes / (1024 * 1024) in
      bind_res (harmonic_speed p) (\<lambda>S. bind_res (compression_ratio p) (\<lambda>cr.
      bind_res (py_div V_mb S) (\<lambda>codec.
      bind_res (py_div (V_mb * cr) B_mbps) (\<lambda>transfer.
        Inr (T_model_ms + codec * 1000 + transfer * 1000))))))"

definition predict_baseline_latency :: "rat \<Rightarrow> rat \<Rightarrow> rat \<Rightarrow> rat result" where
  "predict_baseline_latency V_bytes B_mbps T_model_ms =
     bind_res (py_div (V_bytes / (1024 * 1024)) B_mbps) (\<lambda>transfer. Inr (T_model_ms + transfer * 1000))"

definition check_benefit :: "profile \<Rightarrow> rat \<Rightarrow> bool result" where
  "check_benefit p B_mbps =
     bind_res (compression_ratio p) (\<lambda>cr. bind_res (harmonic_speed p) (\<lambda>S.
     bind_res (py_div 1 cr) (\<lambda>inv. Inr (B_mbps < (1 - inv) * S))))"

definition compute_speedup :: "profile \<Rightarrow> rat \<Rightarrow> rat \<Rightarrow> rat \<Rightarrow> rat result" where
  "compute_speedup p V_bytes B_mbps T_model_ms =
     bind_res (predict_baseline_latency V_bytes B_mbps T_model_ms) (\<lambda>T0.
     bind_res (predict_latency p V_bytes B_mbps T_model_ms) (\<lambda>Tp. py_div T0 Tp))"

section \<open>The profile library\<close>

record interval =
  iv_interval_id :: int
  iv_x_range :: "rat \<times> rat"
  iv_candidate_profile_ids :: "string list"
  iv_model_optimal_profile_id :: "string option"

text \<open>A bucket as it stands in the file: the keys that \<open>_validate\<close> checks may be missing.\<close>

record raw_bucket =
  rb_bucket_id :: "int option"
  rb_acc_range :: "(rat \<times> rat) option"
  rb_bandwidth_intervals :: "interval list option"
  rb_pareto_profiles :: "pydict list"

record bucket =
  bk_bucket_id :: int
  bk_acc_range :: "rat \<times> rat"
  bk_bandwidth_intervals :: "interval list"

record library =
  lb_accuracy_buckets :: "bucket list"
  lb_profile_map :: "(string \<times> profile) list"

definition build_profile_index :: "raw_bucket list \<Rightarrow> (string \<times> profile) list result" where
  "build_profile_index buckets =
     fold_res (\<lambda>d m. bind_res (profile_from_dict d) (\<lambda>p. Inr (dict_set m (pf_profile_id p) p)))
       (concat (map rb_pareto_profiles buckets)) []"

definition validate_bucket :: "raw_bucket \<Rightarrow> bucket result" where
  "validate_bucket b = (case (rb_bucket_id b, rb_acc_range b, rb_bandwidth_intervals b) of
       (Some i, Some r, Some ivs) \<Rightarrow> Inr \<lparr>bk_bucket_id = i, bk_acc_range = r, bk_bandwidth_intervals = ivs\<rparr>
     | _ \<Rightarrow> Inl ValueError)"

definition ProfileLibrary :: "raw_bucket list option \<Rightarrow> library result" where
  "ProfileLibrary file = (case file of
       None \<Rightarrow> Inl FileNotFoundError
     | Some buckets \<Rightarrow>
         bind_res (build_profile_index buckets) (\<lambda>m.
         if buckets = [] then Inl ValueError
         else bind_res (map_res validate_bucket buckets) (\<lambda>bs.
           Inr \<lparr>lb_accuracy_buckets = bs, lb_profile_map = m\<rparr>)))"

text \<open>\<open>min(xs, key=f)\<close>: the first element with the least key.\<close>

fun min_by :: "('a \<Rightarrow> rat) \<Rightarrow> 'a \<Rightarrow> 'a list \<Rightarrow> 'a" where
  "min_by f x [] = x"
| "min_by f x (y # ys) = min_by f (if f y < f x then y else x) ys"

definition range_distance :: "rat \<Rightarrow> bucket \<Rightarrow> rat" where
  "range_distance acc b = min \<bar>fst (bk_acc_range b) - acc\<bar> \<bar>snd (bk_acc_range b) - acc\<bar>"

definition find_bucket :: "library \<Rightarrow> rat \<Rightarrow> bucket option" where
  "find_bucket lib acc_req =
     (case find (\<lambda>b. fst (bk_acc_range b) \<le> acc_req \<and> acc_req < snd (bk_acc_range b)) (lb_accuracy_buckets lib) of
        Some b \<Rightarrow> Some b
      | None \<Rightarrow> (case lb_accuracy_buckets lib of [] \<Rightarrow> None
                 | b # bs \<Rightarrow> Some (min_by (range_distance acc_req) b bs)))"

definition find_interval :: "bucket \<Rightarrow> rat \<Rightarrow> interval option result" where
  "find_interval b B_mbps = bind_res (py_div 1 B_mbps) (\<lambda>x.
     Inr (case find (\<lambda>iv. fst (iv_x_range iv) \<le> x \<and> x < snd (iv_x_range iv)) (bk_bandwidth_intervals b) of
            Some iv \<Rightarrow> Some iv
          | None \<Rightarrow> (if bk_bandwidth_intervals b = [] then None else Some (last (bk_bandwidth_intervals b)))))"

definition get_profile :: "library \<Rightarrow> string \<Rightarrow> profile option" where
  "get_profile lib pid = map_of (lb_profile_map lib) pid"

definition get_candidate_profiles :: "library \<Rightarrow> interval \<Rightarrow> profile list" where
  "get_candidate_profiles lib iv = List.map_filter (get_profile lib) (iv_candidate_profile_ids iv)"

definition get_optimal_profile :: "library \<Rightarrow> interval \<Rightarrow> profile option" where
  "get_optimal_profile lib iv = (case iv_model_optimal_profile_id iv of
       Some pid \<Rightarrow> (if pid = [] then None else get_profile lib pid) | None \<Rightarrow> None)"

definition get_bucket_info :: "library \<Rightarrow> int \<Rightarrow> bucket option" where
  "get_bucket_info lib i = find (\<lambda>b. bk_bucket_id b = i) (lb_accuracy_buckets lib)"

section \<open>The controller\<close>

record prediction =
  pd_profile :: profile
  pd_T_hat :: rat
  pd_T_eff :: rat
  pd_delta_bar :: rat
  pd_speedup :: rat

datatype action = Explore | Exploit

datatype reason = NoMatchingBucket | NoMatchingInterval | NoCandidates | NoBenefit | SloViolation

record decision =
  dc_bucket_id :: int
  dc_interval_id :: int
  dc_profile_id :: string
  dc_prediction :: prediction
  dc_action :: action
  dc_num_candidates :: nat
  dc_baseline_latency :: rat

datatype outcome = NoCompression reason | Selected profile decision

record controller =
  oc_library :: library
  oc_epsilon :: rat
  oc_bandit :: bandit
  oc_total_decisions :: int
  oc_exploit_count :: int
  oc_explore_count :: int
  oc_no_compression_count :: int

definition OnlineController :: "library \<Rightarrow> rat \<Rightarrow> bandit option \<Rightarrow> rat \<Rightarrow> controller" where
  "OnlineController lib epsilon bandit_state alpha =
     \<lparr>oc_library = lib, oc_epsilon = epsilon,
      oc_bandit = (case bandit_state of Some b \<Rightarrow> b | None \<Rightarrow> BanditStateManager alpha),
      oc_total_decisions = 0, oc_exploit_count = 0, oc_explore_count = 0, oc_no_compression_count = 0\<rparr>"

text \<open>\<open>[p for p in candidates if check_benefit(p, B)]\<close>\<close>

fun filter_res :: "('a \<Rightarrow> bool result) \<Rightarrow> 'a list \<Rightarrow> 'a list result" where
  "filter_res f [] = Inr []"
| "filter_res f (x # xs) = bind_res (f x) (\<lambda>b. bind_res (filter_res f xs) (\<lambda>ys. Inr (if b then x # ys else ys)))"

text \<open>Step 5 for one candidate.\<close>

definition predict_one ::
    "bandit \<Rightarrow> int \<Rightarrow> int \<Rightarrow> rat \<Rightarrow> rat \<Rightarrow> rat \<Rightarrow> rat \<Rightarrow> rat \<Rightarrow> profile \<Rightarrow>
     (string \<times> prediction) list \<Rightarrow> (string \<times> prediction) list result" where
  "predict_one bandit bucket_id interval_id V B T_model T_slo baseline p preds =
     bind_res (predict_latency p V B T_model) (\<lambda>T_hat.
       let delta_bar = snd (get_stats bandit (bucket_id, interval_id, pf_profile_id p));
           T_eff = T_hat + delta_bar
       in if T_eff \<le> T_slo
          then bind_res (py_div baseline T_eff) (\<lambda>speedup.
                 Inr (dict_set preds (pf_profile_id p)
                   \<lparr>pd_profile = p, pd_T_hat = T_hat, pd_T_eff = T_eff, pd_delta_bar = delta_bar,
                    pd_speedup = speedup\<rparr>))
          else Inr preds)"

text \<open>Step 6: the key chosen by exploration or by exploitation.\<close>

definition choose_id :: "rat \<Rightarrow> rat \<Rightarrow> (string list \<Rightarrow> string) \<Rightarrow> (string \<times> prediction) list \<Rightarrow> action \<times> string" where
  "choose_id epsilon rnd choice preds =
     (if rnd < epsilon then (Explore, choice (map fst preds))
      else (Exploit, fst (min_by (\<lambda>e. pd_T_eff (snd e)) (hd preds) (tl preds))))"

text \<open>Tier 2, with the counters.\<close>

definition bandit_select ::
    "rat \<Rightarrow> (string list \<Rightarrow> string) \<Rightarrow> bucket \<Rightarrow> interval \<Rightarrow> profile list \<Rightarrow> rat \<Rightarrow> rat \<Rightarrow> rat \<Rightarrow> rat \<Rightarrow>
     controller \<Rightarrow> controller \<times> outcome result" where
  "bandit_select rnd choice bk iv candidates V B T_model T_slo c =
     (case bind_res (predict_baseline_latency V B T_model) (\<lambda>baseline.
             bind_res (fold_res (predict_one (oc_bandit c) (bk_bucket_id bk) (iv_interval_id iv) V B T_model T_slo baseline)
                         candidates []) (\<lambda>preds. Inr (baseline, preds))) of
        Inl e \<Rightarrow> (c, Inl e)
      | Inr (baseline, preds) \<Rightarrow>
          if preds = [] then (c\<lparr>oc_no_compression_count := oc_no_compression_count c + 1\<rparr>, Inr (NoCompression SloViolation))
          else let (act, pid) = choose_id (oc_epsilon c) rnd choice preds;
                   c' = (case act of
                           Explore \<Rightarrow> c\<lparr>oc_explore_count := oc_explore_count c + 1\<rparr>
                         | Exploit \<Rightarrow> c\<lparr>oc_exploit_count := oc_exploit_count c + 1\<rparr>)
               in case map_of preds pid of
                    None \<Rightarrow> (c', Inl KeyError)
                  | Some pr \<Rightarrow> (c', Inr (Selected (pd_profile pr)
                      \<lparr>dc_bucket_id = bk_bucket_id bk, dc_interval_id = iv_interval_id iv, dc_profile_id = pid,
                       dc_prediction = pr, dc_action = act, dc_num_candidates = length candidates,
                       dc_baseline_latency = baseline\<rparr>)))"

definition no_compression :: "controller \<Rightarrow> reason \<Rightarrow> controller \<times> outcome result" where
  "no_compression c r = (c\<lparr>oc_no_compression_count := oc_no_compression_count c + 1\<rparr>, Inr (NoCompression r))"

definition select_profile ::
    "rat \<Rightarrow> (string list \<Rightarrow> string) \<Rightarrow> rat \<Rightarrow> rat \<Rightarrow> rat \<Rightarrow> rat \<Rightarrow> rat \<Rightarrow> controller \<Rightarrow> controller \<times> outcome result" where
  "select_profile rnd choice V B T_model T_slo acc_req c0 =
     (let c = c0\<lparr>oc_total_decisions := oc_total_decisions c0 + 1\<rparr> in
      case find_bucket (oc_library c) acc_req of
        None \<Rightarrow> no_compression c NoMatchingBucket
      | Some bk \<Rightarrow>
         (case find_interval bk B of
            Inl e \<Rightarrow> (c, Inl e)
          | Inr None \<Rightarrow> no_compression c NoMatchingInterval
          | Inr (Some iv) \<Rightarrow>
              (case get_candidate_profiles (oc_library c) iv of
                 [] \<Rightarrow> no_compression c NoCandidates
               | candidates \<Rightarrow>
                  (case filter_res (\<lambda>p. check_benefit p B) candidates of
                     Inl e \<Rightarrow> (c, Inl e)
                   | Inr [] \<Rightarrow> no_compression c NoBenefit
                   | Inr good \<Rightarrow> bandit_select rnd choice bk iv good V B T_model T_slo c))))"

definition controller_update :: "controller \<Rightarrow> outcome \<Rightarrow> rat \<Rightarrow> controller" where
  "controller_update c ctx T_obs = (case ctx of
       NoCompression r \<Rightarrow> c
     | Selected p d \<Rightarrow> c\<lparr>oc_bandit := bandit_update (oc_bandit c)
           (dc_bucket_id d, dc_interval_id d, dc_profile_id d) (T_obs - pd_T_hat (dc_prediction d))\<rparr>)"

definition reset_statistics :: "controller \<Rightarrow> controller" where
  "reset_statistics c = c\<lparr>oc_total_decisions := 0, oc_exploit_count := 0, oc_explore_count := 0,
     oc_no_compression_count := 0\<rparr>"

definition compression_rate :: "controller \<Rightarrow> rat" where
  "compression_rate c = (if 0 < oc_total_decisions c
     then of_int (oc_total_decisions c - oc_no_compression_count c) / of_int (oc_total_decisions c) else 0)"

definition exploitation_rate :: "controller \<Rightarrow> rat" where
  "exploitation_rate c = (if 0 < oc_exploit_count c + oc_explore_count c
     then of_int (oc_exploit_count c) / of_int (oc_exploit_count c + oc_explore_count c) else 0)"

section \<open>Library facts\<close>

lemma min_by_least:
  "min_by f x ys \<in> insert x (set ys) \<and> (\<forall>z \<in> insert x (set ys). f (min_by f x ys) \<le> f z)"
proof (induction f x ys rule: min_by.induct)
  case (2 f x y ys)
  let ?w = "if f y < f x then y else x"
  have "f (min_by f ?w ys) \<le> f ?w" "\<forall>z \<in> set ys. f (min_by f ?w ys) \<le> f z"
    "min_by f ?w ys \<in> insert ?w (set ys)" using 2 by auto
  moreover have "f ?w \<le> f x" "f ?w \<le> f y" by auto
  ultimately show ?case by (auto intro: order_trans split: if_splits)
qed simp

definition wf_library :: "library \<Rightarrow> bool" where
  "wf_library lib \<longleftrightarrow> (\<forall>e \<in> set (lb_profile_map lib). pf_profile_id (snd e) = fst e)"

lemma in_dict_setD: "e \<in> set (dict_set d k v) \<Longrightarrow> e \<in> set d \<or> e = (k, v)"
  by (induction d k v rule: dict_set.induct) (auto split: if_splits)

lemma ProfileLibrary_wf:
  assumes "ProfileLibrary file = Inr lib"
  shows "wf_library lib \<and> lb_accuracy_buckets lib \<noteq> []"
proof -
  obtain bs where idx: "build_profile_index bs = Inr (lb_profile_map lib)" and ne: "bs \<noteq> []"
    and val: "map_res validate_bucket bs = Inr (lb_accuracy_buckets lib)"
    using assms by (auto simp: ProfileLibrary_def bind_res_eq_Inr split: option.splits if_splits)
  have "\<forall>e \<in> set (lb_profile_map lib). pf_profile_id (snd e) = fst e"
    by (rule fold_res_invariant[where I = "\<lambda>m. \<forall>e \<in> set m. pf_profile_id (snd e) = fst e",
          OF idx[unfolded build_profile_index_def]])
      (auto simp: bind_res_eq_Inr dest!: in_dict_setD)
  moreover have "lb_accuracy_buckets lib \<noteq> []"
    using val ne by (auto simp: map_res_eq_Inr)
  ultimately show ?thesis by (simp add: wf_library_def)
qed

lemma candidate_ids:
  assumes "wf_library lib" and "p \<in> set (get_candidate_profiles lib iv)"
  shows "get_profile lib (pf_profile_id p) = Some p"
proof -
  obtain pid where "get_profile lib pid = Some p"
    using assms(2) by (auto simp: get_candidate_profiles_def map_filter_def)
  moreover have "pf_profile_id p = pid"
    using assms(1) calculation by (auto simp: wf_library_def get_profile_def dest!: map_of_SomeD)
  ultimately show ?thesis by simp
qed

lemma filter_res_Inr:
  "filter_res f xs = Inr ys \<Longrightarrow> set ys = {x \<in> set xs. f x = Inr True}"
  by (induction xs arbitrary: ys) (auto simp: bind_res_eq_Inr split: if_splits)

section \<open>Predictions\<close>

text \<open>The entry a candidate gets, if it meets the deadline.\<close>

definition corrected :: "bandit \<Rightarrow> int \<Rightarrow> int \<Rightarrow> rat \<Rightarrow> rat \<Rightarrow> rat \<Rightarrow> profile \<Rightarrow> rat result" where
  "corrected bandit bi ii V B T_model p =
     bind_res (predict_latency p V B T_model) (\<lambda>T_hat.
       Inr (T_hat + get_residual bandit (bi, ii, pf_profile_id p)))"

definition entry_ok :: "bandit \<Rightarrow> int \<Rightarrow> int \<Rightarrow> rat \<Rightarrow> rat \<Rightarrow> rat \<Rightarrow> rat \<Rightarrow> string \<times> prediction \<Rightarrow> bool" where
  "entry_ok bandit bi ii V B T_model T_slo e \<longleftrightarrow> (let pr = snd e; p = pd_profile pr in
     fst e = pf_profile_id p \<and> predict_latency p V B T_model = Inr (pd_T_hat pr) \<and>
     corrected bandit bi ii V B T_model p = Inr (pd_T_eff pr) \<and> pd_T_eff pr \<le> T_slo)"

lemma predict_one_cases:
  assumes "predict_one bandit bi ii V B T_model T_slo baseline p preds = Inr preds1"
  obtains (added) pr where "preds1 = dict_set preds (pf_profile_id p) pr" and "pd_profile pr = p"
      and "entry_ok bandit bi ii V B T_model T_slo (pf_profile_id p, pr)"
  | (late) "preds1 = preds" and "\<And>t. corrected bandit bi ii V B T_model p = Inr t \<Longrightarrow> T_slo < t"
proof -
  obtain T_hat where h: "predict_latency p V B T_model = Inr T_hat"
    using assms by (auto simp: predict_one_def bind_res_eq_Inr)
  let ?T = "T_hat + get_residual bandit (bi, ii, pf_profile_id p)"
  show ?thesis
  proof (cases "?T \<le> T_slo")
    case True
    then obtain sp where "preds1 = dict_set preds (pf_profile_id p) \<lparr>pd_profile = p, pd_T_hat = T_hat,
        pd_T_eff = ?T, pd_delta_bar = get_residual bandit (bi, ii, pf_profile_id p), pd_speedup = sp\<rparr>"
      using assms h by (auto simp: predict_one_def bind_res_eq_Inr Let_def get_residual_def)
    then show ?thesis by (rule added) (use True h in \<open>simp_all add: entry_ok_def corrected_def\<close>)
  next
    case False
    then have "preds1 = preds" using assms h by (simp add: predict_one_def get_residual_def)
    then show ?thesis by (rule late) (use False h in \<open>simp add: corrected_def\<close>)
  qed
qed

lemma fold_predict:
  assumes "fold_res (predict_one bandit bi ii V B T_model T_slo baseline) ps preds = Inr preds'"
    and "\<forall>e \<in> set preds. entry_ok bandit bi ii V B T_model T_slo e"
  shows "(\<forall>e \<in> set preds'. entry_ok bandit bi ii V B T_model T_slo e) \<and>
    (\<forall>e \<in> set preds'. e \<in> set preds \<or> pd_profile (snd e) \<in> set ps) \<and>
    fst ` set preds \<subseteq> fst ` set preds' \<and>
    (\<forall>q \<in> set ps. \<forall>t. corrected bandit bi ii V B T_model q = Inr t \<longrightarrow> t \<le> T_slo \<longrightarrow>
       pf_profile_id q \<in> fst ` set preds')"
  using assms
proof (induction ps arbitrary: preds)
  case (Cons p ps)
  obtain preds1 where p1: "predict_one bandit bi ii V B T_model T_slo baseline p preds = Inr preds1"
    and rest: "fold_res (predict_one bandit bi ii V B T_model T_slo baseline) ps preds1 = Inr preds'"
    using Cons.prems(1) by (auto simp: bind_res_eq_Inr)
  have ok1: "\<forall>e \<in> set preds1. entry_ok bandit bi ii V B T_model T_slo e"
    and from1: "\<forall>e \<in> set preds1. e \<in> set preds \<or> pd_profile (snd e) = p"
    and sub1: "fst ` set preds \<subseteq> fst ` set preds1"
    and has1: "\<And>t. corrected bandit bi ii V B T_model p = Inr t \<Longrightarrow> t \<le> T_slo \<Longrightarrow> pf_profile_id p \<in> fst ` set preds1"
    using p1 by (cases rule: predict_one_cases; use Cons.prems(2) in \<open>force dest!: in_dict_setD\<close>)+
  show ?case using Cons.IH[OF rest ok1] from1 sub1 has1 by (auto 0 3)
qed simp

lemma choose_id_mem:
  assumes "preds \<noteq> []" and "\<And>xs. xs \<noteq> [] \<Longrightarrow> choice xs \<in> set xs"
  shows "snd (choose_id eps rnd choice preds) \<in> fst ` set preds"
proof (cases "rnd < eps")
  case True
  then show ?thesis using assms(2)[of "map fst preds"] assms(1) by (simp add: choose_id_def)
next
  case False
  have "min_by (\<lambda>e. pd_T_eff (snd e)) (hd preds) (tl preds) \<in> insert (hd preds) (set (tl preds))"
    using min_by_least[of "\<lambda>e. pd_T_eff (snd e)" "hd preds" "tl preds"] by simp
  also have "insert (hd preds) (set (tl preds)) = set preds" using assms(1) by (cases preds) simp_all
  finally have "min_by (\<lambda>e. pd_T_eff (snd e)) (hd preds) (tl preds) \<in> set preds" .
  then show ?thesis using False by (simp add: choose_id_def)
qed

lemma choose_id_exploit:
  assumes "preds \<noteq> []" and "fst (choose_id eps rnd choice preds) = Exploit" and "e \<in> set preds"
    and "distinct (map fst preds)" and "map_of preds (snd (choose_id eps rnd choice preds)) = Some pr"
  shows "pd_T_eff pr \<le> pd_T_eff (snd e)"
proof -
  let ?m = "min_by (\<lambda>e. pd_T_eff (snd e)) (hd preds) (tl preds)"
  have set: "insert (hd preds) (set (tl preds)) = set preds" using assms(1) by (cases preds) auto
  have m: "?m \<in> set preds" "pd_T_eff (snd ?m) \<le> pd_T_eff (snd e)"
    using min_by_least[of "\<lambda>e. pd_T_eff (snd e)" "hd preds" "tl preds"] set assms(3) by auto
  have "snd (choose_id eps rnd choice preds) = fst ?m" using assms(2) by (simp add: choose_id_def split: if_splits)
  moreover have "map_of preds (fst ?m) = Some (snd ?m)" using m(1) assms(4) by simp
  ultimately show ?thesis using m(2) assms(5) by simp
qed

lemma fold_predict_distinct:
  assumes "fold_res (predict_one bandit bi ii V B T_model T_slo baseline) ps [] = Inr preds'"
  shows "distinct (map fst preds')"
  by (rule fold_res_invariant[where I = "\<lambda>preds. distinct (map fst preds)", OF assms])
    (auto elim!: predict_one_cases intro: distinct_dict_set)

text \<open>What a successful second tier knows.\<close>

lemma bandit_select_selected:
  assumes "bandit_select rnd choice bk iv cands V B T_model T_slo c = (c', Inr (Selected p d))"
    and "\<And>xs. xs \<noteq> [] \<Longrightarrow> choice xs \<in> set xs"
    and ids: "\<And>q q'. q \<in> set cands \<Longrightarrow> q' \<in> set cands \<Longrightarrow> pf_profile_id q = pf_profile_id q' \<Longrightarrow> q = q'"
  shows "p \<in> set cands \<and> dc_profile_id d = pf_profile_id p \<and> dc_bucket_id d = bk_bucket_id bk \<and>
    dc_interval_id d = iv_interval_id iv \<and>
    predict_latency p V B T_model = Inr (pd_T_hat (dc_prediction d)) \<and>
    corrected (oc_bandit c) (bk_bucket_id bk) (iv_interval_id iv) V B T_model p = Inr (pd_T_eff (dc_prediction d)) \<and>
    pd_T_eff (dc_prediction d) \<le> T_slo \<and>
    (dc_action d = Exploit \<longrightarrow> (\<forall>q \<in> set cands. \<forall>t.
       corrected (oc_bandit c) (bk_bucket_id bk) (iv_interval_id iv) V B T_model q = Inr t \<longrightarrow>
       t \<le> T_slo \<longrightarrow> pd_T_eff (dc_prediction d) \<le> t))"
proof -
  let ?co = "corrected (oc_bandit c) (bk_bucket_id bk) (iv_interval_id iv) V B T_model"
  let ?ok = "entry_ok (oc_bandit c) (bk_bucket_id bk) (iv_interval_id iv) V B T_model T_slo"
  obtain baseline preds pr where
    f: "fold_res (predict_one (oc_bandit c) (bk_bucket_id bk) (iv_interval_id iv) V B T_model T_slo baseline) cands [] = Inr preds"
    and ne: "preds \<noteq> []" and m: "map_of preds (dc_profile_id d) = Some pr" "pd_profile pr = p" "dc_prediction d = pr"
    and ch: "choose_id (oc_epsilon c) rnd choice preds = (dc_action d, dc_profile_id d)"
    and d: "dc_bucket_id d = bk_bucket_id bk" "dc_interval_id d = iv_interval_id iv"
    using assms(1)
    by (auto simp: bandit_select_def bind_res_eq_Inr Let_def split: sum.splits if_splits option.splits prod.splits)
  have fp: "\<forall>e \<in> set preds. ?ok e" "\<forall>e \<in> set preds. pd_profile (snd e) \<in> set cands"
    "\<forall>q \<in> set cands. \<forall>t. ?co q = Inr t \<longrightarrow> t \<le> T_slo \<longrightarrow> pf_profile_id q \<in> fst ` set preds"
    using fold_predict[OF f] by auto
  have e: "(dc_profile_id d, pr) \<in> set preds" using m(1) by (rule map_of_SomeD)
  have dist: "distinct (map fst preds)" by (rule fold_predict_distinct[OF f])
  have best: "pd_T_eff pr \<le> t" if "dc_action d = Exploit" "q \<in> set cands" "?co q = Inr t" "t \<le> T_slo" for q t
  proof -
    have "pf_profile_id q \<in> fst ` set preds" using fp(3) that(2-4) by blast
    then obtain e' where e': "e' \<in> set preds" "fst e' = pf_profile_id q" by (elim imageE) simp
    have "pf_profile_id (pd_profile (snd e')) = pf_profile_id q" using fp(1) e' by (auto simp: entry_ok_def Let_def)
    then have "pd_profile (snd e') = q" using ids fp(2) e'(1) that(2) by auto
    then have "pd_T_eff (snd e') = t" using fp(1) e'(1) that(3) by (auto simp: entry_ok_def Let_def)
    then show ?thesis
      using choose_id_exploit[OF ne _ e'(1) dist, of "oc_epsilon c" rnd choice pr] ch that(1) m(1) by simp
  qed
  show ?thesis using fp(1,2) e m d best by (auto simp: entry_ok_def Let_def)
qed

lemma select_profile_selected:
  assumes "select_profile rnd choice V B T_model T_slo acc_req c = (c', Inr (Selected p d))"
  obtains bk iv good c1 where "find_bucket (oc_library c) acc_req = Some bk" and "find_interval bk B = Inr (Some iv)"
    and "filter_res (\<lambda>p. check_benefit p B) (get_candidate_profiles (oc_library c) iv) = Inr good"
    and "bandit_select rnd choice bk iv good V B T_model T_slo c1 = (c', Inr (Selected p d))"
    and "oc_bandit c1 = oc_bandit c"
  using assms
  by (auto simp: select_profile_def no_compression_def Let_def split: option.splits sum.splits list.splits)

section \<open>Properties\<close>


text \<open>
  The statistics add up: every decision that returns counts once in the total and once as
  exploration, exploitation or no compression; a decision that raises counts in the total
  only.
\<close>

lemma decision_counters:
  assumes "select_profile rnd choice V B T_model T_slo acc_req c = (c', r)"
    and "\<forall>xs. xs \<noteq> [] \<longrightarrow> choice xs \<in> set xs"
  shows "oc_total_decisions c' = oc_total_decisions c + 1 \<and>
    oc_exploit_count c' + oc_explore_count c' + oc_no_compression_count c' =
      oc_exploit_count c + oc_explore_count c + oc_no_compression_count c + (case r of Inl e \<Rightarrow> 0 | Inr x \<Rightarrow> 1) \<and>
    oc_bandit c' = oc_bandit c \<and> oc_library c' = oc_library c"
proof -
  have bs: "oc_total_decisions c2 = oc_total_decisions c1 \<and>
      oc_exploit_count c2 + oc_explore_count c2 + oc_no_compression_count c2 =
        oc_exploit_count c1 + oc_explore_count c1 + oc_no_compression_count c1 + (case r of Inl e \<Rightarrow> 0 | Inr x \<Rightarrow> 1) \<and>
      oc_bandit c2 = oc_bandit c1 \<and> oc_library c2 = oc_library c1"
    if "bandit_select rnd choice bk iv good V B T_model T_slo c1 = (c2, r)" for bk iv good c1 c2
  proof -
    have "\<exists>pr. map_of preds (snd (choose_id (oc_epsilon c1) rnd choice preds)) = Some pr" if "preds \<noteq> []" for preds
      using choose_id_mem[OF that, of choice] assms(2)
      by (metis map_of_eq_None_iff option.exhaust)
    then show ?thesis using that
      by (auto simp: bandit_select_def Let_def split: sum.splits if_splits prod.splits option.splits action.splits)
        (metis option.distinct(1) snd_conv)+
  qed
  show ?thesis using assms(1)
    by (auto simp: select_profile_def no_compression_def Let_def split: option.splits sum.splits list.splits dest!: bs)
qed

section \<open>A two-profile library\<close>

definition demo_profile :: "string \<Rightarrow> rat \<Rightarrow> rat \<Rightarrow> profile" where
  "demo_profile pid cr S = \<lparr>pf_profile_id = pid, pf_metadata = [], pf_compression_config = [],
     pf_performance_metrics = [(''compression_ratio'', PFloat cr), (''harmonic_speed_mbps'', PFloat S)],
     pf_quality_metrics = []\<rparr>"

definition demo_file :: "raw_bucket list" where
  "demo_file = [\<lparr>rb_bucket_id = Some 1, rb_acc_range = Some (9/10, 1),
     rb_bandwidth_intervals = Some [\<lparr>iv_interval_id = 7, iv_x_range = (0, 1),
       iv_candidate_profile_ids = [''p'', ''missing'', ''q''], iv_model_optimal_profile_id = None\<rparr>],
     rb_pareto_profiles = [profile_to_dict (demo_profile ''p'' 4 1000), profile_to_dict (demo_profile ''q'' 2 1000)]\<rparr>]"

definition demo_library :: library where
  "demo_library = \<lparr>lb_accuracy_buckets = [\<lparr>bk_bucket_id = 1, bk_acc_range = (9/10, 1),
       bk_bandwidth_intervals = [\<lparr>iv_interval_id = 7, iv_x_range = (0, 1),
         iv_candidate_profile_ids = [''p'', ''missing'', ''q''], iv_model_optimal_profile_id = None\<rparr>]\<rparr>],
     lb_profile_map = [(''p'', demo_profile ''p'' 4 1000), (''q'', demo_profile ''q'' 2 1000)]\<rparr>"

lemma demo_file_loads: "ProfileLibrary (Some demo_file) = Inr demo_library"
  by code_simp

definition demo_controller :: controller where
  "demo_controller = OnlineController demo_library (1/10) None (1/5)"


lemma decision_counters_witness:
  "oc_total_decisions (fst (select_profile (1/2) hd 1048576 0 50 10000 (19/20) demo_controller)) = 1 \<and>
   oc_total_decisions (fst (select_profile (1/2) hd 1048576 100 50 10000 (19/20) demo_controller)) = 1"
  using decision_counters[of "1/2" hd 1048576 0 50 10000 "19/20" demo_controller, OF prod.collapse[symmetric]]
    decision_counters[of "1/2" hd 1048576 100 50 10000 "19/20" demo_controller, OF prod.collapse[symmetric]]
  by (simp add: demo_controller_def OnlineController_def)

text \<open>
  The benefit check decides the documented condition: the codec time plus the transfer time
  of the compressed volume \<open>V/(B*cr)\<close> is below the plain transfer time.  The latency that
  \<open>predict_latency\<close> reports charges \<open>V*cr/B\<close> for the transfer instead, so every profile that
  passes the check is predicted to be slower than no compression, with a speedup below one.
\<close>

lemma benefit_vs_prediction:
  assumes "compression_ratio p = Inr cr" and "harmonic_speed p = Inr S"
    and "0 < cr" and "0 < S" and "0 < B" and "0 < V" and "0 \<le> T_model"
  shows "check_benefit p B = Inr (V / S + V / (B * cr) < V / B) \<and>
    (check_benefit p B = Inr True \<longrightarrow>
      (\<exists>Tp T0 sp. predict_latency p V B T_model = Inr Tp \<and> predict_baseline_latency V B T_model = Inr T0 \<and>
         compute_speedup p V B T_model = Inr sp \<and> T0 < Tp \<and> sp < 1))"
proof -
  have "V / S + V / (B * cr) < V / B \<longleftrightarrow> (B * V) * (S + B * cr) < (B * V) * (S * cr)"
    using assms(3-6) by (simp add: field_simps)
  also have "\<dots> \<longleftrightarrow> S + B * cr < S * cr" using assms(5,6) by (intro mult_less_cancel_left_pos) simp
  also have "\<dots> \<longleftrightarrow> B < (1 - 1 / cr) * S" using assms(3) by (simp add: field_simps)
  finally have check: "check_benefit p B = Inr (V / S + V / (B * cr) < V / B)"
    using assms(1-3) by (simp add: check_benefit_def py_div_def)
  have slower: "\<exists>Tp T0 sp. predict_latency p V B T_model = Inr Tp \<and> predict_baseline_latency V B T_model = Inr T0 \<and>
      compute_speedup p V B T_model = Inr sp \<and> T0 < Tp \<and> sp < 1" if "B < (1 - 1 / cr) * S"
  proof -
    let ?V = "V / (1024 * 1024)"
    let ?Tp = "T_model + ?V / S * 1000 + ?V * cr / B * 1000" and ?T0 = "T_model + ?V / B * 1000"
    have "0 < (1 - 1 / cr) * S" using that assms(5) by linarith
    then have "1 < cr" using assms(3,4) by (simp add: zero_less_mult_iff field_simps)
    then have "?V / B \<le> ?V * cr / B" using assms(5,6) by (intro divide_right_mono) simp_all
    moreover have "0 < ?V / S" "0 < ?V / B" using assms(4-6) by simp_all
    ultimately have "?T0 < ?Tp" "0 < ?T0" using assms(7) by linarith+
    then have "?T0 / ?Tp < 1" "?Tp \<noteq> 0" by simp_all
    moreover have "predict_latency p V B T_model = Inr ?Tp" "predict_baseline_latency V B T_model = Inr ?T0"
      using assms by (simp_all add: predict_latency_def predict_baseline_latency_def py_div_def Let_def)
    ultimately show ?thesis using \<open>?T0 < ?Tp\<close> by (simp add: compute_speedup_def py_div_def)
  qed
  show ?thesis using check slower assms(1-3) by (auto simp: check_benefit_def py_div_def)
qed

lemma benefit_vs_prediction_witness:
  "check_benefit (demo_profile ''p'' 4 1000) 100 = Inr True \<and>
   (\<exists>Tp T0 sp. predict_latency (demo_profile ''p'' 4 1000) 1048576 100 50 = Inr Tp \<and>
      predict_baseline_latency 1048576 100 50 = Inr T0 \<and>
      compute_speedup (demo_profile ''p'' 4 1000) 1048576 100 50 = Inr sp \<and> T0 < Tp \<and> sp < 1)"
proof -
  have "compression_ratio (demo_profile ''p'' 4 1000) = Inr 4" "harmonic_speed (demo_profile ''p'' 4 1000) = Inr 1000"
    "check_benefit (demo_profile ''p'' 4 1000) 100 = Inr True" by code_simp+
  then show ?thesis using benefit_vs_prediction[of "demo_profile ''p'' 4 1000" 4 1000 100 1048576 50] by simp
qed

text \<open>
  A library that loads always offers a bucket: one that contains the required accuracy if
  there is any, and otherwise one whose nearer bound is closest to it.
\<close>

lemma bucket_always_found:
  assumes "ProfileLibrary file = Inr lib"
  shows "\<exists>b \<in> set (lb_accuracy_buckets lib). find_bucket lib acc = Some b \<and>
    (let inside = (\<lambda>b. fst (bk_acc_range b) \<le> acc \<and> acc < snd (bk_acc_range b)) in
     if \<exists>b \<in> set (lb_accuracy_buckets lib). inside b then inside b
     else \<forall>b' \<in> set (lb_accuracy_buckets lib). range_distance acc b \<le> range_distance acc b')"
proof -
  obtain b0 bs where bs: "lb_accuracy_buckets lib = b0 # bs"
    using ProfileLibrary_wf[OF assms] by (cases "lb_accuracy_buckets lib") auto
  let ?in = "\<lambda>b. fst (bk_acc_range b) \<le> acc \<and> acc < snd (bk_acc_range b)"
  show ?thesis
  proof (cases "find ?in (lb_accuracy_buckets lib)")
    case None
    then have "\<not> (\<exists>b \<in> set (lb_accuracy_buckets lib). ?in b)" by (auto simp: find_None_iff)
    then show ?thesis using None min_by_least[of "range_distance acc" b0 bs] bs
      by (intro bexI[of _ "min_by (range_distance acc) b0 bs"]) (auto simp: find_bucket_def Let_def)
  next
    case (Some b)
    then have "b \<in> set (lb_accuracy_buckets lib)" "?in b" by (auto simp: find_Some_iff)
    then show ?thesis using Some by (intro bexI[of _ b]) (auto simp: find_bucket_def Let_def)
  qed
qed

lemma bucket_always_found_witness: "\<exists>b \<in> set (lb_accuracy_buckets demo_library). find_bucket demo_library (1/2) = Some b"
  using bucket_always_found[OF demo_file_loads] by blast

text \<open>A bandwidth above every interval falls into the last interval, the one of the lowest bandwidths.\<close>

lemma find_interval_high_bandwidth:
  assumes "bk_bandwidth_intervals b \<noteq> []" and "0 < B" and "\<forall>iv \<in> set (bk_bandwidth_intervals b). 1 / B < fst (iv_x_range iv)"
  shows "find_interval b B = Inr (Some (last (bk_bandwidth_intervals b)))"
proof -
  have "find (\<lambda>iv. fst (iv_x_range iv) \<le> 1 / B \<and> 1 / B < snd (iv_x_range iv)) (bk_bandwidth_intervals b) = None"
    using assms(3) by (auto simp: find_None_iff)
  then show ?thesis using assms(1,2) by (simp add: find_interval_def py_div_def)
qed

lemma profile_dict_round_trip: "profile_from_dict (profile_to_dict p) = Inr p"
  by (simp add: profile_from_dict_def profile_to_dict_def dict_item_def dict_get_def)

end
