(* ===== verification/Bitpack.thy ===== *)
theory Bitpack
  imports Wire_Values
begin

unbundle bit_operations_syntax

text \<open>
  The bit-packing codec (\<^verbatim>\<open>codec/bitpack_codec.py\<close>): fixed-width coding of bounded uint8
  symbols behind a 16-byte header.  The kernels compute in 32-bit lanes; values fit in 32 bits
  by construction, and the lane indices do as long as the packed bits number at most \<open>2^31\<close>.
  Beyond that the indices wrap and memory accesses are undefined: the model stops with an
  error there.  A device assertion that fails is a \<open>RuntimeError\<close>.
\<close>

section \<open>The kernels\<close>

definition packed_size :: "nat \<Rightarrow> nat \<Rightarrow> nat" where
  "packed_size n bits = (n * bits + 7) div 8"

definition lanes_exact :: "nat \<Rightarrow> nat \<Rightarrow> bool" where
  "lanes_exact n bits \<longleftrightarrow> packed_size n bits * 8 \<le> 2 ^ 31"

text \<open>The masked load of symbol \<open>first + j\<close> for one output byte.\<close>

definition pack_symbol :: "nat \<Rightarrow> byte list \<Rightarrow> nat \<Rightarrow> nat \<Rightarrow> nat" where
  "pack_symbol bits source b j =
     (let first = b * 8 div bits; offset = b * 8 mod bits in
      if b < packed_size (length source) bits \<and> first + j < length source \<and> (j = 0 \<or> j * bits - offset < 8)
      then unat (source ! (first + j)) else 0)"

definition pack_steps :: "nat \<Rightarrow> nat list" where
  "pack_steps bits = [1..<(7 + bits - 1) div bits + 1]"

definition pack_byte :: "nat \<Rightarrow> byte list \<Rightarrow> nat \<Rightarrow> byte result" where
  "pack_byte bits source b =
     (let offset = b * 8 mod bits in
      if list_ex (\<lambda>j. 2 ^ bits \<le> pack_symbol bits source b j) (0 # pack_steps bits) then Inl RuntimeError
      else Inr (of_nat (fold (\<lambda>j packed. packed OR push_bit (j * bits - offset) (pack_symbol bits source b j))
             (pack_steps bits) (drop_bit offset (pack_symbol bits source b 0)))))"

definition bitpack_magic :: nat where
  "bitpack_magic = 0x0150424B"

definition bitpack_header :: "nat \<Rightarrow> nat \<Rightarrow> byte list" where
  "bitpack_header n bits = map (\<lambda>h. of_nat
     (if h < 4 then drop_bit (h mod 4 * 8) bitpack_magic AND 255
      else if h = 4 then bits
      else if 8 \<le> h then drop_bit (h mod 8 * 8) n AND 255 else 0)) [0..<16]"

definition pack_kernel :: "nat \<Rightarrow> byte list \<Rightarrow> byte list result" where
  "pack_kernel bits source =
     (if \<not> lanes_exact (length source) bits then Inl RuntimeError
      else bind_res (map_res (pack_byte bits source) [0..<packed_size (length source) bits]) (\<lambda>body.
        Inr (bitpack_header (length source) bits @ body)))"

definition unpack_symbol :: "nat \<Rightarrow> nat \<Rightarrow> byte list \<Rightarrow> nat \<Rightarrow> byte" where
  "unpack_symbol n bits source i =
     (let size = packed_size n bits; b = i * bits div 8; offset = i * bits mod 8;
          lo = (if i < n \<and> b < size then unat (source ! (16 + b)) else 0);
          hi = (if i < n \<and> b + 1 < size \<and> 8 < offset + bits then unat (source ! (16 + b + 1)) else 0)
      in of_nat (drop_bit offset (lo OR push_bit 8 hi) AND (2 ^ bits - 1)))"

definition unpack_kernel :: "nat \<Rightarrow> nat \<Rightarrow> byte list \<Rightarrow> byte list result" where
  "unpack_kernel n bits source =
     (if \<not> lanes_exact n bits \<or> take 16 source \<noteq> bitpack_header n bits then Inl RuntimeError
      else Inr (map (unpack_symbol n bits source) [0..<n]))"

section \<open>The codec\<close>

definition bitpack_width :: "nat \<Rightarrow> pydict \<Rightarrow> nat result" where
  "bitpack_width current kwargs = (case dict_get kwargs ''bitpack_bits'' (PInt (int current)) of
       PInt i \<Rightarrow> (if 1 \<le> i \<and> i \<le> 8 then Inr (nat i) else Inl ValueError)
     | _ \<Rightarrow> Inl ValueError)"

definition BitPackCodec :: "pydict \<Rightarrow> nat result" where
  "BitPackCodec kwargs = bitpack_width 8 kwargs"

definition check_tensor :: "bool \<Rightarrow> tensor \<Rightarrow> unit result" where
  "check_tensor is_cuda t = (if tn_dtype t \<noteq> UInt8 then Inl TypeError else if \<not> is_cuda then Inl ValueError else Inr ())"

definition bitpack_encode :: "nat \<Rightarrow> bool \<Rightarrow> pydict \<Rightarrow> tensor \<Rightarrow> tensor result" where
  "bitpack_encode current is_cuda kwargs t =
     bind_res (bitpack_width current kwargs) (\<lambda>bits. bind_res (check_tensor is_cuda t) (\<lambda>_.
     bind_res (pack_kernel bits (tn_bytes t)) (\<lambda>bs.
       Inr \<lparr>tn_dtype = UInt8, tn_shape = [16 + packed_size (tn_numel t) bits], tn_bytes = bs\<rparr>)))"

definition remove_torch_prefix :: "string \<Rightarrow> string" where
  "remove_torch_prefix s = (if take 6 s = ''torch.'' then drop 6 s else s)"

text \<open>\<open>same_device\<close>: the target names the payload's CUDA device.\<close>

definition bitpack_decode ::
    "nat \<Rightarrow> bool \<Rightarrow> bool \<Rightarrow> pydict \<Rightarrow> tensor \<Rightarrow> string \<Rightarrow> int list \<Rightarrow> tensor result" where
  "bitpack_decode current is_cuda same_device kwargs data original_dtype original_shape =
     bind_res (bitpack_width current kwargs) (\<lambda>bits. bind_res (check_tensor is_cuda data) (\<lambda>_.
     if remove_torch_prefix original_dtype \<noteq> ''uint8'' then Inl TypeError
     else if list_ex (\<lambda>d. d < 0) original_shape then Inl ValueError
     else if \<not> same_device then Inl ValueError
     else let shape = map nat original_shape; count = prod_list shape in
       if tn_numel data \<noteq> 16 + packed_size count bits then Inl ValueError
       else bind_res (unpack_kernel count bits (tn_bytes data)) (\<lambda>bs.
         Inr \<lparr>tn_dtype = UInt8, tn_shape = shape, tn_bytes = bs\<rparr>)))"

section \<open>The bit stream\<close>

text \<open>Bit \<open>k\<close> of the concatenated symbols, lowest bits first.\<close>

definition stream_bit :: "nat \<Rightarrow> byte list \<Rightarrow> nat \<Rightarrow> bool" where
  "stream_bit bits s k \<longleftrightarrow> k < length s * bits \<and> bit (unat (s ! (k div bits))) (k mod bits)"

definition bounded_symbols :: "nat \<Rightarrow> byte list \<Rightarrow> bool" where
  "bounded_symbols bits s \<longleftrightarrow> list_all (\<lambda>v. unat v < 2 ^ bits) s"

lemma bit_above: "(v::nat) < 2 ^ n \<Longrightarrow> bit v m \<Longrightarrow> m < n"
  by (metis bit_take_bit_iff take_bit_nat_eq_self)

lemma bit_fold_or: "bit (fold (\<lambda>j a. a OR f j) js (a::nat)) t \<longleftrightarrow> bit a t \<or> (\<exists>j \<in> set js. bit (f j) t)"
  by (induction js arbitrary: a) (auto simp: bit_or_iff)

lemma pack_symbol_bounded: "bounded_symbols bits s \<Longrightarrow> pack_symbol bits s b j < 2 ^ bits"
  by (auto simp: pack_symbol_def bounded_symbols_def list_all_iff Let_def)

lemma bit_byte_of_nat: "bit (of_nat n :: byte) t \<longleftrightarrow> t < 8 \<and> bit n t"
  by transfer (simp add: bit_take_bit_iff bit_of_nat_iff_bit)

lemma bex_unique: "(\<And>j. P j \<longleftrightarrow> j = q \<and> R) \<Longrightarrow> q \<in> S \<Longrightarrow> (\<exists>j \<in> S. P j) \<longleftrightarrow> R"
  by auto

text \<open>A packed byte is eight consecutive bits of the stream.\<close>

lemma pack_byte_bits:
  assumes bits: "0 < bits" and bd: "bounded_symbols bits s" and b: "b < packed_size (length s) bits"
  shows "\<exists>w. pack_byte bits s b = Inr w \<and> (\<forall>t < 8. bit w t \<longleftrightarrow> stream_bit bits s (b * 8 + t))"
proof -
  let ?v = "pack_symbol bits s b" and ?first = "b * 8 div bits" and ?off = "b * 8 mod bits"
  let ?X = "fold (\<lambda>j p. p OR push_bit (j * bits - ?off) (?v j)) (pack_steps bits) (drop_bit ?off (?v 0))"
  have vb: "?v j < 2 ^ bits" for j using bd by (rule pack_symbol_bounded)
  have off: "?off < bits" using bits by simp
  have X: "bit ?X t \<longleftrightarrow> stream_bit bits s (b * 8 + t)" if t: "t < 8" for t
  proof -
    let ?q = "(?off + t) div bits" and ?m = "(?off + t) mod bits"
    have shift: "bit (push_bit (j * bits - ?off) (?v j)) t \<longleftrightarrow> j * bits \<le> ?off + t \<and> bit (?v j) (?off + t - j * bits)"
      if "0 < j" for j
    proof -
      have "bits \<le> j * bits" using that by simp
      then have "?off \<le> j * bits" using off by linarith
      then have "j * bits - ?off \<le> t \<longleftrightarrow> j * bits \<le> ?off + t"
        "j * bits \<le> ?off + t \<Longrightarrow> t - (j * bits - ?off) = ?off + t - j * bits" by linarith+
      then show ?thesis by (auto simp: bit_push_bit_iff)
    qed
    have uniq: "j * bits \<le> ?off + t \<and> bit (?v j) (?off + t - j * bits) \<longleftrightarrow> j = ?q \<and> bit (?v ?q) ?m" for j
    proof
      assume h: "j * bits \<le> ?off + t \<and> bit (?v j) (?off + t - j * bits)"
      then have "?off + t - j * bits < bits" using bit_above[OF vb] by blast
      then have "(?off + t) div bits = j" using h by (intro div_nat_eqI) (auto simp: algebra_simps)
      then show "j = ?q \<and> bit (?v ?q) ?m" using h by (simp add: minus_mult_div_eq_mod[symmetric] mult.commute)
    next
      assume h: "j = ?q \<and> bit (?v ?q) ?m"
      then show "j * bits \<le> ?off + t \<and> bit (?v j) (?off + t - j * bits)"
        by (simp add: minus_div_mult_eq_mod)
    qed
    have "?q \<le> (7 + bits - 1) div bits" using off t by (intro div_le_mono) linarith
    then have qset: "?q \<noteq> 0 \<Longrightarrow> ?q \<in> set (pack_steps bits)"
      unfolding pack_steps_def set_upt atLeastLessThan_iff by linarith
    have "bit ?X t \<longleftrightarrow> bit (?v 0) (?off + t) \<or> (\<exists>j \<in> set (pack_steps bits). bit (push_bit (j * bits - ?off) (?v j)) t)"
      by (simp add: bit_fold_or bit_drop_bit_eq)
    also have "\<dots> \<longleftrightarrow> (\<exists>j \<in> insert 0 (set (pack_steps bits)). j * bits \<le> ?off + t \<and> bit (?v j) (?off + t - j * bits))"
      using shift by (auto simp: pack_steps_def)
    also have "\<dots> \<longleftrightarrow> bit (?v ?q) ?m" by (rule bex_unique[OF uniq]) (use qset in \<open>cases "?q = 0"; simp\<close>)
    finally have X: "bit ?X t \<longleftrightarrow> bit (?v ?q) ?m" .
    have e: "b * 8 + t = ?first * bits + (?off + t)" by (metis add.assoc div_mult_mod_eq)
    have dm: "(b * 8 + t) div bits = ?first + ?q" "(b * 8 + t) mod bits = ?m"
      using bits by (subst e, subst div_mult_self3, simp_all, simp add: mod_add_left_eq)
    have "b * 8 + t < length s * bits \<longleftrightarrow> ?first + ?q < length s"
      unfolding dm(1)[symmetric] using bits by (simp add: div_less_iff_less_mult)
    moreover have "?q = 0 \<or> ?q * bits - ?off < 8" using t div_times_less_eq_dividend[of "?off + t" bits] by linarith
    ultimately show ?thesis unfolding X stream_bit_def dm using b by (simp add: pack_symbol_def Let_def)
  qed
  have "pack_byte bits s b = Inr (of_nat ?X)"
    using vb by (simp add: pack_byte_def Let_def list_ex_iff not_le)
  then show ?thesis using X by (auto simp: bit_byte_of_nat)
qed

lemma bit_lt_256: "bit (unat (w::byte)) m \<Longrightarrow> m < 8"
  using bit_above[of "unat w" 8 m] unsigned_less[of w] by simp

lemma bit_field: "bit (drop_bit k x AND (2 ^ n - 1)) u \<longleftrightarrow> u < n \<and> bit (x::nat) (k + u)"
  unfolding mask_eq_exp_minus_1[symmetric] by (auto simp: bit_and_iff bit_drop_bit_eq bit_mask_iff)

lemma unpack_symbol_eq:
  assumes bits: "0 < bits" "bits \<le> 8" and bd: "bounded_symbols bits s" and i: "i < length s"
    and len: "length body = packed_size (length s) bits" "length hdr = 16"
    and body: "\<And>b t. b < packed_size (length s) bits \<Longrightarrow> t < 8 \<Longrightarrow> bit (body ! b) t \<longleftrightarrow> stream_bit bits s (b * 8 + t)"
  shows "unpack_symbol (length s) bits (hdr @ body) i = s ! i"
proof -
  let ?size = "packed_size (length s) bits" and ?b = "i * bits div 8" and ?off = "i * bits mod 8"
  let ?lo = "if i < length s \<and> ?b < ?size then unat ((hdr @ body) ! (16 + ?b)) else 0"
  let ?hi = "if i < length s \<and> ?b + 1 < ?size \<and> 8 < ?off + bits then unat ((hdr @ body) ! (16 + ?b + 1)) else 0"
  have sym: "unat (s ! i) < 2 ^ bits" using bd i by (simp add: bounded_symbols_def list_all_iff)
  have "bit (drop_bit ?off (?lo OR push_bit 8 ?hi) AND (2 ^ bits - 1)) u \<longleftrightarrow> bit (unat (s ! i)) u" for u
  proof (cases "u < bits")
    case True
    let ?k = "i * bits + u"
    have "i * bits + bits \<le> length s * bits" using i by (metis Suc_leI add.commute mult_Suc mult_le_mono1)
    then have k: "?k < length s * bits" using True by linarith
    have "?k div 8 \<le> (length s * bits - 1) div 8" using k by (intro div_le_mono) linarith
    also have "\<dots> < ?size" using k by (simp add: packed_size_def)
    finally have ksz: "?k div 8 < ?size" .
    have kk: "?k = ?b * 8 + (?off + u)" by simp
    have sb: "stream_bit bits s ?k \<longleftrightarrow> bit (unat (s ! i)) u" using k True bits by (simp add: stream_bit_def)
    have "bit (?lo OR push_bit 8 ?hi) (?off + u) \<longleftrightarrow> stream_bit bits s ?k"
    proof (cases "?off + u < 8")
      case True
      then have "?b < ?size" using ksz by linarith
      then have "bit ?lo (?off + u) \<longleftrightarrow> stream_bit bits s (?b * 8 + (?off + u))"
        using i len body[of ?b "?off + u"] True by (simp add: nth_append bit_unsigned_iff)
      then show ?thesis using True by (simp add: bit_or_iff bit_push_bit_iff kk[symmetric])
    next
      case False
      have o: "?off + u - 8 < 8" using True bits(2) by linarith
      have "(?b + 1) * 8 \<le> ?b * 8 + (?off + u)" using False by (simp only: distrib_right not_less)
      then have "(?b + 1) * 8 \<le> ?k" by (simp only: kk[symmetric])
      then have "?b + 1 \<le> ?k div 8" by (simp only: less_eq_div_iff_mult_less_eq zero_less_numeral)
      then have "?b + 1 < ?size" using ksz by linarith
      moreover have "8 < ?off + bits" using False True by linarith
      ultimately have "bit ?hi (?off + u - 8) \<longleftrightarrow> stream_bit bits s ((?b + 1) * 8 + (?off + u - 8))"
        using i len body[of "?b + 1" "?off + u - 8"] o by (simp add: nth_append bit_unsigned_iff)
      moreover have "(?b + 1) * 8 + (?off + u - 8) = ?k" using False by simp
      moreover have "\<not> bit ?lo (?off + u)" using False bit_lt_256 by auto
      ultimately show ?thesis using False by (simp add: bit_or_iff bit_push_bit_iff)
    qed
    then show ?thesis unfolding bit_field sb using True by blast
  next
    case False
    then have "\<not> bit (unat (s ! i)) u" using bit_above[OF sym] by blast
    then show ?thesis unfolding bit_field using False by blast
  qed
  then have "drop_bit ?off (?lo OR push_bit 8 ?hi) AND (2 ^ bits - 1) = unat (s ! i)" by (intro bit_eqI) simp
  then show ?thesis by (simp add: unpack_symbol_def Let_def del: nth_append)
qed

lemma pack_unpack_kernel:
  assumes "0 < bits" and "bits \<le> 8" and "bounded_symbols bits s" and "lanes_exact (length s) bits"
  shows "\<exists>bs. pack_kernel bits s = Inr bs \<and> length bs = 16 + packed_size (length s) bits \<and>
    unpack_kernel (length s) bits bs = Inr s"
proof -
  let ?n = "packed_size (length s) bits"
  define g where "g b = projr (pack_byte bits s b)" for b
  have g: "pack_byte bits s b = Inr (g b)" "\<And>t. t < 8 \<Longrightarrow> bit (g b) t \<longleftrightarrow> stream_bit bits s (b * 8 + t)" if "b < ?n" for b
    using pack_byte_bits[OF assms(1,3) that] by (auto simp: g_def)
  let ?body = "map g [0..<?n]" and ?h = "bitpack_header (length s) bits"
  have "map_res (pack_byte bits s) [0..<?n] = Inr ?body" using g(1) by (intro map_res_map) simp
  then have pack: "pack_kernel bits s = Inr (?h @ ?body)" using assms(4) by (simp add: pack_kernel_def)
  have hl: "length ?h = 16" by (simp add: bitpack_header_def)
  have "unpack_symbol (length s) bits (?h @ ?body) i = s ! i" if "i < length s" for i
    using g(2) by (intro unpack_symbol_eq[OF assms(1-3) that _ hl]) simp_all
  then have "map (unpack_symbol (length s) bits (?h @ ?body)) [0..<length s] = s" by (intro nth_equalityI) simp_all
  then show ?thesis using pack hl assms(4) by (simp add: unpack_kernel_def)
qed

definition packable :: "nat \<Rightarrow> tensor \<Rightarrow> bool" where
  "packable bits t \<longleftrightarrow> tn_dtype t = UInt8 \<and> wf_tensor t \<and> bounded_symbols bits (tn_bytes t) \<and> lanes_exact (tn_numel t) bits"

lemma codec_round_trip:
  assumes "1 \<le> bits" and "bits \<le> 8" and "packable bits t"
  shows "\<exists>p. bitpack_encode bits True [] t = Inr p \<and> wf_tensor p \<and> tn_numel p = 16 + packed_size (tn_numel t) bits \<and>
    bitpack_decode bits True True [] p (dtype_name UInt8) (map int (tn_shape t)) = Inr t"
proof -
  have len: "length (tn_bytes t) = tn_numel t" "tn_dtype t = UInt8"
    using assms(3) by (auto simp: packable_def wf_tensor_def tn_nbytes_def)
  obtain bs where bs: "pack_kernel bits (tn_bytes t) = Inr bs" "length bs = 16 + packed_size (tn_numel t) bits"
    "unpack_kernel (tn_numel t) bits bs = Inr (tn_bytes t)"
    using pack_unpack_kernel[of bits "tn_bytes t"] assms len by (auto simp: packable_def)
  have w: "bitpack_width bits [] = Inr bits" using assms(1,2) by (simp add: bitpack_width_def dict_get_def)
  let ?p = "\<lparr>tn_dtype = UInt8, tn_shape = [16 + packed_size (tn_numel t) bits], tn_bytes = bs\<rparr>"
  have "map nat (map int (tn_shape t)) = tn_shape t" by (simp add: comp_def)
  then have "bitpack_decode bits True True [] ?p (dtype_name UInt8) (map int (tn_shape t)) = Inr t"
    using w bs(3) len(2)
    by (simp add: bitpack_decode_def check_tensor_def remove_torch_prefix_def Let_def tn_numel_def list_ex_iff)
  moreover have "bitpack_encode bits True [] t = Inr ?p" using w bs(1) len(2) by (simp add: bitpack_encode_def check_tensor_def)
  ultimately show ?thesis using bs(2) by (auto simp: wf_tensor_def tn_nbytes_def tn_numel_def)
qed

text \<open>For one width and shape, the codec is a lossless code of the symbols.\<close>

interpretation bitpack: lossless_codec "\<lambda>t. 1 \<le> bits \<and> bits \<le> 8 \<and> packable bits t \<and> tn_shape t = sh"
    "bitpack_encode bits True []" "\<lambda>p. bitpack_decode bits True True [] p (dtype_name UInt8) (map int sh)" for bits sh
  by unfold_locales (fastforce dest: codec_round_trip)+

section \<open>Properties\<close>

text \<open>
  C33: Bit packing is lossless for every width from 1 to 8.  Symbols below \<open>2^bits\<close> of any shape
  encode to a header and \<open>ceil(n * bits / 8)\<close> bytes, and decoding restores them bit by bit,
  also where a symbol straddles two bytes.
\<close>

theorem bitpack_round_trip:
  assumes "1 \<le> bits" and "bits \<le> 8" and "packable bits t"
  shows "\<exists>p. bitpack_encode bits True [] t = Inr p \<and> tn_numel p = 16 + (tn_numel t * bits + 7) div 8 \<and>
    bitpack_decode bits True True [] p (dtype_name UInt8) (map int (tn_shape t)) = Inr t"
  using codec_round_trip[OF assms] by (auto simp: packed_size_def)

theorem bitpack_round_trip_witness:
  "\<exists>p. bitpack_encode 3 True [] \<lparr>tn_dtype = UInt8, tn_shape = [2, 3], tn_bytes = [7, 0, 5, 2, 6, 1]\<rparr> = Inr p \<and>
     bitpack_decode 3 True True [] p (dtype_name UInt8) [2, 3] = Inr \<lparr>tn_dtype = UInt8, tn_shape = [2, 3], tn_bytes = [7, 0, 5, 2, 6, 1]\<rparr>"
proof -
  have "packable 3 \<lparr>tn_dtype = UInt8, tn_shape = [2, 3], tn_bytes = [7, 0, 5, 2, 6, 1]\<rparr>"
    by (simp add: packable_def wf_tensor_def tn_nbytes_def tn_numel_def bounded_symbols_def lanes_exact_def packed_size_def)
  then show ?thesis using bitpack_round_trip[of 3 "\<lparr>tn_dtype = UInt8, tn_shape = [2, 3], tn_bytes = [7, 0, 5, 2, 6, 1]\<rparr>"] by auto
qed

end
