(* ===== verification/KV_Blocks.thy ===== *)
theory KV_Blocks
  imports Wire_Values
begin

text \<open>
  Paged KV buffers (\<^verbatim>\<open>utils/kv_utils.py\<close>): slot mappings and the extraction and injection of
  the blocks of one request.  Tensors are contiguous row-major byte arrays; indexing,
  assignment through an index and broadcasting are the ones torch documents.  An index out of
  range is an \<open>IndexError\<close>.  In-place updates return the updated tensor.
\<close>

section \<open>Rows of a tensor\<close>

definition chunks :: "nat \<Rightarrow> nat \<Rightarrow> 'a list \<Rightarrow> 'a list list" where
  "chunks n k xs = map (\<lambda>i. take n (drop (i * n) xs)) [0..<k]"

definition dim_at :: "tensor \<Rightarrow> nat \<Rightarrow> nat result" where
  "dim_at t i = (if i < length (tn_shape t) then Inr (tn_shape t ! i) else Inl IndexError)"

text \<open>The bytes of one entry once \<open>k\<close> leading dimensions are fixed.\<close>

definition inner_bytes :: "nat \<Rightarrow> tensor \<Rightarrow> nat" where
  "inner_bytes k t = prod_list (drop k (tn_shape t)) * itemsize (tn_dtype t)"

definition rows0 :: "tensor \<Rightarrow> byte list list" where
  "rows0 t = chunks (inner_bytes 1 t) (hd (tn_shape t)) (tn_bytes t)"

definition rows1 :: "tensor \<Rightarrow> byte list list list" where
  "rows1 t = map (chunks (inner_bytes 2 t) (tn_shape t ! 1)) (rows0 t)"

definition norm_index :: "nat \<Rightarrow> int \<Rightarrow> nat result" where
  "norm_index n i = (if 0 \<le> i \<and> i < int n then Inr (nat i)
     else if - int n \<le> i \<and> i < 0 then Inr (nat (i + int n)) else Inl IndexError)"

text \<open>\<open>t[idx, ...]\<close> and \<open>t[:, idx, ...]\<close>\<close>

definition select0 :: "tensor \<Rightarrow> int list \<Rightarrow> tensor result" where
  "select0 t idx = bind_res (dim_at t 0) (\<lambda>n. bind_res (map_res (norm_index n) idx) (\<lambda>is.
     Inr (t\<lparr>tn_shape := length idx # drop 1 (tn_shape t),
            tn_bytes := concat (map (\<lambda>i. rows0 t ! i) is)\<rparr>)))"

definition select1 :: "tensor \<Rightarrow> int list \<Rightarrow> tensor result" where
  "select1 t idx = bind_res (dim_at t 1) (\<lambda>n. bind_res (map_res (norm_index n) idx) (\<lambda>is.
     Inr (t\<lparr>tn_shape := hd (tn_shape t) # length idx # drop 2 (tn_shape t),
            tn_bytes := concat (map (\<lambda>row. concat (map (\<lambda>i. row ! i) is)) (rows1 t))\<rparr>)))"

section \<open>Assignment\<close>

fun expand_dims :: "nat \<Rightarrow> nat list \<Rightarrow> nat list \<Rightarrow> byte list \<Rightarrow> byte list" where
  "expand_dims z (d # ds) (t # ts) bs =
     (if d = t then concat (map (expand_dims z ds ts) (chunks (prod_list ds * z) d bs))
      else concat (replicate t (expand_dims z ds ts bs)))"
| "expand_dims z _ _ bs = bs"

text \<open>The right-hand side of an assignment, broadcast to the shape of the target.\<close>

definition broadcast_to :: "nat list \<Rightarrow> tensor \<Rightarrow> byte list result" where
  "broadcast_to target p =
     (let sh = dropWhile (\<lambda>d. d = 1) (tn_shape p);
          padded = replicate (length target - length sh) 1 @ sh
      in if length target < length sh \<or> \<not> list_all2 (\<lambda>d t. d = t \<or> d = 1) padded target then Inl RuntimeError
         else Inr (expand_dims (itemsize (tn_dtype p)) padded target (tn_bytes p)))"

fun write_rows :: "'a list \<Rightarrow> nat list \<Rightarrow> 'a list \<Rightarrow> 'a list" where
  "write_rows rows (i # is) (b # bs) = write_rows (rows[i := b]) is bs"
| "write_rows rows _ _ = rows"

text \<open>\<open>t[idx, ...] = payload\<close> and \<open>t[:, idx, ...] = payload\<close>\<close>

definition assign0 :: "tensor \<Rightarrow> int list \<Rightarrow> tensor \<Rightarrow> tensor result" where
  "assign0 t idx p = bind_res (dim_at t 0) (\<lambda>n. bind_res (map_res (norm_index n) idx) (\<lambda>is.
     if tn_dtype p \<noteq> tn_dtype t then Inl RuntimeError
     else bind_res (broadcast_to (length idx # drop 1 (tn_shape t)) p) (\<lambda>bs.
       Inr (t\<lparr>tn_bytes := concat (write_rows (rows0 t) is (chunks (inner_bytes 1 t) (length idx) bs))\<rparr>))))"

definition assign1 :: "tensor \<Rightarrow> int list \<Rightarrow> tensor \<Rightarrow> tensor result" where
  "assign1 t idx p = bind_res (dim_at t 1) (\<lambda>n. bind_res (map_res (norm_index n) idx) (\<lambda>is.
     if tn_dtype p \<noteq> tn_dtype t then Inl RuntimeError
     else bind_res (broadcast_to (hd (tn_shape t) # length idx # drop 2 (tn_shape t)) p) (\<lambda>bs.
       Inr (t\<lparr>tn_bytes := concat (map2 (\<lambda>row b. concat (write_rows row is (chunks (inner_bytes 2 t) (length idx) b)))
              (rows1 t) (chunks (length idx * inner_bytes 2 t) (hd (tn_shape t)) bs))\<rparr>))))"

section \<open>The operations of kv\_utils\<close>

definition make_slot_mapping :: "int list \<Rightarrow> int list \<Rightarrow> int \<Rightarrow> int list" where
  "make_slot_mapping token_ids block_ids block_size =
     take (length token_ids) (concat (map (\<lambda>b. map (\<lambda>off. b * block_size + off) [0..block_size - 1]) block_ids))"

text \<open>\<open>t.reshape(2, num_pages * page_size, -1)\<close>\<close>

definition flat_layer :: "tensor \<Rightarrow> tensor result" where
  "flat_layer t = bind_res (dim_at t 1) (\<lambda>num_pages. bind_res (dim_at t 2) (\<lambda>page_size.
     let n = 2 * (num_pages * page_size) in
     if n = 0 \<or> tn_numel t mod n \<noteq> 0 then Inl RuntimeError
     else Inr (t\<lparr>tn_shape := [2, num_pages * page_size, tn_numel t div n]\<rparr>)))"

definition extract_kv_from_layer :: "tensor \<Rightarrow> int list \<Rightarrow> tensor result" where
  "extract_kv_from_layer kv_layer slot_mapping = bind_res (flat_layer kv_layer) (\<lambda>flat. select1 flat slot_mapping)"

definition inject_kv_into_layer :: "tensor \<Rightarrow> tensor \<Rightarrow> int list \<Rightarrow> tensor result" where
  "inject_kv_into_layer kv_cache_layer kv_data slot_mapping =
     bind_res (flat_layer kv_cache_layer) (\<lambda>flat. bind_res (assign1 flat slot_mapping kv_data) (\<lambda>flat'.
       Inr (kv_cache_layer\<lparr>tn_bytes := tn_bytes flat'\<rparr>)))"

definition extract_kv_from_layer_by_blocks :: "tensor \<Rightarrow> int list \<Rightarrow> tensor result" where
  "extract_kv_from_layer_by_blocks kv_layer block_ids =
     bind_res (dim_at kv_layer 0) (\<lambda>d0.
     if block_ids = [] then (if d0 = 2 then select1 kv_layer [] else select0 kv_layer [])
     else if d0 = 2 then select1 kv_layer block_ids
     else bind_res (dim_at kv_layer 1) (\<lambda>d1.
       if d1 = 2 then select0 kv_layer block_ids else Inl RuntimeError))"

definition inject_kv_into_layer_by_blocks :: "tensor \<Rightarrow> tensor \<Rightarrow> int list \<Rightarrow> tensor result" where
  "inject_kv_into_layer_by_blocks kv_cache_layer payload block_ids =
     (if block_ids = [] then Inr kv_cache_layer
      else bind_res (dim_at kv_cache_layer 0) (\<lambda>d0.
        if d0 = 2 then bind_res (dim_at payload 1) (\<lambda>num_blocks.
          if length block_ids = num_blocks then assign1 kv_cache_layer block_ids payload
          else assign1 kv_cache_layer (take num_blocks block_ids) payload)
        else bind_res (dim_at kv_cache_layer 1) (\<lambda>d1.
          if d1 = 2 then bind_res (dim_at payload 0) (\<lambda>num_blocks.
            if length block_ids = num_blocks then assign0 kv_cache_layer block_ids payload
            else assign0 kv_cache_layer (take num_blocks block_ids) payload)
          else Inl RuntimeError)))"

section \<open>Chunks\<close>

lemma length_chunks [simp]: "length (chunks n k xs) = k"
  by (simp add: chunks_def)

lemma nth_chunks [simp]: "i < k \<Longrightarrow> chunks n k xs ! i = take n (drop (i * n) xs)"
  by (simp add: chunks_def)

lemma chunks_Suc: "chunks n (Suc k) xs = take n xs # chunks n k (drop n xs)"
  by (intro nth_equalityI) (auto simp: nth_Cons' add.commute less_Suc_eq_0_disj)

lemma length_nth_chunks: "length xs = k * n \<Longrightarrow> i < k \<Longrightarrow> length (chunks n k xs ! i) = n"
proof -
  assume "length xs = k * n" "i < k"
  then have "Suc i * n \<le> length xs" by (simp only: mult_le_mono1 Suc_leI)
  then show ?thesis using \<open>i < k\<close> by simp
qed

lemma in_chunks_length: "length xs = k * n \<Longrightarrow> c \<in> set (chunks n k xs) \<Longrightarrow> length c = n"
  using length_nth_chunks by (metis in_set_conv_nth length_chunks)

lemma concat_chunks: "length xs = k * n \<Longrightarrow> concat (chunks n k xs) = xs"
  by (induction k arbitrary: xs) (simp_all add: chunks_Suc, simp add: chunks_def)

lemma chunks_concat: "(\<And>r. r \<in> set rs \<Longrightarrow> length r = n) \<Longrightarrow> length rs = k \<Longrightarrow> chunks n k (concat rs) = rs"
  by (induction rs arbitrary: k) (auto simp: chunks_Suc, simp add: chunks_def)

lemma length_concat_same: "(\<And>r. r \<in> set rs \<Longrightarrow> length r = n) \<Longrightarrow> length (concat rs) = length rs * n"
  by (induction rs) auto

lemma expand_same: "length bs = prod_list ds * z \<Longrightarrow> expand_dims z ds ds bs = bs"
proof (induction ds arbitrary: bs)
  case (Cons d ds)
  have "map (expand_dims z ds ds) (chunks (prod_list ds * z) d bs) = chunks (prod_list ds * z) d bs"
    using Cons.IH in_chunks_length[of bs d "prod_list ds * z"] Cons.prems by (intro map_idI) simp
  then show ?case using concat_chunks[of bs d "prod_list ds * z"] Cons.prems by simp
qed simp

lemma pad_leading_ones:
  "replicate (length xs - length (dropWhile (\<lambda>d. d = 1) xs)) 1 @ dropWhile (\<lambda>d. d = 1) xs = (xs :: nat list)"
proof -
  have "takeWhile (\<lambda>d. d = 1) xs = replicate (length (takeWhile (\<lambda>d. d = 1) xs)) 1"
    by (intro replicate_eqI) (auto dest: set_takeWhileD)
  moreover have "length (takeWhile (\<lambda>d. d = 1) xs) = length xs - length (dropWhile (\<lambda>d. d = 1) xs)"
    by (metis add_diff_cancel_right' length_append takeWhile_dropWhile_id)
  ultimately show ?thesis by (metis takeWhile_dropWhile_id)
qed

lemma broadcast_same: "wf_tensor p \<Longrightarrow> broadcast_to (tn_shape p) p = Inr (tn_bytes p)"
  unfolding broadcast_to_def Let_def pad_leading_ones
  by (simp add: length_dropWhile_le not_less list_all2_same expand_same wf_tensor_def tn_nbytes_def tn_numel_def)

lemma length_write_rows [simp]: "length (write_rows rows is bs) = length rows"
  by (induction rows "is" bs rule: write_rows.induct) auto

lemma write_rows_other: "j \<notin> set is \<Longrightarrow> write_rows rows is bs ! j = rows ! j"
  by (induction rows "is" bs rule: write_rows.induct) auto

lemma write_rows_at:
  "distinct is \<Longrightarrow> \<forall>i \<in> set is. i < length rows \<Longrightarrow> length bs = length is \<Longrightarrow> k < length is \<Longrightarrow>
   write_rows rows is bs ! (is ! k) = bs ! k"
  by (induction rows "is" bs arbitrary: k rule: write_rows.induct) (auto simp: write_rows_other nth_Cons')

lemma in_write_rows: "r \<in> set (write_rows rows is bs) \<Longrightarrow> r \<in> set rows \<or> r \<in> set bs"
  by (induction rows "is" bs rule: write_rows.induct) (auto dest: set_update_subset_insert[THEN subsetD])

section \<open>Selecting and assigning rows\<close>

lemma map_res_norm_index: "\<forall>i \<in> set is. i < n \<Longrightarrow> map_res (norm_index n) (map int is) = Inr is"
  by (induction "is") (auto simp: norm_index_def)

lemma rows0_length:
  "wf_tensor t \<Longrightarrow> tn_shape t = a # r \<Longrightarrow> length (tn_bytes t) = a * inner_bytes 1 t"
  by (simp add: wf_tensor_def tn_nbytes_def tn_numel_def inner_bytes_def)

lemma in_rows0: "wf_tensor t \<Longrightarrow> tn_shape t = a # r \<Longrightarrow> row \<in> set (rows0 t) \<Longrightarrow> length row = inner_bytes 1 t"
  using in_chunks_length[OF rows0_length] by (simp add: rows0_def)

lemma in_rows1:
  assumes "wf_tensor t" and "tn_shape t = a # b # r" and "row \<in> set (rows1 t)"
  shows "length row = b \<and> (\<forall>c \<in> set row. length c = inner_bytes 2 t)"
proof -
  obtain r0 where r0: "r0 \<in> set (rows0 t)" "row = chunks (inner_bytes 2 t) b r0"
    using assms(2,3) by (auto simp: rows1_def)
  have "length r0 = b * inner_bytes 2 t" using in_rows0[OF assms(1,2) r0(1)] assms(2) by (simp add: inner_bytes_def)
  then show ?thesis using r0(2) in_chunks_length by auto
qed

lemma length_rows [simp]:
  "length (rows0 t) = hd (tn_shape t)" "length (rows1 t) = hd (tn_shape t)"
  by (simp_all add: rows0_def rows1_def)

text \<open>A tensor is given by its rows.\<close>

lemma rows0_of_concat:
  assumes "tn_shape t = a # r" and "tn_bytes t = concat rs" and "length rs = a"
    and "\<And>x. x \<in> set rs \<Longrightarrow> length x = inner_bytes 1 t"
  shows "rows0 t = rs \<and> wf_tensor t"
  using assms chunks_concat[of rs "inner_bytes 1 t" a] length_concat_same[of rs "inner_bytes 1 t"]
  by (simp add: rows0_def wf_tensor_def tn_nbytes_def tn_numel_def inner_bytes_def)

lemma rows1_of_concat:
  assumes "tn_shape t = a # b # r" and "tn_bytes t = concat (map concat rs)" and "length rs = a"
    and "\<And>row. row \<in> set rs \<Longrightarrow> length row = b \<and> (\<forall>c \<in> set row. length c = inner_bytes 2 t)"
  shows "rows1 t = rs \<and> wf_tensor t"
proof -
  have "length x = inner_bytes 1 t" if "x \<in> set (map concat rs)" for x
  proof -
    obtain row where row: "row \<in> set rs" "x = concat row" using \<open>x \<in> set (map concat rs)\<close> by auto
    have "length x = b * inner_bytes 2 t"
      using assms(4)[OF row(1)] row(2) length_concat_same[of row "inner_bytes 2 t"] by simp
    then show ?thesis using assms(1) by (simp add: inner_bytes_def)
  qed
  then have "rows0 t = map concat rs \<and> wf_tensor t"
    using assms(1-3) by (intro rows0_of_concat[where r = "b # r"]) auto
  moreover have "chunks (inner_bytes 2 t) b (concat row) = row" if "row \<in> set rs" for row
    using assms(4)[OF that] by (intro chunks_concat) auto
  ultimately show ?thesis using assms(1) by (auto simp: rows1_def intro: map_idI)
qed

lemma select0_spec:
  assumes "wf_tensor t" and "tn_shape t = a # r" and "\<forall>i \<in> set is. i < a"
  shows "\<exists>p. select0 t (map int is) = Inr p \<and> wf_tensor p \<and> tn_dtype p = tn_dtype t \<and>
    tn_shape p = length is # r \<and> rows0 p = map (\<lambda>i. rows0 t ! i) is"
proof -
  let ?p = "t\<lparr>tn_shape := length is # r, tn_bytes := concat (map (\<lambda>i. rows0 t ! i) is)\<rparr>"
  have "length x = inner_bytes 1 ?p" if "x \<in> set (map (\<lambda>i. rows0 t ! i) is)" for x
    using that assms in_rows0[OF assms(1,2)] by (auto simp: inner_bytes_def)
  then have "rows0 ?p = map (\<lambda>i. rows0 t ! i) is \<and> wf_tensor ?p"
    by (intro rows0_of_concat[where r = r and a = "length is"]) auto
  moreover have "select0 t (map int is) = Inr ?p"
    using map_res_norm_index[OF assms(3)] assms(2) by (simp add: select0_def dim_at_def)
  ultimately show ?thesis by simp
qed

lemma select1_spec:
  assumes "wf_tensor t" and "tn_shape t = a # b # r" and "\<forall>i \<in> set is. i < b"
  shows "\<exists>p. select1 t (map int is) = Inr p \<and> wf_tensor p \<and> tn_dtype p = tn_dtype t \<and>
    tn_shape p = a # length is # r \<and> rows1 p = map (\<lambda>row. map (\<lambda>i. row ! i) is) (rows1 t)"
proof -
  let ?rs = "map (\<lambda>row. map (\<lambda>i. row ! i) is) (rows1 t)"
  let ?p = "t\<lparr>tn_shape := a # length is # r, tn_bytes := concat (map concat ?rs)\<rparr>"
  have "length row = length is \<and> (\<forall>c \<in> set row. length c = inner_bytes 2 ?p)" if "row \<in> set ?rs" for row
    using that assms in_rows1[OF assms(1,2)] by (auto simp: inner_bytes_def)
  then have "rows1 ?p = ?rs \<and> wf_tensor ?p"
    using assms(2) by (intro rows1_of_concat[where r = r and a = a and b = "length is"]) auto
  moreover have "select1 t (map int is) = Inr ?p"
    using map_res_norm_index[OF assms(3)] assms(2) by (simp add: select1_def dim_at_def comp_def)
  ultimately show ?thesis by simp
qed

lemma assign0_spec:
  assumes "wf_tensor t" and "tn_shape t = a # r" and "\<forall>i \<in> set is. i < a"
    and "wf_tensor p" and "tn_dtype p = tn_dtype t" and "tn_shape p = length is # r"
  shows "\<exists>t'. assign0 t (map int is) p = Inr t' \<and> wf_tensor t' \<and> tn_dtype t' = tn_dtype t \<and>
    tn_shape t' = tn_shape t \<and> rows0 t' = write_rows (rows0 t) is (rows0 p)"
proof -
  let ?rs = "write_rows (rows0 t) is (rows0 p)"
  let ?t = "t\<lparr>tn_bytes := concat ?rs\<rparr>"
  have in1: "inner_bytes 1 p = inner_bytes 1 t" using assms(2,5,6) by (simp add: inner_bytes_def)
  have "length x = inner_bytes 1 ?t" if "x \<in> set ?rs" for x
    using in_write_rows[OF that] in_rows0[OF assms(1,2)] in_rows0[OF assms(4,6)] in1 by (auto simp: inner_bytes_def)
  then have "rows0 ?t = ?rs \<and> wf_tensor ?t"
    using assms(2) by (intro rows0_of_concat[where r = r and a = a]) auto
  moreover have "broadcast_to (length is # r) p = Inr (tn_bytes p)" using broadcast_same[OF assms(4)] assms(6) by simp
  then have "assign0 t (map int is) p = Inr ?t"
    using map_res_norm_index[OF assms(3)] assms(2,5,6) in1 by (simp add: assign0_def dim_at_def rows0_def[of p])
  ultimately show ?thesis by simp
qed

lemma assign1_spec:
  assumes "wf_tensor t" and "tn_shape t = a # b # r" and "\<forall>i \<in> set is. i < b"
    and "wf_tensor p" and "tn_dtype p = tn_dtype t" and "tn_shape p = a # length is # r"
  shows "\<exists>t'. assign1 t (map int is) p = Inr t' \<and> wf_tensor t' \<and> tn_dtype t' = tn_dtype t \<and>
    tn_shape t' = tn_shape t \<and> rows1 t' = map2 (\<lambda>row prow. write_rows row is prow) (rows1 t) (rows1 p)"
proof -
  let ?rs = "map2 (\<lambda>row prow. write_rows row is prow) (rows1 t) (rows1 p)"
  let ?t = "t\<lparr>tn_bytes := concat (map concat ?rs)\<rparr>"
  have in2: "inner_bytes 2 p = inner_bytes 2 t" using assms(2,5,6) by (simp add: inner_bytes_def)
  have in1: "inner_bytes 1 p = length is * inner_bytes 2 t" using assms(2,5,6) by (simp add: inner_bytes_def)
  have "length row = b \<and> (\<forall>c \<in> set row. length c = inner_bytes 2 ?t)" if "row \<in> set ?rs" for row
  proof -
    obtain r1 r2 where r: "r1 \<in> set (rows1 t)" "r2 \<in> set (rows1 p)" "row = write_rows r1 is r2"
      using \<open>row \<in> set ?rs\<close> by (auto dest: set_zip_leftD set_zip_rightD)
    then show ?thesis using in_rows1[OF assms(1,2) r(1)] in_rows1[OF assms(4,6) r(2)] in2
      by (auto simp: inner_bytes_def dest!: in_write_rows)
  qed
  then have "rows1 ?t = ?rs \<and> wf_tensor ?t"
    using assms(2,6) by (intro rows1_of_concat[where r = r and a = a and b = b]) auto
  moreover have "broadcast_to (a # length is # r) p = Inr (tn_bytes p)" using broadcast_same[OF assms(4)] assms(6) by simp
  then have "assign1 t (map int is) p = Inr ?t"
    using map_res_norm_index[OF assms(3)] assms(2,5,6) in1 in2
    by (simp add: assign1_def dim_at_def rows1_def[of p] rows0_def[of p] map2_map_map comp_def zip_map2 case_prod_unfold)
  ultimately show ?thesis by simp
qed

section \<open>Blocks of a paged layer\<close>

text \<open>Block \<open>b\<close> of a tensor whose block dimension is the second one (keys and values first) or the first.\<close>

definition block_of :: "bool \<Rightarrow> tensor \<Rightarrow> nat \<Rightarrow> byte list" where
  "block_of split t b = (if split then concat (map (\<lambda>row. row ! b) (rows1 t)) else rows0 t ! b)"

definition kv_first :: "tensor \<Rightarrow> bool" where
  "kv_first t \<longleftrightarrow> hd (tn_shape t) = 2"

definition kv_block :: "tensor \<Rightarrow> nat \<Rightarrow> byte list" where
  "kv_block t = block_of (kv_first t) t"

definition num_kv_blocks :: "tensor \<Rightarrow> nat" where
  "num_kv_blocks t = (if kv_first t then tn_shape t ! 1 else hd (tn_shape t))"

definition paged_layer :: "tensor \<Rightarrow> bool" where
  "paged_layer t \<longleftrightarrow> wf_tensor t \<and> (case tn_shape t of a # b # r \<Rightarrow> a = 2 \<or> b = 2 | _ \<Rightarrow> False)"

text \<open>The shape of \<open>n\<close> blocks taken out of a layer.\<close>

definition blocks_shape :: "tensor \<Rightarrow> nat \<Rightarrow> nat list" where
  "blocks_shape t n = (if kv_first t then 2 # n # drop 2 (tn_shape t) else n # drop 1 (tn_shape t))"

definition blocks_for :: "tensor \<Rightarrow> nat \<Rightarrow> tensor \<Rightarrow> bool" where
  "blocks_for t n p \<longleftrightarrow> wf_tensor p \<and> tn_dtype p = tn_dtype t \<and> tn_shape p = blocks_shape t n"

lemma paged_layerE:
  assumes "paged_layer t"
  obtains (kv) b r where "tn_shape t = 2 # b # r" and "kv_first t" and "num_kv_blocks t = b" and "wf_tensor t"
  | (blk) a r where "tn_shape t = a # 2 # r" and "\<not> kv_first t" and "num_kv_blocks t = a" and "wf_tensor t" and "a \<noteq> 2"
  using assms by (auto simp: paged_layer_def kv_first_def num_kv_blocks_def split: list.splits)

lemma extract_spec:
  assumes "paged_layer t" and "\<forall>i \<in> set is. i < num_kv_blocks t"
  shows "\<exists>p. extract_kv_from_layer_by_blocks t (map int is) = Inr p \<and> blocks_for t (length is) p \<and>
    (\<forall>k < length is. block_of (kv_first t) p k = kv_block t (is ! k))"
  using assms(1)
proof (cases rule: paged_layerE)
  case (kv b r)
  then obtain p where p: "select1 t (map int is) = Inr p" "wf_tensor p" "tn_dtype p = tn_dtype t"
    "tn_shape p = 2 # length is # r" "rows1 p = map (\<lambda>row. map (\<lambda>i. row ! i) is) (rows1 t)"
    using select1_spec[of t 2 b r "is"] assms(2) by auto
  have "extract_kv_from_layer_by_blocks t (map int is) = Inr p"
    using p(1) kv(1) by (cases "is") (auto simp: extract_kv_from_layer_by_blocks_def dim_at_def)
  moreover have "block_of True p k = kv_block t (is ! k)" if "k < length is" for k
  proof -
    have "map (\<lambda>row. row ! k) (rows1 p) = map (\<lambda>row. row ! (is ! k)) (rows1 t)" using p(5) that by simp
    then show ?thesis using kv(2) unfolding block_of_def kv_block_def by simp
  qed
  ultimately show ?thesis using p(2-4) kv(1,2) by (auto simp: blocks_for_def blocks_shape_def)
next
  case (blk a r)
  then obtain p where p: "select0 t (map int is) = Inr p" "wf_tensor p" "tn_dtype p = tn_dtype t"
    "tn_shape p = length is # 2 # r" "rows0 p = map (\<lambda>i. rows0 t ! i) is"
    using select0_spec[of t a "2 # r" "is"] assms(2) by auto
  have "extract_kv_from_layer_by_blocks t (map int is) = Inr p"
    using p(1) blk(1,5) by (cases "is") (auto simp: extract_kv_from_layer_by_blocks_def dim_at_def)
  then show ?thesis using p(2-5) blk(1,2) by (auto simp: blocks_for_def blocks_shape_def block_of_def kv_block_def)
qed

lemma block_of_two: "hd (tn_shape u) = 2 \<Longrightarrow> block_of True u j = rows1 u ! 0 ! j @ rows1 u ! 1 ! j"
  using length_rows(2)[of u] by (cases "rows1 u"; cases "tl (rows1 u)") (auto simp: block_of_def)

lemma inject_spec:
  assumes "paged_layer t" and "blocks_for t n p" and "\<forall>j \<in> set js. j < num_kv_blocks t" and "distinct js"
    and "n \<le> length js" and "js \<noteq> []"
  shows "\<exists>t'. inject_kv_into_layer_by_blocks t p (map int js) = Inr t' \<and> paged_layer t' \<and>
    tn_dtype t' = tn_dtype t \<and> tn_shape t' = tn_shape t \<and>
    (\<forall>k < n. kv_block t' (js ! k) = block_of (kv_first t) p k) \<and>
    (\<forall>j < num_kv_blocks t. j \<notin> set (take n js) \<longrightarrow> kv_block t' j = kv_block t j)"
proof -
  let ?is = "take n js"
  have len: "length ?is = n" using assms(5) by simp
  have dist: "distinct ?is" and rng: "\<forall>i \<in> set ?is. i < num_kv_blocks t"
    using assms(3,4) by (auto dest: in_set_takeD)
  show ?thesis using assms(1)
  proof (cases rule: paged_layerE)
    case (kv b r)
    have p: "wf_tensor p" "tn_dtype p = tn_dtype t" "tn_shape p = 2 # length ?is # r"
      using assms(2) kv len by (simp_all add: blocks_for_def blocks_shape_def)
    obtain t' where t': "assign1 t (map int ?is) p = Inr t'" "wf_tensor t'" "tn_dtype t' = tn_dtype t"
      "tn_shape t' = tn_shape t" "rows1 t' = map2 (\<lambda>row prow. write_rows row ?is prow) (rows1 t) (rows1 p)"
      using assign1_spec[OF kv(4,1) _ p] rng kv(3) by auto
    have "inject_kv_into_layer_by_blocks t p (map int js) = Inr t'"
      unfolding inject_kv_into_layer_by_blocks_def
      using t'(1) kv(1) p(3)[unfolded len] assms(6) by (auto simp: dim_at_def take_map)
    moreover have first: "kv_first t'" using kv(1) t'(4) by (simp add: kv_first_def)
    have cell: "rows1 t' ! i = write_rows (rows1 t ! i) ?is (rows1 p ! i)" if "i < 2" for i
      using that t'(5) kv(1) p(3) by simp
    have row: "length (rows1 t ! i) = b" "length (rows1 p ! i) = length ?is" if "i < 2" for i
      using in_rows1[OF kv(4,1), of "rows1 t ! i"] in_rows1[OF p(1,3), of "rows1 p ! i"] that kv(1) p(3) by auto
    have two: "hd (tn_shape t') = 2" "hd (tn_shape t) = 2" "hd (tn_shape p) = 2" using kv(1) t'(4) p(3) by simp_all
    have "rows1 t' ! i ! (js ! k) = rows1 p ! i ! k" if "k < n" "i < 2" for k i
      using write_rows_at[OF dist, of "rows1 t ! i" "rows1 p ! i" k] row[OF that(2)] cell[OF that(2)] rng kv(3) that(1) len
      by simp
    then have "kv_block t' (js ! k) = block_of True p k" if "k < n" for k
      using that first two by (simp add: kv_block_def block_of_two)
    moreover have "rows1 t' ! i ! j = rows1 t ! i ! j" if "j \<notin> set ?is" "i < 2" for i j
      unfolding cell[OF that(2)] by (rule write_rows_other[OF that(1)])
    then have "kv_block t' j = kv_block t j" if "j \<notin> set ?is" for j
      using that first kv(2) two by (simp add: kv_block_def block_of_two)
    ultimately show ?thesis using t'(2-4) kv by (auto simp: paged_layer_def)
  next
    case (blk a r)
    have p: "wf_tensor p" "tn_dtype p = tn_dtype t" "tn_shape p = length ?is # 2 # r"
      using assms(2) blk len by (simp_all add: blocks_for_def blocks_shape_def)
    obtain t' where t': "assign0 t (map int ?is) p = Inr t'" "wf_tensor t'" "tn_dtype t' = tn_dtype t"
      "tn_shape t' = tn_shape t" "rows0 t' = write_rows (rows0 t) ?is (rows0 p)"
      using assign0_spec[OF blk(4,1) _ p] rng blk(3) by auto
    have "inject_kv_into_layer_by_blocks t p (map int js) = Inr t'"
      unfolding inject_kv_into_layer_by_blocks_def
      using t'(1) blk(1,5) p(3)[unfolded len] assms(6) by (auto simp: dim_at_def take_map)
    moreover have "\<not> kv_first t'" using blk(2) t'(4) by (simp add: kv_first_def)
    moreover have "rows0 t' ! (js ! k) = rows0 p ! k" if "k < n" for k
      using write_rows_at[OF dist, of "rows0 t" "rows0 p" k] rng blk(1,3) that len p(3) t'(5) by simp
    ultimately show ?thesis using t'(2-5) blk
      by (auto simp: paged_layer_def kv_block_def block_of_def write_rows_other)
  qed
qed

section \<open>Properties\<close>

definition same_layout :: "tensor \<Rightarrow> tensor \<Rightarrow> bool" where
  "same_layout s t \<longleftrightarrow> paged_layer s \<and> paged_layer t \<and> tn_dtype s = tn_dtype t \<and> (kv_first s \<longleftrightarrow> kv_first t) \<and>
     (if kv_first s then drop 2 (tn_shape s) = drop 2 (tn_shape t) else drop 1 (tn_shape s) = drop 1 (tn_shape t))"

lemma blocks_for_same_layout: "same_layout s t \<Longrightarrow> blocks_for s n p \<longleftrightarrow> blocks_for t n p"
  by (auto simp: same_layout_def blocks_for_def blocks_shape_def)

lemma same_layout_refl: "paged_layer t \<Longrightarrow> same_layout t t"
  by (simp add: same_layout_def)

text \<open>
  C29: Blocks move exactly.  Extracting blocks \<open>is\<close> from one paged layer and injecting them at
  blocks \<open>js\<close> of another of the same layout succeeds, in both supported layouts; every
  destination block holds the source block it stands for, the tail blocks that the producer
  did not send and all blocks of other requests are unchanged, and so are shape and type.
\<close>

theorem kv_block_transfer:
  assumes "same_layout src dst" and "\<forall>i \<in> set is. i < num_kv_blocks src" and "\<forall>j \<in> set js. j < num_kv_blocks dst"
    and "distinct js" and "length is \<le> length js" and "js \<noteq> []"
  shows "\<exists>p dst'. extract_kv_from_layer_by_blocks src (map int is) = Inr p \<and>
    inject_kv_into_layer_by_blocks dst p (map int js) = Inr dst' \<and> same_layout dst' dst \<and> tn_shape dst' = tn_shape dst \<and>
    (\<forall>k < length is. kv_block dst' (js ! k) = kv_block src (is ! k)) \<and>
    (\<forall>j < num_kv_blocks dst. j \<notin> set (take (length is) js) \<longrightarrow> kv_block dst' j = kv_block dst j)"
proof -
  have pg: "paged_layer src" "paged_layer dst" "kv_first src = kv_first dst" using assms(1) by (auto simp: same_layout_def)
  obtain p where p: "extract_kv_from_layer_by_blocks src (map int is) = Inr p" "blocks_for dst (length is) p"
    "\<forall>k < length is. block_of (kv_first dst) p k = kv_block src (is ! k)"
    using extract_spec[OF pg(1) assms(2)] pg(3) blocks_for_same_layout[OF assms(1)] by auto
  obtain dst' where d: "inject_kv_into_layer_by_blocks dst p (map int js) = Inr dst'" "paged_layer dst'"
    "tn_dtype dst' = tn_dtype dst" "tn_shape dst' = tn_shape dst"
    "\<forall>k < length is. kv_block dst' (js ! k) = block_of (kv_first dst) p k"
    "\<forall>j < num_kv_blocks dst. j \<notin> set (take (length is) js) \<longrightarrow> kv_block dst' j = kv_block dst j"
    using inject_spec[OF pg(2) p(2) assms(3-6)] by auto
  have "same_layout dst' dst" using d(2-4) pg(2) by (simp add: same_layout_def kv_first_def)
  then show ?thesis using p d by auto
qed

text \<open>
  An overlap is injected in one direction only.  When the payload has more blocks than the
  consumer has block ids for the request, the assignment raises and nothing is injected,
  although the documentation promises to inject the overlap whenever the counts differ.
\<close>

lemma excess_blocks_rejected:
  assumes "paged_layer t" and "blocks_for t n p" and "\<forall>j \<in> set js. j < num_kv_blocks t" and "js \<noteq> []"
    and "length js < n"
  shows "inject_kv_into_layer_by_blocks t p (map int js) = Inl RuntimeError"
proof -
  have p: "tn_dtype p = tn_dtype t" "tn_shape p = blocks_shape t n" using assms(2) by (auto simp: blocks_for_def)
  have n: "2 \<le> n" "n \<noteq> length js" using assms(4,5) by (cases js; auto)+
  have bad: "broadcast_to (blocks_shape t (length js)) p = Inl RuntimeError"
    using n p(2) by (auto simp: broadcast_to_def blocks_shape_def)
  show ?thesis using assms(1)
  proof (cases rule: paged_layerE)
    case (kv b r)
    have "map_res (norm_index b) (map int js) = Inr js" using assms(3) kv by (intro map_res_norm_index) simp
    then have "assign1 t (map int js) p = Inl RuntimeError"
      using bad kv p(1) by (simp add: assign1_def dim_at_def blocks_shape_def)
    then show ?thesis using kv p(2) assms(4,5)
      by (auto simp: inject_kv_into_layer_by_blocks_def dim_at_def blocks_shape_def)
  next
    case (blk a r)
    have "map_res (norm_index a) (map int js) = Inr js" using assms(3) blk by (intro map_res_norm_index) simp
    then have "assign0 t (map int js) p = Inl RuntimeError"
      using bad blk p(1) by (simp add: assign0_def dim_at_def blocks_shape_def)
    then show ?thesis using blk p(2) assms(4,5)
      by (auto simp: inject_kv_into_layer_by_blocks_def dim_at_def blocks_shape_def)
  qed
qed

text \<open>A layer of \<open>n\<close> blocks of two bytes per half, keys first, whose bytes count from \<open>x\<close>.\<close>

definition demo_layer :: "nat \<Rightarrow> nat \<Rightarrow> tensor" where
  "demo_layer n x = \<lparr>tn_dtype = UInt8, tn_shape = [2, n, 2], tn_bytes = map of_nat [x..<x + 4 * n]\<rparr>"

lemma demo_layer_facts [simp]: "paged_layer (demo_layer n x)" "kv_first (demo_layer n x)" "num_kv_blocks (demo_layer n x) = n"
  "tn_dtype (demo_layer n x) = UInt8" "tn_shape (demo_layer n x) = [2, n, 2]"
  by (auto simp: paged_layer_def demo_layer_def wf_tensor_def tn_nbytes_def tn_numel_def kv_first_def num_kv_blocks_def)

theorem kv_block_transfer_witness:
  "\<exists>p dst'. extract_kv_from_layer_by_blocks (demo_layer 4 0) [3, 1] = Inr p \<and>
     inject_kv_into_layer_by_blocks (demo_layer 5 100) p [4, 0, 2] = Inr dst' \<and>
     kv_block dst' 4 = [6, 7, 14, 15] \<and> kv_block dst' 0 = [2, 3, 10, 11] \<and> kv_block dst' 2 = [104, 105, 114, 115]"
proof -
  have l: "same_layout (demo_layer 4 0) (demo_layer 5 100)" by (simp add: same_layout_def)
  have b: "kv_block (demo_layer 4 0) 3 = [6, 7, 14, 15]" "kv_block (demo_layer 4 0) 1 = [2, 3, 10, 11]"
    "kv_block (demo_layer 5 100) 2 = [104, 105, 114, 115]" by code_simp+
  show ?thesis using kv_block_transfer[OF l, of "[3, 1]" "[4, 0, 2]"] b
    by (auto simp: less_Suc_eq numeral_2_eq_2)
qed

lemma excess_blocks_rejected_witness:
  "\<exists>p. extract_kv_from_layer_by_blocks (demo_layer 4 0) [3, 1] = Inr p \<and>
     inject_kv_into_layer_by_blocks (demo_layer 5 100) p [4] = Inl RuntimeError"
proof -
  have l: "same_layout (demo_layer 4 0) (demo_layer 5 100)" by (simp add: same_layout_def)
  obtain p where p: "extract_kv_from_layer_by_blocks (demo_layer 4 0) [3, 1] = Inr p" "blocks_for (demo_layer 5 100) 2 p"
    using extract_spec[of "demo_layer 4 0" "[3, 1]"] blocks_for_same_layout[OF l] by (auto simp: numeral_2_eq_2)
  then show ?thesis using excess_blocks_rejected[OF _ p(2), of "[4]"] by simp
qed

text \<open>The slot of a token, by its block and its offset there.\<close>

lemma slot_mapping_nth:
  assumes "0 < bs" and "t < length token_ids" and "t < length block_ids * nat bs"
  shows "make_slot_mapping token_ids block_ids bs ! t = block_ids ! (t div nat bs) * bs + int (t mod nat bs)"
proof -
  let ?row = "\<lambda>b. map (\<lambda>off. b * bs + off) [0..bs - 1]"
  have rows: "length r = nat bs" if "r \<in> set (map ?row block_ids)" for r using that by auto
  have q: "t div nat bs < length block_ids" using assms(1,3) by (simp add: div_less_iff_less_mult)
  have m: "t mod nat bs < nat bs" using assms(1) by simp
  have "take (nat bs) (drop (t div nat bs * nat bs) (concat (map ?row block_ids))) = ?row (block_ids ! (t div nat bs))"
    using chunks_concat[of "map ?row block_ids" "nat bs" "length block_ids", OF rows] nth_chunks[OF q, of "nat bs"] q
    by (metis length_map nth_map)
  moreover have "t div nat bs * nat bs \<le> length (concat (map ?row block_ids))"
    using length_concat_same[of "map ?row block_ids" "nat bs", OF rows] q by simp
  then have "take (nat bs) (drop (t div nat bs * nat bs) (concat (map ?row block_ids))) ! (t mod nat bs) =
      concat (map ?row block_ids) ! (t div nat bs * nat bs + t mod nat bs)"
    using m by (simp only: nth_take nth_drop)
  ultimately have "concat (map ?row block_ids) ! t = ?row (block_ids ! (t div nat bs)) ! (t mod nat bs)" by simp
  then show ?thesis using assms(1,2) m by (simp add: make_slot_mapping_def)
qed

end
