(* ===== verification/Connector_Scheduler.thy ===== *)
theory Connector_Scheduler
  imports KV_Blocks
begin

text \<open>
  The scheduler side of the connector (\<^verbatim>\<open>connector/compressed_kv_connector.py\<close>): transfer
  identifiers, the consumer's table of pending loads, the producer's chunked-prefill table, and
  the metadata built for every scheduler step.  Requests and scheduler outputs are vLLM data;
  the parallel lists of the cached requests are one list of entries here.  \<open>pystr\<close> is \<open>str()\<close>
  on a router-supplied identifier.  A step that raises keeps the changes made before.
\<close>

section \<open>Data\<close>

record request =
  rq_request_id :: string
  rq_prompt_token_ids :: "int list"
  rq_all_token_ids :: "int list"
  rq_kv_transfer_params :: "pydict option"

record req_meta =
  rm_request_id :: string
  rm_transfer_id :: string
  rm_token_ids :: "int list"
  rm_block_ids :: "int list"
  rm_slot_mapping :: "int list"

record new_req =
  nr_req_id :: string
  nr_prompt_token_ids :: "int list option"
  nr_block_ids :: "int list list"
  nr_num_computed_tokens :: int

record cached_req =
  cr_req_id :: string
  cr_num_computed_tokens :: int
  cr_new_block_ids :: "int list list option"

record scheduler_output =
  so_new_reqs :: "new_req list"
  so_cached_reqs :: "cached_req list"
  so_resumed_req_ids :: "string list"
  so_num_scheduled_tokens :: "(string \<times> int) list"

record conn =
  cn_is_producer :: bool
  cn_block_size :: int
  cn_requests_need_load :: "(string \<times> (request \<times> int list)) list"
  cn_request_transfer_ids :: "(string \<times> string) list"
  cn_chunked_prefill :: "(string \<times> (int list \<times> int list)) list"

definition conn_init :: "bool \<Rightarrow> int \<Rightarrow> conn" where
  "conn_init is_producer block_size = \<lparr>cn_is_producer = is_producer, cn_block_size = block_size,
     cn_requests_need_load = [], cn_request_transfer_ids = [], cn_chunked_prefill = []\<rparr>"

section \<open>Operations\<close>

definition resolve_transfer_id :: "(pyval \<Rightarrow> string) \<Rightarrow> conn \<Rightarrow> string \<Rightarrow> request option \<Rightarrow> conn \<times> string" where
  "resolve_transfer_id pystr c rid req =
     (let given = (case req of None \<Rightarrow> PNone | Some r \<Rightarrow> (case rq_kv_transfer_params r of
                     None \<Rightarrow> PNone | Some ps \<Rightarrow> dict_get ps ''transfer_id'' PNone));
          c' = (if truthy given then c\<lparr>cn_request_transfer_ids := dict_set (cn_request_transfer_ids c) rid (pystr given)\<rparr> else c)
      in (c', dict_get (cn_request_transfer_ids c') rid rid))"

definition get_num_new_matched_tokens :: "conn \<Rightarrow> request \<Rightarrow> int \<Rightarrow> int \<times> bool" where
  "get_num_new_matched_tokens c r num_computed =
     (if cn_is_producer c then (0, False)
      else let num_external = int (length (rq_prompt_token_ids r)) - 1 - num_computed in
        if num_external \<le> 0 then (0, False) else (num_external, False))"

definition first_group :: "int list list \<Rightarrow> int list result" where
  "first_group bs = (case bs of [] \<Rightarrow> Inl IndexError | b # _ \<Rightarrow> Inr b)"

definition update_state_after_alloc ::
    "(pyval \<Rightarrow> string) \<Rightarrow> conn \<Rightarrow> request \<Rightarrow> int list list \<Rightarrow> int \<Rightarrow> conn \<times> py_error option" where
  "update_state_after_alloc pystr c r blocks num_external =
     (let c1 = fst (resolve_transfer_id pystr c (rq_request_id r) (Some r)) in
      if \<not> cn_is_producer c \<and> 0 < num_external then
        (case first_group blocks of
           Inl e \<Rightarrow> (c1, Some e)
         | Inr b \<Rightarrow> (c1\<lparr>cn_requests_need_load := dict_set (cn_requests_need_load c1) (rq_request_id r) (r, b)\<rparr>, None))
      else (c1, None))"

definition request_finished :: "conn \<Rightarrow> string \<Rightarrow> conn" where
  "request_finished c rid =
     (let c1 = c\<lparr>cn_chunked_prefill := dict_pop (cn_chunked_prefill c) rid,
                 cn_request_transfer_ids := dict_pop (cn_request_transfer_ids c) rid\<rparr>
      in if cn_is_producer c then c1 else c1\<lparr>cn_requests_need_load := dict_pop (cn_requests_need_load c1) rid\<rparr>)"

subsection \<open>The metadata of one step\<close>

type_synonym meta_state = "conn \<times> req_meta list"

definition add_request ::
    "(pyval \<Rightarrow> string) \<Rightarrow> string \<Rightarrow> request option \<Rightarrow> int list \<Rightarrow> int list \<Rightarrow> meta_state \<Rightarrow> meta_state" where
  "add_request pystr rid req token_ids block_ids s =
     (let (c, t) = resolve_transfer_id pystr (fst s) rid req in
      (c, snd s @ [\<lparr>rm_request_id = rid, rm_transfer_id = t, rm_token_ids = token_ids, rm_block_ids = block_ids,
                    rm_slot_mapping = make_slot_mapping token_ids block_ids (cn_block_size c)\<rparr>]))"

definition new_req_step ::
    "(pyval \<Rightarrow> string) \<Rightarrow> scheduler_output \<Rightarrow> new_req \<Rightarrow> meta_state \<Rightarrow> meta_state \<times> flow" where
  "new_req_step pystr out r s =
     (let c = fst s; rid = nr_req_id r; prompt = (case nr_prompt_token_ids r of None \<Rightarrow> [] | Some p \<Rightarrow> p) in
      if cn_is_producer c then
        (case dict_item (so_num_scheduled_tokens out) rid of
           Inl e \<Rightarrow> (s, Raise e)
         | Inr scheduled \<Rightarrow>
           (case first_group (nr_block_ids r) of
              Inl e \<Rightarrow> (s, Raise e)
            | Inr blocks \<Rightarrow>
                if scheduled + nr_num_computed_tokens r < int (length prompt)
                then ((c\<lparr>cn_chunked_prefill := dict_set (cn_chunked_prefill c) rid (blocks, prompt)\<rparr>, snd s), Continue)
                else (add_request pystr rid None prompt blocks s, Continue)))
      else if dict_has (cn_requests_need_load c) rid then
        (case first_group (nr_block_ids r) of
           Inl e \<Rightarrow> (s, Raise e)
         | Inr blocks \<Rightarrow>
             let (c', m) = add_request pystr rid None prompt blocks s
             in ((c'\<lparr>cn_requests_need_load := dict_pop (cn_requests_need_load c') rid\<rparr>, m), Continue))
      else (s, Continue))"

definition cached_req_step ::
    "(pyval \<Rightarrow> string) \<Rightarrow> scheduler_output \<Rightarrow> cached_req \<Rightarrow> meta_state \<Rightarrow> meta_state \<times> flow" where
  "cached_req_step pystr out r s =
     (let c = fst s; rid = cr_req_id r; resumed = rid \<in> set (so_resumed_req_ids out) in
      if cn_is_producer c then
        (case dict_item (so_num_scheduled_tokens out) rid of
           Inl e \<Rightarrow> (s, Raise e)
         | Inr scheduled \<Rightarrow>
           (case (map_of (cn_chunked_prefill c) rid, cr_new_block_ids r) of
              (Some (old, prompt), Some groups) \<Rightarrow>
                (case first_group groups of
                   Inl e \<Rightarrow> (s, Raise e)
                 | Inr new \<Rightarrow>
                     let blocks = (if resumed then new else old @ new) in
                     if scheduled + cr_num_computed_tokens r < int (length prompt)
                     then ((c\<lparr>cn_chunked_prefill := dict_set (cn_chunked_prefill c) rid (blocks, prompt)\<rparr>, snd s), Continue)
                     else let (c', m) = add_request pystr rid None prompt blocks s
                          in ((c'\<lparr>cn_chunked_prefill := dict_pop (cn_chunked_prefill c') rid\<rparr>, m), Continue))
            | _ \<Rightarrow> (s, Raise AssertionError)))
      else if \<not> resumed then (s, Break)
      else case map_of (cn_requests_need_load c) rid of
             None \<Rightarrow> (s, Continue)
           | Some (req, _) \<Rightarrow>
               let c1 = c\<lparr>cn_requests_need_load := dict_pop (cn_requests_need_load c) rid\<rparr>;
                   token_ids = py_slice (rq_all_token_ids req) 0 (cr_num_computed_tokens r + 1)
               in case cr_new_block_ids r of
                    None \<Rightarrow> ((c1, snd s), Raise AssertionError)
                  | Some groups \<Rightarrow> (case first_group groups of
                        Inl e \<Rightarrow> ((c1, snd s), Raise e)
                      | Inr blocks \<Rightarrow> (add_request pystr rid (Some req) token_ids blocks (c1, snd s), Continue)))"

definition build_connector_meta ::
    "(pyval \<Rightarrow> string) \<Rightarrow> conn \<Rightarrow> scheduler_output \<Rightarrow> conn \<times> req_meta list result" where
  "build_connector_meta pystr c out =
     (case for_loop (new_req_step pystr out) (so_new_reqs out) (c, []) of
        ((c1, m), Some e) \<Rightarrow> (c1, Inl e)
      | (s1, None) \<Rightarrow> (case for_loop (cached_req_step pystr out) (so_cached_reqs out) s1 of
          ((c2, m), Some e) \<Rightarrow> (c2, Inl e)
        | ((c2, m), None) \<Rightarrow> (c2, Inr m)))"

section \<open>What a producer does for one request\<close>

text \<open>A reference machine: the table entry of one request and the transfers announced for it.\<close>

datatype chunk_event = Fresh "int list" "int list" int | More bool "int list" int

type_synonym chunk_view = "(int list \<times> int list) option \<times> (int list \<times> int list) list"

fun chunk_step :: "chunk_event \<Rightarrow> chunk_view \<Rightarrow> chunk_view" where
  "chunk_step (Fresh prompt blocks n) (entry, sent) =
     (if n < int (length prompt) then (Some (blocks, prompt), sent) else (entry, sent @ [(prompt, blocks)]))"
| "chunk_step (More resumed new n) (Some (old, prompt), sent) =
     (let blocks = (if resumed then new else old @ new) in
      if n < int (length prompt) then (Some (blocks, prompt), sent) else (None, sent @ [(prompt, blocks)]))"
| "chunk_step (More resumed new n) (None, sent) = (None, sent)"

definition scheduled_of :: "scheduler_output \<Rightarrow> string \<Rightarrow> int" where
  "scheduled_of out rid = dict_get (so_num_scheduled_tokens out) rid 0"

definition new_events :: "scheduler_output \<Rightarrow> string \<Rightarrow> new_req \<Rightarrow> chunk_event list" where
  "new_events out rid x = (if nr_req_id x = rid
     then [Fresh (case nr_prompt_token_ids x of None \<Rightarrow> [] | Some p \<Rightarrow> p) (concat (take 1 (nr_block_ids x)))
             (scheduled_of out rid + nr_num_computed_tokens x)] else [])"

definition cached_events :: "scheduler_output \<Rightarrow> string \<Rightarrow> cached_req \<Rightarrow> chunk_event list" where
  "cached_events out rid x = (if cr_req_id x = rid
     then [More (rid \<in> set (so_resumed_req_ids out)) (case cr_new_block_ids x of None \<Rightarrow> [] | Some gs \<Rightarrow> concat (take 1 gs))
             (scheduled_of out rid + cr_num_computed_tokens x)] else [])"

definition step_events :: "string \<Rightarrow> scheduler_output \<Rightarrow> chunk_event list" where
  "step_events rid out = concat (map (new_events out rid) (so_new_reqs out)) @
     concat (map (cached_events out rid) (so_cached_reqs out))"

definition announced :: "string \<Rightarrow> req_meta list \<Rightarrow> (int list \<times> int list) list" where
  "announced rid m = map (\<lambda>x. (rm_token_ids x, rm_block_ids x)) (filter (\<lambda>x. rm_request_id x = rid) m)"

definition chunk_view :: "string \<Rightarrow> meta_state \<Rightarrow> chunk_view" where
  "chunk_view rid s = (map_of (cn_chunked_prefill (fst s)) rid, announced rid (snd s))"

text \<open>Transfer identifiers and slot mappings of announced requests.\<close>

definition meta_ok :: "conn \<Rightarrow> req_meta \<Rightarrow> bool" where
  "meta_ok c m \<longleftrightarrow> rm_transfer_id m = dict_get (cn_request_transfer_ids c) (rm_request_id m) (rm_request_id m) \<and>
     rm_slot_mapping m = make_slot_mapping (rm_token_ids m) (rm_block_ids m) (cn_block_size c)"

lemma first_group_Inr: "first_group bs = Inr b \<Longrightarrow> concat (take (Suc 0) bs) = b"
  by (auto simp: first_group_def split: list.splits)

lemma dict_item_scheduled: "dict_item (so_num_scheduled_tokens out) rid = Inr n \<Longrightarrow> scheduled_of out rid = n"
  by (auto simp: dict_item_def scheduled_of_def dict_get_def split: option.splits)

lemma announced_simps [simp]:
  "announced rid [] = []"
  "announced rid (m @ m') = announced rid m @ announced rid m'"
  "announced rid (x # m) = (if rm_request_id x = rid then [(rm_token_ids x, rm_block_ids x)] else []) @ announced rid m"
  by (simp_all add: announced_def)

lemma add_request_None [simp]:
  "add_request pystr rid None tokens blocks (c, m) =
     (c, m @ [\<lparr>rm_request_id = rid, rm_transfer_id = dict_get (cn_request_transfer_ids c) rid rid, rm_token_ids = tokens,
        rm_block_ids = blocks, rm_slot_mapping = make_slot_mapping tokens blocks (cn_block_size c)\<rparr>])"
  by (simp add: add_request_def resolve_transfer_id_def)

definition same_ids :: "conn \<Rightarrow> conn \<Rightarrow> bool" where
  "same_ids c c' \<longleftrightarrow> cn_is_producer c' = cn_is_producer c \<and> cn_block_size c' = cn_block_size c \<and>
     cn_request_transfer_ids c' = cn_request_transfer_ids c"

text \<open>One iteration of either loop is the reference step of the request it handles.\<close>

definition producer_iteration :: "chunk_event list \<Rightarrow> string \<Rightarrow> meta_state \<Rightarrow> meta_state \<Rightarrow> bool" where
  "producer_iteration evs rid s s' \<longleftrightarrow> same_ids (fst s) (fst s') \<and>
     chunk_view rid s' = fold chunk_step evs (chunk_view rid s) \<and>
     (\<exists>new. snd s' = snd s @ new \<and> list_all (meta_ok (fst s)) new)"

lemma new_req_producer:
  assumes "cn_is_producer (fst s)" and "new_req_step pystr out x s = (s', fl)"
  shows "fl \<noteq> Break \<and> (fl = Continue \<longrightarrow> producer_iteration (new_events out rid x) rid s s')"
  using assms
  by (cases s) (auto simp: new_req_step_def Let_def producer_iteration_def chunk_view_def new_events_def same_ids_def
      meta_ok_def dict_item_scheduled first_group_Inr split: sum.splits if_splits)

lemma cached_req_producer:
  assumes "cn_is_producer (fst s)" and "cached_req_step pystr out x s = (s', fl)"
  shows "fl \<noteq> Break \<and> (fl = Continue \<longrightarrow> producer_iteration (cached_events out rid x) rid s s')"
  using assms
  by (cases s) (auto simp: cached_req_step_def Let_def producer_iteration_def chunk_view_def cached_events_def same_ids_def
      meta_ok_def dict_item_scheduled first_group_Inr split: sum.splits if_splits option.splits)

lemma meta_ok_same_ids: "same_ids c c' \<Longrightarrow> meta_ok c' = meta_ok c"
  by (auto simp: same_ids_def meta_ok_def fun_eq_iff)

lemma for_loop_producer:
  assumes "\<And>x s s' fl. cn_is_producer (fst s) \<Longrightarrow> f x s = (s', fl) \<Longrightarrow>
      fl \<noteq> Break \<and> (fl = Continue \<longrightarrow> producer_iteration (ev x) rid s s')"
    and "cn_is_producer (fst s)" and "for_loop f xs s = (s', None)"
  shows "producer_iteration (concat (map ev xs)) rid s s'"
  using assms(2,3)
proof (induction xs arbitrary: s)
  case (Cons x xs)
  obtain s1 fl where f: "f x s = (s1, fl)" by (cases "f x s")
  then have fl: "fl = Continue" and rest: "for_loop f xs s1 = (s', None)"
    using Cons.prems assms(1)[OF Cons.prems(1) f] by (auto split: flow.splits)
  have one: "producer_iteration (ev x) rid s s1" using assms(1)[OF Cons.prems(1) f] fl by simp
  then have "cn_is_producer (fst s1)" using Cons.prems(1) by (simp add: producer_iteration_def same_ids_def)
  from Cons.IH[OF this rest] one show ?case
    using meta_ok_same_ids[of "fst s" "fst s1"] by (auto simp: producer_iteration_def same_ids_def)
qed (simp add: producer_iteration_def same_ids_def)

lemma build_producer:
  assumes "cn_is_producer c" and "build_connector_meta pystr c out = (c', Inr m)"
  shows "same_ids c c' \<and> (map_of (cn_chunked_prefill c') rid, announced rid m) =
      fold chunk_step (step_events rid out) (map_of (cn_chunked_prefill c) rid, []) \<and> list_all (meta_ok c) m"
proof -
  obtain s1 where l1: "for_loop (new_req_step pystr out) (so_new_reqs out) (c, []) = (s1, None)"
    and l2: "for_loop (cached_req_step pystr out) (so_cached_reqs out) s1 = ((c', m), None)"
    using assms(2) by (auto simp: build_connector_meta_def split: prod.splits option.splits)
  have i1: "producer_iteration (concat (map (new_events out rid) (so_new_reqs out))) rid (c, []) s1"
    using assms(1) new_req_producer by (intro for_loop_producer[OF _ _ l1]) auto
  then have "cn_is_producer (fst s1)" using assms(1) by (simp add: producer_iteration_def same_ids_def)
  then have i2: "producer_iteration (concat (map (cached_events out rid) (so_cached_reqs out))) rid s1 (c', m)"
    using cached_req_producer by (intro for_loop_producer[OF _ _ l2]) auto
  show ?thesis using i1 i2 meta_ok_same_ids[of c "fst s1"]
    by (auto simp: producer_iteration_def same_ids_def step_events_def chunk_view_def)
qed

section \<open>Runs of scheduler steps\<close>

fun run_steps :: "(pyval \<Rightarrow> string) \<Rightarrow> scheduler_output list \<Rightarrow> conn \<Rightarrow> conn \<times> req_meta list result" where
  "run_steps pystr [] c = (c, Inr [])"
| "run_steps pystr (out # outs) c = (case build_connector_meta pystr c out of
       (c1, Inl e) \<Rightarrow> (c1, Inl e)
     | (c1, Inr m) \<Rightarrow> (case run_steps pystr outs c1 of
         (c2, Inl e) \<Rightarrow> (c2, Inl e) | (c2, Inr m') \<Rightarrow> (c2, Inr (m @ m'))))"

lemma fold_chunk_sent: "fold chunk_step evs (e, sent) =
    (fst (fold chunk_step evs (e, [])), sent @ snd (fold chunk_step evs (e, [])))"
proof (induction evs arbitrary: e sent)
  case (Cons ev evs)
  obtain e1 s1 where st: "chunk_step ev (e, []) = (e1, s1)" by (cases "chunk_step ev (e, [])")
  then have "chunk_step ev (e, sent) = (e1, sent @ s1)" by (cases ev; cases e) (auto simp: Let_def split: if_splits)
  then show ?case using Cons.IH[of e1 "sent @ s1"] Cons.IH[of e1 s1] st by simp
qed simp

lemma run_producer:
  "cn_is_producer c \<Longrightarrow> run_steps pystr outs c = (c', Inr m) \<Longrightarrow>
   (map_of (cn_chunked_prefill c') rid, announced rid m) =
      fold chunk_step (concat (map (step_events rid) outs)) (map_of (cn_chunked_prefill c) rid, []) \<and> list_all (meta_ok c) m"
proof (induction outs arbitrary: c m)
  case (Cons out outs)
  obtain c1 m1 m2 where s: "build_connector_meta pystr c out = (c1, Inr m1)" "run_steps pystr outs c1 = (c', Inr m2)"
    "m = m1 @ m2" using Cons.prems(2) by (auto split: prod.splits sum.splits)
  note one = build_producer[OF Cons.prems(1) s(1), of rid]
  have "cn_is_producer c1" using one Cons.prems(1) by (simp add: same_ids_def)
  note rest = Cons.IH[OF this s(2)]
  let ?e1 = "map_of (cn_chunked_prefill c1) rid"
  have "fold chunk_step (concat (map (step_events rid) (out # outs))) (map_of (cn_chunked_prefill c) rid, []) =
      fold chunk_step (concat (map (step_events rid) outs)) (?e1, announced rid m1)"
    using one by (simp add: fold_append comp_def)
  also have "\<dots> = (map_of (cn_chunked_prefill c') rid, announced rid m1 @ announced rid m2)"
    using fold_chunk_sent[of _ ?e1 "announced rid m1"] rest by (metis fst_conv snd_conv)
  finally show ?case using one rest s(3) meta_ok_same_ids[of c c1] by simp
qed simp

text \<open>The blocks collected over the chunks of a request.\<close>

fun collect_blocks :: "int list \<Rightarrow> chunk_event list \<Rightarrow> int list" where
  "collect_blocks old [] = old"
| "collect_blocks old (More resumed new n # evs) = collect_blocks (if resumed then new else old @ new) evs"
| "collect_blocks old (Fresh p b n # evs) = collect_blocks b evs"

fun unfinished :: "int list \<Rightarrow> chunk_event \<Rightarrow> bool" where
  "unfinished prompt (More resumed new n) = (n < int (length prompt))"
| "unfinished prompt (Fresh p b n) = False"

lemma fold_unfinished:
  "list_all (unfinished prompt) evs \<Longrightarrow>
   fold chunk_step evs (Some (old, prompt), sent) = (Some (collect_blocks old evs, prompt), sent)"
  by (induction evs arbitrary: old rule: list.induct) (auto simp: Let_def elim!: unfinished.elims)

lemma collect_blocks_append:
  "list_all (unfinished prompt) evs \<Longrightarrow>
   collect_blocks old (evs @ [More resumed new n]) = (if resumed then new else collect_blocks old evs @ new)"
  by (induction evs arbitrary: old rule: list.induct) (auto elim!: unfinished.elims)

lemma chunk_total:
  assumes "n0 < int (length prompt)" and "list_all (unfinished prompt) evs" and "int (length prompt) \<le> n"
  shows "fold chunk_step (Fresh prompt b0 n0 # evs @ [More resumed new n]) (e, []) =
    (None, [(prompt, collect_blocks b0 (evs @ [More resumed new n]))])"
  using assms by (simp add: fold_unfinished collect_blocks_append Let_def)

section \<open>What a consumer does\<close>

text \<open>The requests a step may load: new ones, and resumed ones up to the first that is not resumed.\<close>

definition eligible :: "scheduler_output \<Rightarrow> string list" where
  "eligible out = map nr_req_id (so_new_reqs out) @
     map cr_req_id (takeWhile (\<lambda>x. cr_req_id x \<in> set (so_resumed_req_ids out)) (so_cached_reqs out))"

definition allocated :: "scheduler_output \<Rightarrow> string \<Rightarrow> int list \<Rightarrow> bool" where
  "allocated out rid blocks \<longleftrightarrow>
     (\<exists>x \<in> set (so_new_reqs out). nr_req_id x = rid \<and> first_group (nr_block_ids x) = Inr blocks) \<or>
     (\<exists>x \<in> set (so_cached_reqs out). \<exists>gs. cr_req_id x = rid \<and> cr_new_block_ids x = Some gs \<and> first_group gs = Inr blocks)"

abbreviation pending :: "conn \<Rightarrow> string \<Rightarrow> (request \<times> int list) option" where
  "pending c \<equiv> map_of (cn_requests_need_load c)"

definition loads :: "scheduler_output \<Rightarrow> string list \<Rightarrow> meta_state \<Rightarrow> meta_state \<Rightarrow> bool" where
  "loads out ids s s' \<longleftrightarrow> cn_is_producer (fst s') = cn_is_producer (fst s) \<and>
     pending (fst s') = (\<lambda>r. if r \<in> set ids then None else pending (fst s) r) \<and>
     (\<exists>new. snd s' = snd s @ new \<and> distinct (map rm_request_id new) \<and>
        rm_request_id ` set new = dom (pending (fst s)) \<inter> set ids \<and>
        (\<forall>x \<in> set new. allocated out (rm_request_id x) (rm_block_ids x)))"

lemma dict_has_map_of: "dict_has d k \<longleftrightarrow> map_of d k \<noteq> None"
  by (simp add: dict_has_def map_of_eq_None_iff)

lemma add_request_facts:
  obtains m where "add_request pystr rid req tokens blocks s =
      (fst (resolve_transfer_id pystr (fst s) rid req), snd s @ [m])" and "rm_request_id m = rid" and "rm_block_ids m = blocks"
proof -
  let ?c = "fst (resolve_transfer_id pystr (fst s) rid req)"
  show thesis
    by (rule that[of "\<lparr>rm_request_id = rid, rm_transfer_id = snd (resolve_transfer_id pystr (fst s) rid req),
        rm_token_ids = tokens, rm_block_ids = blocks, rm_slot_mapping = make_slot_mapping tokens blocks (cn_block_size ?c)\<rparr>"])
      (simp_all add: add_request_def case_prod_beta)
qed

lemma resolve_fields [simp]:
  "cn_is_producer (fst (resolve_transfer_id pystr c rid req)) = cn_is_producer c"
  "cn_requests_need_load (fst (resolve_transfer_id pystr c rid req)) = cn_requests_need_load c"
  by (simp_all add: resolve_transfer_id_def Let_def)

lemma new_req_consumer:
  assumes "\<not> cn_is_producer (fst s)" and "new_req_step pystr out x s = (s', fl)" and "x \<in> set (so_new_reqs out)"
  shows "fl \<noteq> Break \<and> (fl = Continue \<longrightarrow> loads out [nr_req_id x] s s')"
proof (cases "dict_has (cn_requests_need_load (fst s)) (nr_req_id x)")
  case True
  show ?thesis
  proof (cases "first_group (nr_block_ids x)")
    case (Inr blocks)
    let ?tokens = "case nr_prompt_token_ids x of None \<Rightarrow> [] | Some p \<Rightarrow> p"
    obtain m where m: "add_request pystr (nr_req_id x) None ?tokens blocks s =
        (fst (resolve_transfer_id pystr (fst s) (nr_req_id x) None), snd s @ [m])"
      "rm_request_id m = nr_req_id x" "rm_block_ids m = blocks" by (rule add_request_facts)
    show ?thesis using assms True Inr m
      by (auto simp: new_req_step_def Let_def loads_def dict_has_map_of allocated_def dom_def fun_eq_iff)
  qed (use assms True in \<open>auto simp: new_req_step_def\<close>)
next
  case False
  then have "pending (fst s) (nr_req_id x) = None" by (simp only: dict_has_map_of not_not)
  then show ?thesis using assms False by (auto simp: new_req_step_def Let_def loads_def fun_eq_iff)
qed

lemma cached_req_consumer:
  assumes "\<not> cn_is_producer (fst s)" and "cached_req_step pystr out x s = (s', fl)" and "x \<in> set (so_cached_reqs out)"
  shows "(fl = Break \<longrightarrow> cr_req_id x \<notin> set (so_resumed_req_ids out) \<and> s' = s) \<and>
    (fl = Continue \<longrightarrow> cr_req_id x \<in> set (so_resumed_req_ids out) \<and> loads out [cr_req_id x] s s')"
proof (cases "cr_req_id x \<in> set (so_resumed_req_ids out)")
  case resumed: True
  show ?thesis
  proof (cases "pending (fst s) (cr_req_id x)")
    case (Some e)
    obtain req bl where e: "e = (req, bl)" by (cases e)
    show ?thesis
    proof (cases "\<exists>gs blocks. cr_new_block_ids x = Some gs \<and> first_group gs = Inr blocks")
      case True
      then obtain gs blocks where g: "cr_new_block_ids x = Some gs" "first_group gs = Inr blocks" by blast
      let ?s = "((fst s)\<lparr>cn_requests_need_load := dict_pop (cn_requests_need_load (fst s)) (cr_req_id x)\<rparr>, snd s)"
      obtain m where m: "add_request pystr (cr_req_id x) (Some req)
          (py_slice (rq_all_token_ids req) 0 (cr_num_computed_tokens x + 1)) blocks ?s =
          (fst (resolve_transfer_id pystr (fst ?s) (cr_req_id x) (Some req)), snd ?s @ [m])"
        "rm_request_id m = cr_req_id x" "rm_block_ids m = blocks" by (rule add_request_facts)
      have "s' = (fst (resolve_transfer_id pystr (fst ?s) (cr_req_id x) (Some req)), snd s @ [m])" "fl = Continue"
        using assms(1,2) resumed Some e g m(1) by (simp_all add: cached_req_step_def Let_def)
      then show ?thesis using assms(3) resumed Some e g m(2,3)
        by (auto simp: loads_def allocated_def dom_def fun_eq_iff)
    next
      case False
      then show ?thesis using assms resumed Some e
        by (auto simp: cached_req_step_def Let_def split: option.splits sum.splits)
    qed
  qed (use assms resumed in \<open>auto simp: cached_req_step_def Let_def loads_def fun_eq_iff\<close>)
qed (use assms in \<open>auto simp: cached_req_step_def Let_def\<close>)

lemma loads_trans:
  assumes "loads out ids s s1" and "loads out ids' s1 s2"
  shows "loads out (ids @ ids') s s2"
proof -
  obtain n1 n2 where n: "snd s1 = snd s @ n1" "distinct (map rm_request_id n1)"
    "rm_request_id ` set n1 = dom (pending (fst s)) \<inter> set ids" "\<forall>x \<in> set n1. allocated out (rm_request_id x) (rm_block_ids x)"
    "snd s2 = snd s1 @ n2" "distinct (map rm_request_id n2)"
    "rm_request_id ` set n2 = dom (pending (fst s1)) \<inter> set ids'" "\<forall>x \<in> set n2. allocated out (rm_request_id x) (rm_block_ids x)"
    using assms by (auto simp: loads_def)
  have p: "pending (fst s1) = (\<lambda>r. if r \<in> set ids then None else pending (fst s) r)"
    "pending (fst s2) = (\<lambda>r. if r \<in> set ids' then None else pending (fst s1) r)"
    using assms by (auto simp: loads_def)
  have "dom (pending (fst s1)) = dom (pending (fst s)) - set ids" unfolding p(1) by (auto split: if_splits)
  then have "rm_request_id ` set (n1 @ n2) = dom (pending (fst s)) \<inter> set (ids @ ids')"
    "distinct (map rm_request_id (n1 @ n2))" using n by (auto simp: image_Un)
  moreover have "pending (fst s2) = (\<lambda>r. if r \<in> set (ids @ ids') then None else pending (fst s) r)"
    unfolding p by (auto simp: fun_eq_iff)
  ultimately show ?thesis using assms n unfolding loads_def by (intro conjI exI[of _ "n1 @ n2"]) auto
qed

lemma loads_refl: "loads out [] s s"
  by (simp add: loads_def)

lemma for_loop_new_consumer:
  "\<not> cn_is_producer (fst s) \<Longrightarrow> set xs \<subseteq> set (so_new_reqs out) \<Longrightarrow>
   for_loop (new_req_step pystr out) xs s = (s', None) \<Longrightarrow> loads out (map nr_req_id xs) s s'"
proof (induction xs arbitrary: s)
  case (Cons x xs)
  obtain s1 fl where f: "new_req_step pystr out x s = (s1, fl)" by (cases "new_req_step pystr out x s")
  then have fl: "fl = Continue" and rest: "for_loop (new_req_step pystr out) xs s1 = (s', None)"
    and one: "loads out [nr_req_id x] s s1"
    using Cons.prems new_req_consumer[OF Cons.prems(1) f] by (auto split: flow.splits)
  have "\<not> cn_is_producer (fst s1)" using one Cons.prems(1) by (simp add: loads_def)
  from Cons.IH[OF this _ rest] show ?case using loads_trans[OF one] Cons.prems(2) by simp
qed (simp add: loads_refl)

lemma for_loop_cached_consumer:
  "\<not> cn_is_producer (fst s) \<Longrightarrow> set xs \<subseteq> set (so_cached_reqs out) \<Longrightarrow>
   for_loop (cached_req_step pystr out) xs s = (s', None) \<Longrightarrow>
   loads out (map cr_req_id (takeWhile (\<lambda>x. cr_req_id x \<in> set (so_resumed_req_ids out)) xs)) s s'"
proof (induction xs arbitrary: s)
  case (Cons x xs)
  obtain s1 fl where f: "cached_req_step pystr out x s = (s1, fl)" by (cases "cached_req_step pystr out x s")
  note step = cached_req_consumer[OF Cons.prems(1) f]
  show ?case
  proof (cases fl)
    case Continue
    then have one: "loads out [cr_req_id x] s s1" and res: "cr_req_id x \<in> set (so_resumed_req_ids out)"
      using step Cons.prems(2) by auto
    have "\<not> cn_is_producer (fst s1)" using one Cons.prems(1) by (simp add: loads_def)
    from Cons.IH[OF this] show ?thesis using loads_trans[OF one] Cons.prems(2,3) f res Continue by simp
  next
    case Break
    then show ?thesis using step Cons.prems(2,3) f by (auto simp: loads_refl)
  next
    case (Raise e)
    then show ?thesis using Cons.prems(3) f by simp
  qed
qed (simp add: loads_refl)

lemma build_consumer:
  assumes "\<not> cn_is_producer c" and "build_connector_meta pystr c out = (c', Inr m)"
  shows "loads out (eligible out) (c, []) (c', m)"
proof -
  obtain s1 where l1: "for_loop (new_req_step pystr out) (so_new_reqs out) (c, []) = (s1, None)"
    and l2: "for_loop (cached_req_step pystr out) (so_cached_reqs out) s1 = ((c', m), None)"
    using assms(2) by (auto simp: build_connector_meta_def split: prod.splits option.splits)
  have i1: "loads out (map nr_req_id (so_new_reqs out)) (c, []) s1"
    using assms(1) by (intro for_loop_new_consumer[OF _ _ l1]) auto
  then have "\<not> cn_is_producer (fst s1)" using assms(1) by (simp add: loads_def)
  from for_loop_cached_consumer[OF this _ l2] show ?thesis using loads_trans[OF i1] by (simp add: eligible_def)
qed

section \<open>Properties\<close>

text \<open>
  C35: Every scheduler step of a producer does to each request what the reference machine does,
  whatever other requests the step schedules: the table entry and the announced transfers
  agree, and each announced request carries its transfer identifier and the slots of its blocks.
\<close>

theorem producer_step_refines:
  assumes "cn_is_producer c" and "build_connector_meta pystr c out = (c', Inr m)"
  shows "(map_of (cn_chunked_prefill c') rid, announced rid m) =
      fold chunk_step (step_events rid out) (map_of (cn_chunked_prefill c) rid, []) \<and>
    list_all (\<lambda>x. rm_transfer_id x = dict_get (cn_request_transfer_ids c) (rm_request_id x) (rm_request_id x) \<and>
      rm_slot_mapping x = make_slot_mapping (rm_token_ids x) (rm_block_ids x) (cn_block_size c)) m"
  using build_producer[OF assms, of rid] by (simp add: meta_ok_def list_all_iff)

text \<open>
  C19: A chunked prefill is transferred once, when it is complete.  Over any run of scheduler
  steps in which a request starts with part of its prompt, goes on in chunks that leave it
  incomplete, and ends with one that completes it, exactly one transfer is announced: with the
  whole prompt and all blocks allocated since the start or the last preemption, in order; the
  table entry is gone afterwards.
\<close>

theorem chunked_prefill_once:
  assumes "cn_is_producer c" and "run_steps pystr outs c = (c', Inr m)"
    and "concat (map (step_events rid) outs) = Fresh prompt b0 n0 # evs @ [More resumed new n]"
    and "n0 < int (length prompt)" and "list_all (unfinished prompt) evs" and "int (length prompt) \<le> n"
  shows "announced rid m = [(prompt, collect_blocks b0 (evs @ [More resumed new n]))] \<and>
    map_of (cn_chunked_prefill c') rid = None"
  using run_producer[OF assms(1,2), of rid] chunk_total[OF assms(4-6)] unfolding assms(3) by simp

text \<open>
  No pending load is lost or loaded twice.  A consumer step announces exactly one load for
  each pending request that it schedules as new or as resumed from preemption, with the blocks
  allocated for it in this step; those entries are removed, every other entry stays for a
  later step, and nothing else is announced.
\<close>

lemma pending_loads_exact:
  assumes "\<not> cn_is_producer c" and "build_connector_meta pystr c out = (c', Inr m)"
  shows "distinct (map rm_request_id m) \<and> rm_request_id ` set m = dom (pending c) \<inter> set (eligible out) \<and>
    list_all (\<lambda>x. allocated out (rm_request_id x) (rm_block_ids x)) m \<and>
    pending c' = (\<lambda>r. if r \<in> set (eligible out) then None else pending c r)"
  using build_consumer[OF assms] by (auto simp: loads_def list_all_iff)

section \<open>Example steps\<close>

definition demo_first :: scheduler_output where
  "demo_first = \<lparr>so_new_reqs = [\<lparr>nr_req_id = ''a'', nr_prompt_token_ids = Some [1, 2, 3, 4], nr_block_ids = [[7]],
       nr_num_computed_tokens = 0\<rparr>, \<lparr>nr_req_id = ''b'', nr_prompt_token_ids = Some [5], nr_block_ids = [[8]],
       nr_num_computed_tokens = 0\<rparr>], so_cached_reqs = [], so_resumed_req_ids = [],
     so_num_scheduled_tokens = [(''a'', 2), (''b'', 1)]\<rparr>"

definition demo_second :: scheduler_output where
  "demo_second = \<lparr>so_new_reqs = [], so_cached_reqs = [\<lparr>cr_req_id = ''a'', cr_num_computed_tokens = 2,
       cr_new_block_ids = Some [[9]]\<rparr>], so_resumed_req_ids = [], so_num_scheduled_tokens = [(''a'', 2)]\<rparr>"

definition demo_text :: "pyval \<Rightarrow> string" where
  "demo_text v = (case v of PStr s \<Rightarrow> s | _ \<Rightarrow> [])"

definition demo_request :: request where
  "demo_request = \<lparr>rq_request_id = ''a'', rq_prompt_token_ids = [1, 2, 3, 4], rq_all_token_ids = [1, 2, 3, 4],
     rq_kv_transfer_params = Some [(''transfer_id'', PStr ''t1'')]\<rparr>"

definition demo_consumer :: conn where
  "demo_consumer = fst (update_state_after_alloc demo_text (conn_init False 2) demo_request [[3, 4]] 3)"

lemma demo_run: "\<exists>c' m. run_steps demo_text [demo_first, demo_second] (conn_init True 2) = (c', Inr m)"
proof -
  have "isl (snd (run_steps demo_text [demo_first, demo_second] (conn_init True 2))) = False" by code_simp
  then show ?thesis by (metis prod.collapse sum.collapse(2))
qed

theorem producer_step_refines_witness:
  "\<exists>c' m. build_connector_meta demo_text (conn_init True 2) demo_first = (c', Inr m) \<and>
     map_of (cn_chunked_prefill c') ''a'' = Some ([7], [1, 2, 3, 4]) \<and> announced ''a'' m = [] \<and> announced ''b'' m = [([5], [8])]"
proof -
  have "isl (snd (build_connector_meta demo_text (conn_init True 2) demo_first)) = False" by code_simp
  then obtain c' m where b: "build_connector_meta demo_text (conn_init True 2) demo_first = (c', Inr m)"
    by (metis prod.collapse sum.collapse(2))
  have p: "cn_is_producer (conn_init True 2)" by (simp add: conn_init_def)
  have "fold chunk_step (step_events ''a'' demo_first) (map_of (cn_chunked_prefill (conn_init True 2)) ''a'', []) =
      (Some ([7], [1, 2, 3, 4]), [])"
    "fold chunk_step (step_events ''b'' demo_first) (map_of (cn_chunked_prefill (conn_init True 2)) ''b'', []) = (None, [([5], [8])])"
    by code_simp+
  then show ?thesis using b producer_step_refines[OF p b, of "''a''"] producer_step_refines[OF p b, of "''b''"] by auto
qed

theorem chunked_prefill_once_witness:
  "\<exists>c' m. run_steps demo_text [demo_first, demo_second] (conn_init True 2) = (c', Inr m) \<and>
     announced ''a'' m = [([1, 2, 3, 4], [7, 9])] \<and> map_of (cn_chunked_prefill c') ''a'' = None"
proof -
  obtain c' m where r: "run_steps demo_text [demo_first, demo_second] (conn_init True 2) = (c', Inr m)"
    using demo_run by blast
  have p: "cn_is_producer (conn_init True 2)" by (simp add: conn_init_def)
  have ev: "concat (map (step_events ''a'') [demo_first, demo_second]) = Fresh [1, 2, 3, 4] [7] 2 # [] @ [More False [9] 4]"
    by code_simp
  show ?thesis using r chunked_prefill_once[OF p r ev] by auto
qed

lemma pending_loads_exact_witness:
  "\<exists>c' m. build_connector_meta demo_text demo_consumer demo_first = (c', Inr m) \<and>
     map rm_request_id m = [''a''] \<and> pending c' ''a'' = None"
proof -
  have "isl (snd (build_connector_meta demo_text demo_consumer demo_first)) = False" by code_simp
  then obtain c' m where b: "build_connector_meta demo_text demo_consumer demo_first = (c', Inr m)"
    by (metis prod.collapse sum.collapse(2))
  have p: "\<not> cn_is_producer demo_consumer" by code_simp
  have el: "eligible demo_first = [''a'', ''b'']" by code_simp
  have "map fst (cn_requests_need_load demo_consumer) = [''a'']" by code_simp
  then have "dom (pending demo_consumer) = {''a''}" by (simp add: dom_map_of_conv_image_fst flip: set_map)
  then have "set (map rm_request_id m) = {''a''}" "distinct (map rm_request_id m)"
    using pending_loads_exact[OF p b] by (auto simp: el)
  then have "map rm_request_id m = [''a'']" by (metis distinct_singleton list.set(1,2) set_eq_iff_mset_eq_distinct mset_single_iff_right mset.simps)
  then show ?thesis using b pending_loads_exact[OF p b] by (auto simp: el)
qed

end
