(* ===== verification/Connector_Worker.thy ===== *)
theory Connector_Worker
  imports Connector_Scheduler Wire Recv_Credits "HOL-Library.List_Lexorder" "HOL-Library.Char_ord"
begin

text \<open>
  The worker side of the connector (\<^verbatim>\<open>connector/compressed_kv_connector.py\<close>): the producer
  collects the blocks of every layer, stacks and optionally compresses them and hands them to
  the transport; the consumer waits for the payloads of the scheduled requests and writes them
  into its cache.  The compression adapter is a parameter: a state and three operations on it.
  The receive threads act between two polls of the load loop, which is where their deliveries
  arrive; a poll also says whether the deadline has passed.  Stacking layers of different
  element types, which torch would promote, is an error here.
\<close>

section \<open>The compressed-payload marker\<close>

definition COMPRESSED_SENTINEL :: string where
  "COMPRESSED_SENTINEL = ''__compressed__''"

definition is_compressed_layer_names :: "string list \<Rightarrow> bool" where
  "is_compressed_layer_names names \<longleftrightarrow> names \<noteq> [] \<and> hd names = COMPRESSED_SENTINEL"

definition strip_sentinel :: "string list \<Rightarrow> string list" where
  "strip_sentinel names = (if is_compressed_layer_names names then drop 1 names else names)"

definition add_sentinel :: "string list \<Rightarrow> string list" where
  "add_sentinel names = [COMPRESSED_SENTINEL] @ names"

definition max_nccl_chunk_bytes :: "string option \<Rightarrow> int" where
  "max_nccl_chunk_bytes raw = (case raw of
       None \<Rightarrow> 536870912
     | Some s \<Rightarrow> (if s = [] then 536870912
         else case py_int (PStr s) of Inl e \<Rightarrow> 536870912 | Inr v \<Rightarrow> (if v \<le> 0 then 536870912 else v)))"

section \<open>State\<close>

record 'a adapter_ops =
  op_compress :: "'a \<Rightarrow> tensor \<Rightarrow> string \<Rightarrow> 'a \<times> compressed_kv option result"
  op_decompress :: "'a \<Rightarrow> compressed_kv \<Rightarrow> 'a \<times> tensor option result"
  op_update_controller :: "'a \<Rightarrow> string \<Rightarrow> 'a"

record 'a worker =
  wk_is_producer :: bool
  wk_async_send :: bool
  wk_max_inflight_bytes :: int
  wk_received_kv :: "(string \<times> delivery list) list"
  wk_layer_buffers :: "(string \<times> (string \<times> tensor) list) list"
  wk_adapter :: "'a option"
  wk_tx :: sender
  wk_rx :: receiver

section \<open>Producer\<close>

definition save_one :: "string \<Rightarrow> tensor \<Rightarrow> req_meta \<Rightarrow> 'a worker \<Rightarrow> 'a worker \<times> flow" where
  "save_one layer_name kv_layer m w =
     (let rid = rm_request_id m;
          bufs = (if dict_has (wk_layer_buffers w) rid then wk_layer_buffers w else dict_set (wk_layer_buffers w) rid [])
      in case extract_kv_from_layer_by_blocks kv_layer (rm_block_ids m) of
           Inl e \<Rightarrow> (w\<lparr>wk_layer_buffers := bufs\<rparr>, Raise e)
         | Inr t \<Rightarrow> (w\<lparr>wk_layer_buffers := dict_set bufs rid (dict_set (dict_get bufs rid []) layer_name t)\<rparr>, Continue))"

definition save_kv_layer :: "req_meta list option \<Rightarrow> string \<Rightarrow> tensor \<Rightarrow> 'a worker \<Rightarrow> 'a worker \<times> py_error option" where
  "save_kv_layer meta layer_name kv_layer w =
     (if \<not> wk_is_producer w then (w, None)
      else case meta of None \<Rightarrow> (w, None) | Some ms \<Rightarrow> for_loop (save_one layer_name kv_layer) ms w)"

text \<open>\<open>torch.stack(ts, dim=0)\<close>\<close>

definition stack_tensors :: "tensor list \<Rightarrow> tensor result" where
  "stack_tensors ts = (case ts of
       [] \<Rightarrow> Inl RuntimeError
     | t # _ \<Rightarrow> (if list_all (\<lambda>u. tn_shape u = tn_shape t \<and> tn_dtype u = tn_dtype t) ts
         then Inr \<lparr>tn_dtype = tn_dtype t, tn_shape = length ts # tn_shape t, tn_bytes = concat (map tn_bytes ts)\<rparr>
         else Inl RuntimeError))"

definition send_raw :: "string \<Rightarrow> string list \<Rightarrow> tensor \<Rightarrow> 'a worker \<Rightarrow> 'a worker" where
  "send_raw tid names kv w = w\<lparr>wk_tx := send (wk_tx w) tid names kv\<rparr>"

definition send_compressed ::
    "'a adapter_ops \<Rightarrow> int \<Rightarrow> string \<Rightarrow> string \<Rightarrow> string list \<Rightarrow> compressed_kv \<Rightarrow> 'a worker \<Rightarrow> 'a worker \<times> flow" where
  "send_compressed ops max_chunk rid tid names ckv w = (case build_wire ckv max_chunk of
       Inl e \<Rightarrow> (w, Raise e)
     | Inr wire \<Rightarrow> (w\<lparr>wk_tx := send_bundle (wk_tx w) tid (add_sentinel names) (WDict (cw_meta wire))
                           (cw_body_chunks wire) (cw_aux_tensors wire),
                       wk_adapter := map_option (\<lambda>a. op_update_controller ops a rid) (wk_adapter w)\<rparr>, Continue))"

definition send_request :: "'a adapter_ops \<Rightarrow> int \<Rightarrow> req_meta \<Rightarrow> 'a worker \<Rightarrow> 'a worker \<times> flow" where
  "send_request ops max_chunk m w =
     (let rid = rm_request_id m; tid = rm_transfer_id m in
      case map_of (wk_layer_buffers w) rid of
        None \<Rightarrow> (w, Continue)
      | Some layer_kv \<Rightarrow>
          let w1 = w\<lparr>wk_layer_buffers := dict_pop (wk_layer_buffers w) rid\<rparr> in
          if layer_kv = [] then (w1, Continue)
          else let names = sort (map fst layer_kv) in
            case stack_tensors (map (\<lambda>n. the (map_of layer_kv n)) names) of
              Inl e \<Rightarrow> (w1, Raise e)
            | Inr kv \<Rightarrow> (case wk_adapter w1 of
                None \<Rightarrow> (send_raw tid names kv w1, Continue)
              | Some a \<Rightarrow> (case op_compress ops a kv rid of
                    (a', Inl e) \<Rightarrow> (w1\<lparr>wk_adapter := Some a'\<rparr>, Raise e)
                  | (a', Inr None) \<Rightarrow> (send_raw tid names kv (w1\<lparr>wk_adapter := Some a'\<rparr>), Continue)
                  | (a', Inr (Some ckv)) \<Rightarrow>
                      send_compressed ops max_chunk rid tid names ckv (w1\<lparr>wk_adapter := Some a'\<rparr>))))"

text \<open>What the call blocks on at its end.\<close>

datatype wait = WaitSent | WaitBelow int | NoWait

definition wait_for_save ::
    "'a adapter_ops \<Rightarrow> int \<Rightarrow> req_meta list option \<Rightarrow> 'a worker \<Rightarrow> 'a worker \<times> wait result" where
  "wait_for_save ops max_chunk meta w =
     (if \<not> wk_is_producer w then (w, Inr NoWait)
      else case meta of
        None \<Rightarrow> (w, Inr NoWait)
      | Some ms \<Rightarrow>
          let current = set (map rm_request_id ms);
              w1 = w\<lparr>wk_layer_buffers := filter (\<lambda>kv. fst kv \<in> current) (wk_layer_buffers w)\<rparr>
          in case for_loop (send_request ops max_chunk) ms w1 of
               (w2, Some e) \<Rightarrow> (w2, Inl e)
             | (w2, None) \<Rightarrow> (w2, Inr (if wk_async_send w2 then WaitBelow (wk_max_inflight_bytes w2) else WaitSent)))"

section \<open>Consumer\<close>

definition buffer_received :: "(string \<times> delivery list) list \<Rightarrow> 'a worker \<Rightarrow> 'a worker" where
  "buffer_received newly w = w\<lparr>wk_received_kv :=
     fold (\<lambda>(k, ds) d. dict_set d k (dict_get d k [] @ ds)) newly (wk_received_kv w)\<rparr>"

text \<open>The receive threads deliver, then the loop drains the transport.\<close>

definition poll_transport :: "(string \<times> delivery) list \<Rightarrow> 'a worker \<Rightarrow> 'a worker" where
  "poll_transport arrivals w =
     (let (rx, newly) = drain_received (fold (\<lambda>(rid, d) rx. deliver rx rid d) arrivals (wk_rx w))
      in buffer_received newly (w\<lparr>wk_rx := rx\<rparr>))"

text \<open>The stacked tensor of a payload, decompressed if its layer names are marked.\<close>

definition reconstruct ::
    "(wval \<Rightarrow> string) \<Rightarrow> 'a adapter_ops \<Rightarrow> string list \<Rightarrow> payload \<Rightarrow> 'a worker \<Rightarrow> 'a worker \<times> payload result" where
  "reconstruct repr ops names p w =
     (if is_compressed_layer_names names then
        (case wk_adapter w of
           None \<Rightarrow> (w, Inl RuntimeError)
         | Some a \<Rightarrow> (case p of
             BundlePayload (WDict meta) body aux \<Rightarrow>
               (case restore_from_wire repr \<lparr>cw_meta = meta, cw_body_chunks = body, cw_aux_tensors = aux\<rparr> of
                  Inl e \<Rightarrow> (w, Inl e)
                | Inr ckv \<Rightarrow> (case op_decompress ops a ckv of
                    (a', Inl e) \<Rightarrow> (w\<lparr>wk_adapter := Some a'\<rparr>, Inl e)
                  | (a', Inr None) \<Rightarrow> (w\<lparr>wk_adapter := Some a'\<rparr>, Inl RuntimeError)
                  | (a', Inr (Some t)) \<Rightarrow> (w\<lparr>wk_adapter := Some a'\<rparr>, Inr (RawPayload t))))
           | _ \<Rightarrow> (w, Inl RuntimeError)))
      else (w, Inr p))"

text \<open>\<open>stacked_kv[i]\<close>; a bundle is a dictionary without integer keys.\<close>

definition stacked_at :: "payload \<Rightarrow> nat \<Rightarrow> tensor result" where
  "stacked_at p i = (case p of
       RawPayload t \<Rightarrow> bind_res (dim_at t 0) (\<lambda>n. if i < n
         then Inr (t\<lparr>tn_shape := drop 1 (tn_shape t), tn_bytes := rows0 t ! i\<rparr>) else Inl IndexError)
     | BundlePayload meta body aux \<Rightarrow> Inl KeyError)"

type_synonym caches = "(string \<times> tensor) list"

definition inject_layer :: "payload \<Rightarrow> int list \<Rightarrow> nat \<times> string \<Rightarrow> caches \<Rightarrow> caches \<times> flow" where
  "inject_layer p block_ids x caches = (case map_of caches (snd x) of
       None \<Rightarrow> (caches, Continue)
     | Some cache \<Rightarrow> (case bind_res (stacked_at p (fst x)) (\<lambda>kv. inject_kv_into_layer_by_blocks cache kv block_ids) of
         Inl e \<Rightarrow> (caches, Raise e)
       | Inr cache' \<Rightarrow> (dict_set caches (snd x) cache', Continue)))"

definition load_payload ::
    "(wval \<Rightarrow> string) \<Rightarrow> 'a adapter_ops \<Rightarrow> req_meta \<Rightarrow> delivery \<Rightarrow> 'a worker \<Rightarrow> caches \<Rightarrow>
     ('a worker \<times> caches) \<times> py_error option" where
  "load_payload repr ops m d w caches = (case snd d of
       None \<Rightarrow> ((w, caches), Some RuntimeError)
     | Some p \<Rightarrow> (case reconstruct repr ops (fst d) p w of
         (w1, Inl e) \<Rightarrow> ((w1, caches), Some e)
       | (w1, Inr kv) \<Rightarrow>
           (case for_loop (inject_layer kv (rm_block_ids m)) (List.enumerate 0 (strip_sentinel (fst d))) caches of
              (caches', r) \<Rightarrow> ((w1, caches'), r))))"

definition delivery_nbytes :: "delivery \<Rightarrow> int" where
  "delivery_nbytes d = (case snd d of None \<Rightarrow> 0 | Some p \<Rightarrow> payload_nbytes p)"

definition ready :: "'a worker \<Rightarrow> req_meta \<Rightarrow> bool" where
  "ready w m \<longleftrightarrow> dict_get (wk_received_kv w) (rm_transfer_id m) [] \<noteq> []"

text \<open>One request: its first payload is consumed and its credit released in every case.\<close>

definition load_request ::
    "(wval \<Rightarrow> string) \<Rightarrow> 'a adapter_ops \<Rightarrow> req_meta \<Rightarrow> 'a worker \<Rightarrow> caches \<Rightarrow> ('a worker \<times> caches) \<times> py_error option" where
  "load_request repr ops m w caches =
     (let tid = rm_transfer_id m; ds = dict_get (wk_received_kv w) tid []; d = hd ds;
          w1 = w\<lparr>wk_received_kv := (if tl ds = [] then dict_pop (wk_received_kv w) tid else dict_set (wk_received_kv w) tid (tl ds))\<rparr>;
          ((w2, caches'), r) = load_payload repr ops m d w1 caches
      in ((w2\<lparr>wk_rx := release_received (wk_rx w2) tid (delivery_nbytes d)\<rparr>, caches'), r))"

datatype load_result = Loaded | Waiting | Failed py_error

definition expect :: "string list \<Rightarrow> 'a worker \<Rightarrow> 'a worker" where
  "expect tids w = w\<lparr>wk_rx := set_expected_requests (wk_rx w) tids\<rparr>"

fun load_loop ::
    "(wval \<Rightarrow> string) \<Rightarrow> 'a adapter_ops \<Rightarrow> ((string \<times> delivery) list \<times> bool) list \<Rightarrow> req_meta list \<Rightarrow>
     'a worker \<Rightarrow> caches \<Rightarrow> ('a worker \<times> caches) \<times> load_result" where
  "load_loop repr ops polls [] w caches = ((expect [] w, caches), Loaded)"
| "load_loop repr ops [] (m # ms) w caches = ((w, caches), Waiting)"
| "load_loop repr ops ((arrivals, late) # polls) (m # ms) w caches =
     (let w1 = poll_transport arrivals w in
      case find (ready w1) (m # ms) of
        None \<Rightarrow> if late then ((expect [] w1, caches), Failed TimeoutError)
                else load_loop repr ops polls (m # ms) w1 caches
      | Some r \<Rightarrow> (case load_request repr ops r w1 caches of
          ((w2, caches'), Some e) \<Rightarrow> ((w2, caches'), Failed e)
        | ((w2, caches'), None) \<Rightarrow> load_loop repr ops polls (remove1 r (m # ms)) w2 caches'))"

definition start_load_kv ::
    "(wval \<Rightarrow> string) \<Rightarrow> 'a adapter_ops \<Rightarrow> (string \<times> delivery) list \<Rightarrow> ((string \<times> delivery) list \<times> bool) list \<Rightarrow>
     req_meta list option \<Rightarrow> 'a worker \<Rightarrow> caches \<Rightarrow> ('a worker \<times> caches) \<times> load_result" where
  "start_load_kv repr ops arrivals polls meta w caches =
     (if wk_is_producer w then ((w, caches), Loaded)
      else let w1 = poll_transport arrivals w in
        case meta of
          None \<Rightarrow> ((w1, caches), Loaded)
        | Some ms \<Rightarrow> load_loop repr ops polls ms (expect (map rm_transfer_id ms) w1) caches)"

section \<open>Stacking and injecting\<close>

lemma stack_rows:
  assumes "ts \<noteq> []" and "\<forall>t \<in> set ts. wf_tensor t \<and> tn_shape t = sh \<and> tn_dtype t = dt"
  shows "\<exists>S. stack_tensors ts = Inr S \<and> wf_tensor S \<and> tn_shape S = length ts # sh \<and> tn_dtype S = dt \<and> rows0 S = map tn_bytes ts"
proof -
  let ?S = "\<lparr>tn_dtype = dt, tn_shape = length ts # sh, tn_bytes = concat (map tn_bytes ts)\<rparr>"
  have "list_all (\<lambda>u. tn_shape u = tn_shape (hd ts) \<and> tn_dtype u = tn_dtype (hd ts)) ts"
    using assms by (auto simp: list_all_iff)
  then have "stack_tensors ts = Inr ?S"
    using assms by (cases ts) (simp_all add: stack_tensors_def)
  moreover have "length x = inner_bytes 1 ?S" if "x \<in> set (map tn_bytes ts)" for x
    using that assms(2) by (auto simp: inner_bytes_def wf_tensor_def tn_nbytes_def tn_numel_def)
  then have "rows0 ?S = map tn_bytes ts \<and> wf_tensor ?S" by (intro rows0_of_concat[where r = sh]) auto
  ultimately show ?thesis by simp
qed

lemma stacked_at_row:
  assumes "tn_shape S = n # sh" and "i < n"
  shows "stacked_at (RawPayload S) i = Inr \<lparr>tn_dtype = tn_dtype S, tn_shape = sh, tn_bytes = rows0 S ! i\<rparr>"
  using assms by (simp add: stacked_at_def dim_at_def)

lemma row_blocks:
  assumes "wf_tensor S" and "tn_shape S = n # sh" and "i < n"
  shows "wf_tensor \<lparr>tn_dtype = tn_dtype S, tn_shape = sh, tn_bytes = rows0 S ! i\<rparr>"
  using in_rows0[OF assms(1,2), of "rows0 S ! i"] assms(2,3)
  by (simp add: wf_tensor_def tn_nbytes_def tn_numel_def inner_bytes_def)

text \<open>What one layer of a loaded request looks like afterwards.\<close>

definition injected :: "payload \<Rightarrow> int list \<Rightarrow> nat \<Rightarrow> tensor \<Rightarrow> tensor \<Rightarrow> bool" where
  "injected p ids i cache cache' \<longleftrightarrow>
     bind_res (stacked_at p i) (\<lambda>kv. inject_kv_into_layer_by_blocks cache kv ids) = Inr cache'"

lemma inject_layers:
  assumes "distinct names"
    and "\<And>i cache. i < length names \<Longrightarrow> map_of cs (names ! i) = Some cache \<Longrightarrow> \<exists>c'. injected p ids (k + i) cache c'"
  shows "\<exists>cs'. for_loop (inject_layer p ids) (List.enumerate k names) cs = (cs', None) \<and>
    (\<forall>i < length names. \<forall>cache. map_of cs (names ! i) = Some cache \<longrightarrow>
       (\<exists>c'. map_of cs' (names ! i) = Some c' \<and> injected p ids (k + i) cache c')) \<and>
    (\<forall>n. n \<notin> set names \<longrightarrow> map_of cs' n = map_of cs n)"
  using assms
proof (induction names arbitrary: k cs)
  case (Cons n names)
  obtain cs1 where step: "inject_layer p ids (k, n) cs = (cs1, Continue)"
    and at: "\<And>cache. map_of cs n = Some cache \<Longrightarrow> \<exists>c'. map_of cs1 n = Some c' \<and> injected p ids k cache c'"
    and other: "\<And>x. x \<noteq> n \<Longrightarrow> map_of cs1 x = map_of cs x"
  proof (cases "map_of cs n")
    case None
    then show thesis by (intro that[of cs]) (simp_all add: inject_layer_def)
  next
    case (Some cache)
    then obtain c' where "injected p ids k cache c'" using Cons.prems(2)[of 0 cache] by auto
    then show thesis using Some by (intro that[of "dict_set cs n c'"]) (auto simp: inject_layer_def injected_def)
  qed
  have "\<exists>c'. injected p ids (Suc k + i) cache c'" if "i < length names" "map_of cs1 (names ! i) = Some cache" for i cache
  proof -
    have "names ! i \<noteq> n" using Cons.prems(1) nth_mem[OF that(1)] by auto
    then show ?thesis using Cons.prems(2)[of "Suc i" cache] that other[of "names ! i"] by simp
  qed
  then obtain cs' where rest: "for_loop (inject_layer p ids) (List.enumerate (Suc k) names) cs1 = (cs', None)"
    "\<forall>i < length names. \<forall>cache. map_of cs1 (names ! i) = Some cache \<longrightarrow>
       (\<exists>c'. map_of cs' (names ! i) = Some c' \<and> injected p ids (Suc k + i) cache c')"
    "\<forall>x. x \<notin> set names \<longrightarrow> map_of cs' x = map_of cs1 x"
    using Cons.IH[of cs1 "Suc k"] Cons.prems(1) by auto
  have "\<exists>c'. map_of cs' ((n # names) ! i) = Some c' \<and> injected p ids (k + i) cache c'"
    if "i < length (n # names)" "map_of cs ((n # names) ! i) = Some cache" for i cache
  proof (cases i)
    case 0
    then show ?thesis using that(2) at[of cache] rest(3) Cons.prems(1) by auto
  next
    case (Suc j)
    then have "names ! j \<noteq> n" using Cons.prems(1) that(1) nth_mem[of j names] by auto
    then show ?thesis using rest(2) that Suc other[of "names ! j"] by auto
  qed
  then show ?case using step rest other by auto
qed simp

section \<open>Saving the layers of a request\<close>

text \<open>vLLM calls \<open>save_kv_layer\<close> once per layer of the forward pass.\<close>

definition save_layers :: "req_meta list option \<Rightarrow> (string \<times> tensor) list \<Rightarrow> 'a worker \<Rightarrow> 'a worker" where
  "save_layers meta layers w = fold (\<lambda>(n, l) w. fst (save_kv_layer meta n l w)) layers w"

definition extracted :: "int list \<Rightarrow> tensor \<Rightarrow> tensor" where
  "extracted ids l = projr (extract_kv_from_layer_by_blocks l ids)"

lemma save_layers_buffers:
  assumes "wk_is_producer w" and "distinct (map fst (base @ layers))"
    and "\<forall>x \<in> set layers. \<exists>t. extract_kv_from_layer_by_blocks (snd x) (rm_block_ids m) = Inr t"
    and "map_of (wk_layer_buffers w) (rm_request_id m) = (if base = [] then None else Some base)" and "layers \<noteq> [] \<or> base \<noteq> []"
  shows "\<exists>bufs. save_layers (Some [m]) layers w = w\<lparr>wk_layer_buffers := bufs\<rparr> \<and>
    map_of bufs (rm_request_id m) = Some (base @ map (\<lambda>x. (fst x, extracted (rm_block_ids m) (snd x))) layers)"
  using assms
proof (induction layers arbitrary: base w)
  case Nil
  then show ?case by (intro exI[of _ "wk_layer_buffers w"]) (auto simp: save_layers_def)
next
  case (Cons x layers)
  let ?rid = "rm_request_id m" and ?ids = "rm_block_ids m"
  obtain n l where x: "x = (n, l)" by (cases x)
  obtain t where t: "extract_kv_from_layer_by_blocks l ?ids = Inr t" using Cons.prems(3) x by auto
  have ext: "extracted ?ids l = t" using t by (simp add: extracted_def)
  let ?w1 = "fst (save_kv_layer (Some [m]) n l w)"
  have new: "dict_set base n t = base @ [(n, t)]"
    using Cons.prems(2) x by (intro dict_set_fresh) auto
  have get: "dict_get (if dict_has (wk_layer_buffers w) ?rid then wk_layer_buffers w else dict_set (wk_layer_buffers w) ?rid []) ?rid [] = base"
    using Cons.prems(4) by (auto simp: dict_has_map_of dict_get_def split: if_splits)
  define bufs where "bufs = dict_set (if dict_has (wk_layer_buffers w) ?rid then wk_layer_buffers w
      else dict_set (wk_layer_buffers w) ?rid []) ?rid (base @ [(n, t)])"
  have w1: "?w1 = w\<lparr>wk_layer_buffers := bufs\<rparr>"
    using Cons.prems(1) t new unfolding bufs_def by (simp add: save_kv_layer_def save_one_def Let_def get)
  have "\<exists>bufs'. save_layers (Some [m]) layers ?w1 = ?w1\<lparr>wk_layer_buffers := bufs'\<rparr> \<and>
      map_of bufs' ?rid = Some ((base @ [(n, t)]) @ map (\<lambda>x. (fst x, extracted ?ids (snd x))) layers)"
    using Cons.prems x ext unfolding w1 by (intro Cons.IH) (auto simp: bufs_def)
  then show ?case using w1 x ext by (auto simp: save_layers_def)
qed

section \<open>Sending a request\<close>

definition stacked_layers :: "int list \<Rightarrow> (string \<times> tensor) list \<Rightarrow> tensor list" where
  "stacked_layers ids layers = map (\<lambda>n. extracted ids (the (map_of layers n))) (sort (map fst layers))"

text \<open>The layers of one paged cache: distinct names, one shape and element type.\<close>

definition uniform_layers :: "(string \<times> tensor) list \<Rightarrow> tensor \<Rightarrow> bool" where
  "uniform_layers layers proto \<longleftrightarrow> layers \<noteq> [] \<and> distinct (map fst layers) \<and>
     (\<forall>x \<in> set layers. paged_layer (snd x) \<and> tn_shape (snd x) = tn_shape proto \<and> tn_dtype (snd x) = tn_dtype proto)"

lemma uniform_extract:
  assumes "uniform_layers layers proto" and "\<forall>i \<in> set is. i < num_kv_blocks proto" and "map_of layers n = Some l"
  shows "extract_kv_from_layer_by_blocks l (map int is) = Inr (extracted (map int is) l) \<and>
    blocks_for proto (length is) (extracted (map int is) l) \<and>
    (\<forall>k < length is. block_of (kv_first proto) (extracted (map int is) l) k = kv_block l (is ! k))"
proof -
  have l: "paged_layer l" "tn_shape l = tn_shape proto" "tn_dtype l = tn_dtype proto"
    using assms(1) map_of_SomeD[OF assms(3)] by (auto simp: uniform_layers_def)
  then have "\<forall>i \<in> set is. i < num_kv_blocks l" using assms(2) by (auto simp: num_kv_blocks_def kv_first_def)
  from extract_spec[OF l(1) this] obtain p where "extract_kv_from_layer_by_blocks l (map int is) = Inr p"
    "blocks_for l (length is) p" "\<forall>k < length is. block_of (kv_first l) p k = kv_block l (is ! k)" by blast
  then show ?thesis using l(2,3) by (simp add: extracted_def blocks_for_def blocks_shape_def kv_first_def)
qed

lemma stacked_layers_facts:
  assumes "uniform_layers layers proto" and "\<forall>i \<in> set is. i < num_kv_blocks proto"
  shows "\<exists>S. stack_tensors (stacked_layers (map int is) layers) = Inr S \<and> wf_tensor S \<and> tn_dtype S = tn_dtype proto \<and>
    tn_shape S = length layers # blocks_shape proto (length is) \<and>
    rows0 S = map tn_bytes (stacked_layers (map int is) layers)"
proof -
  have "blocks_for proto (length is) t" if "t \<in> set (stacked_layers (map int is) layers)" for t
  proof -
    obtain n where n: "n \<in> fst ` set layers" "t = extracted (map int is) (the (map_of layers n))"
      using \<open>t \<in> set (stacked_layers (map int is) layers)\<close> by (auto simp: stacked_layers_def)
    obtain l where "map_of layers n = Some l" using n(1) by (metis map_of_eq_None_iff option.exhaust)
    then show ?thesis using uniform_extract[OF assms] n(2) by auto
  qed
  moreover have len: "length (stacked_layers (map int is) layers) = length layers" by (simp add: stacked_layers_def)
  then have "stacked_layers (map int is) layers \<noteq> []" using assms(1) by (auto simp: uniform_layers_def)
  ultimately show ?thesis
    using stack_rows[of "stacked_layers (map int is) layers" "blocks_shape proto (length is)" "tn_dtype proto"] len
    by (auto simp: blocks_for_def)
qed

text \<open>The payload that a step with one request puts into the send queue, before it is wrapped.\<close>

lemma save_and_send:
  assumes "wk_is_producer w" and "map_of (wk_layer_buffers w) (rm_request_id m) = None"
    and u: "uniform_layers layers proto" and r: "\<forall>i \<in> set is. i < num_kv_blocks proto" and "rm_block_ids m = map int is"
    and S: "stack_tensors (stacked_layers (map int is) layers) = Inr S"
  shows "\<exists>bufs. wait_for_save ops mc (Some [m]) (save_layers (Some [m]) layers w) =
    (case send_request ops mc m (w\<lparr>wk_layer_buffers := bufs\<rparr>) of
       (w2, Raise e) \<Rightarrow> (w2, Inl e)
     | (w2, _) \<Rightarrow> (w2, Inr (if wk_async_send w2 then WaitBelow (wk_max_inflight_bytes w2) else WaitSent))) \<and>
    map_of bufs (rm_request_id m) = Some (map (\<lambda>x. (fst x, extracted (map int is) (snd x))) layers)"
proof -
  have "\<exists>t. extract_kv_from_layer_by_blocks (snd x) (rm_block_ids m) = Inr t" if "x \<in> set layers" for x
    using uniform_extract[OF u r, of "fst x" "snd x"] that u assms(5) by (auto simp: uniform_layers_def)
  then obtain bufs where bufs: "save_layers (Some [m]) layers w = w\<lparr>wk_layer_buffers := bufs\<rparr>"
    "map_of bufs (rm_request_id m) = Some (map (\<lambda>x. (fst x, extracted (map int is) (snd x))) layers)"
    using save_layers_buffers[of w "[]" layers m] assms(1,2,5) u by (auto simp: uniform_layers_def)
  let ?b = "filter (\<lambda>kv. fst kv \<in> {rm_request_id m}) bufs"
  have "map_of ?b (rm_request_id m) = map_of bufs (rm_request_id m)" by (induction bufs) auto
  then show ?thesis using bufs assms(1)
    by (intro exI[of _ ?b]) (auto simp: wait_for_save_def split: prod.splits flow.splits)
qed

lemma map_of_extracted:
  "map_of (map (\<lambda>x. (fst x, extracted ids (snd x))) layers) n = map_option (extracted ids) (map_of layers n)"
  by (induction layers) auto

lemma send_request_stacks:
  assumes "map_of bufs (rm_request_id m) = Some (map (\<lambda>x. (fst x, extracted ids (snd x))) layers)" and "layers \<noteq> []"
    and "stack_tensors (stacked_layers ids layers) = Inr S"
  shows "send_request ops mc m (w\<lparr>wk_layer_buffers := bufs\<rparr>) =
    (let w1 = w\<lparr>wk_layer_buffers := dict_pop bufs (rm_request_id m)\<rparr>; names = sort (map fst layers) in
     case wk_adapter w of
       None \<Rightarrow> (send_raw (rm_transfer_id m) names S w1, Continue)
     | Some a \<Rightarrow> (case op_compress ops a S (rm_request_id m) of
          (a', Inl e) \<Rightarrow> (w1\<lparr>wk_adapter := Some a'\<rparr>, Raise e)
        | (a', Inr None) \<Rightarrow> (send_raw (rm_transfer_id m) names S (w1\<lparr>wk_adapter := Some a'\<rparr>), Continue)
        | (a', Inr (Some ckv)) \<Rightarrow>
            send_compressed ops mc (rm_request_id m) (rm_transfer_id m) names ckv (w1\<lparr>wk_adapter := Some a'\<rparr>)))"
proof -
  let ?kv = "map (\<lambda>x. (fst x, extracted ids (snd x))) layers"
  have names: "map fst ?kv = map fst layers" by simp
  have "the (map_of ?kv n) = extracted ids (the (map_of layers n))" if "n \<in> set (sort (map fst layers))" for n
  proof -
    have "map_of layers n \<noteq> None" using that by (simp add: map_of_eq_None_iff)
    then show ?thesis by (auto simp: map_of_extracted)
  qed
  then have "map (\<lambda>n. the (map_of ?kv n)) (sort (map fst ?kv)) = stacked_layers ids layers"
    unfolding stacked_layers_def names by (intro map_cong) auto
  then show ?thesis using assms by (simp add: send_request_def Let_def comp_def)
qed

section \<open>Loading a request\<close>

definition row_of :: "tensor \<Rightarrow> nat \<Rightarrow> tensor" where
  "row_of S i = \<lparr>tn_dtype = tn_dtype S, tn_shape = drop 1 (tn_shape S), tn_bytes = rows0 S ! i\<rparr>"

text \<open>A cache layer with the layout of \<open>proto\<close> that has the blocks \<open>js\<close>, and the writing of payload blocks into it.\<close>

definition cache_fits :: "tensor \<Rightarrow> nat list \<Rightarrow> tensor \<Rightarrow> bool" where
  "cache_fits proto js cache \<longleftrightarrow> same_layout cache proto \<and> (\<forall>j \<in> set js. j < num_kv_blocks cache)"

definition blocks_written :: "nat list \<Rightarrow> nat \<Rightarrow> (nat \<Rightarrow> byte list) \<Rightarrow> tensor \<Rightarrow> tensor \<Rightarrow> bool" where
  "blocks_written js n content cache cache' \<longleftrightarrow> tn_shape cache' = tn_shape cache \<and>
     (\<forall>k < n. kv_block cache' (js ! k) = content k) \<and>
     (\<forall>j < num_kv_blocks cache. j \<notin> set (take n js) \<longrightarrow> kv_block cache' j = kv_block cache j)"

lemma load_stacked:
  assumes rec: "reconstruct repr ops names p w = (w1, Inr (RawPayload S))"
    and S: "wf_tensor S" "tn_dtype S = tn_dtype proto" "tn_shape S = length ns # blocks_shape proto n"
    and ns: "strip_sentinel names = ns" "distinct ns"
    and fit: "\<forall>name cache. name \<in> set ns \<longrightarrow> map_of caches name = Some cache \<longrightarrow> cache_fits proto js cache"
    and js: "rm_block_ids m = map int js" "distinct js" "n \<le> length js" "js \<noteq> []"
  shows "\<exists>caches'. load_payload repr ops m (names, Some p) w caches = ((w1, caches'), None) \<and>
    (\<forall>i < length ns. \<forall>cache. map_of caches (ns ! i) = Some cache \<longrightarrow>
      (\<exists>c'. map_of caches' (ns ! i) = Some c' \<and> blocks_written js n (block_of (kv_first proto) (row_of S i)) cache c')) \<and>
    (\<forall>x. x \<notin> set ns \<longrightarrow> map_of caches' x = map_of caches x)"
proof -
  have inj: "\<exists>c'. injected (RawPayload S) (map int js) i cache c' \<and>
      blocks_written js n (block_of (kv_first proto) (row_of S i)) cache c'"
    if i: "i < length ns" and c: "map_of caches (ns ! i) = Some cache" for i cache
  proof -
    have f: "same_layout cache proto" "\<forall>j \<in> set js. j < num_kv_blocks cache"
      using fit nth_mem[OF i] c by (auto simp: cache_fits_def)
    have pg: "paged_layer cache" "kv_first cache = kv_first proto" using f(1) by (auto simp: same_layout_def)
    have at: "stacked_at (RawPayload S) i = Inr (row_of S i)" using stacked_at_row[OF S(3) i] S(3) by (simp add: row_of_def)
    have "blocks_for proto n (row_of S i)" using row_blocks[OF S(1,3) i] S(2,3) by (simp add: blocks_for_def row_of_def)
    then have "blocks_for cache n (row_of S i)" by (simp add: blocks_for_same_layout[OF f(1)])
    from inject_spec[OF pg(1) this f(2) js(2-4)] show ?thesis
      using at pg(2) by (auto simp: injected_def blocks_written_def)
  qed
  have ex: "\<exists>c'. injected (RawPayload S) (map int js) (0 + i) cache c'"
    if "i < length ns" "map_of caches (ns ! i) = Some cache" for i cache using inj[OF that] by auto
  obtain cs' where cs': "for_loop (inject_layer (RawPayload S) (map int js)) (List.enumerate 0 ns) caches = (cs', None)"
    "\<forall>i < length ns. \<forall>cache. map_of caches (ns ! i) = Some cache \<longrightarrow>
       (\<exists>c'. map_of cs' (ns ! i) = Some c' \<and> injected (RawPayload S) (map int js) i cache c')"
    "\<forall>x. x \<notin> set ns \<longrightarrow> map_of cs' x = map_of caches x"
    using inject_layers[of ns caches "RawPayload S" "map int js" 0, OF ns(2) ex] by auto
  have "\<exists>c'. map_of cs' (ns ! i) = Some c' \<and> blocks_written js n (block_of (kv_first proto) (row_of S i)) cache c'"
    if "i < length ns" "map_of caches (ns ! i) = Some cache" for i cache
    using cs'(2) inj[OF that] that by (force simp: injected_def)
  then show ?thesis using cs'(1,3) rec ns(1) js(1) by (auto simp: load_payload_def)
qed

lemma strip_add_sentinel [simp]: "strip_sentinel (add_sentinel names) = names" "is_compressed_layer_names (add_sentinel names)"
  by (simp_all add: strip_sentinel_def add_sentinel_def is_compressed_layer_names_def)

lemma unmarked_names: "COMPRESSED_SENTINEL \<notin> set names \<Longrightarrow> \<not> is_compressed_layer_names names \<and> strip_sentinel names = names"
  by (cases names) (auto simp: is_compressed_layer_names_def strip_sentinel_def)

lemma stacked_layers_nth:
  assumes "i < length layers" and "distinct (map fst layers)"
  shows "\<exists>l. map_of layers (sort (map fst layers) ! i) = Some l \<and> stacked_layers ids layers ! i = extracted ids l"
proof -
  have "sort (map fst layers) ! i \<in> fst ` set layers" using assms(1) nth_mem[of i "sort (map fst layers)"] by simp
  then have "map_of layers (sort (map fst layers) ! i) \<noteq> None" by (simp add: map_of_eq_None_iff)
  then show ?thesis using assms(1) by (auto simp: stacked_layers_def)
qed

section \<open>The load loop\<close>

abbreviation buffered :: "'a worker \<Rightarrow> string \<Rightarrow> delivery list" where
  "buffered w tid \<equiv> dict_get (wk_received_kv w) tid []"

lemma buffer_fold:
  "dict_get (fold (\<lambda>(k, ds) d. dict_set d k (dict_get d k [] @ ds)) newly d0) tid [] =
   dict_get d0 tid [] @ concat (map snd (filter (\<lambda>kv. fst kv = tid) newly))"
  by (induction newly arbitrary: d0) (auto simp: dict_get_def split: option.splits)

definition arrive :: "(string \<times> delivery) list \<Rightarrow> receiver \<Rightarrow> receiver" where
  "arrive arrivals rx = fold (\<lambda>(rid, d) rx. deliver rx rid d) arrivals rx"

lemma arrive_Cons: "arrive (x # xs) rx = arrive xs (deliver rx (fst x) (snd x))"
  by (simp add: arrive_def case_prod_beta)

lemma arrive_get:
  "dict_get (rx_received (arrive arrivals rx)) tid [] =
     dict_get (rx_received rx) tid [] @ map snd (filter (\<lambda>x. fst x = tid) arrivals)"
proof (induction arrivals arbitrary: rx)
  case (Cons x arrivals)
  have "dict_get (rx_received (deliver rx (fst x) (snd x))) tid [] =
      dict_get (rx_received rx) tid [] @ (if fst x = tid then [snd x] else [])"
    by (auto simp: deliver_def dict_get_def split: option.splits)
  then show ?case by (simp add: arrive_Cons Cons.IH)
qed (simp add: arrive_def)

lemma arrive_distinct:
  "distinct (map fst (rx_received rx)) \<Longrightarrow> distinct (map fst (rx_received (arrive arrivals rx)))"
  by (induction arrivals arbitrary: rx) (simp_all add: arrive_Cons distinct_deliver, simp add: arrive_def)

lemma arrive_reserved [simp]: "rx_reserved_bytes (arrive arrivals rx) = rx_reserved_bytes rx"
  by (induction arrivals arbitrary: rx) (simp_all add: arrive_Cons deliver_def, simp add: arrive_def)

lemma concat_filter_key:
  "distinct (map fst d) \<Longrightarrow> concat (map snd (filter (\<lambda>kv. snd kv \<noteq> [] \<and> fst kv = tid) d)) = dict_get d tid []"
proof (induction d)
  case (Cons x d)
  have "filter (\<lambda>kv. snd kv \<noteq> [] \<and> fst kv = tid) d = []" if "fst x = tid"
  proof -
    have "tid \<notin> fst ` set d" using that Cons.prems by auto
    then show ?thesis unfolding filter_empty_conv by (metis image_eqI)
  qed
  then show ?case using Cons by (auto simp: dict_get_def)
qed (simp add: dict_get_def)

text \<open>A poll appends what the transport holds and what has just arrived, in order, to every request.\<close>

lemma poll_transport_alt:
  "poll_transport arrivals w = buffer_received (filter (\<lambda>kv. snd kv \<noteq> []) (rx_received (arrive arrivals (wk_rx w))))
     (w\<lparr>wk_rx := (arrive arrivals (wk_rx w))\<lparr>rx_received := []\<rparr>\<rparr>)"
  by (simp add: poll_transport_def arrive_def drain_received_def)

lemma poll_buffered:
  assumes "distinct (map fst (rx_received (wk_rx w)))"
  shows "buffered (poll_transport arrivals w) tid = buffered w tid @ dict_get (rx_received (wk_rx w)) tid [] @
      map snd (filter (\<lambda>x. fst x = tid) arrivals)" and "rx_received (wk_rx (poll_transport arrivals w)) = []"
  using arrive_distinct[OF assms, of arrivals]
  by (simp_all add: poll_transport_alt buffer_received_def buffer_fold concat_filter_key arrive_get)

lemma load_payload_worker: "\<exists>a. fst (fst (load_payload repr ops m d w caches)) = w\<lparr>wk_adapter := a\<rparr>"
proof -
  have same: "\<exists>a. w = w\<lparr>wk_adapter := a\<rparr>" by (rule exI[of _ "wk_adapter w"]) simp
  then have "\<exists>a. fst (reconstruct repr ops names p w) = w\<lparr>wk_adapter := a\<rparr>" for names p
    unfolding reconstruct_def by (auto split: option.splits payload.splits wval.splits sum.splits prod.splits)
  then show ?thesis using same unfolding load_payload_def
    by (auto split: option.splits prod.splits sum.splits) (metis fst_conv)+
qed

lemma load_request_facts:
  assumes "load_request repr ops r w caches = ((w2, caches'), e)"
  shows "tid \<noteq> rm_transfer_id r \<Longrightarrow> buffered w2 tid = buffered w tid"
    and "buffered w2 (rm_transfer_id r) = tl (buffered w (rm_transfer_id r))"
    and "wk_rx w2 = release_received (wk_rx w) (rm_transfer_id r) (delivery_nbytes (hd (buffered w (rm_transfer_id r))))"
    and "\<exists>v. e = snd (load_payload repr ops r (hd (buffered w (rm_transfer_id r))) v caches)"
    and "wk_received_kv w2 = (if tl (buffered w (rm_transfer_id r)) = [] then dict_pop (wk_received_kv w) (rm_transfer_id r)
      else dict_set (wk_received_kv w) (rm_transfer_id r) (tl (buffered w (rm_transfer_id r))))"
proof -
  let ?t = "rm_transfer_id r" and ?d = "hd (buffered w (rm_transfer_id r))"
  let ?kv = "if tl (buffered w ?t) = [] then dict_pop (wk_received_kv w) ?t else dict_set (wk_received_kv w) ?t (tl (buffered w ?t))"
  let ?w1 = "w\<lparr>wk_received_kv := ?kv\<rparr>"
  obtain a where a: "fst (fst (load_payload repr ops r ?d ?w1 caches)) = ?w1\<lparr>wk_adapter := a\<rparr>" using load_payload_worker by blast
  have w2: "w2 = ?w1\<lparr>wk_adapter := a, wk_rx := release_received (wk_rx w) ?t (delivery_nbytes ?d)\<rparr>"
    and e: "e = snd (load_payload repr ops r ?d ?w1 caches)"
    using assms a by (auto simp: load_request_def Let_def split: prod.splits)
  show "tid \<noteq> ?t \<Longrightarrow> buffered w2 tid = buffered w tid" using w2 by (simp add: dict_get_def)
  show "buffered w2 ?t = tl (buffered w ?t)" using w2 by (simp add: dict_get_def)
  show "wk_rx w2 = release_received (wk_rx w) ?t (delivery_nbytes ?d)" using w2 by simp
  show "\<exists>v. e = snd (load_payload repr ops r ?d v caches)" using e by blast
  show "wk_received_kv w2 = ?kv" using w2 by simp
qed

text \<open>Why the loop may stop early: a payload of one of the requests could not be loaded.\<close>

definition stopped :: "(wval \<Rightarrow> string) \<Rightarrow> 'a adapter_ops \<Rightarrow> req_meta list \<Rightarrow> load_result \<Rightarrow> bool" where
  "stopped repr ops ms r \<longleftrightarrow> r = Loaded \<or>
     (\<exists>m \<in> set ms. \<exists>d w caches e. snd (load_payload repr ops m d w caches) = Some e \<and> r = Failed e)"

lemma stopped_mono: "stopped repr ops ms r \<Longrightarrow> set ms \<subseteq> set ms' \<Longrightarrow> stopped repr ops ms' r"
  by (auto simp: stopped_def)

lemma ready_poll:
  assumes "distinct (map fst (rx_received (wk_rx w)))" and "ready w m \<or> rm_transfer_id m \<in> fst ` set arrivals"
  shows "ready (poll_transport arrivals w) m"
proof -
  have "filter (\<lambda>x. fst x = rm_transfer_id m) arrivals \<noteq> []" if "rm_transfer_id m \<in> fst ` set arrivals"
    using that unfolding filter_empty_conv by force
  then show ?thesis using assms(2) by (auto simp: ready_def poll_buffered[OF assms(1)])
qed

lemma ready_load:
  assumes "load_request repr ops r w caches = ((w2, caches'), e)" and "rm_transfer_id m \<noteq> rm_transfer_id r"
  shows "ready w2 m = ready w m"
  using load_request_facts(1)[OF assms] by (simp add: ready_def)

lemma transfer_ids_distinct:
  assumes "distinct (map rm_transfer_id ms)" and "r \<in> set ms" and "m \<in> set (remove1 r ms)"
  shows "rm_transfer_id m \<noteq> rm_transfer_id r"
proof -
  have "distinct ms" using assms(1) by (rule distinct_map[THEN iffD1, THEN conjunct1])
  then have "m \<in> set ms" "m \<noteq> r" using assms(3) by (auto dest: set_remove1_subset[THEN subsetD])
  then show ?thesis using assms(1,2) by (auto simp: distinct_map inj_on_def)
qed

lemma distinct_transfer_remove1:
  "distinct (map rm_transfer_id ms) \<Longrightarrow> distinct (map rm_transfer_id (remove1 r ms))"
  by (induction ms) (auto dest: set_remove1_subset[THEN subsetD])

text \<open>
  Once the payloads of all remaining requests have arrived, one poll per request is enough; a
  poll before that loads some request or waits.
\<close>

definition due :: "nat \<Rightarrow> ((string \<times> delivery) list \<times> bool) list \<Rightarrow> 'a worker \<Rightarrow> req_meta list \<Rightarrow> bool" where
  "due k polls w ms \<longleftrightarrow> distinct (map fst (rx_received (wk_rx w))) \<and> distinct (map rm_transfer_id ms) \<and>
     (\<forall>x \<in> set (take k polls). \<not> snd x) \<and> k + length ms \<le> length polls \<and>
     (\<forall>m \<in> set ms. ready w m \<or> (\<exists>x \<in> set (take k polls). rm_transfer_id m \<in> fst ` set (fst x)))"

lemma due_ready: "due 0 polls w ms \<Longrightarrow> m \<in> set ms \<Longrightarrow> ready w m"
  by (simp add: due_def)

lemma due_poll:
  assumes "due k ((arrivals, late) # polls) w ms"
  shows "distinct (map fst (rx_received (wk_rx (poll_transport arrivals w))))" and "k = 0 \<or> \<not> late"
    and "\<forall>m \<in> set ms. ready (poll_transport arrivals w) m \<or> (\<exists>x \<in> set (take (k - 1) polls). rm_transfer_id m \<in> fst ` set (fst x))"
    and "\<forall>x \<in> set (take (k - 1) polls). \<not> snd x"
proof -
  have rx: "distinct (map fst (rx_received (wk_rx w)))" using assms by (simp add: due_def)
  show "distinct (map fst (rx_received (wk_rx (poll_transport arrivals w))))" using poll_buffered(2)[OF rx] by simp
  show "k = 0 \<or> \<not> late" "\<forall>x \<in> set (take (k - 1) polls). \<not> snd x" using assms by (cases k; auto simp: due_def)+
  show "\<forall>m \<in> set ms. ready (poll_transport arrivals w) m \<or> (\<exists>x \<in> set (take (k - 1) polls). rm_transfer_id m \<in> fst ` set (fst x))"
  proof (cases k)
    case 0
    then show ?thesis using assms ready_poll[OF rx, of _ arrivals] by (simp add: due_def)
  next
    case (Suc j)
    then have "\<forall>m \<in> set ms. (ready w m \<or> rm_transfer_id m \<in> fst ` set arrivals) \<or>
        (\<exists>x \<in> set (take j polls). rm_transfer_id m \<in> fst ` set (fst x))" using assms by (simp add: due_def)
    then show ?thesis using ready_poll[OF rx, of _ arrivals] Suc by (metis diff_Suc_1)
  qed
qed

lemma due_load:
  assumes "due k ((arrivals, late) # polls) w ms" and "r \<in> set ms"
    and "load_request repr ops r (poll_transport arrivals w) caches = ((w2, caches'), e)"
  shows "due (k - 1) polls w2 (remove1 r ms)"
proof -
  have d: "distinct (map rm_transfer_id ms)" using assms(1) by (simp add: due_def)
  have "ready w2 m \<or> (\<exists>x \<in> set (take (k - 1) polls). rm_transfer_id m \<in> fst ` set (fst x))" if "m \<in> set (remove1 r ms)" for m
    using due_poll(3)[OF assms(1)] ready_load[OF assms(3)] transfer_ids_distinct[OF d assms(2) that]
      set_remove1_subset[of r ms] that by blast
  moreover have "distinct (map fst (rx_received (wk_rx w2)))"
    using due_poll(1)[OF assms(1)] load_request_facts(3)[OF assms(3)] by (simp add: release_received_def)
  moreover have "k - 1 + length (remove1 r ms) \<le> length polls"
    using assms(1,2) length_pos_if_in_set[OF assms(2)] by (simp add: due_def length_remove1) linarith
  ultimately show ?thesis
    using due_poll(4)[OF assms(1)] distinct_transfer_remove1[OF d] by (simp add: due_def)
qed

lemma load_loop_progress:
  "due k polls w ms \<Longrightarrow> stopped repr ops ms (snd (load_loop repr ops polls ms w caches))"
proof (induction polls arbitrary: k ms w caches)
  case Nil
  then show ?case by (simp add: due_def stopped_def)
next
  case (Cons x polls)
  obtain arrivals late where x: "x = (arrivals, late)" by (cases x)
  note due = Cons.prems[unfolded x]
  let ?w1 = "poll_transport arrivals w"
  show ?case
  proof (cases ms)
    case Nil
    then show ?thesis by (simp add: stopped_def)
  next
    case ms: (Cons m0 ms0)
    show ?thesis
    proof (cases "find (ready ?w1) ms")
      case None
      then have no: "\<not> ready ?w1 m0" using ms by (auto simp: find_None_iff split: if_splits)
      then have k: "k \<noteq> 0" using due_poll(3)[OF due] ms by (cases k) auto
      then have "due (k - 1) polls ?w1 ms" using due_poll[OF due] due by (auto simp: due_def)
      then show ?thesis using Cons.IH None due_poll(2)[OF due] k ms x by simp
    next
      case (Some r)
      then have r: "r \<in> set ms" by (auto simp: find_Some_iff)
      obtain w2 cs' e where l: "load_request repr ops r ?w1 caches = ((w2, cs'), e)" by (metis surj_pair)
      show ?thesis
      proof (cases e)
        case None
        then have "load_loop repr ops (x # polls) ms w caches = load_loop repr ops polls (remove1 r ms) w2 cs'"
          using Some l ms x by (simp del: remove1.simps find.simps)
        then show ?thesis using stopped_mono[OF Cons.IH[OF due_load[OF due r l]] set_remove1_subset] by simp
      next
        case e: (Some err)
        then have "load_loop repr ops (x # polls) ms w caches = ((w2, cs'), Failed err)"
          using Some l ms x by (simp del: find.simps)
        moreover obtain d v where "snd (load_payload repr ops r d v caches) = Some err"
          using load_request_facts(4)[OF l] e by metis
        ultimately show ?thesis using r by (metis stopped_def snd_conv)
      qed
    qed
  qed
qed

section \<open>Staging credit\<close>

definition bytes_of :: "delivery list \<Rightarrow> int" where
  "bytes_of ds = sum_list (map delivery_nbytes ds)"

definition held :: "(string \<times> delivery list) list \<Rightarrow> int" where
  "held d = sum_list (map (\<lambda>kv. bytes_of (snd kv)) d)"

text \<open>Payload bytes received and not yet consumed.\<close>

definition staged :: "'a worker \<Rightarrow> int" where
  "staged w = held (wk_received_kv w) + held (rx_received (wk_rx w))"

definition arriving :: "((string \<times> delivery) list \<times> bool) list \<Rightarrow> int" where
  "arriving polls = sum_list (map (\<lambda>x. bytes_of (map snd (fst x))) polls)"

definition keys_ok :: "'a worker \<Rightarrow> bool" where
  "keys_ok w \<longleftrightarrow> distinct (map fst (wk_received_kv w)) \<and> distinct (map fst (rx_received (wk_rx w)))"

lemma delivery_nbytes_nonneg [simp]: "0 \<le> delivery_nbytes d"
  by (simp add: delivery_nbytes_def split: option.splits)

lemma bytes_of_simps [simp]:
  "bytes_of [] = 0" "bytes_of (d # ds) = delivery_nbytes d + bytes_of ds" "bytes_of (ds @ es) = bytes_of ds + bytes_of es"
  by (simp_all add: bytes_of_def)

lemma bytes_of_nonneg [simp]: "0 \<le> bytes_of ds"
  by (simp add: bytes_of_def sum_list_nonneg_int)

lemma held_nonneg: "0 \<le> held d"
  by (simp add: held_def sum_list_nonneg_int)

lemma arriving_nonneg: "0 \<le> arriving polls"
  by (simp add: arriving_def sum_list_nonneg_int)

lemma held_dict_set: "distinct (map fst d) \<Longrightarrow> held (dict_set d k ds) = held d - bytes_of (dict_get d k []) + bytes_of ds"
  by (induction d k ds rule: dict_set.induct) (auto simp: held_def dict_get_def)

lemma held_dict_pop: "distinct (map fst d) \<Longrightarrow> held (dict_pop d k) = held d - bytes_of (dict_get d k [])"
proof (induction d)
  case (Cons x d)
  have "dict_pop d k = d" if "k \<notin> fst ` set d" for k using that by (induction d) (auto simp: dict_pop_def)
  then show ?case using Cons by (auto simp: held_def dict_get_def dict_pop_def)
qed (simp add: held_def dict_get_def dict_pop_def)

lemma held_filter: "held (filter (\<lambda>kv. snd kv \<noteq> []) d) = held d"
  by (induction d) (auto simp: held_def)

lemma held_arrive:
  "distinct (map fst (rx_received rx)) \<Longrightarrow> held (rx_received (arrive arrivals rx)) = held (rx_received rx) + bytes_of (map snd arrivals)"
proof (induction arrivals arbitrary: rx)
  case (Cons x arrivals)
  have "held (rx_received (deliver rx (fst x) (snd x))) = held (rx_received rx) + delivery_nbytes (snd x)"
    using held_dict_set[OF Cons.prems] by (simp add: deliver_def dict_get_def split: option.splits)
  then show ?case using Cons.IH[OF distinct_deliver[OF Cons.prems]] by (simp add: arrive_Cons)
qed (simp add: arrive_def)

lemma held_buffer:
  "distinct (map fst d) \<Longrightarrow> held (fold (\<lambda>(k, ds) d. dict_set d k (dict_get d k [] @ ds)) newly d) = held d + held newly \<and>
   distinct (map fst (fold (\<lambda>(k, ds) d. dict_set d k (dict_get d k [] @ ds)) newly d))"
proof (induction newly arbitrary: d)
  case (Cons x newly)
  show ?case using Cons.IH[OF distinct_dict_set[OF Cons.prems]] held_dict_set[OF Cons.prems]
    by (simp add: case_prod_beta held_def[of "x # newly"] held_def[of newly])
qed (simp add: held_def)

lemma poll_credit:
  assumes "keys_ok w"
  shows "staged (poll_transport arrivals w) = staged w + bytes_of (map snd arrivals)" and "keys_ok (poll_transport arrivals w)"
    and "rx_reserved_bytes (wk_rx (poll_transport arrivals w)) = rx_reserved_bytes (wk_rx w)"
  using assms held_buffer[of "wk_received_kv w" "filter (\<lambda>kv. snd kv \<noteq> []) (rx_received (arrive arrivals (wk_rx w)))"]
    held_arrive[of "wk_rx w" arrivals]
  by (auto simp: keys_ok_def poll_transport_alt buffer_received_def staged_def held_filter held_def[of "[]"])

lemma load_request_credit:
  assumes "load_request repr ops r w caches = ((w2, caches'), e)" and "keys_ok w" and "ready w r"
    and "staged w \<le> rx_reserved_bytes (wk_rx w)"
  shows "keys_ok w2" and "rx_reserved_bytes (wk_rx w2) - staged w2 = rx_reserved_bytes (wk_rx w) - staged w"
proof -
  let ?t = "rm_transfer_id r"
  obtain d ds where b: "buffered w ?t = d # ds" using assms(3) by (cases "buffered w ?t") (auto simp: ready_def)
  have kv: "wk_received_kv w2 = (if ds = [] then dict_pop (wk_received_kv w) ?t else dict_set (wk_received_kv w) ?t ds)"
    and rx: "wk_rx w2 = release_received (wk_rx w) ?t (delivery_nbytes d)"
    using load_request_facts(3,5)[OF assms(1)] b by simp_all
  show "keys_ok w2" using assms(2) kv rx
    by (auto simp: keys_ok_def release_received_def distinct_dict_pop distinct_dict_set)
  have dist: "distinct (map fst (wk_received_kv w))" using assms(2) by (simp add: keys_ok_def)
  have h: "held (wk_received_kv w2) = held (wk_received_kv w) - delivery_nbytes d"
    using kv b held_dict_pop[OF dist, of ?t] held_dict_set[OF dist, of ?t ds] by simp
  have "0 \<le> held (wk_received_kv w2)" "0 \<le> held (rx_received (wk_rx w))" by (rule held_nonneg)+
  then have "delivery_nbytes d \<le> rx_reserved_bytes (wk_rx w)" using assms(4) h by (simp add: staged_def)
  then show "rx_reserved_bytes (wk_rx w2) - staged w2 = rx_reserved_bytes (wk_rx w) - staged w"
    using rx h delivery_nbytes_nonneg[of d] by (auto simp: staged_def release_received_def)
qed

lemma load_loop_credit:
  assumes "load_loop repr ops polls ms w caches = ((w', caches'), r)" and "keys_ok w"
    and "staged w + arriving polls \<le> rx_reserved_bytes (wk_rx w)"
  shows "\<exists>rest. suffix rest polls \<and>
    rx_reserved_bytes (wk_rx w') - (staged w' + arriving rest) = rx_reserved_bytes (wk_rx w) - (staged w + arriving polls)"
  using assms
proof (induction repr ops polls ms w caches rule: load_loop.induct)
  case (1 repr ops polls w caches)
  then show ?case by (intro exI[of _ polls]) (auto simp: expect_def set_expected_requests_def staged_def)
next
  case (2 repr ops m ms w caches)
  then show ?case by auto
next
  case (3 repr ops arrivals late polls m ms w caches)
  let ?w1 = "poll_transport arrivals w"
  note pc = poll_credit[OF 3(4), of arrivals]
  have arr: "arriving ((arrivals, late) # polls) = bytes_of (map snd arrivals) + arriving polls" by (simp add: arriving_def)
  have ext: "\<exists>rest. suffix rest ((arrivals, late) # polls) \<and> slack rest" if "\<exists>rest. suffix rest polls \<and> slack rest" for slack
    using that by (auto intro: suffix_ConsI)
  show ?case
  proof (cases "find (ready ?w1) (m # ms)")
    case None
    show ?thesis
    proof (cases late)
      case True
      then have "w' = expect [] ?w1" using None 3(3) by simp
      then show ?thesis using pc arr
        by (intro exI[of _ polls]) (auto simp: expect_def set_expected_requests_def staged_def suffix_ConsI)
    next
      case False
      then have l: "load_loop repr ops polls (m # ms) ?w1 caches = ((w', caches'), r)" using None 3(3) by simp
      show ?thesis using 3(1)[OF refl None False l pc(2)] pc 3(5) arr by (intro ext) auto
    qed
  next
    case (Some q)
    then have q: "ready ?w1 q" by (auto simp: find_Some_iff split: if_splits)
    obtain w2 cs' e where l: "load_request repr ops q ?w1 caches = ((w2, cs'), e)" by (metis surj_pair)
    have "staged ?w1 \<le> rx_reserved_bytes (wk_rx ?w1)" using pc 3(5) arr arriving_nonneg[of polls] by linarith
    note rc = load_request_credit[OF l pc(2) q this]
    show ?thesis
    proof (cases e)
      case None
      then have l2: "load_loop repr ops polls (remove1 q (m # ms)) w2 cs' = ((w', caches'), r)" using Some l 3(3) by (simp del: find.simps)
      show ?thesis using 3(2)[OF refl Some l[symmetric] refl None l2 rc(1)] rc(2) pc 3(5) arr by (intro ext) auto
    next
      case e: (Some err)
      then have "w' = w2" using Some l 3(3) by (simp del: find.simps)
      then show ?thesis using rc(2) pc arr by (intro exI[of _ polls]) (auto simp: suffix_ConsI)
    qed
  qed
qed

section \<open>Properties\<close>

text \<open>
  C8: Without compression the KV cache arrives unchanged.  When a producer saves the layers of a
  request and finishes the step, one message is queued under the request's transfer
  identifier; a consumer that loads its payload ends up, in every layer both sides have, with
  block \<open>js[k]\<close> equal to the producer's block \<open>is[k]\<close>, and with all other blocks and layers
  as they were.
\<close>

theorem raw_kv_transfer:
  assumes "wk_is_producer P" and "wk_adapter P = None" and "map_of (wk_layer_buffers P) (rm_request_id m) = None"
    and "uniform_layers layers proto" and "\<forall>i \<in> set is. i < num_kv_blocks proto" and "rm_block_ids m = map int is"
    and "COMPRESSED_SENTINEL \<notin> fst ` set layers"
    and "\<forall>name cache. name \<in> fst ` set layers \<longrightarrow> map_of caches name = Some cache \<longrightarrow> cache_fits proto js cache"
    and "rm_block_ids m' = map int js" and "distinct js" and "length is \<le> length js" and "js \<noteq> []"
  shows "\<exists>item caches'.
    tx_queue (wk_tx (fst (wait_for_save ops mc (Some [m]) (save_layers (Some [m]) layers P)))) = tx_queue (wk_tx P) @ [item] \<and>
    si_request_id item = rm_transfer_id m \<and>
    load_payload repr ops m' (si_layer_names item, Some (si_payload item)) C caches = ((C, caches'), None) \<and>
    (\<forall>name l cache. map_of layers name = Some l \<longrightarrow> map_of caches name = Some cache \<longrightarrow>
      (\<exists>c'. map_of caches' name = Some c' \<and> blocks_written js (length is) (\<lambda>k. kv_block l (is ! k)) cache c')) \<and>
    (\<forall>name. name \<notin> fst ` set layers \<longrightarrow> map_of caches' name = map_of caches name)"
proof -
  let ?names = "sort (map fst layers)" and ?ids = "map int is"
  have ne: "layers \<noteq> []" "distinct (map fst layers)" using assms(4) by (auto simp: uniform_layers_def)
  obtain S where S: "stack_tensors (stacked_layers ?ids layers) = Inr S" "wf_tensor S" "tn_dtype S = tn_dtype proto"
    "tn_shape S = length ?names # blocks_shape proto (length is)" "rows0 S = map tn_bytes (stacked_layers ?ids layers)"
    using stacked_layers_facts[OF assms(4,5)] by auto
  obtain bufs where b: "wait_for_save ops mc (Some [m]) (save_layers (Some [m]) layers P) =
      (case send_request ops mc m (P\<lparr>wk_layer_buffers := bufs\<rparr>) of
         (w2, Raise e) \<Rightarrow> (w2, Inl e)
       | (w2, _) \<Rightarrow> (w2, Inr (if wk_async_send w2 then WaitBelow (wk_max_inflight_bytes w2) else WaitSent)))"
    "map_of bufs (rm_request_id m) = Some (map (\<lambda>x. (fst x, extracted ?ids (snd x))) layers)"
    using save_and_send[OF assms(1,3-6) S(1)] by blast
  let ?item = "\<lparr>si_request_id = rm_transfer_id m, si_layer_names = ?names, si_payload = RawPayload S,
      si_payload_bytes = payload_nbytes (RawPayload S)\<rparr>"
  have q: "tx_queue (wk_tx (fst (wait_for_save ops mc (Some [m]) (save_layers (Some [m]) layers P)))) = tx_queue (wk_tx P) @ [?item]"
    unfolding b(1) send_request_stacks[OF b(2) ne(1) S(1)]
    using assms(2) by (simp add: send_raw_def send_def enqueue_def Let_def)
  have un: "\<not> is_compressed_layer_names ?names \<and> strip_sentinel ?names = ?names"
    using assms(7) by (intro unmarked_names) simp
  have rec: "reconstruct repr ops ?names (RawPayload S) C = (C, Inr (RawPayload S))" using un by (simp add: reconstruct_def)
  have fit: "\<forall>name cache. name \<in> set ?names \<longrightarrow> map_of caches name = Some cache \<longrightarrow> cache_fits proto js cache"
    using assms(8) by simp
  have dn: "distinct ?names" using ne(2) by simp
  obtain caches' where c: "load_payload repr ops m' (?names, Some (RawPayload S)) C caches = ((C, caches'), None)"
    "\<forall>i < length ?names. \<forall>cache. map_of caches (?names ! i) = Some cache \<longrightarrow>
      (\<exists>c'. map_of caches' (?names ! i) = Some c' \<and> blocks_written js (length is) (block_of (kv_first proto) (row_of S i)) cache c')"
    "\<forall>x. x \<notin> set ?names \<longrightarrow> map_of caches' x = map_of caches x"
    using load_stacked[of repr ops ?names "RawPayload S" C C S proto ?names "length is" caches js m',
        OF rec S(2-4) conjunct2[OF un] dn fit assms(9-12)] by auto
  have "\<exists>c'. map_of caches' name = Some c' \<and> blocks_written js (length is) (\<lambda>k. kv_block l (is ! k)) cache c'"
    if l: "map_of layers name = Some l" and cache: "map_of caches name = Some cache" for name l cache
  proof -
    have "name \<in> set ?names" using map_of_SomeD[OF l] by (force simp: image_iff)
    then obtain i where i: "i < length ?names" "?names ! i = name" using in_set_conv_nth[of name ?names] by blast
    have e: "stacked_layers ?ids layers ! i = extracted ?ids l"
      using stacked_layers_nth[of i layers ?ids] i ne(2) l by auto
    have bf: "blocks_for proto (length is) (extracted ?ids l)"
      "\<forall>k < length is. block_of (kv_first proto) (extracted ?ids l) k = kv_block l (is ! k)"
      using uniform_extract[OF assms(4,5) l] by auto
    have "row_of S i = extracted ?ids l"
      using S(3-5) e i(1) bf(1) by (simp add: row_of_def blocks_for_def stacked_layers_def)
    then show ?thesis using c(2) i cache bf(2) by (force simp: blocks_written_def)
  qed
  then show ?thesis using q c(1,3) by (intro exI[of _ ?item] exI[of _ caches']) simp
qed

lemma wire_restores:
  assumes "valid_kv mc ckv"
  shows "\<exists>wire. build_wire ckv mc = Inr wire \<and> restore_from_wire repr wire = Inr (norm_kv repr ckv)"
  using assms wire_chunked_round_trip wire_body_round_trip by (cases "ck_is_chunked ckv") auto

text \<open>
  C11: With compression the wire adds no loss of its own.  The marked message that a producer
  queues for a request decodes on the consumer to exactly what the decompressor makes of the
  compressed value, and the rows of that tensor, one per layer in the order of the sorted
  names, go into the consumer's blocks of the layer of that name; all other blocks and layers
  stay as they were.
\<close>

theorem compressed_kv_transfer:
  assumes "wk_is_producer P" and "map_of (wk_layer_buffers P) (rm_request_id m) = None"
    and "uniform_layers layers proto" and "\<forall>i \<in> set is. i < num_kv_blocks proto" and "rm_block_ids m = map int is"
    and "stack_tensors (stacked_layers (map int is) layers) = Inr S"
    and "wk_adapter P = Some a" and "op_compress ops a S (rm_request_id m) = (a', Inr (Some ckv))" and "valid_kv mc ckv"
    and "wk_adapter C = Some b" and "op_decompress ops b (norm_kv repr ckv) = (b', Inr (Some T))"
    and "wf_tensor T" and "tn_dtype T = tn_dtype S" and "tn_shape T = tn_shape S"
    and "\<forall>name cache. name \<in> fst ` set layers \<longrightarrow> map_of caches name = Some cache \<longrightarrow> cache_fits proto js cache"
    and "rm_block_ids m' = map int js" and "distinct js" and "length is \<le> length js" and "js \<noteq> []"
  shows "\<exists>item caches'.
    tx_queue (wk_tx (fst (wait_for_save ops mc (Some [m]) (save_layers (Some [m]) layers P)))) = tx_queue (wk_tx P) @ [item] \<and>
    si_request_id item = rm_transfer_id m \<and>
    load_payload repr ops m' (si_layer_names item, Some (si_payload item)) C caches = ((C\<lparr>wk_adapter := Some b'\<rparr>, caches'), None) \<and>
    (\<forall>i < length layers. \<forall>cache. map_of caches (sort (map fst layers) ! i) = Some cache \<longrightarrow>
      (\<exists>c'. map_of caches' (sort (map fst layers) ! i) = Some c' \<and>
         blocks_written js (length is) (block_of (kv_first proto) (row_of T i)) cache c')) \<and>
    (\<forall>name. name \<notin> fst ` set layers \<longrightarrow> map_of caches' name = map_of caches name)"
proof -
  let ?names = "sort (map fst layers)" and ?ids = "map int is"
  have ne: "layers \<noteq> []" "distinct ?names" using assms(3) by (auto simp: uniform_layers_def)
  have T: "tn_dtype T = tn_dtype proto" "tn_shape T = length ?names # blocks_shape proto (length is)"
    using stacked_layers_facts[OF assms(3,4)] assms(6,13,14) by auto
  obtain wire where wire: "build_wire ckv mc = Inr wire" "restore_from_wire repr wire = Inr (norm_kv repr ckv)"
    using wire_restores[OF assms(9)] by blast
  obtain bufs where b: "wait_for_save ops mc (Some [m]) (save_layers (Some [m]) layers P) =
      (case send_request ops mc m (P\<lparr>wk_layer_buffers := bufs\<rparr>) of
         (w2, Raise e) \<Rightarrow> (w2, Inl e)
       | (w2, _) \<Rightarrow> (w2, Inr (if wk_async_send w2 then WaitBelow (wk_max_inflight_bytes w2) else WaitSent)))"
    "map_of bufs (rm_request_id m) = Some (map (\<lambda>x. (fst x, extracted ?ids (snd x))) layers)"
    using save_and_send[OF assms(1-6)] by blast
  let ?p = "BundlePayload (WDict (cw_meta wire)) (cw_body_chunks wire) (cw_aux_tensors wire)"
  let ?item = "\<lparr>si_request_id = rm_transfer_id m, si_layer_names = add_sentinel ?names, si_payload = ?p,
      si_payload_bytes = payload_nbytes ?p\<rparr>"
  have q: "tx_queue (wk_tx (fst (wait_for_save ops mc (Some [m]) (save_layers (Some [m]) layers P)))) = tx_queue (wk_tx P) @ [?item]"
    unfolding b(1) send_request_stacks[OF b(2) ne(1) assms(6)]
    using assms(7,8) wire(1) by (simp add: send_compressed_def send_bundle_def enqueue_def Let_def)
  have w: "restore_from_wire repr \<lparr>cw_meta = cw_meta wire, cw_body_chunks = cw_body_chunks wire,
      cw_aux_tensors = cw_aux_tensors wire\<rparr> = Inr (norm_kv repr ckv)" using wire(2) by (cases wire) simp
  have rec: "reconstruct repr ops (add_sentinel ?names) ?p C = (C\<lparr>wk_adapter := Some b'\<rparr>, Inr (RawPayload T))"
    using assms(10,11) w by (simp add: reconstruct_def)
  have fit: "\<forall>name cache. name \<in> set ?names \<longrightarrow> map_of caches name = Some cache \<longrightarrow> cache_fits proto js cache"
    using assms(15) by simp
  show ?thesis using q load_stacked[of repr ops "add_sentinel ?names" ?p C "C\<lparr>wk_adapter := Some b'\<rparr>" T proto ?names
        "length is" caches js m', OF rec assms(12) T strip_add_sentinel(1) ne(2) fit assms(16-19)]
    by (intro exI[of _ ?item]) simp
qed


text \<open>
  C26: Staging credit is returned exactly once.  However the load loop ends (all requests
  loaded, a payload that fails to load, the deadline, or still waiting), the reserved bytes
  have dropped by exactly the bytes of the payloads it consumed: the credit beyond what is
  staged or still to arrive is unchanged.
\<close>

theorem load_returns_credit:
  assumes "load_loop repr ops polls ms w caches = ((w', caches'), r)" and "keys_ok w"
    and "staged w + arriving polls \<le> rx_reserved_bytes (wk_rx w)"
  shows "\<exists>rest. suffix rest polls \<and>
    rx_reserved_bytes (wk_rx w') = rx_reserved_bytes (wk_rx w) - ((staged w + arriving polls) - (staged w' + arriving rest))"
  using load_loop_credit[OF assms] by auto

section \<open>An example transfer\<close>

text \<open>An adapter that ships the tensor as it is.\<close>

definition plain_ops :: "unit adapter_ops" where
  "plain_ops = \<lparr>op_compress = (\<lambda>a t rid. (a, Inr (Some \<lparr>ck_request_id = rid, ck_layer_id = 0, ck_compressed_tensor = Some t,
       ck_metadata = WDict [], ck_original_size = 0, ck_compressed_size = 0, ck_is_chunked = False, ck_chunks = None,
       ck_chunk_metadata = None\<rparr>))),
     op_decompress = (\<lambda>a c. (a, Inr (ck_compressed_tensor c))), op_update_controller = (\<lambda>a rid. a)\<rparr>"

definition demo_worker :: "bool \<Rightarrow> unit option \<Rightarrow> unit worker" where
  "demo_worker producer a = \<lparr>wk_is_producer = producer, wk_async_send = False, wk_max_inflight_bytes = 100,
     wk_received_kv = [], wk_layer_buffers = [], wk_adapter = a, wk_tx = sender_init, wk_rx = receiver_init 100\<rparr>"

definition demo_meta :: "int list \<Rightarrow> req_meta" where
  "demo_meta ids = \<lparr>rm_request_id = ''r'', rm_transfer_id = ''t'', rm_token_ids = [], rm_block_ids = ids, rm_slot_mapping = []\<rparr>"

definition demo_layers :: "(string \<times> tensor) list" where
  "demo_layers = [(''l2'', demo_layer 4 0), (''l1'', demo_layer 4 50)]"

definition demo_caches :: caches where
  "demo_caches = [(''l1'', demo_layer 5 100)]"

lemma demo_uniform: "uniform_layers demo_layers (demo_layer 4 0)"
  by (simp add: uniform_layers_def demo_layers_def)

lemma demo_fits: "\<forall>name cache. name \<in> fst ` set demo_layers \<longrightarrow> map_of demo_caches name = Some cache \<longrightarrow>
    cache_fits (demo_layer 4 0) [4, 0] cache"
  by (auto simp: demo_caches_def cache_fits_def same_layout_def)

theorem raw_kv_transfer_witness:
  "\<exists>item caches' c'.
     tx_queue (wk_tx (fst (wait_for_save plain_ops 64 (Some [demo_meta [3, 1]])
       (save_layers (Some [demo_meta [3, 1]]) demo_layers (demo_worker True None))))) = [item] \<and>
     load_payload (\<lambda>_. []) plain_ops (demo_meta [4, 0]) (si_layer_names item, Some (si_payload item)) (demo_worker False None)
       demo_caches = ((demo_worker False None, caches'), None) \<and>
     map_of caches' ''l1'' = Some c' \<and> kv_block c' 4 = kv_block (demo_layer 4 50) 3 \<and> kv_block c' 0 = kv_block (demo_layer 4 50) 1"
proof -
  have "\<exists>item caches'.
      tx_queue (wk_tx (fst (wait_for_save plain_ops 64 (Some [demo_meta [3, 1]])
        (save_layers (Some [demo_meta [3, 1]]) demo_layers (demo_worker True None))))) = tx_queue (wk_tx (demo_worker True None)) @ [item] \<and>
      si_request_id item = rm_transfer_id (demo_meta [3, 1]) \<and>
      load_payload (\<lambda>_. []) plain_ops (demo_meta [4, 0]) (si_layer_names item, Some (si_payload item)) (demo_worker False None)
        demo_caches = ((demo_worker False None, caches'), None) \<and>
      (\<forall>name l cache. map_of demo_layers name = Some l \<longrightarrow> map_of demo_caches name = Some cache \<longrightarrow>
        (\<exists>c'. map_of caches' name = Some c' \<and> blocks_written [4, 0] (length [3, 1::nat]) (\<lambda>k. kv_block l ([3, 1] ! k)) cache c')) \<and>
      (\<forall>name. name \<notin> fst ` set demo_layers \<longrightarrow> map_of caches' name = map_of demo_caches name)"
    by (rule raw_kv_transfer[OF _ _ _ demo_uniform _ _ _ demo_fits])
      (simp_all add: demo_worker_def demo_meta_def demo_layers_def COMPRESSED_SENTINEL_def)
  then obtain item caches' where it: "tx_queue (wk_tx (fst (wait_for_save plain_ops 64 (Some [demo_meta [3, 1]])
        (save_layers (Some [demo_meta [3, 1]]) demo_layers (demo_worker True None))))) = [item]"
      "load_payload (\<lambda>_. []) plain_ops (demo_meta [4, 0]) (si_layer_names item, Some (si_payload item)) (demo_worker False None)
        demo_caches = ((demo_worker False None, caches'), None)"
      and all: "\<forall>name l cache. map_of demo_layers name = Some l \<longrightarrow> map_of demo_caches name = Some cache \<longrightarrow>
        (\<exists>c'. map_of caches' name = Some c' \<and> blocks_written [4, 0] (length [3, 1::nat]) (\<lambda>k. kv_block l ([3, 1] ! k)) cache c')"
    by (auto simp: demo_worker_def sender_init_def)
  obtain c' where "map_of caches' ''l1'' = Some c'"
    "blocks_written [4, 0] 2 (\<lambda>k. kv_block (demo_layer 4 50) ([3, 1] ! k)) (demo_layer 5 100) c'"
    using all[rule_format, of "''l1''" "demo_layer 4 50" "demo_layer 5 100"]
    by (auto simp: demo_layers_def demo_caches_def numeral_2_eq_2)
  then show ?thesis using it by (fastforce simp: blocks_written_def less_Suc_eq numeral_2_eq_2)
qed

theorem compressed_kv_transfer_witness:
  "\<exists>item caches' c'.
     tx_queue (wk_tx (fst (wait_for_save plain_ops 64 (Some [demo_meta [3, 1]])
       (save_layers (Some [demo_meta [3, 1]]) demo_layers (demo_worker True (Some ())))))) = [item] \<and>
     load_payload (\<lambda>_. []) plain_ops (demo_meta [4, 0]) (si_layer_names item, Some (si_payload item)) (demo_worker False (Some ()))
       demo_caches = ((demo_worker False (Some ()), caches'), None) \<and>
     map_of caches' ''l1'' = Some c' \<and> kv_block c' 4 = [56, 57, 64, 65]"
proof -
  obtain S where S: "stack_tensors (stacked_layers (map int [3, 1]) demo_layers) = Inr S" "wf_tensor S"
    "tn_dtype S = UInt8" "tn_shape S = [2, 2, 2, 2]" "rows0 S = map tn_bytes (stacked_layers (map int [3, 1]) demo_layers)"
    using stacked_layers_facts[OF demo_uniform, of "[3, 1]"]
    by (auto simp: blocks_shape_def numeral_2_eq_2 demo_layers_def)
  let ?ckv = "\<lparr>ck_request_id = ''r'', ck_layer_id = 0, ck_compressed_tensor = Some S,
       ck_metadata = WDict [], ck_original_size = 0, ck_compressed_size = 0, ck_is_chunked = False, ck_chunks = None,
       ck_chunk_metadata = None\<rparr>"
  have v: "valid_kv 64 ?ckv" using S(2-4) by (simp add: valid_kv_def valid_md_def md_tensors_def QPARAMS_def tn_nbytes_def tn_numel_def)
  have comp: "op_compress plain_ops () S (rm_request_id (demo_meta [3, 1])) = ((), Inr (Some ?ckv))"
    by (simp add: plain_ops_def demo_meta_def)
  have decomp: "op_decompress plain_ops () (norm_kv (\<lambda>_. []) ?ckv) = ((), Inr (Some S))" by (simp add: plain_ops_def norm_kv_def)
  have row: "block_of True (row_of S 0) 0 = [56, 57, 64, 65]"
  proof -
    have "map tn_bytes (stacked_layers (map int [3, 1]) demo_layers) ! 0 = [56, 57, 52, 53, 64, 65, 60, 61]" by code_simp
    then have "row_of S 0 = \<lparr>tn_dtype = UInt8, tn_shape = [2, 2, 2], tn_bytes = [56, 57, 52, 53, 64, 65, 60, 61]\<rparr>"
      using S(3-5) by (simp add: row_of_def)
    moreover have "block_of True \<lparr>tn_dtype = UInt8, tn_shape = [2, 2, 2], tn_bytes = [56, 57, 52, 53, 64, 65, 60, 61]\<rparr> 0 = [56, 57, 64, 65]"
      by code_simp
    ultimately show ?thesis by simp
  qed
  have names: "sort (map fst demo_layers) = [''l1'', ''l2'']" by code_simp
  have "\<exists>item caches'.
      tx_queue (wk_tx (fst (wait_for_save plain_ops 64 (Some [demo_meta [3, 1]])
        (save_layers (Some [demo_meta [3, 1]]) demo_layers (demo_worker True (Some ())))))) = tx_queue (wk_tx (demo_worker True (Some ()))) @ [item] \<and>
      si_request_id item = rm_transfer_id (demo_meta [3, 1]) \<and>
      load_payload (\<lambda>_. []) plain_ops (demo_meta [4, 0]) (si_layer_names item, Some (si_payload item)) (demo_worker False (Some ()))
        demo_caches = (((demo_worker False (Some ()))\<lparr>wk_adapter := Some ()\<rparr>, caches'), None) \<and>
      (\<forall>i < length demo_layers. \<forall>cache. map_of demo_caches (sort (map fst demo_layers) ! i) = Some cache \<longrightarrow>
        (\<exists>c'. map_of caches' (sort (map fst demo_layers) ! i) = Some c' \<and>
           blocks_written [4, 0] (length [3, 1::nat]) (block_of (kv_first (demo_layer 4 0)) (row_of S i)) cache c')) \<and>
      (\<forall>name. name \<notin> fst ` set demo_layers \<longrightarrow> map_of caches' name = map_of demo_caches name)"
    by (rule compressed_kv_transfer[OF _ _ demo_uniform _ _ S(1) _ comp v _ decomp S(2) _ _ demo_fits])
      (simp_all add: demo_worker_def demo_meta_def)
  then obtain item caches' where it: "tx_queue (wk_tx (fst (wait_for_save plain_ops 64 (Some [demo_meta [3, 1]])
        (save_layers (Some [demo_meta [3, 1]]) demo_layers (demo_worker True (Some ())))))) = [item]"
      "load_payload (\<lambda>_. []) plain_ops (demo_meta [4, 0]) (si_layer_names item, Some (si_payload item)) (demo_worker False (Some ()))
        demo_caches = ((demo_worker False (Some ()), caches'), None)"
      and all: "\<forall>i < length demo_layers. \<forall>cache. map_of demo_caches (sort (map fst demo_layers) ! i) = Some cache \<longrightarrow>
        (\<exists>c'. map_of caches' (sort (map fst demo_layers) ! i) = Some c' \<and>
           blocks_written [4, 0] (length [3, 1::nat]) (block_of (kv_first (demo_layer 4 0)) (row_of S i)) cache c')"
    by (auto simp: demo_worker_def sender_init_def)
  obtain c' where "map_of caches' ''l1'' = Some c'" "blocks_written [4, 0] 2 (block_of True (row_of S 0)) (demo_layer 5 100) c'"
    using all[rule_format, of 0 "demo_layer 5 100"] unfolding names by (auto simp: demo_layers_def demo_caches_def numeral_2_eq_2)
  then have "map_of caches' ''l1'' = Some c'" "kv_block c' 4 = [56, 57, 64, 65]" using row by (auto simp: blocks_written_def less_Suc_eq numeral_2_eq_2)
  then show ?thesis using it by blast
qed

definition demo_delivery :: "string \<times> delivery" where
  "demo_delivery = (''t'', ([''l1''], Some (RawPayload \<lparr>tn_dtype = UInt8, tn_shape = [1, 2, 1, 2], tn_bytes = [1, 2, 3, 4]\<rparr>)))"


theorem load_returns_credit_witness:
  "\<exists>w' caches' r rest. load_loop (\<lambda>_. []) plain_ops [([demo_delivery], False)] [demo_meta [4]]
      ((demo_worker False None)\<lparr>wk_rx := (receiver_init 100)\<lparr>rx_reserved_bytes := 6\<rparr>\<rparr>) demo_caches = ((w', caches'), r) \<and>
    suffix rest [([demo_delivery], False)] \<and> rx_reserved_bytes (wk_rx w') = 2 + (staged w' + arriving rest)"
proof -
  let ?w = "(demo_worker False None)\<lparr>wk_rx := (receiver_init 100)\<lparr>rx_reserved_bytes := 6\<rparr>\<rparr>"
  obtain w' cs r where l: "load_loop (\<lambda>_. []) plain_ops [([demo_delivery], False)] [demo_meta [4]] ?w demo_caches = ((w', cs), r)"
    by (metis surj_pair)
  have k: "keys_ok ?w" by (simp add: keys_ok_def demo_worker_def receiver_init_def)
  have s: "staged ?w = 0" by (simp add: staged_def held_def demo_worker_def receiver_init_def)
  have a: "arriving [([demo_delivery], False)] = 4"
    by (simp add: arriving_def demo_delivery_def delivery_nbytes_def payload_nbytes_def tn_nbytes_def tn_numel_def)
  have "\<exists>rest. suffix rest [([demo_delivery], False)] \<and> rx_reserved_bytes (wk_rx w') =
      rx_reserved_bytes (wk_rx ?w) - ((staged ?w + arriving [([demo_delivery], False)]) - (staged w' + arriving rest))"
    by (rule load_returns_credit[OF l k]) (use s a in simp)
  then show ?thesis using l s a by auto
qed

end
