(* ===== verification/Store_Protocol.thy ===== *)
theory Store_Protocol
  imports Wire_Values
begin

text \<open>
  The lookup channel between the scheduler and worker rank 0 of the Mooncake store
  (\<^verbatim>\<open>mooncake/store/protocol.py\<close>, the hash view of \<^verbatim>\<open>store/data.py\<close> and the client and the server of
  \<^verbatim>\<open>store/worker.py\<close>).  A message is a list of frames of bytes; the socket delivers them
  unchanged and in order.  What the worker computes for a lookup is an argument.
\<close>

section \<open>Integers on the wire\<close>

text \<open>\<open>n.to_bytes(len, "big")\<close> and \<open>int.from_bytes(bs, "big")\<close>\<close>

fun be_bytes :: "nat \<Rightarrow> nat \<Rightarrow> byte list" where
  "be_bytes 0 n = []"
| "be_bytes (Suc k) n = be_bytes k (n div 256) @ [of_nat (n mod 256)]"

definition to_bytes :: "int \<Rightarrow> nat \<Rightarrow> byte list result" where
  "to_bytes n len = (if n < 0 \<or> 256 ^ len \<le> n then Inl OverflowError else Inr (be_bytes len (nat n)))"

definition from_bytes :: "byte list \<Rightarrow> int" where
  "from_bytes bs = fold (\<lambda>b acc. 256 * acc + uint b) bs 0"

section \<open>Lookup responses\<close>

record tail_key_boundary =
  tb_group_id :: int
  tb_num_tokens :: int

record lookup_result =
  lr_hit_length :: int
  lr_tail_key_boundaries :: "tail_key_boundary list"

definition TAIL_KEY_BOUNDARY_ENTRY_SIZE :: nat where
  "TAIL_KEY_BOUNDARY_ENTRY_SIZE = 8"

definition encode_boundary :: "tail_key_boundary \<Rightarrow> byte list result" where
  "encode_boundary b =
     bind_res (to_bytes (tb_group_id b) 4) (\<lambda>g.
     bind_res (to_bytes (tb_num_tokens b) 4) (\<lambda>n. Inr (g @ n)))"

definition encode_lookup_response :: "lookup_result \<Rightarrow> byte list result" where
  "encode_lookup_response r =
     bind_res (to_bytes (lr_hit_length r) 4) (\<lambda>hit.
       if lr_tail_key_boundaries r = [] then Inr hit
       else bind_res (map_res encode_boundary (lr_tail_key_boundaries r)) (\<lambda>parts. Inr (hit @ concat parts)))"

definition decode_boundary :: "byte list \<Rightarrow> nat \<Rightarrow> tail_key_boundary" where
  "decode_boundary payload offset =
     \<lparr>tb_group_id = from_bytes (take 4 (drop offset payload)),
      tb_num_tokens = from_bytes (take 4 (drop (offset + 4) payload))\<rparr>"

definition decode_lookup_response :: "byte list \<Rightarrow> lookup_result result" where
  "decode_lookup_response payload =
     (if length payload < 4 \<or> (length payload - 4) mod TAIL_KEY_BOUNDARY_ENTRY_SIZE \<noteq> 0 then Inl ValueError
      else let hit_length = from_bytes (take 4 payload) in
        if length payload = 4 then Inr \<lparr>lr_hit_length = hit_length, lr_tail_key_boundaries = []\<rparr>
        else Inr \<lparr>lr_hit_length = hit_length,
          lr_tail_key_boundaries =
            map (\<lambda>k. decode_boundary payload (4 + k * TAIL_KEY_BOUNDARY_ENTRY_SIZE))
              [0..<(length payload - 4) div TAIL_KEY_BOUNDARY_ENTRY_SIZE]\<rparr>)"

section \<open>The view of concatenated hashes\<close>

record blob_hashes =
  bh_blob :: "byte list"
  bh_hash_len :: nat
  bh_n :: nat

definition BlobBlockHashes :: "byte list \<Rightarrow> nat \<Rightarrow> blob_hashes" where
  "BlobBlockHashes blob hash_len =
     \<lparr>bh_blob = blob, bh_hash_len = hash_len, bh_n = (if hash_len \<noteq> 0 then length blob div hash_len else 0)\<rparr>"

definition blob_getitem :: "blob_hashes \<Rightarrow> int \<Rightarrow> byte list result" where
  "blob_getitem b i =
     (let idx = (if i < 0 then i + int (bh_n b) else i) in
      if \<not> (0 \<le> idx \<and> idx < int (bh_n b)) then Inl IndexError
      else let off = nat idx * bh_hash_len b in Inr (take (bh_hash_len b) (drop off (bh_blob b))))"

text \<open>Iterating over the view calls \<open>__getitem__\<close> for every index.\<close>

definition blob_items :: "blob_hashes \<Rightarrow> byte list list result" where
  "blob_items b = map_res (blob_getitem b) (map int [0..<bh_n b])"

section \<open>Requests\<close>

definition LOOKUP_MSG :: "byte list" where
  "LOOKUP_MSG = map (of_nat \<circ> of_char) ''lookup''"

definition RESET_MSG :: "byte list" where
  "RESET_MSG = map (of_nat \<circ> of_char) ''reset''"

definition RESP_OK :: "byte list" where
  "RESP_OK = [1]"

definition RESP_ERR :: "byte list" where
  "RESP_ERR = [0]"

definition lookup_frames :: "int \<Rightarrow> byte list list \<Rightarrow> byte list list result" where
  "lookup_frames num_tokens block_hashes =
     (let hash_len = (case block_hashes of [] \<Rightarrow> 0 | h # _ \<Rightarrow> int (length h)) in
      bind_res (to_bytes num_tokens 4) (\<lambda>n.
      bind_res (to_bytes hash_len 2) (\<lambda>l. Inr [LOOKUP_MSG, n, l, concat block_hashes])))"

definition frame_at :: "byte list list \<Rightarrow> nat \<Rightarrow> byte list result" where
  "frame_at frames i = (if i < length frames then Inr (frames ! i) else Inl IndexError)"

text \<open>
  One round of the server loop: the reply, or the exception that ends the server thread.
  \<open>reset\<close> is the outcome of draining the send queue and wiping the store.
\<close>

definition process_request ::
    "(int \<Rightarrow> blob_hashes \<Rightarrow> lookup_result result) \<Rightarrow> unit result \<Rightarrow> byte list list \<Rightarrow> byte list result" where
  "process_request lookup reset frames =
     bind_res (frame_at frames 0) (\<lambda>msg_type.
       if msg_type = LOOKUP_MSG then
         bind_res (frame_at frames 1) (\<lambda>f1.
         bind_res (frame_at frames 2) (\<lambda>f2.
         bind_res (frame_at frames 3) (\<lambda>blob.
         bind_res (lookup (from_bytes f1) (BlobBlockHashes blob (nat (from_bytes f2)))) encode_lookup_response)))
       else if msg_type = RESET_MSG then (case reset of Inr _ \<Rightarrow> Inr RESP_OK | Inl _ \<Rightarrow> Inr RESP_ERR)
       else Inr RESP_ERR)"

definition client_lookup ::
    "(byte list list \<Rightarrow> byte list result) \<Rightarrow> int \<Rightarrow> byte list list \<Rightarrow> lookup_result result" where
  "client_lookup server num_tokens block_hashes =
     bind_res (lookup_frames num_tokens block_hashes) (\<lambda>frames.
     bind_res (server frames) decode_lookup_response)"

definition client_reset :: "(byte list list \<Rightarrow> byte list result) \<Rightarrow> bool result" where
  "client_reset server = bind_res (server [RESET_MSG]) (\<lambda>resp. Inr (resp = RESP_OK))"

section \<open>Lookups in the background\<close>

text \<open>
  A future is still running or finished with a result or an exception.  \<open>wait\<close> is what
  running the submitted call to its end yields; \<open>ready\<close> says that a call still running when
  \<open>lookup\<close> began has ended by the time \<open>future.done()\<close> is asked.
\<close>

datatype future = Running int "byte list list" | Finished "lookup_result result"

type_synonym futures = "(string \<times> future) list"

definition no_hit :: lookup_result where
  "no_hit = \<lparr>lr_hit_length = 0, lr_tail_key_boundaries = []\<rparr>"

definition future_result :: "(int \<Rightarrow> byte list list \<Rightarrow> lookup_result result) \<Rightarrow> future \<Rightarrow> lookup_result result" where
  "future_result wait f = (case f of Running n hs \<Rightarrow> wait n hs | Finished r \<Rightarrow> r)"

definition future_done :: "future \<Rightarrow> bool" where
  "future_done f = (case f of Running _ _ \<Rightarrow> False | Finished _ \<Rightarrow> True)"

definition async_lookup ::
    "(int \<Rightarrow> byte list list \<Rightarrow> lookup_result result) \<Rightarrow> bool \<Rightarrow> futures \<Rightarrow> string \<Rightarrow> int \<Rightarrow> byte list list \<Rightarrow> bool \<Rightarrow>
     futures \<times> lookup_result option" where
  "async_lookup wait ready fs rid num_tokens block_hashes non_block =
     (let fut = (case map_of fs rid of None \<Rightarrow> Running num_tokens block_hashes | Some f \<Rightarrow> f);
          fs1 = (case map_of fs rid of None \<Rightarrow> dict_set fs rid fut | Some _ \<Rightarrow> fs) in
      if non_block \<and> \<not> future_done fut \<and> \<not> ready then (fs1, None)
      else (dict_pop fs1 rid, Some (case future_result wait fut of Inl _ \<Rightarrow> no_hit | Inr r \<Rightarrow> r)))"

definition discard_lookup :: "futures \<Rightarrow> string \<Rightarrow> futures" where
  "discard_lookup fs rid = dict_pop fs rid"

text \<open>The single worker of the executor completes a submitted call.\<close>

definition complete_lookup :: "(int \<Rightarrow> byte list list \<Rightarrow> lookup_result result) \<Rightarrow> string \<Rightarrow> futures \<Rightarrow> futures" where
  "complete_lookup wait rid fs = (case map_of fs rid of
       None \<Rightarrow> fs
     | Some f \<Rightarrow> dict_set fs rid (Finished (future_result wait f)))"

section \<open>Integers survive the wire\<close>

lemma length_be_bytes [simp]: "length (be_bytes k n) = k"
  by (induction k n rule: be_bytes.induct) auto

lemma to_bytes_length: "to_bytes n len = Inr bs \<Longrightarrow> length bs = len"
  by (auto simp: to_bytes_def split: if_splits)

lemma from_bytes_append [simp]: "from_bytes (bs @ [b]) = 256 * from_bytes bs + uint b"
  by (simp add: from_bytes_def)

lemma from_bytes_Nil [simp]: "from_bytes [] = 0"
  by (simp add: from_bytes_def)

lemma from_bytes_range: "0 \<le> from_bytes bs \<and> from_bytes bs < 256 ^ length bs"
proof (induction bs rule: rev_induct)
  case (snoc b bs)
  have "0 \<le> uint b" "uint b < 256" using uint_lt2p[of b] by auto
  then show ?case using snoc by auto
qed simp

lemma uint_byte_of_nat: "uint (of_nat (n mod 256) :: byte) = int (n mod 256)"
  by (simp add: uint_nat unat_of_nat)

lemma from_be_bytes: "n < 256 ^ k \<Longrightarrow> from_bytes (be_bytes k n) = int n"
proof (induction k n rule: be_bytes.induct)
  case (2 k n)
  then have "n div 256 < 256 ^ k" by (simp add: less_mult_imp_div_less mult.commute)
  moreover have "int n = 256 * int (n div 256) + int (n mod 256)"
    by (simp add: zdiv_int zmod_int)
  ultimately show ?case using "2.IH" unfolding be_bytes.simps from_bytes_append uint_byte_of_nat by simp
qed simp

lemma be_bytes_from_bytes: "be_bytes (length bs) (nat (from_bytes bs)) = bs"
proof (induction bs rule: rev_induct)
  case (snoc b bs)
  have r: "0 \<le> from_bytes bs" "0 \<le> uint b" "uint b < 256" using from_bytes_range[of bs] uint_lt2p[of b] by auto
  have e: "nat (256 * from_bytes bs + uint b) = 256 * nat (from_bytes bs) + nat (uint b)"
    using r by (simp add: nat_add_distrib nat_mult_distrib)
  have l: "nat (uint b) < 256" using r by linarith
  have d: "(256 * nat (from_bytes bs) + nat (uint b)) div 256 = nat (from_bytes bs)"
    and m: "(256 * nat (from_bytes bs) + nat (uint b)) mod 256 = nat (uint b)"
    using l by simp_all
  have "of_nat (nat (uint b)) = b" using r by simp
  then show ?case using snoc by (simp only: length_append length_Cons list.size(3) add_Suc_right add_0_right
      be_bytes.simps from_bytes_append e d m)
qed simp

lemma to_bytes_Inr: "to_bytes n len = Inr bs \<Longrightarrow> from_bytes bs = n"
  using from_be_bytes[of "nat n" len] by (auto simp: to_bytes_def nat_less_iff split: if_splits)

lemma to_bytes_total: "0 \<le> n \<Longrightarrow> n < 256 ^ len \<Longrightarrow> \<exists>bs. to_bytes n len = Inr bs"
  by (simp add: to_bytes_def)

lemma to_bytes_from_bytes: "to_bytes (from_bytes bs) (length bs) = Inr bs"
  using from_bytes_range[of bs] be_bytes_from_bytes[of bs] by (simp add: to_bytes_def)

section \<open>Responses survive the wire\<close>

definition u32 :: "int \<Rightarrow> bool" where
  "u32 n \<longleftrightarrow> 0 \<le> n \<and> n < 2 ^ 32"

definition valid_boundary :: "tail_key_boundary \<Rightarrow> bool" where
  "valid_boundary b \<longleftrightarrow> u32 (tb_group_id b) \<and> u32 (tb_num_tokens b)"

definition valid_result :: "lookup_result \<Rightarrow> bool" where
  "valid_result r \<longleftrightarrow> u32 (lr_hit_length r) \<and> list_all valid_boundary (lr_tail_key_boundaries r)"

lemma to_bytes_u32: "to_bytes n 4 = (if u32 n then Inr (be_bytes 4 (nat n)) else Inl OverflowError)"
  by (auto simp: to_bytes_def u32_def)

lemma encode_boundary_Inr:
  "encode_boundary b = Inr p \<longleftrightarrow>
     valid_boundary b \<and> p = be_bytes 4 (nat (tb_group_id b)) @ be_bytes 4 (nat (tb_num_tokens b))"
  by (auto simp: encode_boundary_def to_bytes_u32 valid_boundary_def bind_res_eq_Inr)

lemma from_be_bytes_u32: "u32 n \<Longrightarrow> from_bytes (be_bytes 4 (nat n)) = n"
  using from_be_bytes[of "nat n" 4] by (simp add: u32_def nat_less_iff)

lemma decode_boundary_at:
  assumes "encode_boundary b = Inr p"
  shows "length p = 8" "decode_boundary (pre @ p @ post) (length pre) = b"
  using assms by (auto simp: encode_boundary_Inr decode_boundary_def valid_boundary_def from_be_bytes_u32)

lemma decode_boundaries:
  "list_all2 (\<lambda>b p. encode_boundary b = Inr p) bs ps \<Longrightarrow>
   length (concat ps) = 8 * length bs \<and>
   map (\<lambda>k. decode_boundary (pre @ concat ps) (length pre + k * 8)) [0..<length bs] = bs"
proof (induction bs ps arbitrary: pre rule: list_all2_induct)
  case (Cons b bs p ps)
  have "length p = 8" using decode_boundary_at(1)[OF Cons.hyps(1)] .
  moreover have "[0..<Suc (length bs)] = 0 # map Suc [0..<length bs]" by (simp add: map_Suc_upt upt_conv_Cons del: upt_Suc)
  ultimately show ?case using decode_boundary_at(2)[OF Cons.hyps(1), of pre "concat ps"] Cons.IH[of "pre @ p"]
    by (simp add: o_def add.assoc del: upt_Suc)
qed simp

lemma map_res_total: "(\<And>x. x \<in> set xs \<Longrightarrow> \<exists>y. f x = Inr y) \<Longrightarrow> \<exists>ys. map_res f xs = Inr ys"
  by (induction xs) fastforce+

interpretation lookup_response: lossless_codec valid_result encode_lookup_response decode_lookup_response
proof
  fix r assume v: "valid_result r"
  have "\<exists>ps. map_res encode_boundary (lr_tail_key_boundaries r) = Inr ps"
    using v by (intro map_res_total) (auto simp: encode_boundary_Inr valid_result_def list_all_iff)
  then show "\<exists>c. encode_lookup_response r = Inr c"
    using v by (auto simp: encode_lookup_response_def to_bytes_u32 valid_result_def)
next
  fix r c assume v: "valid_result r" and e: "encode_lookup_response r = Inr c"
  let ?hit = "be_bytes 4 (nat (lr_hit_length r))"
  have hit: "from_bytes ?hit = lr_hit_length r" using v by (simp add: valid_result_def from_be_bytes_u32)
  show "decode_lookup_response c = Inr r"
  proof (cases "lr_tail_key_boundaries r = []")
    case True
    then have "c = ?hit" using e v by (simp add: encode_lookup_response_def to_bytes_u32 valid_result_def)
    then show ?thesis using hit True by (simp add: decode_lookup_response_def)
  next
    case False
    then obtain ps where ps: "map_res encode_boundary (lr_tail_key_boundaries r) = Inr ps" and c: "c = ?hit @ concat ps"
      using e v by (auto simp: encode_lookup_response_def to_bytes_u32 valid_result_def bind_res_eq_Inr)
    have "length (concat ps) = 8 * length (lr_tail_key_boundaries r)"
      "map (\<lambda>k. decode_boundary (?hit @ concat ps) (4 + k * 8)) [0..<length (lr_tail_key_boundaries r)]
         = lr_tail_key_boundaries r"
      using decode_boundaries[of "lr_tail_key_boundaries r" ps ?hit] ps by (auto simp: map_res_eq_Inr)
    then show ?thesis using hit c False
      by (simp add: decode_lookup_response_def TAIL_KEY_BOUNDARY_ENTRY_SIZE_def)
  qed
qed

lemma concat_be_bytes_blocks:
  "length xs = 8 * n \<Longrightarrow> concat (map (\<lambda>k. take 8 (drop (k * 8) xs)) [0..<n]) = xs"
proof (induction n arbitrary: xs)
  case (Suc n)
  have "[0..<Suc n] = 0 # map Suc [0..<n]" by (simp add: map_Suc_upt upt_conv_Cons del: upt_Suc)
  moreover have "concat (map (\<lambda>k. take 8 (drop (k * 8) (drop 8 xs))) [0..<n]) = drop 8 xs"
    by (rule Suc.IH) (use Suc.prems in simp)
  ultimately show ?case by (simp add: o_def add.commute del: upt_Suc)
qed simp

lemma encode_decode_boundary:
  assumes "off + 8 \<le> length p"
  shows "encode_boundary (decode_boundary p off) = Inr (take 8 (drop off p))"
proof -
  have "take 8 (drop off p) = take 4 (drop off p) @ take 4 (drop (off + 4) p)"
    by (metis (no_types, lifting) add.commute drop_drop numeral_Bit0 take_add)
  then show ?thesis using to_bytes_from_bytes[of "take 4 (drop off p)"] to_bytes_from_bytes[of "take 4 (drop (off + 4) p)"] assms
    by (simp add: encode_boundary_def decode_boundary_def)
qed

lemma encode_decode_response:
  assumes "decode_lookup_response p = Inr r"
  shows "encode_lookup_response r = Inr p"
proof -
  let ?n = "(length p - 4) div 8" and ?b = "\<lambda>k. decode_boundary p (4 + k * 8)"
  have len: "4 \<le> length p" "length p = 4 + 8 * ?n"
    using assms by (auto simp: decode_lookup_response_def TAIL_KEY_BOUNDARY_ENTRY_SIZE_def split: if_splits)
  then have r: "r = \<lparr>lr_hit_length = from_bytes (take 4 p), lr_tail_key_boundaries = map ?b [0..<?n]\<rparr>"
    using assms by (auto simp: decode_lookup_response_def TAIL_KEY_BOUNDARY_ENTRY_SIZE_def Let_def split: if_splits)
  have hit: "to_bytes (from_bytes (take 4 p)) 4 = Inr (take 4 p)"
    using to_bytes_from_bytes[of "take 4 p"] len by simp
  have "map_res encode_boundary (map ?b [0..<?n]) = Inr (map (\<lambda>k. take 8 (drop (k * 8) (drop 4 p))) [0..<?n])"
    unfolding map_res_eq_Inr list_all2_map1 list_all2_map2
  proof (rule list.rel_refl_strong)
    fix k assume "k \<in> set [0..<?n]"
    then show "encode_boundary (?b k) = Inr (take 8 (drop (k * 8) (drop 4 p)))"
      using encode_decode_boundary[of "4 + k * 8" p] len by (simp add: add.commute)
  qed
  moreover have "take 4 p @ concat (map (\<lambda>k. take 8 (drop (k * 8) (drop 4 p))) [0..<?n]) = p"
    using concat_be_bytes_blocks[of "drop 4 p" ?n] len by simp
  ultimately show ?thesis using r hit len by (simp add: encode_lookup_response_def)
qed

lemma encode_valid: "encode_lookup_response r = Inr p \<Longrightarrow> valid_result r"
  by (auto simp: encode_lookup_response_def valid_result_def to_bytes_u32 bind_res_eq_Inr map_res_eq_Inr
      encode_boundary_Inr list_all_iff list_all2_conv_all_nth in_set_conv_nth split: if_splits)

section \<open>The channel\<close>

lemma uniform_block:
  "(\<And>h. h \<in> set hs \<Longrightarrow> length h = L) \<Longrightarrow> i < length hs \<Longrightarrow>
   take L (drop (i * L) (concat hs)) = hs ! i"
proof (induction hs arbitrary: i)
  case (Cons h hs)
  then show ?case by (cases i) auto
qed simp

lemma length_concat_uniform:
  "(\<And>h. h \<in> set hs \<Longrightarrow> length h = L) \<Longrightarrow> length (concat hs) = length hs * L"
  by (induction hs) auto

lemma blob_of_hashes:
  assumes "\<And>h. h \<in> set hs \<Longrightarrow> length h = L" and "0 < L"
  shows "bh_n (BlobBlockHashes (concat hs) L) = length hs"
    and "0 \<le> i \<Longrightarrow> i < int (length hs) \<Longrightarrow> blob_getitem (BlobBlockHashes (concat hs) L) i = Inr (hs ! nat i)"
    and "blob_items (BlobBlockHashes (concat hs) L) = Inr hs"
proof -
  let ?b = "BlobBlockHashes (concat hs) L"
  show n: "bh_n ?b = length hs" using assms length_concat_uniform[of hs L] by (simp add: BlobBlockHashes_def)
  have g: "blob_getitem ?b i = Inr (hs ! nat i)" if "0 \<le> i" "i < int (length hs)" for i
    using that n uniform_block[of hs L "nat i"] assms
    by (auto simp: blob_getitem_def Let_def BlobBlockHashes_def nat_less_iff)
  show "0 \<le> i \<Longrightarrow> i < int (length hs) \<Longrightarrow> blob_getitem ?b i = Inr (hs ! nat i)" by (rule g)
  have "map_res (blob_getitem ?b) (map int [0..<length hs]) = Inr (map (\<lambda>i. hs ! nat i) (map int [0..<length hs]))"
    using g by (intro map_res_map) auto
  then show "blob_items ?b = Inr hs" using n by (simp add: blob_items_def o_def map_nth)
qed

text \<open>
  A lookup response and its byte string determine each other: a result whose fields fit in 32
  bits is decoded to itself, a byte string is accepted exactly when its length is 4 plus a
  multiple of 8, and encoding what was decoded gives the same bytes back.
\<close>

lemma lookup_response_bijective:
  "(valid_result r \<longrightarrow> bind_res (encode_lookup_response r) decode_lookup_response = Inr r) \<and>
   ((\<exists>q. decode_lookup_response p = Inr q) \<longleftrightarrow> length p mod 8 = 4) \<and>
   (\<forall>q. decode_lookup_response p = Inr q \<longrightarrow> encode_lookup_response q = Inr p \<and> valid_result q)"
proof (intro conjI allI impI)
  show "valid_result r \<Longrightarrow> bind_res (encode_lookup_response r) decode_lookup_response = Inr r"
    by (rule lookup_response.round_trip)
  have "(length p < 4 \<or> (length p - 4) mod 8 \<noteq> 0) \<longleftrightarrow> length p mod 8 \<noteq> 4" by presburger
  then show "(\<exists>q. decode_lookup_response p = Inr q) \<longleftrightarrow> length p mod 8 = 4"
    by (auto simp: decode_lookup_response_def TAIL_KEY_BOUNDARY_ENTRY_SIZE_def Let_def)
  fix q assume d: "decode_lookup_response p = Inr q"
  then show e: "encode_lookup_response q = Inr p" by (rule encode_decode_response)
  then show "valid_result q" by (rule encode_valid)
qed

lemma lookup_response_bijective_witness:
  "let r = \<lparr>lr_hit_length = 384, lr_tail_key_boundaries = [\<lparr>tb_group_id = 1, tb_num_tokens = 258\<rparr>]\<rparr>;
       p = [0, 0, 1, 128, 0, 0, 0, 1, 0, 0, 1, 2]
   in valid_result r \<and> encode_lookup_response r = Inr p \<and> decode_lookup_response p = Inr r"
proof -
  let ?r = "\<lparr>lr_hit_length = 384, lr_tail_key_boundaries = [\<lparr>tb_group_id = 1, tb_num_tokens = 258\<rparr>]\<rparr>"
  have "valid_result ?r" "encode_lookup_response ?r = Inr [0, 0, 1, 128, 0, 0, 0, 1, 0, 0, 1, 2]" by code_simp+
  then show ?thesis using lookup_response_bijective[of ?r] by (simp add: Let_def)
qed

text \<open>
  A lookup crosses the channel unchanged: the server sees exactly the token count and the
  sequence of block hashes the client was given, and the client gets exactly the result the
  worker computed.
\<close>

lemma lookup_channel_faithful:
  assumes "u32 n" and "\<forall>h \<in> set hs. length h = L" and "0 < L" and "L < 2 ^ 16"
    and "\<forall>v. blob_items v = Inr hs \<longrightarrow> lookup n v = Inr r" and "valid_result r"
  shows "client_lookup (process_request lookup reset) n hs = Inr r"
proof -
  define hash_len where "hash_len = (case hs of [] \<Rightarrow> 0 | h # _ \<Rightarrow> int (length h))"
  have hl: "0 \<le> hash_len" "hash_len < 256 ^ 2" using assms(2-4) by (auto simp: hash_len_def split: list.splits)
  then obtain l where l: "to_bytes hash_len 2 = Inr l" using to_bytes_total by blast
  obtain m where m: "to_bytes n 4 = Inr m" using assms(1) by (simp add: to_bytes_u32)
  have view: "blob_items (BlobBlockHashes (concat hs) (nat hash_len)) = Inr hs"
  proof (cases hs)
    case Nil
    then show ?thesis by (simp add: BlobBlockHashes_def blob_items_def)
  next
    case (Cons h ts)
    then have "nat hash_len = L" using assms(2) by (simp add: hash_len_def)
    then show ?thesis using blob_of_hashes(3)[of hs L] assms(2,3) by auto
  qed
  have "process_request lookup reset [LOOKUP_MSG, m, l, concat hs] = encode_lookup_response r"
    using assms(5) view to_bytes_Inr[OF l] to_bytes_Inr[OF m] by (simp add: process_request_def frame_at_def)
  moreover have "lookup_frames n hs = Inr [LOOKUP_MSG, m, l, concat hs]"
    using l m by (simp add: lookup_frames_def hash_len_def Let_def)
  ultimately show ?thesis using lookup_response.round_trip[OF assms(6)] by (simp add: client_lookup_def)
qed

lemma lookup_channel_faithful_witness:
  "client_lookup (process_request (\<lambda>n v. Inr \<lparr>lr_hit_length = n, lr_tail_key_boundaries = []\<rparr>) (Inl RuntimeError))
     300 [[1, 2], [3, 4]] = Inr \<lparr>lr_hit_length = 300, lr_tail_key_boundaries = []\<rparr>"
  by (rule lookup_channel_faithful[where L = 2]) (auto simp: u32_def valid_result_def)

section \<open>Lookups in the background are settled once\<close>

text \<open>
  A lookup that answers leaves no future behind and touches no other request; it answers
  \<open>None\<close> only for a non-blocking call whose future has not ended, which is then kept.  An
  exception of the call becomes the empty hit.
\<close>

lemma async_lookup_settles:
  assumes "async_lookup wait ready fs rid n hs nb = (fs', res)"
  shows "rid' \<noteq> rid \<Longrightarrow> map_of fs' rid' = map_of fs rid'"
    and "res = Some r \<Longrightarrow> map_of fs' rid = None \<and>
       (r = no_hit \<or> future_result wait (case map_of fs rid of None \<Rightarrow> Running n hs | Some f \<Rightarrow> f) = Inr r)"
    and "res = None \<longleftrightarrow> nb \<and> \<not> ready \<and> (case map_of fs rid of Some (Finished _) \<Rightarrow> False | _ \<Rightarrow> True)"
    and "res = None \<Longrightarrow> map_of fs' rid = Some (case map_of fs rid of None \<Rightarrow> Running n hs | Some f \<Rightarrow> f)"
  using assms by (auto simp: async_lookup_def Let_def future_done_def split: if_splits option.splits future.splits sum.splits)

end
