(* ===== verification/Store_Layout.thy ===== *)
theory Store_Layout
  imports Store_Protocol
begin

text \<open>
  Keys, payload layouts and token chunks of the Mooncake store (\<^verbatim>\<open>mooncake/store/data.py\<close>).  A
  registered KV cache is described by the numbers the code reads from the tensor: addresses,
  shape, strides and element size.  Two functions of vLLM are arguments: \<open>cdiv\<close>, division rounded
  up, and \<open>is_non_overlapping_and_dense\<close>.  Arrays of NumPy hold 64-bit integers: building one
  from a value out of range raises, arithmetic wraps.
\<close>

section \<open>Keys\<close>

record key_metadata =
  km_model_name :: string
  km_tp_rank :: int
  km_pcp_rank :: int
  km_dcp_rank :: int
  km_pp_rank :: int
  km_group_id :: int
  km_cache_prefix :: string
  km_store_namespace :: string

definition rank_or :: "int \<Rightarrow> int option \<Rightarrow> int" where
  "rank_or own given = (case given of None \<Rightarrow> own | Some r \<Rightarrow> r)"

definition build_prefix ::
    "key_metadata \<Rightarrow> int option \<Rightarrow> int option \<Rightarrow> int option \<Rightarrow> int option \<Rightarrow> string" where
  "build_prefix m tp pcp dcp pp =
     (if km_cache_prefix m \<noteq> [] then km_cache_prefix m @ ''@'' else []) @
     km_model_name m @ km_store_namespace m @
     ''@tp_rank:'' @ show_int (rank_or (km_tp_rank m) tp) @
     ''@pcp'' @ show_int (rank_or (km_pcp_rank m) pcp) @
     ''@dcp'' @ show_int (rank_or (km_dcp_rank m) dcp) @
     ''@pp_rank:'' @ show_int (rank_or (km_pp_rank m) pp) @
     ''@group:'' @ show_int (km_group_id m)"

definition build_key_string :: "string \<Rightarrow> string \<Rightarrow> string" where
  "build_key_string key_prefix chunk_hash = key_prefix @ ''@'' @ chunk_hash"

text \<open>\<open>bytes.hex()\<close>\<close>

definition hex_digit :: "nat \<Rightarrow> char" where
  "hex_digit d = (if d < 10 then char_of (48 + d) else char_of (87 + d))"

definition bytes_hex :: "byte list \<Rightarrow> string" where
  "bytes_hex bs = concat (map (\<lambda>b. [hex_digit (unat b div 16), hex_digit (unat b mod 16)]) bs)"

definition pool_key_to_string :: "key_metadata \<Rightarrow> string \<Rightarrow> string" where
  "pool_key_to_string m chunk_hash = build_key_string (build_prefix m None None None None) chunk_hash"

section \<open>Registered caches\<close>

record kv_tensor =
  kt_data_ptr :: int
  kt_storage_ptr :: int
  kt_storage_nbytes :: int
  kt_shape :: "int list"
  kt_stride :: "int list"
  kt_element_size :: int

definition dim :: "int list \<Rightarrow> nat \<Rightarrow> int result" where
  "dim xs i = (if i < length xs then Inr (xs ! i) else Inl IndexError)"

text \<open>\<open>cache[0]\<close> and \<open>cache[:, h]\<close>\<close>

definition view_first :: "kv_tensor \<Rightarrow> kv_tensor result" where
  "view_first t = (case kt_shape t of
       [] \<Rightarrow> Inl IndexError
     | n # _ \<Rightarrow> if n \<le> 0 then Inl IndexError
                else Inr (t\<lparr>kt_shape := drop 1 (kt_shape t), kt_stride := drop 1 (kt_stride t)\<rparr>))"

definition view_head :: "kv_tensor \<Rightarrow> int \<Rightarrow> kv_tensor result" where
  "view_head t h =
     bind_res (dim (kt_shape t) 1) (\<lambda>heads.
     bind_res (dim (kt_stride t) 1) (\<lambda>stride.
       if \<not> (0 \<le> h \<and> h < heads) then Inl IndexError
       else Inr (t\<lparr>kt_data_ptr := kt_data_ptr t + h * stride * kt_element_size t,
                   kt_shape := take 1 (kt_shape t) @ drop 2 (kt_shape t),
                   kt_stride := take 1 (kt_stride t) @ drop 2 (kt_stride t)\<rparr>)))"

section \<open>NumPy integers\<close>

definition np_int64 :: "int \<Rightarrow> int result" where
  "np_int64 x = (if - (2 ^ 63) \<le> x \<and> x < 2 ^ 63 then Inr x else Inl OverflowError)"

definition np_uint64 :: "int \<Rightarrow> int result" where
  "np_uint64 x = (if 0 \<le> x \<and> x < 2 ^ 64 then Inr x else Inl OverflowError)"

definition wrap_i64 :: "int \<Rightarrow> int" where
  "wrap_i64 x = (x + 2 ^ 63) mod 2 ^ 64 - 2 ^ 63"

definition wrap_u64 :: "int \<Rightarrow> int" where
  "wrap_u64 x = x mod 2 ^ 64"

text \<open>\<open>xs[i]\<close> with Python's negative indices\<close>

definition py_index :: "'a list \<Rightarrow> int \<Rightarrow> 'a result" where
  "py_index xs i =
     (let idx = (if i < 0 then i + int (length xs) else i) in
      if 0 \<le> idx \<and> idx < int (length xs) then Inr (xs ! nat idx) else Inl IndexError)"

section \<open>The rank-local layout\<close>

record rank_local_layout =
  rl_metadata :: key_metadata
  rl_block_size :: int
  rl_hash_block_size :: int
  rl_key_prefix :: string
  rl_kv_caches_base_addr :: "int list"
  rl_block_len :: "int list"

definition RankLocalStoreLayout :: "key_metadata \<Rightarrow> int \<Rightarrow> int \<Rightarrow> rank_local_layout" where
  "RankLocalStoreLayout m bs hbs =
     \<lparr>rl_metadata = m, rl_block_size = bs, rl_hash_block_size = hbs,
      rl_key_prefix = build_prefix m None None None None, rl_kv_caches_base_addr = [], rl_block_len = []\<rparr>"

definition rl_key_for :: "rank_local_layout \<Rightarrow> int \<Rightarrow> byte list \<Rightarrow> string result" where
  "rl_key_for l shard_id h =
     (if shard_id \<noteq> 0 then Inl AssertionError else Inr (build_key_string (rl_key_prefix l) (bytes_hex h)))"

type_synonym rank_namespace = "int \<times> int \<times> int \<times> int"

definition ns_pp_rank :: "rank_namespace \<Rightarrow> int" where
  "ns_pp_rank ns = (case ns of (_, _, _, pp) \<Rightarrow> pp)"

definition rl_lookup_key_prefixes :: "rank_local_layout \<Rightarrow> rank_namespace list \<Rightarrow> string list" where
  "rl_lookup_key_prefixes l nss =
     map (\<lambda>(tp, pcp, dcp, pp). build_prefix (rl_metadata l) (Some tp) (Some pcp) (Some dcp) (Some pp)) nss"

type_synonym region_acc = "int set \<times> int list \<times> int list"

definition add_region :: "int \<Rightarrow> int \<Rightarrow> region_acc \<Rightarrow> region_acc" where
  "add_region addr len acc =
     (case acc of (seen, base_addrs, block_lens) \<Rightarrow>
        if addr \<in> seen then acc else (insert addr seen, base_addrs @ [addr], block_lens @ [len]))"

definition register_head :: "(kv_tensor \<Rightarrow> bool) \<Rightarrow> kv_tensor \<Rightarrow> int \<Rightarrow> region_acc \<Rightarrow> region_acc result" where
  "register_head dense cache h acc =
     bind_res (view_head cache h) (\<lambda>hc.
     bind_res (view_first hc) (\<lambda>hc0.
       if \<not> dense hc0 then Inl AssertionError
       else bind_res (dim (kt_stride hc) 0) (\<lambda>stride.
         Inr (add_region (kt_data_ptr hc) (stride * kt_element_size hc) acc))))"

definition register_cache ::
    "(kv_tensor \<Rightarrow> bool) \<Rightarrow> int \<Rightarrow> kv_tensor \<Rightarrow> region_acc \<Rightarrow> region_acc result" where
  "register_cache dense num_blocks cache acc =
     bind_res (view_first cache) (\<lambda>c0.
       if \<not> dense c0 then
         bind_res (dim (kt_shape cache) 1) (\<lambda>heads.
           fold_res (register_head dense cache) (map int [0..<nat heads]) acc)
       else bind_res (dim (kt_stride cache) 0) (\<lambda>stride.
         if stride * kt_element_size cache * num_blocks = kt_storage_nbytes cache then
           (if kt_storage_ptr cache \<in> fst acc then Inr acc
            else if num_blocks = 0 then Inl ZeroDivisionError
            else Inr (add_region (kt_storage_ptr cache) (kt_storage_nbytes cache div num_blocks) acc))
         else Inr (add_region (kt_data_ptr cache) (stride * kt_element_size cache) acc)))"

definition rl_register_kv_caches ::
    "(kv_tensor \<Rightarrow> bool) \<Rightarrow> rank_local_layout \<Rightarrow> kv_tensor list \<Rightarrow> int \<Rightarrow> rank_local_layout result" where
  "rl_register_kv_caches dense l kv_caches num_blocks =
     bind_res (fold_res (register_cache dense num_blocks) kv_caches ({}, [], [])) (\<lambda>(seen, base_addrs, block_lens).
       Inr (l\<lparr>rl_kv_caches_base_addr := base_addrs, rl_block_len := block_lens\<rparr>))"

text \<open>\<open>[self.block_len[i % length] for i in range(n)]\<close>\<close>

definition cycled_lens :: "int list \<Rightarrow> nat \<Rightarrow> int list result" where
  "cycled_lens lens n =
     map_res (\<lambda>i. if lens = [] then Inl ZeroDivisionError else Inr (lens ! (i mod length lens))) [0..<n]"

definition rl_prepare_values ::
    "rank_local_layout \<Rightarrow> (int \<times> int) list \<Rightarrow> int list \<Rightarrow> int list \<Rightarrow> (int list list \<times> int list list \<times> int list) result" where
  "rl_prepare_values l chunks block_ids shard_ids =
     (if chunks = [] then Inr ([], [], [])
      else if \<not> (length chunks = length shard_ids \<and> list_all (\<lambda>s. s = 0) shard_ids) then Inl AssertionError
      else
        bind_res (map_res np_int64 (rl_kv_caches_base_addr l)) (\<lambda>base.
        bind_res (bind_res (cycled_lens (rl_block_len l) (length base)) (map_res np_int64)) (\<lambda>blen.
        bind_res (map_res (np_int64 \<circ> fst) chunks) (\<lambda>starts.
        bind_res (map_res (np_int64 \<circ> snd) chunks) (\<lambda>ends.
        let spans = map2 (\<lambda>e s. wrap_i64 (e - s)) ends starts in
        if \<not> list_all (\<lambda>sp. sp mod rl_hash_block_size l = 0) spans then Inl AssertionError
        else
          bind_res (map_res (\<lambda>s. bind_res (py_index block_ids (s div rl_block_size l)) np_int64) starts) (\<lambda>bids.
          let addrs = map (\<lambda>bid. map2 (\<lambda>b bl. wrap_i64 (b + wrap_i64 (bid * bl))) base blen) bids;
              block_counts = map (\<lambda>sp. wrap_i64 (wrap_i64 (sp + rl_block_size l) - 1) div rl_block_size l) spans;
              sizes = map (\<lambda>n. map (\<lambda>bl. wrap_i64 (bl * n)) blen) block_counts
          in Inr (addrs, sizes, bids)))))))"

definition prepare_value_for_block :: "rank_local_layout \<Rightarrow> int \<Rightarrow> (int list \<times> int list) result" where
  "prepare_value_for_block l block_id =
     (let n = length (rl_kv_caches_base_addr l) in
      bind_res (cycled_lens (rl_block_len l) n) (\<lambda>lens.
        Inr (map2 (\<lambda>b bl. b + block_id * bl) (rl_kv_caches_base_addr l) lens, lens)))"

section \<open>Layouts shared by several TP sizes\<close>

datatype shard_format = LBHNC | LBNHC

definition store_format :: "shard_format \<Rightarrow> string" where
  "store_format f = (case f of LBHNC \<Rightarrow> ''tp_shared_lbhnc'' | LBNHC \<Rightarrow> ''tp_shared_lbnhc'')"

definition shared_namespace :: "shard_format \<Rightarrow> int \<Rightarrow> int \<Rightarrow> string" where
  "shared_namespace f store_tp_size pp_size =
     ''@store_tp:'' @ show_int store_tp_size @ ''@store_pp:'' @ show_int pp_size @
     ''@store_format:'' @ store_format f"

text \<open>Per local shard: address bases, block strides and sizes.\<close>

type_synonym template = "int list \<times> int list \<times> int list"

record sharded_layout =
  sl_format :: shard_format
  sl_metadata :: key_metadata
  sl_block_size :: int
  sl_hash_block_size :: int
  sl_shards_per_rank :: int
  sl_store_shard_ids :: "int list"
  sl_store_tp_size :: int
  sl_heads_per_store_shard :: int
  sl_local_num_kv_heads :: int
  sl_templates :: "template list"

definition TPShardedStoreLayout ::
    "shard_format \<Rightarrow> key_metadata \<Rightarrow> int \<Rightarrow> int \<Rightarrow> int \<Rightarrow> int \<Rightarrow> int \<Rightarrow> int \<Rightarrow> sharded_layout result" where
  "TPShardedStoreLayout f m bs hbs local_tp_size store_tp_size tp_rank num_kv_heads =
     (if local_tp_size = 0 \<or> store_tp_size = 0 then Inl ZeroDivisionError
      else let shards_per_rank = store_tp_size div local_tp_size;
               first_shard = tp_rank * shards_per_rank in
        if shards_per_rank < 0 then Inl ValueError
        else Inr \<lparr>sl_format = f, sl_metadata = m, sl_block_size = bs, sl_hash_block_size = hbs,
              sl_shards_per_rank = shards_per_rank,
              sl_store_shard_ids = [first_shard..first_shard + shards_per_rank - 1],
              sl_store_tp_size = store_tp_size,
              sl_heads_per_store_shard = num_kv_heads div store_tp_size,
              sl_local_num_kv_heads = num_kv_heads div local_tp_size,
              sl_templates = replicate (nat shards_per_rank) ([], [], [])\<rparr>)"

definition sl_key_for :: "sharded_layout \<Rightarrow> int \<Rightarrow> byte list \<Rightarrow> string result" where
  "sl_key_for l shard_id h =
     (if shard_id \<in> set (sl_store_shard_ids l)
      then Inr (build_key_string (build_prefix (sl_metadata l) (Some shard_id) None None None) (bytes_hex h))
      else Inl KeyError)"

definition sl_lookup_key_prefixes :: "sharded_layout \<Rightarrow> rank_namespace list \<Rightarrow> string list" where
  "sl_lookup_key_prefixes l nss =
     (let pp_ranks = sort (remdups (map ns_pp_rank nss)) in
      [build_prefix (sl_metadata l) (Some shard_id) None None (Some pp).
         shard_id \<leftarrow> [0..sl_store_tp_size l - 1], pp \<leftarrow> pp_ranks])"

definition has_packed_strides :: "sharded_layout \<Rightarrow> int \<Rightarrow> int \<Rightarrow> int \<Rightarrow> bool" where
  "has_packed_strides l head_stride token_stride content_bytes \<longleftrightarrow> (case sl_format l of
       LBHNC \<Rightarrow> token_stride = content_bytes \<and> head_stride = sl_block_size l * content_bytes
     | LBNHC \<Rightarrow> head_stride = content_bytes \<and> token_stride = sl_local_num_kv_heads l * content_bytes)"

definition shard_segments :: "sharded_layout \<Rightarrow> int \<Rightarrow> int \<Rightarrow> int \<Rightarrow> int \<Rightarrow> region list" where
  "shard_segments l head_start head_stride token_stride content_bytes = (case sl_format l of
       LBHNC \<Rightarrow> [(head_start * head_stride, sl_heads_per_store_shard l * head_stride)]
     | LBNHC \<Rightarrow> map (\<lambda>token_idx. (token_idx * token_stride + head_start * head_stride,
                                  sl_heads_per_store_shard l * content_bytes)) [0..sl_block_size l - 1])"

text \<open>What one cache adds to the template of one local shard.\<close>

definition extend_template :: "sharded_layout \<Rightarrow> kv_tensor \<Rightarrow> int \<Rightarrow> template \<Rightarrow> template" where
  "extend_template l cache local_shard t =
     (let es = kt_element_size cache;
          segs = shard_segments l (local_shard * sl_heads_per_store_shard l)
                   (kt_stride cache ! 1 * es) (kt_stride cache ! 2 * es) (kt_shape cache ! 3 * es)
      in (fst t @ map (\<lambda>(off, size). kt_data_ptr cache + off) segs,
          fst (snd t) @ map (\<lambda>_. kt_stride cache ! 0 * es) segs,
          snd (snd t) @ map snd segs))"

definition sl_register_cache ::
    "sharded_layout \<Rightarrow> int \<Rightarrow> kv_tensor \<Rightarrow> template list \<Rightarrow> template list result" where
  "sl_register_cache l num_blocks cache ts =
     (if length (kt_shape cache) \<noteq> 4 \<or>
         take 3 (kt_shape cache) \<noteq> [num_blocks, sl_local_num_kv_heads l, sl_block_size l] then Inl ValueError
      else let es = kt_element_size cache in
        if kt_stride cache ! 3 * es \<noteq> es \<or>
           \<not> has_packed_strides l (kt_stride cache ! 1 * es) (kt_stride cache ! 2 * es) (kt_shape cache ! 3 * es)
        then Inl ValueError
        else Inr (map (\<lambda>(i, t). extend_template l cache (int i) t) (List.enumerate 0 ts)))"

definition set_segment_templates :: "sharded_layout \<Rightarrow> template list \<Rightarrow> sharded_layout result" where
  "set_segment_templates l ts =
     bind_res (map_res (\<lambda>(bases, strides, sizes).
       bind_res (map_res np_uint64 bases) (\<lambda>b.
       bind_res (map_res np_uint64 strides) (\<lambda>st.
       bind_res (map_res np_uint64 sizes) (\<lambda>si. Inr (b, st, si))))) ts) (\<lambda>ts'. Inr (l\<lparr>sl_templates := ts'\<rparr>))"

definition sl_register_kv_caches ::
    "sharded_layout \<Rightarrow> kv_tensor list \<Rightarrow> int \<Rightarrow> sharded_layout result" where
  "sl_register_kv_caches l kv_caches num_blocks =
     bind_res (fold_res (sl_register_cache l num_blocks) kv_caches (replicate (nat (sl_shards_per_rank l)) ([], [], [])))
       (set_segment_templates l)"

definition sl_prepare_values ::
    "sharded_layout \<Rightarrow> (int \<times> int) list \<Rightarrow> int list \<Rightarrow> int list \<Rightarrow> (int list list \<times> int list list \<times> int list) result" where
  "sl_prepare_values l chunks block_ids shard_ids =
     (if chunks = [] then Inr ([], [], [])
      else if length chunks \<noteq> length shard_ids then Inl ValueError
      else
        bind_res (map_res (np_int64 \<circ> fst) chunks) (\<lambda>starts.
        bind_res (map_res (np_int64 \<circ> snd) chunks) (\<lambda>ends.
        if list_ex (\<lambda>(e, s). wrap_i64 (e - s) \<noteq> sl_block_size l) (zip ends starts) then Inl ValueError
        else bind_res (py_index (sl_store_shard_ids l) 0) (\<lambda>first_shard.
          bind_res (map_res (\<lambda>s. np_int64 (s - first_shard)) shard_ids) (\<lambda>local_shards.
          if list_ex (\<lambda>s. s < 0 \<or> sl_shards_per_rank l \<le> s) local_shards then Inl ValueError
          else bind_res (map_res (\<lambda>s. bind_res (py_index block_ids (s div sl_block_size l)) np_uint64) starts) (\<lambda>bids.
            let ts = map (\<lambda>s. sl_templates l ! nat s) local_shards;
                addrs = map2 (\<lambda>t bid. map2 (\<lambda>b st. wrap_u64 (b + wrap_u64 (bid * st))) (fst t) (fst (snd t))) ts bids
            in Inr (addrs, map (snd \<circ> snd) ts, bids)))))))"

section \<open>Token chunks\<close>

text \<open>What the code relies on of vLLM's \<open>cdiv\<close>: division rounded up.\<close>

definition is_cdiv :: "(int \<Rightarrow> int \<Rightarrow> int) \<Rightarrow> bool" where
  "is_cdiv cdiv \<longleftrightarrow> (\<forall>a b. 0 < b \<longrightarrow> cdiv a b = - ((- a) div b))"

definition chunk_database :: "int \<Rightarrow> int option \<Rightarrow> (int \<times> int) result" where
  "chunk_database block_size hash_block_size =
     (let hbs = (case hash_block_size of None \<Rightarrow> block_size | Some h \<Rightarrow> if h = 0 then block_size else h) in
      if hbs = 0 then Inl ZeroDivisionError
      else if block_size mod hbs \<noteq> 0 then Inl ValueError
      else Inr (block_size, hbs))"

text \<open>One iteration of the generator; the chunks it yields.\<close>

definition process_chunk ::
    "int \<Rightarrow> int \<Rightarrow> int \<Rightarrow> 'h list \<Rightarrow> int \<Rightarrow> bool list option \<Rightarrow> int \<Rightarrow> int \<Rightarrow> int \<Rightarrow> (int \<times> int \<times> 'h) list result" where
  "process_chunk bs hbs token_len block_hashes start_chunk chunk_mask put_step put_step_rank chunk_id =
     (if (case chunk_mask of None \<Rightarrow> False | Some mk \<Rightarrow> \<not> mk ! nat (chunk_id - start_chunk)) then Inr []
      else if chunk_id mod put_step \<noteq> put_step_rank then Inr []
      else let start_idx = chunk_id * bs; end_idx = min (start_idx + bs) token_len in
        bind_res (py_index block_hashes (end_idx div hbs - 1)) (\<lambda>h. Inr [(start_idx, end_idx, h)]))"

definition process_tokens ::
    "(int \<Rightarrow> int \<Rightarrow> int) \<Rightarrow> int \<Rightarrow> int \<Rightarrow> int \<Rightarrow> 'h list \<Rightarrow> int \<Rightarrow> bool list option \<Rightarrow> int \<Rightarrow> int \<Rightarrow>
     (int \<times> int \<times> 'h) list result" where
  "process_tokens cdiv bs hbs token_len block_hashes mask_num chunk_mask put_step put_step_rank =
     (if \<not> 0 < put_step then Inl AssertionError
      else if block_hashes = [] then Inr []
      else if token_len mod hbs \<noteq> 0 then Inl AssertionError
      else if \<not> token_len div hbs \<le> int (length block_hashes) then Inl AssertionError
      else let start_chunk = max 0 (cdiv mask_num bs);
               max_chunks = (case chunk_mask of
                   None \<Rightarrow> cdiv token_len bs
                 | Some mk \<Rightarrow> min (cdiv token_len bs) (start_chunk + int (length mk)))
        in bind_res (map_res (process_chunk bs hbs token_len block_hashes start_chunk chunk_mask put_step put_step_rank)
             [start_chunk..max_chunks - 1]) (\<lambda>css. Inr (concat css)))"

text \<open>\<open>chunk_hashes_for_block_size\<close>: the last sub-hash of every chunk, by index.\<close>

definition chunk_hash_at :: "'h list \<Rightarrow> int \<Rightarrow> int \<Rightarrow> int \<Rightarrow> 'h result" where
  "chunk_hash_at block_hashes hash_block_size block_size i =
     (if block_size = hash_block_size then py_index block_hashes i
      else if hash_block_size = 0 then Inl ZeroDivisionError
      else if block_size mod hash_block_size \<noteq> 0 then Inl AssertionError
      else let scale = block_size div hash_block_size in py_index block_hashes (i * scale + scale - 1))"

section \<open>Keys are distinct\<close>

lemma append_sep_eq:
  "x \<notin> set a \<Longrightarrow> x \<notin> set b \<Longrightarrow> a @ x # p = b @ x # q \<longleftrightarrow> a = b \<and> p = q"
proof (induction a arbitrary: b)
  case Nil
  then show ?case by (cases b) auto
next
  case (Cons y a)
  then show ?case by (cases b) auto
qed

lemma show_int_eq_iff: "show_int i = show_int j \<longleftrightarrow> i = j"
  by (metis option.inject py_parse_show_int)

lemma at_not_in_show_int: "CHR ''@'' \<notin> set (show_int i)"
  using show_nat_digits[of "CHR ''@''"] by (auto simp: show_int_def is_digit_def)

lemma hex_digit_code: "d < 16 \<Longrightarrow> of_char (hex_digit d) = (if d < 10 then 48 + d else 87 + d)" for d :: nat
  by (simp add: hex_digit_def)

lemma hex_digit_inj:
  assumes "a < 16" "b < 16"
  shows "hex_digit a = hex_digit b \<longleftrightarrow> a = b"
proof
  assume "hex_digit a = hex_digit b"
  then have "(if a < 10 then 48 + a else 87 + a) = (if b < 10 then 48 + b else 87 + b)"
    using hex_digit_code[OF assms(1)] hex_digit_code[OF assms(2)] by metis
  then show "a = b" by (simp split: if_splits)
qed simp

lemma bytes_hex_inj: "bytes_hex a = bytes_hex b \<Longrightarrow> a = b"
proof (induction a arbitrary: b)
  case Nil
  then show ?case by (cases b) (auto simp: bytes_hex_def)
next
  case (Cons x a)
  then obtain y b' where b: "b = y # b'" by (cases b) (auto simp: bytes_hex_def)
  have lt: "unat z div 16 < 16" "unat z mod 16 < 16" for z :: byte
  proof -
    have "unat z < 2 ^ LENGTH(8)" by (rule unsigned_less)
    then show "unat z div 16 < 16" "unat z mod 16 < 16" by (auto simp: less_mult_imp_div_less)
  qed
  have "unat x div 16 = unat y div 16" "unat x mod 16 = unat y mod 16" "bytes_hex a = bytes_hex b'"
    using Cons.prems b lt by (auto simp: bytes_hex_def hex_digit_inj)
  then have "unat x = unat y" by (metis div_mult_mod_eq)
  then have "x = y" by (rule unsigned_word_eqI)
  then show ?case using Cons.IH \<open>bytes_hex a = bytes_hex b'\<close> b by simp
qed

definition same_space :: "key_metadata \<Rightarrow> key_metadata \<Rightarrow> bool" where
  "same_space m m' \<longleftrightarrow> km_cache_prefix m = km_cache_prefix m' \<and> km_model_name m = km_model_name m' \<and>
     km_store_namespace m = km_store_namespace m'"

lemmas sep_int = append_sep_eq[OF at_not_in_show_int at_not_in_show_int]

lemma build_prefix_key_inj:
  assumes "same_space m m'"
    and "build_key_string (build_prefix m tp pcp dcp pp) a = build_key_string (build_prefix m' tp' pcp' dcp' pp') b"
  shows "rank_or (km_tp_rank m) tp = rank_or (km_tp_rank m') tp' \<and> rank_or (km_pcp_rank m) pcp = rank_or (km_pcp_rank m') pcp' \<and>
    rank_or (km_dcp_rank m) dcp = rank_or (km_dcp_rank m') dcp' \<and> rank_or (km_pp_rank m) pp = rank_or (km_pp_rank m') pp' \<and>
    km_group_id m = km_group_id m' \<and> a = b"
  using assms by (simp add: build_key_string_def build_prefix_def same_space_def sep_int show_int_eq_iff)

section \<open>Shards\<close>

lemma div_eq_iff: "0 < d \<Longrightarrow> x div d = q \<longleftrightarrow> q * d \<le> x \<and> x < (q + 1) * d" for x d q :: int
proof
  assume d: "0 < d" and q: "x div d = q"
  have "x = q * d + x mod d" "0 \<le> x mod d" "x mod d < d" using d q by (auto simp: mult.commute)
  then show "q * d \<le> x \<and> x < (q + 1) * d" by (auto simp: algebra_simps)
next
  assume d: "0 < d" and "q * d \<le> x \<and> x < (q + 1) * d"
  then have "x = d * q + (x - d * q)" "0 \<le> x - d * q" "x - d * q < d" by (auto simp: algebra_simps)
  then show "x div d = q" by (metis div_pos_geq int_div_pos_eq)
qed

lemma div_less_iff: "0 < d \<Longrightarrow> x div d < b \<longleftrightarrow> x < b * d" for x d b :: int
proof
  assume d: "0 < d" and "x div d < b"
  then have "(x div d + 1) * d \<le> b * d" by (intro mult_right_mono) auto
  then show "x < b * d" using div_eq_iff[OF d, of x "x div d"] by simp
next
  assume d: "0 < d" and "x < b * d"
  moreover have "x div d * d \<le> x" using div_eq_iff[OF d, of x "x div d"] by simp
  ultimately have "x div d * d < b * d" by linarith
  then show "x div d < b" using d by simp
qed

text \<open>The head a byte of a block belongs to, in either packed format.\<close>

definition head_of_byte :: "sharded_layout \<Rightarrow> int \<Rightarrow> int \<Rightarrow> int \<Rightarrow> int" where
  "head_of_byte l head_stride token_stride x = (case sl_format l of
       LBHNC \<Rightarrow> x div head_stride
     | LBNHC \<Rightarrow> x mod token_stride div head_stride)"

lemma segments_by_head:
  assumes packed: "has_packed_strides l hs ts c" and c: "0 < c" and bs: "0 < sl_block_size l"
    and H: "0 < sl_heads_per_store_shard l" and i: "0 \<le> i" "i < n"
    and lh: "sl_local_num_kv_heads l = n * sl_heads_per_store_shard l"
  shows "(\<exists>seg \<in> set (shard_segments l (i * sl_heads_per_store_shard l) hs ts c). x \<in> region_set seg) \<longleftrightarrow>
    0 \<le> x \<and> x < sl_local_num_kv_heads l * sl_block_size l * c \<and>
    head_of_byte l hs ts x div sl_heads_per_store_shard l = i"
proof -
  let ?H = "sl_heads_per_store_shard l" and ?L = "sl_local_num_kv_heads l" and ?B = "sl_block_size l"
  have iL: "(i + 1) * ?H \<le> ?L" "0 \<le> i * ?H" "0 < ?L"
    using i H lh by (auto intro: mult_right_mono)
  show ?thesis
  proof (cases "sl_format l")
    case LBHNC
    then have hs: "hs = ?B * c" and hs0: "0 < hs" using packed c bs by (auto simp: has_packed_strides_def)
    have "x div hs div ?H = i \<longleftrightarrow> i * ?H * hs \<le> x \<and> x < (i + 1) * ?H * hs"
      using div_eq_iff[of "hs * ?H" x i] hs0 H by (simp add: zdiv_zmult2_eq ac_simps)
    moreover have "(i + 1) * ?H * hs \<le> ?L * hs" using iL(1) hs0 by (simp add: mult_right_mono)
    moreover have "0 \<le> i * ?H * hs" using iL(2) hs0 by simp
    ultimately show ?thesis using LBHNC hs
      by (auto simp: shard_segments_def region_set_def head_of_byte_def algebra_simps)
  next
    case LBNHC
    then have hs: "hs = c" and ts: "ts = ?L * c" using packed by (auto simp: has_packed_strides_def)
    have ts0: "0 < ts" using ts iL c by simp
    let ?lo = "i * ?H * c" and ?hi = "(i + 1) * ?H * c"
    have lohi: "0 \<le> ?lo" "?hi \<le> ts" using iL c ts by (auto intro: mult_right_mono)
    have head: "x mod ts div c div ?H = i \<longleftrightarrow> ?lo \<le> x mod ts \<and> x mod ts < ?hi"
      using div_eq_iff[of "c * ?H" "x mod ts" i] c H by (simp add: zdiv_zmult2_eq ac_simps)
    have seg: "x \<in> region_set (t * ts + i * ?H * c, ?H * c) \<longleftrightarrow> t = x div ts \<and> ?lo \<le> x mod ts \<and> x mod ts < ?hi" for t
    proof
      assume "x \<in> region_set (t * ts + i * ?H * c, ?H * c)"
      then have b: "t * ts + ?lo \<le> x" "x < t * ts + ?hi" by (auto simp: region_set_def algebra_simps)
      then have "t * ts \<le> x \<and> x < (t + 1) * ts" using lohi by (auto simp: algebra_simps)
      then have t: "x div ts = t" using div_eq_iff[OF ts0] by blast
      moreover have "x = t * ts + x mod ts" using t by (metis div_mult_mod_eq)
      ultimately show "t = x div ts \<and> ?lo \<le> x mod ts \<and> x mod ts < ?hi" using b by auto
    next
      assume a: "t = x div ts \<and> ?lo \<le> x mod ts \<and> x mod ts < ?hi"
      then have "t * ts + x mod ts = x" by simp
      then have "t * ts + ?lo \<le> x" "x < t * ts + ?hi" using a by linarith+
      then show "x \<in> region_set (t * ts + i * ?H * c, ?H * c)" by (auto simp: region_set_def algebra_simps)
    qed
    have rng: "0 \<le> x div ts \<and> x div ts < ?B \<longleftrightarrow> 0 \<le> x \<and> x < ?L * ?B * c"
    proof -
      have "0 \<le> x div ts \<longleftrightarrow> 0 \<le> x" using ts0 by (simp add: pos_imp_zdiv_nonneg_iff)
      moreover have "x div ts < ?B \<longleftrightarrow> x < ?B * ts" by (rule div_less_iff[OF ts0])
      ultimately show ?thesis using ts by (simp add: ac_simps)
    qed
    have "(\<exists>s \<in> set (shard_segments l (i * ?H) hs ts c). x \<in> region_set s) \<longleftrightarrow>
        (\<exists>t \<in> {0..?B - 1}. x \<in> region_set (t * ts + i * ?H * c, ?H * c))"
      using LBNHC hs by (simp add: shard_segments_def)
    also have "\<dots> \<longleftrightarrow> (x div ts \<in> {0..?B - 1} \<and> ?lo \<le> x mod ts \<and> x mod ts < ?hi)"
      unfolding seg by auto
    also have "\<dots> \<longleftrightarrow> 0 \<le> x \<and> x < ?L * ?B * c \<and> x mod ts div c div ?H = i"
      using head rng by auto
    finally show ?thesis using LBNHC hs by (simp add: head_of_byte_def)
  qed
qed

text \<open>
  C38: In the layouts that several tensor-parallel sizes share, a byte of a block belongs to exactly
  the shard of its head: whatever the local TP size and the packed format, the segments of the
  shards of a rank cover the block without overlap, and a byte of global head \<open>g\<close> lies in the
  shard numbered \<open>g div heads_per_store_shard\<close>, which does not depend on the TP size.
\<close>

theorem shard_bytes_by_global_head:
  assumes "TPShardedStoreLayout f m bs hbs local_tp store_tp tp_rank num_kv_heads = Inr l"
    and "0 < local_tp" and "0 < store_tp" and "local_tp dvd store_tp" and "store_tp dvd num_kv_heads"
    and "0 < num_kv_heads" and "0 < bs" and "0 < content"
    and "has_packed_strides l head_stride token_stride content"
    and "0 \<le> i" and "i < sl_shards_per_rank l"
  shows "(\<exists>seg \<in> set (shard_segments l (i * sl_heads_per_store_shard l) head_stride token_stride content). x \<in> region_set seg)
    \<longleftrightarrow> 0 \<le> x \<and> x < num_kv_heads div local_tp * bs * content \<and>
        (tp_rank * (num_kv_heads div local_tp) + head_of_byte l head_stride token_stride x) div (num_kv_heads div store_tp)
          = sl_store_shard_ids l ! nat i"
proof -
  obtain n where n: "store_tp = local_tp * n" using assms(4) by (auto simp: dvd_def)
  obtain h where h: "num_kv_heads = store_tp * h" using assms(5) by (auto simp: dvd_def)
  have n0: "0 < n" using assms(2,3) n by (simp add: zero_less_mult_iff)
  have h0: "0 < h" using assms(3,6) h by (simp add: zero_less_mult_iff)
  have l: "sl_heads_per_store_shard l = h" "sl_local_num_kv_heads l = n * h" "sl_block_size l = bs"
    "sl_shards_per_rank l = n" "sl_store_shard_ids l = [tp_rank * n..tp_rank * n + n - 1]"
    using assms(1-3) n h n0 by (auto simp: TPShardedStoreLayout_def Let_def split: if_splits)
  have e: "num_kv_heads div local_tp = n * h" "num_kv_heads div store_tp = h" using n h assms(2,3) by auto
  have "sl_store_shard_ids l ! nat i = tp_rank * n + i" using l assms(10,11) by simp
  moreover have "(tp_rank * (n * h) + y) div h = tp_rank * n + y div h" for y
    using h0 div_mult_self3[of h "tp_rank * n" y] by (simp add: ac_simps)
  ultimately show ?thesis using segments_by_head[of l head_stride token_stride content i n x] assms(7-11) h0 l e by simp
qed

definition demo_meta :: key_metadata where
  "demo_meta = \<lparr>km_model_name = ''m'', km_tp_rank = 1, km_pcp_rank = 0, km_dcp_rank = 0, km_pp_rank = 0,
     km_group_id = 0, km_cache_prefix = [], km_store_namespace = []\<rparr>"

theorem shard_bytes_by_global_head_witness:
  "\<exists>l. TPShardedStoreLayout LBNHC demo_meta 2 2 2 4 1 8 = Inr l \<and> sl_store_shard_ids l = [2, 3] \<and>
     (\<exists>seg \<in> set (shard_segments l (1 * sl_heads_per_store_shard l) 3 12 3). 18 \<in> region_set seg)"
proof -
  define l where "l = projr (TPShardedStoreLayout LBNHC demo_meta 2 2 2 4 1 8)"
  have l: "TPShardedStoreLayout LBNHC demo_meta 2 2 2 4 1 8 = Inr l" and ids: "sl_store_shard_ids l = [2, 3]"
    and "has_packed_strides l 3 12 3" "sl_shards_per_rank l = 2" "head_of_byte l 3 12 18 = 2"
    unfolding l_def by code_simp+
  then have "\<exists>seg \<in> set (shard_segments l (1 * sl_heads_per_store_shard l) 3 12 3). 18 \<in> region_set seg"
    using shard_bytes_by_global_head[OF l, of 3 3 12 1 18] by simp
  then show ?thesis using l ids by blast
qed

text \<open>The layout that rank \<open>r\<close> of pipeline stage \<open>pp\<close> builds.\<close>

definition rank_layout ::
    "shard_format \<Rightarrow> key_metadata \<Rightarrow> int \<Rightarrow> int \<Rightarrow> int \<Rightarrow> int \<Rightarrow> int \<Rightarrow> int \<Rightarrow> int \<Rightarrow> sharded_layout result" where
  "rank_layout f m bs hbs local_tp store_tp heads pp r =
     TPShardedStoreLayout f (m\<lparr>km_tp_rank := r, km_pp_rank := pp\<rparr>) bs hbs local_tp store_tp r heads"

lemma rank_layout_Inr:
  assumes "0 < local_tp" "0 < n"
  shows "\<exists>l. rank_layout f m bs hbs local_tp (local_tp * n) heads pp r = Inr l \<and>
    sl_metadata l = m\<lparr>km_tp_rank := r, km_pp_rank := pp\<rparr> \<and> sl_store_shard_ids l = [r * n..r * n + n - 1] \<and>
    sl_store_tp_size l = local_tp * n"
  using assms by (auto simp: rank_layout_def TPShardedStoreLayout_def Let_def)

lemma shard_of_some_rank:
  fixes n s t :: int
  assumes "0 < n" "0 \<le> s" "s < t * n"
  shows "\<exists>r. 0 \<le> r \<and> r < t \<and> s \<in> {r * n..r * n + n - 1}"
proof (intro exI[of _ "s div n"] conjI)
  show "0 \<le> s div n" using assms by (simp add: pos_imp_zdiv_nonneg_iff)
  show "s div n < t" using assms div_less_iff[of n s t] by simp
  show "s \<in> {s div n * n..s div n * n + n - 1}" using div_eq_iff[OF assms(1), of s "s div n"] by (auto simp: algebra_simps)
qed

lemma shard_of_rank_bound:
  fixes n s t r :: int
  assumes "0 < n" "0 \<le> r" "r < t" "s \<in> {r * n..r * n + n - 1}"
  shows "0 \<le> s \<and> s < t * n"
proof -
  have "(r + 1) * n \<le> t * n" using assms by (intro mult_right_mono) auto
  moreover have "0 \<le> r * n" using assms by simp
  ultimately show ?thesis using assms(4) by (auto simp: algebra_simps)
qed

lemma sl_key_for_inj:
  assumes "sl_key_for l s h = Inr k" "sl_key_for l' s' h' = Inr k" "same_space (sl_metadata l) (sl_metadata l')"
  shows "s = s' \<and> h = h' \<and> km_pp_rank (sl_metadata l) = km_pp_rank (sl_metadata l') \<and>
    km_group_id (sl_metadata l) = km_group_id (sl_metadata l')"
proof -
  have "build_key_string (build_prefix (sl_metadata l) (Some s) None None None) (bytes_hex h) =
      build_key_string (build_prefix (sl_metadata l') (Some s') None None None) (bytes_hex h')"
    using assms(1,2) by (simp add: sl_key_for_def split: if_splits)
  from build_prefix_key_inj[OF assms(3) this] show ?thesis using bytes_hex_inj by (simp add: rank_or_def)
qed

lemma build_prefix_overrides:
  "build_prefix (m\<lparr>km_tp_rank := r, km_pp_rank := pp\<rparr>) (Some s) None None pp' =
     build_prefix m (Some s) None None (Some (rank_or pp pp'))"
  by (simp add: build_prefix_def rank_or_def)

text \<open>
  In a TP-shared layout a lookup asks for exactly the keys the ranks store: for every chunk hash,
  the keys that all TP ranks of the pipeline stages write are the keys formed from the lookup
  prefixes, and keys of different shards, stages, groups or hashes never coincide.
\<close>

lemma shard_keys_looked_up:
  assumes "0 < local_tp" and "0 < store_tp" and "local_tp dvd store_tp"
    and "rank_layout f m bs hbs local_tp store_tp heads pp0 r0 = Inr l0"
  shows "((\<lambda>p. build_key_string p (bytes_hex h)) ` set (sl_lookup_key_prefixes l0 nss) =
      {k. \<exists>r pp l s. 0 \<le> r \<and> r < local_tp \<and> pp \<in> ns_pp_rank ` set nss \<and>
           rank_layout f m bs hbs local_tp store_tp heads pp r = Inr l \<and>
           s \<in> set (sl_store_shard_ids l) \<and> sl_key_for l s h = Inr k}) \<and>
     (\<forall>l l' s s' h' k. sl_key_for l s h = Inr k \<and> sl_key_for l' s' h' = Inr k \<and> same_space (sl_metadata l) (sl_metadata l') \<longrightarrow>
        s = s' \<and> h = h' \<and> km_pp_rank (sl_metadata l) = km_pp_rank (sl_metadata l') \<and>
        km_group_id (sl_metadata l) = km_group_id (sl_metadata l'))"
    (is "?asked = ?stored \<and> ?inj")
proof (rule conjI)
  show ?inj using sl_key_for_inj by blast
  obtain n where n: "store_tp = local_tp * n" using assms(3) by (auto simp: dvd_def)
  have n0: "0 < n" using assms(1,2) n by (simp add: zero_less_mult_iff)
  let ?pps = "ns_pp_rank ` set nss"
  let ?key = "\<lambda>s pp. build_key_string (build_prefix m (Some s) None None (Some pp)) (bytes_hex h)"
  have l0: "sl_metadata l0 = m\<lparr>km_tp_rank := r0, km_pp_rank := pp0\<rparr>" "sl_store_tp_size l0 = store_tp"
    using rank_layout_Inr[OF assms(1) n0, of f m bs hbs heads pp0 r0] assms(4) n by auto
  have asked: "?asked = {?key s pp | s pp. 0 \<le> s \<and> s < store_tp \<and> pp \<in> ?pps}"
    by (force simp: sl_lookup_key_prefixes_def l0 build_prefix_overrides rank_or_def)
  have layout: "\<exists>l. rank_layout f m bs hbs local_tp store_tp heads pp r = Inr l \<and>
      sl_store_shard_ids l = [r * n..r * n + n - 1] \<and> (\<forall>s \<in> {r * n..r * n + n - 1}. sl_key_for l s h = Inr (?key s pp))" for r pp
    using rank_layout_Inr[OF assms(1) n0, of f m bs hbs heads pp r]
    by (auto simp: n sl_key_for_def build_prefix_overrides rank_or_def)
  show "?asked = ?stored"
  proof
    show "?asked \<subseteq> ?stored"
    proof
      fix k assume "k \<in> ?asked"
      then obtain s pp where k: "k = ?key s pp" "0 \<le> s" "s < store_tp" "pp \<in> ?pps" unfolding asked by blast
      obtain r where r: "0 \<le> r" "r < local_tp" "s \<in> {r * n..r * n + n - 1}"
        using shard_of_some_rank[OF n0, of s local_tp] k n by auto
      obtain l where "rank_layout f m bs hbs local_tp store_tp heads pp r = Inr l"
        "s \<in> set (sl_store_shard_ids l)" "sl_key_for l s h = Inr k"
        using layout[of pp r] r(3) k(1) by auto
      then show "k \<in> ?stored" using r(1,2) k(4) by blast
    qed
    show "?stored \<subseteq> ?asked"
    proof
      fix k assume "k \<in> ?stored"
      then obtain r pp l s where a: "0 \<le> r" "r < local_tp" "pp \<in> ?pps"
        "rank_layout f m bs hbs local_tp store_tp heads pp r = Inr l"
        "s \<in> set (sl_store_shard_ids l)" "sl_key_for l s h = Inr k" by blast
      then have s: "s \<in> {r * n..r * n + n - 1}" "k = ?key s pp" using layout[of pp r] by auto
      then show "k \<in> ?asked" using shard_of_rank_bound[OF n0 a(1,2) s(1)] a(3) n unfolding asked by blast
    qed
  qed
qed

lemma shard_keys_looked_up_witness:
  "\<exists>l0. rank_layout LBHNC demo_meta 2 2 2 4 8 0 0 = Inr l0 \<and>
     build_key_string (build_prefix demo_meta (Some 3) None None (Some 0)) (bytes_hex [255]) \<in>
       (\<lambda>p. build_key_string p (bytes_hex [255])) ` set (sl_lookup_key_prefixes l0 [(0, 0, 0, 0)])"
proof -
  define l0 where "l0 = projr (rank_layout LBHNC demo_meta 2 2 2 4 8 0 0)"
  define l where "l = projr (rank_layout LBHNC demo_meta 2 2 2 4 8 0 1)"
  have l0: "rank_layout LBHNC demo_meta 2 2 2 4 8 0 0 = Inr l0" unfolding l0_def by code_simp
  have l: "rank_layout LBHNC demo_meta 2 2 2 4 8 0 1 = Inr l" "sl_store_shard_ids l = [2, 3]"
    "sl_key_for l 3 [255] = Inr (build_key_string (build_prefix demo_meta (Some 3) None None (Some 0)) (bytes_hex [255]))"
    unfolding l_def by code_simp+
  have "0 \<in> ns_pp_rank ` set [(0, 0, 0, 0)]" by (simp add: ns_pp_rank_def)
  note eq = conjunct1[OF shard_keys_looked_up[OF _ _ _ l0, of "[255]" "[(0, 0, 0, 0)]"]]
  have "build_key_string (build_prefix demo_meta (Some 3) None None (Some 0)) (bytes_hex [255]) \<in>
      (\<lambda>p. build_key_string p (bytes_hex [255])) ` set (sl_lookup_key_prefixes l0 [(0, 0, 0, 0)])"
  proof (subst eq)
    show "build_key_string (build_prefix demo_meta (Some 3) None None (Some 0)) (bytes_hex [255]) \<in>
      {k. \<exists>r pp l s. 0 \<le> r \<and> r < 2 \<and> pp \<in> ns_pp_rank ` set [(0, 0, 0, 0)] \<and>
           rank_layout LBHNC demo_meta 2 2 2 4 8 pp r = Inr l \<and>
           s \<in> set (sl_store_shard_ids l) \<and> sl_key_for l s [255] = Inr k}"
      using l \<open>0 \<in> _\<close> by (intro CollectI exI[of _ 1] exI[of _ "0::int"] exI[of _ l] exI[of _ 3]) simp
  qed simp_all
  then show ?thesis using l0 by blast
qed

text \<open>A rank-local key is the string of the pool key of its metadata and hash.\<close>

lemma rl_key_is_pool_key:
  "rl_key_for (RankLocalStoreLayout m bs hbs) 0 h = Inr (pool_key_to_string m (bytes_hex h))"
  by (simp add: rl_key_for_def RankLocalStoreLayout_def pool_key_to_string_def)

text \<open>A rank-local key is found under the prefix of the namespace of its rank.\<close>

lemma rank_local_key_looked_up:
  "rl_key_for (RankLocalStoreLayout m bs hbs) 0 h = Inr k \<Longrightarrow>
   (km_tp_rank m, km_pcp_rank m, km_dcp_rank m, km_pp_rank m) \<in> set nss \<Longrightarrow>
   k \<in> (\<lambda>p. build_key_string p (bytes_hex h)) ` set (rl_lookup_key_prefixes (RankLocalStoreLayout m' bs hbs) nss)"
  if "same_space m m'" "km_group_id m = km_group_id m'"
  using that by (force simp: rl_key_for_def RankLocalStoreLayout_def rl_lookup_key_prefixes_def build_prefix_def
      rank_or_def same_space_def)

section \<open>Chunks\<close>

lemma is_cdivD:
  assumes "is_cdiv cdiv" "0 < b"
  shows "i < cdiv a b \<longleftrightarrow> i * b < a" and "cdiv a b \<le> i \<longleftrightarrow> a \<le> i * b"
proof -
  have c: "cdiv a b = - ((- a) div b)" using assms by (simp add: is_cdiv_def)
  have "(- a) div b < - i \<longleftrightarrow> - a < - i * b" by (rule div_less_iff[OF assms(2)])
  then show "i < cdiv a b \<longleftrightarrow> i * b < a" unfolding c by auto
  then show "cdiv a b \<le> i \<longleftrightarrow> a \<le> i * b" by auto
qed

text \<open>The chunks from \<open>mask_num\<close> on, without masking and without distribution over ranks.\<close>

definition chunk_of :: "int \<Rightarrow> int \<Rightarrow> int \<Rightarrow> 'h list \<Rightarrow> int \<Rightarrow> int \<times> int \<times> 'h" where
  "chunk_of bs hbs token_len hashes i =
     (i * bs, min ((i + 1) * bs) token_len, hashes ! nat (min ((i + 1) * bs) token_len div hbs - 1))"

lemma process_chunk_eq:
  assumes "0 < hbs" "hbs dvd bs" "0 < bs" "hbs dvd token_len" "token_len div hbs \<le> int (length hashes)"
    and "0 \<le> i" "i * bs < token_len"
  shows "process_chunk bs hbs token_len hashes start mk step rank i =
    Inr (if (case mk of None \<Rightarrow> True | Some m \<Rightarrow> m ! nat (i - start)) \<and> i mod step = rank
         then [chunk_of bs hbs token_len hashes i] else [])"
proof -
  let ?e = "min (i * bs + bs) token_len"
  have ie: "i * bs + bs = (i + 1) * bs" by (simp add: algebra_simps)
  have "0 \<le> i * bs" using assms by simp
  then have "0 < i * bs + bs" "0 < token_len" using assms(3,7) by linarith+
  then have "0 < ?e" "hbs dvd ?e" using assms(2,4) by (auto simp: min_def)
  then have "hbs \<le> ?e" by (rule zdvd_imp_le[rotated])
  then have "\<not> ?e div hbs < 1" using div_less_iff[OF assms(1), of ?e 1] by linarith
  then have e1: "1 \<le> ?e div hbs" by simp
  have "?e div hbs \<le> token_len div hbs" using assms(1) by (intro zdiv_mono1) auto
  then have "?e div hbs \<le> int (length hashes)" using assms(5) by linarith
  then have "py_index hashes (?e div hbs - 1) = Inr (hashes ! nat (?e div hbs - 1))"
    using e1 by (simp add: py_index_def Let_def)
  then show ?thesis by (auto simp: process_chunk_def chunk_of_def Let_def ie split: option.splits)
qed

lemma concat_if_filter: "concat (map (\<lambda>x. if P x then [f x] else []) xs) = map f (filter P xs)"
  by (induction xs) auto

lemma process_tokens_eq:
  assumes "is_cdiv cdiv" "0 < hbs" "hbs dvd bs" "0 < bs" "hbs dvd token_len"
    and "token_len div hbs \<le> int (length hashes)" "hashes \<noteq> []" "0 < step"
    and "start = max 0 (cdiv mask_num bs)"
    and "stop = (case mk of None \<Rightarrow> cdiv token_len bs | Some m \<Rightarrow> min (cdiv token_len bs) (start + int (length m)))"
  shows "process_tokens cdiv bs hbs token_len hashes mask_num mk step rank =
    Inr (map (chunk_of bs hbs token_len hashes)
      (filter (\<lambda>i. (case mk of None \<Rightarrow> True | Some m \<Rightarrow> m ! nat (i - start)) \<and> i mod step = rank) [start..stop - 1]))"
proof -
  have stop: "stop \<le> cdiv token_len bs" unfolding assms(10) by (auto split: option.splits)
  have "map_res (process_chunk bs hbs token_len hashes start mk step rank) [start..stop - 1] =
      Inr (map (\<lambda>i. if (case mk of None \<Rightarrow> True | Some m \<Rightarrow> m ! nat (i - start)) \<and> i mod step = rank
         then [chunk_of bs hbs token_len hashes i] else []) [start..stop - 1])"
  proof (rule map_res_map)
    fix i assume "i \<in> set [start..stop - 1]"
    then have i: "0 \<le> i" "i < cdiv token_len bs" using stop assms(9) by auto
    then have "i * bs < token_len" using is_cdivD(1)[OF assms(1,4)] by simp
    then show "process_chunk bs hbs token_len hashes start mk step rank i = Inr (if (case mk of None \<Rightarrow> True | Some m \<Rightarrow> m ! nat (i - start)) \<and> i mod step = rank
         then [chunk_of bs hbs token_len hashes i] else [])"
      using i by (intro process_chunk_eq) (use assms in auto)
  qed
  moreover have "token_len mod hbs = 0" using assms(5) by simp
  ultimately show ?thesis using assms(6-8) unfolding process_tokens_def
    by (simp add: Let_def concat_if_filter assms(9)[symmetric] assms(10)[symmetric])
qed

text \<open>
  Chunks are distributed over the ranks without loss or duplication: every chunk of the tokens
  from the first block boundary at or after \<open>mask_num\<close> on, as \<open>process_tokens\<close> would give it to a
  single rank, is given to exactly one of \<open>put_step\<close> ranks, by the position of the chunk alone; the
  chunks of a single rank follow each other without gap up to the last token.
\<close>

lemma process_tokens_partition:
  assumes "is_cdiv cdiv" and "0 < hbs" and "hbs dvd bs" and "0 < bs" and "hbs dvd token_len"
    and "token_len div hbs \<le> int (length hashes)" and "hashes \<noteq> []" and "0 < step"
  shows "\<exists>is. process_tokens cdiv bs hbs token_len hashes mask_num mk 1 0 = Inr (map (chunk_of bs hbs token_len hashes) is) \<and>
    (\<forall>rank. process_tokens cdiv bs hbs token_len hashes mask_num mk step rank =
       Inr (map (chunk_of bs hbs token_len hashes) (filter (\<lambda>i. i mod step = rank) is))) \<and>
    distinct is \<and> (\<forall>i \<in> set is. \<exists>!rank. 0 \<le> rank \<and> rank < step \<and> i mod step = rank) \<and>
    (mk = None \<longrightarrow> (\<forall>i. i \<in> set is \<longleftrightarrow> 0 \<le> i \<and> mask_num \<le> i * bs \<and> i * bs < token_len))"
proof -
  define start where "start = max 0 (cdiv mask_num bs)"
  define stop where "stop = (case mk of None \<Rightarrow> cdiv token_len bs | Some m \<Rightarrow> min (cdiv token_len bs) (start + int (length m)))"
  define kept where "kept = (\<lambda>i. case mk of None \<Rightarrow> True | Some m \<Rightarrow> m ! nat (i - start))"
  define js where "js = filter kept [start..stop - 1]"
  note eq = process_tokens_eq[OF assms(1-7) _ start_def stop_def]
  have "process_tokens cdiv bs hbs token_len hashes mask_num mk step rank =
      Inr (map (chunk_of bs hbs token_len hashes) (filter (\<lambda>i. i mod step = rank) js))" if "0 < step" for step rank
    unfolding eq[OF that] js_def kept_def by (simp add: conj_commute)
  moreover have "distinct js" by (simp add: js_def)
  moreover have "\<exists>!rank. 0 \<le> rank \<and> rank < step \<and> i mod step = rank" for i using assms(8) by auto
  moreover have "i \<in> set js \<longleftrightarrow> 0 \<le> i \<and> mask_num \<le> i * bs \<and> i * bs < token_len" if "mk = None" for i
    using that is_cdivD[OF assms(1,4)] by (auto simp: js_def kept_def start_def stop_def)
  ultimately show ?thesis using assms(8) by (intro exI[of _ js]) (simp add: js_def)
qed

lemma process_tokens_partition_witness:
  "\<exists>is. process_tokens (\<lambda>a b. - ((- a) div b)) 4 2 14 [''a'', ''b'', ''c'', ''d'', ''e'', ''f'', ''g''] 4 None 1 0 =
       Inr (map (chunk_of 4 2 14 [''a'', ''b'', ''c'', ''d'', ''e'', ''f'', ''g'']) is) \<and>
     process_tokens (\<lambda>a b. - ((- a) div b)) 4 2 14 [''a'', ''b'', ''c'', ''d'', ''e'', ''f'', ''g''] 4 None 2 1 =
       Inr [(4, 8, ''d''), (12, 14, ''g'')]"
proof -
  have "process_tokens (\<lambda>a b. - ((- a) div b)) 4 2 14 [''a'', ''b'', ''c'', ''d'', ''e'', ''f'', ''g''] 4 None 2 1 =
      Inr [(4, 8, ''d''), (12, 14, ''g'')]" by code_simp
  then show ?thesis
    using process_tokens_partition[of "\<lambda>a b. - ((- a) div b)" 2 4 14 "[''a'', ''b'', ''c'', ''d'', ''e'', ''f'', ''g'']" 2 4 None]
    by (auto simp: is_cdiv_def)
qed

section \<open>Addresses\<close>

lemma np_int64_id: "- (2 ^ 63) \<le> x \<Longrightarrow> x < 2 ^ 63 \<Longrightarrow> np_int64 x = Inr x"
  by (simp add: np_int64_def)

lemma wrap_i64_id: "- (2 ^ 63) \<le> x \<Longrightarrow> x < 2 ^ 63 \<Longrightarrow> wrap_i64 x = x"
  by (simp add: wrap_i64_def)

lemma map_res_np_int64: "(\<And>x. x \<in> set xs \<Longrightarrow> - (2 ^ 63) \<le> f x \<and> f x < 2 ^ 63) \<Longrightarrow>
    map_res (\<lambda>x. np_int64 (f x)) xs = Inr (map f xs)"
  by (rule map_res_map) (simp add: np_int64_def)

text \<open>
  Every region of the layout lies below \<open>2^62\<close> up to and including block \<open>n\<close>, as addresses of
  a process do.
\<close>

definition addressable :: "rank_local_layout \<Rightarrow> int \<Rightarrow> bool" where
  "addressable l n \<longleftrightarrow> length (rl_block_len l) = length (rl_kv_caches_base_addr l) \<and>
     list_all2 (\<lambda>b len. 0 \<le> b \<and> 0 \<le> len \<and> b + (n + 1) * len < 2 ^ 62) (rl_kv_caches_base_addr l) (rl_block_len l)"

lemma cycled_lens_same: "length lens = n \<Longrightarrow> cycled_lens lens n = Inr lens"
proof -
  assume n: "length lens = n"
  have "map_res (\<lambda>i. if lens = [] then Inl ZeroDivisionError else Inr (lens ! (i mod length lens))) [0..<n] =
      Inr (map (\<lambda>i. lens ! i) [0..<n])"
    using n by (intro map_res_map) auto
  then show ?thesis using n by (simp add: cycled_lens_def map_nth[of lens, unfolded n])
qed

lemma addressableD:
  assumes "addressable l n" "0 \<le> bid" "bid \<le> n" "(b, len) \<in> set (zip (rl_kv_caches_base_addr l) (rl_block_len l))"
  shows "0 \<le> b" "0 \<le> len" "b < 2 ^ 62" "len < 2 ^ 62" "0 \<le> bid * len" "b + bid * len < 2 ^ 62"
proof -
  have b: "0 \<le> b" "0 \<le> len" "b + (n + 1) * len < 2 ^ 62"
    using assms(1,4) by (auto simp: addressable_def list_all2_iff)
  have m: "bid * len \<le> n * len" "0 \<le> bid * len" using assms(2,3) b(2) by (auto intro: mult_right_mono)
  then show "0 \<le> b" "0 \<le> len" "b < 2 ^ 62" "len < 2 ^ 62" "0 \<le> bid * len" "b + bid * len < 2 ^ 62"
    using b by (auto simp: algebra_simps)
qed

text \<open>One chunk of at most one block, as the arrays see it.\<close>

definition chunk_fits :: "rank_local_layout \<Rightarrow> int list \<Rightarrow> int \<Rightarrow> int \<times> int \<Rightarrow> bool" where
  "chunk_fits l block_ids n c \<longleftrightarrow>
     0 \<le> fst c \<and> fst c < snd c \<and> snd c < 2 ^ 62 \<and> snd c - fst c \<le> rl_block_size l \<and>
     rl_hash_block_size l dvd snd c - fst c \<and> fst c div rl_block_size l < int (length block_ids) \<and>
     0 \<le> block_ids ! nat (fst c div rl_block_size l) \<and> block_ids ! nat (fst c div rl_block_size l) \<le> n"

lemma chunk_fitsD:
  assumes "chunk_fits l block_ids n c" "0 < rl_block_size l" "rl_block_size l < 2 ^ 62" "n < 2 ^ 62"
  shows "np_int64 (fst c) = Inr (fst c)" "np_int64 (snd c) = Inr (snd c)"
    and "wrap_i64 (snd c - fst c) = snd c - fst c" "(snd c - fst c) mod rl_hash_block_size l = 0"
    and "bind_res (py_index block_ids (fst c div rl_block_size l)) np_int64 = Inr (block_ids ! nat (fst c div rl_block_size l))"
    and "wrap_i64 (wrap_i64 (snd c - fst c + rl_block_size l) - 1) div rl_block_size l = 1"
proof -
  let ?bs = "rl_block_size l" and ?d = "snd c - fst c"
  have f: "0 \<le> fst c" "fst c < snd c" "snd c < 2 ^ 62" "?d \<le> ?bs" "0 \<le> fst c div ?bs"
    using assms(1,2) by (auto simp: chunk_fits_def pos_imp_zdiv_nonneg_iff)
  show "np_int64 (fst c) = Inr (fst c)" "np_int64 (snd c) = Inr (snd c)" using f by (simp_all add: np_int64_def)
  show "wrap_i64 ?d = ?d" using f by (intro wrap_i64_id) simp_all
  show "?d mod rl_hash_block_size l = 0" using assms(1) by (simp add: chunk_fits_def dvd_eq_mod_eq_0)
  show "bind_res (py_index block_ids (fst c div ?bs)) np_int64 = Inr (block_ids ! nat (fst c div ?bs))"
    using assms(1,4) f(5) by (simp add: chunk_fits_def py_index_def Let_def np_int64_def)
  have "wrap_i64 (?d + ?bs) = ?d + ?bs" "wrap_i64 (?d + ?bs - 1) = ?d + ?bs - 1"
    using f assms(2,3) by (intro wrap_i64_id; simp)+
  then show "wrap_i64 (wrap_i64 (?d + ?bs) - 1) div ?bs = 1"
    using f(2,4) div_eq_iff[OF assms(2), of "?d + ?bs - 1" 1] by simp
qed

lemma wrapped_addresses:
  assumes "addressable l n" "0 \<le> bid" "bid \<le> n"
  shows "map2 (\<lambda>b d. wrap_i64 (b + wrap_i64 (bid * d))) (rl_kv_caches_base_addr l) (rl_block_len l) =
    map2 (\<lambda>b d. b + bid * d) (rl_kv_caches_base_addr l) (rl_block_len l)"
proof (rule map_cong[OF refl])
  fix p assume "p \<in> set (zip (rl_kv_caches_base_addr l) (rl_block_len l))"
  then obtain b d where p: "p = (b, d)" "(b, d) \<in> set (zip (rl_kv_caches_base_addr l) (rl_block_len l))" by (metis surj_pair)
  note a = addressableD[OF assms p(2)]
  have "wrap_i64 (bid * d) = bid * d" "wrap_i64 (b + bid * d) = b + bid * d"
    using a by (intro wrap_i64_id; simp)+
  then show "(case p of (b, d) \<Rightarrow> wrap_i64 (b + wrap_i64 (bid * d))) = (case p of (b, d) \<Rightarrow> b + bid * d)"
    using p(1) by simp
qed

lemma addressable_arrays:
  assumes "addressable l n" "0 \<le> n"
  shows "map_res np_int64 (rl_kv_caches_base_addr l) = Inr (rl_kv_caches_base_addr l)"
    and "map_res np_int64 (rl_block_len l) = Inr (rl_block_len l)"
    and "map wrap_i64 (rl_block_len l) = rl_block_len l"
proof -
  let ?base = "rl_kv_caches_base_addr l" and ?lens = "rl_block_len l"
  have len: "length ?base = length ?lens" using assms(1) by (simp add: addressable_def)
  have z: "0 \<le> b" "0 \<le> d" "b < 2 ^ 62" "d < 2 ^ 62" if "(b, d) \<in> set (zip ?base ?lens)" for b d
    using addressableD[OF assms(1,2) order_refl that] by auto
  have b: "- (2 ^ 63) \<le> b \<and> b < 2 ^ 63" if b_in: "b \<in> set ?base" for b
  proof -
    obtain d where "(b, d) \<in> set (zip ?base ?lens)" using in_set_impl_in_set_zip1[OF len b_in] by blast
    then show ?thesis using z(1,3)[of b d] by simp
  qed
  have d: "- (2 ^ 63) \<le> d \<and> d < 2 ^ 63" if d_in: "d \<in> set ?lens" for d
  proof -
    obtain b where "(b, d) \<in> set (zip ?base ?lens)" using in_set_impl_in_set_zip2[OF len d_in] by blast
    then show ?thesis using z(2,4)[of b d] by simp
  qed
  show "map_res np_int64 ?base = Inr ?base" using map_res_np_int64[of ?base "\<lambda>x. x"] b by simp
  show "map_res np_int64 ?lens = Inr ?lens" using map_res_np_int64[of ?lens "\<lambda>x. x"] d by simp
  show "map wrap_i64 ?lens = ?lens" using d by (intro map_idI wrap_i64_id) auto
qed

text \<open>
  For chunks of at most one block, the vectorised descriptors of \<open>prepare_values\<close> are those that
  \<open>prepare_value_for_block\<close> computes one block at a time: every chunk is described by its whole
  physical block, so the normal save and the save of a boundary state address the same bytes.
\<close>

lemma prepare_values_by_block:
  assumes "addressable l n" and "0 < rl_block_size l" and "rl_block_size l < 2 ^ 62" and "n < 2 ^ 62"
    and "\<forall>c \<in> set cs. chunk_fits l block_ids n c"
  shows "\<exists>addr lens. rl_prepare_values l cs block_ids (replicate (length cs) 0) =
      Inr (map (\<lambda>c. addr (block_ids ! nat (fst c div rl_block_size l))) cs, map (\<lambda>_. lens) cs,
           map (\<lambda>c. block_ids ! nat (fst c div rl_block_size l)) cs) \<and>
    (\<forall>bid. prepare_value_for_block l bid = Inr (addr bid, lens))"
proof (cases "cs = []")
  case True
  have "cycled_lens (rl_block_len l) (length (rl_kv_caches_base_addr l)) = Inr (rl_block_len l)"
    using assms(1) by (intro cycled_lens_same) (simp add: addressable_def)
  then show ?thesis using True by (auto simp: rl_prepare_values_def prepare_value_for_block_def)
next
  case False
  let ?base = "rl_kv_caches_base_addr l" and ?lens = "rl_block_len l" and ?bs = "rl_block_size l"
  let ?bid = "\<lambda>c. block_ids ! nat (fst c div ?bs)" and ?addr = "\<lambda>bid. map2 (\<lambda>b len. b + bid * len) ?base ?lens"
  have lens: "cycled_lens ?lens (length ?base) = Inr ?lens"
    using assms(1) by (intro cycled_lens_same) (simp add: addressable_def)
  have bid: "0 \<le> ?bid c" "?bid c \<le> n" if "c \<in> set cs" for c using assms(5) that by (auto simp: chunk_fits_def)
  then have n0: "0 \<le> n" using False by (metis last_in_set order_trans)
  note fit = chunk_fitsD[OF _ assms(2-4)]
  have c: "map_res (np_int64 \<circ> fst) cs = Inr (map fst cs)" "map_res (np_int64 \<circ> snd) cs = Inr (map snd cs)"
    "map_res (\<lambda>s. bind_res (py_index block_ids (s div ?bs)) np_int64) (map fst cs) = Inr (map ?bid cs)"
    using assms(5) by (auto simp: map_res_eq_Inr list_all2_conv_all_nth intro!: fit(1,2,5))
  have spans: "map2 (\<lambda>e s. wrap_i64 (e - s)) (map snd cs) (map fst cs) = map (\<lambda>c. snd c - fst c) cs"
    using assms(5) by (auto simp: zip_map_map o_def zip_same_conv_map intro!: fit(3))
  have ok: "list_all (\<lambda>sp. sp mod rl_hash_block_size l = 0) (map (\<lambda>c. snd c - fst c) cs)"
    using assms(5) by (auto simp: list_all_iff intro!: fit(4))
  have addrs: "map (\<lambda>bid. map2 (\<lambda>b d. wrap_i64 (b + wrap_i64 (bid * d))) ?base ?lens) (map ?bid cs) = map (\<lambda>c. ?addr (?bid c)) cs"
    using wrapped_addresses[OF assms(1) bid] by simp
  have "wrap_i64 (wrap_i64 (snd c - fst c + ?bs) - 1) div ?bs = 1" if "c \<in> set cs" for c
    using assms(5) that by (auto intro!: fit(6))
  then have counts: "map (\<lambda>sp. wrap_i64 (wrap_i64 (sp + ?bs) - 1) div ?bs) (map (\<lambda>c. snd c - fst c) cs) = map (\<lambda>_. 1) cs"
    by simp
  have sizes: "map (\<lambda>n. map (\<lambda>d. wrap_i64 (d * n)) ?lens) (map (\<lambda>_. 1) cs) = map (\<lambda>_. ?lens) cs"
    using addressable_arrays(3)[OF assms(1) n0] by (simp add: o_def)
  have "rl_prepare_values l cs block_ids (replicate (length cs) 0) = Inr (map (\<lambda>c. ?addr (?bid c)) cs, map (\<lambda>_. ?lens) cs, map ?bid cs)"
    using False lens addressable_arrays(1,2)[OF assms(1) n0] c ok unfolding rl_prepare_values_def Let_def
    by (simp add: spans addrs counts sizes list.pred_set del: map_map map_eq_conv set_map list.pred_map)
  moreover have "prepare_value_for_block l bid = Inr (?addr bid, ?lens)" for bid
    using lens by (simp add: prepare_value_for_block_def Let_def)
  ultimately show ?thesis by (intro exI[of _ ?addr] exI[of _ ?lens]) simp
qed

definition demo_layout :: rank_local_layout where
  "demo_layout = (RankLocalStoreLayout demo_meta 4 2)\<lparr>rl_kv_caches_base_addr := [1000, 9000], rl_block_len := [64, 32]\<rparr>"

lemma prepare_values_by_block_witness:
  "\<exists>addr lens. rl_prepare_values demo_layout [(0, 4), (4, 6)] [7, 3] [0, 0] = Inr ([addr (7::int), addr 3], [lens, lens], [7, 3]) \<and>
     prepare_value_for_block demo_layout 3 = Inr (addr 3, lens)"
proof -
  have "addressable demo_layout 7" "0 < rl_block_size demo_layout" "rl_block_size demo_layout < 2 ^ 62"
    "\<forall>c \<in> set [(0, 4), (4, 6)]. chunk_fits demo_layout [7, 3] 7 c" by code_simp+
  moreover have "rl_block_size demo_layout = 4" by code_simp
  ultimately show ?thesis
    using prepare_values_by_block[of demo_layout 7 "[(0, 4), (4, 6)]" "[7, 3]"] by (auto simp: numeral_2_eq_2)
qed

text \<open>
  After registration every region is listed once, with one block length per region; the seen
  pointers are exactly the listed ones.
\<close>

definition regions_wf :: "region_acc \<Rightarrow> bool" where
  "regions_wf acc \<longleftrightarrow> (case acc of (seen, base_addrs, block_lens) \<Rightarrow>
     seen = set base_addrs \<and> distinct base_addrs \<and> length block_lens = length base_addrs)"

lemma add_region_wf: "regions_wf acc \<Longrightarrow> regions_wf (add_region addr len acc)"
  by (auto simp: regions_wf_def add_region_def split: prod.splits)

lemma register_head_wf: "register_head dense cache h acc = Inr acc' \<Longrightarrow> regions_wf acc \<Longrightarrow> regions_wf acc'"
  by (elim bind_res_InrE | simp add: register_head_def add_region_wf split: if_splits)+ (metis add_region_wf)

lemma register_cache_wf:
  assumes "register_cache dense num_blocks cache acc = Inr acc'" "regions_wf acc"
  shows "regions_wf acc'"
proof -
  obtain c0 where "view_first cache = Inr c0"
    using assms(1) by (auto simp: register_cache_def bind_res_eq_Inr)
  then consider (heads) heads where "fold_res (register_head dense cache) (map int [0..<nat heads]) acc = Inr acc'"
    | (same) "acc' = acc" | (added) a d where "acc' = add_region a d acc"
    using assms(1) by (cases "dense c0") (auto simp: register_cache_def bind_res_eq_Inr split: if_splits)
  then show ?thesis
  proof cases
    case heads
    then show ?thesis by (rule fold_res_invariant[where I = regions_wf]) (use assms(2) register_head_wf in auto)
  qed (use assms(2) add_region_wf in auto)
qed

lemma register_kv_caches_wf:
  assumes "rl_register_kv_caches dense l kv_caches num_blocks = Inr l'"
  shows "distinct (rl_kv_caches_base_addr l')" "length (rl_block_len l') = length (rl_kv_caches_base_addr l')"
proof -
  obtain seen bases lens where r: "fold_res (register_cache dense num_blocks) kv_caches ({}, [], []) = Inr (seen, bases, lens)"
    and l': "l' = l\<lparr>rl_kv_caches_base_addr := bases, rl_block_len := lens\<rparr>"
    using assms by (auto simp: rl_register_kv_caches_def bind_res_eq_Inr)
  have "regions_wf (seen, bases, lens)"
    by (rule fold_res_invariant[OF r]) (simp add: regions_wf_def, rule register_cache_wf)
  then show "distinct (rl_kv_caches_base_addr l')" "length (rl_block_len l') = length (rl_kv_caches_base_addr l')"
    using l' by (auto simp: regions_wf_def)
qed

end
