(* ===== verification/Store_Coordinator.thy ===== *)
theory Store_Coordinator
  imports Store_Layout
begin

text \<open>
  The coordinator of the Mooncake store (\<^verbatim>\<open>mooncake/store/coordinator.py\<close>): which chunks of which
  KV-cache group are looked up, stored and loaded, and the longest prefix that all groups can
  reuse.  What it asks of vLLM are arguments, collected in \<open>vllm_ops\<close>: the hit finder and the
  reachability mask of the manager class of a spec, and \<open>cdiv\<close>.  A cached block is \<open>True\<close> when it
  is present and \<open>False\<close> when it is the null block.
\<close>

section \<open>Specs and groups\<close>

datatype spec_kind = FullAttentionSpec | MambaSpec string | OtherSpec

text \<open>\<open>ks_rest\<close> stands for the attributes of a spec that are only compared.\<close>

record kv_spec =
  ks_kind :: spec_kind
  ks_block_size :: int
  ks_prefix_cacheable :: bool
  ks_rest :: nat

text \<open>A group has a spec, or a wrapper of several of one type, whose first one counts.\<close>

record kv_group =
  kg_spec :: kv_spec
  kg_wrapped :: "kv_spec option"
  kg_is_eagle_group :: bool

definition unwrap_spec :: "kv_group \<Rightarrow> kv_spec" where
  "unwrap_spec g = (case kg_wrapped g of None \<Rightarrow> kg_spec g | Some inner \<Rightarrow> inner)"

definition is_full :: "kv_spec \<Rightarrow> bool" where
  "is_full s \<longleftrightarrow> ks_kind s = FullAttentionSpec"

definition is_mamba :: "kv_spec \<Rightarrow> bool" where
  "is_mamba s \<longleftrightarrow> (case ks_kind s of MambaSpec _ \<Rightarrow> True | _ \<Rightarrow> False)"

definition partial_hash_hits_enabled :: "kv_group list \<Rightarrow> int \<Rightarrow> int \<Rightarrow> bool" where
  "partial_hash_hits_enabled groups hash_block_size dcp_world_size =
     list_ex (\<lambda>g. let s = unwrap_spec g in
       ks_kind s = MambaSpec ''align'' \<and>
       (dcp_world_size = 1 \<and> hash_block_size < ks_block_size s \<or>
        1 < dcp_world_size \<and> hash_block_size \<le> ks_block_size s)) groups"

section \<open>The pool of stored blocks\<close>

text \<open>\<open>None\<close>: every block counts as present.\<close>

type_synonym ext_pool = "(nat \<times> byte list) set option"

definition get_cached_block :: "ext_pool \<Rightarrow> byte list \<Rightarrow> nat list \<Rightarrow> bool list option" where
  "get_cached_block pool h group_ids = (case pool of
       None \<Rightarrow> Some (map (\<lambda>_. True) group_ids)
     | Some ex \<Rightarrow> if list_all (\<lambda>g. (g, h) \<in> ex) group_ids then Some (map (\<lambda>_. True) group_ids) else None)"

definition pool_contains :: "ext_pool \<Rightarrow> nat \<Rightarrow> byte list \<Rightarrow> bool" where
  "pool_contains pool g h = (case pool of None \<Rightarrow> False | Some ex \<Rightarrow> (g, h) \<in> ex)"

text \<open>
  \<open>vo_find spec hashes max_length group_ids pool drop_eagle alignment\<close> and
  \<open>vo_reachable spec start end alignment use_eagle retention boundaries\<close>; \<open>vo_view_len n scale\<close> is
  the length of vLLM's view of \<open>n\<close> hashes with one entry per \<open>scale\<close> of them.
\<close>

record vllm_ops =
  vo_cdiv :: "int \<Rightarrow> int \<Rightarrow> int"
  vo_view_len :: "nat \<Rightarrow> int \<Rightarrow> int"
  vo_has_manager :: "kv_spec \<Rightarrow> bool"
  vo_fine_grained :: "kv_spec \<Rightarrow> bool"
  vo_find :: "kv_spec \<Rightarrow> byte list list \<Rightarrow> int \<Rightarrow> nat list \<Rightarrow> ext_pool \<Rightarrow> bool \<Rightarrow> int \<Rightarrow> bool list list \<times> int"
  vo_reachable :: "kv_spec \<Rightarrow> int \<Rightarrow> int \<Rightarrow> int \<Rightarrow> bool \<Rightarrow> int option \<Rightarrow> int list \<Rightarrow> bool list option"

section \<open>Construction\<close>

record spec_group =
  sg_spec :: kv_spec
  sg_group_ids :: "nat list"
  sg_use_eagle :: bool

record coordinator =
  co_groups :: "kv_group list"
  co_mamba_group_ids :: "nat list"
  co_hash_block_size :: int
  co_lcm_block_size :: int
  co_enable_partial_hash_hits :: bool
  co_retention_interval :: "int option"
  co_attention_groups :: "spec_group list"
  co_eagle_group_ids :: "nat list"

fun join_group :: "kv_spec \<Rightarrow> nat \<Rightarrow> bool \<Rightarrow> spec_group list \<Rightarrow> spec_group list" where
  "join_group spec i eagle [] = [\<lparr>sg_spec = spec, sg_group_ids = [i], sg_use_eagle = eagle\<rparr>]"
| "join_group spec i eagle (g # gs) =
     (if sg_spec g = spec
      then g\<lparr>sg_group_ids := sg_group_ids g @ [i], sg_use_eagle := sg_use_eagle g \<or> eagle\<rparr> # gs
      else g # join_group spec i eagle gs)"

definition split_step :: "vllm_ops \<Rightarrow> nat \<times> kv_group \<Rightarrow> spec_group list \<Rightarrow> spec_group list result" where
  "split_step ops x acc =
     (let i = fst x; g = snd x; spec = unwrap_spec g in
      if \<not> ks_prefix_cacheable (kg_spec g) then Inr acc
      else if \<not> vo_has_manager ops spec then Inl AssertionError
      else Inr (join_group spec i (kg_is_eagle_group g) acc))"

definition verify_and_split :: "vllm_ops \<Rightarrow> bool \<Rightarrow> kv_group list \<Rightarrow> spec_group list result" where
  "verify_and_split ops use_eagle groups =
     bind_res (fold_res (split_step ops) (List.enumerate 0 groups) []) (\<lambda>acc.
       let sorted = filter (is_full \<circ> sg_spec) acc @ filter (Not \<circ> is_full \<circ> sg_spec) acc in
       Inr (if use_eagle \<and> \<not> list_ex sg_use_eagle sorted then map (\<lambda>g. g\<lparr>sg_use_eagle := True\<rparr>) sorted else sorted))"

definition MooncakeStoreCoordinator ::
    "vllm_ops \<Rightarrow> kv_group list \<Rightarrow> int \<Rightarrow> int \<Rightarrow> bool \<Rightarrow> int option \<Rightarrow> int \<Rightarrow> coordinator result" where
  "MooncakeStoreCoordinator ops groups scheduler_bs hash_bs use_eagle retention dcp_world_size =
     (let cacheable = filter (\<lambda>g. ks_prefix_cacheable (kg_spec g)) groups in
      if \<not> list_all (\<lambda>g. ks_block_size (kg_spec g) mod hash_bs = 0) cacheable then Inl AssertionError
      else if scheduler_bs mod hash_bs \<noteq> 0 then Inl AssertionError
      else if \<not> list_all (\<lambda>g. scheduler_bs mod ks_block_size (kg_spec g) = 0) cacheable then Inl AssertionError
      else bind_res (verify_and_split ops use_eagle groups) (\<lambda>ags.
        Inr \<lparr>co_groups = groups,
             co_mamba_group_ids = [i. (i, g) \<leftarrow> List.enumerate 0 groups, is_mamba (unwrap_spec g)],
             co_hash_block_size = hash_bs, co_lcm_block_size = scheduler_bs,
             co_enable_partial_hash_hits = partial_hash_hits_enabled groups hash_bs dcp_world_size,
             co_retention_interval = retention, co_attention_groups = ags,
             co_eagle_group_ids = concat (map sg_group_ids (filter sg_use_eagle ags))\<rparr>))"

definition co_alignment :: "coordinator \<Rightarrow> int" where
  "co_alignment c = (if co_enable_partial_hash_hits c then co_hash_block_size c else co_lcm_block_size c)"

definition align_lookup_length :: "coordinator \<Rightarrow> int \<Rightarrow> int" where
  "align_lookup_length c n = n div co_alignment c * co_alignment c"

section \<open>Masks\<close>

definition reachable_mask ::
    "vllm_ops \<Rightarrow> coordinator \<Rightarrow> int \<Rightarrow> int \<Rightarrow> int option \<Rightarrow> int option \<Rightarrow> bool \<Rightarrow> nat \<times> kv_group \<Rightarrow> bool list option result" where
  "reachable_mask ops c token_len start_token retention num_prompt exclude_mamba x =
     (let g_idx = fst x; spec = unwrap_spec (snd x);
          end_chunk = token_len div ks_block_size spec;
          start_chunk = min end_chunk (max 0 (vo_cdiv ops start_token (ks_block_size spec))) in
      if exclude_mamba \<and> is_mamba spec then Inr (Some (replicate (nat (end_chunk - start_chunk)) False))
      else if \<not> vo_has_manager ops spec then Inl AssertionError
      else let mk = vo_reachable ops spec start_chunk end_chunk (co_lcm_block_size c) (g_idx \<in> set (co_eagle_group_ids c))
                      retention (case num_prompt of None \<Rightarrow> [] | Some n \<Rightarrow> [n - 1]) in
        case mk of
          None \<Rightarrow> Inr None
        | Some bs \<Rightarrow> if int (length bs) \<noteq> end_chunk - start_chunk then Inl AssertionError else Inr (Some bs))"

definition reachable_masks ::
    "vllm_ops \<Rightarrow> coordinator \<Rightarrow> int \<Rightarrow> int \<Rightarrow> int option \<Rightarrow> int option \<Rightarrow> bool \<Rightarrow> bool list option list result" where
  "reachable_masks ops c token_len start_token retention num_prompt exclude_mamba =
     (if token_len mod co_alignment c \<noteq> 0 then Inl AssertionError
      else map_res (reachable_mask ops c token_len start_token retention num_prompt exclude_mamba)
             (List.enumerate 0 (co_groups c)))"

definition store_mask :: "vllm_ops \<Rightarrow> coordinator \<Rightarrow> int \<Rightarrow> int \<Rightarrow> int option \<Rightarrow> bool list option list result" where
  "store_mask ops c token_len start_token num_prompt =
     reachable_masks ops c token_len start_token (co_retention_interval c) num_prompt True"

definition lookup_mask :: "vllm_ops \<Rightarrow> coordinator \<Rightarrow> int \<Rightarrow> bool list option list result" where
  "lookup_mask ops c token_len = reachable_masks ops c token_len 0 None None False"

section \<open>The longest common hit\<close>

record hit_state =
  hs_blocks :: "bool list option list"
  hs_lengths :: "int list"
  hs_eagle_verified :: "nat list"
  hs_curr :: int

fun set_groups :: "nat list \<Rightarrow> bool list list \<Rightarrow> int \<Rightarrow> hit_state \<Rightarrow> hit_state result" where
  "set_groups [] [] n st = Inr st"
| "set_groups (g # gs) (b # bs) n st =
     set_groups gs bs n (st\<lparr>hs_blocks := (hs_blocks st)[g := Some b], hs_lengths := (hs_lengths st)[g := n]\<rparr>)"
| "set_groups _ _ n st = Inl ValueError"

text \<open>One spec group in one round.\<close>

definition group_pass ::
    "vllm_ops \<Rightarrow> coordinator \<Rightarrow> byte list list \<Rightarrow> int \<Rightarrow> ext_pool \<Rightarrow> bool \<Rightarrow> nat \<times> spec_group \<Rightarrow> hit_state \<Rightarrow> hit_state result" where
  "group_pass ops c hashes max_length pool apply_eagle x st =
     (let idx = fst x; g = snd x; spec = sg_spec g; first = hd (sg_group_ids g); curr = hs_curr st in
      if is_full spec \<and> hs_blocks st ! first \<noteq> None
      then Inr (st\<lparr>hs_curr := min curr (hs_lengths st ! first)\<rparr>)
      else let drop_eagle = (apply_eagle \<and> sg_use_eagle g \<and> idx \<notin> set (hs_eagle_verified st));
               margin = (if co_enable_partial_hash_hits c \<and> vo_fine_grained ops spec \<and> co_hash_block_size c < ks_block_size spec
                         then co_hash_block_size c else ks_block_size spec);
               bound = (if drop_eagle \<and> \<not> is_mamba spec then min (curr + margin) max_length else curr);
               (blocks, new) = vo_find ops spec hashes bound (sg_group_ids g) pool drop_eagle (co_alignment c);
               verified = (if drop_eagle then idx # hs_eagle_verified st
                           else if new < curr then [] else hs_eagle_verified st)
           in set_groups (sg_group_ids g) blocks new (st\<lparr>hs_eagle_verified := verified, hs_curr := new\<rparr>))"

definition round_pass ::
    "vllm_ops \<Rightarrow> coordinator \<Rightarrow> byte list list \<Rightarrow> int \<Rightarrow> ext_pool \<Rightarrow> bool \<Rightarrow> hit_state \<Rightarrow> hit_state result" where
  "round_pass ops c hashes max_length pool apply_eagle st =
     fold_res (group_pass ops c hashes max_length pool apply_eagle) (List.enumerate 0 (co_attention_groups c)) st"

definition is_simple_hybrid :: "coordinator \<Rightarrow> bool" where
  "is_simple_hybrid c \<longleftrightarrow> length (co_attention_groups c) = 2 \<and> is_full (sg_spec (co_attention_groups c ! 0))"

text \<open>The \<open>while True\<close> loop; \<open>None\<close> is a loop that never ends.\<close>

partial_function (option) hit_loop ::
    "vllm_ops \<Rightarrow> coordinator \<Rightarrow> byte list list \<Rightarrow> int \<Rightarrow> ext_pool \<Rightarrow> bool \<Rightarrow> hit_state \<Rightarrow> int \<Rightarrow> (hit_state \<times> int) result option" where
  "hit_loop ops c hashes max_length pool apply_eagle st hit_length =
     (case round_pass ops c hashes max_length pool apply_eagle (st\<lparr>hs_curr := hit_length\<rparr>) of
        Inl e \<Rightarrow> Some (Inl e)
      | Inr st' \<Rightarrow>
          if hit_length \<le> hs_curr st' then Some (Inr (st', hit_length))
          else if is_simple_hybrid c then Some (Inr (st', hs_curr st'))
          else hit_loop ops c hashes max_length pool apply_eagle st' (hs_curr st'))"

declare hit_loop.simps [code]

text \<open>Truncate the blocks of full attention groups to the converged length.\<close>

definition truncate_group :: "vllm_ops \<Rightarrow> int \<Rightarrow> spec_group \<Rightarrow> bool list option list \<Rightarrow> bool list option list result" where
  "truncate_group ops hit_length g blocks =
     (if \<not> is_full (sg_spec g) then Inr blocks
      else fold_res (\<lambda>gid bs. case bs ! gid of
              None \<Rightarrow> Inl AssertionError
            | Some full \<Rightarrow> Inr (bs[gid := Some (py_slice full 0 (vo_cdiv ops hit_length (ks_block_size (sg_spec g))))]))
            (sg_group_ids g) blocks)"

definition find_hit_blocks ::
    "vllm_ops \<Rightarrow> coordinator \<Rightarrow> byte list list \<Rightarrow> int \<Rightarrow> ext_pool \<Rightarrow> bool \<Rightarrow> (bool list list \<times> int) result option" where
  "find_hit_blocks ops c hashes max_length pool apply_eagle =
     (let n = length (co_groups c) in
      case co_attention_groups c of
        [g] \<Rightarrow>
          let (blocks, hit_length) = vo_find ops (sg_spec g) hashes max_length (sg_group_ids g) pool
                                       (apply_eagle \<and> sg_use_eagle g) (co_alignment c)
          in Some (bind_res (set_groups (sg_group_ids g) blocks hit_length
                     \<lparr>hs_blocks = replicate n (Some []), hs_lengths = replicate n 0, hs_eagle_verified = [], hs_curr = 0\<rparr>)
                   (\<lambda>st. Inr (map the (hs_blocks st), hit_length)))
      | ags \<Rightarrow>
          map_option (\<lambda>r. bind_res r (\<lambda>(st, hit_length).
              bind_res (fold_res (truncate_group ops hit_length) ags (hs_blocks st)) (\<lambda>blocks.
                Inr (map (\<lambda>b. case b of None \<Rightarrow> [] | Some bs \<Rightarrow> bs) blocks, hit_length))))
            (hit_loop ops c hashes max_length pool apply_eagle
               \<lparr>hs_blocks = replicate n None, hs_lengths = replicate n 0, hs_eagle_verified = [], hs_curr = max_length\<rparr> max_length))"

text \<open>\<open>find_longest_cache_hit\<close>: the masks and the hit length.\<close>

definition find_longest_cache_hit ::
    "vllm_ops \<Rightarrow> coordinator \<Rightarrow> byte list list \<Rightarrow> int \<Rightarrow> ext_pool \<Rightarrow> bool \<Rightarrow> (bool list list \<times> int) result option" where
  "find_longest_cache_hit ops c hashes max_length pool apply_eagle =
     find_hit_blocks ops c hashes max_length pool apply_eagle"

definition load_mask :: "vllm_ops \<Rightarrow> coordinator \<Rightarrow> byte list list \<Rightarrow> int \<Rightarrow> bool list list result option" where
  "load_mask ops c hashes token_len =
     map_option (\<lambda>r. bind_res r (\<lambda>(masks, _). Inr masks)) (find_longest_cache_hit ops c hashes token_len None False)"

section \<open>Well-formed group lists\<close>

definition wf_groups :: "spec_group list \<Rightarrow> nat \<Rightarrow> bool" where
  "wf_groups ags n \<longleftrightarrow> distinct (concat (map sg_group_ids ags)) \<and>
     (\<forall>g \<in> set ags. sg_group_ids g \<noteq> [] \<and> set (sg_group_ids g) \<subseteq> {..<n})"

lemma join_group_ids: "mset (concat (map sg_group_ids (join_group spec i e gs))) = add_mset i (mset (concat (map sg_group_ids gs)))"
  by (induction spec i e gs rule: join_group.induct) auto

lemma join_group_nonempty: "(\<forall>g \<in> set gs. sg_group_ids g \<noteq> []) \<Longrightarrow> \<forall>g \<in> set (join_group spec i e gs). sg_group_ids g \<noteq> []"
  by (induction spec i e gs rule: join_group.induct) auto

lemma split_groups:
  assumes "fold_res (split_step ops) (List.enumerate k groups) acc = Inr acc'"
    and "distinct (concat (map sg_group_ids acc))" "set (concat (map sg_group_ids acc)) \<subseteq> {..<k}"
    and "\<forall>g \<in> set acc. sg_group_ids g \<noteq> []"
  shows "distinct (concat (map sg_group_ids acc')) \<and> set (concat (map sg_group_ids acc')) \<subseteq> {..<k + length groups} \<and>
    (\<forall>g \<in> set acc'. sg_group_ids g \<noteq> [])"
  using assms
proof (induction groups arbitrary: k acc)
  case (Cons g groups)
  then obtain acc1 where s: "split_step ops (k, g) acc = Inr acc1"
    and r: "fold_res (split_step ops) (List.enumerate (Suc k) groups) acc1 = Inr acc'" by (auto simp: bind_res_eq_Inr)
  consider "acc1 = acc" | "acc1 = join_group (unwrap_spec g) k (kg_is_eagle_group g) acc"
    using s by (auto simp: split_step_def Let_def split: if_splits)
  then have "distinct (concat (map sg_group_ids acc1)) \<and> set (concat (map sg_group_ids acc1)) \<subseteq> {..<Suc k} \<and>
      (\<forall>g \<in> set acc1. sg_group_ids g \<noteq> [])"
  proof cases
    case 1
    then show ?thesis using Cons.prems(2-4) by (auto simp: less_Suc_eq)
  next
    case 2
    then have m: "mset (concat (map sg_group_ids acc1)) = mset (k # concat (map sg_group_ids acc))"
      using join_group_ids by simp
    moreover have "k \<notin> set (concat (map sg_group_ids acc))" using Cons.prems(3) by auto
    ultimately have "distinct (concat (map sg_group_ids acc1))"
      using Cons.prems(2) mset_eq_imp_distinct_iff[OF m] by simp
    moreover have "set (concat (map sg_group_ids acc1)) = insert k (set (concat (map sg_group_ids acc)))"
      using mset_eq_setD[OF m] by simp
    then have "set (concat (map sg_group_ids acc1)) \<subseteq> {..<Suc k}" using Cons.prems(3) by auto
    ultimately show ?thesis using join_group_nonempty[of acc] Cons.prems(4) 2 by simp
  qed
  then show ?case using Cons.IH[OF r] by simp
qed simp

lemma coordinator_wf:
  assumes "MooncakeStoreCoordinator ops groups sbs hbs eagle ret dcp = Inr c"
  shows "wf_groups (co_attention_groups c) (length (co_groups c))"
proof -
  obtain acc where acc: "fold_res (split_step ops) (List.enumerate 0 groups) [] = Inr acc"
    and "co_groups c = groups"
    and ags: "map sg_group_ids (co_attention_groups c) =
       map sg_group_ids (filter (is_full \<circ> sg_spec) acc @ filter (Not \<circ> is_full \<circ> sg_spec) acc)"
    using assms by (auto simp: MooncakeStoreCoordinator_def verify_and_split_def bind_res_eq_Inr Let_def o_def split: if_splits)
  have w: "distinct (concat (map sg_group_ids acc))" "set (concat (map sg_group_ids acc)) \<subseteq> {..<length groups}"
    "\<forall>g \<in> set acc. sg_group_ids g \<noteq> []"
    using split_groups[OF acc] by auto
  let ?sorted = "filter (is_full \<circ> sg_spec) acc @ filter (Not \<circ> is_full \<circ> sg_spec) acc"
  have "mset ?sorted = mset acc" using multiset_partition[of "mset acc" "\<lambda>g. is_full (sg_spec g)"] by (simp add: o_def)
  then have m: "mset (concat (map sg_group_ids (co_attention_groups c))) = mset (concat (map sg_group_ids acc))"
    unfolding ags mset_concat by (metis mset_map sum_mset_sum_list)
  have "xs \<noteq> [] \<and> set xs \<subseteq> set (concat (map sg_group_ids acc))" if "xs \<in> set (map sg_group_ids (co_attention_groups c))" for xs
    using that w(3) unfolding ags by auto
  then have "sg_group_ids g \<noteq> [] \<and> set (sg_group_ids g) \<subseteq> set (concat (map sg_group_ids acc))" if "g \<in> set (co_attention_groups c)" for g
    using that by simp
  then show ?thesis using w(1,2) mset_eq_imp_distinct_iff[OF m] \<open>co_groups c = groups\<close>
    unfolding wf_groups_def by blast
qed

section \<open>The search ends\<close>

text \<open>What is used of the hit finders: one list of blocks per group, and a length that is not negative and within the bound.\<close>

definition finder_bounded :: "vllm_ops \<Rightarrow> bool" where
  "finder_bounded ops \<longleftrightarrow> (\<forall>spec hashes b gids pool de al.
     length (fst (vo_find ops spec hashes b gids pool de al)) = length gids \<and>
     0 \<le> snd (vo_find ops spec hashes b gids pool de al) \<and>
     (0 \<le> b \<longrightarrow> snd (vo_find ops spec hashes b gids pool de al) \<le> b))"

text \<open>\<open>assigned gs n st st'\<close>: the groups \<open>gs\<close> have got blocks and the length \<open>n\<close>, the others are as before.\<close>

definition assigned :: "nat list \<Rightarrow> int \<Rightarrow> hit_state \<Rightarrow> hit_state \<Rightarrow> bool" where
  "assigned gs n st st' \<longleftrightarrow>
     length (hs_blocks st') = length (hs_blocks st) \<and> length (hs_lengths st') = length (hs_lengths st) \<and>
     (\<forall>k < length (hs_blocks st). hs_blocks st' ! k = None \<longleftrightarrow> k \<notin> set gs \<and> hs_blocks st ! k = None) \<and>
     (\<forall>k < length (hs_lengths st). hs_lengths st' ! k = (if k \<in> set gs then n else hs_lengths st ! k))"

lemma list_update_at: "k < length xs \<Longrightarrow> xs[g := x] ! k = (if k = g then x else xs ! k)"
  by (cases "k = g") auto

lemma set_groups_Inr: "length gs = length bs \<Longrightarrow> \<exists>st'. set_groups gs bs n st = Inr st' \<and> hs_curr st' = hs_curr st \<and> assigned gs n st st'"
proof (induction gs bs n st rule: set_groups.induct)
  case (2 g gs b bs n st)
  then obtain st' where st': "set_groups (g # gs) (b # bs) n st = Inr st' \<and> hs_curr st' = hs_curr st"
    "assigned gs n (st\<lparr>hs_blocks := (hs_blocks st)[g := Some b], hs_lengths := (hs_lengths st)[g := n]\<rparr>) st'" by auto
  from st'(2) have "assigned (g # gs) n st st'"
    unfolding assigned_def by (auto simp: list_update_at)
  then show ?case using st'(1) by blast
qed (auto simp: assigned_def)

definition hit_wf :: "coordinator \<Rightarrow> hit_state \<Rightarrow> bool" where
  "hit_wf c st \<longleftrightarrow> length (hs_blocks st) = length (co_groups c) \<and> length (hs_lengths st) = length (co_groups c)"

text \<open>A group that full attention has answered before only caps the length; any other is searched.\<close>

lemma group_pass_cases:
  assumes "finder_bounded ops"
  obtains (kept) "is_full (sg_spec (snd x))" "hs_blocks st ! hd (sg_group_ids (snd x)) \<noteq> None"
      "group_pass ops c hashes mx pool ae x st = Inr (st\<lparr>hs_curr := min (hs_curr st) (hs_lengths st ! hd (sg_group_ids (snd x)))\<rparr>)"
    | (found) b de st' where "ae = False \<longrightarrow> b = hs_curr st \<and> de = False"
      "group_pass ops c hashes mx pool ae x st = Inr st'"
      "hs_curr st' = snd (vo_find ops (sg_spec (snd x)) hashes b (sg_group_ids (snd x)) pool de (co_alignment c))"
      "assigned (sg_group_ids (snd x)) (hs_curr st') st st'"
proof (cases "is_full (sg_spec (snd x)) \<and> hs_blocks st ! hd (sg_group_ids (snd x)) \<noteq> None")
  case True
  then show ?thesis by (intro kept) (auto simp: group_pass_def Let_def)
next
  case False
  let ?gs = "sg_group_ids (snd x)"
  define de where "de = (ae \<and> sg_use_eagle (snd x) \<and> fst x \<notin> set (hs_eagle_verified st))"
  define b where "b = (if de \<and> \<not> is_mamba (sg_spec (snd x)) then min (hs_curr st +
      (if co_enable_partial_hash_hits c \<and> vo_fine_grained ops (sg_spec (snd x)) \<and> co_hash_block_size c < ks_block_size (sg_spec (snd x))
       then co_hash_block_size c else ks_block_size (sg_spec (snd x)))) mx else hs_curr st)"
  have b: "ae = False \<longrightarrow> b = hs_curr st" by (simp add: b_def de_def)
  have g: "group_pass ops c hashes mx pool ae x st =
      (case vo_find ops (sg_spec (snd x)) hashes b ?gs pool de (co_alignment c) of (blocks, new) \<Rightarrow>
         set_groups ?gs blocks new (st\<lparr>hs_eagle_verified := if de then fst x # hs_eagle_verified st
             else if new < hs_curr st then [] else hs_eagle_verified st, hs_curr := new\<rparr>))"
    unfolding group_pass_def Let_def if_not_P[OF False] b_def[symmetric] de_def[symmetric] by (rule refl)
  obtain blocks new where f: "vo_find ops (sg_spec (snd x)) hashes b ?gs pool de (co_alignment c) = (blocks, new)"
    by fastforce
  let ?st = "st\<lparr>hs_eagle_verified := if de then fst x # hs_eagle_verified st
             else if new < hs_curr st then [] else hs_eagle_verified st, hs_curr := new\<rparr>"
  have "length ?gs = length blocks" using assms f unfolding finder_bounded_def by (metis fst_conv)
  then obtain st' where "set_groups ?gs blocks new ?st = Inr st'" "hs_curr st' = new" "assigned ?gs new ?st st'"
    using set_groups_Inr[of ?gs blocks new ?st] by auto
  then show ?thesis using b f g by (intro found[of b de st']) (auto simp: assigned_def de_def)
qed

definition hit_ok :: "coordinator \<Rightarrow> hit_state \<Rightarrow> bool" where
  "hit_ok c st \<longleftrightarrow> length (hs_blocks st) = length (co_groups c) \<and> length (hs_lengths st) = length (co_groups c) \<and>
     0 \<le> hs_curr st \<and> (\<forall>k < length (co_groups c). 0 \<le> hs_lengths st ! k) \<and>
     (\<forall>g \<in> set (co_attention_groups c). hs_blocks st ! hd (sg_group_ids g) \<noteq> None \<longrightarrow>
        (\<forall>k \<in> set (sg_group_ids g). hs_blocks st ! k \<noteq> None))"

lemma wf_groupsD:
  assumes "wf_groups ags n" "g \<in> set ags"
  shows "sg_group_ids g \<noteq> []" "\<And>k. k \<in> set (sg_group_ids g) \<Longrightarrow> k < n" "hd (sg_group_ids g) < n"
    "hd (sg_group_ids g) \<in> set (sg_group_ids g)"
  using assms by (auto simp: wf_groups_def subset_iff)

lemma distinct_concat_apart:
  "distinct (concat (map f xs)) \<Longrightarrow> g \<in> set xs \<Longrightarrow> g' \<in> set xs \<Longrightarrow> g \<noteq> g' \<Longrightarrow> set (f g) \<inter> set (f g') = {}"
  by (induction xs) auto

lemma wf_groups_apart:
  assumes "wf_groups ags n" "g \<in> set ags" "g' \<in> set ags" "g \<noteq> g'" "k \<in> set (sg_group_ids g)"
  shows "k \<notin> set (sg_group_ids g')"
  using distinct_concat_apart[of sg_group_ids ags g g'] assms by (auto simp: wf_groups_def)

lemma group_pass_ok:
  assumes "finder_bounded ops" and wf: "wf_groups (co_attention_groups c) (length (co_groups c))"
    and x: "snd x \<in> set (co_attention_groups c)" and ok: "hit_ok c st"
  shows "\<exists>st'. group_pass ops c hashes mx pool ae x st = Inr st' \<and> hit_ok c st' \<and>
    (\<forall>k < length (co_groups c). hs_blocks st ! k \<noteq> None \<longrightarrow> hs_blocks st' ! k \<noteq> None) \<and>
    (\<forall>k \<in> set (sg_group_ids (snd x)). hs_blocks st' ! k \<noteq> None)"
proof (cases rule: group_pass_cases[OF assms(1), of x st c hashes mx pool ae, case_names kept found])
  case kept
  then show ?thesis using ok x wf_groupsD(3)[OF wf x] by (auto simp: hit_ok_def)
next
  case (found b de st')
  have len: "length (hs_blocks st) = length (co_groups c)" "length (hs_lengths st) = length (co_groups c)"
    using ok by (auto simp: hit_ok_def)
  have blk: "hs_blocks st' ! k = None \<longleftrightarrow> k \<notin> set (sg_group_ids (snd x)) \<and> hs_blocks st ! k = None" if "k < length (co_groups c)" for k
    using found(4) len that by (simp add: assigned_def)
  note ids = wf_groupsD[OF wf]
  have "hs_blocks st' ! k \<noteq> None" if g: "g \<in> set (co_attention_groups c)" "hs_blocks st' ! hd (sg_group_ids g) \<noteq> None"
      "k \<in> set (sg_group_ids g)" for g k
  proof (cases "g = snd x")
    case True
    then show ?thesis using blk ids(2)[OF g(1,3)] g(3) by simp
  next
    case False
    then have "hd (sg_group_ids g) \<notin> set (sg_group_ids (snd x))"
      using wf_groups_apart[OF wf g(1) x False] ids(4)[OF g(1)] by simp
    then have "hs_blocks st ! hd (sg_group_ids g) \<noteq> None" using blk ids(3)[OF g(1)] g(2) by simp
    then have "hs_blocks st ! k \<noteq> None" using ok g(1,3) by (auto simp: hit_ok_def)
    then show ?thesis using blk ids(2)[OF g(1,3)] by simp
  qed
  moreover have "0 \<le> hs_curr st'" using found(3) assms(1) by (simp add: finder_bounded_def)
  ultimately have "hit_ok c st'" using found(4) len ok by (auto simp: hit_ok_def assigned_def)
  then show ?thesis using found(2) blk ids(2)[OF x] by (intro exI[of _ st']) auto
qed

lemma round_pass_ok:
  assumes "finder_bounded ops" "wf_groups (co_attention_groups c) (length (co_groups c))"
  shows "hit_ok c st \<Longrightarrow> \<exists>st'. round_pass ops c hashes mx pool ae st = Inr st' \<and> hit_ok c st' \<and>
    (\<forall>g \<in> set (co_attention_groups c). \<forall>k \<in> set (sg_group_ids g). hs_blocks st' ! k \<noteq> None)"
proof -
  have "\<exists>st'. fold_res (group_pass ops c hashes mx pool ae) xs st = Inr st' \<and> hit_ok c st' \<and>
      (\<forall>k < length (co_groups c). hs_blocks st ! k \<noteq> None \<longrightarrow> hs_blocks st' ! k \<noteq> None) \<and>
      (\<forall>x \<in> set xs. \<forall>k \<in> set (sg_group_ids (snd x)). hs_blocks st' ! k \<noteq> None)"
    if "snd ` set xs \<subseteq> set (co_attention_groups c)" "hit_ok c st" for xs st
    using that
  proof (induction xs arbitrary: st)
    case (Cons x xs)
    then obtain st1 where st1: "group_pass ops c hashes mx pool ae x st = Inr st1" "hit_ok c st1"
      "\<forall>k < length (co_groups c). hs_blocks st ! k \<noteq> None \<longrightarrow> hs_blocks st1 ! k \<noteq> None"
      "\<forall>k \<in> set (sg_group_ids (snd x)). hs_blocks st1 ! k \<noteq> None"
      using group_pass_ok[OF assms, of x st hashes mx pool ae] by auto
    obtain st' where st': "fold_res (group_pass ops c hashes mx pool ae) xs st1 = Inr st'" "hit_ok c st'"
      "\<forall>k < length (co_groups c). hs_blocks st1 ! k \<noteq> None \<longrightarrow> hs_blocks st' ! k \<noteq> None"
      "\<forall>x \<in> set xs. \<forall>k \<in> set (sg_group_ids (snd x)). hs_blocks st' ! k \<noteq> None"
      using Cons.IH[OF _ st1(2)] Cons.prems(1) by auto
    have "k < length (co_groups c)" if "k \<in> set (sg_group_ids (snd x))" for k
      using wf_groupsD(2)[OF assms(2) _ that] Cons.prems(1) by auto
    then show ?case using st1 st' by (intro exI[of _ st']) auto
  qed auto
  note fold = this[of "List.enumerate 0 (co_attention_groups c)" st]
  have e: "snd ` set (List.enumerate 0 (co_attention_groups c)) = set (co_attention_groups c)"
    by (metis list.set_map map_snd_enumerate)
  assume "hit_ok c st"
  with fold e obtain st' where st': "fold_res (group_pass ops c hashes mx pool ae) (List.enumerate 0 (co_attention_groups c)) st = Inr st'"
    "hit_ok c st'" "\<forall>x \<in> set (List.enumerate 0 (co_attention_groups c)). \<forall>k \<in> set (sg_group_ids (snd x)). hs_blocks st' ! k \<noteq> None"
    by blast
  have "hs_blocks st' ! k \<noteq> None" if "g \<in> set (co_attention_groups c)" "k \<in> set (sg_group_ids g)" for g k
    using st'(3) that e by (metis (no_types, lifting) imageE)
  then show ?thesis using st'(1,2) unfolding round_pass_def by blast
qed

lemma hit_loop_ends:
  assumes "finder_bounded ops" "wf_groups (co_attention_groups c) (length (co_groups c))"
  shows "hit_ok c st \<Longrightarrow> 0 \<le> n \<Longrightarrow> \<exists>st' n'. hit_loop ops c hashes mx pool ae st n = Some (Inr (st', n')) \<and>
    0 \<le> n' \<and> n' \<le> n \<and> hit_ok c st' \<and>
    (\<forall>g \<in> set (co_attention_groups c). \<forall>k \<in> set (sg_group_ids g). hs_blocks st' ! k \<noteq> None)"
proof (induction "nat n" arbitrary: n st rule: less_induct)
  case less
  have "hit_ok c (st\<lparr>hs_curr := n\<rparr>)" using less.prems by (simp add: hit_ok_def)
  then obtain st' where st': "round_pass ops c hashes mx pool ae (st\<lparr>hs_curr := n\<rparr>) = Inr st'" "hit_ok c st'"
    "\<forall>g \<in> set (co_attention_groups c). \<forall>k \<in> set (sg_group_ids g). hs_blocks st' ! k \<noteq> None"
    using round_pass_ok[OF assms] by blast
  have c0: "0 \<le> hs_curr st'" using st'(2) by (simp add: hit_ok_def)
  show ?case
  proof (cases "n \<le> hs_curr st' \<or> is_simple_hybrid c")
    case True
    then show ?thesis using st' c0 less.prems(2) by (subst hit_loop.simps) auto
  next
    case False
    then have "nat (hs_curr st') < nat n" using c0 by simp
    from less.hyps[OF this st'(2) c0] show ?thesis using False st'(1)
      by (subst hit_loop.simps) auto
  qed
qed

lemma truncate_groups_Inr:
  assumes "\<forall>g \<in> set gs. \<forall>k \<in> set (sg_group_ids g). k < length bs \<and> bs ! k \<noteq> None"
  shows "\<exists>bs'. fold_res (truncate_group ops n) gs bs = Inr bs' \<and> length bs' = length bs"
proof -
  have one: "\<exists>bs'. fold_res (\<lambda>gid bs. case bs ! gid of None \<Rightarrow> Inl AssertionError | Some full \<Rightarrow> Inr (bs[gid := Some (f full)])) ks bs = Inr bs' \<and>
      length bs' = length bs \<and> (\<forall>k < length bs. bs ! k \<noteq> None \<longrightarrow> bs' ! k \<noteq> None)"
    if "\<forall>k \<in> set ks. k < length bs \<and> bs ! k \<noteq> None" for ks f and bs :: "bool list option list"
    using that
  proof (induction ks arbitrary: bs)
    case (Cons k ks)
    then obtain full where full: "bs ! k = Some full" "k < length bs" by auto
    have "\<forall>j \<in> set ks. j < length (bs[k := Some (f full)]) \<and> bs[k := Some (f full)] ! j \<noteq> None"
      using Cons.prems by (auto simp: list_update_at)
    from Cons.IH[OF this] show ?case using full by (auto simp: list_update_at)
  qed simp
  show ?thesis using assms
  proof (induction gs arbitrary: bs)
    case (Cons g gs)
    obtain bs1 where bs1: "truncate_group ops n g bs = Inr bs1" "length bs1 = length bs"
      "\<forall>k < length bs. bs ! k \<noteq> None \<longrightarrow> bs1 ! k \<noteq> None"
    proof (cases "is_full (sg_spec g)")
      case True
      then show ?thesis using one[of "sg_group_ids g" bs "\<lambda>full. py_slice full 0 (vo_cdiv ops n (ks_block_size (sg_spec g)))"] Cons.prems that
        by (auto simp: truncate_group_def)
    qed (use that[of bs] in \<open>simp add: truncate_group_def\<close>)
    then have "\<forall>g \<in> set gs. \<forall>k \<in> set (sg_group_ids g). k < length bs1 \<and> bs1 ! k \<noteq> None" using Cons.prems by simp
    from Cons.IH[OF this] show ?case using bs1 by auto
  qed simp
qed

lemma longest_hit_total:
  assumes "MooncakeStoreCoordinator ops groups sbs hbs eagle ret dcp = Inr c"
    and "finder_bounded ops" and "0 \<le> max_length"
  shows "\<exists>masks n. find_longest_cache_hit ops c hashes max_length pool ae = Some (Inr (masks, n)) \<and>
    length masks = length groups \<and> 0 \<le> n \<and> n \<le> max_length"
proof -
  have wf: "wf_groups (co_attention_groups c) (length (co_groups c))" by (rule coordinator_wf[OF assms(1)])
  have gr: "co_groups c = groups"
    using assms(1) by (auto simp: MooncakeStoreCoordinator_def bind_res_eq_Inr Let_def split: if_splits)
  let ?n = "length (co_groups c)"
  let ?st0 = "\<lparr>hs_blocks = replicate ?n None, hs_lengths = replicate ?n 0, hs_eagle_verified = [], hs_curr = max_length\<rparr>"
  show ?thesis
  proof (cases "\<exists>g. co_attention_groups c = [g]")
    case True
    then obtain g where g: "co_attention_groups c = [g]" by blast
    obtain blocks h where f: "vo_find ops (sg_spec g) hashes max_length (sg_group_ids g) pool (ae \<and> sg_use_eagle g) (co_alignment c) = (blocks, h)"
      by fastforce
    have "length (sg_group_ids g) = length blocks" "0 \<le> h" "h \<le> max_length"
      using assms(2,3) f unfolding finder_bounded_def by (metis fst_conv snd_conv)+
    moreover obtain st where "set_groups (sg_group_ids g) blocks h
        \<lparr>hs_blocks = replicate ?n (Some []), hs_lengths = replicate ?n 0, hs_eagle_verified = [], hs_curr = 0\<rparr> = Inr st"
      "length (hs_blocks st) = ?n"
      using set_groups_Inr[OF calculation(1), of h] by (fastforce simp: assigned_def)
    ultimately show ?thesis using g f gr by (simp add: find_longest_cache_hit_def find_hit_blocks_def Let_def)
  next
    case False
    have "hit_ok c ?st0"
      using assms(3) wf_groupsD(3)[OF wf] by (auto simp: hit_ok_def)
    then obtain st h where l: "hit_loop ops c hashes max_length pool ae ?st0 max_length = Some (Inr (st, h))"
      "0 \<le> h" "h \<le> max_length" "hit_ok c st"
      "\<forall>g \<in> set (co_attention_groups c). \<forall>k \<in> set (sg_group_ids g). hs_blocks st ! k \<noteq> None"
      using hit_loop_ends[OF assms(2) wf _ assms(3)] by blast
    have "\<exists>bs. fold_res (truncate_group ops h) (co_attention_groups c) (hs_blocks st) = Inr bs \<and> length bs = length (hs_blocks st)"
      using l(4,5) wf_groupsD(2)[OF wf] by (intro truncate_groups_Inr) (auto simp: hit_ok_def)
    then obtain bs where "fold_res (truncate_group ops h) (co_attention_groups c) (hs_blocks st) = Inr bs" "length bs = ?n"
      using l(4) by (auto simp: hit_ok_def)
    then show ?thesis using l(1-3) gr False
      by (auto simp: find_longest_cache_hit_def find_hit_blocks_def Let_def split: list.splits)
  qed
qed

text \<open>
  C34: The search for the longest prefix that all KV-cache groups can reuse always ends, for any
  groups, any stored blocks and with or without the draft-model rule: the loop that shrinks the
  length until the groups agree returns, it does not raise, and the length it returns is between 0
  and the length it was asked for.  Only bounds are assumed of the per-group finders.
\<close>

theorem longest_hit_terminates:
  assumes "MooncakeStoreCoordinator ops groups sbs hbs eagle ret dcp = Inr c"
    and "finder_bounded ops" and "0 \<le> max_length"
  shows "\<exists>masks n. find_longest_cache_hit ops c hashes max_length pool ae = Some (Inr (masks, n)) \<and>
    length masks = length groups \<and> 0 \<le> n \<and> n \<le> max_length"
  by (rule longest_hit_total[OF assms])

section \<open>The search finds the longest common prefix\<close>

text \<open>The length a group's finder answers for a bound, without the draft-model rule.\<close>

definition hit_of :: "vllm_ops \<Rightarrow> int \<Rightarrow> byte list list \<Rightarrow> ext_pool \<Rightarrow> spec_group \<Rightarrow> int \<Rightarrow> int" where
  "hit_of ops al hashes pool g b = snd (vo_find ops (sg_spec g) hashes b (sg_group_ids g) pool False al)"

text \<open>
  What a longest-hit finder promises: an aligned length, monotone in the bound, that is itself a hit;
  a shorter aligned prefix of a full-attention hit is a hit.
\<close>

definition finder_laws :: "vllm_ops \<Rightarrow> int \<Rightarrow> byte list list \<Rightarrow> ext_pool \<Rightarrow> bool" where
  "finder_laws ops al hashes pool \<longleftrightarrow> (\<forall>g b. 0 \<le> b \<longrightarrow>
     al dvd hit_of ops al hashes pool g b \<and>
     hit_of ops al hashes pool g (hit_of ops al hashes pool g b) = hit_of ops al hashes pool g b \<and>
     (\<forall>b'. b \<le> b' \<longrightarrow> hit_of ops al hashes pool g b \<le> hit_of ops al hashes pool g b') \<and>
     (\<forall>n. is_full (sg_spec g) \<and> 0 \<le> n \<and> al dvd n \<and> n \<le> hit_of ops al hashes pool g b \<longrightarrow> hit_of ops al hashes pool g n = n))"

lemma hit_of_bounds: "finder_bounded ops \<Longrightarrow> 0 \<le> b \<Longrightarrow> 0 \<le> hit_of ops al hashes pool g b \<and> hit_of ops al hashes pool g b \<le> b"
  by (simp add: hit_of_def finder_bounded_def)

text \<open>Invariant of the search relative to a length \<open>m\<close> that all groups accept.\<close>

definition hit_inv :: "vllm_ops \<Rightarrow> coordinator \<Rightarrow> byte list list \<Rightarrow> ext_pool \<Rightarrow> int \<Rightarrow> hit_state \<Rightarrow> bool" where
  "hit_inv ops c hashes pool m st \<longleftrightarrow> hit_ok c st \<and> co_alignment c dvd hs_curr st \<and> m \<le> hs_curr st \<and>
     (\<forall>g \<in> set (co_attention_groups c). is_full (sg_spec g) \<and> hs_blocks st ! hd (sg_group_ids g) \<noteq> None \<longrightarrow>
        m \<le> hs_lengths st ! hd (sg_group_ids g) \<and>
        (\<exists>b \<ge> 0. hs_lengths st ! hd (sg_group_ids g) = hit_of ops (co_alignment c) hashes pool g b))"

definition common_hit :: "vllm_ops \<Rightarrow> coordinator \<Rightarrow> byte list list \<Rightarrow> ext_pool \<Rightarrow> int \<Rightarrow> bool" where
  "common_hit ops c hashes pool m \<longleftrightarrow> 0 \<le> m \<and>
     (\<forall>g \<in> set (co_attention_groups c). hit_of ops (co_alignment c) hashes pool g m = m)"

lemma group_pass_inv:
  assumes fb: "finder_bounded ops" and laws: "finder_laws ops (co_alignment c) hashes pool"
    and wf: "wf_groups (co_attention_groups c) (length (co_groups c))"
    and x: "snd x \<in> set (co_attention_groups c)" and inv: "hit_inv ops c hashes pool m st"
    and m: "common_hit ops c hashes pool m"
  shows "\<exists>st'. group_pass ops c hashes mx pool False x st = Inr st' \<and> hit_inv ops c hashes pool m st' \<and>
    hs_curr st' \<le> hs_curr st \<and>
    (hs_curr st' = hs_curr st \<longrightarrow> hit_of ops (co_alignment c) hashes pool (snd x) (hs_curr st) = hs_curr st) \<and>
    (hs_blocks st ! hd (sg_group_ids (snd x)) = None \<longrightarrow> hs_curr st' = hit_of ops (co_alignment c) hashes pool (snd x) (hs_curr st))"
proof -
  let ?F = "hit_of ops (co_alignment c) hashes pool" and ?h = "hd (sg_group_ids (snd x))"
  have ok: "hit_ok c st" and cur: "0 \<le> hs_curr st" "co_alignment c dvd hs_curr st" "m \<le> hs_curr st"
    using inv by (auto simp: hit_inv_def hit_ok_def)
  have m0: "0 \<le> m" "?F (snd x) m = m" using m x by (auto simp: common_hit_def)
  obtain st1 where st1: "group_pass ops c hashes mx pool False x st = Inr st1" "hit_ok c st1"
    using group_pass_ok[OF fb wf x ok] by blast
  show ?thesis
  proof (cases rule: group_pass_cases[OF fb, of x st c hashes mx pool False, case_names kept found])
    case kept
    obtain b where b: "0 \<le> b" "hs_lengths st ! ?h = ?F (snd x) b" "m \<le> hs_lengths st ! ?h"
      using inv x kept(1,2) unfolding hit_inv_def by blast
    have st1': "st1 = st\<lparr>hs_curr := min (hs_curr st) (hs_lengths st ! ?h)\<rparr>" using kept(3) st1(1) by simp
    have "co_alignment c dvd hs_lengths st ! ?h" using laws b(1,2) by (simp add: finder_laws_def)
    then have "hit_inv ops c hashes pool m st1" using inv cur b(3) st1(2) unfolding st1'
      by (auto simp: hit_inv_def min_def)
    moreover have "?F (snd x) (hs_curr st) = hs_curr st" if "hs_curr st1 = hs_curr st"
    proof -
      have "hs_curr st \<le> ?F (snd x) b" using that b(2) unfolding st1' by simp
      then show ?thesis using laws b(1) cur(1,2) kept(1) unfolding finder_laws_def by blast
    qed
    ultimately show ?thesis using st1(1) kept(2) unfolding st1' by auto
  next
    case (found b de st')
    then have st': "st' = st1" and new: "hs_curr st1 = ?F (snd x) (hs_curr st)" using st1(1) by (auto simp: hit_of_def)
    have mono: "?F (snd x) m \<le> ?F (snd x) (hs_curr st)" using laws m0(1) cur(3) unfolding finder_laws_def by blast
    have al: "co_alignment c dvd ?F (snd x) (hs_curr st)" using laws cur(1) unfolding finder_laws_def by blast
    have asg: "hs_blocks st1 ! k = None \<longleftrightarrow> k \<notin> set (sg_group_ids (snd x)) \<and> hs_blocks st ! k = None"
      "hs_lengths st1 ! k = (if k \<in> set (sg_group_ids (snd x)) then ?F (snd x) (hs_curr st) else hs_lengths st ! k)"
      if "k < length (co_groups c)" for k
      using found(4) that ok new unfolding st' by (auto simp: assigned_def hit_ok_def)
    have full: "m \<le> hs_lengths st1 ! hd (sg_group_ids g) \<and> (\<exists>b \<ge> 0. hs_lengths st1 ! hd (sg_group_ids g) = ?F g b)"
      if g: "g \<in> set (co_attention_groups c)" "is_full (sg_spec g)" "hs_blocks st1 ! hd (sg_group_ids g) \<noteq> None" for g
    proof (cases "g = snd x")
      case True
      then show ?thesis using asg(2)[OF wf_groupsD(3)[OF wf g(1)]] wf_groupsD(4)[OF wf g(1)] mono m0(2) cur(1) by auto
    next
      case False
      then have "hd (sg_group_ids g) \<notin> set (sg_group_ids (snd x))"
        using wf_groups_apart[OF wf g(1) x False] wf_groupsD(4)[OF wf g(1)] by simp
      then show ?thesis using asg[OF wf_groupsD(3)[OF wf g(1)]] g inv unfolding hit_inv_def by simp
    qed
    have "hit_inv ops c hashes pool m st1" using st1(2) al mono m0(2) new full by (auto simp: hit_inv_def)
    then show ?thesis using st1(1) new hit_of_bounds[OF fb cur(1), of "co_alignment c" hashes pool "snd x"] by auto
  qed
qed

lemma round_pass_inv:
  assumes "finder_bounded ops" "finder_laws ops (co_alignment c) hashes pool"
    and "wf_groups (co_attention_groups c) (length (co_groups c))" and "common_hit ops c hashes pool m"
  shows "snd ` set xs \<subseteq> set (co_attention_groups c) \<Longrightarrow> hit_inv ops c hashes pool m st \<Longrightarrow>
    \<exists>st'. fold_res (group_pass ops c hashes mx pool False) xs st = Inr st' \<and> hit_inv ops c hashes pool m st' \<and>
      hs_curr st' \<le> hs_curr st \<and>
      (hs_curr st' = hs_curr st \<longrightarrow> (\<forall>x \<in> set xs. hit_of ops (co_alignment c) hashes pool (snd x) (hs_curr st) = hs_curr st))"
proof (induction xs arbitrary: st)
  case (Cons x xs)
  obtain st1 where st1: "group_pass ops c hashes mx pool False x st = Inr st1" "hit_inv ops c hashes pool m st1"
    "hs_curr st1 \<le> hs_curr st"
    "hs_curr st1 = hs_curr st \<longrightarrow> hit_of ops (co_alignment c) hashes pool (snd x) (hs_curr st) = hs_curr st"
    using group_pass_inv[OF assms(1-3) _ Cons.prems(2) assms(4), of x mx] Cons.prems(1) by auto
  obtain st' where "fold_res (group_pass ops c hashes mx pool False) xs st1 = Inr st'" "hit_inv ops c hashes pool m st'"
    "hs_curr st' \<le> hs_curr st1"
    "hs_curr st' = hs_curr st1 \<longrightarrow> (\<forall>x \<in> set xs. hit_of ops (co_alignment c) hashes pool (snd x) (hs_curr st1) = hs_curr st1)"
    using Cons.IH[OF _ st1(2)] Cons.prems(1) by auto
  then show ?case using st1 by (intro exI[of _ st']) auto
qed simp

lemma enumerate_groups: "snd ` set (List.enumerate 0 gs) = set gs"
  by (metis list.set_map map_snd_enumerate)

text \<open>One round over a full-attention group and one other group already finds a common hit.\<close>

lemma simple_round_common:
  assumes fb: "finder_bounded ops" and laws: "finder_laws ops (co_alignment c) hashes pool"
    and wf: "wf_groups (co_attention_groups c) (length (co_groups c))" and m: "common_hit ops c hashes pool m"
    and simple: "is_simple_hybrid c" and inv: "hit_inv ops c hashes pool m st"
    and fresh: "\<forall>k < length (co_groups c). hs_blocks st ! k = None"
    and r: "round_pass ops c hashes mx pool False st = Inr st'"
  shows "common_hit ops c hashes pool (hs_curr st')"
proof -
  let ?F = "hit_of ops (co_alignment c) hashes pool"
  obtain g0 g1 where ags: "co_attention_groups c = [g0, g1]" and full: "is_full (sg_spec g0)"
    using simple by (auto simp: is_simple_hybrid_def numeral_2_eq_2 length_Suc_conv)
  have cur: "0 \<le> hs_curr st" using inv by (auto simp: hit_inv_def hit_ok_def)
  obtain st1 where st1: "group_pass ops c hashes mx pool False (0, g0) st = Inr st1" "hit_inv ops c hashes pool m st1"
      "hs_curr st1 = ?F g0 (hs_curr st)"
    using group_pass_inv[OF fb laws wf _ inv m, of "(0, g0)" mx] ags fresh wf_groupsD(3)[OF wf, of g0] by auto
  have b1: "hs_blocks st1 ! hd (sg_group_ids g1) = None"
  proof -
    have len: "length (hs_blocks st) = length (co_groups c)" using inv by (simp add: hit_inv_def hit_ok_def)
    have "g1 \<noteq> g0" using wf ags by (auto simp: wf_groups_def)
    then have n: "hd (sg_group_ids g1) \<notin> set (sg_group_ids g0)"
      using wf_groups_apart[OF wf, of g1 g0] wf_groupsD(4)[OF wf, of g1] ags by simp
    show ?thesis
    proof (cases rule: group_pass_cases[OF fb, of "(0, g0)" st c hashes mx pool False, case_names kept found])
      case kept
      then show ?thesis using fresh wf_groupsD(3)[OF wf, of g0] ags by simp
    next
      case (found b de st2)
      then show ?thesis using st1(1) n fresh wf_groupsD(3)[OF wf, of g1] len ags by (auto simp: assigned_def)
    qed
  qed
  have g1: "g1 \<in> set (co_attention_groups c)" using ags by simp
  obtain st2 where st2: "group_pass ops c hashes mx pool False (1, g1) st1 = Inr st2"
      "hs_curr st2 = ?F g1 (hs_curr st1)" "hs_curr st2 \<le> hs_curr st1"
    using group_pass_inv[OF fb laws wf _ st1(2) m, of "(1, g1)" mx] g1 b1 by auto
  have st': "st' = st2" using r st1(1) st2(1) ags by (simp add: round_pass_def)
  have c1: "0 \<le> hs_curr st1" using st1(3) hit_of_bounds[OF fb cur] by simp
  have n: "0 \<le> hs_curr st2" "co_alignment c dvd hs_curr st2" "?F g1 (hs_curr st2) = hs_curr st2"
    using st2(2) c1 hit_of_bounds[OF fb c1] laws unfolding finder_laws_def by simp_all
  moreover have "?F g0 (hs_curr st2) = hs_curr st2"
    using laws full n(1,2) st2(3) st1(3) cur unfolding finder_laws_def by metis
  ultimately show ?thesis using ags unfolding st' by (simp add: common_hit_def)
qed

lemma hit_loop_longest:
  assumes fb: "finder_bounded ops" and laws: "finder_laws ops (co_alignment c) hashes pool"
    and wf: "wf_groups (co_attention_groups c) (length (co_groups c))" and m: "common_hit ops c hashes pool m"
  shows "hit_inv ops c hashes pool m (st\<lparr>hs_curr := n\<rparr>) \<Longrightarrow>
    is_simple_hybrid c \<longrightarrow> (\<forall>k < length (co_groups c). hs_blocks st ! k = None) \<Longrightarrow>
    hit_loop ops c hashes mx pool False st n = Some (Inr (st', n')) \<Longrightarrow>
    m \<le> n' \<and> common_hit ops c hashes pool n'"
proof (induction "nat n" arbitrary: n st rule: less_induct)
  case less
  have n0: "0 \<le> n" using less.prems(1) by (simp add: hit_inv_def hit_ok_def)
  obtain st1 where st1: "round_pass ops c hashes mx pool False (st\<lparr>hs_curr := n\<rparr>) = Inr st1" "hit_inv ops c hashes pool m st1"
    "hs_curr st1 \<le> n" "hs_curr st1 = n \<longrightarrow> (\<forall>x \<in> set (List.enumerate 0 (co_attention_groups c)).
       hit_of ops (co_alignment c) hashes pool (snd x) n = n)"
    using round_pass_inv[OF fb laws wf m _ less.prems(1), of "List.enumerate 0 (co_attention_groups c)" mx]
    by (auto simp: round_pass_def enumerate_groups)
  have inv1: "m \<le> hs_curr st1" "0 \<le> hs_curr st1" using st1(2) by (auto simp: hit_inv_def hit_ok_def)
  consider (same) "hs_curr st1 = n" | (simple) "hs_curr st1 < n" "is_simple_hybrid c" | (again) "hs_curr st1 < n" "\<not> is_simple_hybrid c"
    using st1(3) by linarith
  then show ?case
  proof cases
    case same
    then have "\<forall>g \<in> set (co_attention_groups c). hit_of ops (co_alignment c) hashes pool g n = n"
      using st1(4) enumerate_groups[of "co_attention_groups c"] by (metis (no_types, lifting) imageE)
    moreover have "n' = n" using less.prems(3) st1(1) same by (simp add: hit_loop.simps[of _ _ _ _ _ _ _ n])
    ultimately show ?thesis using inv1 same n0 by (simp add: common_hit_def)
  next
    case simple
    then have "n' = hs_curr st1" using less.prems(3) st1(1) by (auto simp: hit_loop.simps[of _ _ _ _ _ _ _ n])
    moreover have "common_hit ops c hashes pool (hs_curr st1)"
      using simple_round_common[OF fb laws wf m simple(2) less.prems(1) _ st1(1)] less.prems(2) simple(2) by simp
    ultimately show ?thesis using inv1 by simp
  next
    case again
    then have l: "hit_loop ops c hashes mx pool False st1 (hs_curr st1) = Some (Inr (st', n'))"
      using less.prems(3) st1(1) by (simp add: hit_loop.simps[of _ _ _ _ _ _ _ n])
    have "nat (hs_curr st1) < nat n" using again inv1 by simp
    from less.hyps[OF this _ _ l] show ?thesis using st1(2) again by simp
  qed
qed

text \<open>
  C36: Without the draft-model rule the search is exact: the length it returns is one that every group
  accepts as a hit, and no longer length up to the bound is accepted by all of them.
\<close>

theorem longest_hit_exact:
  assumes "MooncakeStoreCoordinator ops groups sbs hbs eagle ret dcp = Inr c"
    and "finder_bounded ops" and "finder_laws ops (co_alignment c) hashes pool"
    and "0 \<le> max_length" and "co_alignment c dvd max_length"
    and "find_longest_cache_hit ops c hashes max_length pool False = Some (Inr (masks, n))"
  shows "common_hit ops c hashes pool n \<and> (\<forall>m \<le> max_length. common_hit ops c hashes pool m \<longrightarrow> m \<le> n)"
proof -
  let ?F = "hit_of ops (co_alignment c) hashes pool" and ?n = "length (co_groups c)"
  have wf: "wf_groups (co_attention_groups c) ?n" by (rule coordinator_wf[OF assms(1)])
  have zero: "common_hit ops c hashes pool 0"
    using hit_of_bounds[OF assms(2), of 0 "co_alignment c" hashes pool] by (simp add: common_hit_def order_antisym)
  have one: "m \<le> n \<and> common_hit ops c hashes pool n" if m: "m \<le> max_length" "common_hit ops c hashes pool m" for m
  proof (cases "\<exists>g. co_attention_groups c = [g]")
    case True
    then obtain g where g: "co_attention_groups c = [g]" by blast
    have n: "n = ?F g max_length"
      using assms(6) g by (auto simp: find_longest_cache_hit_def find_hit_blocks_def hit_of_def Let_def bind_res_eq_Inr split: prod.splits)
    have "?F g m = m" "0 \<le> m" using m(2) g by (auto simp: common_hit_def)
    then have "m \<le> n" using assms(3) m(1) n unfolding finder_laws_def by metis
    moreover have "?F g n = n" using assms(3,4) n unfolding finder_laws_def by blast
    ultimately show ?thesis using g n hit_of_bounds[OF assms(2,4)] by (simp add: common_hit_def)
  next
    case False
    let ?st0 = "\<lparr>hs_blocks = replicate ?n None, hs_lengths = replicate ?n 0, hs_eagle_verified = [], hs_curr = max_length\<rparr>"
    obtain st where l: "hit_loop ops c hashes max_length pool False ?st0 max_length = Some (Inr (st, n))"
      using assms(6) False by (auto simp: find_longest_cache_hit_def find_hit_blocks_def Let_def bind_res_eq_Inr split: list.splits)
    have "hit_inv ops c hashes pool m (?st0\<lparr>hs_curr := max_length\<rparr>)"
      using assms(4,5) m wf_groupsD(3)[OF wf] by (auto simp: hit_inv_def hit_ok_def)
    from hit_loop_longest[OF assms(2,3) wf m(2) this _ l] show ?thesis by simp
  qed
  show ?thesis using one zero assms(4) by blast
qed

definition demo_spec :: "spec_kind \<Rightarrow> kv_spec" where
  "demo_spec k = \<lparr>ks_kind = k, ks_block_size = 4, ks_prefix_cacheable = True, ks_rest = 0\<rparr>"

text \<open>Finders that have 12 tokens for full attention and 8 for the other specs.\<close>

definition demo_ops :: vllm_ops where
  "demo_ops = \<lparr>vo_cdiv = (\<lambda>a b. - ((- a) div b)), vo_view_len = (\<lambda>n k. int n div k), vo_has_manager = (\<lambda>_. True), vo_fine_grained = (\<lambda>_. False),
     vo_find = (\<lambda>spec _ b gids _ _ _. (map (\<lambda>_. []) gids, max 0 (min b (if is_full spec then 12 else 8)) div 4 * 4)),
     vo_reachable = (\<lambda>_ _ _ _ _ _ _. None)\<rparr>"

definition demo_groups :: "kv_group list" where
  "demo_groups = [\<lparr>kg_spec = demo_spec OtherSpec, kg_wrapped = None, kg_is_eagle_group = False\<rparr>,
     \<lparr>kg_spec = demo_spec FullAttentionSpec, kg_wrapped = None, kg_is_eagle_group = False\<rparr>]"

definition demo_coord :: coordinator where
  "demo_coord = projr (MooncakeStoreCoordinator demo_ops demo_groups 4 4 False None 1)"

lemma demo_coord_ok: "MooncakeStoreCoordinator demo_ops demo_groups 4 4 False None 1 = Inr demo_coord"
  by code_simp

lemma demo_align: "co_alignment demo_coord = 4"
  by code_simp

lemma demo_find: "snd (vo_find demo_ops spec hashes b gids pool de al) = max 0 (min b (if is_full spec then 12 else 8)) div 4 * 4"
  by (simp add: demo_ops_def)

lemma floor4: "0 \<le> x \<Longrightarrow> 0 \<le> x div 4 * 4 \<and> x div 4 * 4 \<le> x" for x :: int
  by simp

lemma demo_bounded: "finder_bounded demo_ops"
  by (auto simp: finder_bounded_def demo_ops_def intro: order_trans[OF conjunct2[OF floor4]])

lemma demo_laws: "finder_laws demo_ops 4 hashes pool"
proof -
  have d: "hit_of demo_ops 4 hashes pool g b = max 0 (min b (if is_full (sg_spec g) then 12 else 8)) div 4 * 4" for g b
    by (simp add: hit_of_def demo_find)
  show ?thesis unfolding finder_laws_def d by (auto simp: min_def max_def elim!: dvdE)
qed

theorem longest_hit_terminates_witness:
  "\<exists>masks n. find_longest_cache_hit demo_ops demo_coord [] 16 None True = Some (Inr (masks, n)) \<and>
     length masks = length demo_groups \<and> 0 \<le> n \<and> n \<le> 16"
  by (rule longest_hit_terminates[OF demo_coord_ok demo_bounded]) simp

theorem longest_hit_exact_witness:
  "\<exists>masks n. find_longest_cache_hit demo_ops demo_coord [] 16 None False = Some (Inr (masks, n)) \<and>
     common_hit demo_ops demo_coord [] None n \<and> n = 8"
proof -
  have l: "finder_laws demo_ops (co_alignment demo_coord) [] None" using demo_laws by (simp add: demo_align)
  obtain masks n where f: "find_longest_cache_hit demo_ops demo_coord [] 16 None False = Some (Inr (masks, n))"
    using longest_hit_total[OF demo_coord_ok demo_bounded, of 16 "[]" None False] by auto
  have e: "common_hit demo_ops demo_coord [] None n" "\<forall>m \<le> 16. common_hit demo_ops demo_coord [] None m \<longrightarrow> m \<le> n"
    using longest_hit_exact[OF demo_coord_ok demo_bounded l _ _ f] by (auto simp: demo_align)
  have "common_hit demo_ops demo_coord [] None 8" by code_simp
  then have "8 \<le> n" using e(2) by simp
  moreover have "hit_of demo_ops (co_alignment demo_coord) [] None (co_attention_groups demo_coord ! 1) n = n"
    "\<not> is_full (sg_spec (co_attention_groups demo_coord ! 1))"
  proof -
    have "length (co_attention_groups demo_coord) = 2" by code_simp
    then show "hit_of demo_ops (co_alignment demo_coord) [] None (co_attention_groups demo_coord ! 1) n = n"
      using e(1) by (simp add: common_hit_def)
    show "\<not> is_full (sg_spec (co_attention_groups demo_coord ! 1))" by code_simp
  qed
  then have "n \<le> 8" by (auto simp: hit_of_def demo_find)
  ultimately show ?thesis using f e(1) by fastforce
qed

end
