(* ===== verification/Store_Lookup.thy ===== *)
theory Store_Lookup
  imports Store_Coordinator
begin

text \<open>
  The lookup of the Mooncake store worker (\<^verbatim>\<open>mooncake/store/worker.py\<close>, \<open>lookup\<close> and
  \<open>_tail_key_boundaries\<close>): which keys are asked for, what counts as present, and the boundaries
  under which the tail blocks of a hit are stored.  The store's \<open>batch_is_exist\<close> is an argument.
\<close>

section \<open>The worker\<close>

record lookup_worker =
  lw_capacity_only :: bool
  lw_coord :: coordinator
  lw_block_sizes :: "int list"
  lw_lookup_key_prefixes :: "string list list"

type_synonym exist_fn = "string list \<Rightarrow> int list result"

section \<open>Candidate keys\<close>

text \<open>The hash of unit \<open>i\<close> of a group: a hash block, or the last hash of a chunk.\<close>

definition unit_ids :: "vllm_ops \<Rightarrow> lookup_worker \<Rightarrow> byte list list \<Rightarrow> int \<Rightarrow> bool list option \<Rightarrow> nat \<Rightarrow> int list" where
  "unit_ids ops w hashes token_len mk g =
     (let c = lw_coord w; hbs = co_hash_block_size c; spec_bs = lw_block_sizes w ! g;
          group_bs = ks_block_size (kg_spec (co_groups c ! g)) in
      if co_enable_partial_hash_hits c then [0..min (int (length hashes)) (token_len div hbs) - 1]
      else let n = (if group_bs = hbs then int (length hashes) else vo_view_len ops (length hashes) (group_bs div hbs));
               max_chunks = min n (vo_cdiv ops token_len spec_bs);
               limit = (case mk of None \<Rightarrow> max_chunks | Some m \<Rightarrow> min max_chunks (int (length m)))
           in filter (\<lambda>i. case mk of None \<Rightarrow> True | Some m \<Rightarrow> m ! nat i) [0..limit - 1])"

definition unit_hash :: "lookup_worker \<Rightarrow> byte list list \<Rightarrow> nat \<Rightarrow> int \<Rightarrow> byte list result" where
  "unit_hash w hashes g i =
     (let c = lw_coord w in
      if co_enable_partial_hash_hits c then py_index hashes i
      else chunk_hash_at hashes (co_hash_block_size c) (ks_block_size (kg_spec (co_groups c ! g))) i)"

definition group_candidates ::
    "vllm_ops \<Rightarrow> lookup_worker \<Rightarrow> byte list list \<Rightarrow> int \<Rightarrow> bool list option list \<Rightarrow> nat \<Rightarrow> (nat \<times> byte list) list result" where
  "group_candidates ops w hashes token_len masks g =
     (if \<not> ks_prefix_cacheable (kg_spec (co_groups (lw_coord w) ! g)) then Inr []
      else map_res (\<lambda>i. bind_res (unit_hash w hashes g i) (\<lambda>h. Inr (g, h)))
             (unit_ids ops w hashes token_len (if co_enable_partial_hash_hits (lw_coord w) then None else masks ! g) g))"

definition candidates ::
    "vllm_ops \<Rightarrow> lookup_worker \<Rightarrow> byte list list \<Rightarrow> int \<Rightarrow> (nat \<times> byte list) list result" where
  "candidates ops w hashes token_len =
     bind_res (if co_enable_partial_hash_hits (lw_coord w) then Inr [] else lookup_mask ops (lw_coord w) token_len) (\<lambda>masks.
     bind_res (map_res (group_candidates ops w hashes token_len masks) [0..<length (lw_block_sizes w)]) (\<lambda>css.
       Inr (concat css)))"

definition candidate_keys :: "lookup_worker \<Rightarrow> nat \<times> byte list \<Rightarrow> string list" where
  "candidate_keys w x = map (\<lambda>p. build_key_string p (bytes_hex (snd x))) (lw_lookup_key_prefixes w ! fst x)"

text \<open>\<open>all(res[pos + j] == 1 for j in range(count))\<close>, stopping at the first that is not 1.\<close>

fun all_present :: "int list \<Rightarrow> nat \<Rightarrow> nat \<Rightarrow> bool result" where
  "all_present res pos 0 = Inr True"
| "all_present res pos (Suc n) =
     (if length res \<le> pos then Inl IndexError
      else if res ! pos \<noteq> 1 then Inr False else all_present res (Suc pos) n)"

fun collect_present ::
    "lookup_worker \<Rightarrow> int list \<Rightarrow> nat \<Rightarrow> (nat \<times> byte list) list \<Rightarrow> (nat \<times> byte list) set \<Rightarrow> (nat \<times> byte list) set result" where
  "collect_present w res pos [] ex = Inr ex"
| "collect_present w res pos (x # xs) ex =
     (let n = length (lw_lookup_key_prefixes w ! fst x) in
      bind_res (all_present res pos n) (\<lambda>ok. collect_present w res (pos + n) xs (if ok then insert x ex else ex)))"

section \<open>Tail boundaries\<close>

definition tail_boundary ::
    "vllm_ops \<Rightarrow> lookup_worker \<Rightarrow> byte list list \<Rightarrow> int \<Rightarrow> ext_pool \<Rightarrow> nat \<Rightarrow> tail_key_boundary list result" where
  "tail_boundary ops w hashes hit_length pool g =
     (let c = lw_coord w; hbs = co_hash_block_size c; bs = lw_block_sizes w ! g; hit_idx = hit_length div hbs - 1 in
      if \<not> ks_prefix_cacheable (kg_spec (co_groups c ! g)) then Inr []
      else let chunk_id = vo_cdiv ops hit_length bs - 1 in
        bind_res (py_index hashes hit_idx) (\<lambda>h.
          if pool_contains pool g h then Inr [\<lparr>tb_group_id = int g, tb_num_tokens = hit_length\<rparr>]
          else if \<not> co_enable_partial_hash_hits c then Inl AssertionError
          else let stop = min ((chunk_id + 1) * bs div hbs) (int (length hashes)) in
            case List.find (\<lambda>i. pool_contains pool g (hashes ! nat i)) [hit_idx + 1..stop - 1] of
              Some i \<Rightarrow> Inr [\<lparr>tb_group_id = int g, tb_num_tokens = (i + 1) * hbs\<rparr>]
            | None \<Rightarrow> Inl AssertionError))"

definition tail_key_boundaries ::
    "vllm_ops \<Rightarrow> lookup_worker \<Rightarrow> byte list list \<Rightarrow> int \<Rightarrow> ext_pool \<Rightarrow> tail_key_boundary list result" where
  "tail_key_boundaries ops w hashes hit_length pool =
     (if hit_length \<le> 0 then Inr []
      else bind_res (map_res (tail_boundary ops w hashes hit_length pool) [0..<length (lw_block_sizes w)]) (\<lambda>bss. Inr (concat bss)))"

section \<open>Lookup\<close>

text \<open>The hit for the blocks in the pool, below the end of the request.\<close>

definition usable_hit ::
    "vllm_ops \<Rightarrow> coordinator \<Rightarrow> byte list list \<Rightarrow> int \<Rightarrow> int \<Rightarrow> ext_pool \<Rightarrow> int option result option" where
  "usable_hit ops c hashes num_tokens token_len pool =
     (case find_longest_cache_hit ops c hashes token_len pool True of
        None \<Rightarrow> None
      | Some (Inl e) \<Rightarrow> Some (Inl e)
      | Some (Inr (_, hit)) \<Rightarrow>
          if hit < num_tokens then Some (Inr (Some hit))
          else let usable = align_lookup_length c (num_tokens - 1) in
            if usable \<le> 0 then Some (Inr None)
            else map_option (\<lambda>r. bind_res r (\<lambda>(_, h). Inr (Some h))) (find_longest_cache_hit ops c hashes usable pool True))"

definition lookup ::
    "vllm_ops \<Rightarrow> exist_fn \<Rightarrow> lookup_worker \<Rightarrow> int \<Rightarrow> byte list list \<Rightarrow> lookup_result result option" where
  "lookup ops exist w num_tokens hashes =
     (let c = lw_coord w; token_len = align_lookup_length c num_tokens in
      if lw_capacity_only w \<or> hashes = [] \<or> token_len \<le> 0 then Some (Inr no_hit)
      else case candidates ops w hashes token_len of
          Inl e \<Rightarrow> Some (Inl e)
        | Inr cs \<Rightarrow>
            let keys = concat (map (candidate_keys w) cs) in
            if keys = [] then Some (Inr no_hit)
            else case exist keys of
                Inl e \<Rightarrow> Some (Inr no_hit)
              | Inr res \<Rightarrow>
                  case collect_present w res 0 cs {} of
                    Inl e \<Rightarrow> Some (Inl e)
                  | Inr ex \<Rightarrow>
                      map_option (\<lambda>r. bind_res r (\<lambda>h. case h of
                          None \<Rightarrow> Inr no_hit
                        | Some hit \<Rightarrow> bind_res (tail_key_boundaries ops w hashes hit (Some ex)) (\<lambda>bs.
                            Inr \<lparr>lr_hit_length = hit, lr_tail_key_boundaries = bs\<rparr>)))
                        (usable_hit ops c hashes num_tokens token_len (Some ex)))"

section \<open>What counts as present\<close>

lemma all_present_eq: "pos + n \<le> length res \<Longrightarrow> all_present res pos n = Inr (\<forall>j < n. res ! (pos + j) = 1)"
proof (induction n arbitrary: pos)
  case (Suc n)
  have "(\<forall>j < Suc n. res ! (pos + j) = 1) \<longleftrightarrow> res ! pos = 1 \<and> (\<forall>j < n. res ! (Suc pos + j) = 1)"
    by (auto simp: less_Suc_eq_0_disj)
  then show ?case using Suc by auto
qed simp

lemma all_present_map:
  assumes "res = pre @ map present ks @ post"
  shows "all_present res (length pre) (length ks) = Inr (\<forall>k \<in> set ks. present k = 1)"
  using all_present_eq[of "length pre" "length ks" res] assms by (auto simp: nth_append all_set_conv_all_nth)

lemma collect_present_eq:
  "collect_present w (pre @ map present (concat (map (candidate_keys w) cs))) (length pre) cs ex =
     Inr (ex \<union> {x \<in> set cs. \<forall>k \<in> set (candidate_keys w x). present k = 1})"
proof (induction cs arbitrary: pre ex)
  case (Cons x cs)
  let ?ks = "candidate_keys w x"
  have l: "length (lw_lookup_key_prefixes w ! fst x) = length ?ks" by (simp add: candidate_keys_def)
  have a: "all_present (pre @ map present (concat (map (candidate_keys w) (x # cs)))) (length pre) (length ?ks) =
      Inr (\<forall>k \<in> set ?ks. present k = 1)" by (rule all_present_map[where post = "map present (concat (map (candidate_keys w) cs))"]) simp
  have IH: "collect_present w (pre @ map present (concat (map (candidate_keys w) (x # cs)))) (length pre + length ?ks) cs ex' =
      Inr (ex' \<union> {x \<in> set cs. \<forall>k \<in> set (candidate_keys w x). present k = 1})" for ex'
    using Cons.IH[of "pre @ map present ?ks" ex'] by simp
  show ?case unfolding collect_present.simps Let_def l a using IH by auto
qed simp

section \<open>The lookup is sound\<close>

lemma align_lookup_le: "0 < co_alignment c \<Longrightarrow> align_lookup_length c n \<le> n"
  using div_eq_iff[of "co_alignment c" n "n div co_alignment c"] by (simp add: align_lookup_length_def)

lemma usable_hit_total:
  assumes "MooncakeStoreCoordinator ops groups sbs hbs eagle ret dcp = Inr c" "finder_bounded ops"
    and "0 < co_alignment c" "0 \<le> token_len"
  shows "\<exists>h. usable_hit ops c hashes num_tokens token_len pool = Some (Inr h) \<and>
    (\<forall>n. h = Some n \<longrightarrow> 0 \<le> n \<and> n < num_tokens)"
proof -
  obtain masks n where f: "find_longest_cache_hit ops c hashes token_len pool True = Some (Inr (masks, n))" "0 \<le> n"
    using longest_hit_total[OF assms(1,2,4)] by blast
  let ?u = "align_lookup_length c (num_tokens - 1)"
  consider "n < num_tokens" | "num_tokens \<le> n" "?u \<le> 0" | "num_tokens \<le> n" "0 < ?u" by linarith
  then show ?thesis
  proof cases
    case 3
    obtain masks' n' where g: "find_longest_cache_hit ops c hashes ?u pool True = Some (Inr (masks', n'))" "0 \<le> n'" "n' \<le> ?u"
      using longest_hit_total[OF assms(1,2), of ?u hashes pool True] 3(2) by auto
    have "n' < num_tokens" using g(3) align_lookup_le[OF assms(3), of "num_tokens - 1"] by linarith
    then show ?thesis using f g 3 by (simp add: usable_hit_def Let_def)
  qed (use f in \<open>simp_all add: usable_hit_def Let_def\<close>)
qed

lemma find_SomeD: "List.find P xs = Some x \<Longrightarrow> x \<in> set xs \<and> P x"
  by (auto simp: find_Some_iff)

lemma tail_boundary_sound:
  assumes "tail_boundary ops w hashes hit pool g = Inr bs" "b \<in> set bs" "0 < co_hash_block_size (lw_coord w)" "0 < hit"
  shows "tb_group_id b = int g \<and> hit \<le> tb_num_tokens b \<and>
    (tb_num_tokens b = hit \<or> tb_num_tokens b \<le> int (length hashes) * co_hash_block_size (lw_coord w)) \<and>
    (\<exists>h. py_index hashes (tb_num_tokens b div co_hash_block_size (lw_coord w) - 1) = Inr h \<and> pool_contains pool g h)"
proof -
  let ?hbs = "co_hash_block_size (lw_coord w)" and ?i = "hit div co_hash_block_size (lw_coord w) - 1"
  have "0 \<le> hit div ?hbs" using assms(3,4) by (simp add: pos_imp_zdiv_nonneg_iff)
  obtain h where h: "py_index hashes ?i = Inr h"
    using assms(1,2) by (auto simp: tail_boundary_def Let_def bind_res_eq_Inr split: if_splits)
  show ?thesis
  proof (cases "pool_contains pool g h")
    case True
    then show ?thesis using assms(1,2) h by (auto simp: tail_boundary_def Let_def split: if_splits)
  next
    case False
    then obtain i where i: "List.find (\<lambda>i. pool_contains pool g (hashes ! nat i))
        [?i + 1..min ((vo_cdiv ops hit (lw_block_sizes w ! g) - 1 + 1) * (lw_block_sizes w ! g) div ?hbs) (int (length hashes)) - 1] = Some i"
      and b: "b = \<lparr>tb_group_id = int g, tb_num_tokens = (i + 1) * ?hbs\<rparr>"
      using assms(1,2) h by (auto simp: tail_boundary_def Let_def split: if_splits option.splits)
    have i': "hit div ?hbs \<le> i" "i < int (length hashes)" "pool_contains pool g (hashes ! nat i)"
      using find_SomeD[OF i] by auto
    have "hit < (hit div ?hbs + 1) * ?hbs" using div_eq_iff[OF assms(3), of hit "hit div ?hbs"] by simp
    also have "\<dots> \<le> (i + 1) * ?hbs" using i'(1) assms(3) by (intro mult_right_mono) auto
    finally have "hit \<le> (i + 1) * ?hbs" by simp
    moreover have "(i + 1) * ?hbs div ?hbs - 1 = i" using assms(3) by simp
    moreover have "(i + 1) * ?hbs \<le> int (length hashes) * ?hbs" using i'(2) assms(3) by (intro mult_right_mono) auto
    ultimately show ?thesis using i' b \<open>0 \<le> hit div ?hbs\<close> by (simp add: py_index_def Let_def)
  qed
qed

lemma tail_boundaries_present:
  assumes "tail_key_boundaries ops w hashes hit (Some ex) = Inr bs" "b \<in> set bs"
    and "0 < co_hash_block_size (lw_coord w)" and "\<forall>x \<in> ex. \<forall>k \<in> set (candidate_keys w x). present k = 1"
  shows "hit \<le> tb_num_tokens b \<and> (\<exists>g < length (lw_block_sizes w). \<exists>h. tb_group_id b = int g \<and>
    py_index hashes (tb_num_tokens b div co_hash_block_size (lw_coord w) - 1) = Inr h \<and>
    (\<forall>p \<in> set (lw_lookup_key_prefixes w ! g). present (build_key_string p (bytes_hex h)) = 1)) \<and>
    (tb_num_tokens b = hit \<or> tb_num_tokens b \<le> int (length hashes) * co_hash_block_size (lw_coord w))"
proof -
  have "0 < hit" using assms(1,2) by (auto simp: tail_key_boundaries_def split: if_splits)
  then obtain bss where bss: "map_res (tail_boundary ops w hashes hit (Some ex)) [0..<length (lw_block_sizes w)] = Inr bss" "bs = concat bss"
    using assms(1) by (auto simp: tail_key_boundaries_def bind_res_eq_Inr)
  then obtain bs' where "bs' \<in> set bss" "b \<in> set bs'" using assms(2) by auto
  then obtain g where "g < length bss" "bss ! g = bs'" by (metis in_set_conv_nth)
  then have g: "g < length (lw_block_sizes w)" "tail_boundary ops w hashes hit (Some ex) g = Inr bs'" "b \<in> set bs'"
    using bss(1) \<open>b \<in> set bs'\<close> by (auto simp: map_res_eq_Inr list_all2_conv_all_nth)
  from tail_boundary_sound[OF g(2,3) assms(3) \<open>0 < hit\<close>] obtain h where
    h: "tb_group_id b = int g" "hit \<le> tb_num_tokens b" "py_index hashes (tb_num_tokens b div co_hash_block_size (lw_coord w) - 1) = Inr h"
      "(g, h) \<in> ex" "tb_num_tokens b = hit \<or> tb_num_tokens b \<le> int (length hashes) * co_hash_block_size (lw_coord w)"
    by (auto simp: pool_contains_def)
  have "present (build_key_string p (bytes_hex h)) = 1" if "p \<in> set (lw_lookup_key_prefixes w ! g)" for p
    using bspec[OF assms(4) h(4)] that by (simp add: candidate_keys_def)
  then show ?thesis using g(1) h by blast
qed

text \<open>A lookup raises, finds nothing, or reports a hit over the blocks present under all prefixes.\<close>

lemma lookup_cases:
  assumes "MooncakeStoreCoordinator ops groups sbs hbs eagle ret dcp = Inr (lw_coord w)"
    and "finder_bounded ops" and "0 < co_alignment (lw_coord w)"
    and ex: "\<forall>keys. exist keys = Inr (map present keys) \<or> (\<exists>e. exist keys = Inl e)"
  obtains (err) e where "lookup ops exist w num_tokens hashes = Some (Inl e)"
    | (none) "lookup ops exist w num_tokens hashes = Some (Inr no_hit)"
    | (hit) hit ex where "0 \<le> hit" "hit < num_tokens"
      "lookup ops exist w num_tokens hashes = Some (bind_res (tail_key_boundaries ops w hashes hit (Some ex)) (\<lambda>bs.
         Inr \<lparr>lr_hit_length = hit, lr_tail_key_boundaries = bs\<rparr>))"
      "\<forall>x \<in> ex. \<forall>k \<in> set (candidate_keys w x). present k = 1"
proof (cases "lw_capacity_only w \<or> hashes = [] \<or> align_lookup_length (lw_coord w) num_tokens \<le> 0")
  case True
  then show ?thesis by (intro none) (auto simp: lookup_def)
next
  case False
  let ?tl = "align_lookup_length (lw_coord w) num_tokens"
  note go = lookup_def[of ops exist w num_tokens hashes, unfolded Let_def if_not_P[OF False]]
  show ?thesis
  proof (cases "candidates ops w hashes ?tl")
    case (Inl e)
    then show ?thesis using go by (intro err) simp
  next
    case (Inr cs)
    let ?keys = "concat (map (candidate_keys w) cs)"
    let ?ex = "{x \<in> set cs. \<forall>k \<in> set (candidate_keys w x). present k = 1}"
    show ?thesis
    proof (cases "?keys = [] \<or> (\<exists>e. exist ?keys = Inl e)")
      case True
      then show ?thesis using go Inr by (intro none) auto
    next
      case False
      then have e: "exist ?keys = Inr (map present ?keys)" using ex by blast
      have col: "collect_present w (map present ?keys) 0 cs {} = Inr ?ex"
        using collect_present_eq[of w "[]" present cs "{}"] by simp
      obtain h where h: "usable_hit ops (lw_coord w) hashes num_tokens ?tl (Some ?ex) = Some (Inr h)"
        "\<forall>n. h = Some n \<longrightarrow> 0 \<le> n \<and> n < num_tokens"
        using usable_hit_total[OF assms(1-3), of ?tl] \<open>\<not> (lw_capacity_only w \<or> hashes = [] \<or> ?tl \<le> 0)\<close> by fastforce
      have l: "lookup ops exist w num_tokens hashes = Some (case h of None \<Rightarrow> Inr no_hit
          | Some hit \<Rightarrow> bind_res (tail_key_boundaries ops w hashes hit (Some ?ex)) (\<lambda>bs.
              Inr \<lparr>lr_hit_length = hit, lr_tail_key_boundaries = bs\<rparr>))"
        using go Inr False e col h(1) by (simp del: concat_eq_Nil_conv)
      show ?thesis
      proof (cases h)
        case None
        then show ?thesis using l by (intro none) simp
      next
        case (Some n)
        show ?thesis by (rule hit[of n ?ex]) (use l h(2) Some in simp_all)
      qed
    qed
  qed
qed

text \<open>
  C22: A lookup of the worker always ends, and what it reports is in the store: the hit is shorter
  than the request, so that at least one token is computed locally, and every tail boundary names a
  hash at or after the hit whose key exists under the prefix of every rank that will load it.
\<close>

theorem lookup_sound:
  assumes "MooncakeStoreCoordinator ops groups sbs hbs eagle ret dcp = Inr (lw_coord w)"
    and "finder_bounded ops" and "0 < co_alignment (lw_coord w)" and "0 < co_hash_block_size (lw_coord w)"
    and "\<forall>keys. exist keys = Inr (map present keys) \<or> (\<exists>e. exist keys = Inl e)" and "0 < num_tokens"
  shows "\<exists>res. lookup ops exist w num_tokens hashes = Some res \<and>
    (\<forall>r. res = Inr r \<longrightarrow> 0 \<le> lr_hit_length r \<and> lr_hit_length r < num_tokens \<and>
      (\<forall>b \<in> set (lr_tail_key_boundaries r). lr_hit_length r \<le> tb_num_tokens b \<and>
         (\<exists>g < length (lw_block_sizes w). \<exists>h. tb_group_id b = int g \<and>
            py_index hashes (tb_num_tokens b div co_hash_block_size (lw_coord w) - 1) = Inr h \<and>
            (\<forall>p \<in> set (lw_lookup_key_prefixes w ! g). present (build_key_string p (bytes_hex h)) = 1))))"
proof (cases rule: lookup_cases[OF assms(1-3,5), of num_tokens hashes, case_names err none hit])
  case err
  then show ?thesis by simp
next
  case none
  then show ?thesis using assms(6) by (simp add: no_hit_def)
next
  case (hit n ex)
  show ?thesis
  proof (cases "tail_key_boundaries ops w hashes n (Some ex)")
    case (Inr bs)
    have "n \<le> tb_num_tokens b \<and> (\<exists>g < length (lw_block_sizes w). \<exists>h. tb_group_id b = int g \<and>
            py_index hashes (tb_num_tokens b div co_hash_block_size (lw_coord w) - 1) = Inr h \<and>
            (\<forall>p \<in> set (lw_lookup_key_prefixes w ! g). present (build_key_string p (bytes_hex h)) = 1))" if "b \<in> set bs" for b
      using tail_boundaries_present[OF Inr that assms(4) hit(4)] by blast
    then show ?thesis using hit(1-3) Inr by simp
  qed (use hit in simp)
qed

definition demo_worker :: lookup_worker where
  "demo_worker = \<lparr>lw_capacity_only = False, lw_coord = demo_coord, lw_block_sizes = [4, 4],
     lw_lookup_key_prefixes = [[''p''], [''q'']]\<rparr>"

definition demo_exist :: exist_fn where
  "demo_exist keys = Inr (map (\<lambda>_. 1) keys)"

theorem lookup_sound_witness:
  "\<exists>res. lookup demo_ops demo_exist demo_worker 10 [[1], [2], [3], [4]] = Some res \<and>
     res = Inr \<lparr>lr_hit_length = 8, lr_tail_key_boundaries = [\<lparr>tb_group_id = 0, tb_num_tokens = 8\<rparr>, \<lparr>tb_group_id = 1, tb_num_tokens = 8\<rparr>]\<rparr>"
proof -
  have c: "MooncakeStoreCoordinator demo_ops demo_groups 4 4 False None 1 = Inr (lw_coord demo_worker)"
    using demo_coord_ok by (simp add: demo_worker_def)
  have "co_hash_block_size (lw_coord demo_worker) = 4" by code_simp
  then obtain res where res: "lookup demo_ops demo_exist demo_worker 10 [[1], [2], [3], [4]] = Some res"
    using lookup_sound[OF c demo_bounded, of demo_exist "\<lambda>_. 1" 10 "[[1], [2], [3], [4]]"]
    by (auto simp: demo_exist_def demo_worker_def demo_align)
  moreover have "lookup demo_ops demo_exist demo_worker 10 [[1], [2], [3], [4]] =
    Some (Inr \<lparr>lr_hit_length = 8, lr_tail_key_boundaries = [\<lparr>tb_group_id = 0, tb_num_tokens = 8\<rparr>, \<lparr>tb_group_id = 1, tb_num_tokens = 8\<rparr>]\<rparr>)"
    by code_simp
  ultimately show ?thesis by simp
qed

section \<open>From the client to the store and back\<close>

lemma lookup_valid:
  assumes "MooncakeStoreCoordinator ops groups sbs hbs eagle ret dcp = Inr (lw_coord w)"
    and "finder_bounded ops" and "0 < co_alignment (lw_coord w)" and "0 < co_hash_block_size (lw_coord w)"
    and "\<forall>keys. exist keys = Inr (map present keys) \<or> (\<exists>e. exist keys = Inl e)"
    and "u32 n" and "int (length hashes) * co_hash_block_size (lw_coord w) < 2 ^ 32" and "length (lw_block_sizes w) < 2 ^ 32"
    and "lookup ops exist w n hashes = Some (Inr r)"
  shows "valid_result r"
proof (cases rule: lookup_cases[OF assms(1-3,5), of n hashes, case_names err none hit])
  case err
  then show ?thesis using assms(9) by simp
next
  case none
  then show ?thesis using assms(9) by (auto simp: no_hit_def valid_result_def u32_def)
next
  case (hit h ex)
  then obtain bs where bs: "tail_key_boundaries ops w hashes h (Some ex) = Inr bs" "r = \<lparr>lr_hit_length = h, lr_tail_key_boundaries = bs\<rparr>"
    using assms(9) by (auto simp: bind_res_def split: sum.splits)
  have "valid_boundary b" if b: "b \<in> set bs" for b
  proof -
    obtain g where "g < length (lw_block_sizes w)" "tb_group_id b = int g" "h \<le> tb_num_tokens b"
      "tb_num_tokens b = h \<or> tb_num_tokens b \<le> int (length hashes) * co_hash_block_size (lw_coord w)"
      using tail_boundaries_present[OF bs(1) b assms(4) hit(4)] by blast
    then show ?thesis using assms(6-8) hit(1,2) by (auto simp: valid_boundary_def u32_def)
  qed
  then show ?thesis using bs(2) hit(1,2) assms(6) by (auto simp: valid_result_def u32_def list_all_iff)
qed

text \<open>
  Scheduler and worker agree on every lookup: the client's answer, sent through the request and
  response formats and the view of the hashes, is what the worker's lookup computes on the hashes
  of the request.
\<close>

lemma lookup_end_to_end:
  assumes "MooncakeStoreCoordinator ops groups sbs hbs eagle ret dcp = Inr (lw_coord w)"
    and "finder_bounded ops" and "0 < co_alignment (lw_coord w)" and "0 < co_hash_block_size (lw_coord w)"
    and "\<forall>keys. exist keys = Inr (map present keys) \<or> (\<exists>e. exist keys = Inl e)"
    and "u32 n" and "int (length hashes) * co_hash_block_size (lw_coord w) < 2 ^ 32" and "length (lw_block_sizes w) < 2 ^ 32"
    and "\<forall>h \<in> set hashes. length h = L" and "0 < L" and "L < 2 ^ 16"
    and "lookup ops exist w n hashes = Some (Inr r)"
  shows "client_lookup (process_request (\<lambda>n v. bind_res (blob_items v) (\<lambda>hs.
      case lookup ops exist w n hs of Some res \<Rightarrow> res | None \<Rightarrow> Inl TimeoutError)) reset) n hashes = Inr r"
  by (rule lookup_channel_faithful[OF assms(6,9-11)])
    (use assms(12) lookup_valid[OF assms(1-8,12)] in auto)

lemma lookup_end_to_end_witness:
  "client_lookup (process_request (\<lambda>n v. bind_res (blob_items v) (\<lambda>hs.
      case lookup demo_ops demo_exist demo_worker n hs of Some res \<Rightarrow> res | None \<Rightarrow> Inl TimeoutError)) (Inr ())) 10 [[1], [2], [3], [4]] =
   Inr \<lparr>lr_hit_length = 8, lr_tail_key_boundaries = [\<lparr>tb_group_id = 0, tb_num_tokens = 8\<rparr>, \<lparr>tb_group_id = 1, tb_num_tokens = 8\<rparr>]\<rparr>"
proof -
  have c: "MooncakeStoreCoordinator demo_ops demo_groups 4 4 False None 1 = Inr (lw_coord demo_worker)"
    using demo_coord_ok by (simp add: demo_worker_def)
  have "co_hash_block_size (lw_coord demo_worker) = 4" "length (lw_block_sizes demo_worker) = 2" by code_simp+
  moreover have "lookup demo_ops demo_exist demo_worker 10 [[1], [2], [3], [4]] =
    Some (Inr \<lparr>lr_hit_length = 8, lr_tail_key_boundaries = [\<lparr>tb_group_id = 0, tb_num_tokens = 8\<rparr>, \<lparr>tb_group_id = 1, tb_num_tokens = 8\<rparr>]\<rparr>)"
    by code_simp
  ultimately show ?thesis
    by (intro lookup_end_to_end[OF c demo_bounded, where present = "\<lambda>_. 1" and L = 1])
      (auto simp: demo_exist_def demo_worker_def demo_align u32_def)
qed

end
