(* ===== verification/Store_Scheduler.thy ===== *)
theory Store_Scheduler
  imports Store_Layout
begin

text \<open>
  The scheduler half of the Mooncake store (\<^verbatim>\<open>mooncake/store/scheduler.py\<close>, with the trackers and
  request metadata of \<^verbatim>\<open>store/data.py\<close>).  A vLLM \<open>Request\<close> is an object that changes over time: the
  state holds its id, and \<open>req\<close> gives its attributes when a method runs.  The block pool of vLLM
  is not modelled; the state records the calls made to it, and the id of its null block is a field.  Block sizes are positive.
\<close>

section \<open>Data\<close>

record load_spec =
  ls_vllm_cached_tokens :: int
  ls_kvpool_cached_tokens :: int
  ls_can_load :: bool
  ls_tail_key_boundaries :: "tail_key_boundary list"

record request_tracker =
  rt_token_len :: int
  rt_allocated_block_ids :: "int list list"
  rt_num_saved_tokens :: int
  rt_token_ids :: "int list option"
  rt_has_pending_offload :: bool
  rt_prefill_end_tokens :: int

record store_meta =
  sm_req_id :: string
  sm_token_len_chunk :: int
  sm_block_ids :: "int list list"
  sm_block_hashes :: "byte list list"
  sm_can_save :: bool
  sm_load_spec :: "load_spec option"
  sm_token_ids :: "int list option"
  sm_token_ids_start :: int
  sm_num_prompt_tokens :: "int option"
  sm_store_job_id :: "int option"
  sm_boundary_state_offloads :: "(int \<times> int \<times> int) list option"

definition tracker_reset :: "request_tracker \<Rightarrow> request_tracker" where
  "tracker_reset t = \<lparr>rt_token_len = 0, rt_allocated_block_ids = [], rt_num_saved_tokens = 0,
     rt_token_ids = None, rt_has_pending_offload = False, rt_prefill_end_tokens = 0\<rparr>"

definition tracker_update :: "request_tracker \<Rightarrow> int list list \<Rightarrow> request_tracker result" where
  "tracker_update t new_block_ids =
     (if length new_block_ids \<noteq> length (rt_allocated_block_ids t) then Inl ValueError
      else Inr (t\<lparr>rt_allocated_block_ids := map2 (@) (rt_allocated_block_ids t) new_block_ids\<rparr>))"

text \<open>\<open>ReqMeta.from_request_tracker\<close>: the tracker after the call and the metadata, if any.\<close>

definition from_request_tracker ::
    "(int \<Rightarrow> int \<Rightarrow> int) \<Rightarrow> string \<Rightarrow> request_tracker \<Rightarrow> int \<Rightarrow> load_spec option \<Rightarrow> bool \<Rightarrow> byte list list \<Rightarrow>
     request_tracker \<times> store_meta option" where
  "from_request_tracker cdiv rid t block_size spec skip block_hashes =
     (let token_ids_start = rt_num_saved_tokens t;
          chunk_boundary = cdiv (token_ids_start + 1) block_size * block_size;
          num_tokens_to_save = rt_token_len t div block_size * block_size;
          loads = (case spec of None \<Rightarrow> False | Some ls \<Rightarrow> ls_can_load ls);
          skip_save = (skip \<or> num_tokens_to_save < chunk_boundary \<or> loads)
      in if skip_save \<and> spec = None then (t, None)
         else let t' = (if skip_save then t else t\<lparr>rt_num_saved_tokens := num_tokens_to_save\<rparr>);
                  token_ids = (case rt_token_ids t' of
                      Some ids \<Rightarrow> if ids \<noteq> [] \<and> \<not> skip_save then Some (py_slice ids token_ids_start num_tokens_to_save) else None
                    | None \<Rightarrow> None)
              in (t', Some \<lparr>sm_req_id = rid, sm_token_len_chunk = num_tokens_to_save,
                    sm_block_ids = rt_allocated_block_ids t', sm_block_hashes = block_hashes,
                    sm_can_save = \<not> skip_save, sm_load_spec = (if loads then spec else None),
                    sm_token_ids = token_ids, sm_token_ids_start = token_ids_start,
                    sm_num_prompt_tokens = Some (rt_prefill_end_tokens t'), sm_store_job_id = None,
                    sm_boundary_state_offloads = None\<rparr>))"

section \<open>The scheduler\<close>

record request =
  rq_num_tokens :: int
  rq_num_computed_tokens :: int
  rq_all_token_ids :: "int list"
  rq_block_hashes :: "byte list list"

text \<open>The calls \<open>pool.touch\<close> and \<open>pool.free_blocks\<close>, with the ids of their blocks.\<close>

datatype pool_call = Touch "int list" | FreeBlocks "int list"

record store_sched =
  ss_consumer :: bool
  ss_load_async :: bool
  ss_lookup_async :: bool
  ss_enable_lookup :: bool
  ss_save_decode_cache :: bool
  ss_enable_kv_events :: bool
  ss_store_group_ids :: "nat list"
  ss_block_size :: int
  ss_hash_block_size :: int
  ss_enable_partial_hash_hits :: bool
  ss_boundary_state_group_ids :: "int list"
  ss_null_block_id :: int
  ss_pool_bound :: bool
  ss_num_workers :: int
  ss_next_store_job_id :: int
  ss_pinned_saves :: "(int \<times> (int list \<times> int)) list"
  ss_load_specs :: "(string \<times> load_spec) list"
  ss_request_trackers :: "(string \<times> request_tracker) list"
  ss_unfinished_requests :: "(string \<times> int list list) list"
  ss_unfinished_request_ids :: "string set"
  ss_finished_partial_tail_metas :: "(string \<times> store_meta) list"
  ss_futures :: futures
  ss_pool_calls :: "pool_call list"

text \<open>\<open>_store_group_id_by_kv_cache_group_id.get(group_id)\<close>\<close>

definition store_group_of :: "store_sched \<Rightarrow> int \<Rightarrow> int option" where
  "store_group_of s g = map_of (rev (map (\<lambda>(i, k). (int k, int i)) (List.enumerate 0 (ss_store_group_ids s)))) g"

definition bind_gpu_block_pool :: "store_sched \<Rightarrow> store_sched" where
  "bind_gpu_block_pool s = s\<lparr>ss_pool_bound := True\<rparr>"

definition get_num_new_matched_tokens ::
    "(int \<Rightarrow> byte list list \<Rightarrow> lookup_result result) \<Rightarrow> bool \<Rightarrow> store_sched \<Rightarrow> string \<Rightarrow> request \<Rightarrow> int \<Rightarrow>
     store_sched \<times> int option \<times> bool" where
  "get_num_new_matched_tokens wait ready s rid r num_computed =
     (if \<not> ss_enable_lookup s then (s, Some 0, False)
      else let align = (if ss_enable_partial_hash_hits s then ss_hash_block_size s else ss_block_size s) in
        if rq_num_tokens r < align then (s, Some 0, False)
        else case async_lookup wait ready (ss_futures s) rid (rq_num_tokens r) (rq_block_hashes r) (ss_lookup_async s) of
            (fs, None) \<Rightarrow> (s\<lparr>ss_futures := fs\<rparr>, None, False)
          | (fs, Some res) \<Rightarrow>
              let s1 = s\<lparr>ss_futures := fs\<rparr>; hit = lr_hit_length res;
                  need = (if hit < num_computed then 0 else hit - num_computed) in
              if need \<le> 0 then (s1, Some 0, False)
              else (s1\<lparr>ss_load_specs := dict_set (ss_load_specs s1) rid
                      \<lparr>ls_vllm_cached_tokens = num_computed, ls_kvpool_cached_tokens = hit,
                       ls_can_load = False, ls_tail_key_boundaries = lr_tail_key_boundaries res\<rparr>\<rparr>,
                    Some need, ss_load_async s))"

text \<open>\<open>blocks\<close> are the block ids of the store's groups, as \<open>get_block_ids\<close> selects them.\<close>

definition update_state_after_alloc ::
    "store_sched \<Rightarrow> string \<Rightarrow> int list list \<Rightarrow> int \<Rightarrow> store_sched \<times> py_error option" where
  "update_state_after_alloc s rid blocks num_external =
     (let local = (if 0 < num_external then blocks else []);
          s1 = s\<lparr>ss_unfinished_requests := dict_set (ss_unfinished_requests s) rid local,
                 ss_unfinished_request_ids := insert rid (ss_unfinished_request_ids s)\<rparr> in
      case map_of (ss_load_specs s1) rid of
        None \<Rightarrow> (s1, None)
      | Some ls \<Rightarrow>
          if num_external = 0
          then (s1\<lparr>ss_load_specs := dict_set (ss_load_specs s1) rid (ls\<lparr>ls_can_load := False\<rparr>)\<rparr>, None)
          else if \<not> (0 < num_external \<and> num_external = ls_kvpool_cached_tokens ls - ls_vllm_cached_tokens ls)
          then (s1, Some AssertionError)
          else (s1\<lparr>ss_load_specs := dict_set (ss_load_specs s1) rid (ls\<lparr>ls_can_load := True\<rparr>)\<rparr>, None))"

section \<open>The metadata of one step\<close>

record new_request =
  nq_req_id :: string
  nq_num_computed_tokens :: int
  nq_block_ids :: "int list list"
  nq_prompt_token_ids :: "int list option"
  nq_prefill_token_ids :: "int list option"

record cached_request =
  cq_req_id :: string
  cq_new_block_ids :: "int list list option"
  cq_num_computed_tokens :: int

record block_state =
  bs_boundary_state_offloads :: "(string \<times> (int \<times> int \<times> int) list) list"
  bs_block_ids :: "(string \<times> int list list) list"

record sched_output =
  so_finished_req_ids :: "string list"
  so_preempted_req_ids :: "string list"
  so_new_reqs :: "new_request list"
  so_cached_reqs :: "cached_request list"
  so_resumed_req_ids :: "string list"
  so_num_scheduled_tokens :: "(string \<times> int) list"
  so_block_state :: "block_state option"

definition new_req_prefill_tokens :: "new_request \<Rightarrow> int list result" where
  "new_req_prefill_tokens r = (case nq_prefill_token_ids r of
       Some ts \<Rightarrow> Inr ts
     | None \<Rightarrow> (case nq_prompt_token_ids r of Some ts \<Rightarrow> Inr ts | None \<Rightarrow> Inl AssertionError))"

text \<open>\<open>tuple(block_ids[group_id] for group_id in self._store_group_ids)\<close>\<close>

definition select_groups :: "store_sched \<Rightarrow> 'a list \<Rightarrow> 'a list result" where
  "select_groups s xs = map_res (\<lambda>g. if g < length xs then Inr (xs ! g) else Inl IndexError) (ss_store_group_ids s)"

definition finish_request :: "string \<Rightarrow> store_sched \<Rightarrow> store_sched" where
  "finish_request rid s =
     s\<lparr>ss_futures := discard_lookup (ss_futures s) rid,
       ss_load_specs := dict_pop (ss_load_specs s) rid,
       ss_request_trackers := dict_pop (ss_request_trackers s) rid,
       ss_unfinished_requests := dict_pop (ss_unfinished_requests s) rid,
       ss_unfinished_request_ids := ss_unfinished_request_ids s - {rid}\<rparr>"

definition preempt_request :: "string \<Rightarrow> store_sched \<Rightarrow> store_sched" where
  "preempt_request rid s =
     s\<lparr>ss_load_specs := dict_pop (ss_load_specs s) rid,
       ss_request_trackers := (case map_of (ss_request_trackers s) rid of
           None \<Rightarrow> ss_request_trackers s
         | Some t \<Rightarrow> dict_set (ss_request_trackers s) rid (tracker_reset t)),
       ss_unfinished_requests := dict_pop (ss_unfinished_requests s) rid\<rparr>"

type_synonym meta_state = "store_sched \<times> store_meta list"

text \<open>Store the tracker, build the metadata from it and append it if there is any.\<close>

definition track_and_emit ::
    "(int \<Rightarrow> int \<Rightarrow> int) \<Rightarrow> string \<Rightarrow> request_tracker \<Rightarrow> load_spec option \<Rightarrow> bool \<Rightarrow> byte list list \<Rightarrow> meta_state \<Rightarrow> meta_state" where
  "track_and_emit cdiv rid t spec skip hashes st =
     (let (t', m) = from_request_tracker cdiv rid t (ss_block_size (fst st)) spec skip hashes in
      ((fst st)\<lparr>ss_request_trackers := dict_set (ss_request_trackers (fst st)) rid t'\<rparr>,
       (case m of None \<Rightarrow> snd st | Some x \<Rightarrow> snd st @ [x])))"

definition fresh_tracker :: "store_sched \<Rightarrow> int \<Rightarrow> int list list \<Rightarrow> int list \<Rightarrow> request_tracker" where
  "fresh_tracker s num_tokens blocks prefill_tokens =
     \<lparr>rt_token_len = num_tokens, rt_allocated_block_ids = blocks, rt_num_saved_tokens = 0,
      rt_token_ids = (if ss_enable_kv_events s then Some (py_slice prefill_tokens 0 num_tokens) else None),
      rt_has_pending_offload = False, rt_prefill_end_tokens = int (length prefill_tokens)\<rparr>"

definition new_req_step ::
    "(int \<Rightarrow> int \<Rightarrow> int) \<Rightarrow> (string \<Rightarrow> request) \<Rightarrow> sched_output \<Rightarrow> new_request \<Rightarrow> meta_state \<Rightarrow> meta_state \<times> flow" where
  "new_req_step cdiv req out r st =
     (let rid = nq_req_id r; spec = map_of (ss_load_specs (fst st)) rid;
          s1 = (fst st)\<lparr>ss_load_specs := dict_pop (ss_load_specs (fst st)) rid\<rparr>; st1 = (s1, snd st) in
      case bind_res (dict_item (so_num_scheduled_tokens out) rid) (\<lambda>scheduled.
             if \<not> dict_has (ss_unfinished_requests s1) rid then Inl AssertionError
             else bind_res (select_groups s1 (nq_block_ids r)) (\<lambda>blocks.
               bind_res (new_req_prefill_tokens r) (\<lambda>prefill.
                 Inr (fresh_tracker s1 (nq_num_computed_tokens r + scheduled) blocks prefill)))) of
        Inl e \<Rightarrow> (st1, Raise e)
      | Inr t \<Rightarrow> (track_and_emit cdiv rid t spec (ss_consumer s1) (rq_block_hashes (req rid)) st1, Continue))"

definition resumed_req_step ::
    "(int \<Rightarrow> int \<Rightarrow> int) \<Rightarrow> (string \<Rightarrow> request) \<Rightarrow> sched_output \<Rightarrow> string \<Rightarrow> int list list \<Rightarrow> meta_state \<Rightarrow> meta_state \<times> flow" where
  "resumed_req_step cdiv req out rid blocks st =
     (if blocks = [] then (st, Continue)
      else let spec = map_of (ss_load_specs (fst st)) rid;
               s1 = (fst st)\<lparr>ss_load_specs := dict_pop (ss_load_specs (fst st)) rid\<rparr>; st1 = (s1, snd st) in
        if \<not> dict_has (ss_unfinished_requests s1) rid then (st1, Raise TypeError)
        else case dict_item (so_num_scheduled_tokens out) rid of
            Inl e \<Rightarrow> (st1, Raise e)
          | Inr scheduled \<Rightarrow>
              let t = fresh_tracker s1 (rq_num_computed_tokens (req rid) + scheduled) blocks (rq_all_token_ids (req rid))
              in (track_and_emit cdiv rid t spec (ss_consumer s1) (rq_block_hashes (req rid)) st1, Continue))"

text \<open>The tracker after the tokens of this step, before its blocks are added.\<close>

definition advance_tracker :: "request \<Rightarrow> int \<Rightarrow> request_tracker \<Rightarrow> request_tracker" where
  "advance_tracker r num_new t =
     (let new_ids = py_slice (rq_all_token_ids r) (rt_token_len t) (rt_token_len t + num_new) in
      t\<lparr>rt_token_len := rt_token_len t + int (length new_ids),
        rt_token_ids := map_option (\<lambda>ids. ids @ new_ids) (rt_token_ids t)\<rparr>)"

definition running_req_step ::
    "(int \<Rightarrow> int \<Rightarrow> int) \<Rightarrow> (string \<Rightarrow> request) \<Rightarrow> sched_output \<Rightarrow> cached_request \<Rightarrow> int list list \<Rightarrow> meta_state \<Rightarrow> meta_state \<times> flow" where
  "running_req_step cdiv req out r blocks st =
     (let s = fst st; rid = cq_req_id r in
      case map_of (ss_request_trackers s) rid of
        None \<Rightarrow> (st, Raise KeyError)
      | Some t \<Rightarrow>
          let is_decode = rt_prefill_end_tokens t \<le> cq_num_computed_tokens r in
          if is_decode \<and> \<not> ss_save_decode_cache s then (st, Continue)
          else case dict_item (so_num_scheduled_tokens out) rid of
              Inl e \<Rightarrow> (st, Raise e)
            | Inr num_new \<Rightarrow>
                if \<not> dict_has (ss_unfinished_requests s) rid then (st, Raise ValueError)
                else let t1 = advance_tracker (req rid) num_new t;
                         put = (\<lambda>t'. (s\<lparr>ss_request_trackers := dict_set (ss_request_trackers s) rid t'\<rparr>, snd st)) in
                  case (if blocks = [] then Inr t1 else tracker_update t1 blocks) of
                    Inl e \<Rightarrow> (put t1, Raise e)
                  | Inr t2 \<Rightarrow>
                      if ss_consumer s \<and> \<not> is_decode then (put t2, Continue)
                      else (track_and_emit cdiv rid t2 None False (rq_block_hashes (req rid)) (put t2), Continue))"

definition cached_req_step ::
    "(int \<Rightarrow> int \<Rightarrow> int) \<Rightarrow> (string \<Rightarrow> request) \<Rightarrow> sched_output \<Rightarrow> cached_request \<Rightarrow> meta_state \<Rightarrow> meta_state \<times> flow" where
  "cached_req_step cdiv req out r st =
     (case (case cq_new_block_ids r of
              None \<Rightarrow> Inr []
            | Some bs \<Rightarrow> if bs = [] then Inr [] else select_groups (fst st) bs) of
        Inl e \<Rightarrow> (st, Raise e)
      | Inr blocks \<Rightarrow>
          if cq_req_id r \<in> set (so_resumed_req_ids out) then resumed_req_step cdiv req out (cq_req_id r) blocks st
          else running_req_step cdiv req out r blocks st)"

text \<open>A pending load of a request that is not scheduled in this step.\<close>

definition pending_load_step ::
    "(int \<Rightarrow> int \<Rightarrow> int) \<Rightarrow> (string \<Rightarrow> request) \<Rightarrow> sched_output \<Rightarrow> string \<times> int list list \<Rightarrow> meta_state \<Rightarrow> meta_state" where
  "pending_load_step cdiv req out x st =
     (case x of (rid, block_ids) \<Rightarrow>
        if rid \<in> set (map nq_req_id (so_new_reqs out)) \<or> rid \<in> set (map cq_req_id (so_cached_reqs out)) then st
        else let spec = map_of (ss_load_specs (fst st)) rid;
                 s1 = (fst st)\<lparr>ss_load_specs := dict_pop (ss_load_specs (fst st)) rid\<rparr>; st1 = (s1, snd st) in
          case spec of
            None \<Rightarrow> st1
          | Some ls \<Rightarrow>
              if \<not> ls_can_load ls then st1
              else track_and_emit cdiv rid
                     \<lparr>rt_token_len = ls_kvpool_cached_tokens ls, rt_allocated_block_ids = block_ids, rt_num_saved_tokens = 0,
                      rt_token_ids = None, rt_has_pending_offload = False, rt_prefill_end_tokens = 0\<rparr>
                     (Some ls) False (rq_block_hashes (req rid)) st1)"

section \<open>Boundary states, block tables and references\<close>

definition accepted_offloads ::
    "store_sched \<Rightarrow> request_tracker \<Rightarrow> (int \<times> int \<times> int) list \<Rightarrow> (int \<times> int \<times> int) list" where
  "accepted_offloads s t entries =
     concat (map (\<lambda>(g, b, boundary).
       if rt_prefill_end_tokens t < boundary \<or> b = ss_null_block_id s then []
       else case store_group_of s g of
           None \<Rightarrow> []
         | Some sg \<Rightarrow> if sg \<in> set (ss_boundary_state_group_ids s) then [(sg, b, boundary)] else []) entries)"

text \<open>The position of the last save of a request in the metadata.\<close>

fun last_save :: "string \<Rightarrow> nat \<Rightarrow> store_meta list \<Rightarrow> nat option" where
  "last_save rid i [] = None"
| "last_save rid i (m # ms) = (case last_save rid (Suc i) ms of
       Some j \<Rightarrow> Some j
     | None \<Rightarrow> if sm_can_save m \<and> sm_req_id m = rid then Some i else None)"

definition offload_step ::
    "(string \<Rightarrow> request) \<Rightarrow> store_meta list \<Rightarrow> string \<times> (int \<times> int \<times> int) list \<Rightarrow> meta_state \<Rightarrow> meta_state" where
  "offload_step req metas0 x st =
     (case x of (rid, entries) \<Rightarrow>
        let s = fst st in
        case map_of (ss_request_trackers s) rid of
          None \<Rightarrow> st
        | Some t \<Rightarrow>
            if \<not> dict_has (ss_unfinished_requests s) rid then st
            else let acc = accepted_offloads s t entries in
              if acc = [] then st
              else let s1 = s\<lparr>ss_request_trackers := dict_set (ss_request_trackers s) rid (t\<lparr>rt_has_pending_offload := True\<rparr>)\<rparr> in
                case last_save rid 0 metas0 of
                  Some i \<Rightarrow> (s1, (snd st)[i := (snd st ! i)\<lparr>sm_boundary_state_offloads := Some acc\<rparr>])
                | None \<Rightarrow> (s1, snd st @ [\<lparr>sm_req_id = rid, sm_token_len_chunk = 0, sm_block_ids = rt_allocated_block_ids t,
                      sm_block_hashes = rq_block_hashes (req rid), sm_can_save = True, sm_load_spec = None, sm_token_ids = None,
                      sm_token_ids_start = 0, sm_num_prompt_tokens = Some (rt_prefill_end_tokens t), sm_store_job_id = None,
                      sm_boundary_state_offloads = Some acc\<rparr>]))"

definition handle_boundary_state_offloads ::
    "(string \<Rightarrow> request) \<Rightarrow> (string \<times> (int \<times> int \<times> int) list) list \<Rightarrow> meta_state \<Rightarrow> meta_state" where
  "handle_boundary_state_offloads req offloads st = fold (offload_step req (snd st)) offloads st"

definition apply_current_save_block_ids :: "store_sched \<Rightarrow> sched_output \<Rightarrow> store_meta list \<Rightarrow> store_meta list result" where
  "apply_current_save_block_ids s out metas =
     (if \<not> list_ex sm_can_save metas then Inr metas
      else case so_block_state out of
          None \<Rightarrow> Inl AssertionError
        | Some bst \<Rightarrow> map_res (\<lambda>m.
            if \<not> sm_can_save m then Inr m
            else case map_of (bs_block_ids bst) (sm_req_id m) of
                None \<Rightarrow> Inl AssertionError
              | Some ids \<Rightarrow> bind_res (select_groups s ids) (\<lambda>groups. Inr (m\<lparr>sm_block_ids := groups\<rparr>))) metas)"

text \<open>\<open>list(dict.fromkeys(xs))\<close>: the first occurrence of every element.\<close>

definition dedup :: "'a list \<Rightarrow> 'a list" where
  "dedup xs = rev (remdups (rev xs))"

definition offload_blocks :: "store_meta \<Rightarrow> int list" where
  "offload_blocks m = (case sm_boundary_state_offloads m of None \<Rightarrow> [] | Some os \<Rightarrow> map (\<lambda>(_, b, _). b) os)"

definition table_blocks :: "store_sched \<Rightarrow> store_meta \<Rightarrow> int list" where
  "table_blocks s m =
     [b. (g, blocks) \<leftarrow> List.enumerate 0 (sm_block_ids m), int g \<notin> set (ss_boundary_state_group_ids s),
         b \<leftarrow> blocks, b \<noteq> ss_null_block_id s]"

text \<open>The state after taking the references of one job.\<close>

definition pin_job :: "int \<Rightarrow> int list \<Rightarrow> store_sched \<Rightarrow> store_sched" where
  "pin_job job block_ids s =
     s\<lparr>ss_pinned_saves := dict_set (ss_pinned_saves s) job (block_ids, ss_num_workers s),
       ss_pool_calls := ss_pool_calls s @ [Touch block_ids]\<rparr>"

definition reference_one :: "store_meta \<Rightarrow> meta_state \<Rightarrow> meta_state \<times> flow" where
  "reference_one m st =
     (let s = fst st in
      if \<not> sm_can_save m then ((s, snd st @ [m]), Continue)
      else if \<not> ss_pool_bound s then (st, Raise AssertionError)
      else case sm_store_job_id m of
          Some job \<Rightarrow>
            if job \<in> fst ` set (ss_pinned_saves s) then ((s, snd st @ [m]), Continue) else (st, Raise AssertionError)
        | None \<Rightarrow>
            let job = ss_next_store_job_id s;
                s1 = s\<lparr>ss_next_store_job_id := job + 1\<rparr>;
                m1 = m\<lparr>sm_store_job_id := Some job\<rparr> in
            if ss_null_block_id s \<in> set (offload_blocks m) then ((s1, snd st), Raise AssertionError)
            else let block_ids = dedup (offload_blocks m @ table_blocks s m) in
              if ss_null_block_id s \<in> set block_ids then ((s1, snd st), Raise AssertionError)
              else if block_ids = [] then ((s1, snd st @ [m1]), Continue)
              else ((pin_job job block_ids s1, snd st @ [m1]), Continue))"

definition reference_save_blocks :: "store_sched \<Rightarrow> store_meta list \<Rightarrow> meta_state \<times> py_error option" where
  "reference_save_blocks s metas = for_loop reference_one metas (s, [])"

section \<open>One step\<close>

text \<open>Everything of \<open>build_connector_meta\<close> up to the current block tables.\<close>

definition collect_requests ::
    "(int \<Rightarrow> int \<Rightarrow> int) \<Rightarrow> (string \<Rightarrow> request) \<Rightarrow> sched_output \<Rightarrow> store_sched \<Rightarrow> meta_state \<times> py_error option" where
  "collect_requests cdiv req out s =
     (let s1 = fold preempt_request (so_preempted_req_ids out) (fold finish_request (so_finished_req_ids out) s) in
      case for_loop (new_req_step cdiv req out) (so_new_reqs out) (s1, []) of
        (st, Some e) \<Rightarrow> (st, Some e)
      | (st, None) \<Rightarrow>
          case (if \<not> ss_consumer s \<or> ss_save_decode_cache s
                then for_loop (cached_req_step cdiv req out) (so_cached_reqs out) st else (st, None)) of
            (st', Some e) \<Rightarrow> (st', Some e)
          | (st', None) \<Rightarrow>
              let st2 = fold (pending_load_step cdiv req out) (ss_unfinished_requests (fst st')) st' in
              ((case so_block_state out of
                  Some bst \<Rightarrow> if bs_boundary_state_offloads bst \<noteq> [] \<and> \<not> ss_consumer s
                              then handle_boundary_state_offloads req (bs_boundary_state_offloads bst) st2 else st2
                | None \<Rightarrow> st2), None))"

definition build_connector_meta ::
    "(int \<Rightarrow> int \<Rightarrow> int) \<Rightarrow> (string \<Rightarrow> request) \<Rightarrow> sched_output \<Rightarrow> store_sched \<Rightarrow> store_sched \<times> store_meta list result" where
  "build_connector_meta cdiv req out s =
     (case collect_requests cdiv req out s of
        ((s1, _), Some e) \<Rightarrow> (s1, Inl e)
      | ((s1, metas), None) \<Rightarrow>
          (case apply_current_save_block_ids s1 out metas of
             Inl e \<Rightarrow> (s1, Inl e)
           | Inr metas' \<Rightarrow>
               (case reference_save_blocks (s1\<lparr>ss_finished_partial_tail_metas := []\<rparr>)
                       (metas' @ map snd (ss_finished_partial_tail_metas s1)) of
                  ((s2, _), Some e) \<Rightarrow> (s2, Inl e)
                | ((s2, metas''), None) \<Rightarrow> (s2, Inr metas''))))"

section \<open>Finish-time tails and completions\<close>

text \<open>The loop over the offloads; \<open>None\<close> is an early \<open>return False\<close>.\<close>

fun remap_offloads :: "store_sched \<Rightarrow> (int \<times> int \<times> int) list \<Rightarrow> (int \<times> int \<times> int) list option" where
  "remap_offloads s [] = Some []"
| "remap_offloads s ((g, b, boundary) # es) = (case store_group_of s g of
       None \<Rightarrow> None
     | Some sg \<Rightarrow>
         if sg \<notin> set (ss_boundary_state_group_ids s) then None
         else if b = ss_null_block_id s then None
         else map_option (\<lambda>r. (sg, b, boundary) # r) (remap_offloads s es))"

definition register_finished_partial_tail ::
    "(string \<Rightarrow> request) \<Rightarrow> string \<Rightarrow> int list list \<Rightarrow> (int \<times> int \<times> int) list \<Rightarrow> store_sched \<Rightarrow> store_sched \<times> bool result" where
  "register_finished_partial_tail req rid block_ids offloads s =
     (if ss_consumer s \<or> offloads = [] then (s, Inr False)
      else case map_of (ss_request_trackers s) rid of
          None \<Rightarrow> (s, Inr False)
        | Some t \<Rightarrow>
            if list_all (\<lambda>b. b = []) block_ids then (s, Inr False)
            else if length (remdups (map (snd \<circ> snd) offloads)) \<noteq> 1 then (s, Inl ValueError)
            else if rt_prefill_end_tokens t < snd (snd (hd offloads)) then (s, Inr False)
            else case remap_offloads s offloads of
                None \<Rightarrow> (s, Inr False)
              | Some remapped \<Rightarrow>
                  let pinned = dedup (map (\<lambda>(_, b, _). b) remapped) in
                  if \<not> ss_pool_bound s then (s, Inl AssertionError)
                  else if dict_has (ss_finished_partial_tail_metas s) rid then (s, Inl AssertionError)
                  else let job = ss_next_store_job_id s;
                           s1 = pin_job job pinned (s\<lparr>ss_next_store_job_id := job + 1\<rparr>) in
                    case select_groups s1 block_ids of
                      Inl e \<Rightarrow> (s1, Inl e)
                    | Inr groups \<Rightarrow>
                        (s1\<lparr>ss_finished_partial_tail_metas := dict_set (ss_finished_partial_tail_metas s1) rid
                              \<lparr>sm_req_id = rid, sm_token_len_chunk = 0, sm_block_ids = groups,
                               sm_block_hashes = rq_block_hashes (req rid), sm_can_save = True, sm_load_spec = None,
                               sm_token_ids = None, sm_token_ids_start = 0,
                               sm_num_prompt_tokens = Some (rt_prefill_end_tokens t), sm_store_job_id = Some job,
                               sm_boundary_state_offloads = Some remapped\<rparr>,
                            ss_request_trackers := dict_set (ss_request_trackers s1) rid (t\<lparr>rt_has_pending_offload := True\<rparr>)\<rparr>,
                         Inr False))"

text \<open>One entry of \<open>completed_saves\<close>.\<close>

definition complete_job :: "int \<times> int \<Rightarrow> store_sched \<Rightarrow> store_sched \<times> flow" where
  "complete_job x s =
     (case x of (job, ranks) \<Rightarrow> case map_of (ss_pinned_saves s) job of
        None \<Rightarrow> (s, Continue)
      | Some (block_ids, remaining) \<Rightarrow>
          let left = remaining - ranks in
          if 0 < left then (s\<lparr>ss_pinned_saves := dict_set (ss_pinned_saves s) job (block_ids, left)\<rparr>, Continue)
          else if left \<noteq> 0 then (s, Raise AssertionError)
          else (s\<lparr>ss_pinned_saves := dict_pop (ss_pinned_saves s) job,
                  ss_pool_calls := ss_pool_calls s @ [FreeBlocks (rev block_ids)]\<rparr>, Continue))"

definition update_connector_output :: "(int \<times> int) list option \<Rightarrow> store_sched \<Rightarrow> store_sched \<times> py_error option" where
  "update_connector_output completed s = (case completed of
       None \<Rightarrow> (s, None)
     | Some xs \<Rightarrow> if \<not> ss_pool_bound s then (s, Some AssertionError) else for_loop complete_job xs s)"

definition has_pending_push_work :: "store_sched \<Rightarrow> bool" where
  "has_pending_push_work s \<longleftrightarrow> ss_pinned_saves s \<noteq> []"

definition reset_store :: "(byte list list \<Rightarrow> byte list result) \<Rightarrow> bool" where
  "reset_store server = (case client_reset server of Inl _ \<Rightarrow> False | Inr ok \<Rightarrow> ok)"

section \<open>What a step leaves alone\<close>

text \<open>The part of the state that the references to blocks depend on.\<close>

definition pin_part ::
    "store_sched \<Rightarrow> (int \<times> int \<times> (int \<times> (int list \<times> int)) list \<times> (string \<times> store_meta) list \<times> pool_call list) \<times> (int \<times> int list \<times> bool)" where
  "pin_part s = ((ss_num_workers s, ss_next_store_job_id s, ss_pinned_saves s, ss_finished_partial_tail_metas s, ss_pool_calls s),
     (ss_null_block_id s, ss_boundary_state_group_ids s, ss_pool_bound s))"

lemma for_loop_frame:
  "(\<And>x st. P (fst (f x st)) = P st) \<Longrightarrow> P (fst (for_loop f xs st)) = P st"
proof (induction xs arbitrary: st)
  case (Cons x xs)
  obtain st' fl where f: "f x st = (st', fl)" by (cases "f x st")
  then have "P st' = P st" using Cons.prems[of x st] by simp
  then show ?case using f Cons.IH[OF Cons.prems] by (cases fl) auto
qed simp

lemma fold_frame: "(\<And>x st. P (f x st) = P st) \<Longrightarrow> P (fold f xs st) = P st"
  by (induction xs arbitrary: st) auto

lemma pin_part_simps [simp]:
  "pin_part (s\<lparr>ss_load_specs := a\<rparr>) = pin_part s"
  "pin_part (s\<lparr>ss_request_trackers := b\<rparr>) = pin_part s"
  "pin_part (s\<lparr>ss_futures := c\<rparr>) = pin_part s"
  "pin_part (finish_request rid s) = pin_part s"
  "pin_part (preempt_request rid s) = pin_part s"
  by (simp_all add: pin_part_def finish_request_def preempt_request_def)

lemma track_and_emit_frame [simp]: "pin_part (fst (track_and_emit cdiv rid t spec skip hs st)) = pin_part (fst st)"
  by (simp add: track_and_emit_def split: prod.splits)

lemma new_req_frame: "pin_part (fst (fst (new_req_step cdiv req out r st))) = pin_part (fst st)"
  by (simp add: new_req_step_def Let_def split: sum.splits)

lemma cached_req_frame: "pin_part (fst (fst (cached_req_step cdiv req out r st))) = pin_part (fst st)"
  by (auto simp: cached_req_step_def resumed_req_step_def running_req_step_def Let_def split: sum.splits option.splits)

lemma pending_load_frame: "pin_part (fst (pending_load_step cdiv req out x st)) = pin_part (fst st)"
  by (auto simp: pending_load_step_def Let_def split: option.splits prod.splits)

lemma offload_step_frame: "pin_part (fst (offload_step req ms x st)) = pin_part (fst st)"
  by (auto simp: offload_step_def Let_def split: option.splits prod.splits)

lemma collect_requests_frame: "pin_part (fst (fst (collect_requests cdiv req out s))) = pin_part s"
proof -
  let ?s1 = "fold preempt_request (so_preempted_req_ids out) (fold finish_request (so_finished_req_ids out) s)"
  have s1: "pin_part ?s1 = pin_part s"
    using fold_frame[of pin_part preempt_request] fold_frame[of pin_part finish_request] by simp
  have new: "pin_part (fst (fst (for_loop (new_req_step cdiv req out) xs st))) = pin_part (fst st)" for xs st
    by (rule for_loop_frame[where P = "\<lambda>st. pin_part (fst st)"]) (rule new_req_frame)
  have cached: "pin_part (fst (fst (for_loop (cached_req_step cdiv req out) xs st))) = pin_part (fst st)" for xs st
    by (rule for_loop_frame[where P = "\<lambda>st. pin_part (fst st)"]) (rule cached_req_frame)
  have pend: "pin_part (fst (fold (pending_load_step cdiv req out) xs st)) = pin_part (fst st)" for xs st
    by (rule fold_frame[where P = "\<lambda>st. pin_part (fst st)"]) (rule pending_load_frame)
  have offl: "pin_part (fst (handle_boundary_state_offloads req xs st)) = pin_part (fst st)" for xs st
    unfolding handle_boundary_state_offloads_def
    by (rule fold_frame[where P = "\<lambda>st. pin_part (fst st)"]) (rule offload_step_frame)
  obtain st e where l1: "for_loop (new_req_step cdiv req out) (so_new_reqs out) (?s1, []) = (st, e)" by fastforce
  have st: "pin_part (fst st) = pin_part s" using new[of "so_new_reqs out" "(?s1, [])"] l1 s1 by simp
  obtain st' e' where l2: "(if \<not> ss_consumer s \<or> ss_save_decode_cache s
      then for_loop (cached_req_step cdiv req out) (so_cached_reqs out) st else (st, None)) = (st', e')" by fastforce
  have "pin_part (fst st') = pin_part s"
    using cached[of "so_cached_reqs out" st] l2 st by (auto split: if_splits)
  then show ?thesis using l1 l2 st pend offl
    by (auto simp: collect_requests_def Let_def split: option.splits)
qed

lemma matched_tokens_frame: "pin_part (fst (get_num_new_matched_tokens wait ready s rid r n)) = pin_part s"
  by (auto simp: get_num_new_matched_tokens_def Let_def split: prod.splits option.splits)

lemma after_alloc_frame: "pin_part (fst (update_state_after_alloc s rid blocks n)) = pin_part s"
  by (auto simp: update_state_after_alloc_def Let_def pin_part_def split: option.splits)

text \<open>Metadata has no job id before the references are taken.\<close>

lemma for_loop_all:
  assumes "for_loop f xs st = (st', e)" and "P st" and "\<forall>x st. P st \<longrightarrow> P (fst (f x st))"
  shows "P st'"
  using assms(1,2)
proof (induction xs arbitrary: st)
  case (Cons x xs)
  obtain st1 fl where f: "f x st = (st1, fl)" by (cases "f x st")
  have "P st1" using assms(3) Cons.prems(2) f by (metis fst_conv)
  then show ?case using Cons f by (cases fl) auto
qed simp

lemma fold_all: "P st \<Longrightarrow> \<forall>x st. P st \<longrightarrow> P (f x st) \<Longrightarrow> P (fold f xs st)"
  by (induction xs arbitrary: st) auto

definition no_jobs :: "store_meta list \<Rightarrow> bool" where
  "no_jobs ms \<longleftrightarrow> (\<forall>m \<in> set ms. sm_store_job_id m = None)"

lemma no_jobs_emit: "no_jobs (snd st) \<Longrightarrow> no_jobs (snd (track_and_emit cdiv rid t spec skip hs st))"
  by (auto simp: no_jobs_def track_and_emit_def from_request_tracker_def Let_def split: prod.splits option.splits if_splits)

lemma no_jobs_update:
  assumes "no_jobs ms" shows "no_jobs (ms[i := (ms ! i)\<lparr>sm_boundary_state_offloads := v\<rparr>])"
proof (cases "i < length ms")
  case True
  then have "sm_store_job_id (ms ! i) = None" using assms by (simp add: no_jobs_def)
  then show ?thesis using assms set_update_subset_insert[of ms i] by (fastforce simp: no_jobs_def)
next
  case False
  then show ?thesis using assms by (simp add: list_update_beyond)
qed

lemma new_req_no_jobs: "no_jobs (snd st) \<Longrightarrow> no_jobs (snd (fst (new_req_step cdiv req out r st)))"
  by (auto simp: new_req_step_def Let_def intro!: no_jobs_emit split: sum.splits)

lemma cached_req_no_jobs: "no_jobs (snd st) \<Longrightarrow> no_jobs (snd (fst (cached_req_step cdiv req out r st)))"
  by (auto simp: cached_req_step_def resumed_req_step_def running_req_step_def Let_def
      intro!: no_jobs_emit split: sum.splits option.splits)

lemma pending_load_no_jobs: "no_jobs (snd st) \<Longrightarrow> no_jobs (snd (pending_load_step cdiv req out x st))"
  by (auto simp: pending_load_step_def Let_def intro!: no_jobs_emit split: option.splits prod.splits)

lemma offload_no_jobs: "no_jobs (snd st) \<Longrightarrow> no_jobs (snd (offload_step req ms x st))"
  by (auto simp: offload_step_def Let_def no_jobs_update split: option.splits prod.splits)
    (auto simp: no_jobs_def)

lemma collect_requests_no_jobs: "no_jobs (snd (fst (collect_requests cdiv req out s)))"
proof -
  let ?s1 = "fold preempt_request (so_preempted_req_ids out) (fold finish_request (so_finished_req_ids out) s)"
  obtain st e where l1: "for_loop (new_req_step cdiv req out) (so_new_reqs out) (?s1, []) = (st, e)" by fastforce
  have st: "no_jobs (snd st)"
    by (rule for_loop_all[OF l1, where P = "\<lambda>st. no_jobs (snd st)"]) (auto intro: new_req_no_jobs, simp add: no_jobs_def)
  obtain st' e' where l2: "(if \<not> ss_consumer s \<or> ss_save_decode_cache s
      then for_loop (cached_req_step cdiv req out) (so_cached_reqs out) st else (st, None)) = (st', e')" by fastforce
  have st': "no_jobs (snd st')"
  proof (cases "\<not> ss_consumer s \<or> ss_save_decode_cache s")
    case True
    then have "for_loop (cached_req_step cdiv req out) (so_cached_reqs out) st = (st', e')" using l2 by simp
    then show ?thesis by (rule for_loop_all[where P = "\<lambda>st. no_jobs (snd st)"]) (auto intro: cached_req_no_jobs st)
  qed (use l2 st in auto)
  have pend: "no_jobs (snd (fold (pending_load_step cdiv req out) xs st'))" for xs
    using st' by (rule fold_all[where P = "\<lambda>st. no_jobs (snd st)"]) (auto intro: pending_load_no_jobs)
  have "no_jobs (snd (handle_boundary_state_offloads req os st2))" if "no_jobs (snd st2)" for os st2
    unfolding handle_boundary_state_offloads_def using that
    by (rule fold_all[where P = "\<lambda>st. no_jobs (snd st)"]) (auto intro: offload_no_jobs)
  then show ?thesis using l1 l2 st st' pend
    by (auto simp: collect_requests_def Let_def split: option.splits)
qed

section \<open>Saves and loads\<close>

text \<open>A tracker whose saved prefix is whole blocks within the tokens it tracks.\<close>

definition tracker_wf :: "int \<Rightarrow> request_tracker \<Rightarrow> bool" where
  "tracker_wf bs t \<longleftrightarrow> 0 \<le> rt_num_saved_tokens t \<and> bs dvd rt_num_saved_tokens t \<and> rt_num_saved_tokens t \<le> rt_token_len t"

lemma floor_block:
  fixes x bs :: int
  assumes "0 < bs"
  shows "bs dvd x div bs * bs" "x div bs * bs \<le> x" "x < x div bs * bs + bs"
  using assms div_eq_iff[of bs x "x div bs"] by (auto simp: algebra_simps)

lemma next_boundary:
  assumes "is_cdiv cdiv" "0 < bs" "bs dvd a"
  shows "cdiv (a + 1) bs * bs = a + bs"
proof -
  obtain k where k: "a = k * bs" using assms(3) by (auto simp: dvd_def mult.commute)
  have "k < cdiv (a + 1) bs" using is_cdivD(1)[OF assms(1,2), of k "a + 1"] k by simp
  moreover have "cdiv (a + 1) bs \<le> k + 1" using is_cdivD(2)[OF assms(1,2), of "a + 1" "k + 1"] k assms(2) by (simp add: algebra_simps)
  ultimately have "cdiv (a + 1) bs = k + 1" by simp
  then show ?thesis using k by (simp add: algebra_simps)
qed

text \<open>
  A request is saved in whole blocks, in order and without overlap, and never in the same
  metadata as a load: metadata that saves covers exactly the tokens from the old to the new saved
  position, the new position is the last block boundary the tracked tokens reach, and metadata
  that does not save leaves the tracker as it was; a request with a load pending is not saved, and
  one without a load and without a new full block gets no metadata.
\<close>

lemma save_ranges_advance:
  assumes "is_cdiv cdiv" and "0 < bs" and "tracker_wf bs t"
    and "from_request_tracker cdiv rid t bs spec skip hashes = (t', m)"
  shows "tracker_wf bs t' \<and> (m = None \<longrightarrow> t' = t) \<and>
    (m = None \<longleftrightarrow> spec = None \<and> (skip \<or> rt_token_len t < rt_num_saved_tokens t + bs)) \<and>
    (\<forall>x. m = Some x \<longrightarrow>
      \<not> (sm_can_save x \<and> sm_load_spec x \<noteq> None) \<and>
      (sm_load_spec x \<noteq> None \<longleftrightarrow> (\<exists>ls. spec = Some ls \<and> ls_can_load ls)) \<and>
      (sm_can_save x \<longrightarrow> sm_token_ids_start x = rt_num_saved_tokens t \<and>
         sm_token_len_chunk x = rt_num_saved_tokens t' \<and> rt_num_saved_tokens t < rt_num_saved_tokens t' \<and>
         rt_token_len t < rt_num_saved_tokens t' + bs) \<and>
      (\<not> sm_can_save x \<longrightarrow> t' = t))"
proof -
  let ?new = "rt_token_len t div bs * bs"
  have b: "cdiv (rt_num_saved_tokens t + 1) bs * bs = rt_num_saved_tokens t + bs"
    using assms(1-3) by (intro next_boundary) (auto simp: tracker_wf_def)
  have f: "bs dvd ?new" "?new \<le> rt_token_len t" "rt_token_len t < ?new + bs" using floor_block[OF assms(2)] by auto
  obtain k where k: "rt_num_saved_tokens t = k * bs" using assms(3) by (auto simp: tracker_wf_def dvd_def mult.commute)
  have k1: "rt_num_saved_tokens t + bs = (k + 1) * bs" using k by (simp add: algebra_simps)
  have lt: "?new < rt_num_saved_tokens t + bs \<longleftrightarrow> rt_token_len t < rt_num_saved_tokens t + bs"
    unfolding k1 using assms(2) div_less_iff[OF assms(2), of "rt_token_len t" "k + 1"] by simp
  show ?thesis
    using assms(2-4) f lt unfolding from_request_tracker_def Let_def b
    by (auto simp: tracker_wf_def split: if_splits option.splits)
qed

lemma save_ranges_advance_witness:
  "tracker_wf 4 \<lparr>rt_token_len = 10, rt_allocated_block_ids = [[1, 2, 3]], rt_num_saved_tokens = 8, rt_token_ids = None,
     rt_has_pending_offload = False, rt_prefill_end_tokens = 12\<rparr>"
proof -
  let ?t = "\<lambda>n. \<lparr>rt_token_len = 10, rt_allocated_block_ids = [[1, 2, 3]], rt_num_saved_tokens = n, rt_token_ids = None,
     rt_has_pending_offload = False, rt_prefill_end_tokens = 12\<rparr>"
  have cd: "is_cdiv (\<lambda>a b. - ((- a) div b))" by (simp add: is_cdiv_def)
  obtain m where "from_request_tracker (\<lambda>a b. - ((- a) div b)) ''r'' (?t 4) 4 None False [] = (?t 8, Some m)"
    by (simp add: from_request_tracker_def)
  then show ?thesis using save_ranges_advance[OF cd, of 4 "?t 4"] by (simp add: tracker_wf_def)
qed

end
