(* ===== verification/Store_Sender.thy ===== *)
theory Store_Sender
  imports Store_Scheduler Store_Coordinator
begin

text \<open>
  The sending thread of the Mooncake store (\<^verbatim>\<open>mooncake/store/worker.py\<close>, \<open>KVCacheStoreSendingThread\<close>
  and the worker methods that feed and drain it).  A job is one \<open>ReqMeta\<close> with a job id.  The two
  calls to the store, \<open>batch_is_exist\<close> and \<open>batch_put_from_multi_buffers\<close>, are arguments that may
  raise; CUDA events, timing records and log messages have no effect on the state.  An event keeps
  the bytes of a hash, without vLLM's conversion.
\<close>

section \<open>State\<close>

datatype store_layout = RankLocal rank_local_layout | Sharded sharded_layout

record token_db =
  db_metadata :: key_metadata
  db_block_size :: int
  db_hash_block_size :: int
  db_layout :: store_layout

record stored_event =
  ev_block_hash :: "byte list"
  ev_parent_block_hash :: "byte list option"
  ev_token_ids :: "int list"
  ev_block_size :: int
  ev_group_idx :: nat

record sender =
  sd_coord :: coordinator
  sd_databases :: "token_db list"
  sd_tp_rank :: int
  sd_group_put_steps :: "int list"
  sd_group_participates :: "bool list"
  sd_enable_kv_event :: bool
  sd_use_group_ids :: bool
  sd_null_block_id :: int
  sd_queue :: "store_meta list"
  sd_stored_requests :: "(string \<times> int set) list"
  sd_completed_saves :: "(int \<times> int) list"
  sd_store_pressure_active :: bool
  sd_skip_store_requests :: "string set"
  sd_saved_offset :: "(string \<times> int) list"
  sd_retry_token_ids :: "(string \<times> (int \<times> int list)) list"
  sd_kv_events :: "stored_event list"

record store_ops =
  so_exist :: "string list \<Rightarrow> int list result"
  so_put :: "string list \<Rightarrow> int list list \<Rightarrow> int list list \<Rightarrow> string list option \<Rightarrow> int list result"

definition MOONCAKE_NO_AVAILABLE_HANDLE :: int where
  "MOONCAKE_NO_AVAILABLE_HANDLE = -200"

section \<open>The ledger\<close>

definition live_jobs :: "sender \<Rightarrow> string \<Rightarrow> int set" where
  "live_jobs d rid = (case map_of (sd_stored_requests d) rid of None \<Rightarrow> {} | Some js \<Rightarrow> js)"

definition is_live_store_job :: "sender \<Rightarrow> store_meta \<Rightarrow> bool" where
  "is_live_store_job d m = (case sm_store_job_id m of None \<Rightarrow> False | Some j \<Rightarrow> j \<in> live_jobs d (sm_req_id m))"

definition add_request :: "store_meta \<Rightarrow> sender \<Rightarrow> sender result" where
  "add_request m d = (case sm_store_job_id m of
       None \<Rightarrow> Inl AssertionError
     | Some j \<Rightarrow> Inr (d\<lparr>sd_stored_requests := dict_set (sd_stored_requests d) (sm_req_id m) (insert j (live_jobs d (sm_req_id m))),
                        sd_queue := sd_queue d @ [m]\<rparr>))"

definition delete_finished_stored_request :: "string \<Rightarrow> sender \<Rightarrow> sender" where
  "delete_finished_stored_request rid d =
     d\<lparr>sd_stored_requests := dict_pop (sd_stored_requests d) rid,
       sd_skip_store_requests := sd_skip_store_requests d - {rid},
       sd_saved_offset := dict_pop (sd_saved_offset d) rid,
       sd_retry_token_ids := dict_pop (sd_retry_token_ids d) rid\<rparr>"

definition count_of :: "(int \<times> int) list \<Rightarrow> int \<Rightarrow> int" where
  "count_of cs j = (case map_of cs j of None \<Rightarrow> 0 | Some n \<Rightarrow> n)"

definition finish_store_job :: "store_meta \<Rightarrow> sender \<Rightarrow> sender result" where
  "finish_store_job m d = (case sm_store_job_id m of
       None \<Rightarrow> Inl AssertionError
     | Some j \<Rightarrow>
         let d1 = (case map_of (sd_stored_requests d) (sm_req_id m) of
             None \<Rightarrow> d
           | Some js \<Rightarrow> d\<lparr>sd_stored_requests := dict_set (sd_stored_requests d) (sm_req_id m) (js - {j})\<rparr>)
         in Inr (d1\<lparr>sd_completed_saves := dict_set (sd_completed_saves d1) j (count_of (sd_completed_saves d1) j + 1)\<rparr>))"

definition take_completed_saves :: "sender \<Rightarrow> sender \<times> (int \<times> int) list" where
  "take_completed_saves d = (d\<lparr>sd_completed_saves := []\<rparr>, sd_completed_saves d)"

definition record_saved :: "store_meta \<Rightarrow> int \<Rightarrow> sender \<Rightarrow> sender" where
  "record_saved m token_len d =
     (if is_live_store_job d m then d\<lparr>sd_saved_offset := dict_set (sd_saved_offset d) (sm_req_id m) token_len\<rparr> else d)"

definition get_retry_token_ids :: "sender \<Rightarrow> store_meta \<Rightarrow> (int \<times> int list) option" where
  "get_retry_token_ids d m = (if is_live_store_job d m then map_of (sd_retry_token_ids d) (sm_req_id m) else None)"

definition update_retry_token_ids ::
    "store_meta \<Rightarrow> bool \<Rightarrow> int \<Rightarrow> int list option \<Rightarrow> sender \<Rightarrow> sender" where
  "update_retry_token_ids m save_completed token_ids_start event_token_ids d =
     (if \<not> is_live_store_job d m then d
      else if save_completed then d\<lparr>sd_retry_token_ids := dict_pop (sd_retry_token_ids d) (sm_req_id m)\<rparr>
      else case event_token_ids of
          None \<Rightarrow> d
        | Some ids \<Rightarrow> d\<lparr>sd_retry_token_ids := dict_set (sd_retry_token_ids d) (sm_req_id m) (token_ids_start, ids)\<rparr>)"

definition should_skip_request :: "sender \<Rightarrow> string \<Rightarrow> bool" where
  "should_skip_request d rid \<longleftrightarrow> sd_store_pressure_active d \<and> rid \<in> sd_skip_store_requests d"

definition mark_request_skipped_for_pressure :: "store_meta \<Rightarrow> sender \<Rightarrow> sender" where
  "mark_request_skipped_for_pressure m d =
     (let d1 = d\<lparr>sd_store_pressure_active := True\<rparr> in
      if is_live_store_job d m
      then d1\<lparr>sd_skip_store_requests := insert (sm_req_id m) (sd_skip_store_requests d)\<rparr> else d1)"

definition clear_store_pressure :: "sender \<Rightarrow> sender" where
  "clear_store_pressure d = d\<lparr>sd_store_pressure_active := False, sd_skip_store_requests := {}\<rparr>"

section \<open>Keys and descriptors of a database\<close>

definition layout_shard_ids :: "store_layout \<Rightarrow> int list" where
  "layout_shard_ids l = (case l of RankLocal _ \<Rightarrow> [0] | Sharded s \<Rightarrow> sl_store_shard_ids s)"

definition layout_key_for :: "store_layout \<Rightarrow> int \<Rightarrow> byte list \<Rightarrow> string result" where
  "layout_key_for l shard h = (case l of RankLocal r \<Rightarrow> rl_key_for r shard h | Sharded s \<Rightarrow> sl_key_for s shard h)"

definition layout_prepare_values ::
    "store_layout \<Rightarrow> (int \<times> int) list \<Rightarrow> int list \<Rightarrow> int list \<Rightarrow> (int list list \<times> int list list \<times> int list) result" where
  "layout_prepare_values l chunks block_ids shards = (case l of
       RankLocal r \<Rightarrow> rl_prepare_values r chunks block_ids shards
     | Sharded s \<Rightarrow> sl_prepare_values s chunks block_ids shards)"

text \<open>\<open>db.key_for\<close> and \<open>db.prepare_value_for_block\<close> need a rank-local layout.\<close>

definition db_key_for :: "token_db \<Rightarrow> byte list \<Rightarrow> string result" where
  "db_key_for db h = (case db_layout db of RankLocal r \<Rightarrow> rl_key_for r 0 h | Sharded _ \<Rightarrow> Inl RuntimeError)"

definition db_prepare_value_for_block :: "token_db \<Rightarrow> int \<Rightarrow> (int list \<times> int list) result" where
  "db_prepare_value_for_block db b =
     (case db_layout db of RankLocal r \<Rightarrow> prepare_value_for_block r b | Sharded _ \<Rightarrow> Inl RuntimeError)"

text \<open>\<open>key.rsplit("@", 1)[-1]\<close>\<close>

definition after_last_at :: "string \<Rightarrow> string" where
  "after_last_at s = rev (takeWhile (\<lambda>c. c \<noteq> CHR ''@'') (rev s))"

definition make_mooncake_group_id :: "key_metadata \<Rightarrow> string \<Rightarrow> string" where
  "make_mooncake_group_id m chunk_hash =
     ''vllm-mooncake-store:'' @ (if km_cache_prefix m \<noteq> [] then km_cache_prefix m @ ''@'' else []) @
     km_model_name m @ km_store_namespace m @ ''@'' @ chunk_hash"

definition list_item :: "'a list \<Rightarrow> nat \<Rightarrow> 'a result" where
  "list_item xs i = (if i < length xs then Inr (xs ! i) else Inl IndexError)"

section \<open>Boundary states\<close>

text \<open>A put: the key, addresses, sizes and metadata.\<close>

type_synonym put = "string \<times> int list \<times> int list \<times> key_metadata"

definition put_of :: "token_db \<Rightarrow> byte list result \<Rightarrow> int \<Rightarrow> put result" where
  "put_of db hash block_id =
     bind_res (db_prepare_value_for_block db block_id) (\<lambda>(addr, size).
     bind_res (bind_res hash (db_key_for db)) (\<lambda>key. Inr (key, addr, size, db_metadata db)))"

definition boundary_snapshot_put :: "sender \<Rightarrow> store_meta \<Rightarrow> int \<times> int \<times> int \<Rightarrow> put list result" where
  "boundary_snapshot_put d m x =
     (case x of (g, block_id, boundary) \<Rightarrow>
        let hbs = co_hash_block_size (sd_coord d); hash_idx = boundary div hbs - 1 in
        if boundary = 0 \<or> block_id = sd_null_block_id d then Inr []
        else if int (length (sm_block_hashes m)) \<le> hash_idx then Inr []
        else bind_res (py_index (sd_databases d) g) (\<lambda>db.
          bind_res (py_index (sd_group_put_steps d) g) (\<lambda>put_step.
          if put_step = 0 then Inl ZeroDivisionError
          else if (boundary div db_block_size db - 1) mod put_step \<noteq> (sd_tp_rank d + g) mod put_step then Inr []
          else bind_res (put_of db (py_index (sm_block_hashes m) hash_idx) block_id) (\<lambda>p. Inr [p]))))"

definition boundary_snapshot_puts :: "sender \<Rightarrow> store_meta \<Rightarrow> (int \<times> int \<times> int) list \<Rightarrow> put list result" where
  "boundary_snapshot_puts d m entries =
     bind_res (map_res (boundary_snapshot_put d m) entries) (\<lambda>pss. Inr (concat pss))"

text \<open>The source block of a group's block in the tail; \<open>None\<close> when there is none.\<close>

definition tail_source ::
    "sender \<Rightarrow> store_meta \<Rightarrow> (int \<times> int \<times> int) list \<Rightarrow> int \<Rightarrow> nat \<Rightarrow> int \<Rightarrow> int \<Rightarrow> int list \<Rightarrow> int option" where
  "tail_source d m entries boundary g valid_end block_idx group_blocks =
     (case map_of (rev (map (\<lambda>(gid, b, _). (gid, b)) entries)) (int g) of
        Some b \<Rightarrow> if valid_end \<noteq> boundary then None else Some b
      | None \<Rightarrow>
          if g \<in> set (co_mamba_group_ids (sd_coord d)) then None
          else if 0 \<le> block_idx \<and> block_idx < int (length group_blocks) then Some (group_blocks ! nat block_idx) else None)"

definition tail_block_put ::
    "sender \<Rightarrow> store_meta \<Rightarrow> (int \<times> int \<times> int) list \<Rightarrow> int \<Rightarrow> nat \<Rightarrow> token_db \<Rightarrow> int list \<Rightarrow> int \<Rightarrow> put list result" where
  "tail_block_put d m entries boundary g db group_blocks block_idx =
     (let put_step = sd_group_put_steps d ! g in
      if block_idx mod put_step \<noteq> (sd_tp_rank d + int g) mod put_step then Inr []
      else let valid_end = min ((block_idx + 1) * db_block_size db) boundary in
        bind_res (py_index (sm_block_hashes m) (valid_end div co_hash_block_size (sd_coord d) - 1)) (\<lambda>h.
          case tail_source d m entries boundary g valid_end block_idx group_blocks of
            None \<Rightarrow> Inr []
          | Some b \<Rightarrow> if b = sd_null_block_id d then Inr [] else bind_res (put_of db (Inr h) b) (\<lambda>p. Inr [p])))"

definition tail_group_puts ::
    "vllm_ops \<Rightarrow> sender \<Rightarrow> store_meta \<Rightarrow> (int \<times> int \<times> int) list \<Rightarrow> int \<Rightarrow> nat \<Rightarrow> put list result" where
  "tail_group_puts ops d m entries boundary g =
     (let db = sd_databases d ! g; saved = dict_get (sd_saved_offset d) (sm_req_id m) 0 in
      if \<not> sd_group_participates d ! g then Inr []
      else bind_res (list_item (sm_block_ids m) g) (\<lambda>group_blocks.
        if sd_group_put_steps d ! g = 0 then Inl ZeroDivisionError
        else let last_block = vo_cdiv ops boundary (db_block_size db) - 1 in
          bind_res (map_res (tail_block_put d m entries boundary g db group_blocks)
            [min (saved div db_block_size db) last_block..last_block]) (\<lambda>pss. Inr (concat pss))))"

definition sub_block_tail_puts ::
    "vllm_ops \<Rightarrow> sender \<Rightarrow> store_meta \<Rightarrow> (int \<times> int \<times> int) list \<Rightarrow> put list result" where
  "sub_block_tail_puts ops d m entries =
     (if length (remdups (map (snd \<circ> snd) entries)) \<noteq> 1 then Inl ValueError
      else let boundary = snd (snd (hd entries)) in
        if boundary = 0 \<or> int (length (sm_block_hashes m)) \<le> boundary div co_hash_block_size (sd_coord d) - 1 then Inr []
        else bind_res (map_res (tail_group_puts ops d m entries boundary) [0..<length (sd_databases d)]) (\<lambda>pss. Inr (concat pss)))"

definition boundary_puts :: "vllm_ops \<Rightarrow> sender \<Rightarrow> store_meta \<Rightarrow> (int \<times> int \<times> int) list \<Rightarrow> put list result" where
  "boundary_puts ops d m offloads =
     bind_res (map_res (\<lambda>x. bind_res (py_index (sd_databases d) (fst x)) (\<lambda>db. Inr (snd (snd x) mod db_block_size db = 0, x))) offloads) (\<lambda>tagged.
     let snapshots = map snd (filter fst tagged); sub_block = map snd (filter (Not \<circ> fst) tagged) in
     bind_res (boundary_snapshot_puts d m snapshots) (\<lambda>puts.
       if sub_block \<noteq> [] \<and> co_enable_partial_hash_hits (sd_coord d)
       then bind_res (sub_block_tail_puts ops d m sub_block) (\<lambda>more. Inr (puts @ more)) else Inr puts))"

text \<open>\<open>[xs[i] for i in missing]\<close>, the entries whose state is not 1.\<close>

definition pick_missing :: "int list \<Rightarrow> 'a list \<Rightarrow> 'a list result" where
  "pick_missing states xs = map_res (\<lambda>i. list_item xs i) (filter (\<lambda>i. states ! i \<noteq> 1) [0..<length states])"

text \<open>What a finished put means for the pressure marks; the indices that failed.\<close>

definition failed_indices :: "int list \<Rightarrow> nat list" where
  "failed_indices res = filter (\<lambda>i. res ! i < 0) [0..<length res]"

definition mark_pressure :: "store_meta \<Rightarrow> int list \<Rightarrow> sender \<Rightarrow> sender" where
  "mark_pressure m res d =
     (if MOONCAKE_NO_AVAILABLE_HANDLE \<in> set (map (\<lambda>i. res ! i) (failed_indices res))
      then mark_request_skipped_for_pressure m d else d)"

definition maybe_offload_boundary_states ::
    "vllm_ops \<Rightarrow> store_ops \<Rightarrow> store_meta \<Rightarrow> sender \<Rightarrow> sender \<times> bool result" where
  "maybe_offload_boundary_states ops st m d =
     (let offloads = (case sm_boundary_state_offloads m of None \<Rightarrow> [] | Some os \<Rightarrow> os) in
      if offloads = [] \<or> sm_block_hashes m = [] then (d, Inr True)
      else case boundary_puts ops d m offloads of
          Inl e \<Rightarrow> (d, Inl e)
        | Inr puts \<Rightarrow>
            if puts = [] then (d, Inr True)
            else case so_exist st (map fst puts) of
                Inl e \<Rightarrow> (d, Inr False)
              | Inr states \<Rightarrow>
                  if list_all (\<lambda>e. e = 1) states then (d, Inr True)
                  else case pick_missing states puts of
                      Inl e \<Rightarrow> (d, Inl e)
                    | Inr todo \<Rightarrow>
                        let gids = (if sd_use_group_ids d
                                    then Some (map (\<lambda>(k, _, _, md). make_mooncake_group_id md (after_last_at k)) todo) else None) in
                        case so_put st (map fst todo) (map (fst \<circ> snd) todo) (map (fst \<circ> snd \<circ> snd) todo) gids of
                          Inl e \<Rightarrow> (d, Inr False)
                        | Inr res \<Rightarrow>
                            if failed_indices res \<noteq> [] then (mark_pressure m res d, Inr False)
                            else (clear_store_pressure d, Inr True))"

section \<open>The normal save\<close>

text \<open>One chunk to store: start, end, key, group, shard and hash.\<close>

record save_item =
  si_start :: int
  si_end :: int
  si_key :: string
  si_group :: nat
  si_shard :: int
  si_hash :: "byte list"

definition chunk_items :: "sender \<Rightarrow> store_meta \<Rightarrow> nat \<Rightarrow> int \<times> int \<times> byte list \<Rightarrow> save_item list result" where
  "chunk_items d m g x =
     (case x of (s, e, h) \<Rightarrow>
        let db = sd_databases d ! g; block_idx = s div db_block_size db; blocks = sm_block_ids m ! g in
        if int (length blocks) \<le> block_idx \<or> blocks ! nat block_idx = sd_null_block_id d then Inr []
        else map_res (\<lambda>shard. bind_res (layout_key_for (db_layout db) shard h) (\<lambda>key.
               Inr \<lparr>si_start = s, si_end = e, si_key = key, si_group = g, si_shard = shard, si_hash = h\<rparr>))
               (layout_shard_ids (db_layout db)))"

definition group_items ::
    "vllm_ops \<Rightarrow> sender \<Rightarrow> store_meta \<Rightarrow> int \<Rightarrow> int \<Rightarrow> bool list option list \<Rightarrow> nat \<Rightarrow> save_item list result" where
  "group_items ops d m token_len save_start masks g =
     (let db = sd_databases d ! g; put_step = sd_group_put_steps d ! g in
      if \<not> sd_group_participates d ! g then Inr []
      else if put_step = 0 then Inl ZeroDivisionError
      else if length (sm_block_ids m) \<le> g then Inl IndexError
      else bind_res (list_item masks g) (\<lambda>mk.
        bind_res (process_tokens (vo_cdiv ops) (db_block_size db) (db_hash_block_size db) token_len (sm_block_hashes m)
                    save_start mk put_step ((sd_tp_rank d + int g) mod put_step)) (\<lambda>chunks.
        bind_res (map_res (chunk_items d m g) chunks) (\<lambda>iss. Inr (concat iss)))))"

definition save_items ::
    "vllm_ops \<Rightarrow> sender \<Rightarrow> store_meta \<Rightarrow> int \<Rightarrow> int \<Rightarrow> save_item list result" where
  "save_items ops d m token_len save_start =
     bind_res (store_mask ops (sd_coord d) token_len save_start (sm_num_prompt_tokens m)) (\<lambda>masks.
     bind_res (map_res (group_items ops d m token_len save_start masks) [0..<length (sd_databases d)]) (\<lambda>iss.
       Inr (concat iss)))"

text \<open>Addresses and sizes, group after group.\<close>

definition group_descriptors :: "sender \<Rightarrow> store_meta \<Rightarrow> save_item list \<Rightarrow> nat \<Rightarrow> (int list list \<times> int list list) result" where
  "group_descriptors d m items g =
     (let own = filter (\<lambda>i. si_group i = g) items in
      if own = [] then Inr ([], [])
      else bind_res (layout_prepare_values (db_layout (sd_databases d ! g)) (map (\<lambda>i. (si_start i, si_end i)) own)
                       (sm_block_ids m ! g) (map si_shard own)) (\<lambda>(addrs, sizes, _). Inr (addrs, sizes)))"

definition save_descriptors :: "sender \<Rightarrow> store_meta \<Rightarrow> save_item list \<Rightarrow> (int list list \<times> int list list) result" where
  "save_descriptors d m items =
     bind_res (map_res (group_descriptors d m items) [0..<length (sd_databases d)]) (\<lambda>ds.
       Inr (concat (map fst ds), concat (map snd ds)))"

text \<open>The events of the blocks of which every missing shard was stored.\<close>

definition event_key :: "save_item \<Rightarrow> int \<times> int \<times> nat \<times> byte list" where
  "event_key i = (si_start i, si_end i, si_group i, si_hash i)"

definition stored_event_of ::
    "sender \<Rightarrow> store_meta \<Rightarrow> int \<Rightarrow> int list option \<Rightarrow> int \<times> int \<times> nat \<times> byte list \<Rightarrow> stored_event result" where
  "stored_event_of d m token_ids_start event_token_ids x =
     (case x of (s, e, g, h) \<Rightarrow>
        let db = sd_databases d ! g;
            ids_end = token_ids_start + (case event_token_ids of None \<Rightarrow> 0 | Some ids \<Rightarrow> int (length ids));
            ids = (case event_token_ids of
                None \<Rightarrow> []
              | Some ids \<Rightarrow> if token_ids_start \<le> s \<and> e \<le> ids_end
                           then py_slice ids (s - token_ids_start) (e - token_ids_start) else []) in
        bind_res (if 0 < s then bind_res (py_index (sm_block_hashes m) (s div db_hash_block_size db - 1)) (\<lambda>p. Inr (Some p)) else Inr None)
          (\<lambda>parent. Inr \<lparr>ev_block_hash = h, ev_parent_block_hash = parent, ev_token_ids = ids,
                          ev_block_size = db_block_size db, ev_group_idx = g\<rparr>))"

definition stored_events ::
    "sender \<Rightarrow> store_meta \<Rightarrow> int \<Rightarrow> int list option \<Rightarrow> save_item list \<Rightarrow> nat list \<Rightarrow> stored_event list result" where
  "stored_events d m token_ids_start event_token_ids items failed =
     (let specs = dedup (map event_key items);
          ok = (\<lambda>x. list_all (\<lambda>i. i \<notin> set failed) (filter (\<lambda>i. event_key (items ! i) = x) [0..<length items])) in
      map_res (stored_event_of d m token_ids_start event_token_ids) (filter ok specs))"

text \<open>
  The body of the \<open>try\<close> block from the position where this rank left off: the state, whether the save
  was completed, and the exception that ended it.
\<close>

definition save_suffix ::
    "vllm_ops \<Rightarrow> store_ops \<Rightarrow> store_meta \<Rightarrow> int \<Rightarrow> int \<Rightarrow> int list option \<Rightarrow> sender \<Rightarrow> (sender \<times> bool) \<times> py_error option" where
  "save_suffix ops st m token_len ids_start event_ids d =
     (let save_start = dict_get (sd_saved_offset d) (sm_req_id m) 0 in
      case save_items ops d m token_len save_start of
        Inl e \<Rightarrow> ((d, False), Some e)
      | Inr items \<Rightarrow>
          if items = [] then ((record_saved m token_len d, True), None)
          else case so_exist st (map si_key items) of
              Inl e \<Rightarrow> ((d, False), Some e)
            | Inr states \<Rightarrow>
                if list_all (\<lambda>e. e = 1) states then ((record_saved m token_len d, True), None)
                else case (if length (filter (\<lambda>e. e \<noteq> 1) states) = length items then Inr items else pick_missing states items) of
                    Inl e \<Rightarrow> ((d, False), Some e)
                  | Inr todo \<Rightarrow>
                      case save_descriptors d m todo of
                        Inl e \<Rightarrow> ((d, False), Some e)
                      | Inr (addrs, sizes) \<Rightarrow>
                          let gids = (if sd_use_group_ids d
                                then Some (map (\<lambda>i. make_mooncake_group_id (db_metadata (sd_databases d ! si_group i)) (after_last_at (si_key i))) todo)
                                else None) in
                          case so_put st (map si_key todo) addrs sizes gids of
                            Inl e \<Rightarrow> ((d, False), None)
                          | Inr res \<Rightarrow>
                              let failed = failed_indices res;
                                  d1 = mark_pressure m res d;
                                  d2 = (if failed = [] then clear_store_pressure (record_saved m token_len d1) else d1);
                                  completed = (failed = []) in
                              if \<not> sd_enable_kv_event d then ((d2, completed), None)
                              else case stored_events d m ids_start event_ids todo failed of
                                  Inl e \<Rightarrow> ((d2, completed), Some e)
                                | Inr evs \<Rightarrow> ((d2\<lparr>sd_kv_events := sd_kv_events d2 @ evs\<rparr>, completed), None))"

text \<open>The whole \<open>try\<close> block; the event token ids it ends with are part of the outcome.\<close>

definition handle_body ::
    "vllm_ops \<Rightarrow> store_ops \<Rightarrow> store_meta \<Rightarrow> int \<Rightarrow> sender \<Rightarrow> (sender \<times> bool \<times> int \<times> int list option) \<times> py_error option" where
  "handle_body ops st m token_len d =
     (if \<not> is_live_store_job d m then ((d, False, sm_token_ids_start m, sm_token_ids m), None)
      else let (ids_start, event_ids) =
             (case (if sd_enable_kv_event d then get_retry_token_ids d m else None, sm_token_ids m) of
                (Some (rs, rids), Some ids) \<Rightarrow>
                  if rs + int (length rids) = sm_token_ids_start m then (rs, Some (rids @ ids)) else (sm_token_ids_start m, Some ids)
              | (_, ids) \<Rightarrow> (sm_token_ids_start m, ids)) in
        if should_skip_request d (sm_req_id m) then ((d, False, ids_start, event_ids), None)
        else let (d1, off) = (if sm_boundary_state_offloads m = None then (d, Inr True)
                              else maybe_offload_boundary_states ops st m d) in
          case off of
            Inl e \<Rightarrow> ((d1, False, ids_start, event_ids), Some e)
          | Inr False \<Rightarrow> ((d1, False, ids_start, event_ids), None)
          | Inr True \<Rightarrow>
              if token_len = 0 then ((d1, False, ids_start, event_ids), None)
              else let ((d2, completed), err) = save_suffix ops st m token_len ids_start event_ids d1
                   in ((d2, completed, ids_start, event_ids), err))"

text \<open>
  \<open>_handle_request\<close> on the job that was taken from the queue: the \<open>finally\<close> block runs however the
  body ended; an exception of the body is logged by the loop around it.
\<close>

definition handle_request :: "vllm_ops \<Rightarrow> store_ops \<Rightarrow> store_meta \<Rightarrow> sender \<Rightarrow> sender result" where
  "handle_request ops st m d =
     (let token_len = sm_token_len_chunk m div co_lcm_block_size (sd_coord d) * co_lcm_block_size (sd_coord d);
          ((d1, completed, ids_start, event_ids), err) = handle_body ops st m token_len d;
          d2 = (if sd_enable_kv_event d \<and> token_len \<noteq> 0
                then update_retry_token_ids m completed ids_start event_ids d1 else d1)
      in finish_store_job m d2)"

section \<open>The worker around the thread\<close>

text \<open>\<open>wait_for_save\<close>: enqueue the saves of a step.\<close>

definition wait_for_save :: "bool \<Rightarrow> store_meta list \<Rightarrow> sender \<Rightarrow> sender result" where
  "wait_for_save can_put metas d =
     (if \<not> can_put then Inr d else fold_res add_request (filter sm_can_save metas) d)"

text \<open>
  \<open>_close_ended_store_requests\<close>; the set is \<open>finished_store_req\<close>, of which \<open>pending\<close> lists the members.
\<close>

definition close_one :: "string \<Rightarrow> sender \<times> string set \<Rightarrow> sender \<times> string set" where
  "close_one rid x =
     (if live_jobs (fst x) rid \<noteq> {} then (fst x, insert rid (snd x))
      else (delete_finished_stored_request rid (fst x), snd x - {rid}))"

definition close_ended_store_requests ::
    "string list \<Rightarrow> string list \<Rightarrow> string list \<Rightarrow> sender \<times> string set \<Rightarrow> sender \<times> string set" where
  "close_ended_store_requests preempted finished pending x =
     fold close_one (finished @ pending)
       (fold delete_finished_stored_request preempted (fst x), snd x)"

definition build_connector_worker_meta :: "sender \<Rightarrow> sender \<times> (int \<times> int) list option" where
  "build_connector_worker_meta d =
     (let (d', cs) = take_completed_saves d in (d', if cs = [] then None else Some cs))"

text \<open>\<open>MooncakeStoreWorkerMetadata.aggregate\<close>\<close>

definition aggregate :: "(int \<times> int) list \<Rightarrow> (int \<times> int) list \<Rightarrow> (int \<times> int) list" where
  "aggregate own other = fold (\<lambda>(j, n) acc. dict_set acc j (count_of acc j + n)) other own"

section \<open>Every job is reported\<close>

text \<open>The part of the sender that only the ledger changes.\<close>

definition sent_part :: "sender \<Rightarrow> store_meta list \<times> (int \<times> int) list \<times> (string \<times> int set) list" where
  "sent_part d = (sd_queue d, sd_completed_saves d, sd_stored_requests d)"

lemma sent_part_simps [simp]:
  "sent_part (record_saved m n d) = sent_part d"
  "sent_part (clear_store_pressure d) = sent_part d"
  "sent_part (mark_pressure m res d) = sent_part d"
  "sent_part (update_retry_token_ids m b n ids d) = sent_part d"
  "sent_part (d\<lparr>sd_kv_events := es\<rparr>) = sent_part d"
  by (auto simp: sent_part_def record_saved_def clear_store_pressure_def mark_pressure_def Let_def
      mark_request_skipped_for_pressure_def update_retry_token_ids_def split: option.splits)

lemma maybe_offload_frame: "sent_part (fst (maybe_offload_boundary_states ops st m d)) = sent_part d"
  by (auto simp: maybe_offload_boundary_states_def Let_def split: option.splits sum.splits)

text \<open>The part of \<open>save_suffix\<close> after the put.\<close>

lemma after_put_frame:
  "sent_part (if b then clear_store_pressure (record_saved m n (mark_pressure m res d)) else mark_pressure m res d) = sent_part d"
  by simp

lemma save_suffix_frame: "sent_part (fst (fst (save_suffix ops st m n a b d))) = sent_part d"
proof (cases "save_items ops d m n (dict_get (sd_saved_offset d) (sm_req_id m) 0)")
  case (Inr items)
  note i = this
  show ?thesis
  proof (cases "so_exist st (map si_key items)")
    case (Inr states)
    note x = this
    define missing where "missing = (if length (filter (\<lambda>e. e \<noteq> 1) states) = length items then Inr items else pick_missing states items)"
    show ?thesis
    proof (cases "items = [] \<or> list_all (\<lambda>e. e = 1) states")
      case True
      then show ?thesis using i x by (cases "items = []") (simp_all add: save_suffix_def Let_def)
    next
      case False
      show ?thesis
      proof (cases missing)
        case (Inr todo)
        note t = this
        show ?thesis
        proof (cases "save_descriptors d m todo")
          case (Inr ds)
          then show ?thesis using i x False t unfolding missing_def
            by (cases ds; cases "so_put st (map si_key todo) (fst ds) (snd ds) (if sd_use_group_ids d
                   then Some (map (\<lambda>i. make_mooncake_group_id (db_metadata (sd_databases d ! si_group i)) (after_last_at (si_key i))) todo)
                   else None)")
              (simp_all add: save_suffix_def Let_def after_put_frame split: sum.split)
        qed (use i x False t in \<open>simp add: save_suffix_def Let_def missing_def\<close>)
      qed (use i x False in \<open>simp add: save_suffix_def Let_def missing_def\<close>)
    qed
  qed (use i in \<open>simp add: save_suffix_def Let_def\<close>)
qed (simp add: save_suffix_def Let_def)

lemma handle_body_frame: "sent_part (fst (fst (handle_body ops st m n d))) = sent_part d"
proof -
  obtain d1 off where o: "(if sm_boundary_state_offloads m = None then (d, Inr True) else maybe_offload_boundary_states ops st m d) = (d1, off)"
    by fastforce
  have d1: "sent_part d1 = sent_part d"
    using maybe_offload_frame[of ops st m d] o by (cases "sm_boundary_state_offloads m = None") auto
  have s: "sent_part (fst (fst (save_suffix ops st m n a b d1))) = sent_part d" for a b
    using save_suffix_frame[of ops st m n a b d1] d1 by simp
  show ?thesis unfolding handle_body_def o Let_def
    by (simp add: d1 s split_def split: option.split sum.split bool.split)
qed

text \<open>
  However a job ends -- skipped, stale, refused by the store, or with an exception -- its rank counts
  it once, and retires it from the ledger.
\<close>

lemma handle_request_reports:
  assumes j: "sm_store_job_id m = Some j"
  shows "\<exists>d'. handle_request ops st m d = Inr d' \<and> sd_queue d' = sd_queue d \<and>
    sd_completed_saves d' = dict_set (sd_completed_saves d) j (count_of (sd_completed_saves d) j + 1) \<and>
    live_jobs d' (sm_req_id m) = live_jobs d (sm_req_id m) - {j}"
proof -
  let ?n = "sm_token_len_chunk m div co_lcm_block_size (sd_coord d) * co_lcm_block_size (sd_coord d)"
  obtain d1 c a e err where b: "handle_body ops st m ?n d = ((d1, c, a, e), err)" by (metis surj_pair)
  define d2 where "d2 = (if sd_enable_kv_event d \<and> ?n \<noteq> 0 then update_retry_token_ids m c a e d1 else d1)"
  have "sent_part d1 = sent_part d" using handle_body_frame[of ops st m ?n d] b by simp
  then have s: "sd_queue d2 = sd_queue d" "sd_completed_saves d2 = sd_completed_saves d" "sd_stored_requests d2 = sd_stored_requests d"
    using sent_part_simps(4)[of m c a e d1] unfolding d2_def sent_part_def by (auto split: if_splits)
  have h: "handle_request ops st m d = finish_store_job m d2"
    unfolding handle_request_def Let_def b by (simp add: d2_def)
  show ?thesis unfolding h finish_store_job_def Let_def using j s
    by (auto simp: live_jobs_def split: option.splits)
qed

lemma wait_for_save_effect:
  assumes "\<forall>m \<in> set metas. sm_can_save m \<longrightarrow> sm_store_job_id m \<noteq> None"
  shows "\<exists>d'. wait_for_save True metas d = Inr d' \<and> sd_queue d' = sd_queue d @ filter sm_can_save metas \<and>
    sd_completed_saves d' = sd_completed_saves d"
  using assms
proof (induction metas arbitrary: d)
  case (Cons m metas)
  show ?case
  proof (cases "sm_can_save m")
    case True
    then obtain j where "sm_store_job_id m = Some j" using Cons.prems by auto
    then obtain d1 where "add_request m d = Inr d1" "sd_queue d1 = sd_queue d @ [m]" "sd_completed_saves d1 = sd_completed_saves d"
      by (simp add: add_request_def)
    then show ?thesis using Cons.IH[of d1] Cons.prems True by (auto simp: wait_for_save_def)
  qed (use Cons in \<open>simp add: wait_for_save_def\<close>)
qed (simp add: wait_for_save_def)

lemma close_ended_effect:
  assumes "close_ended_store_requests preempted finished pending (d, fin) = (d', fin')"
  shows "sd_queue d' = sd_queue d \<and> sd_completed_saves d' = sd_completed_saves d"
proof -
  let ?q = "\<lambda>d. (sd_queue d, sd_completed_saves d)"
  have a: "?q (fold delete_finished_stored_request xs d) = ?q d" for xs
    by (rule fold_frame[of ?q]) (simp add: delete_finished_stored_request_def)
  have b: "?q (fst (fold close_one xs x)) = ?q (fst x)" for xs x
    by (rule fold_frame[of "\<lambda>x. ?q (fst x)"]) (simp add: close_one_def delete_finished_stored_request_def)
  show ?thesis using assms b[of "finished @ pending" "(fold delete_finished_stored_request preempted d, fin)"] a[of preempted]
    by (simp add: close_ended_store_requests_def)
qed


lemma close_ended_finite:
  assumes "close_ended_store_requests preempted finished pending (d, fin) = (d', fin')" and "finite fin"
  shows "finite fin'"
proof -
  have "finite (snd (fold close_one xs x))" if "finite (snd x)" for xs x
    using that by (rule fold_all[where P = "\<lambda>x. finite (snd x)"]) (simp add: close_one_def)
  from this[of "(fold delete_finished_stored_request preempted d, fin)" "finished @ pending"] show ?thesis
    using assms by (simp add: close_ended_store_requests_def)
qed

end
