(* ===== verification/Store_Pins.thy ===== *)
theory Store_Pins
  imports Store_Sender
begin

text \<open>
  The scheduler of the Mooncake store and the sending threads of all ranks, run together.  The
  scheduler takes references on the blocks a store job reads and releases them when every rank has
  reported the job.  The steps of this theory are the methods of \<^theory_text>\<open>Store_Scheduler\<close> and
  \<^theory_text>\<open>Store_Sender\<close>; between them the engine carries the metadata of a step to every rank in order, and the
  completions of any set of ranks, merged by \<open>aggregate\<close>, back to the scheduler.
\<close>

section \<open>References of the block pool\<close>

text \<open>The references on a block that the calls have taken and not released.\<close>

fun call_refs :: "pool_call \<Rightarrow> int \<Rightarrow> int" where
  "call_refs (Touch bs) b = int (count_list bs b)"
| "call_refs (FreeBlocks bs) b = - int (count_list bs b)"

definition refs :: "pool_call list \<Rightarrow> int \<Rightarrow> int" where
  "refs calls b = sum_list (map (\<lambda>c. call_refs c b) calls)"

definition pinned_refs :: "(int \<times> (int list \<times> int)) list \<Rightarrow> int \<Rightarrow> int" where
  "pinned_refs ps b = sum_list (map (\<lambda>(_, bs, _). int (count_list bs b)) ps)"

lemma refs_append [simp]: "refs (xs @ ys) b = refs xs b + refs ys b"
  by (simp add: refs_def)

lemma refs_single [simp]: "refs [c] b = call_refs c b"
  by (simp add: refs_def)

lemma pinned_refs_append [simp]: "pinned_refs (xs @ ys) b = pinned_refs xs b + pinned_refs ys b"
  by (simp add: pinned_refs_def)

lemma pinned_refs_Cons [simp]: "pinned_refs ((j, bs, r) # ps) b = int (count_list bs b) + pinned_refs ps b"
  by (simp add: pinned_refs_def)

lemma pinned_refs_Nil [simp]: "pinned_refs [] b = 0"
  by (simp add: pinned_refs_def)

lemma pinned_refs_nonneg: "0 \<le> pinned_refs ps b"
  by (auto simp: pinned_refs_def intro: sum_list_nonneg_int split: prod.splits)

lemma pinned_refs_ge: "map_of ps j = Some (bs, r) \<Longrightarrow> int (count_list bs b) \<le> pinned_refs ps b"
  unfolding pinned_refs_def
  using member_le_sum_list_int[of ps "\<lambda>(_, bs, _). int (count_list bs b)" "(j, bs, r)"]
  by (auto dest!: map_of_SomeD split: prod.splits)

lemma pinned_refs_set:
  "map_of ps j = Some (bs, r) \<Longrightarrow> pinned_refs (dict_set ps j (bs, r')) b = pinned_refs ps b"
  by (induction ps j "(bs, r')" rule: dict_set.induct) (auto split: if_splits)

lemma dict_pop_absent: "j \<notin> fst ` set ps \<Longrightarrow> dict_pop ps j = ps"
  by (force simp: dict_pop_def intro!: filter_True)

lemma pinned_refs_pop:
  "map_of ps j = Some (bs, r) \<Longrightarrow> distinct (map fst ps) \<Longrightarrow>
     pinned_refs (dict_pop ps j) b = pinned_refs ps b - int (count_list bs b)"
proof (induction ps)
  case (Cons p ps)
  obtain k bs' r' where p: "p = (k, bs', r')" by (cases p)
  show ?case
  proof (cases "k = j")
    case True
    then show ?thesis using Cons.prems p dict_pop_absent[of j ps] by (simp add: dict_pop_def)
  next
    case False
    then show ?thesis using Cons p by (simp add: dict_pop_def)
  qed
qed simp

text \<open>What the scheduler keeps true of its references.\<close>

definition sched_ok :: "store_sched \<Rightarrow> bool" where
  "sched_ok s \<longleftrightarrow> distinct (map fst (ss_pinned_saves s)) \<and>
     (\<forall>j \<in> fst ` set (ss_pinned_saves s). j < ss_next_store_job_id s) \<and>
     (\<forall>b. refs (ss_pool_calls s) b = pinned_refs (ss_pinned_saves s) b)"

lemma sched_ok_pin_part: "pin_part s = pin_part s' \<Longrightarrow> sched_ok s = sched_ok s'"
  by (simp add: pin_part_def sched_ok_def)

lemma sched_ok_next: "sched_ok s \<Longrightarrow> sched_ok (s\<lparr>ss_next_store_job_id := ss_next_store_job_id s + 1\<rparr>)"
  by (fastforce simp: sched_ok_def)

lemma sched_ok_pin:
  assumes "sched_ok s"
  shows "sched_ok (pin_job (ss_next_store_job_id s) bs (s\<lparr>ss_next_store_job_id := ss_next_store_job_id s + 1\<rparr>))"
proof -
  have fresh: "ss_next_store_job_id s \<notin> fst ` set (ss_pinned_saves s)" using assms by (auto simp: sched_ok_def)
  then show ?thesis using assms
    by (auto simp: sched_ok_def pin_job_def dict_set_fresh[OF fresh])
qed

section \<open>Jobs owed\<close>

text \<open>How many saves of a job a list of metadata has.\<close>

definition jobs_in :: "store_meta list \<Rightarrow> int \<Rightarrow> int" where
  "jobs_in ms j = int (length (filter (\<lambda>m. sm_can_save m \<and> sm_store_job_id m = Some j) ms))"

lemma jobs_in_simps [simp]:
  "jobs_in [] j = 0"
  "jobs_in (m # ms) j = (if sm_can_save m \<and> sm_store_job_id m = Some j then 1 else 0) + jobs_in ms j"
  "jobs_in (xs @ ys) j = jobs_in xs j + jobs_in ys j"
  "jobs_in (filter sm_can_save ms) j = jobs_in ms j"
  by (simp_all add: jobs_in_def)

lemma jobs_in_nonneg [simp]: "0 \<le> jobs_in ms j"
  by (simp add: jobs_in_def)

lemma jobs_in_pos: "m \<in> set ms \<Longrightarrow> sm_can_save m \<Longrightarrow> sm_store_job_id m = Some j \<Longrightarrow> 1 \<le> jobs_in ms j"
  by (induction ms) auto

lemma jobs_in_0: "\<forall>m \<in> set ms. sm_store_job_id m \<noteq> Some j \<Longrightarrow> jobs_in ms j = 0"
  by (induction ms) auto

text \<open>The blocks a job may read: its handed-off states, and for a normal save its whole block table.\<close>

definition needed_blocks :: "store_sched \<Rightarrow> store_meta \<Rightarrow> int list" where
  "needed_blocks s m = offload_blocks m @ (if 0 < sm_token_len_chunk m then table_blocks s m else [])"

definition covered :: "store_sched \<Rightarrow> store_meta \<Rightarrow> bool" where
  "covered s m \<longleftrightarrow> (\<forall>j. sm_store_job_id m = Some j \<longrightarrow>
     (\<forall>b \<in> set (needed_blocks s m). \<exists>bs r. map_of (ss_pinned_saves s) j = Some (bs, r) \<and> b \<in> set bs))"

lemma needed_blocks_cong:
  "ss_null_block_id s = ss_null_block_id s' \<Longrightarrow> ss_boundary_state_group_ids s = ss_boundary_state_group_ids s' \<Longrightarrow>
     needed_blocks s m = needed_blocks s' m"
  unfolding needed_blocks_def table_blocks_def by metis

lemma needed_blocks_job [simp]: "needed_blocks s (m\<lparr>sm_store_job_id := x\<rparr>) = needed_blocks s m"
  by (simp add: needed_blocks_def offload_blocks_def table_blocks_def)

lemma covered_mono:
  assumes "covered s m" "ss_null_block_id s = ss_null_block_id s'" "ss_boundary_state_group_ids s = ss_boundary_state_group_ids s'"
    and "\<forall>j bs r. sm_store_job_id m = Some j \<longrightarrow> map_of (ss_pinned_saves s) j = Some (bs, r) \<longrightarrow>
           (\<exists>r'. map_of (ss_pinned_saves s') j = Some (bs, r'))"
  shows "covered s' m"
  using assms(1,4) needed_blocks_cong[OF assms(2,3), of m] by (fastforce simp: covered_def)

lemma dedup_set [simp]: "set (dedup xs) = set xs"
  by (simp add: dedup_def)

section \<open>Taking references\<close>

text \<open>
  What the loop over the metadata \<open>ms\<close> has done when it started in \<open>s0\<close> and reached \<open>st\<close>: the old jobs
  keep their references, every new job id occurs once, and every save is covered.
\<close>

definition emitted :: "store_sched \<Rightarrow> store_meta list \<Rightarrow> meta_state \<Rightarrow> bool" where
  "emitted s0 ms st \<longleftrightarrow> (case st of (s, new) \<Rightarrow>
     ss_num_workers s = ss_num_workers s0 \<and> ss_null_block_id s = ss_null_block_id s0 \<and>
     ss_boundary_state_group_ids s = ss_boundary_state_group_ids s0 \<and> ss_pool_bound s = ss_pool_bound s0 \<and>
     ss_finished_partial_tail_metas s = ss_finished_partial_tail_metas s0 \<and>
     ss_next_store_job_id s0 \<le> ss_next_store_job_id s \<and> sched_ok s \<and>
     (\<forall>j < ss_next_store_job_id s0. map_of (ss_pinned_saves s) j = map_of (ss_pinned_saves s0) j) \<and>
     (\<forall>j. jobs_in new j = (if ss_next_store_job_id s0 \<le> j \<and> j < ss_next_store_job_id s then 1 else jobs_in ms j)) \<and>
     (\<forall>j bs r. ss_next_store_job_id s0 \<le> j \<longrightarrow> map_of (ss_pinned_saves s) j = Some (bs, r) \<longrightarrow> r = ss_num_workers s0) \<and>
     (\<forall>m \<in> set new. sm_can_save m \<longrightarrow> (\<exists>j. sm_store_job_id m = Some j \<and> j < ss_next_store_job_id s) \<and> covered s m))"

text \<open>Metadata that may enter the loop: a save has no job id yet or is a pinned one.\<close>

definition enters :: "store_sched \<Rightarrow> store_meta \<Rightarrow> bool" where
  "enters s0 m \<longleftrightarrow> (sm_can_save m \<longrightarrow>
     (\<forall>j. sm_store_job_id m = Some j \<longrightarrow> j < ss_next_store_job_id s0 \<and> covered s0 m))"

lemma covered_new:
  assumes "set (needed_blocks s m) \<subseteq> set bs" "ss_null_block_id s = ss_null_block_id s'"
    "ss_boundary_state_group_ids s = ss_boundary_state_group_ids s'" "map_of (ss_pinned_saves s') j = Some (bs, r)"
  shows "covered s' (m\<lparr>sm_store_job_id := Some j\<rparr>)"
proof -
  have "needed_blocks s' (m\<lparr>sm_store_job_id := Some j\<rparr>) = needed_blocks s m"
    using needed_blocks_cong[OF assms(2,3), of m] by simp
  then show ?thesis using assms(1,4) by (auto simp: covered_def)
qed

lemma map_of_pinned_less: "sched_ok s \<Longrightarrow> map_of (ss_pinned_saves s) j = Some x \<Longrightarrow> j < ss_next_store_job_id s"
  by (force simp: sched_ok_def dest: map_of_SomeD)

lemma emitted_save:
  assumes em: "emitted s0 ms (s, new)" and m: "sm_can_save m" "sm_store_job_id m = None"
    and s': "s' = (if bs = [] then s1 else pin_job (ss_next_store_job_id s) bs s1)"
    and s1: "s1 = s\<lparr>ss_next_store_job_id := ss_next_store_job_id s + 1\<rparr>"
    and bs: "set (needed_blocks s m) \<subseteq> set bs"
    and old: "\<forall>m \<in> set ms. \<forall>j. sm_can_save m \<longrightarrow> sm_store_job_id m = Some j \<longrightarrow> j < ss_next_store_job_id s0"
  shows "emitted s0 (ms @ [m]) (s', new @ [m\<lparr>sm_store_job_id := Some (ss_next_store_job_id s)\<rparr>])"
proof -
  let ?n = "ss_next_store_job_id s"
  let ?m = "m\<lparr>sm_store_job_id := Some ?n\<rparr>"
  note e = em[unfolded emitted_def prod.case]
  have ok: "sched_ok s" and n0: "ss_next_store_job_id s0 \<le> ?n" using e by auto
  have ok': "sched_ok s'" using sched_ok_next[OF ok] sched_ok_pin[OF ok] s' s1 by simp
  have pin: "map_of (ss_pinned_saves s') j = (if j = ?n \<and> bs \<noteq> [] then Some (bs, ss_num_workers s) else map_of (ss_pinned_saves s) j)" for j
    by (simp add: s' s1 pin_job_def)
  have fresh: "map_of (ss_pinned_saves s) ?n = None"
    using map_of_pinned_less[OF ok, of ?n] by (cases "map_of (ss_pinned_saves s) ?n") auto
  have fields: "ss_num_workers s' = ss_num_workers s" "ss_null_block_id s' = ss_null_block_id s" "ss_pool_bound s' = ss_pool_bound s"
    "ss_boundary_state_group_ids s' = ss_boundary_state_group_ids s" "ss_next_store_job_id s' = ?n + 1"
    "ss_finished_partial_tail_metas s' = ss_finished_partial_tail_metas s"
    by (simp_all add: s' s1 pin_job_def)
  have keep: "covered s' x" if "covered s x" for x
    by (rule covered_mono[OF that]) (auto simp: fields pin fresh)
  have cov: "covered s' ?m"
  proof (cases "bs = []")
    case True
    then have "needed_blocks s' ?m = []" using bs needed_blocks_cong[of s' s m] fields by simp
    then show ?thesis by (simp add: covered_def)
  qed (use covered_new[OF bs] fields pin in simp)
  have old_n: "jobs_in ms j = 0" if "ss_next_store_job_id s0 \<le> j" for j
    using old that by (fastforce simp: jobs_in_def filter_empty_conv)
  show ?thesis unfolding emitted_def prod.case
    using e ok' n0 m(2) by (intro conjI) (auto simp: fields pin fresh old_n m intro: keep cov split: if_splits)
qed

lemma for_loop_prefix:
  assumes "for_loop f xs s = (t, None)" and "I ys s"
    and "\<forall>ys x s s'. I ys s \<longrightarrow> x \<in> set xs \<longrightarrow> f x s = (s', Continue) \<longrightarrow> I (ys @ [x]) s'"
    and "\<forall>x s. snd (f x s) \<noteq> Break"
  shows "I (ys @ xs) t"
  using assms
proof (induction xs arbitrary: s ys)
  case (Cons x xs)
  obtain s1 fl where f: "f x s = (s1, fl)" by (cases "f x s")
  have fl: "fl = Continue" using Cons.prems(1,4) f by (cases fl) (auto, metis snd_conv)
  have "I (ys @ [x]) s1" using Cons.prems(2,3) f fl by auto
  moreover have "for_loop f xs s1 = (t, None)" using Cons.prems(1) f fl by simp
  ultimately have "I ((ys @ [x]) @ xs) t" using Cons.IH[of s1 "ys @ [x]"] Cons.prems(3,4) by auto
  then show ?case by simp
qed simp

lemma reference_one_emits:
  assumes em: "emitted s0 ms st" and ent: "\<forall>x \<in> set ms. enters s0 x" "enters s0 m"
    and r: "reference_one m st = (st', Continue)"
  shows "emitted s0 (ms @ [m]) st'"
proof -
  obtain s new where st: "st = (s, new)" by (cases st)
  note e = em[unfolded emitted_def st prod.case]
  consider (load) "\<not> sm_can_save m" | (tail) j where "sm_can_save m" "sm_store_job_id m = Some j"
    | (save) "sm_can_save m" "sm_store_job_id m = None" by (cases "sm_store_job_id m") auto
  then show ?thesis
  proof cases
    case load
    then have "st' = (s, new @ [m])" using r st by (simp add: reference_one_def)
    then show ?thesis using e load unfolding emitted_def by auto
  next
    case tail
    then have st': "st' = (s, new @ [m])" using r st by (auto simp: reference_one_def split: if_splits)
    have j: "j < ss_next_store_job_id s0" "covered s0 m" using ent(2) tail by (auto simp: enters_def)
    have "covered s m" using e j(1) tail by (intro covered_mono[OF j(2)]) auto
    then show ?thesis using e tail j(1) unfolding emitted_def st' by auto
  next
    case save
    let ?bs = "dedup (offload_blocks m @ table_blocks s m)"
    have st': "st' = ((if ?bs = [] then s\<lparr>ss_next_store_job_id := ss_next_store_job_id s + 1\<rparr>
         else pin_job (ss_next_store_job_id s) ?bs (s\<lparr>ss_next_store_job_id := ss_next_store_job_id s + 1\<rparr>)),
        new @ [m\<lparr>sm_store_job_id := Some (ss_next_store_job_id s)\<rparr>])"
      using r save unfolding st by (auto simp: reference_one_def Let_def split: if_splits)
    show ?thesis unfolding st'
      using ent(1) by (intro emitted_save[OF em[unfolded st] save refl refl])
        (auto simp: needed_blocks_def enters_def)
  qed
qed

lemma reference_one_no_break: "snd (reference_one m st) \<noteq> Break"
  by (auto simp: reference_one_def Let_def split: option.splits)

lemma emitted_refl: "sched_ok s \<Longrightarrow> emitted s [] (s, [])"
  using map_of_pinned_less by (fastforce simp: emitted_def)

lemma reference_save_blocks_emits:
  assumes "sched_ok s" and "\<forall>m \<in> set ms. enters s m" and "reference_save_blocks s ms = (st, None)"
  shows "emitted s ms st"
proof -
  let ?I = "\<lambda>ys st. emitted s ys st \<and> (\<forall>m \<in> set ys. enters s m)"
  have "?I ([] @ ms) st"
    using assms reference_one_emits reference_one_no_break emitted_refl[OF assms(1)]
    by (intro for_loop_prefix[where I = ?I and s = "(s, [])" and f = reference_one])
      (auto simp: reference_save_blocks_def)
  then show ?thesis by simp
qed

text \<open>The save metadata that the tables are written into keeps its job ids.\<close>

lemma apply_tables_no_jobs: "apply_current_save_block_ids s out ms = Inr ms' \<Longrightarrow> no_jobs ms \<Longrightarrow> no_jobs ms'"
proof (cases "list_ex sm_can_save ms")
  case True
  assume a: "apply_current_save_block_ids s out ms = Inr ms'" "no_jobs ms"
  obtain bst where bst: "so_block_state out = Some bst"
    using a True by (cases "so_block_state out") (auto simp: apply_current_save_block_ids_def)
  have "list_all2 (\<lambda>m m'. sm_store_job_id m' = sm_store_job_id m) ms ms'"
    using a(1) True bst unfolding apply_current_save_block_ids_def
    by (auto simp: map_res_eq_Inr bind_res_eq_Inr elim!: list_all2_mono split: if_splits option.splits)
  then show ?thesis using a(2) unfolding no_jobs_def list_all2_conv_all_nth by (metis in_set_conv_nth)
qed (auto simp: apply_current_save_block_ids_def)

text \<open>One step of the scheduler that returns metadata.\<close>

lemma build_connector_meta_emits:
  assumes ok: "sched_ok s" and b: "build_connector_meta cdiv req out s = (s', Inr new)"
    and tails: "\<forall>m \<in> snd ` set (ss_finished_partial_tail_metas s). enters s m"
  shows "\<exists>s1 ms. pin_part s1 = pin_part (s\<lparr>ss_finished_partial_tail_metas := []\<rparr>) \<and> no_jobs ms \<and>
    emitted s1 (ms @ map snd (ss_finished_partial_tail_metas s)) (s', new)"
proof -
  obtain s1 ms e where c: "collect_requests cdiv req out s = ((s1, ms), e)" by (metis surj_pair)
  have e: "e = None" using b c by (cases e) (auto simp: build_connector_meta_def)
  have p1: "pin_part s1 = pin_part s" using collect_requests_frame[of cdiv req out s] c by simp
  have nj: "no_jobs ms" using collect_requests_no_jobs[of cdiv req out s] c by simp
  obtain ms' where a: "apply_current_save_block_ids s1 out ms = Inr ms'"
    using b c e by (cases "apply_current_save_block_ids s1 out ms") (auto simp: build_connector_meta_def)
  let ?s2 = "s1\<lparr>ss_finished_partial_tail_metas := []\<rparr>"
  have p2: "pin_part ?s2 = pin_part (s\<lparr>ss_finished_partial_tail_metas := []\<rparr>)" using p1 by (simp add: pin_part_def)
  have t: "ss_finished_partial_tail_metas s1 = ss_finished_partial_tail_metas s" using p1 by (simp add: pin_part_def)
  have nj': "no_jobs ms'" by (rule apply_tables_no_jobs[OF a nj])
  have r: "reference_save_blocks ?s2 (ms' @ map snd (ss_finished_partial_tail_metas s)) = ((s', new), None)"
    using b c e a t by (auto simp: build_connector_meta_def split: option.splits prod.splits)
  have ent: "enters ?s2 m = enters s m" for m
    using p1 needed_blocks_cong[of ?s2 s m] by (simp add: enters_def covered_def pin_part_def)
  have "\<forall>m \<in> set (ms' @ map snd (ss_finished_partial_tail_metas s)). enters ?s2 m"
    using tails nj' ent by (auto simp: no_jobs_def enters_def)
  moreover have "sched_ok ?s2" using ok p1 by (simp add: sched_ok_def pin_part_def)
  ultimately have "emitted ?s2 (ms' @ map snd (ss_finished_partial_tail_metas s)) (s', new)"
    using reference_save_blocks_emits r by blast
  then show ?thesis using p2 nj' by blast
qed


section \<open>Releasing references\<close>

lemma count_of_set [simp]: "count_of (dict_set cs j n) i = (if i = j then n else count_of cs i)"
  by (simp add: count_of_def)

lemma count_of_Cons: "count_of ((j, n) # cs) i = (if i = j then n else count_of cs i)"
  by (simp add: count_of_def)

definition counts_ok :: "(int \<times> int) list \<Rightarrow> bool" where
  "counts_ok cs \<longleftrightarrow> distinct (map fst cs) \<and> (\<forall>(j, n) \<in> set cs. 0 < n)"

lemma count_of_nonneg: "counts_ok cs \<Longrightarrow> 0 \<le> count_of cs j"
  by (auto simp: counts_ok_def count_of_def split: option.splits dest!: map_of_SomeD)

lemma count_of_pos: "counts_ok cs \<Longrightarrow> (j, n) \<in> set cs \<Longrightarrow> count_of cs j = n \<and> 0 < n"
  by (auto simp: counts_ok_def count_of_def)

lemma count_of_absent: "j \<notin> fst ` set cs \<Longrightarrow> count_of cs j = 0"
  by (simp add: count_of_def map_of_eq_None_iff[THEN iffD2])

lemma counts_ok_Cons: "counts_ok ((j, n) # cs) \<longleftrightarrow> 0 < n \<and> j \<notin> fst ` set cs \<and> counts_ok cs"
  by (auto simp: counts_ok_def)

lemma set_dict_set: "set (dict_set cs j n) \<subseteq> insert (j, n) (set cs)"
  by (induction cs j n rule: dict_set.induct) auto

lemma counts_ok_set: "counts_ok cs \<Longrightarrow> 0 < n \<Longrightarrow> counts_ok (dict_set cs j n)"
  using set_dict_set[of cs j n] distinct_dict_set[of cs j n] by (auto simp: counts_ok_def)

text \<open>Completions of two ranks add up.\<close>

lemma aggregate_counts:
  "counts_ok cs \<Longrightarrow> counts_ok ds \<Longrightarrow> counts_ok (aggregate cs ds) \<and> count_of (aggregate cs ds) j = count_of cs j + count_of ds j"
  unfolding aggregate_def
proof (induction ds arbitrary: cs)
  case (Cons d ds)
  obtain k n where d: "d = (k, n)" by (cases d)
  have n: "0 < n" "k \<notin> fst ` set ds" "counts_ok ds" using Cons.prems(2) d by (simp_all add: counts_ok_Cons)
  let ?cs = "dict_set cs k (count_of cs k + n)"
  have "counts_ok ?cs" using Cons.prems(1) n(1) count_of_nonneg[OF Cons.prems(1), of k] by (intro counts_ok_set) auto
  from Cons.IH[OF this n(3)] show ?case using d count_of_absent[OF n(2)] by (auto simp: count_of_Cons)
qed (simp add: count_of_def)

text \<open>
  The scheduler takes in completions that no job has too many of: it never raises, subtracts each
  count, and drops exactly the jobs that have none left, with their references.
\<close>

lemma complete_job_effect:
  assumes ok: "sched_ok s" and n: "0 < n"
    and le: "\<forall>bs r. map_of (ss_pinned_saves s) j = Some (bs, r) \<longrightarrow> n \<le> r"
  obtains s' where "complete_job (j, n) s = (s', Continue)" and "sched_ok s'"
    and "map_of (ss_pinned_saves s') = (map_of (ss_pinned_saves s))(j := (case map_of (ss_pinned_saves s) j of
           None \<Rightarrow> None | Some (bs, r) \<Rightarrow> if r = n then None else Some (bs, r - n)))"
    and "pin_part (s'\<lparr>ss_pinned_saves := [], ss_pool_calls := []\<rparr>) = pin_part (s\<lparr>ss_pinned_saves := [], ss_pool_calls := []\<rparr>)"
proof (cases "map_of (ss_pinned_saves s) j")
  case None
  then show ?thesis using ok by (intro that[of s]) (auto simp: complete_job_def fun_eq_iff)
next
  case (Some p)
  obtain bs r where p: "p = (bs, r)" by (cases p)
  have j: "map_of (ss_pinned_saves s) j = Some (bs, r)" using Some p by simp
  have jn: "j < ss_next_store_job_id s" by (rule map_of_pinned_less[OF ok j])
  show ?thesis
  proof (cases "r = n")
    case True
    let ?s = "s\<lparr>ss_pinned_saves := dict_pop (ss_pinned_saves s) j, ss_pool_calls := ss_pool_calls s @ [FreeBlocks (rev bs)]\<rparr>"
    have "sched_ok ?s" using ok pinned_refs_pop[OF j]
      by (auto simp: sched_ok_def distinct_dict_pop)
    then show ?thesis using j True by (intro that[of ?s]) (auto simp: complete_job_def pin_part_def fun_eq_iff)
  next
    case False
    then have "n < r" using le j by fastforce
    let ?s = "s\<lparr>ss_pinned_saves := dict_set (ss_pinned_saves s) j (bs, r - n)\<rparr>"
    have "sched_ok ?s" using ok pinned_refs_set[OF j] jn by (auto simp: sched_ok_def distinct_dict_set)
    then show ?thesis using j False \<open>n < r\<close> by (intro that[of ?s]) (auto simp: complete_job_def pin_part_def fun_eq_iff)
  qed
qed


definition left_after :: "(int \<times> int) list \<Rightarrow> int \<Rightarrow> (int list \<times> int) option \<Rightarrow> (int list \<times> int) option" where
  "left_after cs j p = (case p of None \<Rightarrow> None
     | Some (bs, r) \<Rightarrow> if r = count_of cs j then None else Some (bs, r - count_of cs j))"

lemma complete_jobs_effect:
  assumes "sched_ok s" and "counts_ok cs"
    and "\<forall>j bs r. map_of (ss_pinned_saves s) j = Some (bs, r) \<longrightarrow> 0 < r \<and> count_of cs j \<le> r"
  shows "\<exists>s'. for_loop complete_job cs s = (s', None) \<and> sched_ok s' \<and>
    (\<forall>j. map_of (ss_pinned_saves s') j = left_after cs j (map_of (ss_pinned_saves s) j)) \<and>
    pin_part (s'\<lparr>ss_pinned_saves := [], ss_pool_calls := []\<rparr>) = pin_part (s\<lparr>ss_pinned_saves := [], ss_pool_calls := []\<rparr>)"
  using assms
proof (induction cs arbitrary: s)
  case Nil
  then show ?case by (auto simp: count_of_def left_after_def split: option.splits)
next
  case (Cons c cs)
  obtain j n where c: "c = (j, n)" by (cases c)
  have n: "0 < n" "j \<notin> fst ` set cs" "counts_ok cs" using Cons.prems(2) c by (simp_all add: counts_ok_Cons)
  have z: "count_of cs j = 0" by (rule count_of_absent[OF n(2)])
  have cnt: "count_of (c # cs) i = (if i = j then n else count_of cs i)" for i by (simp add: c count_of_Cons)
  obtain s1 where s1: "complete_job (j, n) s = (s1, Continue)" "sched_ok s1"
    and m1: "map_of (ss_pinned_saves s1) = (map_of (ss_pinned_saves s))(j := (case map_of (ss_pinned_saves s) j of
           None \<Rightarrow> None | Some (bs, r) \<Rightarrow> if r = n then None else Some (bs, r - n)))"
    and p1: "pin_part (s1\<lparr>ss_pinned_saves := [], ss_pool_calls := []\<rparr>) = pin_part (s\<lparr>ss_pinned_saves := [], ss_pool_calls := []\<rparr>)"
    using complete_job_effect[OF Cons.prems(1) n(1), of j] Cons.prems(3) cnt by (metis (no_types, lifting))
  have pos: "\<forall>i bs r. map_of (ss_pinned_saves s1) i = Some (bs, r) \<longrightarrow> 0 < r \<and> count_of cs i \<le> r"
  proof (intro allI impI)
    fix i bs r assume i: "map_of (ss_pinned_saves s1) i = Some (bs, r)"
    show "0 < r \<and> count_of cs i \<le> r"
    proof (cases "i = j")
      case True
      then obtain r0 where "map_of (ss_pinned_saves s) j = Some (bs, r0)" "r = r0 - n" "r0 \<noteq> n"
        using i m1 by (auto split: option.splits if_splits)
      then show ?thesis using Cons.prems(3) cnt[of j] z True by fastforce
    next
      case False
      then show ?thesis using i m1 Cons.prems(3) cnt[of i] by fastforce
    qed
  qed
  obtain s' where s': "for_loop complete_job cs s1 = (s', None)" "sched_ok s'"
    "\<forall>i. map_of (ss_pinned_saves s') i = left_after cs i (map_of (ss_pinned_saves s1) i)"
    "pin_part (s'\<lparr>ss_pinned_saves := [], ss_pool_calls := []\<rparr>) = pin_part (s1\<lparr>ss_pinned_saves := [], ss_pool_calls := []\<rparr>)"
    using Cons.IH[OF s1(2) n(3) pos] by blast
  have "map_of (ss_pinned_saves s') i = left_after (c # cs) i (map_of (ss_pinned_saves s) i)" for i
    using s'(3) m1 cnt[of i] z by (auto simp: left_after_def split: option.splits)
  then show ?case using s' s1 p1 c by auto
qed

lemma complete_loop_tails:
  "ss_finished_partial_tail_metas (fst (for_loop complete_job cs s)) = ss_finished_partial_tail_metas s"
  by (rule for_loop_frame) (auto simp: complete_job_def Let_def split: prod.splits option.splits)

section \<open>The system\<close>

text \<open>A rank: metadata on its way, with the ended requests of the step, its sending thread and \<open>finished_store_req\<close>.\<close>

record rank =
  rk_inbox :: "(store_meta list \<times> string list \<times> string list) list"
  rk_sender :: sender
  rk_finished :: "string set"

record pin_sys =
  py_sched :: store_sched
  py_ranks :: "rank list"

text \<open>The completions of the ranks \<open>is\<close>, drained in this order and merged.\<close>

definition merge_meta :: "(int \<times> int) list option \<Rightarrow> (int \<times> int) list option \<Rightarrow> (int \<times> int) list option" where
  "merge_meta a b = (case a of None \<Rightarrow> b | Some cs \<Rightarrow> (case b of None \<Rightarrow> Some cs | Some ds \<Rightarrow> Some (aggregate cs ds)))"

fun drain :: "nat list \<Rightarrow> rank list \<Rightarrow> rank list \<times> (int \<times> int) list option" where
  "drain [] ws = (ws, None)"
| "drain (i # is) ws =
     (let (d, c) = build_connector_worker_meta (rk_sender (ws ! i));
          (ws', rest) = drain is (ws[i := (ws ! i)\<lparr>rk_sender := d\<rparr>])
      in (ws', merge_meta c rest))"

inductive pin_step :: "(int \<Rightarrow> int \<Rightarrow> int) \<Rightarrow> vllm_ops \<Rightarrow> pin_sys \<Rightarrow> pin_sys \<Rightarrow> bool" for cdiv ops where
  pin_lookup: "get_num_new_matched_tokens wait ready (py_sched y) rid r n = (s', res) \<Longrightarrow> pin_step cdiv ops y (y\<lparr>py_sched := s'\<rparr>)"
| pin_alloc: "update_state_after_alloc (py_sched y) rid blocks n = (s', None) \<Longrightarrow> pin_step cdiv ops y (y\<lparr>py_sched := s'\<rparr>)"
| pin_build: "build_connector_meta cdiv req out (py_sched y) = (s', Inr metas) \<Longrightarrow>
     pin_step cdiv ops y (y\<lparr>py_sched := s', py_ranks := map (\<lambda>w. w\<lparr>rk_inbox :=
       rk_inbox w @ [(metas, so_preempted_req_ids out, so_finished_req_ids out)]\<rparr>) (py_ranks y)\<rparr>)"
| pin_tail: "register_finished_partial_tail req rid block_ids offloads (py_sched y) = (s', Inr held) \<Longrightarrow>
     pin_step cdiv ops y (y\<lparr>py_sched := s'\<rparr>)"
| pin_save: "i < length (py_ranks y) \<Longrightarrow> py_ranks y ! i = w \<Longrightarrow> rk_inbox w = (metas, preempted, finished) # rest \<Longrightarrow>
     wait_for_save True metas (rk_sender w) = Inr d \<Longrightarrow> set pending = rk_finished w \<Longrightarrow>
     close_ended_store_requests preempted finished pending (d, rk_finished w) = (d', fin) \<Longrightarrow>
     pin_step cdiv ops y (y\<lparr>py_ranks := (py_ranks y)[i := \<lparr>rk_inbox = rest, rk_sender = d', rk_finished = fin\<rparr>]\<rparr>)"
| pin_handle: "i < length (py_ranks y) \<Longrightarrow> py_ranks y ! i = w \<Longrightarrow> sd_queue (rk_sender w) = m # q \<Longrightarrow>
     handle_request ops st m ((rk_sender w)\<lparr>sd_queue := q\<rparr>) = Inr d \<Longrightarrow>
     pin_step cdiv ops y (y\<lparr>py_ranks := (py_ranks y)[i := w\<lparr>rk_sender := d\<rparr>]\<rparr>)"
| pin_report: "distinct is \<Longrightarrow> set is \<subseteq> {..<length (py_ranks y)} \<Longrightarrow> drain is (py_ranks y) = (ws, completed) \<Longrightarrow>
     update_connector_output completed (py_sched y) = (s', None) \<Longrightarrow>
     pin_step cdiv ops y (y\<lparr>py_sched := s', py_ranks := ws\<rparr>)"

text \<open>Nothing has been scheduled yet, the pool is bound and there is a rank for every worker.\<close>

definition pin_init :: "pin_sys \<Rightarrow> bool" where
  "pin_init y \<longleftrightarrow> ss_pool_bound (py_sched y) \<and> ss_pinned_saves (py_sched y) = [] \<and> ss_pool_calls (py_sched y) = [] \<and>
     ss_finished_partial_tail_metas (py_sched y) = [] \<and> ss_num_workers (py_sched y) = int (length (py_ranks y)) \<and>
     0 < ss_num_workers (py_sched y) \<and>
     (\<forall>w \<in> set (py_ranks y). rk_inbox w = [] \<and> rk_finished w = {} \<and> sd_queue (rk_sender w) = [] \<and> sd_completed_saves (rk_sender w) = [])"

text \<open>The jobs a rank still has to report: on the way, queued, or finished and not yet taken.\<close>

definition rank_metas :: "rank \<Rightarrow> store_meta list" where
  "rank_metas w = concat (map fst (rk_inbox w)) @ sd_queue (rk_sender w)"

definition rank_owes :: "rank \<Rightarrow> int \<Rightarrow> int" where
  "rank_owes w j = jobs_in (rank_metas w) j + count_of (sd_completed_saves (rk_sender w)) j"

text \<open>A finish-time tail that no step has emitted yet is owed by every rank.\<close>

definition owed :: "store_sched \<Rightarrow> rank \<Rightarrow> int \<Rightarrow> int" where
  "owed s w j = rank_owes w j + jobs_in (map snd (ss_finished_partial_tail_metas s)) j"

definition rank_ok :: "store_sched \<Rightarrow> rank \<Rightarrow> bool" where
  "rank_ok s w \<longleftrightarrow> finite (rk_finished w) \<and> counts_ok (sd_completed_saves (rk_sender w)) \<and> list_all sm_can_save (sd_queue (rk_sender w)) \<and>
     (\<forall>m \<in> set (rank_metas w). sm_can_save m \<longrightarrow> sm_store_job_id m \<noteq> None \<and> covered s m) \<and>
     (\<forall>j. owed s w j \<le> 1 \<and> (ss_next_store_job_id s \<le> j \<longrightarrow> owed s w j = 0))"

definition tails_ok :: "store_sched \<Rightarrow> bool" where
  "tails_ok s \<longleftrightarrow> (\<forall>m \<in> snd ` set (ss_finished_partial_tail_metas s). sm_can_save m \<and>
     (\<exists>j. sm_store_job_id m = Some j \<and> j < ss_next_store_job_id s) \<and> covered s m)"

definition pin_inv :: "pin_sys \<Rightarrow> bool" where
  "pin_inv y \<longleftrightarrow> (let s = py_sched y; ws = py_ranks y in
     ss_pool_bound s \<and> ss_num_workers s = int (length ws) \<and> 0 < ss_num_workers s \<and> sched_ok s \<and> tails_ok s \<and>
     (\<forall>w \<in> set ws. rank_ok s w) \<and>
     (\<forall>j bs r. map_of (ss_pinned_saves s) j = Some (bs, r) \<longrightarrow> 0 < r \<and> r = sum_list (map (\<lambda>w. owed s w j) ws)))"

lemma pin_init_inv: "pin_init y \<Longrightarrow> pin_inv y"
  by (auto simp: pin_init_def pin_inv_def Let_def sched_ok_def tails_ok_def rank_ok_def rank_metas_def owed_def rank_owes_def
      counts_ok_def count_of_def refs_def)


section \<open>Preservation\<close>

lemma pin_invD:
  assumes "pin_inv y"
  shows "ss_pool_bound (py_sched y)" "ss_num_workers (py_sched y) = int (length (py_ranks y))" "0 < ss_num_workers (py_sched y)"
    "sched_ok (py_sched y)" "tails_ok (py_sched y)" "\<forall>w \<in> set (py_ranks y). rank_ok (py_sched y) w"
    "\<forall>j bs r. map_of (ss_pinned_saves (py_sched y)) j = Some (bs, r) \<longrightarrow>
       0 < r \<and> r = sum_list (map (\<lambda>w. owed (py_sched y) w j) (py_ranks y))"
  using assms by (auto simp: pin_inv_def Let_def)

lemma pin_invI:
  assumes "ss_pool_bound (py_sched y)" "ss_num_workers (py_sched y) = int (length (py_ranks y))" "0 < ss_num_workers (py_sched y)"
    "sched_ok (py_sched y)" "tails_ok (py_sched y)" "\<forall>w \<in> set (py_ranks y). rank_ok (py_sched y) w"
    "\<forall>j bs r. map_of (ss_pinned_saves (py_sched y)) j = Some (bs, r) \<longrightarrow>
       0 < r \<and> r = sum_list (map (\<lambda>w. owed (py_sched y) w j) (py_ranks y))"
  shows "pin_inv y"
  using assms by (auto simp: pin_inv_def Let_def)

lemma covered_pin_part: "pin_part s = pin_part s' \<Longrightarrow> covered s m = covered s' m"
  using needed_blocks_cong[of s s' m] by (simp add: covered_def pin_part_def)

lemma owed_pin_part: "pin_part s = pin_part s' \<Longrightarrow> owed s w j = owed s' w j"
  by (simp add: owed_def pin_part_def)

lemma pin_inv_frame:
  assumes "pin_inv y" and p: "pin_part s' = pin_part (py_sched y)"
  shows "pin_inv (y\<lparr>py_sched := s'\<rparr>)"
proof -
  note i = pin_invD[OF assms(1)]
  have c: "covered s' m = covered (py_sched y) m" for m by (rule covered_pin_part[OF p])
  have o: "owed s' w j = owed (py_sched y) w j" for w j by (rule owed_pin_part[OF p])
  have "rank_ok s' w = rank_ok (py_sched y) w" for w using p by (simp add: rank_ok_def c o pin_part_def)
  moreover have "tails_ok s' = tails_ok (py_sched y)" using p by (simp add: tails_ok_def c pin_part_def)
  ultimately show ?thesis using i p sched_ok_pin_part[OF p] o
    by (intro pin_invI) (auto simp: pin_part_def)
qed

lemma rank_owes_nonneg: "rank_ok s w \<Longrightarrow> 0 \<le> rank_owes w j"
  using count_of_nonneg by (simp add: rank_owes_def rank_ok_def)

lemma sum_list_const: "(\<And>w. w \<in> set ws \<Longrightarrow> f w = (c::int)) \<Longrightarrow> sum_list (map f ws) = int (length ws) * c"
  by (induction ws) (auto simp: algebra_simps)

lemma sum_list_cong: "(\<And>w. w \<in> set ws \<Longrightarrow> f w = (g w::int)) \<Longrightarrow> sum_list (map f ws) = sum_list (map g ws)"
  by (induction ws) auto

lemma pin_build_inv:
  assumes inv: "pin_inv y" and b: "build_connector_meta cdiv req out (py_sched y) = (s', Inr new)"
  shows "pin_inv (y\<lparr>py_sched := s', py_ranks := map (\<lambda>w. w\<lparr>rk_inbox := rk_inbox w @ [(new, p, f)]\<rparr>) (py_ranks y)\<rparr>)"
proof -
  let ?s = "py_sched y" let ?n = "ss_next_store_job_id ?s" let ?up = "\<lambda>w. w\<lparr>rk_inbox := rk_inbox w @ [(new, p, f)]\<rparr>"
  note i = pin_invD[OF inv]
  have "\<forall>m \<in> snd ` set (ss_finished_partial_tail_metas ?s). enters ?s m"
    using i(5) unfolding tails_ok_def enters_def by (metis option.inject)
  from build_connector_meta_emits[OF i(4) b this]
  obtain s1 ms where p1: "pin_part s1 = pin_part (?s\<lparr>ss_finished_partial_tail_metas := []\<rparr>)" and nj: "no_jobs ms"
    and em: "emitted s1 (ms @ map snd (ss_finished_partial_tail_metas ?s)) (s', new)" by blast
  note e = em[unfolded emitted_def prod.case]
  have f1: "ss_next_store_job_id s1 = ?n" "ss_num_workers s1 = ss_num_workers ?s" "ss_pool_bound s1 = ss_pool_bound ?s"
    "ss_pinned_saves s1 = ss_pinned_saves ?s" "ss_finished_partial_tail_metas s1 = []"
    "ss_null_block_id s1 = ss_null_block_id ?s" "ss_boundary_state_group_ids s1 = ss_boundary_state_group_ids ?s"
    using p1 by (simp_all add: pin_part_def)
  have nm: "jobs_in ms j = 0" for j using nj by (intro jobs_in_0) (simp add: no_jobs_def)
  have old: "map_of (ss_pinned_saves s') j = map_of (ss_pinned_saves ?s) j" if "j < ?n" for j using e that f1 by simp
  have fresh: "\<forall>j bs r. ?n \<le> j \<longrightarrow> map_of (ss_pinned_saves s') j = Some (bs, r) \<longrightarrow> r = ss_num_workers ?s" using e f1 by simp
  have keep: "covered s' m" if "covered ?s m" for m
    using e f1 old map_of_pinned_less[OF i(4)] by (intro covered_mono[OF that]) auto
  have ow: "owed s' (?up w) j = (if ?n \<le> j \<and> j < ss_next_store_job_id s' then 1 else owed ?s w j)" if "w \<in> set (py_ranks y)" for w j
  proof -
    have "owed s' (?up w) j = rank_owes w j + jobs_in new j"
      using e f1 by (simp add: owed_def rank_owes_def rank_metas_def)
    moreover have "rank_owes w j = 0" if "?n \<le> j"
      using i(6) \<open>w \<in> _\<close> that rank_owes_nonneg[of ?s w j] jobs_in_nonneg[of _ j] unfolding rank_ok_def owed_def
      by (smt (verit, best))
    ultimately show ?thesis using e f1 nm by (auto simp: owed_def)
  qed
  have rk: "rank_ok s' (?up w)" if w: "w \<in> set (py_ranks y)" for w
  proof -
    have r: "rank_ok ?s w" using i(6) w by simp
    have "sm_store_job_id m \<noteq> None \<and> covered s' m" if "m \<in> set (rank_metas (?up w))" "sm_can_save m" for m
      using that r e keep by (auto simp: rank_metas_def rank_ok_def)
    moreover have "owed s' (?up w) j \<le> 1 \<and> (ss_next_store_job_id s' \<le> j \<longrightarrow> owed s' (?up w) j = 0)" for j
      using r e f1 ow[OF w, of j] by (auto simp: rank_ok_def)
    ultimately show ?thesis using r by (auto simp: rank_ok_def)
  qed
  have sums: "0 < r \<and> r = sum_list (map (\<lambda>w. owed s' w j) (map ?up (py_ranks y)))"
    if "map_of (ss_pinned_saves s') j = Some (bs, r)" for j bs r
  proof (cases "j < ?n")
    case True
    then show ?thesis using i(7) old that ow sum_list_cong[of "py_ranks y" "\<lambda>w. owed s' (?up w) j" "\<lambda>w. owed ?s w j"]
      by (simp add: comp_def)
  next
    case False
    have "j < ss_next_store_job_id s'" using e map_of_pinned_less that by blast
    then have "sum_list (map (\<lambda>w. owed s' (?up w) j) (py_ranks y)) = int (length (py_ranks y)) * 1"
      using ow False by (intro sum_list_const) auto
    moreover have "r = ss_num_workers ?s" using fresh that False by (meson not_less)
    ultimately show ?thesis using i(2,3) by (simp add: comp_def)
  qed
  have "tails_ok s'" using e f1 by (simp add: tails_ok_def)
  then show ?thesis using i(1,2,3) e f1 rk sums by (intro pin_invI) auto
qed


lemma register_tail_effect:
  assumes "register_finished_partial_tail req rid block_ids offloads s = (s', Inr held)" and "s' \<noteq> s"
  obtains bs m where "ss_pool_bound s" and "rid \<notin> fst ` set (ss_finished_partial_tail_metas s)"
    and "pin_part s' = pin_part ((pin_job (ss_next_store_job_id s) bs (s\<lparr>ss_next_store_job_id := ss_next_store_job_id s + 1\<rparr>))
           \<lparr>ss_finished_partial_tail_metas := ss_finished_partial_tail_metas s @ [(rid, m)]\<rparr>)"
    and "sm_can_save m" "sm_store_job_id m = Some (ss_next_store_job_id s)" "sm_token_len_chunk m = 0" "set (offload_blocks m) = set bs"
proof -
  let ?n = "ss_next_store_job_id s"
  obtain t where t: "map_of (ss_request_trackers s) rid = Some t" "\<not> ss_consumer s" "offloads \<noteq> []"
    using assms by (auto simp: register_finished_partial_tail_def split: if_splits option.splits)
  obtain os where os: "remap_offloads s offloads = Some os" and pb: "ss_pool_bound s"
    and fr: "\<not> dict_has (ss_finished_partial_tail_metas s) rid"
    using assms t by (auto simp: register_finished_partial_tail_def Let_def split: if_splits option.splits)
  let ?bs = "dedup (map (\<lambda>(_, b, _). b) os)"
  let ?s1 = "pin_job ?n ?bs (s\<lparr>ss_next_store_job_id := ?n + 1\<rparr>)"
  obtain groups where g: "select_groups ?s1 block_ids = Inr groups"
    using assms t os pb fr by (auto simp: register_finished_partial_tail_def Let_def split: if_splits option.splits sum.splits)
  let ?m = "\<lparr>sm_req_id = rid, sm_token_len_chunk = 0, sm_block_ids = groups,
     sm_block_hashes = rq_block_hashes (req rid), sm_can_save = True, sm_load_spec = None,
     sm_token_ids = None, sm_token_ids_start = 0,
     sm_num_prompt_tokens = Some (rt_prefill_end_tokens t), sm_store_job_id = Some ?n,
     sm_boundary_state_offloads = Some os\<rparr>"
  have fresh: "rid \<notin> fst ` set (ss_finished_partial_tail_metas s)" using fr by (simp add: dict_has_def)
  have "s' = ?s1\<lparr>ss_finished_partial_tail_metas := dict_set (ss_finished_partial_tail_metas ?s1) rid ?m,
         ss_request_trackers := dict_set (ss_request_trackers ?s1) rid (t\<lparr>rt_has_pending_offload := True\<rparr>)\<rparr>"
    using assms t os pb fr g by (auto simp: register_finished_partial_tail_def Let_def split: if_splits)
  moreover have "dict_set (ss_finished_partial_tail_metas ?s1) rid ?m = ss_finished_partial_tail_metas s @ [(rid, ?m)]"
    using dict_set_fresh[OF fresh] by (simp add: pin_job_def)
  ultimately show ?thesis using pb fresh
    by (intro that[where bs = ?bs and m = ?m]) (simp_all add: pin_part_def pin_job_def offload_blocks_def)
qed

lemma pin_tail_inv:
  assumes inv: "pin_inv y" and r: "register_finished_partial_tail req rid block_ids offloads (py_sched y) = (s', Inr held)"
  shows "pin_inv (y\<lparr>py_sched := s'\<rparr>)"
proof (cases "s' = py_sched y")
  case True
  then show ?thesis using inv by (intro pin_inv_frame) auto
next
  case False
  let ?s = "py_sched y" let ?n = "ss_next_store_job_id ?s"
  note i = pin_invD[OF inv]
  obtain bs m where p: "pin_part s' = pin_part ((pin_job ?n bs (?s\<lparr>ss_next_store_job_id := ?n + 1\<rparr>))
           \<lparr>ss_finished_partial_tail_metas := ss_finished_partial_tail_metas ?s @ [(rid, m)]\<rparr>)"
    and m: "sm_can_save m" "sm_store_job_id m = Some ?n" "sm_token_len_chunk m = 0" "set (offload_blocks m) = set bs"
    by (rule register_tail_effect[OF r False]) blast
  have f: "ss_next_store_job_id s' = ?n + 1" "ss_num_workers s' = ss_num_workers ?s" "ss_pool_bound s' = ss_pool_bound ?s"
    "ss_pinned_saves s' = dict_set (ss_pinned_saves ?s) ?n (bs, ss_num_workers ?s)"
    "ss_finished_partial_tail_metas s' = ss_finished_partial_tail_metas ?s @ [(rid, m)]"
    "ss_null_block_id s' = ss_null_block_id ?s" "ss_boundary_state_group_ids s' = ss_boundary_state_group_ids ?s"
    using p by (simp_all add: pin_part_def pin_job_def)
  have ok: "sched_ok s'" using sched_ok_pin[OF i(4), of bs] p by (simp add: sched_ok_def pin_part_def)
  have fresh: "map_of (ss_pinned_saves ?s) ?n = None"
    using map_of_pinned_less[OF i(4), of ?n] by (cases "map_of (ss_pinned_saves ?s) ?n") auto
  have keep: "covered s' x" if "covered ?s x" for x by (rule covered_mono[OF that]) (auto simp: f fresh)
  have cov: "covered s' m" using m f by (auto simp: covered_def needed_blocks_def)
  have ow: "owed s' w j = owed ?s w j + (if j = ?n then 1 else 0)" for w j using m f by (simp add: owed_def)
  have rk: "rank_ok s' w" if "w \<in> set (py_ranks y)" for w
  proof -
    have "rank_ok ?s w" using i(6) that by simp
    then show ?thesis using keep unfolding rank_ok_def ow f by auto
  qed
  have sums: "0 < r \<and> r = sum_list (map (\<lambda>w. owed s' w j) (py_ranks y))" if "map_of (ss_pinned_saves s') j = Some (b, r)" for j b r
  proof (cases "j = ?n")
    case True
    have "sum_list (map (\<lambda>w. owed s' w j) (py_ranks y)) = int (length (py_ranks y)) * 1"
      using i(6) ow True by (intro sum_list_const) (simp add: rank_ok_def)
    then show ?thesis using that True f i(2,3) by simp
  next
    case False
    then show ?thesis using that f i(7) ow by simp
  qed
  have "tails_ok s'" unfolding tails_ok_def f
  proof (intro ballI)
    fix x assume "x \<in> snd ` set (ss_finished_partial_tail_metas ?s @ [(rid, m)])"
    then consider "x = m" | "x \<in> snd ` set (ss_finished_partial_tail_metas ?s)" by auto
    then show "sm_can_save x \<and> (\<exists>j. sm_store_job_id x = Some j \<and> j < ?n + 1) \<and> covered s' x"
    proof cases
      case 2
      then have "sm_can_save x" "\<exists>j. sm_store_job_id x = Some j \<and> j < ?n" "covered ?s x" using i(5) by (auto simp: tails_ok_def)
      then show ?thesis using keep by fastforce
    qed (use m cov in simp)
  qed
  then show ?thesis using i(1-3) f ok rk sums by (intro pin_invI) auto
qed

text \<open>A change of one rank that keeps what it owes.\<close>

lemma pin_rank_inv:
  assumes inv: "pin_inv y" and w: "k < length (py_ranks y)"
    and rk: "rank_ok (py_sched y) w'" and ow: "\<forall>j. rank_owes w' j = rank_owes (py_ranks y ! k) j"
  shows "pin_inv (y\<lparr>py_ranks := (py_ranks y)[k := w']\<rparr>)"
proof -
  note i = pin_invD[OF inv]
  have "map (\<lambda>w. owed (py_sched y) w j) ((py_ranks y)[k := w']) = map (\<lambda>w. owed (py_sched y) w j) (py_ranks y)" for j
    using w ow by (simp add: map_update owed_def list_update_same_conv)
  moreover have "\<forall>x \<in> set ((py_ranks y)[k := w']). rank_ok (py_sched y) x"
    using i(6) rk set_update_subset_insert[of "py_ranks y" k w'] by auto
  ultimately show ?thesis using i by (intro pin_invI) simp_all
qed

lemma rank_ok_same:
  assumes "rank_ok s w" "finite (rk_finished w')" "counts_ok (sd_completed_saves (rk_sender w'))" "list_all sm_can_save (sd_queue (rk_sender w'))"
    "\<forall>m \<in> set (rank_metas w'). sm_can_save m \<longrightarrow> m \<in> set (rank_metas w)" "\<forall>j. rank_owes w' j = rank_owes w j"
  shows "rank_ok s w'"
  using assms by (simp add: rank_ok_def owed_def)


lemma pin_save_inv:
  assumes inv: "pin_inv y" and k: "k < length (py_ranks y)" and inbox: "rk_inbox (py_ranks y ! k) = (metas, preempted, finished) # rest"
    and ws: "wait_for_save True metas (rk_sender (py_ranks y ! k)) = Inr d"
    and cl: "close_ended_store_requests preempted finished pending (d, fin) = (d', fin')" and fin: "fin = rk_finished (py_ranks y ! k)"
  shows "pin_inv (y\<lparr>py_ranks := (py_ranks y)[k := \<lparr>rk_inbox = rest, rk_sender = d', rk_finished = fin'\<rparr>]\<rparr>)"
proof -
  let ?w = "py_ranks y ! k" let ?w' = "\<lparr>rk_inbox = rest, rk_sender = d', rk_finished = fin'\<rparr>"
  have rk: "rank_ok (py_sched y) ?w" using pin_invD(6)[OF inv] k by simp
  have "\<forall>m \<in> set metas. sm_can_save m \<longrightarrow> sm_store_job_id m \<noteq> None"
    using rk inbox by (auto simp: rank_ok_def rank_metas_def)
  then have d: "sd_queue d' = sd_queue (rk_sender ?w) @ filter sm_can_save metas" "sd_completed_saves d' = sd_completed_saves (rk_sender ?w)"
    using wait_for_save_effect[of metas "rk_sender ?w"] ws close_ended_effect[OF cl] by auto
  have ow: "\<forall>j. rank_owes ?w' j = rank_owes ?w j" using d inbox by (simp add: rank_owes_def rank_metas_def)
  have "finite fin'" using close_ended_finite[OF cl] fin rk by (simp add: rank_ok_def)
  then have "rank_ok (py_sched y) ?w'" using rk inbox d ow
    by (intro rank_ok_same[OF rk]) (auto simp: rank_ok_def rank_metas_def list_all_iff)
  then show ?thesis using ow by (rule pin_rank_inv[OF inv k])
qed

lemma pin_handle_inv:
  assumes inv: "pin_inv y" and k: "k < length (py_ranks y)" and q: "sd_queue (rk_sender (py_ranks y ! k)) = m # q"
    and h: "handle_request ops st m ((rk_sender (py_ranks y ! k))\<lparr>sd_queue := q\<rparr>) = Inr d"
  shows "pin_inv (y\<lparr>py_ranks := (py_ranks y)[k := (py_ranks y ! k)\<lparr>rk_sender := d\<rparr>]\<rparr>)"
proof -
  let ?w = "py_ranks y ! k" let ?w' = "?w\<lparr>rk_sender := d\<rparr>" let ?cs = "sd_completed_saves (rk_sender ?w)"
  have rk: "rank_ok (py_sched y) ?w" using pin_invD(6)[OF inv] k by simp
  have m: "sm_can_save m" "m \<in> set (rank_metas ?w)" using rk q by (auto simp: rank_ok_def rank_metas_def)
  then obtain j where j: "sm_store_job_id m = Some j" using rk by (auto simp: rank_ok_def)
  have d: "sd_queue d = q" "sd_completed_saves d = dict_set ?cs j (count_of ?cs j + 1)"
    using handle_request_reports[OF j, of ops st "(rk_sender ?w)\<lparr>sd_queue := q\<rparr>"] h by auto
  have cs: "counts_ok ?cs" using rk by (simp add: rank_ok_def)
  have ow: "\<forall>i. rank_owes ?w' i = rank_owes ?w i" using d q m(1) j by (simp add: rank_owes_def rank_metas_def)
  have "counts_ok (sd_completed_saves d)" using counts_ok_set[OF cs] count_of_nonneg[OF cs, of j] d by simp
  then have "rank_ok (py_sched y) ?w'" using rk q d ow
    by (intro rank_ok_same[OF rk]) (auto simp: rank_ok_def rank_metas_def)
  then show ?thesis using ow by (rule pin_rank_inv[OF inv k])
qed

text \<open>What draining takes from the ranks.\<close>

abbreviation drained :: "rank \<Rightarrow> rank" where
  "drained w \<equiv> w\<lparr>rk_sender := (rk_sender w)\<lparr>sd_completed_saves := []\<rparr>\<rparr>"

abbreviation rank_counts :: "rank \<Rightarrow> (int \<times> int) list" where
  "rank_counts w \<equiv> sd_completed_saves (rk_sender w)"

lemma merge_meta_counts:
  assumes "counts_ok cs" "counts_ok (case c of None \<Rightarrow> [] | Some ds \<Rightarrow> ds)"
    and "e = merge_meta (if cs = [] then None else Some cs) c"
  shows "counts_ok (case e of None \<Rightarrow> [] | Some ds \<Rightarrow> ds) \<and>
    count_of (case e of None \<Rightarrow> [] | Some ds \<Rightarrow> ds) j = count_of cs j + count_of (case c of None \<Rightarrow> [] | Some ds \<Rightarrow> ds) j"
  using assms aggregate_counts[OF assms(1), of "the c" j]
  by (cases c; cases "cs = []") (auto simp: merge_meta_def count_of_def counts_ok_def)

lemma drain_effect:
  assumes "drain is ws = (ws', c)" and "distinct is" and "set is \<subseteq> {..<length ws}" and "\<forall>w \<in> set ws. counts_ok (rank_counts w)"
  shows "length ws' = length ws \<and> (\<forall>k < length ws. ws' ! k = (if k \<in> set is then drained (ws ! k) else ws ! k)) \<and>
    counts_ok (case c of None \<Rightarrow> [] | Some cs \<Rightarrow> cs) \<and>
    (\<forall>j. count_of (case c of None \<Rightarrow> [] | Some cs \<Rightarrow> cs) j = (\<Sum>k \<leftarrow> is. count_of (rank_counts (ws ! k)) j))"
  using assms
proof (induction "is" arbitrary: ws ws' c)
  case Nil
  then show ?case by (auto simp: counts_ok_def count_of_def)
next
  case (Cons i "is")
  let ?ws = "ws[i := drained (ws ! i)]" let ?cs = "rank_counts (ws ! i)"
  have i: "i < length ws" "i \<notin> set is" using Cons.prems by auto
  obtain c1 where d: "drain is ?ws = (ws', c1)" and c: "c = merge_meta (if ?cs = [] then None else Some ?cs) c1"
    using Cons.prems(1) by (auto simp: build_connector_worker_meta_def take_completed_saves_def Let_def split: prod.splits)
  have "\<forall>w \<in> set ?ws. counts_ok (rank_counts w)"
  proof
    fix w assume "w \<in> set ?ws"
    then have "w = drained (ws ! i) \<or> w \<in> set ws" using set_update_subset_insert[of ws i "drained (ws ! i)"] by blast
    then show "counts_ok (rank_counts w)" using Cons.prems(4) by (auto simp: counts_ok_def[of "[]"])
  qed
  then have IH: "length ws' = length ws" "\<forall>k < length ws. ws' ! k = (if k \<in> set is then drained (?ws ! k) else ?ws ! k)"
    "counts_ok (case c1 of None \<Rightarrow> [] | Some cs \<Rightarrow> cs)"
    "\<forall>j. count_of (case c1 of None \<Rightarrow> [] | Some cs \<Rightarrow> cs) j = (\<Sum>k \<leftarrow> is. count_of (rank_counts (?ws ! k)) j)"
    using Cons.IH[OF d] Cons.prems(2,3) by auto
  have same: "(\<Sum>k \<leftarrow> is. count_of (rank_counts (?ws ! k)) j) = (\<Sum>k \<leftarrow> is. count_of (rank_counts (ws ! k)) j)" for j
    using i by (intro sum_list_cong) (metis nth_list_update_neq)
  have "counts_ok ?cs" using Cons.prems(4) i by simp
  note mc = merge_meta_counts[OF this IH(3) c]
  show ?case
  proof (intro conjI allI impI)
    fix k assume "k < length ws"
    then show "ws' ! k = (if k \<in> set (i # is) then drained (ws ! k) else ws ! k)" using IH(2) i by (cases "k = i") auto
  next
    fix j show "count_of (case c of None \<Rightarrow> [] | Some cs \<Rightarrow> cs) j = (\<Sum>k \<leftarrow> i # is. count_of (rank_counts (ws ! k)) j)"
      using mc[of j] IH(4) same[of j] by simp
  qed (use IH(1) mc in auto)
qed


lemma drained_owes: "owed s (drained w) j = owed s w j - count_of (rank_counts w) j"
  by (simp add: owed_def rank_owes_def rank_metas_def count_of_def)

lemma owed_sum_drained:
  assumes "length ws' = length ws" "\<forall>k < length ws. ws' ! k = (if k \<in> set is then drained (ws ! k) else ws ! k)"
    and "distinct is" "set is \<subseteq> {..<length ws}"
  shows "sum_list (map (\<lambda>w. owed s w j) ws') =
    sum_list (map (\<lambda>w. owed s w j) ws) - (\<Sum>k \<leftarrow> is. count_of (rank_counts (ws ! k)) j)"
proof -
  let ?c = "\<lambda>k. count_of (rank_counts (ws ! k)) j"
  have "sum_list (map (\<lambda>w. owed s w j) ws') = (\<Sum>k<length ws. owed s (ws' ! k) j)"
    using assms(1) by (simp add: sum_list_sum_nth atLeast0LessThan)
  also have "\<dots> = (\<Sum>k<length ws. owed s (ws ! k) j - (if k \<in> set is then ?c k else 0))"
    using assms(2) by (intro sum.cong) (auto simp: drained_owes)
  also have "\<dots> = (\<Sum>k<length ws. owed s (ws ! k) j) - (\<Sum>k \<in> set is. ?c k)"
    using assms(4) by (simp add: sum_subtractf sum.inter_restrict[symmetric] Int_absorb1)
  also have "(\<Sum>k<length ws. owed s (ws ! k) j) = sum_list (map (\<lambda>w. owed s w j) ws)"
    by (simp add: sum_list_sum_nth atLeast0LessThan)
  finally show ?thesis using sum_list_distinct_conv_sum_set[OF assms(3), of ?c] by simp
qed

lemma update_output_loop:
  "ss_pool_bound s \<Longrightarrow> update_connector_output c s = for_loop complete_job (case c of None \<Rightarrow> [] | Some cs \<Rightarrow> cs) s"
  by (cases c) (auto simp: update_connector_output_def)

lemma owed_nonneg: "counts_ok (rank_counts w) \<Longrightarrow> 0 \<le> owed s w j"
  using count_of_nonneg[of "rank_counts w" j] by (simp add: owed_def rank_owes_def)

lemma jobs_le_owed: "counts_ok (rank_counts w) \<Longrightarrow> jobs_in (rank_metas w) j + jobs_in (map snd (ss_finished_partial_tail_metas s)) j \<le> owed s w j"
  using count_of_nonneg[of "rank_counts w" j] by (simp add: owed_def rank_owes_def)

lemma covered_left:
  assumes "covered s m" "sm_store_job_id m = Some j" and p: "ss_null_block_id s' = ss_null_block_id s"
    "ss_boundary_state_group_ids s' = ss_boundary_state_group_ids s"
    and l: "\<forall>bs r. map_of (ss_pinned_saves s) j = Some (bs, r) \<longrightarrow> (\<exists>r'. map_of (ss_pinned_saves s') j = Some (bs, r'))"
  shows "covered s' m"
  using l assms(2) by (intro covered_mono[OF assms(1) p[symmetric]]) auto

lemma pin_report_inv:
  assumes inv: "pin_inv y" and rks: "distinct is" "set is \<subseteq> {..<length (py_ranks y)}" and dr: "drain is (py_ranks y) = (ws, c)"
  shows "\<exists>s'. update_connector_output c (py_sched y) = (s', None) \<and> pin_inv (y\<lparr>py_sched := s', py_ranks := ws\<rparr>)"
proof -
  let ?s = "py_sched y" let ?cs = "case c of None \<Rightarrow> [] | Some cs \<Rightarrow> cs"
  note i = pin_invD[OF inv]
  have co: "\<forall>w \<in> set (py_ranks y). counts_ok (rank_counts w)" using i(6) by (simp add: rank_ok_def)
  have d: "length ws = length (py_ranks y)"
    "\<forall>k < length (py_ranks y). ws ! k = (if k \<in> set is then drained (py_ranks y ! k) else py_ranks y ! k)"
    "counts_ok ?cs" "\<forall>j. count_of ?cs j = (\<Sum>k \<leftarrow> is. count_of (rank_counts (py_ranks y ! k)) j)"
    using drain_effect[OF dr rks co] by blast+
  have tot: "sum_list (map (\<lambda>w. owed ?s w j) ws) = sum_list (map (\<lambda>w. owed ?s w j) (py_ranks y)) - count_of ?cs j" for j
    using owed_sum_drained[OF d(1,2) rks] d(4) by simp
  have wsrk: "\<exists>u \<in> set (py_ranks y). w = u \<or> w = drained u" if "w \<in> set ws" for w
    using that d(1,2) by (metis in_set_conv_nth)
  have co': "\<forall>w \<in> set ws. counts_ok (rank_counts w)" using wsrk co by (fastforce simp: counts_ok_def[of "[]"])
  have nn: "0 \<le> sum_list (map (\<lambda>w. owed ?s w j) ws)" for j
    using owed_nonneg co' by (intro sum_list_nonneg_int) auto
  have bound: "\<forall>j bs r. map_of (ss_pinned_saves ?s) j = Some (bs, r) \<longrightarrow> 0 < r \<and> count_of ?cs j \<le> r"
    using i(7) tot nn by (metis diff_ge_0_iff_ge)
  obtain s' where u: "for_loop complete_job ?cs ?s = (s', None)" "sched_ok s'"
    and lf: "\<forall>j. map_of (ss_pinned_saves s') j = left_after ?cs j (map_of (ss_pinned_saves ?s) j)"
    and pp: "pin_part (s'\<lparr>ss_pinned_saves := [], ss_pool_calls := []\<rparr>) = pin_part (?s\<lparr>ss_pinned_saves := [], ss_pool_calls := []\<rparr>)"
    using complete_jobs_effect[OF i(4) d(3) bound] by blast
  have f: "ss_next_store_job_id s' = ss_next_store_job_id ?s" "ss_num_workers s' = ss_num_workers ?s"
    "ss_pool_bound s' = ss_pool_bound ?s" "ss_finished_partial_tail_metas s' = ss_finished_partial_tail_metas ?s"
    "ss_null_block_id s' = ss_null_block_id ?s" "ss_boundary_state_group_ids s' = ss_boundary_state_group_ids ?s"
    using pp by (simp_all add: pin_part_def)
  have ow: "owed s' w j = owed ?s w j" for w j by (simp add: owed_def f)
  have live: "\<exists>r'. map_of (ss_pinned_saves s') j = Some (bs, r')"
    if "map_of (ss_pinned_saves ?s) j = Some (bs, r)" "w \<in> set ws" "1 \<le> owed ?s w j" for j bs r w
  proof -
    have "owed ?s w j \<le> sum_list (map (\<lambda>w. owed ?s w j) ws)"
      using owed_nonneg co' that(2) by (intro member_le_sum_list_int) auto
    then have "r \<noteq> count_of ?cs j" using i(7) tot[of j] that by fastforce
    then show ?thesis using lf that(1) by (simp add: left_after_def)
  qed
  have cov: "covered s' m" if "covered ?s m" "sm_store_job_id m = Some j" "w \<in> set ws" "1 \<le> owed ?s w j" for m j w
    using live[OF _ that(3,4)] f by (intro covered_left[OF that(1,2)]) auto
  have rk: "rank_ok s' w" if w: "w \<in> set ws" for w
  proof -
    obtain v where v: "v \<in> set (py_ranks y)" "w = v \<or> w = drained v" using wsrk[OF w] by blast
    have r: "rank_ok ?s v" using i(6) v by simp
    have m: "rank_metas w = rank_metas v" "sd_queue (rk_sender w) = sd_queue (rk_sender v)" using v by (auto simp: rank_metas_def)
    have le: "owed ?s w j \<le> owed ?s v j" for j
      using v count_of_nonneg[of "rank_counts v" j] co by (auto simp: drained_owes)
    have "covered s' x" if "x \<in> set (rank_metas w)" "sm_can_save x" for x
    proof -
      have x: "covered ?s x" "sm_store_job_id x \<noteq> None" using r that m by (auto simp: rank_ok_def)
      then obtain j where j: "sm_store_job_id x = Some j" by auto
      have "1 \<le> owed ?s w j" using jobs_in_pos[OF that j] jobs_le_owed[of w j ?s] co' w jobs_in_nonneg[of _ j] by (smt (verit))
      then show ?thesis by (rule cov[OF x(1) j w])
    qed
    moreover have "owed ?s w j \<le> 1 \<and> (ss_next_store_job_id ?s \<le> j \<longrightarrow> owed ?s w j = 0)" for j
      using r le[of j] owed_nonneg[of w ?s j] co' w unfolding rank_ok_def by (metis dual_order.antisym order_trans)
    moreover have "finite (rk_finished w)" using r v by (auto simp: rank_ok_def)
    ultimately show ?thesis using r co' w m unfolding rank_ok_def ow f by auto
  qed
  have tl: "tails_ok s'" unfolding tails_ok_def f
  proof (intro ballI)
    fix m assume m: "m \<in> snd ` set (ss_finished_partial_tail_metas ?s)"
    then obtain j where j: "sm_can_save m" "sm_store_job_id m = Some j" "j < ss_next_store_job_id ?s" "covered ?s m"
      using i(5) by (auto simp: tails_ok_def)
    obtain w where w: "w \<in> set ws" using i(2,3) d(1) by (cases ws) auto
    have "1 \<le> jobs_in (map snd (ss_finished_partial_tail_metas ?s)) j" using m j by (intro jobs_in_pos) auto
    then have "1 \<le> owed ?s w j" using jobs_le_owed[of w j ?s] co' w jobs_in_nonneg[of "rank_metas w" j] by (smt (verit))
    then show "sm_can_save m \<and> (\<exists>j. sm_store_job_id m = Some j \<and> j < ss_next_store_job_id ?s) \<and> covered s' m"
      using j cov[OF j(4,2) w] by auto
  qed
  have sums: "0 < r \<and> r = sum_list (map (\<lambda>w. owed s' w j) ws)" if "map_of (ss_pinned_saves s') j = Some (bs, r)" for j bs r
  proof -
    have "left_after ?cs j (map_of (ss_pinned_saves ?s) j) = Some (bs, r)" using that lf by simp
    then obtain r0 where "map_of (ss_pinned_saves ?s) j = Some (bs, r0)" "r0 \<noteq> count_of ?cs j" "r = r0 - count_of ?cs j"
      by (cases "map_of (ss_pinned_saves ?s) j") (auto simp: left_after_def split: if_splits)
    then show ?thesis using i(7) bound tot[of j] by (fastforce simp: ow)
  qed
  have "pin_inv (y\<lparr>py_sched := s', py_ranks := ws\<rparr>)"
    using i(1,2,3) f d(1) u(2) tl rk sums by (intro pin_invI) auto
  then show ?thesis using u(1) update_output_loop[OF i(1), of c] by auto
qed


lemma pin_step_inv: "pin_step cdiv ops y y' \<Longrightarrow> pin_inv y \<Longrightarrow> pin_inv y'"
proof (induction rule: pin_step.induct)
  case (pin_lookup wait ready y rid r n s' res)
  then show ?case using matched_tokens_frame[of wait ready "py_sched y" rid r n] by (auto intro!: pin_inv_frame)
next
  case (pin_alloc y rid blocks n s')
  then show ?case using after_alloc_frame[of "py_sched y" rid blocks n] by (auto intro!: pin_inv_frame)
next
  case (pin_build req out y s' metas)
  then show ?case by (auto intro: pin_build_inv)
next
  case (pin_tail req rid block_ids offloads y s' held)
  then show ?case by (auto intro: pin_tail_inv)
next
  case (pin_save i y w metas preempted finished rest d pending d' fin)
  then show ?case by (auto intro: pin_save_inv)
next
  case (pin_handle i y w m q st d)
  then show ?case by (auto intro: pin_handle_inv)
next
  case (pin_report "is" y ws completed s')
  then show ?case using pin_report_inv[of y "is" ws completed] by auto
qed

interpretation pins: inductive_invariant pin_init "pin_step cdiv ops" pin_inv for cdiv ops
  by unfold_locales (auto intro: pin_init_inv pin_step_inv)


section \<open>What the references guarantee\<close>


text \<open>
  C14: The count of a job is exactly the number of ranks that have not reported it: in every reachable
  state a referenced job waits for the ranks that owe it, at least one; no report raises, whatever
  ranks it comes from and in whatever order; no reference count is negative; and when no rank owes
  anything and no finish-time tail is waiting, no reference is left.
\<close>

theorem store_reports_balance:
  assumes "reach pin_init (pin_step cdiv ops) y"
  shows "(\<forall>j bs r. map_of (ss_pinned_saves (py_sched y)) j = Some (bs, r) \<longrightarrow>
       0 < r \<and> r = int (card {k. k < length (py_ranks y) \<and> owed (py_sched y) (py_ranks y ! k) j = 1})) \<and>
    (\<forall>is ws c. distinct is \<and> set is \<subseteq> {..<length (py_ranks y)} \<and> drain is (py_ranks y) = (ws, c) \<longrightarrow>
       snd (update_connector_output c (py_sched y)) = None) \<and>
    (\<forall>b. 0 \<le> refs (ss_pool_calls (py_sched y)) b) \<and>
    ((\<forall>w \<in> set (py_ranks y). \<forall>j. owed (py_sched y) w j = 0) \<longrightarrow>
       \<not> has_pending_push_work (py_sched y) \<and> (\<forall>b. refs (ss_pool_calls (py_sched y)) b = 0))"
proof -
  note inv = pins.reach_inv[OF assms] and i = pin_invD[OF pins.reach_inv[OF assms]]
  let ?s = "py_sched y" let ?ws = "py_ranks y"
  have rf: "refs (ss_pool_calls ?s) b = pinned_refs (ss_pinned_saves ?s) b" for b using i(4) by (simp add: sched_ok_def)
  have "sum_list (map (\<lambda>w. owed ?s w j) ?ws) = int (card {k. k < length ?ws \<and> owed ?s (?ws ! k) j = 1})" for j
  proof -
    have "owed ?s w j = (if owed ?s w j = 1 then 1 else 0)" if "w \<in> set ?ws" for w
    proof -
      have "rank_ok ?s w" using i(6) that by simp
      then have "owed ?s w j \<le> 1" "0 \<le> owed ?s w j" using owed_nonneg[of w ?s j] by (auto simp: rank_ok_def)
      then show ?thesis by simp
    qed
    then have "sum_list (map (\<lambda>w. owed ?s w j) ?ws) = (\<Sum>k<length ?ws. if owed ?s (?ws ! k) j = 1 then 1 else 0)"
      by (simp add: sum_list_sum_nth atLeast0LessThan)
    also have "\<dots> = int (card ({..<length ?ws} \<inter> {k. owed ?s (?ws ! k) j = 1}))" by (simp add: sum.If_cases)
    also have "{..<length ?ws} \<inter> {k. owed ?s (?ws ! k) j = 1} = {k. k < length ?ws \<and> owed ?s (?ws ! k) j = 1}" by auto
    finally show ?thesis .
  qed
  moreover have "snd (update_connector_output c ?s) = None"
    if "distinct is" "set is \<subseteq> {..<length ?ws}" "drain is ?ws = (ws, c)" for "is" ws c
    using pin_report_inv[OF inv that] by auto
  moreover have "ss_pinned_saves ?s = []" if idle: "\<forall>w \<in> set ?ws. \<forall>j. owed ?s w j = 0"
  proof (rule ccontr)
    assume "ss_pinned_saves ?s \<noteq> []"
    then obtain j p qs where "ss_pinned_saves ?s = (j, p) # qs" by (cases "ss_pinned_saves ?s") auto
    then have "map_of (ss_pinned_saves ?s) j = Some p" by simp
    then have "0 < sum_list (map (\<lambda>w. owed ?s w j) ?ws)" using i(7) by (cases p) metis
    moreover have "sum_list (map (\<lambda>w. owed ?s w j) ?ws) = int (length ?ws) * 0" using idle by (intro sum_list_const) auto
    ultimately show False by simp
  qed
  ultimately show ?thesis using i(7) rf pinned_refs_nonneg by (auto simp: has_pending_push_work_def)
qed


text \<open>The work left at a rank; it drops with every step of the rank.\<close>

definition rank_load :: "rank \<Rightarrow> nat" where
  "rank_load w = sum_list (map (\<lambda>x. Suc (length (fst x))) (rk_inbox w)) + length (sd_queue (rk_sender w))"

lemma rank_load_0: "rank_load w = 0 \<longleftrightarrow> rk_inbox w = [] \<and> sd_queue (rk_sender w) = []"
  by (cases "rk_inbox w") (auto simp: rank_load_def)

lemma rank_works:
  assumes inv: "pin_inv y" and k: "k < length (py_ranks y)" and ld: "rank_load (py_ranks y ! k) \<noteq> 0"
  obtains w where "pin_step cdiv ops y (y\<lparr>py_ranks := (py_ranks y)[k := w]\<rparr>)" and "rank_load w < rank_load (py_ranks y ! k)"
proof (cases "rk_inbox (py_ranks y ! k)")
  case Nil
  let ?w = "py_ranks y ! k"
  obtain m q where q: "sd_queue (rk_sender ?w) = m # q" using Nil ld by (cases "sd_queue (rk_sender ?w)") (auto simp: rank_load_def)
  have "rank_ok (py_sched y) ?w" using pin_invD(6)[OF inv] k by simp
  then obtain j where "sm_store_job_id m = Some j" using q by (auto simp: rank_ok_def rank_metas_def)
  then obtain d where "handle_request ops (undefined::store_ops) m ((rk_sender ?w)\<lparr>sd_queue := q\<rparr>) = Inr d" "sd_queue d = q"
    using handle_request_reports[of m j ops undefined "(rk_sender ?w)\<lparr>sd_queue := q\<rparr>"] by auto
  then show ?thesis using q k by (intro that[of "?w\<lparr>rk_sender := d\<rparr>"] pin_handle) (auto simp: rank_load_def)
next
  case (Cons x rest)
  let ?w = "py_ranks y ! k"
  obtain metas preempted finished where x: "x = (metas, preempted, finished)" by (cases x)
  have rk: "rank_ok (py_sched y) ?w" using pin_invD(6)[OF inv] k by simp
  have "\<forall>m \<in> set metas. sm_can_save m \<longrightarrow> sm_store_job_id m \<noteq> None"
    using rk Cons x by (auto simp: rank_ok_def rank_metas_def)
  then obtain d where d: "wait_for_save True metas (rk_sender ?w) = Inr d" "sd_queue d = sd_queue (rk_sender ?w) @ filter sm_can_save metas"
    using wait_for_save_effect[of metas "rk_sender ?w"] by auto
  obtain pending where p: "set pending = rk_finished ?w" using rk finite_list[of "rk_finished ?w"] by (auto simp: rank_ok_def)
  obtain d' fin where c: "close_ended_store_requests preempted finished pending (d, rk_finished ?w) = (d', fin)" by fastforce
  have "sd_queue d' = sd_queue d" using close_ended_effect[OF c] by simp
  then have "rank_load \<lparr>rk_inbox = rest, rk_sender = d', rk_finished = fin\<rparr> < rank_load ?w"
    using Cons x d(2) by (simp add: rank_load_def le_imp_less_Suc)
  then show ?thesis using that[OF pin_save[OF k refl _ d(1) p c]] Cons x by simp
qed

lemma drain_all_idle:
  assumes inv: "pin_inv y" and idle: "\<forall>w \<in> set (py_ranks y). rank_load w = 0" and t: "ss_finished_partial_tail_metas (py_sched y) = []"
  obtains y' where "pin_step cdiv ops y y'" and "ss_pinned_saves (py_sched y') = []" and "pin_inv y'"
proof -
  let ?is = "[0..<length (py_ranks y)]"
  obtain ws c where d: "drain ?is (py_ranks y) = (ws, c)" by fastforce
  obtain s' where s': "update_connector_output c (py_sched y) = (s', None)" "pin_inv (y\<lparr>py_sched := s', py_ranks := ws\<rparr>)"
    using pin_report_inv[OF inv _ _ d] by (auto simp: atLeast0LessThan)
  have co: "\<forall>w \<in> set (py_ranks y). counts_ok (rank_counts w)" using pin_invD(6)[OF inv] by (simp add: rank_ok_def)
  have dr: "length ws = length (py_ranks y)" "\<forall>k < length (py_ranks y). ws ! k = drained (py_ranks y ! k)"
    using drain_effect[OF d _ _ co] by (auto simp: atLeast0LessThan)
  have "ss_finished_partial_tail_metas s' = []"
    using s'(1) t update_output_loop[OF pin_invD(1)[OF inv], of c] complete_loop_tails[of "case c of None \<Rightarrow> [] | Some cs \<Rightarrow> cs" "py_sched y"] by simp
  moreover have "rank_owes w j = 0" if w: "w \<in> set ws" for w j
  proof -
    obtain v where "v \<in> set (py_ranks y)" "w = drained v" using w dr by (metis in_set_conv_nth)
    then show ?thesis using idle by (simp add: rank_owes_def rank_metas_def rank_load_0 count_of_def)
  qed
  ultimately have "owed s' w j = 0" if "w \<in> set ws" for w j using that by (simp add: owed_def)
  then have z: "sum_list (map (\<lambda>w. owed s' w j) ws) = int (length ws) * 0" for j by (intro sum_list_const)
  have "ss_pinned_saves s' = []"
  proof (cases "ss_pinned_saves s'")
    case (Cons q qs)
    obtain j bs r where q: "q = (j, bs, r)" by (cases q)
    then have "map_of (ss_pinned_saves s') j = Some (bs, r)" using Cons by simp
    then have "0 < sum_list (map (\<lambda>w. owed s' w j) ws)" using pin_invD(7)[OF s'(2)] by simp
    then show ?thesis using z[of j] by simp
  qed
  moreover have "pin_step cdiv ops y (y\<lparr>py_sched := s', py_ranks := ws\<rparr>)"
    using s'(1) d by (intro pin_report) (auto simp: atLeast0LessThan)
  ultimately show ?thesis using that s'(2) by auto
qed

lemma store_drains:
  assumes "pin_inv y" and "ss_finished_partial_tail_metas (py_sched y) = []"
  shows "\<exists>y'. (pin_step cdiv ops)\<^sup>*\<^sup>* y y' \<and> pin_inv y' \<and> ss_pinned_saves (py_sched y') = []"
  using assms
proof (induction "sum_list (map rank_load (py_ranks y))" arbitrary: y rule: less_induct)
  case less
  show ?case
  proof (cases "\<forall>w \<in> set (py_ranks y). rank_load w = 0")
    case True
    then show ?thesis using drain_all_idle[OF less.prems(1) _ less.prems(2)] by (metis r_into_rtranclp)
  next
    case False
    then obtain k where k: "k < length (py_ranks y)" "rank_load (py_ranks y ! k) \<noteq> 0" by (metis in_set_conv_nth)
    obtain w where w: "pin_step cdiv ops y (y\<lparr>py_ranks := (py_ranks y)[k := w]\<rparr>)" "rank_load w < rank_load (py_ranks y ! k)"
      by (rule rank_works[OF less.prems(1) k])
    let ?y = "y\<lparr>py_ranks := (py_ranks y)[k := w]\<rparr>"
    have "\<exists>y'. (pin_step cdiv ops)\<^sup>*\<^sup>* ?y y' \<and> pin_inv y' \<and> ss_pinned_saves (py_sched y') = []"
      using less.hyps[of ?y] sum_list_update_less[OF k(1), of rank_load w] w(2) pin_step_inv[OF w(1) less.prems(1)] less.prems(2) by simp
    then show ?thesis using w(1) by (meson converse_rtranclp_into_rtranclp)
  qed
qed

text \<open>
  C30: References are not leaked: from every reachable state without an unemitted finish-time tail,
  the ranks can finish what they hold and report it, and then no block of the pool is referenced by
  the store and the engine has no pending work.
\<close>

theorem store_refs_drain:
  assumes "reach pin_init (pin_step cdiv ops) y" and "ss_finished_partial_tail_metas (py_sched y) = []"
  shows "\<exists>y'. (pin_step cdiv ops)\<^sup>*\<^sup>* y y' \<and> \<not> has_pending_push_work (py_sched y') \<and>
    (\<forall>b. refs (ss_pool_calls (py_sched y')) b = 0)"
proof -
  obtain y' where "(pin_step cdiv ops)\<^sup>*\<^sup>* y y'" "pin_inv y'" "ss_pinned_saves (py_sched y') = []"
    using store_drains[OF pins.reach_inv[OF assms(1)] assms(2)] by blast
  moreover from this have "refs (ss_pool_calls (py_sched y')) b = 0" for b
    using pin_invD(4)[of y'] by (simp add: sched_ok_def)
  ultimately show ?thesis by (auto simp: has_pending_push_work_def)
qed


section \<open>An engine with one rank\<close>

text \<open>
  Two groups of blocks of four tokens, the second one with boundary states; hashes every two tokens.
\<close>

definition demo_sched :: store_sched where
  "demo_sched = \<lparr>ss_consumer = False, ss_load_async = True, ss_lookup_async = False, ss_enable_lookup = True,
     ss_save_decode_cache = False, ss_enable_kv_events = False, ss_store_group_ids = [0, 1], ss_block_size = 4,
     ss_hash_block_size = 2, ss_enable_partial_hash_hits = True, ss_boundary_state_group_ids = [1], ss_null_block_id = 0,
     ss_pool_bound = True, ss_num_workers = 1, ss_next_store_job_id = 0, ss_pinned_saves = [], ss_load_specs = [],
     ss_request_trackers = [], ss_unfinished_requests = [], ss_unfinished_request_ids = {},
     ss_finished_partial_tail_metas = [], ss_futures = [], ss_pool_calls = []\<rparr>"

definition demo_db :: "int \<Rightarrow> token_db" where
  "demo_db g = (let md = \<lparr>km_model_name = ''m'', km_tp_rank = 0, km_pcp_rank = 0, km_dcp_rank = 0, km_pp_rank = 0,
       km_group_id = g, km_cache_prefix = [], km_store_namespace = []\<rparr> in
     \<lparr>db_metadata = md, db_block_size = 4, db_hash_block_size = 2,
      db_layout = RankLocal ((RankLocalStoreLayout md 4 2)\<lparr>rl_kv_caches_base_addr := [1000], rl_block_len := [16]\<rparr>)\<rparr>)"

definition demo_rank :: rank where
  "demo_rank = \<lparr>rk_inbox = [],
     rk_sender = \<lparr>sd_coord = \<lparr>co_groups = [], co_mamba_group_ids = [1], co_hash_block_size = 2, co_lcm_block_size = 4,
         co_enable_partial_hash_hits = True, co_retention_interval = None, co_attention_groups = [], co_eagle_group_ids = []\<rparr>,
       sd_databases = [demo_db 0, demo_db 1], sd_tp_rank = 0, sd_group_put_steps = [1, 1], sd_group_participates = [True, True],
       sd_enable_kv_event = False, sd_use_group_ids = False, sd_null_block_id = 0, sd_queue = [], sd_stored_requests = [],
       sd_completed_saves = [], sd_store_pressure_active = False, sd_skip_store_requests = {}, sd_saved_offset = [],
       sd_retry_token_ids = [], sd_kv_events = []\<rparr>,
     rk_finished = {}\<rparr>"

definition demo_req :: "int \<Rightarrow> string \<Rightarrow> request" where
  "demo_req n rid = \<lparr>rq_num_tokens = n, rq_num_computed_tokens = 0, rq_all_token_ids = [1..n],
     rq_block_hashes = map (\<lambda>i. [word_of_int i]) [1..n div 2]\<rparr>"

definition demo_out :: "int \<Rightarrow> sched_output" where
  "demo_out n = \<lparr>so_finished_req_ids = [], so_preempted_req_ids = [],
     so_new_reqs = [\<lparr>nq_req_id = ''r'', nq_num_computed_tokens = 0, nq_block_ids = [[5, 6], [8]],
       nq_prompt_token_ids = Some [1..n], nq_prefill_token_ids = None\<rparr>],
     so_cached_reqs = [], so_resumed_req_ids = [], so_num_scheduled_tokens = [(''r'', n)],
     so_block_state = Some \<lparr>bs_boundary_state_offloads = [], bs_block_ids = [(''r'', [[5, 6], [8]])]\<rparr>\<rparr>"

definition demo_end :: sched_output where
  "demo_end = \<lparr>so_finished_req_ids = [''r''], so_preempted_req_ids = [], so_new_reqs = [], so_cached_reqs = [],
     so_resumed_req_ids = [], so_num_scheduled_tokens = [], so_block_state = None\<rparr>"

definition demo_cdiv :: "int \<Rightarrow> int \<Rightarrow> int" where
  "demo_cdiv a b = (a + b - 1) div b"

definition demo_alloc :: store_sched where
  "demo_alloc = fst (update_state_after_alloc demo_sched ''r'' [] 0)"

definition demo_meta :: "int \<Rightarrow> store_sched \<times> store_meta list" where
  "demo_meta n = (case build_connector_meta demo_cdiv (demo_req n) (demo_out n) demo_alloc of
     (s, Inr ms) \<Rightarrow> (s, ms) | (s, Inl _) \<Rightarrow> (s, []))"

definition demo_state :: "int \<Rightarrow> pin_sys" where
  "demo_state n = \<lparr>py_sched = fst (demo_meta n), py_ranks = [demo_rank\<lparr>rk_inbox := [(snd (demo_meta n), [], [])]\<rparr>]\<rparr>"

lemma demo_build: "n = 6 \<or> n = 3 \<Longrightarrow>
    build_connector_meta demo_cdiv (demo_req n) (demo_out n) demo_alloc = (fst (demo_meta n), Inr (snd (demo_meta n)))"
proof -
  have "isl (snd (build_connector_meta demo_cdiv (demo_req 6) (demo_out 6) demo_alloc)) = False"
    "isl (snd (build_connector_meta demo_cdiv (demo_req 3) (demo_out 3) demo_alloc)) = False" by code_simp+
  moreover assume "n = 6 \<or> n = 3"
  ultimately show ?thesis unfolding demo_meta_def
    by (cases "build_connector_meta demo_cdiv (demo_req n) (demo_out n) demo_alloc") (auto split: sum.splits)
qed

lemma demo_reach: "n = 6 \<or> n = 3 \<Longrightarrow> reach pin_init (pin_step demo_cdiv ops) (demo_state n)"
proof -
  assume n: "n = 6 \<or> n = 3"
  let ?y0 = "\<lparr>py_sched = demo_sched, py_ranks = [demo_rank]\<rparr>"
  let ?y1 = "?y0\<lparr>py_sched := demo_alloc\<rparr>"
  have "reach pin_init (pin_step demo_cdiv ops) ?y0"
    by (rule reach_init) (simp add: pin_init_def demo_sched_def demo_rank_def)
  moreover have "update_state_after_alloc demo_sched ''r'' [] 0 = (demo_alloc, None)"
    by (simp add: demo_alloc_def update_state_after_alloc_def demo_sched_def)
  then have "pin_step demo_cdiv ops ?y0 ?y1" by (intro pin_alloc[of ?y0 "''r''" "[]" 0]) simp
  moreover have "pin_step demo_cdiv ops ?y1 (demo_state n)"
    using pin_build[of demo_cdiv "demo_req n" "demo_out n" ?y1, OF _ ] demo_build[OF n]
    by (simp add: demo_state_def demo_out_def demo_rank_def)
  ultimately show ?thesis by (blast intro: reach_step)
qed



theorem store_reports_balance_witness:
  "ss_pinned_saves (py_sched (demo_state 6)) = [(0, [5, 6], 1)] \<and>
   int (card {k. k < length (py_ranks (demo_state 6)) \<and> owed (py_sched (demo_state 6)) (py_ranks (demo_state 6) ! k) 0 = 1}) = 1"
proof -
  have "ss_pinned_saves (py_sched (demo_state 6)) = [(0, [5, 6], 1)]" by code_simp
  then show ?thesis using store_reports_balance[OF demo_reach[of 6 demo_ops]] by simp
qed

theorem store_refs_drain_witness:
  "\<exists>y'. (pin_step demo_cdiv demo_ops)\<^sup>*\<^sup>* (demo_state 6) y' \<and> \<not> has_pending_push_work (py_sched y') \<and>
     (\<forall>b. refs (ss_pool_calls (py_sched y')) b = 0)"
proof (rule store_refs_drain[OF demo_reach[of 6 demo_ops]])
  show "ss_finished_partial_tail_metas (py_sched (demo_state 6)) = []" by code_simp
qed simp

section \<open>The finish-time tail\<close>

text \<open>A request of three tokens ends with a partial tail: its state is block 9, its tokens are in block 5.\<close>

definition tail_sched :: store_sched where
  "tail_sched = fst (register_finished_partial_tail (demo_req 3) ''r'' [[5, 6], [8]] [(1, 9, 2)] (py_sched (demo_state 3)))"

definition tail_meta :: "store_sched \<times> store_meta list" where
  "tail_meta = (case build_connector_meta demo_cdiv (demo_req 3) demo_end tail_sched of
     (s, Inr ms) \<Rightarrow> (s, ms) | (s, Inl _) \<Rightarrow> (s, []))"

definition tail_sender :: sender where
  "tail_sender = (case wait_for_save True (snd tail_meta) (rk_sender demo_rank) of Inl _ \<Rightarrow> rk_sender demo_rank
     | Inr d \<Rightarrow> fst (close_ended_store_requests [] [''r''] [] (d, {})))"

definition tail_state :: pin_sys where
  "tail_state = \<lparr>py_sched = fst tail_meta, py_ranks = [\<lparr>rk_inbox = [], rk_sender = tail_sender, rk_finished = {''r''}\<rparr>]\<rparr>"

lemma tail_facts:
  "snd (demo_meta 3) = []"
  "snd (register_finished_partial_tail (demo_req 3) ''r'' [[5, 6], [8]] [(1, 9, 2)] (py_sched (demo_state 3))) = Inr False"
  "isl (snd (build_connector_meta demo_cdiv (demo_req 3) demo_end tail_sched)) = False"
  "isl (wait_for_save True (snd tail_meta) (rk_sender demo_rank)) = False"
  by code_simp+


lemma tail_reach: "reach pin_init (pin_step demo_cdiv ops) tail_state"
proof -
  let ?R = "reach pin_init (pin_step demo_cdiv ops)"
  let ?y = "demo_state 3"
  let ?y1 = "?y\<lparr>py_ranks := [demo_rank]\<rparr>"
  let ?y2 = "?y1\<lparr>py_sched := tail_sched\<rparr>"
  let ?y3 = "?y2\<lparr>py_sched := fst tail_meta, py_ranks := [demo_rank\<lparr>rk_inbox := [(snd tail_meta, [], [''r''])]\<rparr>]\<rparr>"
  have r: "rk_inbox demo_rank = []" "rk_finished demo_rank = {}" by (simp_all add: demo_rank_def)
  have "?R ?y" by (rule demo_reach) simp
  moreover have "pin_step demo_cdiv ops ?y (?y\<lparr>py_ranks := (py_ranks ?y)[0 := \<lparr>rk_inbox = [], rk_sender = rk_sender demo_rank, rk_finished = {}\<rparr>]\<rparr>)"
    by (rule pin_save[where w = "demo_rank\<lparr>rk_inbox := [([], [], [])]\<rparr>" and pending = "[]" and d = "rk_sender demo_rank"
        and metas = "[]" and preempted = "[]" and finished = "[]"])
      (simp_all add: demo_state_def tail_facts demo_rank_def wait_for_save_def close_ended_store_requests_def)
  then have "pin_step demo_cdiv ops ?y ?y1" using r by (simp add: demo_state_def demo_rank_def)
  moreover have "register_finished_partial_tail (demo_req 3) ''r'' [[5, 6], [8]] [(1, 9, 2)] (py_sched ?y1) = (tail_sched, Inr False)"
    using tail_facts(2) by (simp add: tail_sched_def prod_eq_iff)
  then have "pin_step demo_cdiv ops ?y1 ?y2" by (rule pin_tail)
  moreover have "build_connector_meta demo_cdiv (demo_req 3) demo_end (py_sched ?y2) = (fst tail_meta, Inr (snd tail_meta))"
    using tail_facts(3) unfolding tail_meta_def
    by (cases "build_connector_meta demo_cdiv (demo_req 3) demo_end tail_sched") (auto split: sum.splits)
  from pin_build[OF this, of ops] have "pin_step demo_cdiv ops ?y2 ?y3" by (simp add: r demo_end_def)
  moreover obtain d where d: "wait_for_save True (snd tail_meta) (rk_sender demo_rank) = Inr d"
    using tail_facts(4) by (cases "wait_for_save True (snd tail_meta) (rk_sender demo_rank)") auto
  have "snd (close_ended_store_requests [] [''r''] [] (d, {})) = {''r''}"
  proof -
    have "snd (close_ended_store_requests [] [''r''] []
        ((case wait_for_save True (snd tail_meta) (rk_sender demo_rank) of Inl _ \<Rightarrow> rk_sender demo_rank | Inr d \<Rightarrow> d), {})) = {''r''}"
      by code_simp
    then show ?thesis using d by simp
  qed
  then have "close_ended_store_requests [] [''r''] [] (d, {}) = (tail_sender, {''r''})"
    using d by (simp add: tail_sender_def prod_eq_iff)
  from pin_save[of 0 ?y3 _ "snd tail_meta" "[]" "[''r'']" "[]", OF _ refl _ _ _ ] d this
  have "pin_step demo_cdiv ops ?y3 tail_state" by (simp add: r tail_state_def demo_state_def)
  ultimately show ?thesis by (blast intro: reach_step)
qed

text \<open>
  C32: The guarantee does not extend to the finish-time tail of a request: registering it references
  only the handed-off boundary states, while the sending thread also uploads the blocks of every
  other group up to the boundary.  There is a reachable state in which a live tail job is next in
  the queue, its puts read the memory of a block of the request's table, and the store holds no
  reference on that block.
\<close>

theorem tail_reads_unreferenced:
  "\<exists>y w m puts addr sizes key md. reach pin_init (pin_step demo_cdiv demo_ops) y \<and> py_ranks y = [w] \<and>
     sd_queue (rk_sender w) = [m] \<and> is_live_store_job (rk_sender w) m \<and> sm_block_ids m = [[5, 6], [8]] \<and>
     boundary_puts demo_ops (rk_sender w) m (the (sm_boundary_state_offloads m)) = Inr puts \<and>
     db_prepare_value_for_block (sd_databases (rk_sender w) ! 0) 5 = Inr (addr, sizes) \<and> (key, addr, sizes, md) \<in> set puts \<and>
     refs (ss_pool_calls (py_sched y)) 5 = 0"
proof -
  let ?w = "hd (py_ranks tail_state)" let ?m = "hd (snd tail_meta)"
  let ?r = "boundary_puts demo_ops (rk_sender ?w) ?m (the (sm_boundary_state_offloads ?m))"
  have w: "py_ranks tail_state = [?w]" by (simp add: tail_state_def)
  have l: "length (sd_queue tail_sender) = 1 \<and> sd_queue tail_sender = snd tail_meta" by code_simp
  then have "sd_queue (rk_sender ?w) = [?m]" by (cases "snd tail_meta") (auto simp: tail_state_def)
  moreover have "is_live_store_job (rk_sender ?w) ?m" by code_simp
  moreover have "sm_block_ids ?m = [[5, 6], [8]]" by code_simp
  moreover have "isl ?r = False \<and> list_ex (\<lambda>p. fst (snd p) = [1080] \<and> fst (snd (snd p)) = [16]) (projr ?r)" by code_simp
  moreover have "db_prepare_value_for_block (sd_databases (rk_sender ?w) ! 0) 5 = Inr ([1080], [16])" by code_simp
  moreover have "refs (ss_pool_calls (py_sched tail_state)) 5 = 0" by code_simp
  ultimately show ?thesis using tail_reach w by (cases ?r) (auto simp: list_ex_iff, blast)
qed


end
