(* ===== verification/Transfer_Plan.thy ===== *)
theory Transfer_Plan
  imports Py_Values "HOL-Library.Sublist"
begin

text \<open>
  Planning of raw block transfers (\<^verbatim>\<open>mooncake/mooncake_connector.py\<close>): regions of registered caches, their alignment between
  producer and consumer, the slice of a block that one rank sends to another when their tensor-parallel sizes differ, the descriptors
  of a request, and their submission to the transfer engine in bounded batches.  The engine and vLLM's expansion of logical to kernel
  blocks are parameters.
\<close>

section \<open>Regions\<close>

record transfer_region =
  tr_layer_name :: string
  tr_layer_index :: int
  tr_base_addr :: int
  tr_block_len :: int
  tr_kv_block_len :: int
  tr_group_index :: nat

definition get_tp_ratio :: "int \<Rightarrow> int \<Rightarrow> int result" where
  "get_tp_ratio local_tp_size remote_tp_size =
     (if remote_tp_size \<le> local_tp_size
      then if remote_tp_size = 0 then Inl ZeroDivisionError
           else if local_tp_size mod remote_tp_size \<noteq> 0 then Inl AssertionError
           else Inr (local_tp_size div remote_tp_size)
      else if local_tp_size = 0 then Inl ZeroDivisionError
           else if remote_tp_size mod local_tp_size \<noteq> 0 then Inl AssertionError
           else Inr (- (remote_tp_size div local_tp_size)))"

definition expand_transfer_regions ::
    "int list \<Rightarrow> int list \<Rightarrow> int list \<Rightarrow> string list \<Rightarrow> int list \<Rightarrow> nat list option \<Rightarrow> transfer_region list result" where
  "expand_transfer_regions base_addrs block_lens kv_block_lens layer_names layer_indices group_indices =
     (if \<not> (length base_addrs = length block_lens \<and> length block_lens = length kv_block_lens \<and>
             length kv_block_lens = length layer_names \<and> length layer_names = length layer_indices)
      then Inl AssertionError
      else let groups = (case group_indices of None \<Rightarrow> replicate (length layer_names) 0 | Some gs \<Rightarrow> gs) in
        if length groups \<noteq> length layer_names then Inl AssertionError
        else Inr (map (\<lambda>(base, bl, kl, name, index, g). \<lparr>tr_layer_name = name, tr_layer_index = index, tr_base_addr = base,
               tr_block_len = bl, tr_kv_block_len = kl, tr_group_index = g\<rparr>)
             (zip base_addrs (zip block_lens (zip kv_block_lens (zip layer_names (zip layer_indices groups)))))))"

text \<open>\<open>_get_transfer_regions\<close>: the groups of the layers when none were sent.\<close>

definition get_transfer_regions ::
    "(string \<times> nat) list \<Rightarrow> int list \<Rightarrow> int list \<Rightarrow> int list \<Rightarrow> string list \<Rightarrow> int list \<Rightarrow> nat list \<Rightarrow> transfer_region list result" where
  "get_transfer_regions group_by_layer base_addrs block_lens kv_block_lens layer_names layer_indices group_indices =
     expand_transfer_regions base_addrs block_lens kv_block_lens layer_names layer_indices
       (Some (if group_indices = [] then map (\<lambda>n. dict_get group_by_layer n 0) layer_names else group_indices))"

section \<open>Ranks of different sizes\<close>

text \<open>Whether to send, the offset in the local and in the remote block, and the length.\<close>

type_synonym sender_plan = "bool \<times> int \<times> int \<times> int"

definition plain_plan :: "int \<Rightarrow> int \<Rightarrow> int \<Rightarrow> int \<Rightarrow> int \<Rightarrow> bool \<Rightarrow> sender_plan result" where
  "plain_plan tp_ratio local_tp_rank remote_tp_rank local_len remote_len replicated =
     (if 0 < tp_ratio
      then if replicated then Inr (local_tp_rank mod tp_ratio = 0, 0, 0, local_len)
           else Inr (True, 0, local_tp_rank mod tp_ratio * local_len, local_len)
      else if replicated then Inr (True, 0, 0, local_len)
      else if tp_ratio = 0 then Inl ZeroDivisionError
      else Inr (True, remote_tp_rank mod (- tp_ratio) * remote_len, 0, remote_len))"

definition compute_sender_transfer_plan ::
    "int \<Rightarrow> int \<Rightarrow> int \<Rightarrow> int \<Rightarrow> int \<Rightarrow> int \<Rightarrow> bool \<Rightarrow> int option \<Rightarrow> sender_plan result" where
  "compute_sender_transfer_plan local_tp_rank local_tp_size remote_tp_rank remote_tp_size local_len remote_len replicated heads =
     bind_res (get_tp_ratio local_tp_size remote_tp_size) (\<lambda>tp_ratio.
       if tp_ratio = 1 then Inr (True, 0, 0, local_len)
       else case heads of
         Some n \<Rightarrow>
           if replicated \<noteq> (n < remote_tp_size)
           then if local_tp_size = 0 \<or> n = 0 \<or> remote_tp_size = 0 then Inl ZeroDivisionError
                else let head_count = max (n div local_tp_size) 1; replicas = max (local_tp_size div n) 1;
                         local_head = local_tp_rank * n div local_tp_size; remote_head = remote_tp_rank * n div remote_tp_size;
                         bytes = local_len div head_count
                     in Inr (local_tp_rank mod replicas = 0, max (remote_head - local_head) 0 * bytes,
                             max (local_head - remote_head) 0 * bytes, bytes)
           else plain_plan tp_ratio local_tp_rank remote_tp_rank local_len remote_len replicated
       | None \<Rightarrow> plain_plan tp_ratio local_tp_rank remote_tp_rank local_len remote_len replicated)"

definition can_coalesce_block_transfers :: "int \<Rightarrow> int \<Rightarrow> int \<Rightarrow> int \<Rightarrow> int \<Rightarrow> bool" where
  "can_coalesce_block_transfers local_block_len remote_block_len src_offset dst_offset transfer_len \<longleftrightarrow>
     src_offset = 0 \<and> dst_offset = 0 \<and> transfer_len = local_block_len \<and> transfer_len = remote_block_len"

text \<open>The message of a failed validation, by its text and the region it names.\<close>

datatype region_error = RegionCount | HomogeneousLength nat | DestinationLength nat | SourceLength nat

definition region_length_error :: "int \<Rightarrow> nat \<times> transfer_region \<times> transfer_region \<Rightarrow> region_error option" where
  "region_length_error tp_ratio x = (case x of (idx, l, r) \<Rightarrow>
     if tp_ratio = 1 then if tr_kv_block_len l \<noteq> tr_kv_block_len r then Some (HomogeneousLength idx) else None
     else if 0 < tp_ratio then if tr_kv_block_len r \<noteq> tr_kv_block_len l * tp_ratio then Some (DestinationLength idx) else None
     else if tr_kv_block_len l \<noteq> tr_kv_block_len r * (- tp_ratio) then Some (SourceLength idx) else None)"

definition validate_asymmetric_region_lengths ::
    "transfer_region list \<Rightarrow> transfer_region list \<Rightarrow> int \<Rightarrow> int \<Rightarrow> bool \<Rightarrow> int option \<Rightarrow> region_error option result" where
  "validate_asymmetric_region_lengths local_regions remote_regions local_tp_size remote_tp_size replicated heads =
     (if length local_regions \<noteq> length remote_regions then Inr (Some RegionCount)
      else if heads = None \<and> replicated then Inr None
      else let clip = (\<lambda>n. case heads of None \<Rightarrow> n | Some h \<Rightarrow> min n h) in
        bind_res (get_tp_ratio (clip local_tp_size) (clip remote_tp_size)) (\<lambda>tp_ratio.
          Inr (case List.find (\<lambda>x. region_length_error tp_ratio x \<noteq> None) (List.enumerate 0 (zip local_regions remote_regions)) of
                 None \<Rightarrow> None | Some x \<Rightarrow> region_length_error tp_ratio x)))"

section \<open>Alignment\<close>

fun keyed_regions :: "(string \<Rightarrow> nat) \<Rightarrow> transfer_region list \<Rightarrow> ((string \<times> nat) \<times> transfer_region) list" where
  "keyed_regions counts [] = []"
| "keyed_regions counts (r # rs) = (let n = tr_layer_name r in
     ((n, counts n), r) # keyed_regions (counts(n := counts n + 1)) rs)"

datatype align_error = NoOccurrence string nat | LayerIndexMismatch string int int | GroupIndexMismatch string nat nat

type_synonym aligned = "transfer_region list \<times> transfer_region list \<times> align_error option"

fun align_loop :: "bool \<Rightarrow> (string \<times> nat \<rightharpoonup> transfer_region) \<Rightarrow> ((string \<times> nat) \<times> transfer_region) list \<Rightarrow>
    transfer_region list \<Rightarrow> transfer_region list \<Rightarrow> aligned" where
  "align_loop partial remote [] al ar = (al, ar, None)"
| "align_loop partial remote ((key, l) # xs) al ar = (case remote key of
       None \<Rightarrow>
         if partial \<and> remote (tr_layer_name l, 0) = None then align_loop partial remote xs al ar
         else ([], [], Some (NoOccurrence (fst key) (snd key)))
     | Some r \<Rightarrow>
         if tr_layer_index l \<noteq> tr_layer_index r
         then ([], [], Some (LayerIndexMismatch (tr_layer_name l) (tr_layer_index l) (tr_layer_index r)))
         else if tr_group_index l \<noteq> tr_group_index r
         then ([], [], Some (GroupIndexMismatch (tr_layer_name l) (tr_group_index l) (tr_group_index r)))
         else align_loop partial remote xs (al @ [l]) (ar @ [r]))"

definition align_transfer_regions :: "transfer_region list \<Rightarrow> transfer_region list \<Rightarrow> bool \<Rightarrow> aligned" where
  "align_transfer_regions local_regions remote_regions allow_partial_layers =
     align_loop allow_partial_layers (map_of (rev (keyed_regions (\<lambda>_. 0) remote_regions))) (keyed_regions (\<lambda>_. 0) local_regions) [] []"

section \<open>Descriptors of a request\<close>

text \<open>
  What the worker knows of its caches.  \<open>pc_map_to_kernel\<close> is \<open>BlockTable.map_to_kernel_blocks\<close> of vLLM, for a group and the
  number of kernel blocks of a block.
\<close>

record plan_config =
  pc_tp_rank :: int
  pc_tp_size :: int
  pc_replicated :: bool
  pc_null :: int
  pc_mamba :: "bool list"
  pc_physical :: int
  pc_map_to_kernel :: "int list \<Rightarrow> int \<Rightarrow> int list"

record agent_meta =
  ag_tp_rank :: int
  ag_tp_size :: int
  ag_req_blocks :: "(string \<times> string \<times> int list list) list"

definition logical_to_kernel_block_ids :: "plan_config \<Rightarrow> int list list \<Rightarrow> int list list result" where
  "logical_to_kernel_block_ids pc ids =
     (if pc_physical pc = 1 then Inr ids
      else map_res (\<lambda>(i, g). if length (pc_mamba pc) \<le> i then Inl IndexError
             else Inr (if pc_mamba pc ! i then g else pc_map_to_kernel pc g (pc_physical pc))) (List.enumerate 0 ids))"

text \<open>One group of a request: its transferable blocks, or \<open>None\<close> when the producer has too few.\<close>

definition match_blocks :: "plan_config \<Rightarrow> bool \<Rightarrow> int list \<Rightarrow> int list \<Rightarrow> (int list \<times> int list) option" where
  "match_blocks pc is_mamba loc rem =
     (let l = (if is_mamba then filter (\<lambda>b. b \<noteq> pc_null pc) loc else loc);
          r = (if is_mamba then filter (\<lambda>b. b \<noteq> pc_null pc) rem else rem) in
      if length l < length r then None else Some (drop (length l - length r) l, r))"

fun match_groups :: "plan_config \<Rightarrow> (nat \<times> int list \<times> int list) list \<Rightarrow> (int list \<times> int list) list option result" where
  "match_groups pc [] = Inr (Some [])"
| "match_groups pc ((i, l, r) # xs) =
     (if length (pc_mamba pc) \<le> i then Inl IndexError
      else case match_blocks pc (pc_mamba pc ! i) l r of
        None \<Rightarrow> Inr None
      | Some p \<Rightarrow> bind_res (match_groups pc xs) (\<lambda>rest. Inr (map_option (Cons p) rest)))"

text \<open>Runs of blocks that follow each other on both sides (\<open>np.diff\<close>, \<open>np.where\<close> and \<open>np.split\<close>).\<close>

fun contiguous_groups :: "(int \<times> int) list \<Rightarrow> (int \<times> int) list list" where
  "contiguous_groups [] = []"
| "contiguous_groups [x] = [[x]]"
| "contiguous_groups ((l, r) # (l', r') # xs) =
     (if l' - l \<noteq> 1 \<or> r' - r \<noteq> 1 then [(l, r)] # contiguous_groups ((l', r') # xs)
      else case contiguous_groups ((l', r') # xs) of g # gs \<Rightarrow> ((l, r) # g) # gs | [] \<Rightarrow> [[(l, r)]])"

type_synonym descriptor = "int \<times> int \<times> int"

definition block_descriptor :: "transfer_region \<Rightarrow> transfer_region \<Rightarrow> int \<Rightarrow> int \<Rightarrow> int \<Rightarrow> int \<times> int \<Rightarrow> descriptor" where
  "block_descriptor lr rr src_offset dst_offset len b =
     (tr_base_addr lr + fst b * tr_block_len lr + src_offset, tr_base_addr rr + snd b * tr_block_len rr + dst_offset, len)"

definition group_descriptors ::
    "transfer_region \<Rightarrow> transfer_region \<Rightarrow> int \<Rightarrow> int \<Rightarrow> int \<Rightarrow> (int \<times> int) list \<Rightarrow> descriptor list" where
  "group_descriptors lr rr src_offset dst_offset len g =
     (if can_coalesce_block_transfers (tr_block_len lr) (tr_block_len rr) src_offset dst_offset len
      then [block_descriptor lr rr src_offset dst_offset (len * int (length g)) (hd g)]
      else map (block_descriptor lr rr src_offset dst_offset len) g)"

definition region_descriptors ::
    "plan_config \<Rightarrow> agent_meta \<Rightarrow> int list list \<Rightarrow> int list list \<Rightarrow> transfer_region \<times> transfer_region \<Rightarrow> descriptor list result" where
  "region_descriptors pc ag local_ids remote_ids x = (case x of (lr, rr) \<Rightarrow>
     let g = tr_group_index lr in
     if g \<noteq> tr_group_index rr then Inl AssertionError
     else if length local_ids \<le> g then Inl AssertionError
     else if length remote_ids \<le> g then Inl IndexError
     else if local_ids ! g = [] then Inr []
     else bind_res (compute_sender_transfer_plan (pc_tp_rank pc) (pc_tp_size pc) (ag_tp_rank ag) (ag_tp_size ag)
             (tr_kv_block_len lr) (tr_kv_block_len rr) (pc_replicated pc) None) (\<lambda>(should, src_offset, dst_offset, len).
       if \<not> should then Inr []
       else if tr_kv_block_len lr < src_offset + len then Inl AssertionError
       else if tr_kv_block_len rr < dst_offset + len then Inl AssertionError
       else Inr (concat (map (group_descriptors lr rr src_offset dst_offset len) (contiguous_groups (zip (local_ids ! g) (remote_ids ! g)))))))"

datatype request_error = GroupCountMismatch | FewerBlocks

record transfer_params =
  tp_descriptors :: "descriptor list"
  tp_err_reqs :: "string list"
  tp_err_msg :: "request_error option"

definition fail_request :: "string \<Rightarrow> request_error \<Rightarrow> transfer_params \<Rightarrow> transfer_params" where
  "fail_request req e tp = tp\<lparr>tp_err_reqs := tp_err_reqs tp @ [req], tp_err_msg := (if tp_err_msg tp = None then Some e else tp_err_msg tp)\<rparr>"

definition request_params ::
    "plan_config \<Rightarrow> agent_meta \<Rightarrow> (transfer_region \<times> transfer_region) list \<Rightarrow> string \<times> int list list \<Rightarrow> transfer_params \<Rightarrow> transfer_params result" where
  "request_params pc ag regions x tp = (case x of (req, local_ids) \<Rightarrow>
     case map_of (ag_req_blocks ag) req of
       None \<Rightarrow> Inl KeyError
     | Some (_, remote_ids) \<Rightarrow>
         if list_all (\<lambda>g. g = []) remote_ids then Inr tp
         else if length local_ids \<noteq> length remote_ids then Inr (fail_request req GroupCountMismatch tp)
         else bind_res (match_groups pc (List.enumerate 0 (zip local_ids remote_ids))) (\<lambda>m. case m of
             None \<Rightarrow> Inr (fail_request req FewerBlocks tp)
           | Some ps \<Rightarrow>
               if list_all (\<lambda>p. fst p = []) ps then Inr tp
               else bind_res (logical_to_kernel_block_ids pc (map fst ps)) (\<lambda>ls.
                    bind_res (logical_to_kernel_block_ids pc (map snd ps)) (\<lambda>rs.
                    bind_res (map_res (region_descriptors pc ag ls rs) regions) (\<lambda>ds.
                      Inr (tp\<lparr>tp_descriptors := tp_descriptors tp @ concat ds\<rparr>))))))"

definition build_transfer_params_sync ::
    "plan_config \<Rightarrow> agent_meta \<Rightarrow> transfer_region list \<Rightarrow> transfer_region list \<Rightarrow> (string \<times> int list list) list \<Rightarrow> transfer_params result" where
  "build_transfer_params_sync pc ag local_regions remote_regions ready_reqs =
     fold_res (request_params pc ag (zip local_regions remote_regions)) ready_reqs
       \<lparr>tp_descriptors = [], tp_err_reqs = [], tp_err_msg = None\<rparr>"

section \<open>Submission in batches\<close>

definition RAW_TRANSFER_MAX_DESCRIPTORS :: nat where "RAW_TRANSFER_MAX_DESCRIPTORS = 1024"

definition RAW_TRANSFER_MAX_BYTES :: int where "RAW_TRANSFER_MAX_BYTES = 64 * 1024 * 1024"

text \<open>The inner loop: how many of the remaining descriptors form the next batch, after \<open>n\<close> of them with \<open>bytes\<close> bytes.\<close>

fun batch_end :: "int list \<Rightarrow> nat \<Rightarrow> int \<Rightarrow> nat result" where
  "batch_end [] n bytes = Inr n"
| "batch_end (len # lens) n bytes =
     (if len < 0 then Inl ValueError
      else if RAW_TRANSFER_MAX_DESCRIPTORS \<le> n \<or> 0 < n \<and> RAW_TRANSFER_MAX_BYTES < bytes + len then Inr n
      else batch_end lens (n + 1) (bytes + len))"

lemma batch_end_bounds: "batch_end lens n bytes = Inr k \<Longrightarrow> n \<le> k \<and> k \<le> n + length lens"
  by (induction lens n bytes rule: batch_end.induct) (auto split: if_splits)

lemma batch_end_progress: "batch_end (len # lens) 0 0 = Inr k \<Longrightarrow> 0 < k"
  using batch_end_bounds[of lens 1 "0 + len" k] by (auto simp: RAW_TRANSFER_MAX_DESCRIPTORS_def split: if_splits)

text \<open>
  The outer loop.  \<open>engine\<close> is \<open>batch_transfer_sync_write\<close> of the transfer engine: from the batches submitted before and the batch
  itself its return code.  The result is the last code with the submitted batches.
\<close>

function send_loop ::
    "(descriptor list list \<Rightarrow> descriptor list \<Rightarrow> int) \<Rightarrow> descriptor list list \<Rightarrow> descriptor list \<Rightarrow> (int \<times> descriptor list list) result" where
  "send_loop engine submitted ds =
     (if ds = [] then Inr (0, submitted)
      else case batch_end (map (snd \<circ> snd) ds) 0 0 of
        Inl e \<Rightarrow> Inl e
      | Inr k \<Rightarrow> let ret = engine submitted (take k ds) in
          if ret \<noteq> 0 then Inr (ret, submitted @ [take k ds]) else send_loop engine (submitted @ [take k ds]) (drop k ds))"
  by pat_completeness auto
termination
proof (relation "measure (\<lambda>(_, _, ds). length ds)")
  fix engine submitted and ds :: "descriptor list" and k ret
  assume "ds \<noteq> []" "batch_end (map (snd \<circ> snd) ds) 0 0 = Inr k"
  then have "0 < k" by (cases ds) (auto dest!: batch_end_progress simp del: batch_end.simps)
  then show "((engine, submitted @ [take k ds], drop k ds), engine, submitted, ds) \<in> measure (\<lambda>(_, _, ds). length ds)"
    using \<open>ds \<noteq> []\<close> by simp
qed simp

declare send_loop.simps [simp del]

definition send_blocks ::
    "(descriptor list list \<Rightarrow> descriptor list \<Rightarrow> int) \<Rightarrow> int list \<Rightarrow> int list \<Rightarrow> int list \<Rightarrow> (int \<times> descriptor list list) result" where
  "send_blocks engine src_ptrs dst_ptrs lengths =
     (if \<not> (length src_ptrs = length dst_ptrs \<and> length dst_ptrs = length lengths) then Inl ValueError
      else send_loop engine [] (zip src_ptrs (zip dst_ptrs lengths)))"

section \<open>Batches\<close>

definition batch_ok :: "descriptor list \<Rightarrow> bool" where
  "batch_ok b \<longleftrightarrow> b \<noteq> [] \<and> length b \<le> RAW_TRANSFER_MAX_DESCRIPTORS \<and>
     (length b = 1 \<or> sum_list (map (snd \<circ> snd) b) \<le> RAW_TRANSFER_MAX_BYTES)"

lemma batch_end_ok:
  assumes "batch_end lens n bytes = Inr k" "n \<le> RAW_TRANSFER_MAX_DESCRIPTORS" "n \<le> 1 \<or> bytes \<le> RAW_TRANSFER_MAX_BYTES"
  shows "k \<le> RAW_TRANSFER_MAX_DESCRIPTORS \<and> (k \<le> 1 \<or> bytes + sum_list (take (k - n) lens) \<le> RAW_TRANSFER_MAX_BYTES)"
  using assms
proof (induction lens n bytes rule: batch_end.induct)
  case (2 len lens n bytes)
  show ?case
  proof (cases "RAW_TRANSFER_MAX_DESCRIPTORS \<le> n \<or> 0 < n \<and> RAW_TRANSFER_MAX_BYTES < bytes + len")
    case True
    then show ?thesis using 2 by (auto split: if_splits)
  next
    case False
    then have k: "batch_end lens (n + 1) (bytes + len) = Inr k" and "\<not> len < 0" using 2(2) by (auto split: if_splits)
    have "n + 1 \<le> k" using batch_end_bounds[OF k] by simp
    then have "take (k - n) (len # lens) = len # take (k - (n + 1)) lens" by (simp add: take_Cons' Suc_diff_Suc)
    then show ?thesis using 2(1)[OF \<open>\<not> len < 0\<close> False k] False 2(3) by auto
  qed
qed auto

lemma batch_end_total: "\<forall>len \<in> set lens. 0 \<le> len \<Longrightarrow> \<exists>k. batch_end lens n bytes = Inr k"
  by (induction lens n bytes rule: batch_end.induct) auto

lemma next_batch_ok:
  assumes "ds \<noteq> []" "batch_end (map (snd \<circ> snd) ds) 0 0 = Inr k"
  shows "batch_ok (take k ds)"
proof -
  have "0 < k" using assms by (cases ds) (auto dest!: batch_end_progress simp del: batch_end.simps)
  moreover have "k \<le> length ds" using batch_end_bounds[OF assms(2)] by simp
  moreover note batch_end_ok[OF assms(2)]
  ultimately show ?thesis using assms(1) by (auto simp: batch_ok_def take_map min_def le_Suc_eq)
qed

lemma send_loop_result:
  assumes "\<forall>d \<in> set ds. 0 \<le> snd (snd d)"
  shows "\<exists>ret bs. send_loop engine submitted ds = Inr (ret, submitted @ bs) \<and> (\<forall>b \<in> set bs. batch_ok b) \<and>
    (\<forall>i < length bs - (if ret = 0 then 0 else 1). engine (submitted @ take i bs) (bs ! i) = 0) \<and>
    (ret = 0 \<longrightarrow> concat bs = ds) \<and> (ret \<noteq> 0 \<longrightarrow> bs \<noteq> [] \<and> (\<exists>rest. ds = concat bs @ rest) \<and> engine (submitted @ butlast bs) (last bs) = ret)"
  using assms
proof (induction "length ds" arbitrary: ds submitted rule: less_induct)
  case less
  show ?case
  proof (cases "ds = []")
    case True
    then show ?thesis by (intro exI[of _ 0] exI[of _ "[]"]) (simp add: send_loop.simps)
  next
    case False
    obtain k where k: "batch_end (map (snd \<circ> snd) ds) 0 0 = Inr k" using batch_end_total[of "map (snd \<circ> snd) ds" 0 0] less.prems by auto
    have kpos: "0 < k" using False k by (cases ds) (auto dest!: batch_end_progress simp del: batch_end.simps)
    let ?b = "take k ds"
    have ok: "batch_ok ?b" by (rule next_batch_ok[OF False k])
    show ?thesis
    proof (cases "engine submitted ?b = 0")
      case r: False
      then have "send_loop engine submitted ds = Inr (engine submitted ?b, submitted @ [?b])" using False k by (simp add: send_loop.simps[of _ _ ds])
      then show ?thesis using ok r by (intro exI[of _ "engine submitted ?b"] exI[of _ "[?b]"]) (auto intro: exI[of _ "drop k ds"])
    next
      case True
      have "length (drop k ds) < length ds" using False kpos by simp
      moreover have "\<forall>d \<in> set (drop k ds). 0 \<le> snd (snd d)" using less.prems by (auto dest: in_set_dropD)
      ultimately obtain ret bs where ih: "send_loop engine (submitted @ [?b]) (drop k ds) = Inr (ret, (submitted @ [?b]) @ bs)"
        "\<forall>b \<in> set bs. batch_ok b"
        "\<forall>i < length bs - (if ret = 0 then 0 else 1). engine ((submitted @ [?b]) @ take i bs) (bs ! i) = 0"
        "ret = 0 \<longrightarrow> concat bs = drop k ds"
        "ret \<noteq> 0 \<longrightarrow> bs \<noteq> [] \<and> (\<exists>rest. drop k ds = concat bs @ rest) \<and> engine ((submitted @ [?b]) @ butlast bs) (last bs) = ret"
        using less.hyps[of "drop k ds" "submitted @ [?b]"] by blast
      have "send_loop engine submitted ds = Inr (ret, submitted @ ?b # bs)" using False k True ih(1) by (simp add: send_loop.simps[of _ _ ds])
      moreover have "\<forall>b \<in> set (?b # bs). batch_ok b" using ok ih(2) by simp
      moreover have "engine (submitted @ take i (?b # bs)) ((?b # bs) ! i) = 0" if "i < length (?b # bs) - (if ret = 0 then 0 else 1)" for i
        using that True ih(3,5) by (cases i) (auto split: if_splits)
      moreover have "concat (?b # bs) = ds" if "ret = 0" using ih(4) that by simp
      moreover have "\<exists>rest. ds = concat (?b # bs) @ rest" if "ret \<noteq> 0"
      proof -
        obtain rest where "drop k ds = concat bs @ rest" using ih(5) \<open>ret \<noteq> 0\<close> by blast
        then have "ds = concat (?b # bs) @ rest" using append_take_drop_id[of k ds] by simp
        then show ?thesis by blast
      qed
      moreover have "engine (submitted @ butlast (?b # bs)) (last (?b # bs)) = ret" if "ret \<noteq> 0" using ih(5) that by simp
      ultimately show ?thesis by (intro exI[of _ ret] exI[of _ "?b # bs"]) blast
    qed
  qed
qed

text \<open>
  C31: Submission of the descriptors of a transfer ends and never raises when no length is negative: the batches are non-empty, hold at
  most \<open>1024\<close> descriptors and at most 64 MiB unless they are a single larger descriptor, follow each other without gap or overlap, and
  every batch but the one that the engine refuses was accepted; the returned code is zero exactly when all descriptors were submitted
  and accepted.
\<close>

theorem send_blocks_batches:
  assumes "length src = length dst" "length dst = length lens" "\<forall>n \<in> set lens. 0 \<le> n"
  shows "\<exists>ret bs. send_blocks engine src dst lens = Inr (ret, bs) \<and> (\<forall>b \<in> set bs. batch_ok b) \<and>
    (\<forall>i < length bs - (if ret = 0 then 0 else 1). engine (take i bs) (bs ! i) = 0) \<and>
    (ret = 0 \<longrightarrow> concat bs = zip src (zip dst lens)) \<and>
    (ret \<noteq> 0 \<longrightarrow> (\<exists>rest. zip src (zip dst lens) = concat bs @ rest) \<and> engine (butlast bs) (last bs) = ret)"
proof -
  have "\<forall>d \<in> set (zip src (zip dst lens)). 0 \<le> snd (snd d)" using assms(3) by (auto dest!: set_zip_rightD)
  from send_loop_result[OF this, of engine "[]"] show ?thesis unfolding send_blocks_def using assms(1,2) by (simp only: append_Nil simp_thms if_False) blast
qed

theorem send_blocks_batches_witness:
  "send_blocks (\<lambda>_ _. 0) [10, 20, 30] [1, 2, 3] [40000000, 40000000, 5] = Inr (0, [[(10, 1, 40000000)], [(20, 2, 40000000), (30, 3, 5)]]) \<and>
   (\<exists>ret bs. send_blocks (\<lambda>_ _. 0) [10, 20, 30] [1, 2, 3] [40000000, 40000000, 5] = Inr (ret, bs) \<and> (\<forall>b \<in> set bs. batch_ok b))"
proof -
  have "send_blocks (\<lambda>_ _. 0) [10, 20, 30] [1, 2, 3] [40000000, 40000000, 5] = Inr (0, [[(10, 1, 40000000)], [(20, 2, 40000000), (30, 3, 5)]])"
    by code_simp
  then show ?thesis using send_blocks_batches[of "[10, 20, 30]" "[1, 2, 3]" "[40000000, 40000000, 5]" "\<lambda>_ _. 0"] by auto
qed

section \<open>Coalescing\<close>

text \<open>The bytes a list of descriptors copies, as pairs of a source and a destination address.\<close>

definition byte_moves :: "descriptor list \<Rightarrow> (int \<times> int) set" where
  "byte_moves ds = (\<Union>(s, d, n) \<in> set ds. (\<lambda>k. (s + k, d + k)) ` {0..<n})"

lemma byte_moves_simps [simp]:
  "byte_moves [] = {}" "byte_moves ((s, d, n) # ds) = (\<lambda>k. (s + k, d + k)) ` {0..<n} \<union> byte_moves ds"
  "byte_moves (xs @ ys) = byte_moves xs \<union> byte_moves ys"
  by (auto simp: byte_moves_def)

lemma byte_moves_concat: "byte_moves (concat dss) = (\<Union>ds \<in> set dss. byte_moves ds)"
  by (auto simp: byte_moves_def)

fun consecutive :: "(int \<times> int) list \<Rightarrow> bool" where
  "consecutive (x # y # xs) \<longleftrightarrow> fst y = fst x + 1 \<and> snd y = snd x + 1 \<and> consecutive (y # xs)"
| "consecutive _ \<longleftrightarrow> True"

lemma contiguous_groups_Cons: "\<exists>g gs. contiguous_groups (x # xs) = g # gs \<and> g \<noteq> [] \<and> hd g = x"
proof (cases xs)
  case (Cons y ys)
  obtain l r l' r' where "x = (l, r)" "y = (l', r')" by (cases x, cases y)
  then show ?thesis using Cons by (auto split: list.splits)
qed simp

lemma contiguous_groups_ok: "concat (contiguous_groups xs) = xs \<and> (\<forall>g \<in> set (contiguous_groups xs). g \<noteq> [] \<and> consecutive g)"
proof (induction xs rule: contiguous_groups.induct)
  case (3 l r l' r' xs)
  obtain g gs where g: "contiguous_groups ((l', r') # xs) = g # gs" "g \<noteq> []" "hd g = (l', r')" using contiguous_groups_Cons[of "(l', r')" xs] by blast
  then obtain g' where "g = (l', r') # g'" by (cases g) auto
  then show ?case using 3 g by auto
qed auto

lemma byte_range_split:
  fixes s d B n :: int
  assumes "0 \<le> n"
  shows "(\<lambda>k. (s + k, d + k)) ` {0..<B * (n + 1)} =
    (\<lambda>k. (s + k, d + k)) ` {0..<B} \<union> (\<lambda>k. (s + B + k, d + B + k)) ` {0..<B * n}"
proof (cases "0 \<le> B")
  case True
  have "{0..<B * (n + 1)} = {0..<B} \<union> (\<lambda>k. B + k) ` {0..<B * n}"
  proof -
    have "(\<lambda>k. B + k) ` {0..<B * n} = {B..<B + B * n}" by (simp add: image_add_atLeastLessThan add.commute)
    moreover have "0 \<le> B * n" using True assms by simp
    ultimately show ?thesis using True by (auto simp: distrib_left)
  qed
  then show ?thesis by (simp only: image_Un image_image add.assoc)
next
  case False
  then have "B * (n + 1) \<le> 0" "B * n \<le> 0" using assms by (auto simp: mult_le_0_iff)
  then show ?thesis using False by simp
qed

lemma coalesced_moves:
  assumes "consecutive g" "g \<noteq> []" "tr_block_len lr = B" "tr_block_len rr = B"
  shows "byte_moves [block_descriptor lr rr 0 0 (B * int (length g)) (hd g)] = byte_moves (map (block_descriptor lr rr 0 0 B) g)"
  using assms(1,2)
proof (induction g rule: consecutive.induct)
  case (1 x y xs)
  have y: "fst y = fst x + 1" "snd y = snd x + 1" using 1(2) by auto
  let ?s = "tr_base_addr lr + fst x * B" and ?d = "tr_base_addr rr + snd x * B" and ?n = "int (length (y # xs))"
  have "block_descriptor lr rr 0 0 (B * ?n) y = (?s + B, ?d + B, B * ?n)" using y assms(3,4) by (simp add: block_descriptor_def algebra_simps)
  moreover have "byte_moves [block_descriptor lr rr 0 0 (B * ?n) y] = byte_moves (map (block_descriptor lr rr 0 0 B) (y # xs))" using 1 by simp
  ultimately have rest: "byte_moves (map (block_descriptor lr rr 0 0 B) (y # xs)) = (\<lambda>k. (?s + B + k, ?d + B + k)) ` {0..<B * ?n}" by simp
  have "byte_moves [block_descriptor lr rr 0 0 (B * (?n + 1)) x] = (\<lambda>k. (?s + k, ?d + k)) ` {0..<B * (?n + 1)}"
    using assms(3,4) by (simp add: block_descriptor_def)
  also have "\<dots> = (\<lambda>k. (?s + k, ?d + k)) ` {0..<B} \<union> byte_moves (map (block_descriptor lr rr 0 0 B) (y # xs))"
    unfolding rest by (rule byte_range_split) simp
  also have "\<dots> = byte_moves (block_descriptor lr rr 0 0 B x # map (block_descriptor lr rr 0 0 B) (y # xs))"
    using assms(3,4) by (simp only: block_descriptor_def[of _ _ _ _ _ x] byte_moves_simps add_0_right)
  finally show ?case by (simp add: add.commute)
qed (auto simp: block_descriptor_def)

lemma group_moves:
  assumes "consecutive g" "g \<noteq> []"
  shows "byte_moves (group_descriptors lr rr so dt len g) = byte_moves (map (block_descriptor lr rr so dt len) g)"
  using coalesced_moves[OF assms] by (auto simp: group_descriptors_def can_coalesce_block_transfers_def)

text \<open>
  C13: The descriptors of a region, in which runs of consecutive blocks are merged whenever the whole block is copied, move exactly the
  bytes that one descriptor per block would move, and every such piece lies inside the block of the region on both sides.
\<close>

theorem region_descriptors_exact:
  assumes "region_descriptors pc ag local_ids remote_ids (lr, rr) = Inr ds" "local_ids ! tr_group_index lr \<noteq> []"
    and "compute_sender_transfer_plan (pc_tp_rank pc) (pc_tp_size pc) (ag_tp_rank ag) (ag_tp_size ag)
          (tr_kv_block_len lr) (tr_kv_block_len rr) (pc_replicated pc) None = Inr (True, src_offset, dst_offset, len)"
  shows "byte_moves ds = byte_moves (map (block_descriptor lr rr src_offset dst_offset len)
           (zip (local_ids ! tr_group_index lr) (remote_ids ! tr_group_index lr))) \<and>
         src_offset + len \<le> tr_kv_block_len lr \<and> dst_offset + len \<le> tr_kv_block_len rr"
proof -
  let ?xs = "zip (local_ids ! tr_group_index lr) (remote_ids ! tr_group_index lr)"
  have ds: "ds = concat (map (group_descriptors lr rr src_offset dst_offset len) (contiguous_groups ?xs))"
    and b: "src_offset + len \<le> tr_kv_block_len lr" "dst_offset + len \<le> tr_kv_block_len rr"
    using assms by (auto simp: region_descriptors_def Let_def split: if_splits)
  note cg = contiguous_groups_ok[of ?xs]
  have "byte_moves ds = (\<Union>g \<in> set (contiguous_groups ?xs). byte_moves (map (block_descriptor lr rr src_offset dst_offset len) g))"
    unfolding ds byte_moves_concat using cg by (auto simp: group_moves)
  also have "\<dots> = byte_moves (map (block_descriptor lr rr src_offset dst_offset len) (concat (contiguous_groups ?xs)))"
    by (simp add: map_concat byte_moves_concat)
  finally show ?thesis using cg b by simp
qed

section \<open>Alignment is by occurrence\<close>

lemma keyed_name: "((n, i), r) \<in> set (keyed_regions c rs) \<Longrightarrow> tr_layer_name r = n \<and> c n \<le> i"
  by (induction c rs rule: keyed_regions.induct) (fastforce simp: Let_def split: if_splits)+

lemma keyed_snd: "map snd (keyed_regions c rs) = rs"
  by (induction rs arbitrary: c) (auto simp: Let_def)

lemma keyed_distinct: "distinct (map fst (keyed_regions c rs))"
proof (induction rs arbitrary: c)
  case (Cons r rs)
  have "(tr_layer_name r, c (tr_layer_name r)) \<notin> fst ` set (keyed_regions (c(tr_layer_name r := c (tr_layer_name r) + 1)) rs)"
    using keyed_name by fastforce
  then show ?case using Cons by (simp add: Let_def)
qed simp

lemma subseq_set: "subseq xs ys \<Longrightarrow> set xs \<subseteq> set ys"
  by (auto simp: subseq_conv_nths dest: in_set_nthsD)

lemma subseq_distinct: "subseq xs ys \<Longrightarrow> distinct ys \<Longrightarrow> distinct xs"
  by (auto simp: subseq_conv_nths)

definition pair_ok :: "transfer_region \<Rightarrow> transfer_region \<Rightarrow> bool" where
  "pair_ok l r \<longleftrightarrow> tr_layer_name l = tr_layer_name r \<and> tr_layer_index l = tr_layer_index r \<and> tr_group_index l = tr_group_index r"

lemma align_loop_result:
  assumes "align_loop partial remote xs al ar = (al', ar', None)"
  shows "\<exists>ys. al' = al @ map snd ys \<and> ar' = ar @ map (\<lambda>y. the (remote (fst y))) ys \<and> subseq ys xs \<and> (\<not> partial \<longrightarrow> ys = xs) \<and>
    (\<forall>y \<in> set ys. \<exists>r. remote (fst y) = Some r \<and> tr_layer_index (snd y) = tr_layer_index r \<and> tr_group_index (snd y) = tr_group_index r)"
  using assms
proof (induction partial remote xs al ar rule: align_loop.induct)
  case (2 partial remote key l xs al ar)
  show ?case
  proof (cases "remote key")
    case None
    then have "partial" "align_loop partial remote xs al ar = (al', ar', None)" using 2(3) by (auto split: if_splits)
    then obtain ys where "al' = al @ map snd ys \<and> ar' = ar @ map (\<lambda>y. the (remote (fst y))) ys \<and> subseq ys xs \<and>
        (\<forall>y \<in> set ys. \<exists>r. remote (fst y) = Some r \<and> tr_layer_index (snd y) = tr_layer_index r \<and> tr_group_index (snd y) = tr_group_index r)"
      using 2(1)[OF None] 2(3) None by (auto split: if_splits)
    then show ?thesis using \<open>partial\<close> by (intro exI[of _ ys]) auto
  next
    case (Some r)
    then have eq: "tr_layer_index l = tr_layer_index r" "tr_group_index l = tr_group_index r"
      and rec: "align_loop partial remote xs (al @ [l]) (ar @ [r]) = (al', ar', None)" using 2(3) by (auto split: if_splits)
    obtain ys where "al' = (al @ [l]) @ map snd ys" "ar' = (ar @ [r]) @ map (\<lambda>y. the (remote (fst y))) ys" "subseq ys xs" "\<not> partial \<longrightarrow> ys = xs"
        "\<forall>y \<in> set ys. \<exists>r. remote (fst y) = Some r \<and> tr_layer_index (snd y) = tr_layer_index r \<and> tr_group_index (snd y) = tr_group_index r"
      using 2(2)[OF Some] eq rec by auto
    then show ?thesis using Some eq by (intro exI[of _ "(key, l) # ys"]) auto
  qed
qed auto

text \<open>
  When alignment reports no error it pairs regions of the same layer, layer index and group, each local region with the remote
  region that is the same occurrence of the layer name, no remote region twice, in the order of the local regions; and without the
  permission for partial layers it keeps every local region.
\<close>

lemma align_sound:
  assumes "align_transfer_regions L R allow_partial = (al, ar, None)"
  shows "length al = length ar \<and> subseq al L \<and> (\<not> allow_partial \<longrightarrow> al = L) \<and> list_all2 pair_ok al ar \<and>
    (\<exists>keys. distinct keys \<and> set (zip keys al) \<subseteq> set (keyed_regions (\<lambda>_. 0) L) \<and> set (zip keys ar) \<subseteq> set (keyed_regions (\<lambda>_. 0) R) \<and> length keys = length al)"
proof -
  let ?L = "keyed_regions (\<lambda>_. 0) L" let ?R = "keyed_regions (\<lambda>_. 0) R"
  have remote: "map_of (rev ?R) = map_of ?R"
    using keyed_distinct[of "\<lambda>_. 0" R] by (intro map_of_inject_set[THEN iffD2]) (simp_all add: rev_map[symmetric])
  obtain ys where ys: "al = map snd ys" "ar = map (\<lambda>y. the (map_of ?R (fst y))) ys" "subseq ys ?L" "\<not> allow_partial \<longrightarrow> ys = ?L"
    "\<forall>y \<in> set ys. \<exists>r. map_of ?R (fst y) = Some r \<and> tr_layer_index (snd y) = tr_layer_index r \<and> tr_group_index (snd y) = tr_group_index r"
    using align_loop_result[OF assms[unfolded align_transfer_regions_def]] unfolding remote by auto
  have inL: "y \<in> set ?L" if "y \<in> set ys" for y using subseq_set[OF ys(3)] that by blast
  have inR: "(fst y, the (map_of ?R (fst y))) \<in> set ?R" if "y \<in> set ys" for y using ys(5) that by (fastforce dest: map_of_SomeD)
  have "pair_ok (snd y) (the (map_of ?R (fst y)))" if "y \<in> set ys" for y
    using keyed_name[of "fst (fst y)" "snd (fst y)" "snd y"] keyed_name[of "fst (fst y)" "snd (fst y)" "the (map_of ?R (fst y))"] inL[OF that] inR[OF that] ys(5) that
    by (auto simp: pair_ok_def)
  then have "list_all2 pair_ok al ar" unfolding ys(1,2) by (simp add: list_all2_conv_all_nth)
  moreover have "subseq al L" using subseq_map[OF ys(3), of snd] unfolding ys(1) keyed_snd .
  moreover have "\<not> allow_partial \<longrightarrow> al = L" using ys(1,4) keyed_snd[of "\<lambda>_. 0" L] by auto
  moreover have "distinct (map fst ys)" using subseq_map[OF ys(3), of fst] keyed_distinct[of "\<lambda>_. 0" L] subseq_distinct by blast
  moreover have "set (zip (map fst ys) al) \<subseteq> set ?L" unfolding ys(1) zip_map_fst_snd using inL by blast
  moreover have "set (zip (map fst ys) ar) \<subseteq> set ?R" unfolding ys(2) using inR by (auto simp: zip_map1 zip_map2 zip_same_conv_map)
  ultimately show ?thesis using ys(1,2) by (intro conjI exI[of _ "map fst ys"]) simp_all
qed

section \<open>An example\<close>

definition example_region :: "string \<Rightarrow> int \<Rightarrow> transfer_region" where
  "example_region name base = \<lparr>tr_layer_name = name, tr_layer_index = 0, tr_base_addr = base, tr_block_len = 8, tr_kv_block_len = 8, tr_group_index = 0\<rparr>"

definition example_config :: plan_config where
  "example_config = \<lparr>pc_tp_rank = 0, pc_tp_size = 1, pc_replicated = False, pc_null = 0, pc_mamba = [True], pc_physical = 1, pc_map_to_kernel = (\<lambda>xs _. xs)\<rparr>"

definition example_agent :: agent_meta where
  "example_agent = \<lparr>ag_tp_rank = 0, ag_tp_size = 1, ag_req_blocks = [(''d'', ''t'', [[4, 5, 9]])]\<rparr>"

theorem region_descriptors_exact_witness:
  "region_descriptors example_config example_agent [[2, 3, 4]] [[4, 5, 9]] (example_region ''a'' 100, example_region ''a'' 500) =
     Inr [(116, 532, 16), (132, 572, 8)] \<and>
   byte_moves [(116, 532, 16), (132, 572, 8)] = byte_moves (map (block_descriptor (example_region ''a'' 100) (example_region ''a'' 500) 0 0 8)
     (zip [2, 3, 4] [4, 5, 9]))"
proof -
  have d: "region_descriptors example_config example_agent [[2, 3, 4]] [[4, 5, 9]] (example_region ''a'' 100, example_region ''a'' 500) =
     Inr [(116, 532, 16), (132, 572, 8)]" by code_simp
  have p: "compute_sender_transfer_plan (pc_tp_rank example_config) (pc_tp_size example_config) (ag_tp_rank example_agent) (ag_tp_size example_agent)
      (tr_kv_block_len (example_region ''a'' 100)) (tr_kv_block_len (example_region ''a'' 500)) (pc_replicated example_config) None = Inr (True, 0, 0, 8)"
    by code_simp
  have g: "[[2, 3, 4]] ! tr_group_index (example_region ''a'' 100) = [2::int, 3, 4]" "[[4, 5, 9]] ! tr_group_index (example_region ''a'' 100) = [4::int, 5, 9]"
    by (simp_all add: example_region_def)
  show ?thesis using region_descriptors_exact[OF d _ p] d unfolding g by blast
qed

lemma align_sound_witness:
  "align_transfer_regions [example_region ''b'' 1, example_region ''a'' 2] [example_region ''a'' 7, example_region ''b'' 8] False =
     ([example_region ''b'' 1, example_region ''a'' 2], [example_region ''b'' 8, example_region ''a'' 7], None) \<and>
   list_all2 pair_ok [example_region ''b'' 1, example_region ''a'' 2] [example_region ''b'' 8, example_region ''a'' 7]"
proof -
  have "align_transfer_regions [example_region ''b'' 1, example_region ''a'' 2] [example_region ''a'' 7, example_region ''b'' 8] False =
     ([example_region ''b'' 1, example_region ''a'' 2], [example_region ''b'' 8, example_region ''a'' 7], None)" by code_simp
  then show ?thesis using align_sound by blast
qed

end
