(* ===== verification/Session_Chunks.thy ===== *)
theory Session_Chunks
  imports Transfer_Plan
begin

text \<open>
  What a compressed session moves: which ranks pair up, which blocks of the producer meet which blocks
  of the consumer, and how the blocks and their valid tokens are cut into chunks
  (\<^verbatim>\<open>mooncake/session_ipc.py\<close>, \<^verbatim>\<open>compression/tokens.py\<close>, and the planning functions and session jobs of
  \<^verbatim>\<open>mooncake_connector.py\<close>).  Encoding, decoding and the copies themselves are not modelled.
  \<open>StopIteration\<close> is counted as a \<open>RuntimeError\<close>.
\<close>

section \<open>Pairing of ranks\<close>

definition handshake_target_ranks :: "int \<Rightarrow> int \<Rightarrow> int \<Rightarrow> int list result" where
  "handshake_target_ranks tp_rank tp_size remote_tp_size =
     (if remote_tp_size \<le> tp_size
      then if remote_tp_size = 0 \<or> tp_size div remote_tp_size = 0 then Inl ZeroDivisionError
           else Inr [tp_rank div (tp_size div remote_tp_size)]
      else if tp_size = 0 then Inl ZeroDivisionError
      else let ratio = remote_tp_size div tp_size in Inr (map (\<lambda>index. tp_rank * ratio + index) [0..ratio - 1]))"

section \<open>Blocks\<close>

text \<open>\<open>local_group[-len(remote_group):] if remote_group else []\<close> when the local group is longer.\<close>

definition match_group :: "int \<Rightarrow> bool \<Rightarrow> int list \<Rightarrow> int list \<Rightarrow> int list \<times> int list" where
  "match_group null is_mamba loc rem =
     (let loc1 = (if is_mamba then filter (\<lambda>b. b \<noteq> null) loc else loc);
          rem1 = (if is_mamba then filter (\<lambda>b. b \<noteq> null) rem else rem) in
      ((if length rem1 < length loc1 then drop (length loc1 - length rem1) loc1 else loc1), rem1))"

definition match_compression_blocks ::
    "int \<Rightarrow> bool list \<Rightarrow> int list list \<Rightarrow> int list list \<Rightarrow> (int list list \<times> int list list) result" where
  "match_compression_blocks null mamba_groups loc rem =
     (let rem0 = (if rem = [] then map (\<lambda>_. []) loc else rem) in
      bind_res (map_res (\<lambda>(g, l, r). if g < length mamba_groups then Inr (match_group null (mamba_groups ! g) l r) else Inl IndexError)
        (List.enumerate 0 (zip loc rem0))) (\<lambda>pairs. Inr (map fst pairs, map snd pairs)))"

section \<open>Chunks\<close>

definition compression_total_chunks :: "int \<Rightarrow> int \<Rightarrow> int" where
  "compression_total_chunks n per = (n + per - 1) div per * 2"

text \<open>The first block, the number of blocks and the KV part of a chunk.\<close>

definition compression_chunk_window :: "int \<Rightarrow> int \<Rightarrow> int \<Rightarrow> int \<times> int \<times> int" where
  "compression_chunk_window chunk_id n per =
     (let start = chunk_id div 2 * per in (start, min per (n - start), chunk_id mod 2))"

text \<open>A dict from group ids to numbers.\<close>

type_synonym group_counts = "(nat \<times> int) list"

definition suffix_token_counts :: "int \<Rightarrow> int list list \<Rightarrow> group_counts \<Rightarrow> group_counts result" where
  "suffix_token_counts num_tokens block_ids block_sizes =
     map_res (\<lambda>(g, bs).
       if bs = 0 then Inl ZeroDivisionError else let full = (num_tokens + bs - 1) div bs in
       bind_res (if block_ids = [] then Inr 0 else if g < length block_ids then Inr (int (length (block_ids ! g))) else Inl IndexError)
         (\<lambda>count. Inr (g, if count \<noteq> 0 then num_tokens - (full - count) * bs else 0))) block_sizes"

definition chunk_token_counts :: "group_counts \<Rightarrow> group_counts \<Rightarrow> int \<Rightarrow> int \<Rightarrow> group_counts result" where
  "chunk_token_counts valid block_sizes start n =
     map_res (\<lambda>(g, bs). case map_of valid g of
         None \<Rightarrow> Inl KeyError
       | Some v \<Rightarrow> Inr (g, min (v - start * bs) (n * bs))) block_sizes"

text \<open>The block ids of a chunk, group by group; only the compressed groups have any.\<close>

definition chunk_block_ids :: "nat list \<Rightarrow> int list list \<Rightarrow> int \<Rightarrow> int \<Rightarrow> int list list" where
  "chunk_block_ids fa_groups block_ids start n =
     map (\<lambda>(i, blocks). if i \<in> set fa_groups then py_slice blocks start (start + n) else []) (List.enumerate 0 block_ids)"

section \<open>The session jobs\<close>

record chunk_plan =
  cp_block_ids :: "int list list"
  cp_part :: int
  cp_valid_tokens :: group_counts

text \<open>What \<open>_session_job_open_producer\<close> answers: matched blocks, valid tokens and chunks.\<close>

record open_result =
  or_local_block_ids :: "int list list"
  or_valid_tokens :: group_counts
  or_logical_block_count :: int
  or_total_chunks :: int

text \<open>The lists that describe the registered caches of one side.\<close>

record cache_lists =
  cl_base_addrs :: "int list"
  cl_block_lens :: "int list"
  cl_kv_block_lens :: "int list"
  cl_layer_names :: "string list"
  cl_layer_indices :: "int list"
  cl_group_indices :: "nat list"

record open_config =
  oc_raw :: bool
  oc_block_sizes :: group_counts
  oc_per_chunk :: int
  oc_plan :: plan_config
  oc_group_by_layer :: "(string \<times> nat) list"
  oc_caches :: cache_lists

record open_job =
  oj_transfer_id :: string
  oj_d_req_id :: string
  oj_remote_tp_rank :: int
  oj_remote_tp_size :: int
  oj_local_block_ids :: "int list list"
  oj_remote_block_ids :: "int list list"
  oj_num_tokens :: "int option"
  oj_caches :: cache_lists

definition regions_of :: "open_config \<Rightarrow> cache_lists \<Rightarrow> transfer_region list result" where
  "regions_of oc c = get_transfer_regions (oc_group_by_layer oc) (cl_base_addrs c) (cl_block_lens c) (cl_kv_block_lens c)
     (cl_layer_names c) (cl_layer_indices c) (cl_group_indices c)"

text \<open>The regions that are sent as they are: all of a raw session, else those of the groups that are not compressed.\<close>

definition raw_pairs :: "open_config \<Rightarrow> transfer_region list \<Rightarrow> transfer_region list \<Rightarrow> (transfer_region \<times> transfer_region) list" where
  "raw_pairs oc lrs rrs = (case align_transfer_regions lrs rrs False of (al, ar, _) \<Rightarrow>
     filter (\<lambda>(l, _). oc_raw oc \<or> tr_group_index l \<notin> fst ` set (oc_block_sizes oc)) (zip al ar))"

definition send_raw ::
    "(descriptor list list \<Rightarrow> descriptor list \<Rightarrow> int) \<Rightarrow> transfer_params \<Rightarrow> descriptor list list result" where
  "send_raw engine tp =
     (if tp_err_reqs tp \<noteq> [] then Inl RuntimeError
      else let ds = tp_descriptors tp in
        if ds = [] then Inr []
        else bind_res (send_blocks engine (map fst ds) (map (fst \<circ> snd) ds) (map (snd \<circ> snd) ds)) (\<lambda>(ret, batches).
          if ret \<noteq> 0 then Inl RuntimeError else Inr batches))"

definition session_counts :: "open_config \<Rightarrow> int list list \<Rightarrow> (int \<times> int) result" where
  "session_counts oc remote_ids =
     (if oc_raw oc then Inr (0, 0)
      else case oc_block_sizes oc of
        [] \<Rightarrow> Inl RuntimeError
      | (g, _) # _ \<Rightarrow>
          if length remote_ids \<le> g then Inl IndexError
          else if oc_per_chunk oc = 0 then Inl ZeroDivisionError
          else let count = int (length (remote_ids ! g)) in Inr (count, compression_total_chunks count (oc_per_chunk oc)))"

text \<open>The whole job; beside its result it gives the batches that the transfer engine has written.\<close>

definition session_job_open_producer ::
    "(descriptor list list \<Rightarrow> descriptor list \<Rightarrow> int) \<Rightarrow> open_config \<Rightarrow> open_job \<Rightarrow> (open_result \<times> descriptor list list) result" where
  "session_job_open_producer engine oc oj =
     bind_res (match_compression_blocks (pc_null (oc_plan oc)) (pc_mamba (oc_plan oc)) (oj_local_block_ids oj) (oj_remote_block_ids oj)) (\<lambda>(local_ids, remote_ids).
     bind_res (if oc_raw oc then Inr [] else case oj_num_tokens oj of None \<Rightarrow> Inl AssertionError
               | Some n \<Rightarrow> suffix_token_counts n remote_ids (oc_block_sizes oc)) (\<lambda>valid.
     bind_res (regions_of oc (oc_caches oc)) (\<lambda>lrs.
     bind_res (regions_of oc (oj_caches oj)) (\<lambda>rrs.
     let pairs = raw_pairs oc lrs rrs;
         ag = \<lparr>ag_tp_rank = oj_remote_tp_rank oj, ag_tp_size = oj_remote_tp_size oj,
               ag_req_blocks = [(oj_d_req_id oj, oj_transfer_id oj, oj_remote_block_ids oj)]\<rparr> in
     bind_res (build_transfer_params_sync (oc_plan oc) ag (map fst pairs) (map snd pairs) [(oj_d_req_id oj, oj_local_block_ids oj)]) (\<lambda>tp.
     bind_res (send_raw engine tp) (\<lambda>sent.
     bind_res (session_counts oc remote_ids) (\<lambda>(count, total).
       Inr (\<lparr>or_local_block_ids = local_ids, or_valid_tokens = valid, or_logical_block_count = count, or_total_chunks = total\<rparr>, sent))))))))"

definition session_job_encode_chunk ::
    "group_counts \<Rightarrow> int \<Rightarrow> int \<Rightarrow> int list list \<Rightarrow> group_counts \<Rightarrow> int \<Rightarrow> chunk_plan result" where
  "session_job_encode_chunk block_sizes per chunk_id local_block_ids valid logical_block_count =
     (let (start, n, part) = compression_chunk_window chunk_id logical_block_count per in
      bind_res (chunk_token_counts valid block_sizes start n) (\<lambda>tokens.
        Inr \<lparr>cp_block_ids = chunk_block_ids (map fst block_sizes) local_block_ids start n, cp_part = part, cp_valid_tokens = tokens\<rparr>))"

definition session_job_decode_chunk ::
    "bool \<Rightarrow> group_counts \<Rightarrow> int \<Rightarrow> int \<Rightarrow> int list list \<Rightarrow> int option \<Rightarrow> int \<Rightarrow> chunk_plan result" where
  "session_job_decode_chunk raw block_sizes per chunk_id local_block_ids num_tokens logical_block_count =
     (let (start, n, part) = compression_chunk_window chunk_id logical_block_count per in
      bind_res (if raw then Inr [] else case num_tokens of
          None \<Rightarrow> Inl AssertionError
        | Some nt \<Rightarrow> bind_res (suffix_token_counts nt local_block_ids block_sizes) (\<lambda>valid. chunk_token_counts valid block_sizes start n)) (\<lambda>tokens.
        Inr \<lparr>cp_block_ids = chunk_block_ids (map fst block_sizes) local_block_ids start n, cp_part = part, cp_valid_tokens = tokens\<rparr>))"

section \<open>Chunks cover a session\<close>

text \<open>The number of chunks of one part.\<close>

definition part_chunks :: "int \<Rightarrow> int \<Rightarrow> int" where
  "part_chunks n per = (n + per - 1) div per"

lemma part_chunks_bounds:
  assumes "0 < per" "0 \<le> n"
  shows "0 \<le> part_chunks n per" "n \<le> part_chunks n per * per" "part_chunks n per * per < n + per"
proof -
  have "(n + per - 1) div per * per + (n + per - 1) mod per = n + per - 1" by simp
  moreover have "0 \<le> (n + per - 1) mod per" "(n + per - 1) mod per < per" using assms by auto
  ultimately show "n \<le> part_chunks n per * per" "part_chunks n per * per < n + per" unfolding part_chunks_def by linarith+
  show "0 \<le> part_chunks n per" using assms by (simp add: part_chunks_def pos_imp_zdiv_nonneg_iff)
qed

lemma part_chunks_start:
  assumes "0 < per" "0 \<le> n"
  shows "j < part_chunks n per \<longleftrightarrow> j * per < n"
proof
  assume "j < part_chunks n per"
  then have "(j + 1) * per \<le> part_chunks n per * per" using assms(1) by (intro mult_right_mono) auto
  then show "j * per < n" using part_chunks_bounds(3)[OF assms] by (simp add: distrib_right)
next
  assume "j * per < n"
  then have "j * per < part_chunks n per * per" using part_chunks_bounds(2)[OF assms] by linarith
  then show "j < part_chunks n per" using assms(1) by simp
qed

lemma total_chunks_part: "compression_total_chunks n per = 2 * part_chunks n per"
  by (simp add: compression_total_chunks_def part_chunks_def)

text \<open>A window holds the blocks whose index divided by the chunk size is the number of the chunk.\<close>

lemma window_mem:
  fixes c per i n :: int
  assumes "0 < per" "i < n"
  shows "c div 2 * per \<le> i \<and> i < c div 2 * per + min per (n - c div 2 * per) \<longleftrightarrow> c div 2 = i div per"
proof
  assume a: "c div 2 * per \<le> i \<and> i < c div 2 * per + min per (n - c div 2 * per)"
  have "i div per = c div 2" using a assms(1) by (intro int_div_pos_eq[of _ per _ "i - c div 2 * per"]) (auto simp: mult.commute)
  then show "c div 2 = i div per" by simp
next
  assume a: "c div 2 = i div per"
  have "i div per * per + i mod per = i" "0 \<le> i mod per" "i mod per < per" using assms(1) by auto
  then show "c div 2 * per \<le> i \<and> i < c div 2 * per + min per (n - c div 2 * per)" unfolding a using assms(2) by linarith
qed

text \<open>
  The chunks of a session transfer every block once for keys and once for values: each chunk
  covers at least one and at most the configured number of blocks, within the session, and for every
  block and KV part exactly one chunk of the session carries it.
\<close>

lemma chunk_windows_partition:
  assumes "0 < per" and "0 \<le> n"
  shows "(\<forall>c. 0 \<le> c \<and> c < compression_total_chunks n per \<longrightarrow>
      (case compression_chunk_window c n per of (s, k, p) \<Rightarrow> 0 \<le> s \<and> 0 < k \<and> k \<le> per \<and> s + k \<le> n \<and> p \<in> {0, 1})) \<and>
    (\<forall>i p. 0 \<le> i \<and> i < n \<and> p \<in> {0, 1} \<longrightarrow>
      (\<exists>!c. 0 \<le> c \<and> c < compression_total_chunks n per \<and>
        (case compression_chunk_window c n per of (s, k, q) \<Rightarrow> s \<le> i \<and> i < s + k \<and> q = p)))"
proof (intro conjI allI impI)
  fix c assume c: "0 \<le> c \<and> c < compression_total_chunks n per"
  then have "c div 2 < part_chunks n per" unfolding total_chunks_part by linarith
  then have "c div 2 * per < n" using part_chunks_start[OF assms] by simp
  then show "case compression_chunk_window c n per of (s, k, p) \<Rightarrow> 0 \<le> s \<and> 0 < k \<and> k \<le> per \<and> s + k \<le> n \<and> p \<in> {0, 1}"
    using c assms by (auto simp: compression_chunk_window_def Let_def)
next
  fix i p :: int assume a: "0 \<le> i \<and> i < n \<and> p \<in> {0, 1}"
  let ?c = "2 * (i div per) + p"
  have "i div per < part_chunks n per"
  proof -
    have "i div per * per \<le> i" using assms(1) by (simp add: minus_mod_eq_div_mult[symmetric])
    then show ?thesis using part_chunks_start[OF assms] a by simp
  qed
  then have c: "0 \<le> ?c \<and> ?c < compression_total_chunks n per" "?c div 2 = i div per" "?c mod 2 = p"
    using a assms by (auto simp: total_chunks_part pos_imp_zdiv_nonneg_iff)
  have uniq: "c = ?c" if "c div 2 = i div per" "c mod 2 = p" for c
    using that div_mult_mod_eq[of c 2] by (simp add: mult.commute)
  have iff: "(case compression_chunk_window c n per of (s, k, q) \<Rightarrow> s \<le> i \<and> i < s + k \<and> q = p) \<longleftrightarrow>
      c div 2 = i div per \<and> c mod 2 = p" for c
    using window_mem[OF assms(1), of i n c] a unfolding compression_chunk_window_def Let_def prod.case by blast
  show "\<exists>!c. 0 \<le> c \<and> c < compression_total_chunks n per \<and>
        (case compression_chunk_window c n per of (s, k, q) \<Rightarrow> s \<le> i \<and> i < s + k \<and> q = p)"
    unfolding iff by (rule ex1I[of _ ?c]) (use c uniq in blast)+
qed

lemma chunk_windows_partition_witness:
  "\<exists>!c. 0 \<le> c \<and> c < compression_total_chunks 5 2 \<and>
     (case compression_chunk_window c 5 2 of (s, k, q) \<Rightarrow> s \<le> 4 \<and> 4 < s + k \<and> q = 1)"
  using chunk_windows_partition[of 2 5] by simp


section \<open>Valid tokens\<close>

lemma map_of_map_res:
  assumes "map_res (\<lambda>(g, b). bind_res (f g b) (\<lambda>v. Inr (g, v))) xs = Inr ys" "distinct (map fst xs)" "(g, b) \<in> set xs"
  shows "\<exists>v. f g b = Inr v \<and> map_of ys g = Some v"
  using assms
proof (induction xs arbitrary: ys)
  case (Cons x xs)
  obtain g' b' where x: "x = (g', b')" by (cases x)
  obtain v ys' where v: "f g' b' = Inr v" "ys = (g', v) # ys'" "map_res (\<lambda>(g, b). bind_res (f g b) (\<lambda>v. Inr (g, v))) xs = Inr ys'"
    using Cons.prems(1) x by (auto simp: bind_res_eq_Inr)
  show ?case
  proof (cases "g' = g")
    case True
    then have "b' = b" using Cons.prems(2,3) x by (auto simp: image_iff)
    then show ?thesis using v True by simp
  next
    case False
    then have "(g, b) \<in> set xs" using Cons.prems(3) x by auto
    then show ?thesis using Cons.IH[OF v(3)] Cons.prems(2) v(2) False by auto
  qed
qed simp

lemma suffix_count:
  assumes "suffix_token_counts nt ids sizes = Inr valid" "distinct (map fst sizes)" "(g, bs) \<in> set sizes" "ids \<noteq> []"
  shows "g < length ids \<and> map_of valid g = Some (let n = int (length (ids ! g)) in
    if n \<noteq> 0 then nt - ((nt + bs - 1) div bs - n) * bs else 0)"
proof -
  let ?f = "\<lambda>g bs. bind_res (if bs = 0 then Inl ZeroDivisionError else if g < length ids then Inr (int (length (ids ! g))) else Inl IndexError)
    (\<lambda>n. Inr (if n \<noteq> 0 then nt - ((nt + bs - 1) div bs - n) * bs else 0))"
  have "map_res (\<lambda>(g, bs). bind_res (?f g bs) (\<lambda>v. Inr (g, v))) sizes = suffix_token_counts nt ids sizes"
    unfolding suffix_token_counts_def using assms(4)
    by (intro arg_cong[where f = "\<lambda>f. map_res f sizes"] ext) (auto simp: Let_def bind_res_def)
  then show ?thesis using map_of_map_res[of ?f sizes valid g bs] assms(1-3) by (auto simp: bind_res_eq_Inr Let_def split: if_splits)
qed

lemma chunk_count:
  assumes "chunk_token_counts valid sizes s k = Inr toks" "distinct (map fst sizes)" "(g, bs) \<in> set sizes" "map_of valid g = Some v"
  shows "map_of toks g = Some (min (v - s * bs) (k * bs))"
proof -
  let ?f = "\<lambda>g bs. case map_of valid g of None \<Rightarrow> Inl KeyError | Some v \<Rightarrow> Inr (min (v - s * bs) (k * bs))"
  have "map_res (\<lambda>(g, bs). bind_res (?f g bs) (\<lambda>v. Inr (g, v))) sizes = chunk_token_counts valid sizes s k"
    unfolding chunk_token_counts_def
    by (intro arg_cong[where f = "\<lambda>f. map_res f sizes"] ext) (auto split: option.splits)
  then show ?thesis using map_of_map_res[of ?f sizes toks g bs] assms by auto
qed

text \<open>The blocks that are sent are the last ones of a request, so their tokens fill all but the last.\<close>

lemma suffix_bounds:
  fixes nt bs n :: int
  assumes "0 < bs" "0 < n" "n \<le> (nt + bs - 1) div bs"
  shows "(n - 1) * bs < nt - ((nt + bs - 1) div bs - n) * bs \<and> nt - ((nt + bs - 1) div bs - n) * bs \<le> n * bs"
proof -
  have "(nt + bs - 1) div bs * bs + (nt + bs - 1) mod bs = nt + bs - 1" by simp
  moreover have "0 \<le> (nt + bs - 1) mod bs" "(nt + bs - 1) mod bs < bs" using assms by auto
  ultimately show ?thesis unfolding left_diff_distrib mult_1 by linarith
qed

text \<open>The tokens of the chunk \<open>j\<close> of a part, as the difference of two bounded positions.\<close>

lemma chunk_tokens_telescope:
  fixes v bs per n j :: int
  assumes "0 < bs" "0 < per" "0 \<le> j" "j * per < n" "(n - 1) * bs < v" "v \<le> n * bs"
  shows "min (v - j * per * bs) (min per (n - j * per) * bs) = min v ((j + 1) * per * bs) - min v (j * per * bs) \<and>
    0 < min (v - j * per * bs) (min per (n - j * per) * bs)"
proof -
  have low: "j * per * bs < v"
  proof -
    have "j * per \<le> n - 1" using assms(4) by simp
    then have "j * per * bs \<le> (n - 1) * bs" using assms(1) by (intro mult_right_mono) auto
    then show ?thesis using assms(5) by linarith
  qed
  show ?thesis
  proof (cases "(j + 1) * per < n")
    case True
    then have "(j + 1) * per * bs \<le> (n - 1) * bs" using assms(1) by (intro mult_right_mono) auto
    then have "(j + 1) * per * bs < v" using assms(5) by linarith
    moreover have "min per (n - j * per) = per" using True by (simp add: distrib_right)
    moreover have "0 < per * bs" using assms(1,2) by simp
    ultimately show ?thesis using low by (simp add: distrib_right min_def)
  next
    case False
    then have "n * bs \<le> (j + 1) * per * bs" using assms(1) by (intro mult_right_mono) auto
    then have "v \<le> (j + 1) * per * bs" using assms(6) by linarith
    moreover have "min per (n - j * per) = n - j * per" using False by (simp add: distrib_right)
    ultimately show ?thesis using low assms(6) by (simp add: left_diff_distrib min_def)
  qed
qed

lemma telescope_upto:
  fixes f :: "int \<Rightarrow> int"
  shows "0 \<le> m \<Longrightarrow> (\<Sum>j \<leftarrow> [0..m - 1]. f (j + 1) - f j) = f m - f 0"
proof (induction "nat m" arbitrary: m)
  case (Suc k)
  then have "[0..m - 1] = [0..m - 1 - 1] @ [m - 1]" by (subst upto_rec2) auto
  then show ?case using Suc(1)[of "m - 1"] Suc(2,3) by simp
qed simp

lemma map_res_cong: "\<forall>x \<in> set xs. f x = g x \<Longrightarrow> map_res f xs = map_res g xs"
  by (induction xs) auto

lemma suffix_keys: "suffix_token_counts nt ids sizes = Inr valid \<Longrightarrow> map fst valid = map fst sizes"
  unfolding suffix_token_counts_def
  by (induction sizes arbitrary: valid) (auto simp: Let_def bind_res_eq_Inr split: if_splits)

lemma chunk_counts_total:
  assumes "fst ` set sizes \<subseteq> fst ` set valid"
  shows "\<exists>toks. chunk_token_counts valid sizes s k = Inr toks"
proof -
  have ex: "\<exists>v. map_of valid g = Some v" if "(g, bs) \<in> set sizes" for g bs
    using that assms by (metis domD dom_map_of_conv_image_fst fst_conv image_eqI subsetD)
  have "chunk_token_counts valid sizes s k = Inr (map (\<lambda>(g, bs). (g, min (the (map_of valid g) - s * bs) (k * bs))) sizes)"
    unfolding chunk_token_counts_def 
  proof (intro map_res_map)
    fix x assume "x \<in> set sizes"
    then obtain g bs v where "x = (g, bs)" "map_of valid g = Some v" using ex by (metis surj_pair)
    then show "(case x of (g, bs) \<Rightarrow> case map_of valid g of None \<Rightarrow> Inl KeyError | Some v \<Rightarrow> Inr (g, min (v - s * bs) (k * bs))) =
      Inr (case x of (g, bs) \<Rightarrow> (g, min (the (map_of valid g) - s * bs) (k * bs)))" by simp
  qed
  then show ?thesis by blast
qed

text \<open>Matching leaves the consumer's blocks of a group without states as they are.\<close>

lemma match_remote:
  assumes m: "match_compression_blocks null mambas loc rem = Inr (l, r)" and "rem \<noteq> []" "length loc = length rem"
  shows "length r = length rem" and "g < length rem \<Longrightarrow> \<not> mambas ! g \<Longrightarrow> r ! g = rem ! g"
proof -
  obtain ps where ps: "list_all2 (\<lambda>x y. (case x of (g, l, r) \<Rightarrow>
      if g < length mambas then Inr (match_group null (mambas ! g) l r) else Inl IndexError) = Inr y)
      (List.enumerate 0 (zip loc rem)) ps" "r = map snd ps"
    using m assms(2) by (auto simp: match_compression_blocks_def bind_res_eq_Inr map_res_eq_Inr Let_def)
  have len: "length ps = length rem" using ps(1) assms(3) by (auto dest: list_all2_lengthD)
  then show "length r = length rem" using ps(2) by simp
  show "r ! g = rem ! g" if g: "g < length rem" "\<not> mambas ! g"
  proof -
    have "(if g < length mambas then Inr (match_group null (mambas ! g) (loc ! g) (rem ! g)) else Inl IndexError) = Inr (ps ! g)"
      using list_all2_nthD2[OF ps(1), of g] g(1) len assms(3) by (simp add: nth_enumerate_eq)
    then have "ps ! g = match_group null (mambas ! g) (loc ! g) (rem ! g)" by (auto split: if_splits)
    then show ?thesis using ps(2) len g by (simp add: match_group_def Let_def)
  qed
qed

lemma open_producer_facts:
  assumes op: "session_job_open_producer engine oc oj = Inr (r, sent)" and raw: "\<not> oc_raw oc" and nt: "oj_num_tokens oj = Some nt"
    and ne: "oj_remote_block_ids oj \<noteq> []"
    and sizes: "\<forall>(g, bs) \<in> set (oc_block_sizes oc). \<not> pc_mamba (oc_plan oc) ! g"
    and len: "length (oj_local_block_ids oj) = length (oj_remote_block_ids oj)"
  shows "suffix_token_counts nt (oj_remote_block_ids oj) (oc_block_sizes oc) = Inr (or_valid_tokens r)"
    and "or_total_chunks r = compression_total_chunks (or_logical_block_count r) (oc_per_chunk oc)"
proof -
  let ?rem = "oj_remote_block_ids oj" and ?sizes = "oc_block_sizes oc" and ?mambas = "pc_mamba (oc_plan oc)"
  obtain l rids count total where m: "match_compression_blocks (pc_null (oc_plan oc)) ?mambas (oj_local_block_ids oj) ?rem = Inr (l, rids)"
    and v: "suffix_token_counts nt rids ?sizes = Inr (or_valid_tokens r)" and c: "session_counts oc rids = Inr (count, total)"
    and r: "or_logical_block_count r = count" "or_total_chunks r = total"
    using op raw nt by (auto simp: session_job_open_producer_def bind_res_eq_Inr Let_def split_beta)
  have t: "or_total_chunks r = compression_total_chunks (or_logical_block_count r) (oc_per_chunk oc)"
    using c r raw by (auto simp: session_counts_def Let_def split: list.splits if_splits)
  have same: "length rids = length ?rem" "\<And>g. g < length ?rem \<Longrightarrow> \<not> ?mambas ! g \<Longrightarrow> rids ! g = ?rem ! g"
    using match_remote[OF m ne len] by auto
  have "suffix_token_counts nt rids ?sizes = suffix_token_counts nt ?rem ?sizes"
    unfolding suffix_token_counts_def
  proof (intro map_res_cong ballI)
    fix x assume "x \<in> set ?sizes"
    then obtain g bs where x: "x = (g, bs)" "\<not> ?mambas ! g" using sizes by (cases x) auto
    then show "(case x of (g, bs) \<Rightarrow> if bs = 0 then Inl ZeroDivisionError else let full = (nt + bs - 1) div bs in
        bind_res (if rids = [] then Inr 0 else if g < length rids then Inr (int (length (rids ! g))) else Inl IndexError)
          (\<lambda>count. Inr (g, if count \<noteq> 0 then nt - (full - count) * bs else 0))) =
      (case x of (g, bs) \<Rightarrow> if bs = 0 then Inl ZeroDivisionError else let full = (nt + bs - 1) div bs in
        bind_res (if ?rem = [] then Inr 0 else if g < length ?rem then Inr (int (length (?rem ! g))) else Inl IndexError)
          (\<lambda>count. Inr (g, if count \<noteq> 0 then nt - (full - count) * bs else 0)))"
      using same(1) same(2)[OF _ x(2)] ne by (auto simp: Let_def)
  qed
  then show "suffix_token_counts nt ?rem ?sizes = Inr (or_valid_tokens r)" using v by simp
  show "or_total_chunks r = compression_total_chunks (or_logical_block_count r) (oc_per_chunk oc)" by (rule t)
qed

lemma chunks_agree:
  assumes o: "suffix_token_counts nt rem sizes = Inr (or_valid_tokens r)" "or_total_chunks r = compression_total_chunks (or_logical_block_count r) per"
    and ne: "rem \<noteq> []" and dist: "distinct (map fst sizes)" and pos: "\<forall>(g, bs) \<in> set sizes. 0 < bs" and per: "0 < per"
  shows "\<exists>toks. \<forall>c. \<exists>p q. session_job_encode_chunk sizes per c (or_local_block_ids r) (or_valid_tokens r) (or_logical_block_count r) = Inr p \<and>
      session_job_decode_chunk False sizes per c rem (Some nt) (or_logical_block_count r) = Inr q \<and>
      cp_part p = c mod 2 \<and> cp_part q = c mod 2 \<and> cp_valid_tokens p = toks (c div 2) \<and> cp_valid_tokens q = toks (c div 2) \<and>
      (\<forall>(g, bs) \<in> set sizes. int (length (rem ! g)) = or_logical_block_count r \<and> 0 < or_logical_block_count r \<and>
          or_logical_block_count r \<le> (nt + bs - 1) div bs \<longrightarrow>
        (\<forall>j \<in> {0..<or_total_chunks r div 2}. 0 < the (map_of (toks j) g)) \<and>
        (\<Sum>j \<leftarrow> [0..or_total_chunks r div 2 - 1]. the (map_of (toks j) g)) = the (map_of (or_valid_tokens r) g))"
proof -
  let ?n = "or_logical_block_count r"
  have keys: "fst ` set sizes \<subseteq> fst ` set (or_valid_tokens r)" using suffix_keys[OF o(1)] by (metis list.set_map order_refl)
  have "\<exists>toks. \<forall>j. chunk_token_counts (or_valid_tokens r) sizes (j * per) (min per (?n - j * per)) = Inr (toks j)"
    using chunk_counts_total[OF keys] by (intro choice) blast
  then obtain toks where t: "\<And>j. chunk_token_counts (or_valid_tokens r) sizes (j * per) (min per (?n - j * per)) = Inr (toks j)" by blast
  have tk: "(\<forall>j \<in> {0..<or_total_chunks r div 2}. 0 < the (map_of (toks j) g)) \<and>
        (\<Sum>j \<leftarrow> [0..or_total_chunks r div 2 - 1]. the (map_of (toks j) g)) = the (map_of (or_valid_tokens r) g)"
    if g: "(g, bs) \<in> set sizes" "int (length (rem ! g)) = ?n" "0 < ?n" "?n \<le> (nt + bs - 1) div bs" for g bs
  proof -
    let ?v = "nt - ((nt + bs - 1) div bs - ?n) * bs" let ?J = "part_chunks ?n per"
    have bs: "0 < bs" using pos g(1) by auto
    have v: "map_of (or_valid_tokens r) g = Some ?v" using suffix_count[OF o(1) dist g(1) ne] g(2,3) by (auto simp: Let_def)
    note b = suffix_bounds[OF bs g(3,4)]
    have J: "or_total_chunks r div 2 = ?J" by (simp add: o(2) total_chunks_part)
    have tj: "the (map_of (toks j) g) = min (?v - j * per * bs) (min per (?n - j * per) * bs)" for j
      using chunk_count[OF t dist g(1) v, of j] by simp
    have tele: "the (map_of (toks j) g) = min ?v ((j + 1) * per * bs) - min ?v (j * per * bs) \<and> 0 < the (map_of (toks j) g)"
      if "j \<in> {0..<?J}" for j
      unfolding tj using chunk_tokens_telescope[OF bs per, of j ?n ?v] b that part_chunks_start[OF per, of ?n j] g(3) by auto
    have "(\<Sum>j \<leftarrow> [0..?J - 1]. the (map_of (toks j) g)) = (\<Sum>j \<leftarrow> [0..?J - 1]. min ?v ((j + 1) * per * bs) - min ?v (j * per * bs))"
      using tele by (intro arg_cong[where f = sum_list] map_cong) auto
    also have "\<dots> = min ?v (?J * per * bs) - min ?v (0 * per * bs)"
      using telescope_upto[of ?J "\<lambda>j. min ?v (j * per * bs)"] part_chunks_bounds(1)[OF per, of ?n] g(3) by simp
    also have "\<dots> = ?v"
    proof -
      have "?n * bs \<le> ?J * per * bs" using part_chunks_bounds(2)[OF per, of ?n] g(3) bs by (intro mult_right_mono) auto
      moreover have "0 \<le> (?n - 1) * bs" using g(3) bs by simp
      ultimately show ?thesis using b by simp
    qed
    finally show ?thesis using tele unfolding J v by (metis (no_types, lifting) option.sel)
  qed
  show ?thesis
    by (intro exI[of _ toks] allI) (use o(1) t tk in \<open>auto simp: session_job_encode_chunk_def session_job_decode_chunk_def
        compression_chunk_window_def Let_def simp del: atLeastLessThan_iff\<close>)
qed


text \<open>A hybrid model: an attention layer in group 0, which is compressed, and a state layer in group 1, which is sent as it is.\<close>

definition hybrid_caches :: "int \<Rightarrow> int \<Rightarrow> cache_lists" where
  "hybrid_caches base state_index = \<lparr>cl_base_addrs = [base, base + 1000], cl_block_lens = [16, 8], cl_kv_block_lens = [16, 8],
     cl_layer_names = [''a'', ''s''], cl_layer_indices = [0, state_index], cl_group_indices = [0, 1]\<rparr>"

definition hybrid_config :: open_config where
  "hybrid_config = \<lparr>oc_raw = False, oc_block_sizes = [(0, 4)], oc_per_chunk = 2,
     oc_plan = \<lparr>pc_tp_rank = 0, pc_tp_size = 1, pc_replicated = False, pc_null = 0, pc_mamba = [False, True], pc_physical = 1, pc_map_to_kernel = (\<lambda>xs _. xs)\<rparr>,
     oc_group_by_layer = [], oc_caches = hybrid_caches 1000 1\<rparr>"

definition hybrid_job :: "int \<Rightarrow> open_job" where
  "hybrid_job state_index = \<lparr>oj_transfer_id = ''t'', oj_d_req_id = ''d'', oj_remote_tp_rank = 0, oj_remote_tp_size = 1,
     oj_local_block_ids = [[6, 7, 8, 9], [0, 0, 3]], oj_remote_block_ids = [[4, 5, 6], [0, 2]], oj_num_tokens = Some 14,
     oj_caches = hybrid_caches 5000 state_index\<rparr>"

definition hybrid_result :: open_result where
  "hybrid_result = \<lparr>or_local_block_ids = [[7, 8, 9], [3]], or_valid_tokens = [(0, 10)], or_logical_block_count = 3, or_total_chunks = 4\<rparr>"

lemma hybrid_open: "session_job_open_producer (\<lambda>_ _. 0) hybrid_config (hybrid_job 1) = Inr (hybrid_result, [[(2024, 6016, 8)]])"
  by code_simp


text \<open>
  The open job drops the error of the alignment.  A consumer whose state layer is registered under another index than the
  producer's is answered with the same result as a matching one, although no byte of the state was sent.
\<close>

lemma misaligned_state_not_sent:
  "session_job_open_producer (\<lambda>_ _. 0) hybrid_config (hybrid_job 1) = Inr (hybrid_result, [[(2024, 6016, 8)]]) \<and>
   session_job_open_producer (\<lambda>_ _. 0) hybrid_config (hybrid_job 2) = Inr (hybrid_result, []) \<and>
   (\<exists>lrs rrs. regions_of hybrid_config (oc_caches hybrid_config) = Inr lrs \<and> regions_of hybrid_config (oj_caches (hybrid_job 2)) = Inr rrs \<and>
      align_transfer_regions lrs rrs False = ([], [], Some (LayerIndexMismatch ''s'' 1 2)))"
proof -
  let ?rs = "\<lambda>c. case regions_of hybrid_config c of Inr rs \<Rightarrow> rs | Inl _ \<Rightarrow> []"
  have "regions_of hybrid_config (oc_caches hybrid_config) = Inr (?rs (oc_caches hybrid_config))"
    "regions_of hybrid_config (oj_caches (hybrid_job 2)) = Inr (?rs (oj_caches (hybrid_job 2)))"
    "align_transfer_regions (?rs (oc_caches hybrid_config)) (?rs (oj_caches (hybrid_job 2))) False = ([], [], Some (LayerIndexMismatch ''s'' 1 2))"
    "session_job_open_producer (\<lambda>_ _. 0) hybrid_config (hybrid_job 2) = Inr (hybrid_result, [])" by code_simp+
  then show ?thesis using hybrid_open by blast
qed

section \<open>Pairing is mutual\<close>

lemma div_eq_range: "0 < k \<Longrightarrow> x div k = r \<longleftrightarrow> r * k \<le> x \<and> x < r * k + k" for x k r :: int
proof
  assume k: "0 < k" and "x div k = r"
  then have "r * k + x mod k = x" by (metis div_mult_mod_eq)
  then show "r * k \<le> x \<and> x < r * k + k" using k pos_mod_bound[of k x] pos_mod_sign[of k x] by linarith
next
  assume "0 < k" "r * k \<le> x \<and> x < r * k + k"
  then show "x div k = r" by (intro int_div_pos_eq[of x k r "x - r * k"]) (auto simp: mult.commute)
qed

lemma targets_of_larger:
  assumes "0 < rtp" "rtp \<le> tp" "rtp dvd tp"
  shows "handshake_target_ranks l tp rtp = Inr [l div (tp div rtp)]" "0 < tp div rtp" "tp div rtp * rtp = tp"
  using assms by (auto simp: handshake_target_ranks_def pos_imp_zdiv_pos_iff)

text \<open>The ranks of the larger side that pair with rank \<open>r\<close> of the smaller one.\<close>

lemma targets_of_smaller:
  assumes "0 < rtp" "rtp \<le> tp" "rtp dvd tp"
  shows "\<exists>us. handshake_target_ranks r rtp tp = Inr us \<and> distinct us \<and> set us = {l. l div (tp div rtp) = r}"
proof (cases "rtp = tp")
  case True
  then show ?thesis using assms by (auto simp: handshake_target_ranks_def)
next
  case False
  let ?k = "tp div rtp"
  have k: "0 < ?k" using assms by (simp add: pos_imp_zdiv_pos_iff)
  have h: "handshake_target_ranks r rtp tp = Inr (map (\<lambda>i. r * ?k + i) [0..?k - 1])"
    using False assms by (simp add: handshake_target_ranks_def Let_def)
  have "set (map (\<lambda>i. r * ?k + i) [0..?k - 1]) = {l. l div ?k = r}"
  proof (intro set_eqI iffI)
    fix l assume "l \<in> {l. l div ?k = r}"
    then have "l = r * ?k + (l - r * ?k) \<and> 0 \<le> l - r * ?k \<and> l - r * ?k \<le> ?k - 1" using div_eq_range[OF k] by auto
    then show "l \<in> set (map (\<lambda>i. r * ?k + i) [0..?k - 1])" by (auto intro: image_eqI)
  qed (use div_eq_range[OF k] in auto)
  then show ?thesis using h by (auto simp: distinct_map inj_on_def)
qed

text \<open>
  Pairing of ranks is mutual and within range: when one tensor-parallel size divides the other, a
  rank's targets exist on the other side, are listed once, and name exactly the remote ranks that
  name this rank in turn, so that the sessions a producer counts on are the ones its consumers open.
\<close>

lemma handshake_mutual:
  assumes "0 < tp" and "0 < rtp" and "tp dvd rtp \<or> rtp dvd tp" and "0 \<le> l" and "l < tp"
  shows "\<exists>ts. handshake_target_ranks l tp rtp = Inr ts \<and> ts \<noteq> [] \<and> distinct ts \<and> set ts \<subseteq> {0..<rtp} \<and>
    (\<forall>r \<in> {0..<rtp}. \<exists>us. handshake_target_ranks r rtp tp = Inr us \<and> (r \<in> set ts \<longleftrightarrow> l \<in> set us))"
proof (cases "rtp dvd tp")
  case True
  then have le: "rtp \<le> tp" using assms(1) by (simp add: zdvd_imp_le)
  note t = targets_of_larger[OF assms(2) le True]
  have "0 \<le> l div (tp div rtp) \<and> l div (tp div rtp) < rtp"
  proof -
    have "l < rtp * (tp div rtp)" using t(3) assms(5) by (simp add: mult.commute)
    then show ?thesis using t(2) assms(4) div_eq_range[OF t(2), of l "l div (tp div rtp)"]
      by (metis le_less_trans mult_less_cancel_right_pos pos_imp_zdiv_nonneg_iff)
  qed
  moreover have "\<exists>us. handshake_target_ranks r rtp tp = Inr us \<and> (r \<in> set [l div (tp div rtp)] \<longleftrightarrow> l \<in> set us)" for r
    using targets_of_smaller[OF assms(2) le True, of r] by auto
  ultimately show ?thesis using t(1) by auto
next
  case False
  then have d: "tp dvd rtp" and le: "tp \<le> rtp" using assms by (auto simp: zdvd_imp_le)
  note t = targets_of_larger[OF assms(1) le d]
  obtain ts where ts: "handshake_target_ranks l tp rtp = Inr ts" "distinct ts" "set ts = {r. r div (rtp div tp) = l}"
    using targets_of_smaller[OF assms(1) le d, of l] by blast
  have "set ts \<subseteq> {0..<rtp}"
  proof
    fix r assume "r \<in> set ts"
    then have r: "l * (rtp div tp) \<le> r" "r < l * (rtp div tp) + rtp div tp" using ts(3) div_eq_range[OF t(2)] by auto
    have "(l + 1) * (rtp div tp) \<le> tp * (rtp div tp)" using assms(5) t(2) by (intro mult_right_mono) auto
    then have "r < rtp" using r(2) t(3) by (simp add: distrib_right mult.commute)
    moreover have "0 \<le> l * (rtp div tp)" using assms(4) t(2) by simp
    ultimately show "r \<in> {0..<rtp}" using r(1) by simp
  qed
  moreover have "l * (rtp div tp) \<in> set ts" using ts(3) t(2) by auto
  moreover have "\<exists>us. handshake_target_ranks r rtp tp = Inr us \<and> (r \<in> set ts \<longleftrightarrow> l \<in> set us)" for r
    using targets_of_larger(1)[OF assms(1) le d, of r] ts(3) by auto
  ultimately show ?thesis using ts(1,2) by auto
qed

lemma handshake_mutual_witness:
  "handshake_target_ranks 1 2 4 = Inr [2, 3] \<and> handshake_target_ranks 3 4 2 = Inr [1] \<and>
   (\<exists>ts. handshake_target_ranks 1 2 4 = Inr ts \<and> distinct ts \<and> set ts \<subseteq> {0..<4})"
proof -
  have "handshake_target_ranks 1 2 4 = Inr [2, 3]" "handshake_target_ranks 3 4 2 = Inr [1]" by code_simp+
  then show ?thesis using handshake_mutual[of 2 4 1] by auto
qed


section \<open>Slices of ranks of different sizes\<close>

definition covers :: "int \<Rightarrow> int \<Rightarrow> int \<Rightarrow> bool" where
  "covers offset len x \<longleftrightarrow> offset \<le> x \<and> x < offset + len"

lemma covers_div: "0 < len \<Longrightarrow> covers (i * len) len x \<longleftrightarrow> x div len = i"
  using div_eq_range[of len x i] by (simp add: covers_def)

lemma unique_in_row:
  fixes k :: int
  assumes "0 < k" "0 \<le> q" "q < k"
  shows "l div k = r \<and> l mod k = q \<longleftrightarrow> l = r * k + q"
  using assms by (metis add.commute div_mult_mod_eq div_mult_self1 div_pos_pos_trivial mod_mult_self1 mod_pos_pos_trivial
      add_0 add.right_neutral less_irrefl)

lemma larger_ratio:
  assumes "0 < a" "0 < k"
  shows "get_tp_ratio (a * k) a = Inr k" and "k \<noteq> 1 \<Longrightarrow> get_tp_ratio a (a * k) = Inr (- k)"
proof -
  have "a \<le> a * k" using assms by simp
  then show "get_tp_ratio (a * k) a = Inr k" using assms by (simp add: get_tp_ratio_def)
  show "get_tp_ratio a (a * k) = Inr (- k)" if "k \<noteq> 1" using assms that by (simp add: get_tp_ratio_def)
qed

text \<open>
  Slices of ranks of different tensor-parallel sizes fit together.  When the producer has \<open>k\<close> times the ranks of the consumer and the
  consumer's block is \<open>k\<close> times as long, every byte of a consumer's block is written by exactly one of the producers paired with it;
  when the consumer has \<open>k\<close> times the ranks, every byte of a producer's block is read for exactly one of the consumers paired with it.
\<close>

lemma tp_slices_tile:
  assumes "0 < a" "0 < k" "0 < len"
  shows "(\<forall>r \<in> {0..<a}. \<forall>x \<in> {0..<len * k}. \<exists>!l. l \<in> {0..<a * k} \<and> handshake_target_ranks l (a * k) a = Inr [r] \<and>
            (\<exists>s d n. compute_sender_transfer_plan l (a * k) r a len (len * k) False None = Inr (True, s, d, n) \<and> s = 0 \<and> n = len \<and> covers d n x)) \<and>
         (\<forall>l \<in> {0..<a}. \<forall>x \<in> {0..<len * k}. \<exists>!r. r \<in> {0..<a * k} \<and> handshake_target_ranks r (a * k) a = Inr [l] \<and>
            (\<exists>s d n. compute_sender_transfer_plan l a r (a * k) (len * k) len False None = Inr (True, s, d, n) \<and> d = 0 \<and> n = len \<and> covers s n x))"
proof -
  have hs: "handshake_target_ranks l (a * k) a = Inr [l div k]" for l
    using targets_of_larger(1)[of a "a * k" l] assms by simp
  have plan1: "compute_sender_transfer_plan l (a * k) r a len (len * k) False None = Inr (True, 0, l mod k * len, len)" for l r
    using larger_ratio(1)[OF assms(1,2)] assms by (simp add: compute_sender_transfer_plan_def plain_plan_def)
  have plan2: "compute_sender_transfer_plan l a r (a * k) (len * k) len False None = Inr (True, r mod k * len, 0, len)" for l r
  proof (cases "k = 1")
    case True
    then show ?thesis using larger_ratio(1)[OF assms(1,2)] assms by (simp add: compute_sender_transfer_plan_def)
  next
    case False
    then show ?thesis using larger_ratio(2)[OF assms(1,2) False] assms by (simp add: compute_sender_transfer_plan_def plain_plan_def)
  qed
  have ex1: "\<exists>!l. l \<in> {0..<a * k} \<and> l div k = r \<and> l mod k = x div len" if "r \<in> {0..<a}" "x \<in> {0..<len * k}" for r x
  proof -
    have "x div len * len \<le> x" using div_eq_range[OF assms(3), of x "x div len"] by simp
    then have "x div len * len < k * len" using that(2) by (simp add: mult.commute)
    then have q: "0 \<le> x div len" "x div len < k" using that(2) assms(3) by (auto simp: pos_imp_zdiv_nonneg_iff)
    have "(r + 1) * k \<le> a * k" using that(1) assms(2) by (intro mult_right_mono) auto
    then have "r * k + x div len \<in> {0..<a * k}" using q that(1) assms(2) by (auto simp: distrib_right)
    then show ?thesis unfolding unique_in_row[OF assms(2) q] by blast
  qed
  have c1: "(l \<in> {0..<a * k} \<and> handshake_target_ranks l (a * k) a = Inr [r] \<and>
      (\<exists>s d n. compute_sender_transfer_plan l (a * k) r a len (len * k) False None = Inr (True, s, d, n) \<and> s = 0 \<and> n = len \<and> covers d n x)) \<longleftrightarrow>
      (l \<in> {0..<a * k} \<and> l div k = r \<and> l mod k = x div len)" for l r x
    unfolding hs plan1 using covers_div[OF assms(3), of "l mod k" x] by auto
  have c2: "(r \<in> {0..<a * k} \<and> handshake_target_ranks r (a * k) a = Inr [l] \<and>
      (\<exists>s d n. compute_sender_transfer_plan l a r (a * k) (len * k) len False None = Inr (True, s, d, n) \<and> d = 0 \<and> n = len \<and> covers s n x)) \<longleftrightarrow>
      (r \<in> {0..<a * k} \<and> r div k = l \<and> r mod k = x div len)" for l r x
    unfolding hs plan2 using covers_div[OF assms(3), of "r mod k" x] by auto
  show ?thesis unfolding c1 c2 using ex1 by blast
qed

lemma tp_slices_tile_witness:
  "\<exists>!l. l \<in> {0..<2 * 2} \<and> handshake_target_ranks l (2 * 2) 2 = Inr [1] \<and>
     (\<exists>s d n. compute_sender_transfer_plan l (2 * 2) 1 2 8 (8 * 2) False None = Inr (True, s, d, n) \<and> s = 0 \<and> n = 8 \<and> covers d n 11)"
  using tp_slices_tile[of 2 2 8, THEN conjunct1, THEN bspec, of 1, THEN bspec, of 11] by simp

end
