(* ===== verification/Session_Producer.thy ===== *)
theory Session_Producer
  imports Session_Chunks
begin

text \<open>
  The producer side of the compression session helper (\<^verbatim>\<open>mooncake/session_process.py\<close>,
  \<open>_SessionService\<close>).  The helper is one asyncio event loop: code between two \<open>await\<close>s runs alone, so a
  request is a task that rests at its \<open>await\<close>s, and the steps of this theory are the stretches of code
  between them.  Objects that several coroutines share (send states and sessions) live in two
  heaps and are named by their index.  Time is a rational number of seconds that only grows;
  results of the engine's jobs are arbitrary.  The sockets, the bootstrap server and the shutdown are not modelled.
\<close>

section \<open>State\<close>

type_synonym op_key = "string \<times> string \<times> string"

record send_state =
  st_transfer_id :: string
  st_p_req_id :: string
  st_local_block_ids :: "int list list"
  st_num_tokens :: "int option"
  st_ready :: bool
  st_expire_time :: "rat option"
  st_need_send :: int
  st_sent :: int
  st_sending :: int

datatype session_phase = ACTIVE | COMPLETE | FAILED | CANCELLED

record producer_session =
  pn_identity :: string
  pn_transfer_id :: string
  pn_d_req_id :: string
  pn_nonce :: string
  pn_local_block_ids :: "int list list"
  pn_valid_tokens :: group_counts
  pn_logical_block_count :: int
  pn_total_chunks :: int
  pn_completed_chunks :: int
  pn_inflight_chunks :: int
  pn_state :: session_phase
  pn_send_state :: nat

record open_msg =
  om_req_blocks :: "(string \<times> string \<times> int list list) list"
  om_remote_tp_size :: int
  om_nonce :: string

record pull_msg =
  pm_transfer_id :: string
  pm_d_req_id :: string
  pm_chunk_id :: int
  pm_nonce :: string

record abort_msg =
  am_transfer_id :: string
  am_d_req_id :: string
  am_nonce :: string

datatype session_request = SessionOpen open_msg | ChunkPull pull_msg | Abort abort_msg

text \<open>Where a task rests; references are indices into the heaps.\<close>

datatype session_task =
    Begin string session_request
  | OpenWait string open_msg nat bool rat
  | OpenJob string open_msg nat bool
  | ChunkSlot string pull_msg nat
  | ChunkJob string pull_msg nat nat
  | ChunkDrain string pull_msg nat nat
  | AbortDrain string abort_msg "nat option" "nat list" rat

datatype session_response =
    SessionOpened bool
  | ChunkReady int bool
  | AbortAck op_key bool

datatype final_event = Sending string | SendingExpired string

record session_service =
  sv_tp_rank :: int
  sv_tp_size :: int
  sv_clock :: rat
  sv_sends :: "send_state list"
  sv_send_meta :: "(string \<times> nat) list"
  sv_objects :: "producer_session list"
  sv_sessions :: "((string \<times> string \<times> string) \<times> nat) list"
  sv_slots :: "nat list"
  sv_closed :: "(op_key \<times> rat) list"
  sv_tasks :: "(nat \<times> session_task) list"
  sv_next_task :: nat
  sv_responses :: "(string \<times> session_response) list"
  sv_events :: "final_event list"

definition ABORT_TIMEOUT_S :: rat where "ABORT_TIMEOUT_S = 480"

definition PENDING_REQ_EXPIRY_S :: rat where "PENDING_REQ_EXPIRY_S = ABORT_TIMEOUT_S + 60"

definition new_send_state :: "string \<Rightarrow> send_state" where
  "new_send_state tid = \<lparr>st_transfer_id = tid, st_p_req_id = [], st_local_block_ids = [], st_num_tokens = None, st_ready = False,
     st_expire_time = None, st_need_send = 0, st_sent = 0, st_sending = 0\<rparr>"

definition update_send :: "nat \<Rightarrow> (send_state \<Rightarrow> send_state) \<Rightarrow> session_service \<Rightarrow> session_service" where
  "update_send r f sv = sv\<lparr>sv_sends := (sv_sends sv)[r := f (sv_sends sv ! r)]\<rparr>"

definition update_session :: "nat \<Rightarrow> (producer_session \<Rightarrow> producer_session) \<Rightarrow> session_service \<Rightarrow> session_service" where
  "update_session r f sv = sv\<lparr>sv_objects := (sv_objects sv)[r := f (sv_objects sv ! r)]\<rparr>"

text \<open>\<open>self._send_meta.get(transfer_id)\<close>, creating a state when there is none.\<close>

definition obtain_send :: "string \<Rightarrow> session_service \<Rightarrow> session_service \<times> nat \<times> bool" where
  "obtain_send tid sv = (case map_of (sv_send_meta sv) tid of
       Some r \<Rightarrow> (sv, r, False)
     | None \<Rightarrow> (sv\<lparr>sv_sends := sv_sends sv @ [new_send_state tid],
                   sv_send_meta := dict_set (sv_send_meta sv) tid (length (sv_sends sv))\<rparr>, length (sv_sends sv), True))"

section \<open>Metadata of the engine\<close>

record announcement =
  an_p_req_id :: string
  an_transfer_id :: string
  an_local_block_ids :: "int list list"
  an_num_tokens :: "int option"

definition announce :: "announcement \<Rightarrow> session_service \<Rightarrow> session_service" where
  "announce a sv = (let (sv1, r, _) = obtain_send (an_transfer_id a) sv in
     update_send r (\<lambda>s. s\<lparr>st_p_req_id := an_p_req_id a, st_local_block_ids := an_local_block_ids a, st_num_tokens := an_num_tokens a,
       st_expire_time := Some (sv_clock sv + ABORT_TIMEOUT_S), st_ready := True\<rparr>) sv1)"

definition publish :: "string \<times> string \<Rightarrow> session_service \<Rightarrow> session_service" where
  "publish p sv = (case p of (p_req_id, tid) \<Rightarrow> case map_of (sv_send_meta sv) tid of
       None \<Rightarrow> (let (sv1, r, _) = obtain_send tid sv in update_send r (\<lambda>s. s\<lparr>st_p_req_id := p_req_id\<rparr>) sv1)
     | Some r \<Rightarrow> if st_p_req_id (sv_sends sv ! r) = [] then update_send r (\<lambda>s. s\<lparr>st_p_req_id := p_req_id\<rparr>) sv else sv)"

definition drop_transfer :: "string \<Rightarrow> session_service \<Rightarrow> session_service" where
  "drop_transfer tid sv = sv\<lparr>sv_send_meta := dict_pop (sv_send_meta sv) tid\<rparr>"

definition apply_producer_metadata ::
    "announcement list \<Rightarrow> (string \<times> string) list \<Rightarrow> string list \<Rightarrow> session_service \<Rightarrow> session_service" where
  "apply_producer_metadata announced published dropped sv =
     fold drop_transfer dropped (fold publish published (fold announce announced sv))"

section \<open>Ends of sessions\<close>

definition finish_send_meta :: "nat \<Rightarrow> session_service \<Rightarrow> session_service" where
  "finish_send_meta r sv =
     (let sv1 = update_send r (\<lambda>s. s\<lparr>st_sending := st_sending s - 1, st_sent := st_sent s + 1\<rparr>) sv; s = sv_sends sv1 ! r in
      if st_sent s = st_need_send s \<and> map_of (sv_send_meta sv1) (st_transfer_id s) \<noteq> None
      then sv1\<lparr>sv_send_meta := dict_pop (sv_send_meta sv1) (st_transfer_id s), sv_events := sv_events sv1 @ [Sending (st_p_req_id s)]\<rparr>
      else sv1)"

text \<open>\<open>if self._producer_sessions.pop(key, None) is not session: return\<close>\<close>

definition pop_session :: "string \<times> string \<times> string \<Rightarrow> session_service \<Rightarrow> session_service" where
  "pop_session key sv = sv\<lparr>sv_sessions := dict_pop (sv_sessions sv) key\<rparr>"

definition discard_producer_session :: "string \<times> string \<times> string \<Rightarrow> nat \<Rightarrow> session_service \<Rightarrow> session_service" where
  "discard_producer_session key r sv =
     (let sv1 = pop_session key sv; p = sv_objects sv ! r in
      if map_of (sv_sessions sv) key \<noteq> Some r then sv1
      else if pn_state p \<in> {CANCELLED, FAILED} then finish_send_meta (pn_send_state p) sv1
      else update_send (pn_send_state p) (\<lambda>s. s\<lparr>st_sending := st_sending s - 1\<rparr>) sv1)"

definition complete_producer_session :: "string \<Rightarrow> nat \<Rightarrow> session_service \<Rightarrow> session_service" where
  "complete_producer_session identity r sv =
     (let p = sv_objects sv ! r; key = (identity, pn_transfer_id p, pn_d_req_id p); sv1 = pop_session key sv in
      if map_of (sv_sessions sv) key \<noteq> Some r then sv1
      else finish_send_meta (pn_send_state p)
             ((update_session r (\<lambda>p. p\<lparr>pn_state := COMPLETE\<rparr>) sv1)
                \<lparr>sv_closed := dict_set (sv_closed sv1) (pn_transfer_id p, pn_d_req_id p, pn_nonce p) (sv_clock sv + PENDING_REQ_EXPIRY_S)\<rparr>))"

definition respond :: "string \<Rightarrow> session_response \<Rightarrow> session_service \<Rightarrow> session_service" where
  "respond identity x sv = sv\<lparr>sv_responses := sv_responses sv @ [(identity, x)]\<rparr>"

definition is_closed :: "op_key \<Rightarrow> session_service \<Rightarrow> bool" where
  "is_closed k sv \<longleftrightarrow> map_of (sv_closed sv) k \<noteq> None"

section \<open>Opening a session\<close>

text \<open>\<open>next(iter(metadata.req_blocks.items()))\<close>: request and transfer of an open message.\<close>

definition open_target :: "open_msg \<Rightarrow> string \<times> string" where
  "open_target m = (case om_req_blocks m of [] \<Rightarrow> ([], []) | (d, t, _) # _ \<Rightarrow> (d, t))"

definition open_key :: "open_msg \<Rightarrow> op_key" where
  "open_key m = (snd (open_target m), fst (open_target m), om_nonce m)"

text \<open>The \<open>except\<close> branch of \<open>_open_producer_session\<close>.\<close>

definition open_failed :: "string \<Rightarrow> open_msg \<Rightarrow> nat \<Rightarrow> bool \<Rightarrow> bool \<Rightarrow> session_service \<Rightarrow> session_service" where
  "open_failed identity m r created claimed sv =
     (let sv1 = (if claimed then finish_send_meta r sv else sv); s = sv_sends sv1 ! r; tid = snd (open_target m);
          sv2 = (if created \<and> map_of (sv_send_meta sv1) tid = Some r \<and> \<not> st_ready s \<and> st_p_req_id s = [] \<and> st_sending s = 0
                 then drop_transfer tid sv1 else sv1)
      in respond identity (SessionOpened False) sv2)"

text \<open>The open task after the producer became ready, up to the job of the engine.\<close>

definition open_claim :: "string \<Rightarrow> open_msg \<Rightarrow> nat \<Rightarrow> bool \<Rightarrow> session_service \<Rightarrow> session_service \<times> session_task option" where
  "open_claim identity m r created sv =
     (case handshake_target_ranks (sv_tp_rank sv) (sv_tp_size sv) (om_remote_tp_size m) of
        Inl e \<Rightarrow> (open_failed identity m r created False sv, None)
      | Inr ranks \<Rightarrow>
          let sv1 = update_send r (\<lambda>s. s\<lparr>st_sending := st_sending s + 1,
                st_need_send := (if st_need_send s = 0 then int (length ranks) else st_need_send s)\<rparr>) sv in
          if is_closed (open_key m) sv1 then (open_failed identity m r created True sv1, None)
          else (sv1, Some (OpenJob identity m r created)))"

definition open_done ::
    "string \<Rightarrow> open_msg \<Rightarrow> nat \<Rightarrow> bool \<Rightarrow> open_result option \<Rightarrow> session_service \<Rightarrow> session_service" where
  "open_done identity m r created res sv = (case res of
       None \<Rightarrow> open_failed identity m r created True sv
     | Some x \<Rightarrow>
         let d = fst (open_target m); tid = snd (open_target m); i = length (sv_objects sv);
             p = \<lparr>pn_identity = identity, pn_transfer_id = tid, pn_d_req_id = d, pn_nonce = om_nonce m,
                  pn_local_block_ids = or_local_block_ids x, pn_valid_tokens = or_valid_tokens x,
                  pn_logical_block_count = or_logical_block_count x, pn_total_chunks = or_total_chunks x,
                  pn_completed_chunks = 0, pn_inflight_chunks = 0, pn_state = ACTIVE, pn_send_state = r\<rparr>;
             sv1 = sv\<lparr>sv_objects := sv_objects sv @ [p], sv_sessions := dict_set (sv_sessions sv) (identity, tid, d) i\<rparr>;
             sv2 = (if or_total_chunks x = 0 then complete_producer_session identity i sv1 else sv1)
         in respond identity (SessionOpened True) sv2)"

section \<open>Serving a chunk\<close>

definition pull_key :: "pull_msg \<Rightarrow> op_key" where
  "pull_key m = (pm_transfer_id m, pm_d_req_id m, pm_nonce m)"

text \<open>The end of the \<open>finally\<close> block, after the slot was given back.\<close>

definition chunk_finally :: "string \<Rightarrow> pull_msg \<Rightarrow> nat \<Rightarrow> bool \<Rightarrow> session_service \<Rightarrow> session_service" where
  "chunk_finally identity m r counted sv =
     (let sv1 = (if counted then update_session r (\<lambda>p. p\<lparr>pn_inflight_chunks := pn_inflight_chunks p - 1\<rparr>) sv else sv);
          p = sv_objects sv1 ! r in
      if pn_inflight_chunks p = 0 \<and> pn_state p \<in> {CANCELLED, FAILED}
      then discard_producer_session (identity, pm_transfer_id m, pm_d_req_id m) r sv1 else sv1)"

definition chunk_begin :: "string \<Rightarrow> pull_msg \<Rightarrow> session_service \<Rightarrow> session_service \<times> session_task option" where
  "chunk_begin identity m sv = (case map_of (sv_sessions sv) (identity, pm_transfer_id m, pm_d_req_id m) of
       None \<Rightarrow> (respond identity (ChunkReady (pm_chunk_id m) False) sv, None)
     | Some r \<Rightarrow>
         if pn_state (sv_objects sv ! r) \<noteq> ACTIVE
         then (respond identity (ChunkReady (pm_chunk_id m) False)
                 (chunk_finally identity m r False (update_session r (\<lambda>p. p\<lparr>pn_state := FAILED\<rparr>) sv)), None)
         else (update_session r (\<lambda>p. p\<lparr>pn_inflight_chunks := pn_inflight_chunks p + 1\<rparr>) sv, Some (ChunkSlot identity m r)))"

definition chunk_slot :: "string \<Rightarrow> pull_msg \<Rightarrow> nat \<Rightarrow> nat \<Rightarrow> session_service \<Rightarrow> session_service \<times> session_task option" where
  "chunk_slot identity m r slot sv =
     (if pn_state (sv_objects sv ! r) \<noteq> ACTIVE \<or> is_closed (pull_key m) sv
      then (update_session r (\<lambda>p. p\<lparr>pn_state := FAILED\<rparr>) sv, Some (ChunkDrain identity m r slot))
      else (sv, Some (ChunkJob identity m r slot)))"

definition chunk_result ::
    "string \<Rightarrow> pull_msg \<Rightarrow> nat \<Rightarrow> nat \<Rightarrow> bool \<Rightarrow> session_service \<Rightarrow> session_service \<times> session_task option" where
  "chunk_result identity m r slot ok sv =
     (if \<not> ok then (update_session r (\<lambda>p. p\<lparr>pn_state := FAILED\<rparr>) sv, Some (ChunkDrain identity m r slot))
      else let sv1 = update_session r (\<lambda>p. p\<lparr>pn_completed_chunks := pn_completed_chunks p + 1\<rparr>) sv;
               p = sv_objects sv1 ! r;
               sv2 = (if pn_state p = ACTIVE \<and> pn_completed_chunks p = pn_total_chunks p then complete_producer_session identity r sv1 else sv1)
           in (respond identity (ChunkReady (pm_chunk_id m) True)
                 (chunk_finally identity m r True (sv2\<lparr>sv_slots := sv_slots sv2 @ [slot]\<rparr>)), None))"

definition chunk_drained :: "string \<Rightarrow> pull_msg \<Rightarrow> nat \<Rightarrow> nat \<Rightarrow> session_service \<Rightarrow> session_service" where
  "chunk_drained identity m r slot sv =
     respond identity (ChunkReady (pm_chunk_id m) False) (chunk_finally identity m r True (sv\<lparr>sv_slots := sv_slots sv @ [slot]\<rparr>))"

section \<open>Aborting\<close>

definition abort_key :: "abort_msg \<Rightarrow> op_key" where
  "abort_key m = (am_transfer_id m, am_d_req_id m, am_nonce m)"

definition session_key :: "producer_session \<Rightarrow> op_key" where
  "session_key p = (pn_transfer_id p, pn_d_req_id p, pn_nonce p)"

text \<open>The key under which \<open>_operations\<close> lists a task; aborts are not listed.\<close>

fun request_key :: "session_request \<Rightarrow> op_key option" where
  "request_key (SessionOpen m) = Some (if length (om_req_blocks m) = 1 then open_key m else ([], [], om_nonce m))"
| "request_key (ChunkPull m) = Some (pull_key m)"
| "request_key (Abort m) = None"

fun task_key :: "session_task \<Rightarrow> op_key option" where
  "task_key (Begin i q) = request_key q"
| "task_key (OpenWait i m r c t) = request_key (SessionOpen m)"
| "task_key (OpenJob i m r c) = request_key (SessionOpen m)"
| "task_key (ChunkSlot i m r) = Some (pull_key m)"
| "task_key (ChunkJob i m r s) = Some (pull_key m)"
| "task_key (ChunkDrain i m r s) = Some (pull_key m)"
| "task_key (AbortDrain i m r ps t) = None"

definition pending_operations :: "op_key \<Rightarrow> session_service \<Rightarrow> nat list" where
  "pending_operations k sv = map fst (filter (\<lambda>(_, t). task_key t = Some k) (sv_tasks sv))"

text \<open>The session of an abort: by its key, else the first one with the same operation.\<close>

definition abort_session :: "string \<Rightarrow> abort_msg \<Rightarrow> session_service \<Rightarrow> nat option" where
  "abort_session identity m sv = (case map_of (sv_sessions sv) (identity, am_transfer_id m, am_d_req_id m) of
       Some r \<Rightarrow> Some r
     | None \<Rightarrow> map_option snd (List.find (\<lambda>(_, r). session_key (sv_objects sv ! r) = abort_key m) (sv_sessions sv)))"

definition cancel_session :: "string \<times> string \<times> string \<Rightarrow> nat \<Rightarrow> session_service \<Rightarrow> session_service" where
  "cancel_session key r sv =
     (let sv1 = update_session r (\<lambda>p. p\<lparr>pn_state := CANCELLED\<rparr>) sv in
      if pn_inflight_chunks (sv_objects sv ! r) = 0 then discard_producer_session key r sv1 else sv1)"

definition abort_begin :: "string \<Rightarrow> abort_msg \<Rightarrow> session_service \<Rightarrow> session_service \<times> session_task option" where
  "abort_begin identity m sv =
     (let sv1 = sv\<lparr>sv_closed := dict_set (sv_closed sv) (abort_key m) (sv_clock sv + PENDING_REQ_EXPIRY_S)\<rparr>;
          s = abort_session identity m sv1;
          sv2 = (case s of
              Some r \<Rightarrow> let p = sv_objects sv1 ! r in
                if pn_nonce p = am_nonce m then cancel_session (pn_identity p, pn_transfer_id p, pn_d_req_id p) r sv1 else sv1
            | None \<Rightarrow> sv1)
      in (sv2, Some (AbortDrain identity m s (pending_operations (abort_key m) sv2) (sv_clock sv))))"

text \<open>What \<open>drain\<close> waits for: the listed operations, and the chunks of the session.\<close>

definition abort_drained :: "abort_msg \<Rightarrow> nat option \<Rightarrow> nat list \<Rightarrow> session_service \<Rightarrow> bool" where
  "abort_drained m s pend sv \<longleftrightarrow> (\<forall>t \<in> set pend. t \<notin> fst ` set (sv_tasks sv)) \<and>
     (case s of None \<Rightarrow> True | Some r \<Rightarrow> pn_nonce (sv_objects sv ! r) = am_nonce m \<longrightarrow> pn_inflight_chunks (sv_objects sv ! r) = 0)"

definition abort_end :: "string \<Rightarrow> abort_msg \<Rightarrow> bool \<Rightarrow> session_service \<Rightarrow> session_service" where
  "abort_end identity m ok sv =
     respond identity (AbortAck (abort_key m) ok)
       (fold (\<lambda>(key, r) s. if session_key (sv_objects s ! r) = abort_key m then cancel_session key r s else s) (sv_sessions sv) sv)"

section \<open>The sweep\<close>

definition sweep_one :: "string \<times> nat \<Rightarrow> session_service \<Rightarrow> session_service" where
  "sweep_one x sv = (case x of (tid, r) \<Rightarrow> let s = sv_sends sv ! r in
     if st_p_req_id s \<noteq> [] \<and> (case st_expire_time s of None \<Rightarrow> False | Some t \<Rightarrow> t < sv_clock sv) \<and> st_sending s = 0
     then sv\<lparr>sv_events := sv_events sv @ [SendingExpired (st_p_req_id s)], sv_send_meta := dict_pop (sv_send_meta sv) tid\<rparr>
     else sv)"

definition sweep_sends :: "session_service \<Rightarrow> session_service" where
  "sweep_sends sv = fold sweep_one (sv_send_meta sv) sv"

section \<open>Steps\<close>

definition set_task :: "nat \<Rightarrow> session_task option \<Rightarrow> session_service \<Rightarrow> session_service" where
  "set_task i t sv = sv\<lparr>sv_tasks := (case t of None \<Rightarrow> dict_pop (sv_tasks sv) i | Some x \<Rightarrow> dict_set (sv_tasks sv) i x)\<rparr>"

abbreviation run_task :: "nat \<Rightarrow> session_service \<times> session_task option \<Rightarrow> session_service" where
  "run_task i x \<equiv> set_task i (snd x) (fst x)"

text \<open>\<open>_dispatch_producer\<close>: forget the closed operations whose time is over and start a task.\<close>

definition dispatch_producer :: "string \<Rightarrow> session_request \<Rightarrow> session_service \<Rightarrow> session_service" where
  "dispatch_producer identity q sv =
     sv\<lparr>sv_closed := filter (\<lambda>(_, expiry). sv_clock sv < expiry) (sv_closed sv),
        sv_tasks := sv_tasks sv @ [(sv_next_task sv, Begin identity q)], sv_next_task := sv_next_task sv + 1\<rparr>"

definition open_begin :: "string \<Rightarrow> open_msg \<Rightarrow> session_service \<Rightarrow> session_service \<times> session_task option" where
  "open_begin identity m sv =
     (if om_req_blocks m = [] then (sv, None)
      else let (sv1, r, created) = obtain_send (snd (open_target m)) sv in (sv1, Some (OpenWait identity m r created (sv_clock sv + ABORT_TIMEOUT_S))))"

fun open_identity :: "session_task \<Rightarrow> string option" where
  "open_identity (Begin i (SessionOpen m)) = Some i"
| "open_identity (OpenWait i m r c t) = Some i"
| "open_identity (OpenJob i m r c) = Some i"
| "open_identity _ = None"

text \<open>A consumer opens every session on a socket of its own.\<close>

definition fresh_identity :: "string \<Rightarrow> session_service \<Rightarrow> bool" where
  "fresh_identity i sv \<longleftrightarrow> i \<notin> set (map pn_identity (sv_objects sv)) \<and> (\<forall>(_, t) \<in> set (sv_tasks sv). open_identity t \<noteq> Some i)"

inductive session_step :: "session_service \<Rightarrow> session_service \<Rightarrow> bool" where
  step_tick: "sv_clock sv \<le> t \<Longrightarrow> session_step sv (sv\<lparr>sv_clock := t\<rparr>)"
| step_metadata: "session_step sv (apply_producer_metadata announced published dropped sv)"
| step_open: "fresh_identity i sv \<Longrightarrow> session_step sv (dispatch_producer i (SessionOpen m) sv)"
| step_pull: "session_step sv (dispatch_producer i (ChunkPull p) sv)"
| step_abort: "session_step sv (dispatch_producer i (Abort a) sv)"
| step_open_begin: "(k, Begin i (SessionOpen m)) \<in> set (sv_tasks sv) \<Longrightarrow> session_step sv (run_task k (open_begin i m sv))"
| step_open_ready: "(k, OpenWait i m r c t) \<in> set (sv_tasks sv) \<Longrightarrow> st_ready (sv_sends sv ! r) \<Longrightarrow>
     session_step sv (run_task k (open_claim i m r c sv))"
| step_open_gave_up: "(k, OpenWait i m r c t) \<in> set (sv_tasks sv) \<Longrightarrow> \<not> st_ready (sv_sends sv ! r) \<Longrightarrow>
     is_closed (open_key m) sv \<or> t \<le> sv_clock sv \<Longrightarrow> session_step sv (set_task k None (open_failed i m r c False sv))"
| step_open_done: "(k, OpenJob i m r c) \<in> set (sv_tasks sv) \<Longrightarrow> session_step sv (set_task k None (open_done i m r c res sv))"
| step_chunk_begin: "(k, Begin i (ChunkPull p)) \<in> set (sv_tasks sv) \<Longrightarrow> session_step sv (run_task k (chunk_begin i p sv))"
| step_chunk_slot: "(k, ChunkSlot i p r) \<in> set (sv_tasks sv) \<Longrightarrow> sv_slots sv = x # xs \<Longrightarrow>
     session_step sv (run_task k (chunk_slot i p r x (sv\<lparr>sv_slots := xs\<rparr>)))"
| step_chunk_result: "(k, ChunkJob i p r x) \<in> set (sv_tasks sv) \<Longrightarrow> session_step sv (run_task k (chunk_result i p r x ok sv))"
| step_chunk_drained: "(k, ChunkDrain i p r x) \<in> set (sv_tasks sv) \<Longrightarrow> session_step sv (set_task k None (chunk_drained i p r x sv))"
| step_abort_begin: "(k, Begin i (Abort a)) \<in> set (sv_tasks sv) \<Longrightarrow> session_step sv (run_task k (abort_begin i a sv))"
| step_abort_ok: "(k, AbortDrain i a s pend t) \<in> set (sv_tasks sv) \<Longrightarrow> abort_drained a s pend sv \<Longrightarrow>
     sv_clock sv \<le> t + ABORT_TIMEOUT_S \<Longrightarrow> session_step sv (set_task k None (abort_end i a True sv))"
| step_abort_timeout: "(k, AbortDrain i a s pend t) \<in> set (sv_tasks sv) \<Longrightarrow> t + ABORT_TIMEOUT_S \<le> sv_clock sv \<Longrightarrow>
     session_step sv (set_task k None (abort_end i a False sv))"
| step_sweep: "session_step sv (sweep_sends sv)"

text \<open>\<open>_start_producer\<close> with \<open>n\<close> slots.\<close>

definition session_init :: "nat \<Rightarrow> session_service \<Rightarrow> bool" where
  "session_init n sv \<longleftrightarrow> sv_sends sv = [] \<and> sv_send_meta sv = [] \<and> sv_objects sv = [] \<and> sv_sessions sv = [] \<and>
     sv_slots sv = [0..<n] \<and> sv_closed sv = [] \<and> sv_tasks sv = [] \<and> sv_next_task sv = 0 \<and> sv_responses sv = [] \<and> sv_events sv = []"

section \<open>The invariant\<close>

fun task_slot :: "session_task \<Rightarrow> nat multiset" where
  "task_slot (ChunkJob i p r x) = {#x#}"
| "task_slot (ChunkDrain i p r x) = {#x#}"
| "task_slot _ = {#}"

fun task_session :: "session_task \<Rightarrow> nat option" where
  "task_session (ChunkSlot i p r) = Some r"
| "task_session (ChunkJob i p r x) = Some r"
| "task_session (ChunkDrain i p r x) = Some r"
| "task_session _ = None"

fun task_claim :: "session_task \<Rightarrow> nat option" where
  "task_claim (OpenJob i m r c) = Some r"
| "task_claim _ = None"

definition obj_key :: "producer_session \<Rightarrow> string \<times> string \<times> string" where
  "obj_key p = (pn_identity p, pn_transfer_id p, pn_d_req_id p)"

text \<open>The references of a task name objects, and a chunk task the session it was asked for.\<close>

fun task_wf :: "session_service \<Rightarrow> session_task \<Rightarrow> bool" where
  "task_wf sv (OpenWait i m r c t) \<longleftrightarrow> r < length (sv_sends sv)"
| "task_wf sv (OpenJob i m r c) \<longleftrightarrow> r < length (sv_sends sv)"
| "task_wf sv (ChunkSlot i p r) \<longleftrightarrow> r < length (sv_objects sv) \<and> obj_key (sv_objects sv ! r) = (i, pm_transfer_id p, pm_d_req_id p)"
| "task_wf sv (ChunkJob i p r x) \<longleftrightarrow> r < length (sv_objects sv) \<and> obj_key (sv_objects sv ! r) = (i, pm_transfer_id p, pm_d_req_id p)"
| "task_wf sv (ChunkDrain i p r x) \<longleftrightarrow> r < length (sv_objects sv) \<and> obj_key (sv_objects sv ! r) = (i, pm_transfer_id p, pm_d_req_id p)"
| "task_wf sv (AbortDrain i a s pend t) \<longleftrightarrow> (\<forall>r. s = Some r \<longrightarrow> r < length (sv_objects sv))"
| "task_wf sv (Begin i q) \<longleftrightarrow> True"

definition sess_claims :: "session_service \<Rightarrow> nat \<Rightarrow> int" where
  "sess_claims sv r = int (length (filter (\<lambda>(_, s). pn_send_state (sv_objects sv ! s) = r) (sv_sessions sv)))"

definition tasks_with :: "(session_task \<Rightarrow> 'a option) \<Rightarrow> 'a \<Rightarrow> session_task multiset \<Rightarrow> int" where
  "tasks_with f x T = int (size (filter_mset (\<lambda>t. f t = Some x) T))"

text \<open>
  The parts of the invariant, for the tasks \<open>T\<close>, while a step is under way: \<open>d\<close> and \<open>e\<close> say by how much the
  counters of sends and sessions are ahead, and \<open>Z\<close> which sessions are still to be taken out of the table.
\<close>

definition slots_ok :: "nat \<Rightarrow> session_task multiset \<Rightarrow> session_service \<Rightarrow> bool" where
  "slots_ok n T sv \<longleftrightarrow> mset (sv_slots sv) + \<Sum>\<^sub># (image_mset task_slot T) = mset [0..<n]"

definition tasks_ok :: "session_task multiset \<Rightarrow> session_service \<Rightarrow> bool" where
  "tasks_ok T sv \<longleftrightarrow> (\<forall>t \<in># T. task_wf sv t)"

definition objects_ok :: "session_service \<Rightarrow> bool" where
  "objects_ok sv \<longleftrightarrow> distinct (map pn_identity (sv_objects sv)) \<and> (\<forall>p \<in> set (sv_objects sv). pn_send_state p < length (sv_sends sv))"

definition phase_ok :: "producer_session \<Rightarrow> bool" where
  "phase_ok p \<longleftrightarrow> pn_state p = ACTIVE \<or> pn_state p \<in> {CANCELLED, FAILED} \<and> 0 < pn_inflight_chunks p"

definition table_ok :: "nat set \<Rightarrow> session_service \<Rightarrow> bool" where
  "table_ok Z sv \<longleftrightarrow> distinct (map fst (sv_sessions sv)) \<and>
     (\<forall>(k, s) \<in> set (sv_sessions sv). s < length (sv_objects sv) \<and> k = obj_key (sv_objects sv ! s) \<and>
        (s \<notin> Z \<longrightarrow> phase_ok (sv_objects sv ! s)))"

definition inflight_ok :: "(nat \<Rightarrow> int) \<Rightarrow> session_task multiset \<Rightarrow> session_service \<Rightarrow> bool" where
  "inflight_ok e T sv \<longleftrightarrow> (\<forall>s < length (sv_objects sv). pn_inflight_chunks (sv_objects sv ! s) = tasks_with task_session s T + e s)"

definition sending_ok :: "(nat \<Rightarrow> int) \<Rightarrow> session_task multiset \<Rightarrow> session_service \<Rightarrow> bool" where
  "sending_ok d T sv \<longleftrightarrow> (\<forall>r < length (sv_sends sv). st_sending (sv_sends sv ! r) = tasks_with task_claim r T + sess_claims sv r + d r)"

definition meta_ok :: "session_service \<Rightarrow> bool" where
  "meta_ok sv \<longleftrightarrow> (\<forall>r \<in> snd ` set (sv_send_meta sv). r < length (sv_sends sv))"

definition idents_ok :: "session_task multiset \<Rightarrow> session_service \<Rightarrow> bool" where
  "idents_ok T sv \<longleftrightarrow> (\<forall>i. tasks_with open_identity i T \<le> 1 \<and>
     (i \<in> set (map pn_identity (sv_objects sv)) \<longrightarrow> tasks_with open_identity i T = 0))"

definition sinv :: "nat \<Rightarrow> (nat \<Rightarrow> int) \<Rightarrow> (nat \<Rightarrow> int) \<Rightarrow> nat set \<Rightarrow> session_task multiset \<Rightarrow> session_service \<Rightarrow> bool" where
  "sinv n d e Z T sv \<longleftrightarrow> (slots_ok n T sv \<and> tasks_ok T sv \<and> objects_ok sv \<and> table_ok Z sv) \<and>
     (inflight_ok e T sv \<and> sending_ok d T sv \<and> meta_ok sv \<and> idents_ok T sv)"

lemmas sinv_parts = slots_ok_def tasks_ok_def objects_ok_def table_ok_def inflight_ok_def sending_ok_def meta_ok_def idents_ok_def

definition session_inv :: "nat \<Rightarrow> session_service \<Rightarrow> bool" where
  "session_inv n sv \<longleftrightarrow> distinct (map fst (sv_tasks sv)) \<and> (\<forall>k \<in> fst ` set (sv_tasks sv). k < sv_next_task sv) \<and>
     sinv n (\<lambda>_. 0) (\<lambda>_. 0) {} (mset (map snd (sv_tasks sv))) sv"

lemma session_init_inv: "session_init n sv \<Longrightarrow> session_inv n sv"
  by (simp add: session_init_def session_inv_def sinv_def sinv_parts tasks_with_def)


section \<open>Preservation by the parts of a step\<close>

lemma tasks_with_add [simp]: "tasks_with f x (add_mset t T) = (if f t = Some x then 1 else 0) + tasks_with f x T"
  by (simp add: tasks_with_def)

lemma tasks_with_nonneg [simp]: "0 \<le> tasks_with f x T"
  by (simp add: tasks_with_def)

lemma sinvI:
  "slots_ok n T sv \<Longrightarrow> tasks_ok T sv \<Longrightarrow> objects_ok sv \<Longrightarrow> table_ok Z sv \<Longrightarrow> inflight_ok e T sv \<Longrightarrow> sending_ok d T sv \<Longrightarrow>
   meta_ok sv \<Longrightarrow> idents_ok T sv \<Longrightarrow> sinv n d e Z T sv"
  by (simp add: sinv_def)

lemma sinvD:
  assumes "sinv n d e Z T sv"
  shows "slots_ok n T sv" "tasks_ok T sv" "objects_ok sv" "table_ok Z sv" "inflight_ok e T sv" "sending_ok d T sv"
    "meta_ok sv" "idents_ok T sv"
  using assms by (simp_all add: sinv_def)

lemma task_wf_cong:
  "length (sv_sends sv') = length (sv_sends sv) \<Longrightarrow> map obj_key (sv_objects sv') = map obj_key (sv_objects sv) \<Longrightarrow> task_wf sv' t = task_wf sv t"
proof -
  assume a: "length (sv_sends sv') = length (sv_sends sv)" and o: "map obj_key (sv_objects sv') = map obj_key (sv_objects sv)"
  have l: "length (sv_objects sv') = length (sv_objects sv)" using map_eq_imp_length_eq[OF o] .
  have "obj_key (sv_objects sv' ! r) = obj_key (sv_objects sv ! r)" if "r < length (sv_objects sv)" for r
  proof -
    have "map obj_key (sv_objects sv') ! r = map obj_key (sv_objects sv) ! r" by (simp only: o)
    then show ?thesis using that l by simp
  qed
  note k = this
  show ?thesis
  proof (cases t)
    case (OpenWait i m r c u)
    then show ?thesis by (simp add: a)
  next
    case (OpenJob i m r c)
    then show ?thesis by (simp add: a)
  next
    case (AbortDrain i a s pend u)
    then show ?thesis by (simp add: l)
  qed (auto simp: l k)
qed

lemma tasks_ok_cong:
  "length (sv_sends sv') = length (sv_sends sv) \<Longrightarrow> map obj_key (sv_objects sv') = map obj_key (sv_objects sv) \<Longrightarrow> tasks_ok T sv' = tasks_ok T sv"
  using task_wf_cong[of sv' sv] by (simp only: tasks_ok_def)

text \<open>The fields the invariant does not mention.\<close>

lemma sinv_same:
  assumes "sinv n d e Z T sv" "sv_sends sv' = sv_sends sv" "sv_objects sv' = sv_objects sv" "sv_sessions sv' = sv_sessions sv"
    "sv_slots sv' = sv_slots sv" "set (sv_send_meta sv') \<subseteq> set (sv_send_meta sv)"
  shows "sinv n d e Z T sv'"
proof (rule sinvI)
  note s = sinvD[OF assms(1)]
  show "slots_ok n T sv'" using s(1) assms(5) by (simp add: slots_ok_def)
  show "tasks_ok T sv'" using s(2) tasks_ok_cong[of sv' sv T] assms(2,3) by simp
  show "objects_ok sv'" using s(3) assms(2,3) by (simp add: objects_ok_def)
  show "table_ok Z sv'" using s(4) assms(3,4) by (simp add: table_ok_def)
  show "inflight_ok e T sv'" using s(5) assms(3) by (simp add: inflight_ok_def)
  show "sending_ok d T sv'" using s(6) assms(2,3,4) by (simp add: sending_ok_def sess_claims_def)
  show "meta_ok sv'" using s(7) assms(2,6) by (auto simp: meta_ok_def)
  show "idents_ok T sv'" using s(8) assms(3) by (simp add: idents_ok_def)
qed

lemma sinv_respond: "sinv n d e Z T sv \<Longrightarrow> sinv n d e Z T (respond i x sv)"
  by (erule sinv_same) (simp_all add: respond_def)

lemma sinv_set_task: "sinv n d e Z T sv \<Longrightarrow> sinv n d e Z T (set_task k t sv)"
  by (erule sinv_same) (simp_all add: set_task_def)

lemma sinv_drop: "sinv n d e Z T sv \<Longrightarrow> sinv n d e Z T (drop_transfer tid sv)"
  by (erule sinv_same) (auto simp: drop_transfer_def dict_pop_def)

lemma table_ok_weaken: "table_ok Z sv \<Longrightarrow> Z \<subseteq> Z' \<Longrightarrow> table_ok Z' sv"
  by (auto simp: table_ok_def)

lemma sinv_weaken: "sinv n d e Z T sv \<Longrightarrow> Z \<subseteq> Z' \<Longrightarrow> sinv n d e Z' T sv"
  unfolding sinv_def using table_ok_weaken by blast

text \<open>Counting on the send states.\<close>

lemma sinv_update_send:
  assumes "sinv n d e Z T sv" and r: "r < length (sv_sends sv)" and f: "\<And>s. st_sending (f s) = st_sending s + c"
  shows "sinv n (d(r := d r + c)) e Z T (update_send r f sv)"
proof (rule sinvI)
  note s = sinvD[OF assms(1)]
  show "slots_ok n T (update_send r f sv)" using s(1) by (simp add: slots_ok_def update_send_def)
  show "tasks_ok T (update_send r f sv)" using s(2) tasks_ok_cong[of "update_send r f sv" sv T] by (simp add: update_send_def)
  show "objects_ok (update_send r f sv)" using s(3) by (simp add: objects_ok_def update_send_def)
  show "table_ok Z (update_send r f sv)" using s(4) by (simp add: table_ok_def update_send_def)
  show "inflight_ok e T (update_send r f sv)" using s(5) by (simp add: inflight_ok_def update_send_def)
  show "sending_ok (d(r := d r + c)) T (update_send r f sv)"
    using s(6) r f by (simp add: sending_ok_def sess_claims_def update_send_def nth_list_update)
  show "meta_ok (update_send r f sv)" using s(7) by (simp add: meta_ok_def update_send_def)
  show "idents_ok T (update_send r f sv)" using s(8) by (simp add: idents_ok_def update_send_def)
qed

lemma sinv_finish_send_meta:
  assumes "sinv n d e Z T sv" "r < length (sv_sends sv)"
  shows "sinv n (d(r := d r - 1)) e Z T (finish_send_meta r sv)"
proof -
  let ?f = "\<lambda>s. s\<lparr>st_sending := st_sending s - 1, st_sent := st_sent s + 1\<rparr>"
  have "sinv n (d(r := d r + - 1)) e Z T (update_send r ?f sv)" by (rule sinv_update_send[OF assms]) simp
  then have "sinv n (d(r := d r - 1)) e Z T (update_send r ?f sv)" by simp
  then show ?thesis by (rule sinv_same) (auto simp: finish_send_meta_def Let_def dict_pop_def)
qed

lemma finish_send_meta_frame [simp]:
  "sv_objects (finish_send_meta r sv) = sv_objects sv" "sv_sessions (finish_send_meta r sv) = sv_sessions sv"
  "sv_slots (finish_send_meta r sv) = sv_slots sv" "length (sv_sends (finish_send_meta r sv)) = length (sv_sends sv)"
  "sv_tasks (finish_send_meta r sv) = sv_tasks sv" "sv_next_task (finish_send_meta r sv) = sv_next_task sv"
  "sv_closed (finish_send_meta r sv) = sv_closed sv" "sv_clock (finish_send_meta r sv) = sv_clock sv"
  by (simp_all add: finish_send_meta_def update_send_def Let_def)

text \<open>The table of sessions.\<close>

lemma table_okD: "table_ok Z sv \<Longrightarrow> (k, s) \<in> set (sv_sessions sv) \<Longrightarrow>
    s < length (sv_objects sv) \<and> k = obj_key (sv_objects sv ! s) \<and> (s \<notin> Z \<longrightarrow> phase_ok (sv_objects sv ! s))"
  by (auto simp: table_ok_def)

lemma session_unique:
  assumes "objects_ok sv" "table_ok Z sv" "r < length (sv_objects sv)" "map_of (sv_sessions sv) (obj_key (sv_objects sv ! r)) = Some q"
  shows "q = r"
proof -
  have "q < length (sv_objects sv)" "obj_key (sv_objects sv ! q) = obj_key (sv_objects sv ! r)"
    using table_okD[OF assms(2) map_of_SomeD[OF assms(4)]] by auto
  then show ?thesis using assms(1,3) by (auto simp: objects_ok_def obj_key_def distinct_conv_nth)
qed

lemma filter_pop_length:
  "distinct (map fst ps) \<Longrightarrow> map_of ps k = Some r \<Longrightarrow>
     int (length (filter (\<lambda>(_, s). P s) (dict_pop ps k))) = int (length (filter (\<lambda>(_, s). P s) ps)) - (if P r then 1 else 0)"
proof (induction ps)
  case (Cons x ps)
  obtain k' r' where x: "x = (k', r')" by (cases x)
  show ?case
  proof (cases "k' = k")
    case True
    then have "dict_pop ps k = ps" using Cons.prems(1) x by (force simp: dict_pop_def intro!: filter_True)
    then show ?thesis using Cons.prems True x by (simp add: dict_pop_def)
  next
    case False
    then show ?thesis using Cons x by (auto simp: dict_pop_def)
  qed
qed simp

lemma sinv_pop:
  assumes "sinv n d e Z T sv" and r: "r < length (sv_objects sv)" and k: "k = obj_key (sv_objects sv ! r)"
    and in_table: "map_of (sv_sessions sv) k = Some r" and q: "q = pn_send_state (sv_objects sv ! r)"
  shows "sinv n (d(q := d q + 1)) e (Z - {r}) T (pop_session k sv)"
proof (rule sinvI)
  note s = sinvD[OF assms(1)]
  have "sess_claims (pop_session k sv) x = sess_claims sv x - (if x = q then 1 else 0)" for x
    using filter_pop_length[OF _ in_table, of "\<lambda>s. pn_send_state (sv_objects sv ! s) = x"] s(4) q
    by (auto simp: sess_claims_def pop_session_def table_ok_def)
  then show "sending_ok (d(q := d q + 1)) T (pop_session k sv)" using s(6) by (simp add: sending_ok_def pop_session_def)
  have "(a, x) \<in> set (sv_sessions sv) \<and> x \<noteq> r" if "(a, x) \<in> set (sv_sessions (pop_session k sv))" for a x
    using that table_okD[OF s(4), of a x] k by (auto simp: pop_session_def dict_pop_def)
  then show "table_ok (Z - {r}) (pop_session k sv)"
    using s(4) table_okD[OF s(4)] by (force simp: table_ok_def pop_session_def distinct_dict_pop)
  show "tasks_ok T (pop_session k sv)" using s(2) tasks_ok_cong[of "pop_session k sv" sv T] by (simp add: pop_session_def)
qed (use sinvD[OF assms(1)] in \<open>simp_all add: slots_ok_def objects_ok_def inflight_ok_def meta_ok_def idents_ok_def pop_session_def\<close>)

lemma pop_absent:
  assumes s: "objects_ok sv" "table_ok Z sv" and r: "r < length (sv_objects sv)" and k: "k = obj_key (sv_objects sv ! r)"
    and out: "map_of (sv_sessions sv) k \<noteq> Some r"
  shows "pop_session k sv = sv" and "r \<notin> snd ` set (sv_sessions sv)"
proof -
  have "map_of (sv_sessions sv) k = None" using session_unique[OF s r] out k by (cases "map_of (sv_sessions sv) k") auto
  then have a: "k \<notin> fst ` set (sv_sessions sv)" by (simp add: map_of_eq_None_iff)
  then have "dict_pop (sv_sessions sv) k = sv_sessions sv" by (force simp: dict_pop_def intro!: filter_True)
  then show "pop_session k sv = sv" by (simp add: pop_session_def)
  show "r \<notin> snd ` set (sv_sessions sv)"
  proof
    assume "r \<in> snd ` set (sv_sessions sv)"
    then obtain b where "(b, r) \<in> set (sv_sessions sv)" by auto
    then show False using table_okD[OF s(2), of b r] k a by force
  qed
qed

text \<open>Changing one session object.\<close>

lemma sinv_update_session:
  assumes inv: "sinv n d e Z T sv" and r: "r < length (sv_objects sv)"
    and f: "\<And>p. obj_key (f p) = obj_key p" "\<And>p. pn_send_state (f p) = pn_send_state p"
      "\<And>p. pn_inflight_chunks (f p) = pn_inflight_chunks p + c"
  shows "sinv n d (e(r := e r + c)) (insert r Z) T (update_session r f sv)"
proof -
  note s = sinvD[OF inv]
  let ?sv = "update_session r f sv"
  have nth: "sv_objects ?sv ! x = (if x = r then f (sv_objects sv ! r) else sv_objects sv ! x)" for x
    using r by (simp add: update_session_def nth_list_update)
  have ident: "pn_identity (f p) = pn_identity p" for p using f(1)[of p] by (simp add: obj_key_def)
  have key: "obj_key (sv_objects ?sv ! x) = obj_key (sv_objects sv ! x)" for x by (simp add: nth f)
  have sends: "pn_send_state (sv_objects ?sv ! x) = pn_send_state (sv_objects sv ! x)" for x by (simp add: nth f)
  have maps: "map obj_key (sv_objects ?sv) = map obj_key (sv_objects sv)" "map pn_identity (sv_objects ?sv) = map pn_identity (sv_objects sv)"
    using r by (simp_all add: update_session_def map_update f ident list_update_same_conv)
  show ?thesis
  proof (rule sinvI)
    show "slots_ok n T ?sv" using s(1) by (simp add: slots_ok_def update_session_def)
    show "tasks_ok T ?sv" using s(2) tasks_ok_cong[of ?sv sv T] maps by (simp add: update_session_def)
    have "pn_send_state p < length (sv_sends sv)" if "p \<in> set (sv_objects ?sv)" for p
    proof -
      have "p \<in> insert (f (sv_objects sv ! r)) (set (sv_objects sv))"
        using that set_update_subset_insert[of "sv_objects sv" r "f (sv_objects sv ! r)"] by (auto simp: update_session_def)
      then show ?thesis using s(3) nth_mem[OF r] f(2) by (auto simp: objects_ok_def)
    qed
    then show "objects_ok ?sv" using s(3) maps(2) by (simp add: objects_ok_def update_session_def)
    have fr: "sv_sessions ?sv = sv_sessions sv" "length (sv_objects ?sv) = length (sv_objects sv)" by (simp_all add: update_session_def)
    have "phase_ok (sv_objects ?sv ! x) = phase_ok (sv_objects sv ! x)" if "x \<noteq> r" for x using that by (simp add: nth)
    then show "table_ok (insert r Z) ?sv" using s(4) by (auto simp: table_ok_def key fr)
    show "inflight_ok (e(r := e r + c)) T ?sv" using s(5) by (simp add: inflight_ok_def nth f fr)
    show "sending_ok d T ?sv" using s(6) by (simp add: sending_ok_def sess_claims_def sends) (simp add: update_session_def)
    show "meta_ok ?sv" using s(7) by (simp add: meta_ok_def update_session_def)
    show "idents_ok T ?sv" using s(8) maps(2) by (simp add: idents_ok_def del: set_map)
  qed
qed

lemma sinv_restore:
  assumes "sinv n d e Z T sv" "Z \<subseteq> insert r Z'" "r \<in> snd ` set (sv_sessions sv) \<Longrightarrow> phase_ok (sv_objects sv ! r)"
  shows "sinv n d e Z' T sv"
proof -
  have "table_ok Z' sv" using sinvD(4)[OF assms(1)] assms(2,3) unfolding table_ok_def by force
  then show ?thesis using assms(1) by (simp add: sinv_def)
qed

lemma sinv_discard:
  assumes inv: "sinv n d e Z T sv" and r: "r < length (sv_objects sv)" and k: "k = obj_key (sv_objects sv ! r)"
  shows "sinv n d e (Z - {r}) T (discard_producer_session k r sv)"
proof (cases "map_of (sv_sessions sv) k = Some r")
  case False
  note p = pop_absent[OF sinvD(3,4)[OF inv] r k False]
  then have "discard_producer_session k r sv = sv" using False by (simp add: discard_producer_session_def Let_def)
  then show ?thesis using sinv_restore[OF inv, of r "Z - {r}"] p(2) by auto
next
  case True
  let ?q = "pn_send_state (sv_objects sv ! r)"
  have q: "?q < length (sv_sends (pop_session k sv))" using sinvD(3)[OF inv] r by (simp add: objects_ok_def pop_session_def)
  note pop = sinv_pop[OF inv r k True refl]
  have "sinv n ((d(?q := d ?q + 1))(?q := (d(?q := d ?q + 1)) ?q - 1)) e (Z - {r}) T (finish_send_meta ?q (pop_session k sv))"
    by (rule sinv_finish_send_meta[OF pop q])
  moreover have "sinv n ((d(?q := d ?q + 1))(?q := (d(?q := d ?q + 1)) ?q + - 1)) e (Z - {r}) T
      (update_send ?q (\<lambda>s. s\<lparr>st_sending := st_sending s - 1\<rparr>) (pop_session k sv))"
    by (rule sinv_update_send[OF pop q]) simp
  ultimately show ?thesis using True by (simp add: discard_producer_session_def Let_def)
qed

lemma sinv_complete:
  assumes inv: "sinv n d e Z T sv" and r: "r < length (sv_objects sv)" and i: "i = pn_identity (sv_objects sv ! r)"
  shows "sinv n d e Z T (complete_producer_session i r sv)"
proof -
  let ?p = "sv_objects sv ! r"
  let ?k = "(i, pn_transfer_id ?p, pn_d_req_id ?p)"
  have k: "?k = obj_key ?p" using i by (simp add: obj_key_def)
  show ?thesis
  proof (cases "map_of (sv_sessions sv) ?k = Some r")
    case False
    then have "complete_producer_session i r sv = sv"
      using pop_absent(1)[OF sinvD(3,4)[OF inv] r k] by (simp add: complete_producer_session_def Let_def)
    then show ?thesis using inv by simp
  next
    case True
    let ?q = "pn_send_state ?p"
    let ?sv1 = "pop_session ?k sv"
    let ?sv2 = "update_session r (\<lambda>p. p\<lparr>pn_state := COMPLETE\<rparr>) ?sv1"
    let ?sv3 = "?sv2\<lparr>sv_closed := dict_set (sv_closed ?sv1) (pn_transfer_id ?p, pn_d_req_id ?p, pn_nonce ?p) (sv_clock sv + PENDING_REQ_EXPIRY_S)\<rparr>"
    have r1: "r < length (sv_objects ?sv1)" using r by (simp add: pop_session_def)
    have "sinv n (d(?q := d ?q + 1)) (e(r := e r + 0)) (insert r (Z - {r})) T ?sv2"
      by (rule sinv_update_session[OF sinv_pop[OF inv r k True refl] r1]) (simp_all add: obj_key_def)
    then have "sinv n (d(?q := d ?q + 1)) e (insert r Z) T ?sv2" by (simp add: insert_absorb)
    then have "sinv n (d(?q := d ?q + 1)) e (insert r Z) T ?sv3" by (rule sinv_same) simp_all
    moreover have "r \<notin> snd ` set (sv_sessions ?sv3)"
      using table_okD[OF sinvD(4)[OF inv]] k by (auto simp: pop_session_def update_session_def dict_pop_def)
    ultimately have "sinv n (d(?q := d ?q + 1)) e Z T ?sv3" using sinv_restore[of n _ e "insert r Z" T ?sv3 r Z] by blast
    moreover have "?q < length (sv_sends ?sv3)" using sinvD(3)[OF inv] r by (simp add: objects_ok_def pop_session_def update_session_def)
    ultimately have "sinv n ((d(?q := d ?q + 1))(?q := (d(?q := d ?q + 1)) ?q - 1)) e Z T (finish_send_meta ?q ?sv3)"
      by (rule sinv_finish_send_meta)
    then show ?thesis using True by (simp add: complete_producer_session_def Let_def)
  qed
qed

text \<open>Frames.\<close>

lemma discard_frame [simp]:
  "sv_objects (discard_producer_session k r sv) = sv_objects sv" "sv_slots (discard_producer_session k r sv) = sv_slots sv"
  "sv_tasks (discard_producer_session k r sv) = sv_tasks sv" "sv_next_task (discard_producer_session k r sv) = sv_next_task sv"
  "sv_clock (discard_producer_session k r sv) = sv_clock sv" "sv_closed (discard_producer_session k r sv) = sv_closed sv"
  by (simp_all add: discard_producer_session_def pop_session_def update_send_def Let_def)

lemma complete_frame [simp]:
  "sv_slots (complete_producer_session i r sv) = sv_slots sv" "sv_tasks (complete_producer_session i r sv) = sv_tasks sv"
  "sv_next_task (complete_producer_session i r sv) = sv_next_task sv" "sv_clock (complete_producer_session i r sv) = sv_clock sv"
  "length (sv_objects (complete_producer_session i r sv)) = length (sv_objects sv)"
  by (simp_all add: complete_producer_session_def pop_session_def update_session_def Let_def)

lemma update_session_frame [simp]:
  "sv_slots (update_session r f sv) = sv_slots sv" "sv_tasks (update_session r f sv) = sv_tasks sv"
  "sv_next_task (update_session r f sv) = sv_next_task sv" "sv_clock (update_session r f sv) = sv_clock sv"
  "sv_sessions (update_session r f sv) = sv_sessions sv" "sv_sends (update_session r f sv) = sv_sends sv"
  "sv_closed (update_session r f sv) = sv_closed sv" "length (sv_objects (update_session r f sv)) = length (sv_objects sv)"
  by (simp_all add: update_session_def)

lemma respond_frame [simp]:
  "sv_slots (respond i x sv) = sv_slots sv" "sv_tasks (respond i x sv) = sv_tasks sv"
  "sv_next_task (respond i x sv) = sv_next_task sv" "sv_clock (respond i x sv) = sv_clock sv"
  "sv_sessions (respond i x sv) = sv_sessions sv" "sv_sends (respond i x sv) = sv_sends sv"
  "sv_objects (respond i x sv) = sv_objects sv" "sv_closed (respond i x sv) = sv_closed sv"
  by (simp_all add: respond_def)

lemma update_session_nth [simp]:
  "r < length (sv_objects sv) \<Longrightarrow> sv_objects (update_session r f sv) ! r = f (sv_objects sv ! r)"
  by (simp add: update_session_def)

text \<open>A task leaves or joins; a slot goes with it.\<close>

abbreviation bump :: "nat option \<Rightarrow> (nat \<Rightarrow> int) \<Rightarrow> nat \<Rightarrow> int" where
  "bump q d \<equiv> \<lambda>r. d r + (if q = Some r then 1 else 0)"

lemma sinv_remove:
  assumes inv: "sinv n d e Z (add_mset t T) sv" and sl: "mset xs = mset (sv_slots sv) + task_slot t"
  shows "sinv n (bump (task_claim t) d) (bump (task_session t) e) Z T (sv\<lparr>sv_slots := xs\<rparr>)"
proof (rule sinvI)
  note s = sinvD[OF inv]
  show "slots_ok n T (sv\<lparr>sv_slots := xs\<rparr>)" using s(1) sl by (simp add: slots_ok_def ac_simps)
  show "tasks_ok T (sv\<lparr>sv_slots := xs\<rparr>)" using s(2) tasks_ok_cong[of "sv\<lparr>sv_slots := xs\<rparr>" sv T] by (simp add: tasks_ok_def)
  show "objects_ok (sv\<lparr>sv_slots := xs\<rparr>)" using s(3) by (simp add: objects_ok_def)
  show "table_ok Z (sv\<lparr>sv_slots := xs\<rparr>)" using s(4) by (simp add: table_ok_def)
  show "inflight_ok (bump (task_session t) e) T (sv\<lparr>sv_slots := xs\<rparr>)" using s(5) by (simp add: inflight_ok_def)
  show "sending_ok (bump (task_claim t) d) T (sv\<lparr>sv_slots := xs\<rparr>)" using s(6) by (simp add: sending_ok_def sess_claims_def)
  show "meta_ok (sv\<lparr>sv_slots := xs\<rparr>)" using s(7) by (simp add: meta_ok_def)
  show "idents_ok T (sv\<lparr>sv_slots := xs\<rparr>)"
    unfolding idents_ok_def
  proof
    fix i
    have le: "tasks_with open_identity i T \<le> tasks_with open_identity i (add_mset t T)" by simp
    have "tasks_with open_identity i (add_mset t T) \<le> 1"
      "i \<in> pn_identity ` set (sv_objects sv) \<Longrightarrow> tasks_with open_identity i (add_mset t T) = 0"
      using s(8) by (auto simp: idents_ok_def simp del: tasks_with_add)
    with le tasks_with_nonneg[of open_identity i T] show "tasks_with open_identity i T \<le> 1 \<and> (i \<in> set (map pn_identity (sv_objects (sv\<lparr>sv_slots := xs\<rparr>))) \<longrightarrow> tasks_with open_identity i T = 0)"
      by (auto simp del: tasks_with_add intro: antisym)
  qed
qed

definition ident_free :: "session_task \<Rightarrow> session_task multiset \<Rightarrow> session_service \<Rightarrow> bool" where
  "ident_free t T sv \<longleftrightarrow> (\<forall>i. open_identity t = Some i \<longrightarrow> i \<notin> set (map pn_identity (sv_objects sv)) \<and> tasks_with open_identity i T = 0)"

lemma sinv_add:
  assumes inv: "sinv n (bump (task_claim t) d) (bump (task_session t) e) Z T sv" and sl: "mset (sv_slots sv) = mset xs + task_slot t"
    and wf: "task_wf sv t" and fresh: "ident_free t T sv"
  shows "sinv n d e Z (add_mset t T) (sv\<lparr>sv_slots := xs\<rparr>)"
proof (rule sinvI)
  note s = sinvD[OF inv]
  show "slots_ok n (add_mset t T) (sv\<lparr>sv_slots := xs\<rparr>)" using s(1) sl by (simp add: slots_ok_def ac_simps)
  show "tasks_ok (add_mset t T) (sv\<lparr>sv_slots := xs\<rparr>)"
    using s(2) wf tasks_ok_cong[of "sv\<lparr>sv_slots := xs\<rparr>" sv "add_mset t T"] by (simp add: tasks_ok_def)
  show "objects_ok (sv\<lparr>sv_slots := xs\<rparr>)" using s(3) by (simp add: objects_ok_def)
  show "table_ok Z (sv\<lparr>sv_slots := xs\<rparr>)" using s(4) by (simp add: table_ok_def)
  show "inflight_ok e (add_mset t T) (sv\<lparr>sv_slots := xs\<rparr>)" using s(5) by (simp add: inflight_ok_def)
  show "sending_ok d (add_mset t T) (sv\<lparr>sv_slots := xs\<rparr>)" using s(6) by (simp add: sending_ok_def sess_claims_def)
  show "meta_ok (sv\<lparr>sv_slots := xs\<rparr>)" using s(7) by (simp add: meta_ok_def)
  show "idents_ok (add_mset t T) (sv\<lparr>sv_slots := xs\<rparr>)" using s(8) fresh by (auto simp: idents_ok_def ident_free_def)
qed

lemma sinv_remove0:
  "sinv n d e Z (add_mset t T) sv \<Longrightarrow> task_slot t = {#} \<Longrightarrow> sinv n (bump (task_claim t) d) (bump (task_session t) e) Z T sv"
  using sinv_remove[of n d e Z t T sv "sv_slots sv"] by simp

lemma sinv_add0:
  "sinv n (bump (task_claim t) d) (bump (task_session t) e) Z T sv \<Longrightarrow> task_slot t = {#} \<Longrightarrow> task_wf sv t \<Longrightarrow> ident_free t T sv \<Longrightarrow>
   sinv n d e Z (add_mset t T) sv"
  using sinv_add[where xs = "sv_slots sv" and sv = sv] by simp

text \<open>The operations, with no counter ahead at their ends.\<close>

abbreviation zero :: "nat \<Rightarrow> int" where "zero \<equiv> \<lambda>_. 0"

lemma sinv_counters: "sinv n d e Z T sv \<Longrightarrow> d = d' \<Longrightarrow> e = e' \<Longrightarrow> sinv n d' e' Z T sv"
  by simp

lemma sinv_inflight: "sinv n d zero Z T sv \<Longrightarrow> r < length (sv_objects sv) \<Longrightarrow> 0 \<le> pn_inflight_chunks (sv_objects sv ! r)"
  using sinvD(5)[of n d zero Z T sv] by (simp add: inflight_ok_def)

lemma sinv_finally:
  assumes inv: "sinv n zero (if counted then zero(r := 1) else zero) {r} T sv" and r: "r < length (sv_objects sv)"
    and k: "obj_key (sv_objects sv ! r) = (i, pm_transfer_id m, pm_d_req_id m)"
    and live: "r \<in> snd ` set (sv_sessions sv) \<Longrightarrow> pn_state (sv_objects sv ! r) \<noteq> COMPLETE"
  shows "sinv n zero zero {} T (chunk_finally i m r counted sv)"
proof -
  let ?sv = "if counted then update_session r (\<lambda>p. p\<lparr>pn_inflight_chunks := pn_inflight_chunks p - 1\<rparr>) sv else sv"
  have inv1: "sinv n zero zero {r} T ?sv"
  proof (cases counted)
    case True
    have "sinv n zero ((zero(r := 1))(r := (zero(r := 1)) r + - 1)) (insert r {r}) T
        (update_session r (\<lambda>p. p\<lparr>pn_inflight_chunks := pn_inflight_chunks p - 1\<rparr>) sv)"
      using inv True by (intro sinv_update_session[OF _ r]) (simp_all add: obj_key_def)
    then show ?thesis using True by (simp add: fun_upd_idem)
  qed (use inv in simp)
  have r1: "r < length (sv_objects ?sv)" using r by simp
  have k1: "(i, pm_transfer_id m, pm_d_req_id m) = obj_key (sv_objects ?sv ! r)" using k r by (simp add: obj_key_def)
  have st: "pn_state (sv_objects ?sv ! r) = pn_state (sv_objects sv ! r)" "sv_sessions ?sv = sv_sessions sv" using r by simp_all
  show ?thesis
  proof (cases "pn_inflight_chunks (sv_objects ?sv ! r) = 0 \<and> pn_state (sv_objects ?sv ! r) \<in> {CANCELLED, FAILED}")
    case True
    then show ?thesis using sinv_discard[OF inv1 r1 k1] by (simp add: chunk_finally_def Let_def)
  next
    case False
    have "phase_ok (sv_objects ?sv ! r)" if "r \<in> snd ` set (sv_sessions ?sv)"
      using that live st False sinv_inflight[OF inv1 r1] by (cases "pn_state (sv_objects sv ! r)") (auto simp: phase_ok_def)
    then show ?thesis using sinv_restore[OF inv1, of r "{}"] False by (auto simp: chunk_finally_def Let_def)
  qed
qed

lemma sinv_cancel:
  assumes inv: "sinv n zero zero {} T sv" and r: "r < length (sv_objects sv)" and k: "k = obj_key (sv_objects sv ! r)"
  shows "sinv n zero zero {} T (cancel_session k r sv)"
proof -
  let ?sv = "update_session r (\<lambda>p. p\<lparr>pn_state := CANCELLED\<rparr>) sv"
  have "sinv n zero (zero(r := zero r + 0)) (insert r {}) T ?sv" by (rule sinv_update_session[OF inv r]) (simp_all add: obj_key_def)
  then have inv1: "sinv n zero zero {r} T ?sv" by (simp add: fun_upd_idem)
  have r1: "r < length (sv_objects ?sv)" and k1: "k = obj_key (sv_objects ?sv ! r)" using r k by (simp_all add: obj_key_def)
  show ?thesis
  proof (cases "pn_inflight_chunks (sv_objects sv ! r) = 0")
    case True
    then show ?thesis using sinv_discard[OF inv1 r1 k1] by (simp add: cancel_session_def)
  next
    case False
    then have "phase_ok (sv_objects ?sv ! r)" using sinv_inflight[OF inv1 r1] r by (simp add: phase_ok_def)
    then show ?thesis using sinv_restore[OF inv1, of r "{}"] False by (simp add: cancel_session_def)
  qed
qed

lemma cancel_frame [simp]:
  "sv_tasks (cancel_session k r sv) = sv_tasks sv" "sv_next_task (cancel_session k r sv) = sv_next_task sv"
  "sv_clock (cancel_session k r sv) = sv_clock sv" "sv_closed (cancel_session k r sv) = sv_closed sv"
  "length (sv_objects (cancel_session k r sv)) = length (sv_objects sv)"
  by (simp_all add: cancel_session_def Let_def)

lemma cancel_keys: "obj_key (sv_objects (cancel_session k r sv) ! x) = obj_key (sv_objects sv ! x)"
proof -
  have "obj_key ((sv_objects sv)[r := (sv_objects sv ! r)\<lparr>pn_state := CANCELLED\<rparr>] ! x) = obj_key (sv_objects sv ! x)"
    by (cases "r < length (sv_objects sv)"; cases "x = r") (simp_all add: list_update_beyond obj_key_def)
  then show ?thesis by (simp add: cancel_session_def update_session_def Let_def)
qed

lemma finally_frame [simp]:
  "sv_tasks (chunk_finally i m r c sv) = sv_tasks sv" "sv_next_task (chunk_finally i m r c sv) = sv_next_task sv"
  "sv_clock (chunk_finally i m r c sv) = sv_clock sv" "sv_closed (chunk_finally i m r c sv) = sv_closed sv"
  by (simp_all add: chunk_finally_def Let_def)

lemma sinv_open_failed:
  assumes "sinv n (if claimed then zero(r := 1) else zero) zero {} T sv" "r < length (sv_sends sv)"
  shows "sinv n zero zero {} T (open_failed i m r created claimed sv)"
proof -
  have "sinv n zero zero {} T (if claimed then finish_send_meta r sv else sv)"
    using assms sinv_finish_send_meta[of n "zero(r := 1)" zero "{}" T sv r] by (auto simp: fun_upd_idem)
  then show ?thesis by (simp add: open_failed_def Let_def sinv_respond sinv_drop)
qed

lemma open_failed_frame [simp]:
  "sv_tasks (open_failed i m r created claimed sv) = sv_tasks sv" "sv_next_task (open_failed i m r created claimed sv) = sv_next_task sv"
  "sv_clock (open_failed i m r created claimed sv) = sv_clock sv" "sv_closed (open_failed i m r created claimed sv) = sv_closed sv"
  by (simp_all add: open_failed_def drop_transfer_def Let_def)

lemma update_send_frame [simp]:
  "sv_slots (update_send r f sv) = sv_slots sv" "sv_tasks (update_send r f sv) = sv_tasks sv"
  "sv_next_task (update_send r f sv) = sv_next_task sv" "sv_clock (update_send r f sv) = sv_clock sv"
  "sv_sessions (update_send r f sv) = sv_sessions sv" "length (sv_sends (update_send r f sv)) = length (sv_sends sv)"
  "sv_objects (update_send r f sv) = sv_objects sv" "sv_closed (update_send r f sv) = sv_closed sv"
  by (simp_all add: update_send_def)

lemma ident_freeI:
  assumes "idents_ok (add_mset t T) sv" "open_identity t' = open_identity t"
  shows "ident_free t' T sv"
  unfolding ident_free_def
proof (intro allI impI)
  fix i assume "open_identity t' = Some i"
  then have t: "open_identity t = Some i" using assms(2) by simp
  have "1 + tasks_with open_identity i T \<le> 1" "i \<in> set (map pn_identity (sv_objects sv)) \<Longrightarrow> 1 + tasks_with open_identity i T = 0"
    using assms(1) t unfolding idents_ok_def by (metis tasks_with_add)+
  then show "i \<notin> set (map pn_identity (sv_objects sv)) \<and> tasks_with open_identity i T = 0"
    using tasks_with_nonneg[of open_identity i T] by linarith
qed

lemma sinv_open_claim:
  assumes inv: "sinv n zero zero {} (add_mset (OpenWait i m r c t) T) sv" and x: "open_claim i m r c sv = (sv', t')"
  shows "sinv n zero zero {} (case t' of None \<Rightarrow> T | Some y \<Rightarrow> add_mset y T) sv'"
proof -
  have r: "r < length (sv_sends sv)" using sinvD(2)[OF inv] by (simp add: tasks_ok_def)
  have fr: "ident_free (OpenJob i m r c) T sv" by (rule ident_freeI[OF sinvD(8)[OF inv]]) simp
  have inv0: "sinv n zero zero {} T sv" using sinv_remove0[OF inv] by simp
  show ?thesis
  proof (cases "handshake_target_ranks (sv_tp_rank sv) (sv_tp_size sv) (om_remote_tp_size m)")
    case (Inl err)
    then show ?thesis using x inv0 r sinv_open_failed[of n False r T sv] by (auto simp: open_claim_def)
  next
    case (Inr ranks)
    let ?sv = "update_send r (\<lambda>s. s\<lparr>st_sending := st_sending s + 1,
                st_need_send := (if st_need_send s = 0 then int (length ranks) else st_need_send s)\<rparr>) sv"
    have "sinv n (zero(r := zero r + 1)) zero {} T ?sv" by (rule sinv_update_send[OF inv0 r]) simp
    then have inv1: "sinv n (zero(r := 1)) zero {} T ?sv" by simp
    have "sinv n zero zero {} (add_mset (OpenJob i m r c) T) ?sv"
      using r fr by (intro sinv_add0 sinv_counters[OF inv1]) (auto simp: ident_free_def)
    then show ?thesis using x Inr inv1 r sinv_open_failed[of n True r T ?sv] by (auto simp: open_claim_def Let_def split: if_splits)
  qed
qed

text \<open>New send states and new sessions.\<close>

lemma tasks_with_0: "(\<And>t. t \<in># T \<Longrightarrow> f t \<noteq> Some x) \<Longrightarrow> tasks_with f x T = 0"
  by (auto simp: tasks_with_def filter_mset_eq_conv)

lemma task_wf_refs:
  "task_wf sv t \<Longrightarrow> task_claim t = Some r \<Longrightarrow> r < length (sv_sends sv)"
  "task_wf sv t \<Longrightarrow> task_session t = Some s \<Longrightarrow> s < length (sv_objects sv)"
  by (cases t; simp)+

lemma task_wf_grow:
  assumes "task_wf sv t" "length (sv_sends sv) \<le> length (sv_sends sv')" "sv_objects sv' = sv_objects sv @ ps"
  shows "task_wf sv' t"
  using assms by (cases t) (auto simp: nth_append)

lemma sess_claims_0:
  assumes "objects_ok sv" "table_ok Z sv" "length (sv_sends sv) \<le> r"
  shows "sess_claims sv r = 0"
proof -
  have "filter (\<lambda>(_, s). pn_send_state (sv_objects sv ! s) = r) (sv_sessions sv) = []"
  proof (rule filter_False, rule ballI)
    fix x assume "x \<in> set (sv_sessions sv)"
    then have "snd x < length (sv_objects sv)" using table_okD[OF assms(2), of "fst x" "snd x"] by simp
    then have "pn_send_state (sv_objects sv ! snd x) < length (sv_sends sv)" using assms(1) by (simp add: objects_ok_def)
    then show "\<not> (case x of (_, s) \<Rightarrow> pn_send_state (sv_objects sv ! s) = r)" using assms(3) by (auto split: prod.splits)
  qed
  then show ?thesis unfolding sess_claims_def by simp
qed

lemma sinv_new_send:
  assumes inv: "sinv n zero e Z T sv" and tid: "st_sending s0 = 0"
  shows "sinv n zero e Z T (sv\<lparr>sv_sends := sv_sends sv @ [s0], sv_send_meta := dict_set (sv_send_meta sv) tid (length (sv_sends sv))\<rparr>)"
    (is "sinv n zero e Z T ?sv")
proof (rule sinvI)
  note s = sinvD[OF inv]
  have "tasks_with task_claim (length (sv_sends sv)) T = 0"
    using s(2) task_wf_refs(1) by (intro tasks_with_0) (fastforce simp: tasks_ok_def)
  moreover have "sess_claims ?sv = sess_claims sv" by (simp add: sess_claims_def fun_eq_iff)
  ultimately show "sending_ok zero T ?sv"
    using s(6) sess_claims_0[OF s(3,4)] tid by (auto simp: sending_ok_def nth_append less_Suc_eq)
  show "tasks_ok T ?sv" using s(2) task_wf_grow[of sv _ ?sv "[]"] by (simp add: tasks_ok_def)
  show "meta_ok ?sv" using s(7) by (auto simp: meta_ok_def image_iff dest!: set_dict_set_sub)
qed (use sinvD[OF inv] in \<open>auto simp: slots_ok_def objects_ok_def table_ok_def inflight_ok_def idents_ok_def\<close>)

lemma sinv_obtain:
  assumes inv: "sinv n zero e Z T sv" and x: "obtain_send tid sv = (sv', r, c)"
  shows "sinv n zero e Z T sv'" and "r < length (sv_sends sv')" and "sv_objects sv' = sv_objects sv" and "sv_tasks sv' = sv_tasks sv"
    and "sv_next_task sv' = sv_next_task sv" and "sv_clock sv' = sv_clock sv" and "sv_closed sv' = sv_closed sv"
proof -
  have "r < length (sv_sends sv)" if "map_of (sv_send_meta sv) tid = Some r"
    using sinvD(7)[OF inv] map_of_SomeD[OF that] by (force simp: meta_ok_def)
  then show "sinv n zero e Z T sv'" "r < length (sv_sends sv')"
    using inv x sinv_new_send[OF inv, of "new_send_state tid" tid]
    by (auto simp: obtain_send_def new_send_state_def split: option.splits)
qed (use x in \<open>auto simp: obtain_send_def split: option.splits\<close>)

lemma sinv_new_session:
  assumes inv: "sinv n (zero(r := 1)) zero {} T sv" and r: "r < length (sv_sends sv)"
    and p: "pn_send_state p = r" "pn_inflight_chunks p = 0" "pn_state p = ACTIVE"
    and fresh: "pn_identity p \<notin> set (map pn_identity (sv_objects sv))" "tasks_with open_identity (pn_identity p) T = 0"
  shows "sinv n zero zero {} T (sv\<lparr>sv_objects := sv_objects sv @ [p],
      sv_sessions := dict_set (sv_sessions sv) (obj_key p) (length (sv_objects sv))\<rparr>)" (is "sinv n zero zero {} T ?sv")
proof -
  note s = sinvD[OF inv]
  have nk: "obj_key p \<notin> fst ` set (sv_sessions sv)"
  proof
    assume "obj_key p \<in> fst ` set (sv_sessions sv)"
    then obtain x where "(obj_key p, x) \<in> set (sv_sessions sv)" by auto
    then have "x < length (sv_objects sv)" "obj_key p = obj_key (sv_objects sv ! x)" using table_okD[OF s(4)] by auto
    then show False using fresh(1) by (auto simp: obj_key_def)
  qed
  have sess: "sv_sessions ?sv = sv_sessions sv @ [(obj_key p, length (sv_objects sv))]" using dict_set_fresh[OF nk] by simp
  have old: "(sv_objects sv @ [p]) ! x = sv_objects sv ! x" if "(k, x) \<in> set (sv_sessions sv)" for k x
    using table_okD[OF s(4) that] by (simp add: nth_append)
  have eq: "filter (\<lambda>(_, x). pn_send_state ((sv_objects sv @ [p]) ! x) = q) (sv_sessions sv) =
      filter (\<lambda>(_, x). pn_send_state (sv_objects sv ! x) = q) (sv_sessions sv)" for q
    using old by (intro filter_cong) auto
  have claims: "sess_claims ?sv q = sess_claims sv q + (if q = r then 1 else 0)" for q
    unfolding sess_claims_def sess by (simp add: eq p)
  have nt: "tasks_with task_session (length (sv_objects sv)) T = 0"
    using s(2) task_wf_refs(2) by (intro tasks_with_0) (fastforce simp: tasks_ok_def)
  show ?thesis
  proof (rule sinvI)
    show "slots_ok n T ?sv" using s(1) by (simp add: slots_ok_def)
    show "tasks_ok T ?sv" using s(2) task_wf_grow[of sv _ ?sv "[p]"] by (simp add: tasks_ok_def)
    show "objects_ok ?sv" using s(3) fresh(1) p r by (simp add: objects_ok_def)
    have "case y of (k, x) \<Rightarrow> x < length (sv_objects ?sv) \<and> k = obj_key (sv_objects ?sv ! x) \<and> (x \<notin> {} \<longrightarrow> phase_ok (sv_objects ?sv ! x))"
      if "y \<in> set (sv_sessions ?sv)" for y
    proof (cases "y = (obj_key p, length (sv_objects sv))")
      case True
      then show ?thesis using p by (simp add: phase_ok_def)
    next
      case False
      then have y: "(fst y, snd y) \<in> set (sv_sessions sv)" using that unfolding sess by simp
      show ?thesis using table_okD[OF s(4) y] old[OF y] by (simp add: case_prod_beta)
    qed
    moreover have "distinct (map fst (sv_sessions ?sv))" unfolding sess using s(4) nk by (simp add: table_ok_def)
    ultimately show "table_ok {} ?sv" unfolding table_ok_def by blast
    show "inflight_ok zero T ?sv" using s(5) nt p by (auto simp: inflight_ok_def nth_append less_Suc_eq)
    show "sending_ok zero T ?sv" using s(6) unfolding sending_ok_def claims by simp
    show "meta_ok ?sv" using s(7) by (simp add: meta_ok_def)
    show "idents_ok T ?sv" using s(8) fresh(2) by (auto simp: idents_ok_def)
  qed
qed

text \<open>The tasks.\<close>

abbreviation with_task :: "session_task multiset \<Rightarrow> session_task option \<Rightarrow> session_task multiset" where
  "with_task T t \<equiv> (case t of None \<Rightarrow> T | Some x \<Rightarrow> add_mset x T)"

lemma sinv_open_begin:
  assumes inv: "sinv n zero zero {} (add_mset (Begin i (SessionOpen m)) T) sv" and x: "open_begin i m sv = (sv', t')"
  shows "sinv n zero zero {} (with_task T t') sv'" and "sv_tasks sv' = sv_tasks sv" and "sv_next_task sv' = sv_next_task sv"
proof -
  have inv0: "sinv n zero zero {} T sv" using sinv_remove0[OF inv] by simp
  obtain sv1 r c where o: "obtain_send (snd (open_target m)) sv = (sv1, r, c)" by (rule prod_cases3)
  note ob = sinv_obtain[OF inv0 o]
  have "ident_free (OpenWait i m r c (sv_clock sv + ABORT_TIMEOUT_S)) T sv1"
    using ident_freeI[OF sinvD(8)[OF inv], of "OpenWait i m r c (sv_clock sv + ABORT_TIMEOUT_S)"] ob(3) by (simp add: ident_free_def)
  then have "sinv n zero zero {} (add_mset (OpenWait i m r c (sv_clock sv + ABORT_TIMEOUT_S)) T) sv1"
    using ob(1,2) by (intro sinv_add0) simp_all
  then show "sinv n zero zero {} (with_task T t') sv'" using x o inv0 by (auto simp: open_begin_def split: if_splits)
  show "sv_tasks sv' = sv_tasks sv" "sv_next_task sv' = sv_next_task sv" using x o ob(4,5) by (auto simp: open_begin_def split: if_splits)
qed

lemma sinv_open_done:
  assumes inv: "sinv n zero zero {} (add_mset (OpenJob i m r c) T) sv"
  shows "sinv n zero zero {} T (open_done i m r c res sv)"
proof -
  have r: "r < length (sv_sends sv)" using sinvD(2)[OF inv] by (simp add: tasks_ok_def)
  have inv1: "sinv n (zero(r := 1)) zero {} T sv"
    by (rule sinv_counters[OF sinv_remove0[OF inv]]) auto
  have fr: "i \<notin> set (map pn_identity (sv_objects sv))" "tasks_with open_identity i T = 0"
    using ident_freeI[OF sinvD(8)[OF inv] refl] by (simp_all add: ident_free_def)
  show ?thesis
  proof (cases res)
    case None
    then show ?thesis using inv1 r sinv_open_failed[of n True r T sv] by (simp add: open_done_def)
  next
    case (Some x)
    let ?p = "\<lparr>pn_identity = i, pn_transfer_id = snd (open_target m), pn_d_req_id = fst (open_target m), pn_nonce = om_nonce m,
                  pn_local_block_ids = or_local_block_ids x, pn_valid_tokens = or_valid_tokens x,
                  pn_logical_block_count = or_logical_block_count x, pn_total_chunks = or_total_chunks x,
                  pn_completed_chunks = 0, pn_inflight_chunks = 0, pn_state = ACTIVE, pn_send_state = r\<rparr>"
    let ?sv = "sv\<lparr>sv_objects := sv_objects sv @ [?p],
      sv_sessions := dict_set (sv_sessions sv) (i, snd (open_target m), fst (open_target m)) (length (sv_objects sv))\<rparr>"
    have "sinv n zero zero {} T ?sv" using sinv_new_session[OF inv1 r, of ?p] fr by (simp add: obj_key_def)
    moreover from this have "sinv n zero zero {} T (complete_producer_session i (length (sv_objects sv)) ?sv)"
      by (rule sinv_complete) simp_all
    ultimately have "sinv n zero zero {} T (if or_total_chunks x = 0 then complete_producer_session i (length (sv_objects sv)) ?sv else ?sv)"
      by (simp only: if_split simp_thms)
    then show ?thesis unfolding open_done_def Some Let_def option.case by (rule sinv_respond)
  qed
qed

lemma open_done_frame [simp]:
  "sv_tasks (open_done i m r c res sv) = sv_tasks sv" "sv_next_task (open_done i m r c res sv) = sv_next_task sv"
  by (auto simp: open_done_def Let_def split: option.splits)

lemma chunk_session:
  assumes "sinv n d e Z (add_mset t T) sv" "task_session t = Some r"
  shows "r < length (sv_objects sv)"
  using sinvD(2)[OF assms(1)] task_wf_refs(2)[OF _ assms(2)] by (simp add: tasks_ok_def)

text \<open>A session set to failed while the chunk that fails it is still counted.\<close>

lemma sinv_fail:
  assumes inv: "sinv n zero e Z T sv" and r: "r < length (sv_objects sv)"
  shows "sinv n zero e (insert r Z) T (update_session r (\<lambda>p. p\<lparr>pn_state := FAILED\<rparr>) sv)"
proof -
  have "sinv n zero (e(r := e r + 0)) (insert r Z) T (update_session r (\<lambda>p. p\<lparr>pn_state := FAILED\<rparr>) sv)"
    by (rule sinv_update_session[OF inv r]) (simp_all add: obj_key_def)
  then show ?thesis by simp
qed

lemma sinv_counted:
  assumes inv: "sinv n zero zero {r} (add_mset t T) sv" and t: "task_session t = Some r" and st: "pn_state (sv_objects sv ! r) \<noteq> COMPLETE"
  shows "sinv n zero zero {} (add_mset t T) sv"
proof -
  have "pn_inflight_chunks (sv_objects sv ! r) = 1 + tasks_with task_session r T"
    using sinvD(5)[OF inv] chunk_session[OF inv t] t by (simp add: inflight_ok_def)
  then have "0 < pn_inflight_chunks (sv_objects sv ! r)" using tasks_with_nonneg[of task_session r T] by linarith
  then have "phase_ok (sv_objects sv ! r)"
    using st by (cases "pn_state (sv_objects sv ! r)") (simp_all add: phase_ok_def)
  then show ?thesis using sinv_restore[OF inv, of r "{}"] by simp
qed

lemma sinv_chunk_begin:
  assumes inv: "sinv n zero zero {} (add_mset (Begin i (ChunkPull m)) T) sv" and x: "chunk_begin i m sv = (sv', t')"
  shows "sinv n zero zero {} (with_task T t') sv'" and "sv_tasks sv' = sv_tasks sv" and "sv_next_task sv' = sv_next_task sv"
proof -
  let ?k = "(i, pm_transfer_id m, pm_d_req_id m)"
  have inv0: "sinv n zero zero {} T sv" using sinv_remove0[OF inv] by simp
  show "sinv n zero zero {} (with_task T t') sv'"
  proof (cases "map_of (sv_sessions sv) ?k")
    case None
    then show ?thesis using x inv0 by (auto simp: chunk_begin_def sinv_respond)
  next
    case (Some r)
    have r: "r < length (sv_objects sv)" and k: "obj_key (sv_objects sv ! r) = ?k"
      using table_okD[OF sinvD(4)[OF inv0] map_of_SomeD[OF Some]] by simp_all
    show ?thesis
    proof (cases "pn_state (sv_objects sv ! r) = ACTIVE")
      case False
      have "sinv n zero zero {} T (chunk_finally i m r False (update_session r (\<lambda>p. p\<lparr>pn_state := FAILED\<rparr>) sv))"
        using sinv_fail[OF inv0 r] r k by (intro sinv_finally) (simp_all add: obj_key_def)
      then show ?thesis using x Some False by (auto simp: chunk_begin_def sinv_respond)
    next
      case True
      let ?sv = "update_session r (\<lambda>p. p\<lparr>pn_inflight_chunks := pn_inflight_chunks p + 1\<rparr>) sv"
      have "sinv n zero (zero(r := zero r + 1)) (insert r {}) T ?sv" by (rule sinv_update_session[OF inv0 r]) (simp_all add: obj_key_def)
      then have "sinv n zero zero {r} (add_mset (ChunkSlot i m r) T) ?sv"
        using r k by (intro sinv_add0) (auto simp: ident_free_def obj_key_def elim!: sinv_counters)
      then have "sinv n zero zero {} (add_mset (ChunkSlot i m r) T) ?sv" using r True by (intro sinv_counted[of n r]) simp_all
      then show ?thesis using x Some True by (auto simp: chunk_begin_def)
    qed
  qed
  show "sv_tasks sv' = sv_tasks sv" "sv_next_task sv' = sv_next_task sv"
    using x by (auto simp: chunk_begin_def split: option.splits if_splits)
qed

lemma sinv_chunk_slot:
  assumes inv: "sinv n zero zero {} (add_mset (ChunkSlot i m r) T) sv" and sl: "sv_slots sv = y # xs"
    and x: "chunk_slot i m r y (sv\<lparr>sv_slots := xs\<rparr>) = (sv', t')"
  shows "sinv n zero zero {} (with_task T t') sv'" and "sv_tasks sv' = sv_tasks sv" and "sv_next_task sv' = sv_next_task sv"
proof -
  have r: "r < length (sv_objects sv)" and k: "obj_key (sv_objects sv ! r) = (i, pm_transfer_id m, pm_d_req_id m)"
    using sinvD(2)[OF inv] by (simp_all add: tasks_ok_def)
  have inv0: "sinv n zero (zero(r := 1)) {} T sv" by (rule sinv_counters[OF sinv_remove0[OF inv]]) auto
  have add: "sinv n zero zero {r} (add_mset t T) (sv1\<lparr>sv_slots := xs\<rparr>)"
    if "sinv n zero (zero(r := 1)) Z T sv1" "Z \<subseteq> {r}" "sv_slots sv1 = sv_slots sv" "task_wf sv1 t" "open_identity t = None"
      "task_slot t = {#y#}" "task_claim t = None" "task_session t = Some r" for t sv1 Z
    using that sl sinv_weaken[OF that(1,2)] by (intro sinv_add) (auto simp: ident_free_def elim!: sinv_counters)
  let ?f = "update_session r (\<lambda>p. p\<lparr>pn_state := FAILED\<rparr>)"
  have up: "?f (sv\<lparr>sv_slots := xs\<rparr>) = (?f sv)\<lparr>sv_slots := xs\<rparr>" by (simp add: update_session_def)
  have "sinv n zero zero {r} (add_mset (ChunkDrain i m r y) T) ((?f sv)\<lparr>sv_slots := xs\<rparr>)"
    using r k by (intro add[OF sinv_fail[OF inv0 r]]) (simp_all add: obj_key_def)
  then have "sinv n zero zero {} (add_mset (ChunkDrain i m r y) T) ((?f sv)\<lparr>sv_slots := xs\<rparr>)" using r by (intro sinv_counted[of n r]) simp_all
  moreover have "sinv n zero zero {} (add_mset (ChunkJob i m r y) T) (sv\<lparr>sv_slots := xs\<rparr>)" if "pn_state (sv_objects sv ! r) = ACTIVE"
    using r k that by (intro sinv_counted[of n r] add[OF inv0]) simp_all
  ultimately show "sinv n zero zero {} (with_task T t') sv'" using x up by (auto simp: chunk_slot_def split: if_splits)
  show "sv_tasks sv' = sv_tasks sv" "sv_next_task sv' = sv_next_task sv" using x by (auto simp: chunk_slot_def split: if_splits)
qed

text \<open>The end of a chunk task that holds a slot.\<close>

lemma sinv_give_back:
  assumes inv: "sinv n zero zero {} (add_mset t T) sv" and t: "task_slot t = {#y#}" "task_session t = Some r" "task_claim t = None"
    and k: "obj_key (sv_objects sv ! r) = (i, pm_transfer_id m, pm_d_req_id m)"
  shows "sinv n zero zero {} T (chunk_finally i m r True (sv\<lparr>sv_slots := sv_slots sv @ [y]\<rparr>))"
proof -
  have r: "r < length (sv_objects sv)" by (rule chunk_session[OF inv t(2)])
  have "sinv n zero (zero(r := 1)) {} T (sv\<lparr>sv_slots := sv_slots sv @ [y]\<rparr>)"
    using t by (intro sinv_counters[OF sinv_remove[OF inv, of "sv_slots sv @ [y]"]]) auto
  then have "sinv n zero (zero(r := 1)) {r} T (sv\<lparr>sv_slots := sv_slots sv @ [y]\<rparr>)" by (rule sinv_weaken) simp
  moreover have "pn_state (sv_objects sv ! r) \<noteq> COMPLETE" if in_table: "r \<in> snd ` set (sv_sessions sv)"
  proof -
    obtain a where "(a, r) \<in> set (sv_sessions sv)" using in_table by auto
    then show ?thesis using table_okD[OF sinvD(4)[OF inv], of a r] by (auto simp: phase_ok_def)
  qed
  ultimately show ?thesis using r k by (intro sinv_finally) simp_all
qed

lemma sinv_swap:
  assumes inv: "sinv n zero zero {} (add_mset t T) sv" and t: "task_slot t' = task_slot t" "task_session t' = task_session t"
    "task_claim t' = task_claim t" "open_identity t' = None" "task_wf sv t'"
  shows "sinv n zero zero {} (add_mset t' T) sv"
proof -
  obtain ys where ys: "mset ys = task_slot t" using ex_mset by blast
  have "sinv n (bump (task_claim t) zero) (bump (task_session t) zero) {} T (sv\<lparr>sv_slots := sv_slots sv @ ys\<rparr>)"
    by (rule sinv_remove[OF inv]) (simp add: ys)
  then have "sinv n zero zero {} (add_mset t' T) ((sv\<lparr>sv_slots := sv_slots sv @ ys\<rparr>)\<lparr>sv_slots := sv_slots sv\<rparr>)"
    using t ys task_wf_cong[of "sv\<lparr>sv_slots := sv_slots sv @ ys\<rparr>" sv t'] by (intro sinv_add) (auto simp: ident_free_def)
  then show ?thesis by simp
qed

lemma sinv_chunk_result:
  assumes inv: "sinv n zero zero {} (add_mset (ChunkJob i m r y) T) sv" and x: "chunk_result i m r y ok sv = (sv', t')"
  shows "sinv n zero zero {} (with_task T t') sv'" and "sv_tasks sv' = sv_tasks sv" and "sv_next_task sv' = sv_next_task sv"
proof -
  have r: "r < length (sv_objects sv)" and k: "obj_key (sv_objects sv ! r) = (i, pm_transfer_id m, pm_d_req_id m)"
    using sinvD(2)[OF inv] by (simp_all add: tasks_ok_def)
  have i: "pn_identity (sv_objects sv ! r) = i" using k by (simp add: obj_key_def)
  show "sinv n zero zero {} (with_task T t') sv'"
  proof (cases ok)
    case False
    let ?sv = "update_session r (\<lambda>p. p\<lparr>pn_state := FAILED\<rparr>) sv"
    have wf: "task_wf ?sv (ChunkDrain i m r y)" using r k by (simp add: obj_key_def)
    have "sinv n zero zero {} (add_mset (ChunkDrain i m r y) T) sv" using inv by (rule sinv_swap) (use r k in simp_all)
    then have "sinv n zero zero {r} (add_mset (ChunkDrain i m r y) T) ?sv" by (rule sinv_fail[OF _ r])
    then have "sinv n zero zero {} (add_mset (ChunkDrain i m r y) T) ?sv" using r by (intro sinv_counted[of n r]) simp_all
    then show ?thesis using x False by (auto simp: chunk_result_def)
  next
    case True
    let ?sv1 = "update_session r (\<lambda>p. p\<lparr>pn_completed_chunks := pn_completed_chunks p + 1\<rparr>) sv"
    let ?sv2 = "if pn_state (sv_objects ?sv1 ! r) = ACTIVE \<and> pn_completed_chunks (sv_objects ?sv1 ! r) = pn_total_chunks (sv_objects ?sv1 ! r)
                then complete_producer_session i r ?sv1 else ?sv1"
    have "sinv n zero (zero(r := zero r + 0)) (insert r {}) (add_mset (ChunkJob i m r y) T) ?sv1"
      by (rule sinv_update_session[OF inv r]) (simp_all add: obj_key_def)
    then have "sinv n zero zero {r} (add_mset (ChunkJob i m r y) T) ?sv1" by (simp add: fun_upd_idem)
    moreover have "phase_ok (sv_objects ?sv1 ! r)" if in_table: "r \<in> snd ` set (sv_sessions ?sv1)"
    proof -
      obtain a where "(a, r) \<in> set (sv_sessions sv)" using in_table by auto
      then have "phase_ok (sv_objects sv ! r)" using table_okD[OF sinvD(4)[OF inv], of a r] by simp
      then show ?thesis using r by (simp add: phase_ok_def)
    qed
    ultimately have "sinv n zero zero {} (add_mset (ChunkJob i m r y) T) ?sv1" using sinv_restore[of n zero zero "{r}" _ ?sv1 r "{}"] by blast
    then have inv2: "sinv n zero zero {} (add_mset (ChunkJob i m r y) T) ?sv2" using sinv_complete[of n zero zero "{}" _ ?sv1 r i] r i by simp
    have "obj_key (sv_objects ?sv2 ! r) = (i, pm_transfer_id m, pm_d_req_id m)" using sinvD(2)[OF inv2] by (simp add: tasks_ok_def)
    then have "sinv n zero zero {} T (chunk_finally i m r True (?sv2\<lparr>sv_slots := sv_slots ?sv2 @ [y]\<rparr>))" by (intro sinv_give_back[OF inv2]) simp_all
    then show ?thesis using x True by (auto simp: chunk_result_def Let_def sinv_respond)
  qed
  show "sv_tasks sv' = sv_tasks sv" "sv_next_task sv' = sv_next_task sv" using x by (auto simp: chunk_result_def Let_def split: if_splits)
qed

lemma sinv_chunk_drained:
  assumes inv: "sinv n zero zero {} (add_mset (ChunkDrain i m r y) T) sv"
  shows "sinv n zero zero {} T (chunk_drained i m r y sv)"
  using sinvD(2)[OF inv] sinv_give_back[OF inv, of y r i m] by (simp add: tasks_ok_def chunk_drained_def sinv_respond)

lemma abort_session_in_table: "abort_session i m sv = Some r \<Longrightarrow> r \<in> snd ` set (sv_sessions sv)"
  by (force simp: abort_session_def find_Some_iff split: option.splits dest: map_of_SomeD nth_mem)

lemma in_table_ref: "table_ok Z sv \<Longrightarrow> r \<in> snd ` set (sv_sessions sv) \<Longrightarrow> r < length (sv_objects sv)"
  using table_okD by fastforce

lemma sinv_abort_begin:
  assumes inv: "sinv n zero zero {} (add_mset (Begin i (Abort m)) T) sv" and x: "abort_begin i m sv = (sv', t')"
  shows "sinv n zero zero {} (with_task T t') sv'" and "sv_tasks sv' = sv_tasks sv" and "sv_next_task sv' = sv_next_task sv"
proof -
  have inv0: "sinv n zero zero {} T sv" using sinv_remove0[OF inv] by simp
  let ?sv1 = "sv\<lparr>sv_closed := dict_set (sv_closed sv) (abort_key m) (sv_clock sv + PENDING_REQ_EXPIRY_S)\<rparr>"
  let ?s = "abort_session i m ?sv1"
  have inv1: "sinv n zero zero {} T ?sv1" using inv0 by (rule sinv_same) simp_all
  have ref: "r < length (sv_objects sv)" if "?s = Some r" for r
    using in_table_ref[OF sinvD(4)[OF inv1] abort_session_in_table[OF that]] by simp
  have t': "t' = Some (AbortDrain i m ?s (pending_operations (abort_key m) sv') (sv_clock sv))"
    and frame: "sv_tasks sv' = sv_tasks sv" "sv_next_task sv' = sv_next_task sv" "length (sv_objects sv') = length (sv_objects sv)"
    using x by (auto simp: abort_begin_def Let_def split: option.splits)
  have "sinv n zero zero {} T sv'"
    using x inv1 ref sinv_cancel[OF inv1] by (auto simp: abort_begin_def Let_def obj_key_def split: option.splits if_splits)
  then show "sinv n zero zero {} (with_task T t') sv'"
    using ref frame(3) unfolding t' option.case by (intro sinv_add0) (auto simp: ident_free_def)
  show "sv_tasks sv' = sv_tasks sv" "sv_next_task sv' = sv_next_task sv" by (fact frame)+
qed

lemma sinv_cancel_all:
  assumes "sinv n zero zero {} T sv" "\<forall>(k, r) \<in> set ps. r < length (sv_objects sv) \<and> k = obj_key (sv_objects sv ! r)"
  shows "sinv n zero zero {} T (fold (\<lambda>(key, r) s. if session_key (sv_objects s ! r) = a then cancel_session key r s else s) ps sv)"
  using assms
proof (induction ps arbitrary: sv)
  case (Cons x ps)
  obtain k r where x: "x = (k, r)" by (cases x)
  have "sinv n zero zero {} T (cancel_session k r sv)" using sinv_cancel[OF Cons.prems(1)] Cons.prems(2) x by simp
  then show ?case using Cons x by (simp add: cancel_keys)
qed simp

lemma sinv_abort_end: "sinv n zero zero {} T sv \<Longrightarrow> sinv n zero zero {} T (abort_end i m ok sv)"
  unfolding abort_end_def using table_okD[of "{}" sv] sinvD(4)[of n zero zero "{}" T sv]
  by (intro sinv_respond sinv_cancel_all) auto

lemma abort_end_frame [simp]:
  "sv_tasks (abort_end i m ok sv) = sv_tasks sv" "sv_next_task (abort_end i m ok sv) = sv_next_task sv"
  "sv_clock (abort_end i m ok sv) = sv_clock sv" "sv_closed (abort_end i m ok sv) = sv_closed sv"
proof -
  have "sv_tasks (fold (\<lambda>(key, r) s. if P s r then cancel_session key r s else s) ps sv) = sv_tasks sv \<and>
        sv_next_task (fold (\<lambda>(key, r) s. if P s r then cancel_session key r s else s) ps sv) = sv_next_task sv \<and>
        sv_clock (fold (\<lambda>(key, r) s. if P s r then cancel_session key r s else s) ps sv) = sv_clock sv \<and>
        sv_closed (fold (\<lambda>(key, r) s. if P s r then cancel_session key r s else s) ps sv) = sv_closed sv" for P ps sv
    by (induction ps arbitrary: sv) auto
  then show "sv_tasks (abort_end i m ok sv) = sv_tasks sv" "sv_next_task (abort_end i m ok sv) = sv_next_task sv"
    "sv_clock (abort_end i m ok sv) = sv_clock sv" "sv_closed (abort_end i m ok sv) = sv_closed sv"
    by (simp_all add: abort_end_def)
qed

text \<open>What a step that only changes the sends keeps.\<close>

definition sends_step :: "nat \<Rightarrow> session_service \<Rightarrow> session_service \<Rightarrow> bool" where
  "sends_step n sv sv' \<longleftrightarrow> (\<forall>T. sinv n zero zero {} T sv \<longrightarrow> sinv n zero zero {} T sv') \<and> sv_tasks sv' = sv_tasks sv \<and>
     sv_next_task sv' = sv_next_task sv \<and> sv_clock sv' = sv_clock sv \<and> sv_closed sv' = sv_closed sv"

lemma sends_step_trans: "sends_step n a b \<Longrightarrow> sends_step n b c \<Longrightarrow> sends_step n a c"
  by (simp add: sends_step_def)

lemma sends_step_fold: "(\<And>x sv. x \<in> set xs \<Longrightarrow> sends_step n sv (f x sv)) \<Longrightarrow> sends_step n sv (fold f xs sv)"
proof (induction xs arbitrary: sv)
  case (Cons x xs)
  then show ?case using sends_step_trans[of n sv "f x sv"] by simp
qed (simp add: sends_step_def)

lemma sends_step_obtain:
  assumes "obtain_send tid sv = (sv1, r, c)" "\<And>s. st_sending (f s) = st_sending s"
  shows "sends_step n sv (update_send r f sv1)"
proof -
  have "sinv n zero zero {} T (update_send r f sv1)" if "sinv n zero zero {} T sv" for T
  proof -
    have "sinv n (zero(r := zero r + 0)) zero {} T (update_send r f sv1)"
      using sinv_obtain(1,2)[OF that assms(1)] assms(2) by (intro sinv_update_send) simp_all
    then show ?thesis by (simp add: fun_upd_idem)
  qed
  then show ?thesis using assms(1) by (auto simp: sends_step_def obtain_send_def split: option.splits)
qed

lemma sends_step_announce: "sends_step n sv (announce a sv)"
  by (auto simp: announce_def split: prod.splits intro!: sends_step_obtain)

lemma sends_step_publish: "sends_step n sv (publish p sv)"
proof -
  obtain q tid where p: "p = (q, tid)" by (cases p)
  obtain sv1 r c where o: "obtain_send tid sv = (sv1, r, c)" by (rule prod_cases3)
  have "sends_step n sv (update_send r (\<lambda>s. s\<lparr>st_p_req_id := q\<rparr>) sv1)" by (rule sends_step_obtain[OF o]) simp
  moreover have "sv1 = sv" "x = r" if "map_of (sv_send_meta sv) tid = Some x" for x using that o by (auto simp: obtain_send_def)
  ultimately show ?thesis using p o by (auto simp: publish_def sends_step_def split: option.splits)
qed

lemma sends_step_drop: "sends_step n sv (drop_transfer tid sv)"
  by (simp add: sends_step_def sinv_drop) (simp add: drop_transfer_def)

lemma sends_step_metadata: "sends_step n sv (apply_producer_metadata announced published dropped sv)"
  unfolding apply_producer_metadata_def
  by (rule sends_step_trans[OF sends_step_trans[OF sends_step_fold sends_step_fold] sends_step_fold])
    (rule sends_step_announce sends_step_publish sends_step_drop)+

lemma sends_step_sweep_one: "sends_step n sv (sweep_one x sv)"
proof (cases x)
  case (Pair tid r)
  have "sinv n zero zero {} T sv \<Longrightarrow> sinv n zero zero {} T (sweep_one x sv)" for T
    by (erule sinv_same) (auto simp: sweep_one_def Let_def dict_pop_def split: prod.splits)
  then show ?thesis using Pair by (simp add: sends_step_def) (simp add: sweep_one_def Let_def)
qed

lemma sends_step_sweep: "sends_step n sv (sweep_sends sv)"
  unfolding sweep_sends_def by (rule sends_step_fold) (rule sends_step_sweep_one)

section \<open>The invariant holds in every reachable state\<close>

lemma mset_dict_pop: "distinct (map fst ps) \<Longrightarrow> (k, t) \<in> set ps \<Longrightarrow> mset (map snd ps) = add_mset t (mset (map snd (dict_pop ps k)))"
proof (induction ps)
  case (Cons x ps)
  obtain k' t' where x: "x = (k', t')" by (cases x)
  show ?case
  proof (cases "k' = k")
    case True
    then have "t' = t" "dict_pop ps k = ps" using Cons.prems x by (force simp: dict_pop_def intro!: filter_True)+
    then show ?thesis using True x by (simp add: dict_pop_def)
  next
    case False
    then show ?thesis using Cons x by (simp add: dict_pop_def)
  qed
qed simp

lemma mset_dict_set:
  "distinct (map fst ps) \<Longrightarrow> k \<in> fst ` set ps \<Longrightarrow> mset (map snd (dict_set ps k t)) = add_mset t (mset (map snd (dict_pop ps k)))"
proof (induction ps)
  case (Cons x ps)
  obtain k' t' where x: "x = (k', t')" by (cases x)
  show ?case
  proof (cases "k' = k")
    case True
    then have "dict_pop ps k = ps" using Cons.prems x by (force simp: dict_pop_def intro!: filter_True)
    then show ?thesis using True x by (simp add: dict_pop_def)
  next
    case False
    then show ?thesis using Cons x by (simp add: dict_pop_def)
  qed
qed simp

lemma session_inv_task:
  assumes inv: "session_inv n sv" and k: "(k, t) \<in> set (sv_tasks sv)"
    and step: "\<And>T. sinv n zero zero {} (add_mset t T) sv \<Longrightarrow> sinv n zero zero {} (with_task T t') sv'"
    and frame: "sv_tasks sv' = sv_tasks sv" "sv_next_task sv' = sv_next_task sv"
  shows "session_inv n (set_task k t' sv')"
proof -
  have d: "distinct (map fst (sv_tasks sv))" and lt: "\<forall>j \<in> fst ` set (sv_tasks sv). j < sv_next_task sv"
    and s: "sinv n zero zero {} (mset (map snd (sv_tasks sv))) sv" using inv by (simp_all add: session_inv_def)
  let ?T = "mset (map snd (dict_pop (sv_tasks sv) k))"
  have kin: "k \<in> fst ` set (sv_tasks sv)" using k by force
  have "sinv n zero zero {} (with_task ?T t') sv'" using s step mset_dict_pop[OF d k] by simp
  then have "sinv n zero zero {} (with_task ?T t') (set_task k t' sv')" by (rule sinv_set_task)
  moreover have "mset (map snd (sv_tasks (set_task k t' sv'))) = with_task ?T t'"
    using mset_dict_set[OF d kin] frame by (simp add: set_task_def split: option.splits)
  moreover have "distinct (map fst (sv_tasks (set_task k t' sv')))"
    using d frame by (simp add: set_task_def distinct_dict_pop distinct_dict_set split: option.splits)
  moreover have "\<forall>j \<in> fst ` set (sv_tasks (set_task k t' sv')). j < sv_next_task (set_task k t' sv')"
  proof -
    have "fst ` set (sv_tasks (set_task k t' sv')) \<subseteq> fst ` set (sv_tasks sv)"
      using kin frame(1) by (cases t') (simp_all add: set_task_def insert_absorb)
    moreover have "sv_next_task (set_task k t' sv') = sv_next_task sv" using frame(2) by (simp add: set_task_def)
    ultimately show ?thesis using lt by (metis subsetD)
  qed
  ultimately show ?thesis by (simp add: session_inv_def)
qed

lemma session_inv_sends: "session_inv n sv \<Longrightarrow> sends_step n sv sv' \<Longrightarrow> session_inv n sv'"
  by (simp add: session_inv_def sends_step_def)

lemma session_inv_dispatch:
  assumes inv: "session_inv n sv" and fresh: "ident_free (Begin i q) (mset (map snd (sv_tasks sv))) sv"
  shows "session_inv n (dispatch_producer i q sv)"
proof -
  let ?T = "mset (map snd (sv_tasks sv))"
  have d: "distinct (map fst (sv_tasks sv))" and lt: "\<forall>j \<in> fst ` set (sv_tasks sv). j < sv_next_task sv"
    and s: "sinv n zero zero {} ?T sv" using inv by (simp_all add: session_inv_def)
  have "sinv n zero zero {} (add_mset (Begin i q) ?T) sv" using s fresh by (intro sinv_add0) simp_all
  then have "sinv n zero zero {} (add_mset (Begin i q) ?T) (dispatch_producer i q sv)"
    by (rule sinv_same) (simp_all add: dispatch_producer_def)
  then show ?thesis using d lt by (auto simp: session_inv_def dispatch_producer_def less_Suc_eq)
qed

lemma fresh_identity_free:
  assumes "fresh_identity i sv"
  shows "ident_free (Begin i (SessionOpen m)) (mset (map snd (sv_tasks sv))) sv"
proof -
  have "tasks_with open_identity i (mset (map snd (sv_tasks sv))) = 0"
    using assms by (intro tasks_with_0) (auto simp: fresh_identity_def)
  then show ?thesis using assms by (simp add: fresh_identity_def ident_free_def)
qed

lemma sinv_open_claim_frame:
  "open_claim i m r c sv = (sv', t') \<Longrightarrow> sv_tasks sv' = sv_tasks sv \<and> sv_next_task sv' = sv_next_task sv"
  by (auto simp: open_claim_def Let_def split: sum.splits if_splits)

text \<open>One lemma per task, in the form the rule induction uses.\<close>

definition task_step :: "nat \<Rightarrow> session_task \<Rightarrow> session_service \<Rightarrow> session_service \<times> session_task option \<Rightarrow> bool" where
  "task_step n t sv x \<longleftrightarrow> (\<forall>T. sinv n zero zero {} (add_mset t T) sv \<longrightarrow> sinv n zero zero {} (with_task T (snd x)) (fst x)) \<and>
     sv_tasks (fst x) = sv_tasks sv \<and> sv_next_task (fst x) = sv_next_task sv"

lemma session_inv_run: "session_inv n sv \<Longrightarrow> (k, t) \<in> set (sv_tasks sv) \<Longrightarrow> task_step n t sv x \<Longrightarrow> session_inv n (run_task k x)"
  by (rule session_inv_task) (auto simp: task_step_def)

lemma task_stepI:
  "(\<And>sv' t' T. x = (sv', t') \<Longrightarrow> sinv n zero zero {} (add_mset t T) sv \<Longrightarrow> sinv n zero zero {} (with_task T t') sv') \<Longrightarrow>
   sv_tasks (fst x) = sv_tasks sv \<and> sv_next_task (fst x) = sv_next_task sv \<Longrightarrow> task_step n t sv x"
  by (cases x) (simp add: task_step_def)

lemma frames:
  "sv_tasks (fst (open_begin i m sv)) = sv_tasks sv \<and> sv_next_task (fst (open_begin i m sv)) = sv_next_task sv"
  "sv_tasks (fst (open_claim i m r c sv)) = sv_tasks sv \<and> sv_next_task (fst (open_claim i m r c sv)) = sv_next_task sv"
  "sv_tasks (fst (chunk_begin i p sv)) = sv_tasks sv \<and> sv_next_task (fst (chunk_begin i p sv)) = sv_next_task sv"
  "sv_tasks (fst (chunk_slot i p r x sv)) = sv_tasks sv \<and> sv_next_task (fst (chunk_slot i p r x sv)) = sv_next_task sv"
  "sv_tasks (fst (chunk_result i p r x ok sv)) = sv_tasks sv \<and> sv_next_task (fst (chunk_result i p r x ok sv)) = sv_next_task sv"
  "sv_tasks (fst (abort_begin i a sv)) = sv_tasks sv \<and> sv_next_task (fst (abort_begin i a sv)) = sv_next_task sv"
  "sv_tasks (chunk_drained i p r x sv) = sv_tasks sv \<and> sv_next_task (chunk_drained i p r x sv) = sv_next_task sv"
  by (auto simp: open_begin_def obtain_send_def open_claim_def chunk_begin_def chunk_slot_def chunk_result_def abort_begin_def
      chunk_drained_def Let_def split: option.splits sum.splits)

lemma task_steps:
  "task_step n (Begin i (SessionOpen m)) sv (open_begin i m sv)"
  "task_step n (OpenWait i m r c t) sv (open_claim i m r c sv)"
  "task_step n (OpenWait i m r c t) sv (open_failed i m r c False sv, None)"
  "task_step n (OpenJob i m r c) sv (open_done i m r c res sv, None)"
  "task_step n (Begin i (ChunkPull p)) sv (chunk_begin i p sv)"
  "sv_slots sv = x # xs \<Longrightarrow> task_step n (ChunkSlot i p r) sv (chunk_slot i p r x (sv\<lparr>sv_slots := xs\<rparr>))"
  "task_step n (ChunkJob i p r x) sv (chunk_result i p r x ok sv)"
  "task_step n (ChunkDrain i p r x) sv (chunk_drained i p r x sv, None)"
  "task_step n (Begin i (Abort a)) sv (abort_begin i a sv)"
  "task_step n (AbortDrain i a s pend t) sv (abort_end i a ok sv, None)"
proof -
  show "task_step n (Begin i (SessionOpen m)) sv (open_begin i m sv)"
    by (rule task_stepI[OF sinv_open_begin(1) frames(1)])
  show "task_step n (OpenWait i m r c t) sv (open_claim i m r c sv)"
    by (rule task_stepI[OF sinv_open_claim frames(2)])
  have "sinv n zero zero {} T (open_failed i m r c False sv)" if "sinv n zero zero {} (add_mset (OpenWait i m r c t) T) sv" for T
    using sinv_remove0[OF that] sinvD(2)[OF that] by (intro sinv_open_failed) (simp_all add: tasks_ok_def)
  then show "task_step n (OpenWait i m r c t) sv (open_failed i m r c False sv, None)" by (simp add: task_step_def)
  show "task_step n (OpenJob i m r c) sv (open_done i m r c res sv, None)" by (simp add: task_step_def sinv_open_done)
  show "task_step n (Begin i (ChunkPull p)) sv (chunk_begin i p sv)"
    by (rule task_stepI[OF sinv_chunk_begin(1) frames(3)])
  show "task_step n (ChunkSlot i p r) sv (chunk_slot i p r x (sv\<lparr>sv_slots := xs\<rparr>))" if "sv_slots sv = x # xs"
    using frames(4)[of i p r x "sv\<lparr>sv_slots := xs\<rparr>"] by (intro task_stepI[OF sinv_chunk_slot(1)[OF _ that]]) simp_all
  show "task_step n (ChunkJob i p r x) sv (chunk_result i p r x ok sv)"
    by (rule task_stepI[OF sinv_chunk_result(1) frames(5)])
  show "task_step n (ChunkDrain i p r x) sv (chunk_drained i p r x sv, None)"
    using frames(7)[of i p r x sv] by (simp add: task_step_def sinv_chunk_drained)
  show "task_step n (Begin i (Abort a)) sv (abort_begin i a sv)"
    by (rule task_stepI[OF sinv_abort_begin(1) frames(6)])
  have "sinv n zero zero {} T (abort_end i a ok sv)" if "sinv n zero zero {} (add_mset (AbortDrain i a s pend t) T) sv" for T
    using sinv_remove0[OF that] by (intro sinv_abort_end) simp
  then show "task_step n (AbortDrain i a s pend t) sv (abort_end i a ok sv, None)" by (simp add: task_step_def)
qed

lemma session_inv_end: "session_inv n sv \<Longrightarrow> (k, t) \<in> set (sv_tasks sv) \<Longrightarrow> task_step n t sv (sv', None) \<Longrightarrow> session_inv n (set_task k None sv')"
  using session_inv_run[of n sv k t "(sv', None)"] by simp

lemma session_inv_tick: "session_inv n sv \<Longrightarrow> session_inv n (sv\<lparr>sv_clock := t\<rparr>)"
  using sinv_same[of n zero zero "{}" "mset (map snd (sv_tasks sv))" sv "sv\<lparr>sv_clock := t\<rparr>"] by (simp add: session_inv_def)

lemma session_step_inv: "session_step sv sv' \<Longrightarrow> session_inv n sv \<Longrightarrow> session_inv n sv'"
proof (induction rule: session_step.induct)
  case step_tick
  then show ?case by (simp add: session_inv_tick)
next
  case step_metadata
  then show ?case by (rule session_inv_sends[OF _ sends_step_metadata])
next
  case step_sweep
  then show ?case by (rule session_inv_sends[OF _ sends_step_sweep])
next
  case step_open
  then show ?case by (intro session_inv_dispatch fresh_identity_free)
next
  case step_pull
  then show ?case by (intro session_inv_dispatch) (simp_all add: ident_free_def)
next
  case step_abort
  then show ?case by (intro session_inv_dispatch) (simp_all add: ident_free_def)
qed (rule session_inv_run session_inv_end, assumption, assumption, rule task_steps, assumption?)+

interpretation sess: inductive_invariant "session_init n" session_step "session_inv n" for n
  by unfold_locales (blast intro: session_init_inv session_step_inv)+

section \<open>What the producer guarantees\<close>

definition slot_holder :: "session_service \<Rightarrow> nat \<Rightarrow> nat \<Rightarrow> bool" where
  "slot_holder sv x k \<longleftrightarrow> (\<exists>(j, t) \<in> set (sv_tasks sv). j = k \<and> x \<in># task_slot t)"

lemma count_held: "count (\<Sum>\<^sub># (image_mset task_slot T)) x = size (filter_mset (\<lambda>t. x \<in># task_slot t) T)"
proof (induction T)
  case (add t T)
  have "count (task_slot t) x = (if x \<in># task_slot t then 1 else 0)" by (cases t) auto
  then show ?case using add by simp
qed simp

lemma held_entries: "size (filter_mset (\<lambda>t. x \<in># task_slot t) (mset (map snd ps))) = length (filter (\<lambda>(_, t). x \<in># task_slot t) ps)"
  by (induction ps) (auto split: prod.splits)

lemma slots_count:
  assumes "session_inv n sv" "x < n"
  shows "count (mset (sv_slots sv)) x + length (filter (\<lambda>(_, t). x \<in># task_slot t) (sv_tasks sv)) = 1"
proof -
  have "mset (sv_slots sv) + \<Sum>\<^sub># (image_mset task_slot (mset (map snd (sv_tasks sv)))) = mset [0..<n]"
    using assms(1) by (simp add: session_inv_def sinv_def slots_ok_def)
  then have "count (mset (sv_slots sv) + \<Sum>\<^sub># (image_mset task_slot (mset (map snd (sv_tasks sv))))) x = count (mset [0..<n]) x" by simp
  moreover have "count (mset [0..<n]) x = 1" using assms(2) distinct_count_atmost_1[of "[0..<n]"] by simp
  ultimately show ?thesis unfolding count_union count_held held_entries by simp
qed

text \<open>
  C6: In every reachable state of the session helper each of the \<open>n\<close> sender slots is either in the queue of free
  slots and used by no task, or out of the queue and used by exactly one chunk task that encodes into it or
  drains it; the queue has no duplicates.
\<close>

theorem sender_slots_exclusive:
  assumes "reach (session_init n) session_step sv" "x < n"
  shows "distinct (sv_slots sv) \<and> (x \<in> set (sv_slots sv) \<longrightarrow> (\<forall>k. \<not> slot_holder sv x k)) \<and>
         (x \<notin> set (sv_slots sv) \<longrightarrow> (\<exists>!k. slot_holder sv x k))"
proof -
  have inv: "session_inv n sv" using sess.reach_inv[OF assms(1)] .
  let ?h = "filter (\<lambda>(_, t). x \<in># task_slot t) (sv_tasks sv)"
  have holder: "slot_holder sv x k \<longleftrightarrow> k \<in> fst ` set ?h" for k by (force simp: slot_holder_def)
  have c: "count (mset (sv_slots sv)) x + length ?h = 1" by (rule slots_count[OF inv assms(2)])
  have "mset (sv_slots sv) \<subseteq># mset [0..<n]"
    using inv by (metis mset_subset_eq_add_left session_inv_def sinv_def slots_ok_def)
  then have "count (mset (sv_slots sv)) a \<le> count (mset [0..<n]) a" for a by (rule mset_subset_eq_count)
  moreover have "count (mset [0..<n]) a \<le> 1" for a
    using distinct_count_atmost_1[THEN iffD1, OF distinct_upt[of 0 n], rule_format, of a] by (simp split: if_splits)
  ultimately have one: "count (mset (sv_slots sv)) a \<le> 1" for a using le_trans by blast
  have "count (mset (sv_slots sv)) a = (if a \<in> set (sv_slots sv) then 1 else 0)" for a
  proof (cases "a \<in> set (sv_slots sv)")
    case True
    then have "0 < count (mset (sv_slots sv)) a" by simp
    then have "count (mset (sv_slots sv)) a = 1" using one[of a] by linarith
    then show ?thesis by (simp only: True if_True)
  qed (simp add: count_mset_0_iff)
  then have "distinct (sv_slots sv)" unfolding distinct_count_atmost_1 by blast
  moreover have "\<forall>k. \<not> slot_holder sv x k" if "x \<in> set (sv_slots sv)"
  proof -
    have "0 < count (mset (sv_slots sv)) x" using that by simp
    then have "?h = []" using c by (cases ?h) simp_all
    then show ?thesis by (simp only: holder list.set(1) image_empty empty_iff not_False_eq_True simp_thms)
  qed
  moreover have "\<exists>!k. slot_holder sv x k" if "x \<notin> set (sv_slots sv)"
  proof -
    have "count (mset (sv_slots sv)) x = 0" using that by (simp add: count_mset_0_iff)
    then have "length ?h = 1" using c by linarith
    then obtain y where "?h = [y]" by (auto simp: length_Suc_conv)
    then have "slot_holder sv x k \<longleftrightarrow> k = fst y" for k by (simp add: holder)
    then show ?thesis by simp
  qed
  ultimately show ?thesis by blast
qed

lemma tasks_with_list: "tasks_with f x (image_mset snd (mset ps)) = int (length (filter (\<lambda>(_, t). f t = Some x) ps))"
  unfolding tasks_with_def by (induction ps) (auto split: prod.splits)

text \<open>
  C15: In every reachable state of the session helper the counters are exact: a transfer's \<open>sending\<close> is the number of opens
  under way for it plus the number of its sessions in the table, so it is never negative; a session's \<open>inflight_chunks\<close> is the
  number of tasks serving its chunks; and a session of the table is active, or cancelled or failed with a chunk still in flight
  whose end will take it out.
\<close>

theorem session_counters_exact:
  assumes "reach (session_init n) session_step sv"
  shows "(r < length (sv_sends sv) \<longrightarrow> st_sending (sv_sends sv ! r) =
            int (length (filter (\<lambda>(_, t). task_claim t = Some r) (sv_tasks sv))) +
            int (length (filter (\<lambda>(_, s). pn_send_state (sv_objects sv ! s) = r) (sv_sessions sv)))) \<and>
         (s < length (sv_objects sv) \<longrightarrow> pn_inflight_chunks (sv_objects sv ! s) =
            int (length (filter (\<lambda>(_, t). task_session t = Some s) (sv_tasks sv)))) \<and>
         ((k, s) \<in> set (sv_sessions sv) \<longrightarrow> pn_state (sv_objects sv ! s) = ACTIVE \<or>
            pn_state (sv_objects sv ! s) \<in> {CANCELLED, FAILED} \<and> (\<exists>(_, t) \<in> set (sv_tasks sv). task_session t = Some s))"
proof -
  have inv: "sinv n zero zero {} (mset (map snd (sv_tasks sv))) sv" using sess.reach_inv[OF assms] by (simp add: session_inv_def)
  have fl: "pn_inflight_chunks (sv_objects sv ! s) = int (length (filter (\<lambda>(_, t). task_session t = Some s) (sv_tasks sv)))"
    if "s < length (sv_objects sv)" using sinvD(5)[OF inv] that by (simp add: inflight_ok_def tasks_with_list)
  have "\<exists>(_, t) \<in> set (sv_tasks sv). task_session t = Some s" if "(k, s) \<in> set (sv_sessions sv)" "0 < pn_inflight_chunks (sv_objects sv ! s)"
  proof -
    have "filter (\<lambda>(_, t). task_session t = Some s) (sv_tasks sv) \<noteq> []" using that fl table_okD[OF sinvD(4)[OF inv]] by fastforce
    then show ?thesis by (auto simp: filter_empty_conv)
  qed
  then show ?thesis
    using sinvD(6)[OF inv] fl table_okD[OF sinvD(4)[OF inv], of k s]
    by (auto simp: sending_ok_def sess_claims_def tasks_with_list phase_ok_def)
qed

lemma sweep_events:
  "\<exists>es. sv_events (fold sweep_one ps sv) = sv_events sv @ es \<and>
     (\<forall>q. SendingExpired q \<in> set es \<longrightarrow> (\<exists>(tid, r) \<in> set ps. st_p_req_id (sv_sends sv ! r) = q \<and> q \<noteq> [] \<and>
        st_sending (sv_sends sv ! r) = 0 \<and> (\<exists>t. st_expire_time (sv_sends sv ! r) = Some t \<and> t < sv_clock sv)))"
proof (induction ps arbitrary: sv)
  case (Cons x ps)
  obtain tid r where x: "x = (tid, r)" by (cases x)
  let ?sv = "sweep_one x sv"
  have same: "sv_sends ?sv = sv_sends sv" "sv_clock ?sv = sv_clock sv" by (simp_all add: sweep_one_def x Let_def)
  obtain es where es: "sv_events (fold sweep_one ps ?sv) = sv_events ?sv @ es"
    "\<forall>q. SendingExpired q \<in> set es \<longrightarrow> (\<exists>(tid, r) \<in> set ps. st_p_req_id (sv_sends sv ! r) = q \<and> q \<noteq> [] \<and>
        st_sending (sv_sends sv ! r) = 0 \<and> (\<exists>t. st_expire_time (sv_sends sv ! r) = Some t \<and> t < sv_clock sv))"
    using Cons.IH[of ?sv] unfolding same by blast
  have one: "sv_events ?sv = sv_events sv \<or> sv_events ?sv = sv_events sv @ [SendingExpired (st_p_req_id (sv_sends sv ! r))] \<and>
      st_p_req_id (sv_sends sv ! r) \<noteq> [] \<and> st_sending (sv_sends sv ! r) = 0 \<and>
      (\<exists>t. st_expire_time (sv_sends sv ! r) = Some t \<and> t < sv_clock sv)"
    by (simp add: sweep_one_def x Let_def split: option.splits)
  show ?case
  proof (cases "sv_events ?sv = sv_events sv")
    case True
    then show ?thesis using es by (intro exI[of _ es]) auto
  next
    case False
    then show ?thesis using es one by (intro exI[of _ "SendingExpired (st_p_req_id (sv_sends sv ! r)) # es"]) (auto simp: x)
  qed
qed simp

text \<open>
  When the sweep of a reachable state tells the engine that a transfer expired, so that its blocks are freed, that transfer's
  deadline has passed, no open of it is being set up and no session of it is in the table: no chunk is being read from those blocks.
\<close>

lemma sweep_frees_idle:
  assumes "reach (session_init n) session_step sv" "sv_events (sweep_sends sv) = sv_events sv @ es" "SendingExpired q \<in> set es"
  shows "\<exists>(tid, r) \<in> set (sv_send_meta sv). st_p_req_id (sv_sends sv ! r) = q \<and>
    (\<exists>t. st_expire_time (sv_sends sv ! r) = Some t \<and> t < sv_clock sv) \<and>
    (\<forall>(_, t) \<in> set (sv_tasks sv). task_claim t \<noteq> Some r) \<and> (\<forall>(_, s) \<in> set (sv_sessions sv). pn_send_state (sv_objects sv ! s) \<noteq> r)"
proof -
  have inv: "sinv n zero zero {} (mset (map snd (sv_tasks sv))) sv" using sess.reach_inv[OF assms(1)] by (simp add: session_inv_def)
  obtain es' where "sv_events (sweep_sends sv) = sv_events sv @ es'"
    "\<forall>q. SendingExpired q \<in> set es' \<longrightarrow> (\<exists>(tid, r) \<in> set (sv_send_meta sv). st_p_req_id (sv_sends sv ! r) = q \<and> q \<noteq> [] \<and>
        st_sending (sv_sends sv ! r) = 0 \<and> (\<exists>t. st_expire_time (sv_sends sv ! r) = Some t \<and> t < sv_clock sv))"
    using sweep_events[of "sv_send_meta sv" sv] unfolding sweep_sends_def by blast
  then obtain tid r where r: "(tid, r) \<in> set (sv_send_meta sv)" "st_p_req_id (sv_sends sv ! r) = q" "st_sending (sv_sends sv ! r) = 0"
    "\<exists>t. st_expire_time (sv_sends sv ! r) = Some t \<and> t < sv_clock sv" using assms(2,3) by auto
  have "r < length (sv_sends sv)" using sinvD(7)[OF inv] r(1) by (force simp: meta_ok_def)
  then have "int (length (filter (\<lambda>(_, t). task_claim t = Some r) (sv_tasks sv))) +
      int (length (filter (\<lambda>(_, s). pn_send_state (sv_objects sv ! s) = r) (sv_sessions sv))) = 0"
    using sinvD(6)[OF inv] r(3) by (simp add: sending_ok_def sess_claims_def tasks_with_list)
  then have "length (filter (\<lambda>(_, t). task_claim t = Some r) (sv_tasks sv)) = 0"
    "length (filter (\<lambda>(_, s). pn_send_state (sv_objects sv ! s) = r) (sv_sessions sv)) = 0" by linarith+
  then show ?thesis using r by (intro bexI[of _ "(tid, r)"]) (auto simp: filter_empty_conv)
qed

end
