(* ===== verification/Session_Abort.thy ===== *)
theory Session_Abort
  imports Session_Producer
begin

text \<open>
  Aborts of compression sessions (\<open>_abort_producer\<close> of \<^verbatim>\<open>mooncake/session_process.py\<close>) and runs of the producer.
  An acknowledged abort promises the consumer that its buffers are no longer written: the theory shows that when the
  helper answers without an error no encoding of the aborted operation is under way and none starts as long as the
  operation is on the list of closed ones.  A run of two consumers of one transfer shows when the blocks are reported as sent.
\<close>

section \<open>Encodings of an operation\<close>

fun encodes :: "op_key \<Rightarrow> session_task \<Rightarrow> bool" where
  "encodes a (ChunkJob i p r x) \<longleftrightarrow> pull_key p = a"
| "encodes a _ \<longleftrightarrow> False"

definition closed_until :: "op_key \<Rightarrow> rat \<Rightarrow> session_service \<Rightarrow> bool" where
  "closed_until a b sv \<longleftrightarrow> (case map_of (sv_closed sv) a of None \<Rightarrow> False | Some x \<Rightarrow> b \<le> x)"

text \<open>The operation \<open>a\<close> is closed until \<open>b\<close>, and only tasks in \<open>J\<close> may still encode for it.\<close>

definition quiet_but :: "op_key \<Rightarrow> rat \<Rightarrow> nat set \<Rightarrow> session_service \<Rightarrow> bool" where
  "quiet_but a b J sv \<longleftrightarrow> closed_until a b sv \<and> (\<forall>(j, t) \<in> set (sv_tasks sv). encodes a t \<longrightarrow> j \<in> J)"

definition closed_ext :: "session_service \<Rightarrow> session_service \<Rightarrow> bool" where
  "closed_ext sv sv' \<longleftrightarrow> sv_clock sv' = sv_clock sv \<and> sv_tasks sv' = sv_tasks sv \<and>
     (\<forall>a. map_of (sv_closed sv') a = map_of (sv_closed sv) a \<or> map_of (sv_closed sv') a = Some (sv_clock sv + PENDING_REQ_EXPIRY_S))"

lemma closed_ext_same: "sv_clock sv' = sv_clock sv \<Longrightarrow> sv_tasks sv' = sv_tasks sv \<Longrightarrow> sv_closed sv' = sv_closed sv \<Longrightarrow> closed_ext sv sv'"
  by (simp add: closed_ext_def)

lemma closed_ext_trans: "closed_ext a b \<Longrightarrow> closed_ext b c \<Longrightarrow> closed_ext a c"
  by (simp add: closed_ext_def) metis

lemma closed_ext_complete: "closed_ext sv (complete_producer_session i r sv)"
  by (auto simp: closed_ext_def complete_producer_session_def pop_session_def update_session_def Let_def)

lemma closed_ext_open_done: "closed_ext sv (open_done i m r c res sv)"
proof (cases res)
  case None
  then show ?thesis by (simp add: open_done_def closed_ext_same)
next
  case (Some x)
  have "closed_ext sv (respond i y (if b then complete_producer_session i s sv1 else sv1))"
    if "sv_clock sv1 = sv_clock sv" "sv_tasks sv1 = sv_tasks sv" "sv_closed sv1 = sv_closed sv" for sv1 s y b
    using closed_ext_complete[of sv1 i s] that by (simp add: closed_ext_def)
  then show ?thesis unfolding open_done_def Some Let_def option.case by simp
qed

lemma closed_ext_chunk_result: "closed_ext sv (fst (chunk_result i m r x ok sv))"
proof -
  have "closed_ext sv (respond i y (chunk_finally i m r True ((if b then complete_producer_session i r sv1 else sv1)\<lparr>sv_slots := z\<rparr>)))"
    if "sv_clock sv1 = sv_clock sv" "sv_tasks sv1 = sv_tasks sv" "sv_closed sv1 = sv_closed sv" for sv1 y z b
    using closed_ext_complete[of sv1 i r] that by (simp add: closed_ext_def)
  then show ?thesis by (simp add: chunk_result_def Let_def) (simp add: closed_ext_same)
qed

lemma closed_ext_abort_begin: "closed_ext sv (fst (abort_begin i m sv))"
  by (auto simp: closed_ext_def abort_begin_def Let_def split: option.splits)

lemma obtain_send_same:
  "sv_clock (fst (obtain_send tid sv)) = sv_clock sv" "sv_tasks (fst (obtain_send tid sv)) = sv_tasks sv"
  "sv_closed (fst (obtain_send tid sv)) = sv_closed sv"
  by (auto simp: obtain_send_def split: option.splits)

lemma closed_ext_open_begin: "closed_ext sv (fst (open_begin i m sv))"
  using obtain_send_same[of "snd (open_target m)" sv]
  by (intro closed_ext_same) (auto simp: open_begin_def split: prod.splits)

lemma closed_ext_others:
  "closed_ext sv (fst (open_claim i m r c sv))" "closed_ext sv (open_failed i m r c b sv)" "closed_ext sv (fst (chunk_begin i p sv))"
  "closed_ext sv (fst (chunk_slot i p r x (sv\<lparr>sv_slots := xs\<rparr>)))" "closed_ext sv (chunk_drained i p r x sv)"
  "closed_ext sv (abort_end i a ok sv)"
  by (intro closed_ext_same; auto simp: open_claim_def chunk_begin_def chunk_slot_def chunk_drained_def Let_def
      split: sum.splits option.splits)+

lemma closed_ext_sends: "sends_step n sv sv' \<Longrightarrow> closed_ext sv sv'"
  by (auto simp: sends_step_def intro: closed_ext_same)

lemmas closed_exts = closed_ext_open_done closed_ext_chunk_result closed_ext_abort_begin closed_ext_open_begin closed_ext_others

lemma closed_until_ext:
  "closed_ext sv sv' \<Longrightarrow> closed_until a b sv \<Longrightarrow> b \<le> sv_clock sv + PENDING_REQ_EXPIRY_S \<Longrightarrow> closed_until a b sv'"
  unfolding closed_ext_def closed_until_def by (metis option.case(2))

lemma set_task_frame [simp]:
  "sv_clock (set_task k t sv) = sv_clock sv" "sv_closed (set_task k t sv) = sv_closed sv"
  by (simp_all add: set_task_def)

lemma in_set_task: "(j, u) \<in> set (sv_tasks (set_task k t sv)) \<Longrightarrow> (j, u) \<in> set (sv_tasks sv) \<or> j = k \<and> t = Some u"
  by (auto simp: set_task_def dict_pop_def split: option.splits dest!: set_dict_set_sub)

lemma quiet_set_task:
  assumes "quiet_but a b J sv" "closed_ext sv sv'" "b \<le> sv_clock sv + PENDING_REQ_EXPIRY_S" "\<And>u. t = Some u \<Longrightarrow> encodes a u \<Longrightarrow> k \<in> J"
  shows "quiet_but a b J (set_task k t sv')"
proof -
  have "closed_until a b (set_task k t sv')"
    using closed_until_ext[OF assms(2) _ assms(3), of a] assms(1) by (simp add: quiet_but_def closed_until_def)
  moreover have "j \<in> J" if "(j, u) \<in> set (sv_tasks (set_task k t sv'))" "encodes a u" for j u
    using in_set_task[OF that(1)] that(2) assms(1,2,4) by (auto simp: quiet_but_def closed_ext_def)
  ultimately show ?thesis by (auto simp: quiet_but_def)
qed

text \<open>Only a task that was given a slot starts an encoding, and not for a closed operation.\<close>

lemma new_encoding:
  "snd (open_begin i m sv) = Some u \<Longrightarrow> \<not> encodes a u" "snd (open_claim i m r c sv) = Some u \<Longrightarrow> \<not> encodes a u"
  "snd (chunk_begin i p sv) = Some u \<Longrightarrow> \<not> encodes a u" "snd (chunk_result i p r x ok sv) = Some u \<Longrightarrow> \<not> encodes a u"
  "snd (abort_begin i ab sv) = Some u \<Longrightarrow> \<not> encodes a u"
  "snd (chunk_slot i p r x sv) = Some u \<Longrightarrow> encodes a u \<Longrightarrow> map_of (sv_closed sv) a = None"
  by (auto simp: open_begin_def open_claim_def chunk_begin_def chunk_result_def abort_begin_def chunk_slot_def is_closed_def Let_def
      split: if_splits sum.splits option.splits prod.splits)

lemma quiet_ext:
  "quiet_but a b J sv \<Longrightarrow> closed_ext sv sv' \<Longrightarrow> b \<le> sv_clock sv + PENDING_REQ_EXPIRY_S \<Longrightarrow> quiet_but a b J sv'"
  using closed_until_ext[of sv sv' a b] by (simp add: quiet_but_def) (simp add: closed_ext_def)

lemma map_of_filter_kept: "map_of ps k = Some x \<Longrightarrow> P (k, x) \<Longrightarrow> map_of (filter P ps) k = Some x"
  by (induction ps) (auto split: if_splits)

lemma quiet_dispatch:
  assumes "quiet_but a b J sv" "sv_clock sv < b"
  shows "quiet_but a b J (dispatch_producer i q sv)"
proof -
  obtain x where x: "map_of (sv_closed sv) a = Some x" "b \<le> x"
    using assms(1) by (auto simp: quiet_but_def closed_until_def split: option.splits)
  have "map_of (filter (\<lambda>(_, expiry). sv_clock sv < expiry) (sv_closed sv)) a = Some x"
    using x assms(2) by (intro map_of_filter_kept) auto
  then have "closed_until a b (dispatch_producer i q sv)" using x(2) by (simp add: closed_until_def dispatch_producer_def)
  moreover have "\<forall>(j, t) \<in> set (sv_tasks (dispatch_producer i q sv)). encodes a t \<longrightarrow> j \<in> J"
    using assms(1) by (simp add: quiet_but_def dispatch_producer_def)
  ultimately show ?thesis unfolding quiet_but_def by (rule conjI)
qed

lemma dispatch_clock [simp]: "sv_clock (dispatch_producer i q sv) = sv_clock sv"
  by (simp add: dispatch_producer_def)

lemma quiet_step:
  assumes "session_step sv sv'" "quiet_but a b J sv" "b \<le> sv_clock sv + PENDING_REQ_EXPIRY_S" "sv_clock sv' < b"
  shows "quiet_but a b J sv'"
  using assms
proof (induction rule: session_step.induct)
  case (step_tick sv t)
  then show ?case by (simp add: quiet_but_def closed_until_def)
next
  case (step_metadata sv an pu dr)
  show ?case by (rule quiet_ext[OF step_metadata.prems(1) closed_ext_sends[OF sends_step_metadata] step_metadata.prems(2)])
next
  case (step_sweep sv)
  show ?case by (rule quiet_ext[OF step_sweep.prems(1) closed_ext_sends[OF sends_step_sweep] step_sweep.prems(2)])
next
  case step_open
  then show ?case by (simp add: quiet_dispatch)
next
  case step_pull
  then show ?case by (simp add: quiet_dispatch)
next
  case step_abort
  then show ?case by (simp add: quiet_dispatch)
next
  case (step_chunk_slot k i p r sv x xs)
  have "k \<in> J" if "snd (chunk_slot i p r x (sv\<lparr>sv_slots := xs\<rparr>)) = Some u" "encodes a u" for u
    using new_encoding(6)[OF that] step_chunk_slot by (simp add: quiet_but_def closed_until_def)
  then show ?case by (rule quiet_set_task[OF step_chunk_slot.prems(1) closed_ext_others(4) step_chunk_slot.prems(2)])
qed (erule quiet_set_task, rule closed_exts, assumption, (erule (1) notE[OF new_encoding(1)] notE[OF new_encoding(2)] notE[OF new_encoding(3)]
    notE[OF new_encoding(4)] notE[OF new_encoding(5)] | erule option.distinct(1)[THEN notE]))+

section \<open>Draining aborts\<close>

lemma not_abort:
  "snd (open_begin i m sv) \<noteq> Some (AbortDrain i' a s pend t)" "snd (open_claim i m r c sv) \<noteq> Some (AbortDrain i' a s pend t)"
  "snd (chunk_begin i p sv) \<noteq> Some (AbortDrain i' a s pend t)" "snd (chunk_result i p r x ok sv) \<noteq> Some (AbortDrain i' a s pend t)"
  "snd (chunk_slot i p r x sv) \<noteq> Some (AbortDrain i' a s pend t)"
  by (auto simp: open_begin_def open_claim_def chunk_begin_def chunk_result_def chunk_slot_def Let_def
      split: if_splits sum.splits option.splits prod.splits)

lemma begun_abort:
  assumes "snd (abort_begin i' a' sv) = Some (AbortDrain i a s pend t)"
  shows "t = sv_clock sv \<and> quiet_but (abort_key a) (t + PENDING_REQ_EXPIRY_S) (set pend) (set_task k (snd (abort_begin i' a' sv)) (fst (abort_begin i' a' sv)))"
proof -
  let ?sv = "fst (abort_begin i' a' sv)"
  have a: "a' = a" "t = sv_clock sv" "pend = pending_operations (abort_key a) ?sv" using assms by (auto simp: abort_begin_def Let_def)
  have "map_of (sv_closed ?sv) (abort_key a) = Some (t + PENDING_REQ_EXPIRY_S)"
    using a(1,2) by (auto simp: abort_begin_def Let_def split: option.splits)
  moreover have "j \<in> set pend" if "(j, u) \<in> set (sv_tasks (set_task k (snd (abort_begin i' a' sv)) ?sv))" "encodes (abort_key a) u" for j u
  proof -
    have "(j, u) \<in> set (sv_tasks ?sv)" using in_set_task[OF that(1)] that(2) assms by auto
    moreover have "task_key u = Some (abort_key a)" using that(2) by (cases u) auto
    ultimately show ?thesis unfolding a(3) pending_operations_def by force
  qed
  ultimately show ?thesis using a(2) by (auto simp: quiet_but_def closed_until_def)
qed

lemma abort_kept:
  "(k, AbortDrain i a s pend t) \<in> set (sv_tasks (set_task j u sv')) \<Longrightarrow> closed_ext sv sv' \<Longrightarrow> u \<noteq> Some (AbortDrain i a s pend t) \<Longrightarrow>
   (k, AbortDrain i a s pend t) \<in> set (sv_tasks sv)"
  using in_set_task by (fastforce simp: closed_ext_def)

lemma new_abort:
  assumes "session_step sv sv'" "(k, AbortDrain i a s pend t) \<in> set (sv_tasks sv')"
  shows "(k, AbortDrain i a s pend t) \<in> set (sv_tasks sv) \<or>
    t = sv_clock sv \<and> sv_clock sv' = sv_clock sv \<and> quiet_but (abort_key a) (t + PENDING_REQ_EXPIRY_S) (set pend) sv'"
  using assms
proof (induction rule: session_step.induct)
  case (step_metadata sv an pu dr)
  then show ?case using closed_ext_sends[OF sends_step_metadata[of _ sv an pu dr]] by (simp add: closed_ext_def)
next
  case (step_sweep sv)
  then show ?case using closed_ext_sends[OF sends_step_sweep[of _ sv]] by (simp add: closed_ext_def)
next
  case (step_abort_begin j i' a' sv)
  have ext: "sv_tasks (fst (abort_begin i' a' sv)) = sv_tasks sv" "sv_clock (fst (abort_begin i' a' sv)) = sv_clock sv"
    using closed_ext_abort_begin[of sv i' a'] by (simp_all add: closed_ext_def)
  show ?case
    using in_set_task[OF step_abort_begin.prems] begun_abort[of i' a' sv i a s pend t j] ext by auto
next
  case (step_tick sv t)
  then show ?case by simp
next
  case (step_open i m sv)
  then show ?case by (simp add: dispatch_producer_def)
next
  case (step_pull sv i p)
  then show ?case by (simp add: dispatch_producer_def)
next
  case (step_abort sv i ab)
  then show ?case by (simp add: dispatch_producer_def)
qed (rule disjI1, erule abort_kept, rule closed_exts, (rule not_abort | rule option.distinct(1)))+

definition aborts_ok :: "session_service \<Rightarrow> bool" where
  "aborts_ok sv \<longleftrightarrow> (\<forall>(k, u) \<in> set (sv_tasks sv). case u of AbortDrain i a s pend t \<Rightarrow> t \<le> sv_clock sv \<and>
     (sv_clock sv < t + PENDING_REQ_EXPIRY_S \<longrightarrow> quiet_but (abort_key a) (t + PENDING_REQ_EXPIRY_S) (set pend) sv) | _ \<Rightarrow> True)"

lemma aborts_okD:
  "aborts_ok sv \<Longrightarrow> (k, AbortDrain i a s pend t) \<in> set (sv_tasks sv) \<Longrightarrow> t \<le> sv_clock sv \<and>
     (sv_clock sv < t + PENDING_REQ_EXPIRY_S \<longrightarrow> quiet_but (abort_key a) (t + PENDING_REQ_EXPIRY_S) (set pend) sv)"
  by (force simp: aborts_ok_def)

lemma aborts_okI:
  assumes "\<And>k i a s pend t. (k, AbortDrain i a s pend t) \<in> set (sv_tasks sv) \<Longrightarrow> t \<le> sv_clock sv \<and>
     (sv_clock sv < t + PENDING_REQ_EXPIRY_S \<longrightarrow> quiet_but (abort_key a) (t + PENDING_REQ_EXPIRY_S) (set pend) sv)"
  shows "aborts_ok sv"
  unfolding aborts_ok_def using assms by (auto split: session_task.splits)

lemma clock_grows: "session_step sv sv' \<Longrightarrow> sv_clock sv \<le> sv_clock sv'"
proof (induction rule: session_step.induct)
  case (step_metadata sv an pu dr)
  then show ?case using closed_ext_sends[OF sends_step_metadata[of _ sv an pu dr]] by (simp add: closed_ext_def)
next
  case (step_sweep sv)
  then show ?case using closed_ext_sends[OF sends_step_sweep[of _ sv]] by (simp add: closed_ext_def)
qed (use closed_exts in \<open>auto simp: closed_ext_def\<close>)

lemma aborts_step:
  assumes "aborts_ok sv" "session_step sv sv'"
  shows "aborts_ok sv'"
proof (rule aborts_okI)
  fix k i a s pend t assume "(k, AbortDrain i a s pend t) \<in> set (sv_tasks sv')"
  then consider "(k, AbortDrain i a s pend t) \<in> set (sv_tasks sv)"
    | "t = sv_clock sv" "sv_clock sv' = sv_clock sv" "quiet_but (abort_key a) (t + PENDING_REQ_EXPIRY_S) (set pend) sv'"
    using new_abort[OF assms(2)] by blast
  then show "t \<le> sv_clock sv' \<and> (sv_clock sv' < t + PENDING_REQ_EXPIRY_S \<longrightarrow> quiet_but (abort_key a) (t + PENDING_REQ_EXPIRY_S) (set pend) sv')"
  proof cases
    case 1
    note old = aborts_okD[OF assms(1) 1] and c = clock_grows[OF assms(2)]
    show ?thesis using old c quiet_step[OF assms(2), of "abort_key a" "t + PENDING_REQ_EXPIRY_S" "set pend"] by auto
  qed simp
qed

interpretation aborts: inductive_invariant "session_init n" session_step aborts_ok for n
proof unfold_locales
  show "aborts_ok sv" if "session_init n sv" for sv using that by (simp add: session_init_def aborts_ok_def)
qed (rule aborts_step)

lemma quiet_steps:
  "session_step\<^sup>*\<^sup>* sv sv' \<Longrightarrow> quiet_but a b J sv \<Longrightarrow> b \<le> sv_clock sv + PENDING_REQ_EXPIRY_S \<Longrightarrow> sv_clock sv' < b \<Longrightarrow> quiet_but a b J sv'"
proof (induction rule: rtranclp_induct)
  case (step y z)
  have "sv_clock sv \<le> sv_clock y" using step.hyps(1) by (induction rule: rtranclp_induct) (auto dest: clock_grows)
  then show ?case using step quiet_step[OF step.hyps(2)] clock_grows[OF step.hyps(2)] by auto
qed


section \<open>Two consumers of one transfer\<close>

text \<open>
  A producer with one tensor-parallel rank and one sender slot, and a consumer with one tensor-parallel and two pipeline ranks:
  \<open>_handshake_worker_addrs\<close> sends both pipeline ranks to the one producer worker, on sockets \<open>A\<close> and \<open>B\<close>.
\<close>

definition run_open :: "string \<Rightarrow> open_msg" where
  "run_open nonce = \<lparr>om_req_blocks = [(''d'', ''t'', [[5]])], om_remote_tp_size = 1, om_nonce = nonce\<rparr>"

definition run_pull :: "string \<Rightarrow> pull_msg" where
  "run_pull nonce = \<lparr>pm_transfer_id = ''t'', pm_d_req_id = ''d'', pm_chunk_id = 0, pm_nonce = nonce\<rparr>"

definition run_abort :: abort_msg where
  "run_abort = \<lparr>am_transfer_id = ''t'', am_d_req_id = ''d'', am_nonce = ''1''\<rparr>"

definition run_result :: open_result where
  "run_result = \<lparr>or_local_block_ids = [[7]], or_valid_tokens = [], or_logical_block_count = 1, or_total_chunks = 1\<rparr>"

definition run_0 :: session_service where
  "run_0 = \<lparr>sv_tp_rank = 0, sv_tp_size = 1, sv_clock = 0, sv_sends = [], sv_send_meta = [], sv_objects = [], sv_sessions = [],
     sv_slots = [0], sv_closed = [], sv_tasks = [], sv_next_task = 0, sv_responses = [], sv_events = []\<rparr>"

definition run_1 :: session_service where
  "run_1 = apply_producer_metadata [\<lparr>an_p_req_id = ''p'', an_transfer_id = ''t'', an_local_block_ids = [[7]], an_num_tokens = Some 1\<rparr>] [] [] run_0"

definition run_2 :: session_service where "run_2 = dispatch_producer ''A'' (SessionOpen (run_open ''1'')) run_1"

definition run_3 :: session_service where "run_3 = run_task 0 (open_begin ''A'' (run_open ''1'') run_2)"

definition run_4 :: session_service where "run_4 = run_task 0 (open_claim ''A'' (run_open ''1'') 0 False run_3)"

definition run_5 :: session_service where "run_5 = dispatch_producer ''B'' (SessionOpen (run_open ''2'')) run_4"

definition run_6 :: session_service where "run_6 = run_task 1 (open_begin ''B'' (run_open ''2'') run_5)"

definition run_7 :: session_service where "run_7 = run_task 1 (open_claim ''B'' (run_open ''2'') 0 False run_6)"

definition run_8 :: session_service where "run_8 = set_task 0 None (open_done ''A'' (run_open ''1'') 0 False (Some run_result) run_7)"

definition run_9 :: session_service where "run_9 = set_task 1 None (open_done ''B'' (run_open ''2'') 0 False (Some run_result) run_8)"

definition run_10 :: session_service where "run_10 = dispatch_producer ''A'' (ChunkPull (run_pull ''1'')) run_9"

definition run_11 :: session_service where "run_11 = run_task 2 (chunk_begin ''A'' (run_pull ''1'') run_10)"

definition run_12 :: session_service where "run_12 = run_task 2 (chunk_slot ''A'' (run_pull ''1'') 0 0 (run_11\<lparr>sv_slots := []\<rparr>))"

definition run_sent :: session_service where "run_sent = run_task 2 (chunk_result ''A'' (run_pull ''1'') 0 0 True run_12)"

text \<open>The same consumer aborts instead of waiting for the chunk.\<close>

definition run_13 :: session_service where "run_13 = dispatch_producer ''A'' (Abort run_abort) run_12"

definition run_14 :: session_service where "run_14 = run_task 3 (abort_begin ''A'' run_abort run_13)"

definition run_15 :: session_service where "run_15 = run_task 2 (chunk_result ''A'' (run_pull ''1'') 0 0 True run_14)"

text \<open>The announced blocks are never asked for.\<close>

definition run_late :: session_service where "run_late = run_1\<lparr>sv_clock := 481\<rparr>"

lemma run_0_reach: "reach (session_init 1) session_step run_0"
  by (rule reach_init) (simp add: session_init_def run_0_def)

lemma run_1_reach: "reach (session_init 1) session_step run_1"
  unfolding run_1_def by (rule reach_step[OF run_0_reach step_metadata])

lemma run_2_reach: "reach (session_init 1) session_step run_2"
  unfolding run_2_def by (rule reach_step[OF run_1_reach step_open]) code_simp+

lemma run_3_reach: "reach (session_init 1) session_step run_3"
  unfolding run_3_def by (rule reach_step[OF run_2_reach step_open_begin]) code_simp+

lemma run_4_reach: "reach (session_init 1) session_step run_4"
  unfolding run_4_def by (rule reach_step[OF run_3_reach step_open_ready[where t = 480]]) code_simp+

lemma run_5_reach: "reach (session_init 1) session_step run_5"
  unfolding run_5_def by (rule reach_step[OF run_4_reach step_open]) code_simp+

lemma run_6_reach: "reach (session_init 1) session_step run_6"
  unfolding run_6_def by (rule reach_step[OF run_5_reach step_open_begin]) code_simp+

lemma run_7_reach: "reach (session_init 1) session_step run_7"
  unfolding run_7_def by (rule reach_step[OF run_6_reach step_open_ready[where t = 480]]) code_simp+

lemma run_8_reach: "reach (session_init 1) session_step run_8"
  unfolding run_8_def by (rule reach_step[OF run_7_reach step_open_done]) code_simp+

lemma run_9_reach: "reach (session_init 1) session_step run_9"
  unfolding run_9_def by (rule reach_step[OF run_8_reach step_open_done]) code_simp+

lemma run_10_reach: "reach (session_init 1) session_step run_10"
  unfolding run_10_def by (rule reach_step[OF run_9_reach step_pull])

lemma run_11_reach: "reach (session_init 1) session_step run_11"
  unfolding run_11_def by (rule reach_step[OF run_10_reach step_chunk_begin]) code_simp+

lemma run_12_reach: "reach (session_init 1) session_step run_12"
  unfolding run_12_def by (rule reach_step[OF run_11_reach step_chunk_slot]) code_simp+

lemma run_sent_reach: "reach (session_init 1) session_step run_sent"
  unfolding run_sent_def by (rule reach_step[OF run_12_reach step_chunk_result]) code_simp+

lemma run_13_reach: "reach (session_init 1) session_step run_13"
  unfolding run_13_def by (rule reach_step[OF run_12_reach step_abort])

lemma run_14_reach: "reach (session_init 1) session_step run_14"
  unfolding run_14_def by (rule reach_step[OF run_13_reach step_abort_begin]) code_simp+

lemma run_15_reach: "reach (session_init 1) session_step run_15"
  unfolding run_15_def by (rule reach_step[OF run_14_reach step_chunk_result]) code_simp+

lemma run_late_reach: "reach (session_init 1) session_step run_late"
  unfolding run_late_def by (rule reach_step[OF run_1_reach step_tick]) code_simp+

text \<open>
  C37: The run of two pipeline ranks of a consumer against one producer worker reaches a state in which the helper has reported the
  transfer as sent, which frees its blocks, while the second session is still active, in the table, with no chunk served.  The number of
  sessions a transfer waits for counts tensor-parallel targets only.
\<close>

theorem sent_before_last_session:
  "reach (session_init 1) session_step run_sent \<and> sv_events run_sent = [Sending ''p''] \<and>
   map_of (sv_sessions run_sent) (''B'', ''t'', ''d'') = Some 1 \<and> pn_state (sv_objects run_sent ! 1) = ACTIVE \<and>
   pn_completed_chunks (sv_objects run_sent ! 1) = 0 \<and> pn_total_chunks (sv_objects run_sent ! 1) = 1"
proof -
  have "sv_events run_sent = [Sending ''p'']" "map_of (sv_sessions run_sent) (''B'', ''t'', ''d'') = Some 1"
    "pn_state (sv_objects run_sent ! 1) = ACTIVE" "pn_completed_chunks (sv_objects run_sent ! 1) = 0"
    "pn_total_chunks (sv_objects run_sent ! 1) = 1" by code_simp+
  then show ?thesis using run_sent_reach by blast
qed


theorem sender_slots_exclusive_witness: "sv_slots run_12 = [] \<and> slot_holder run_12 0 2 \<and> (\<exists>!k. slot_holder run_12 0 k)"
proof -
  have "sv_slots run_12 = []" "slot_holder run_12 0 2" by code_simp+
  then show ?thesis using sender_slots_exclusive[OF run_12_reach, of 0] by simp
qed

theorem session_counters_exact_witness:
  "st_sending (sv_sends run_7 ! 0) = 2 \<and> st_sending (sv_sends run_7 ! 0) =
     int (length (filter (\<lambda>(_, t). task_claim t = Some 0) (sv_tasks run_7))) +
     int (length (filter (\<lambda>(_, s). pn_send_state (sv_objects run_7 ! s) = 0) (sv_sessions run_7)))"
proof -
  have "st_sending (sv_sends run_7 ! 0) = 2" "0 < length (sv_sends run_7)" by code_simp+
  then show ?thesis using session_counters_exact[OF run_7_reach, of 0] by blast
qed

lemma sweep_frees_idle_witness:
  "\<exists>(tid, r) \<in> set (sv_send_meta run_late). st_p_req_id (sv_sends run_late ! r) = ''p'' \<and>
    (\<exists>t. st_expire_time (sv_sends run_late ! r) = Some t \<and> t < sv_clock run_late) \<and>
    (\<forall>(_, t) \<in> set (sv_tasks run_late). task_claim t \<noteq> Some r) \<and> (\<forall>(_, s) \<in> set (sv_sessions run_late). pn_send_state (sv_objects run_late ! s) \<noteq> r)"
proof (rule sweep_frees_idle[OF run_late_reach, of "[SendingExpired ''p'']"])
  show "sv_events (sweep_sends run_late) = sv_events run_late @ [SendingExpired ''p'']" by code_simp
qed simp

end
