(* ===== verification/Session_Consumer.thy ===== *)
theory Session_Consumer
  imports Session_Abort
begin

text \<open>
  The consumer side of the compression session helper (\<open>_run_consumer_session\<close> and its helpers in
  \<^verbatim>\<open>mooncake/session_process.py\<close>).  All sessions of a worker share one queue of receiver slots; a slot is a piece of memory into which
  the producer writes one chunk, so a pull grants a remote write that is over when the producer has answered the pull or has
  acknowledged an abort (\<open>abort_ack_quiescent\<close>).  As on the producer side the steps are the stretches of code between
  two \<open>await\<close>s.  Grants and the outcome of decode jobs are recorded beside the fields of the code; sockets, encodings and
  cancellation at shutdown are not modelled.
\<close>

section \<open>State\<close>

datatype consumer_phase = Opening | Running | Gathering | Aborting | Cleanup | Ended

record consumer_session =
  cs_block_ids :: "int list list"
  cs_phase :: consumer_phase
  cs_total_chunks :: nat
  cs_issued :: nat
  cs_owned :: "nat list"
  cs_inflight :: "(nat \<times> nat) list"
  cs_decode_tasks :: "(nat \<times> nat) list"
  cs_completed :: nat
  cs_result :: "int set option"
  cs_grants :: "(nat \<times> nat) list"
  cs_decoded :: "(nat \<times> nat) list"
  cs_failed :: "(nat \<times> nat) list"

record consumer_service =
  kv_receiver_slots :: "nat list"
  kv_sessions :: "consumer_session list"

definition new_consumer_session :: "int list list \<Rightarrow> consumer_session" where
  "new_consumer_session ids = \<lparr>cs_block_ids = ids, cs_phase = Opening, cs_total_chunks = 0, cs_issued = 0, cs_owned = [], cs_inflight = [],
     cs_decode_tasks = [], cs_completed = 0, cs_result = None, cs_grants = [], cs_decoded = [], cs_failed = []\<rparr>"

text \<open>\<open>_all_blocks\<close>, for vLLM's \<open>NULL_BLOCK_ID\<close>.\<close>

definition all_blocks :: "int \<Rightarrow> int list list \<Rightarrow> int set" where
  "all_blocks null ids = {b \<in> set (concat ids). b \<noteq> null}"

section \<open>Stretches of a session\<close>

text \<open>\<open>return set()\<close>, and the \<open>except\<close> branch up to its \<open>await\<close>.\<close>

definition return_success :: "consumer_session \<Rightarrow> consumer_session" where
  "return_success s = s\<lparr>cs_phase := Cleanup, cs_result := Some {}\<rparr>"

definition session_failed :: "consumer_session \<Rightarrow> consumer_session" where
  "session_failed s = s\<lparr>cs_phase := Aborting\<rparr>"

definition session_opened :: "nat option \<Rightarrow> consumer_session \<Rightarrow> consumer_session" where
  "session_opened r s = (case r of
       None \<Rightarrow> session_failed s
     | Some n \<Rightarrow> if n = 0 then return_success s else s\<lparr>cs_phase := Running, cs_total_chunks := n\<rparr>)"

text \<open>One turn of \<open>issue_all\<close>, with the slot it got from the queue.\<close>

definition issue_chunk :: "nat \<Rightarrow> consumer_session \<Rightarrow> consumer_session" where
  "issue_chunk slot s = s\<lparr>cs_owned := cs_owned s @ [slot], cs_inflight := dict_set (cs_inflight s) (cs_issued s) slot,
     cs_grants := cs_grants s @ [(cs_issued s, slot)], cs_issued := cs_issued s + 1\<rparr>"

text \<open>The loop after its last chunk: wait for the decode tasks that are left.\<close>

definition chunk_loop_end :: "consumer_session \<Rightarrow> consumer_session" where
  "chunk_loop_end s = (if cs_completed s < cs_total_chunks s then s
     else if cs_decode_tasks s = [] then return_success s else s\<lparr>cs_phase := Gathering\<rparr>)"

text \<open>A response to the pull of chunk \<open>c\<close>.\<close>

definition chunk_ready :: "nat \<Rightarrow> bool \<Rightarrow> consumer_session \<Rightarrow> consumer_session" where
  "chunk_ready c ok s0 =
     (let s = s0\<lparr>cs_grants := filter (\<lambda>g. fst g \<noteq> c) (cs_grants s0)\<rparr> in
      if \<not> ok then session_failed s
      else case map_of (cs_inflight s) c of
        None \<Rightarrow> session_failed s
      | Some slot \<Rightarrow> chunk_loop_end (s\<lparr>cs_inflight := dict_pop (cs_inflight s) c, cs_decode_tasks := cs_decode_tasks s @ [(c, slot)],
          cs_completed := cs_completed s + 1\<rparr>))"

text \<open>\<open>_decode_and_release\<close> after the job: the slot that it puts back, or the exception.  The task leaves \<open>decode_tasks\<close> by its done callback.\<close>

definition decode_done :: "nat \<times> nat \<Rightarrow> consumer_session \<Rightarrow> consumer_session" where
  "decode_done t s = s\<lparr>cs_decode_tasks := remove1 t (cs_decode_tasks s), cs_owned := remove1 (snd t) (cs_owned s), cs_decoded := cs_decoded s @ [t]\<rparr>"

text \<open>
  An exception of a decode task reaches the session while \<open>gather\<close> waits for it.  In the chunk loop it does only when the loop
  looks at the task before the done callback has taken it out of \<open>decode_tasks\<close> (\<open>seen\<close>).
\<close>

definition decode_failed :: "nat \<times> nat \<Rightarrow> bool \<Rightarrow> consumer_session \<Rightarrow> consumer_session" where
  "decode_failed t seen s0 =
     (let s = s0\<lparr>cs_decode_tasks := remove1 t (cs_decode_tasks s0), cs_failed := cs_failed s0 @ [t]\<rparr> in
      if cs_phase s = Gathering \<or> cs_phase s = Running \<and> seen then session_failed s else s)"

definition gathered :: "consumer_session \<Rightarrow> consumer_session" where
  "gathered s = return_success s"

text \<open>The abort was acknowledged, or was not; in both cases the blocks of the request are reported as failed.\<close>

definition abort_ended :: "int \<Rightarrow> bool \<Rightarrow> consumer_session \<Rightarrow> consumer_session" where
  "abort_ended null acked s = s\<lparr>cs_phase := Cleanup, cs_result := Some (all_blocks null (cs_block_ids s)),
     cs_grants := (if acked then [] else cs_grants s)\<rparr>"

definition cleanup_session :: "consumer_session \<Rightarrow> consumer_session" where
  "cleanup_session s = s\<lparr>cs_phase := Ended, cs_owned := []\<rparr>"

section \<open>Steps\<close>

definition put_session :: "nat \<Rightarrow> consumer_session \<Rightarrow> nat list \<Rightarrow> consumer_service \<Rightarrow> consumer_service" where
  "put_session i s slots kv = kv\<lparr>kv_sessions := (kv_sessions kv)[i := s], kv_receiver_slots := slots\<rparr>"

abbreviation at_phase :: "consumer_service \<Rightarrow> nat \<Rightarrow> consumer_session \<Rightarrow> consumer_phase set \<Rightarrow> bool" where
  "at_phase kv i s P \<equiv> i < length (kv_sessions kv) \<and> s = kv_sessions kv ! i \<and> cs_phase s \<in> P"

text \<open>With \<open>strict\<close> every abort is acknowledged.\<close>

inductive consumer_step :: "int \<Rightarrow> bool \<Rightarrow> consumer_service \<Rightarrow> consumer_service \<Rightarrow> bool" for null strict where
  cs_start: "consumer_step null strict kv (kv\<lparr>kv_sessions := kv_sessions kv @ [new_consumer_session ids]\<rparr>)"
| cs_open: "at_phase kv i s {Opening} \<Longrightarrow> consumer_step null strict kv (put_session i (session_opened r s) (kv_receiver_slots kv) kv)"
| cs_issue: "at_phase kv i s {Running, Aborting} \<Longrightarrow> cs_issued s < cs_total_chunks s \<Longrightarrow> kv_receiver_slots kv = x # xs \<Longrightarrow>
     consumer_step null strict kv (put_session i (issue_chunk x s) xs kv)"
| cs_ready: "at_phase kv i s {Running} \<Longrightarrow> consumer_step null strict kv (put_session i (chunk_ready c ok s) (kv_receiver_slots kv) kv)"
| cs_decode_ok: "at_phase kv i s {Running, Gathering, Aborting, Cleanup} \<Longrightarrow> t \<in> set (cs_decode_tasks s) \<Longrightarrow>
     consumer_step null strict kv (put_session i (decode_done t s) (kv_receiver_slots kv @ [snd t]) kv)"
| cs_decode_error: "at_phase kv i s {Running, Gathering, Aborting, Cleanup} \<Longrightarrow> t \<in> set (cs_decode_tasks s) \<Longrightarrow>
     consumer_step null strict kv (put_session i (decode_failed t seen s) (kv_receiver_slots kv) kv)"
| cs_gather: "at_phase kv i s {Gathering} \<Longrightarrow> cs_decode_tasks s = [] \<Longrightarrow>
     consumer_step null strict kv (put_session i (gathered s) (kv_receiver_slots kv) kv)"
| cs_abort: "at_phase kv i s {Aborting} \<Longrightarrow> strict \<longrightarrow> acked \<Longrightarrow>
     consumer_step null strict kv (put_session i (abort_ended null acked s) (kv_receiver_slots kv) kv)"
| cs_cleanup: "at_phase kv i s {Cleanup} \<Longrightarrow> cs_decode_tasks s = [] \<Longrightarrow>
     consumer_step null strict kv (put_session i (cleanup_session s) (kv_receiver_slots kv @ cs_owned s) kv)"

definition consumer_init :: "nat \<Rightarrow> consumer_service \<Rightarrow> bool" where
  "consumer_init n kv \<longleftrightarrow> kv_receiver_slots kv = [0..<n] \<and> kv_sessions kv = []"

section \<open>The invariant of a session\<close>

definition owned_ok :: "consumer_session \<Rightarrow> bool" where
  "owned_ok s \<longleftrightarrow> mset (cs_owned s) = (if cs_phase s = Ended then {#}
     else mset (map snd (cs_inflight s)) + mset (map snd (cs_decode_tasks s)) + mset (map snd (cs_failed s)))"

definition chunks_ok :: "consumer_session \<Rightarrow> bool" where
  "chunks_ok s \<longleftrightarrow> mset (map fst (cs_inflight s)) + mset (map fst (cs_decode_tasks s)) + mset (map fst (cs_decoded s)) +
     mset (map fst (cs_failed s)) = mset [0..<cs_issued s] \<and> cs_issued s \<le> cs_total_chunks s \<and>
     cs_completed s = length (cs_decode_tasks s) + length (cs_decoded s) + length (cs_failed s)"

definition phase_facts :: "int \<Rightarrow> consumer_session \<Rightarrow> bool" where
  "phase_facts null s \<longleftrightarrow> (cs_phase s = Opening \<longrightarrow> cs_issued s = 0 \<and> cs_total_chunks s = 0) \<and>
     (cs_phase s = Running \<longrightarrow> cs_completed s < cs_total_chunks s) \<and> (cs_phase s = Gathering \<longrightarrow> cs_completed s = cs_total_chunks s) \<and>
     (cs_phase s = Ended \<longrightarrow> cs_decode_tasks s = []) \<and> (cs_phase s \<notin> {Cleanup, Ended} \<longrightarrow> cs_result s = None) \<and>
     (cs_phase s \<in> {Cleanup, Ended} \<longrightarrow> cs_result s = Some {} \<or> cs_result s = Some (all_blocks null (cs_block_ids s))) \<and>
     (cs_result s = Some {} \<longrightarrow> cs_completed s = cs_total_chunks s \<or> all_blocks null (cs_block_ids s) = {})"

definition grants_ok :: "bool \<Rightarrow> consumer_session \<Rightarrow> bool" where
  "grants_ok strict s \<longleftrightarrow> set (cs_grants s) \<subseteq> set (cs_inflight s) \<and> (strict \<longrightarrow> cs_phase s \<in> {Cleanup, Ended} \<longrightarrow> cs_grants s = [])"

definition sess_ok :: "int \<Rightarrow> bool \<Rightarrow> consumer_session \<Rightarrow> bool" where
  "sess_ok null strict s \<longleftrightarrow> owned_ok s \<and> chunks_ok s \<and> phase_facts null s \<and> grants_ok strict s"

lemma mset_dict_pop_pair: "distinct (map fst ps) \<Longrightarrow> (k, t) \<in> set ps \<Longrightarrow> mset ps = add_mset (k, t) (mset (dict_pop ps k))"
proof (induction ps)
  case (Cons x ps)
  obtain k' t' where x: "x = (k', t')" by (cases x)
  show ?case
  proof (cases "k' = k")
    case True
    then have "t' = t" "dict_pop ps k = ps" using Cons.prems x by (force simp: dict_pop_def intro!: filter_True)+
    then show ?thesis using True x by (simp add: dict_pop_def)
  next
    case False
    then show ?thesis using Cons x by (simp add: dict_pop_def)
  qed
qed simp

lemma mset_sub_distinct: "mset xs \<subseteq># mset ys \<Longrightarrow> distinct ys \<Longrightarrow> distinct xs"
  by (metis distinct_append ex_mset mset_append mset_eq_imp_distinct_iff subset_mset.le_iff_add)

lemma inflight_keys:
  assumes "chunks_ok s"
  shows "distinct (map fst (cs_inflight s))" and "(c, x) \<in> set (cs_inflight s) \<Longrightarrow> c < cs_issued s"
proof -
  have sub: "mset (map fst (cs_inflight s)) \<subseteq># mset [0..<cs_issued s]"
    using assms unfolding chunks_ok_def by (metis mset_subset_eq_add_left union_assoc)
  then show "distinct (map fst (cs_inflight s))" by (rule mset_sub_distinct) simp
  show "c < cs_issued s" if "(c, x) \<in> set (cs_inflight s)"
    using set_mset_mono[OF sub] that by force
qed

lemma completed_all:
  assumes "chunks_ok s" "cs_completed s = cs_total_chunks s"
  shows "cs_inflight s = []" and "cs_issued s = cs_total_chunks s"
proof -
  have "size (mset (map fst (cs_inflight s)) + mset (map fst (cs_decode_tasks s)) + mset (map fst (cs_decoded s)) + mset (map fst (cs_failed s))) =
      size (mset [0..<cs_issued s])" using assms(1) unfolding chunks_ok_def by (simp only:)
  then have "length (cs_inflight s) + cs_completed s = cs_issued s" using assms(1) by (simp add: chunks_ok_def)
  moreover have "cs_issued s \<le> cs_total_chunks s" using assms(1) by (simp add: chunks_ok_def)
  ultimately have "length (cs_inflight s) = 0" "cs_issued s = cs_total_chunks s" using assms(2) by linarith+
  then show "cs_inflight s = []" "cs_issued s = cs_total_chunks s" by simp_all
qed

section \<open>Preservation\<close>

lemma sess_ok_new: "sess_ok null strict (new_consumer_session ids)"
  by (simp add: sess_ok_def owned_ok_def chunks_ok_def phase_facts_def grants_ok_def new_consumer_session_def)

lemma sess_ok_success:
  assumes "owned_ok s" "chunks_ok s" "cs_phase s \<noteq> Ended" "cs_completed s = cs_total_chunks s" "set (cs_grants s) \<subseteq> set (cs_inflight s)"
  shows "sess_ok null strict (return_success s)"
  using assms completed_all(1)[OF assms(2,4)]
  by (simp add: sess_ok_def owned_ok_def chunks_ok_def phase_facts_def grants_ok_def return_success_def)

lemma sess_ok_failed:
  assumes "owned_ok s" "chunks_ok s" "cs_phase s \<noteq> Ended" "cs_result s = None" "set (cs_grants s) \<subseteq> set (cs_inflight s)"
  shows "sess_ok null strict (session_failed s)"
  using assms by (simp add: sess_ok_def owned_ok_def chunks_ok_def phase_facts_def grants_ok_def session_failed_def)

lemma sess_ok_opened:
  assumes "sess_ok null strict s" "cs_phase s = Opening"
  shows "sess_ok null strict (session_opened r s)"
proof (cases r)
  case None
  then show ?thesis using assms sess_ok_failed[of s] by (auto simp: session_opened_def sess_ok_def phase_facts_def grants_ok_def)
next
  case (Some m)
  have parts: "owned_ok s" "chunks_ok s" "cs_issued s = 0" "cs_total_chunks s = 0" "cs_result s = None" "set (cs_grants s) \<subseteq> set (cs_inflight s)"
    using assms by (auto simp: sess_ok_def phase_facts_def grants_ok_def)
  have z: "cs_completed s = 0" "cs_decode_tasks s = []" using parts(2,3) by (auto simp: chunks_ok_def)
  show ?thesis
  proof (cases "m = 0")
    case True
    then show ?thesis using Some parts z assms(2) sess_ok_success[of s] by (simp add: session_opened_def)
  next
    case False
    then show ?thesis using Some parts z assms(2)
      by (simp add: session_opened_def sess_ok_def owned_ok_def chunks_ok_def phase_facts_def grants_ok_def)
  qed
qed

lemma sess_ok_issue:
  assumes "sess_ok null strict s" "cs_phase s \<in> {Running, Aborting}" "cs_issued s < cs_total_chunks s"
  shows "sess_ok null strict (issue_chunk x s)"
proof -
  have ch: "chunks_ok s" using assms(1) by (simp add: sess_ok_def)
  have "cs_issued s \<notin> fst ` set (cs_inflight s)" using inflight_keys(2)[OF ch] by fastforce
  then have app: "dict_set (cs_inflight s) (cs_issued s) x = cs_inflight s @ [(cs_issued s, x)]" by (rule dict_set_fresh)
  have "owned_ok (issue_chunk x s)" using assms(1,2) by (auto simp: sess_ok_def owned_ok_def issue_chunk_def app)
  moreover have "chunks_ok (issue_chunk x s)" using ch assms(3) by (auto simp: chunks_ok_def issue_chunk_def app)
  moreover have "phase_facts null (issue_chunk x s)" using assms(1,2) by (auto simp: sess_ok_def phase_facts_def issue_chunk_def)
  moreover have "grants_ok strict (issue_chunk x s)" using assms(1,2) by (auto simp: sess_ok_def grants_ok_def issue_chunk_def app)
  ultimately show ?thesis by (simp add: sess_ok_def)
qed

lemma sess_ok_ready:
  assumes ok0: "sess_ok null strict s0" and run: "cs_phase s0 = Running"
  shows "sess_ok null strict (chunk_ready c ok s0)" and "cs_owned (chunk_ready c ok s0) = cs_owned s0"
proof -
  let ?s = "s0\<lparr>cs_grants := filter (\<lambda>g. fst g \<noteq> c) (cs_grants s0)\<rparr>"
  have parts: "owned_ok ?s" "chunks_ok ?s" "cs_result ?s = None" "set (cs_grants ?s) \<subseteq> set (cs_inflight ?s)" "cs_completed ?s < cs_total_chunks ?s"
    using ok0 run by (auto simp: sess_ok_def owned_ok_def chunks_ok_def phase_facts_def grants_ok_def)
  have fail: "sess_ok null strict (session_failed ?s)" by (rule sess_ok_failed) (use parts run in simp_all)
  show "sess_ok null strict (chunk_ready c ok s0)"
  proof (cases "ok \<and> map_of (cs_inflight s0) c \<noteq> None")
    case False
    then show ?thesis using fail by (auto simp: chunk_ready_def Let_def)
  next
    case True
    then obtain x where x: "map_of (cs_inflight s0) c = Some x" by auto
    let ?t = "?s\<lparr>cs_inflight := dict_pop (cs_inflight ?s) c, cs_decode_tasks := cs_decode_tasks ?s @ [(c, x)], cs_completed := cs_completed ?s + 1\<rparr>"
    have pop: "mset (cs_inflight s0) = add_mset (c, x) (mset (dict_pop (cs_inflight s0) c))"
      using mset_dict_pop_pair[OF inflight_keys(1)[OF parts(2)]] map_of_SomeD[OF x] by simp
    have "owned_ok ?t" using parts(1) run by (simp add: owned_ok_def pop)
    moreover have "chunks_ok ?t" using parts(2) by (simp add: chunks_ok_def pop)
    moreover have "set (cs_grants ?t) \<subseteq> set (cs_inflight ?t)" using parts(4) by (auto simp: dict_pop_def)
    ultimately have "sess_ok null strict (chunk_loop_end ?t)"
      using parts(3,5) run sess_ok_success[of ?t null strict]
      by (auto simp: chunk_loop_end_def sess_ok_def owned_ok_def chunks_ok_def phase_facts_def grants_ok_def)
    then show ?thesis using True x by (simp add: chunk_ready_def Let_def)
  qed
  show "cs_owned (chunk_ready c ok s0) = cs_owned s0"
    by (simp add: chunk_ready_def Let_def session_failed_def chunk_loop_end_def return_success_def split: option.splits)
qed

lemma sess_ok_decode_done:
  assumes ok: "sess_ok null strict s" and ph: "cs_phase s \<noteq> Ended" and t: "t \<in> set (cs_decode_tasks s)"
  shows "sess_ok null strict (decode_done t s)" and "mset (cs_owned s) = add_mset (snd t) (mset (cs_owned (decode_done t s)))"
proof -
  obtain D where D: "mset (cs_decode_tasks s) = add_mset t D" using t by (metis mset_add set_mset_mset)
  have len: "length (cs_decode_tasks s) = Suc (length (remove1 t (cs_decode_tasks s)))" using t by (simp add: length_remove1) (metis Suc_pred length_pos_if_in_set)
  have own: "mset (cs_owned s) = mset (map snd (cs_inflight s)) + mset (map snd (cs_decode_tasks s)) + mset (map snd (cs_failed s))"
    using ok ph by (simp add: sess_ok_def owned_ok_def)
  then have "owned_ok (decode_done t s)" using ph by (simp add: owned_ok_def decode_done_def D)
  moreover have "chunks_ok (decode_done t s)" using ok len by (simp add: sess_ok_def chunks_ok_def decode_done_def D)
  moreover have "phase_facts null (decode_done t s)" "grants_ok strict (decode_done t s)"
    using ok ph by (auto simp: sess_ok_def phase_facts_def grants_ok_def decode_done_def)
  ultimately show "sess_ok null strict (decode_done t s)" by (simp add: sess_ok_def)
  show "mset (cs_owned s) = add_mset (snd t) (mset (cs_owned (decode_done t s)))" using own by (simp add: decode_done_def D)
qed

lemma sess_ok_decode_failed:
  assumes ok: "sess_ok null strict s" and ph: "cs_phase s \<noteq> Ended" and t: "t \<in> set (cs_decode_tasks s)"
  shows "sess_ok null strict (decode_failed t seen s)" and "cs_owned (decode_failed t seen s) = cs_owned s"
proof -
  obtain D where D: "mset (cs_decode_tasks s) = add_mset t D" using t by (metis mset_add set_mset_mset)
  have len: "length (cs_decode_tasks s) = Suc (length (remove1 t (cs_decode_tasks s)))" using t by (simp add: length_remove1) (metis Suc_pred length_pos_if_in_set)
  let ?s = "s\<lparr>cs_decode_tasks := remove1 t (cs_decode_tasks s), cs_failed := cs_failed s @ [t]\<rparr>"
  have p: "owned_ok ?s" "chunks_ok ?s" using ok ph len by (simp_all add: sess_ok_def owned_ok_def chunks_ok_def D)
  have q: "phase_facts null ?s" "grants_ok strict ?s" using ok ph by (auto simp: sess_ok_def phase_facts_def grants_ok_def)
  have "sess_ok null strict (session_failed ?s)" if "cs_phase s \<in> {Gathering, Running}"
  proof (rule sess_ok_failed)
    show "cs_result ?s = None" using q(1) that by (auto simp: phase_facts_def)
  qed (use p q that ph in \<open>simp_all add: grants_ok_def\<close>)
  then show "sess_ok null strict (decode_failed t seen s)" using p q by (simp add: decode_failed_def Let_def sess_ok_def)
  show "cs_owned (decode_failed t seen s) = cs_owned s" by (simp add: decode_failed_def Let_def session_failed_def)
qed

lemma sess_ok_gathered: "sess_ok null strict s \<Longrightarrow> cs_phase s = Gathering \<Longrightarrow> sess_ok null strict (gathered s)"
  unfolding gathered_def by (rule sess_ok_success) (auto simp: sess_ok_def phase_facts_def grants_ok_def)

lemma sess_ok_abort:
  "sess_ok null strict s \<Longrightarrow> cs_phase s = Aborting \<Longrightarrow> strict \<longrightarrow> acked \<Longrightarrow> sess_ok null strict (abort_ended null acked s)"
  by (auto simp: sess_ok_def owned_ok_def chunks_ok_def phase_facts_def grants_ok_def abort_ended_def)

lemma sess_ok_cleanup: "sess_ok null strict s \<Longrightarrow> cs_phase s = Cleanup \<Longrightarrow> cs_decode_tasks s = [] \<Longrightarrow> sess_ok null strict (cleanup_session s)"
  by (auto simp: sess_ok_def owned_ok_def chunks_ok_def phase_facts_def grants_ok_def cleanup_session_def)

section \<open>The invariant of the worker\<close>

definition consumer_inv :: "int \<Rightarrow> bool \<Rightarrow> nat \<Rightarrow> consumer_service \<Rightarrow> bool" where
  "consumer_inv null strict n kv \<longleftrightarrow> (\<forall>s \<in> set (kv_sessions kv). sess_ok null strict s) \<and>
     mset (kv_receiver_slots kv) + \<Sum>\<^sub># (image_mset (\<lambda>s. mset (cs_owned s)) (mset (kv_sessions kv))) = mset [0..<n]"

lemma consumer_inv_put:
  assumes inv: "consumer_inv null strict n kv" and i: "i < length (kv_sessions kv)" and ok: "sess_ok null strict s'"
    and sl: "mset slots + mset (cs_owned s') = mset (kv_receiver_slots kv) + mset (cs_owned (kv_sessions kv ! i))"
  shows "consumer_inv null strict n (put_session i s' slots kv)"
proof -
  obtain R where R: "mset (kv_sessions kv) = add_mset (kv_sessions kv ! i) R" using i by (metis mset_add nth_mem set_mset_mset)
  have "mset ((kv_sessions kv)[i := s']) = add_mset s' R" using i by (simp add: mset_update R)
  moreover have "\<forall>s \<in> set ((kv_sessions kv)[i := s']). sess_ok null strict s"
    using inv ok set_update_subset_insert[of "kv_sessions kv" i s'] by (auto simp: consumer_inv_def)
  ultimately show ?thesis using inv sl R by (simp add: consumer_inv_def put_session_def union_assoc[symmetric])
qed

lemma consumer_inv_sess: "consumer_inv null strict n kv \<Longrightarrow> i < length (kv_sessions kv) \<Longrightarrow> sess_ok null strict (kv_sessions kv ! i)"
  by (simp add: consumer_inv_def)

lemma owned_simps [simp]:
  "cs_owned (session_opened r s) = cs_owned s" "cs_owned (issue_chunk x s) = cs_owned s @ [x]" "cs_owned (gathered s) = cs_owned s"
  "cs_owned (abort_ended null acked s) = cs_owned s" "cs_owned (cleanup_session s) = []"
  by (simp_all add: session_opened_def session_failed_def return_success_def issue_chunk_def gathered_def abort_ended_def cleanup_session_def
      split: option.splits)

lemma consumer_step_inv:
  assumes "consumer_step null strict kv kv'" "consumer_inv null strict n kv"
  shows "consumer_inv null strict n kv'"
  using assms
proof (induction rule: consumer_step.induct)
  case (cs_start kv ids)
  then show ?case using sess_ok_new by (simp add: consumer_inv_def) (simp add: new_consumer_session_def)
next
  case (cs_open kv i s r)
  then show ?case using sess_ok_opened[OF consumer_inv_sess] by (intro consumer_inv_put) auto
next
  case (cs_issue kv i s x xs)
  then show ?case using sess_ok_issue[OF consumer_inv_sess] by (intro consumer_inv_put) auto
next
  case (cs_ready kv i s c ok)
  then show ?case using sess_ok_ready[OF consumer_inv_sess] by (intro consumer_inv_put) auto
next
  case (cs_decode_ok kv i s t)
  have ok: "sess_ok null strict s" "cs_phase s \<noteq> Ended" using cs_decode_ok consumer_inv_sess by auto
  show ?case using cs_decode_ok sess_ok_decode_done[OF ok, of t] by (intro consumer_inv_put) auto
next
  case (cs_decode_error kv i s t seen)
  have ok: "sess_ok null strict s" "cs_phase s \<noteq> Ended" using cs_decode_error consumer_inv_sess by auto
  show ?case using cs_decode_error sess_ok_decode_failed[OF ok, of t] by (intro consumer_inv_put) auto
next
  case (cs_gather kv i s)
  then show ?case using sess_ok_gathered[OF consumer_inv_sess] by (intro consumer_inv_put) auto
next
  case (cs_abort kv i s acked)
  then show ?case using sess_ok_abort[OF consumer_inv_sess] by (intro consumer_inv_put) auto
next
  case (cs_cleanup kv i s)
  then show ?case using sess_ok_cleanup[OF consumer_inv_sess] by (intro consumer_inv_put) auto
qed

interpretation consumer: inductive_invariant "consumer_init n" "consumer_step null strict" "consumer_inv null strict n" for n null strict
proof unfold_locales
  show "consumer_inv null strict n kv" if "consumer_init n kv" for kv using that by (simp add: consumer_init_def consumer_inv_def)
qed (rule consumer_step_inv)

section \<open>Slots\<close>

lemma count_upt: "count (mset [0..<n]) x \<le> 1"
  using distinct_count_atmost_1[THEN iffD1, OF distinct_upt[of 0 n], rule_format, of x] by (simp split: if_splits)

lemma count_owned: "(\<Sum>k < length xs. count (mset (cs_owned (xs ! k))) x) = count (\<Sum>\<^sub># (image_mset (\<lambda>s. mset (cs_owned s)) (mset xs))) x"
  by (induction xs rule: rev_induct) (simp_all add: nth_append)

lemma owned_private:
  assumes inv: "consumer_inv null strict n kv" and i: "i < length (kv_sessions kv)" and x: "x \<in> set (cs_owned (kv_sessions kv ! i))"
  shows "x \<notin> set (kv_receiver_slots kv)" and "j < length (kv_sessions kv) \<Longrightarrow> j \<noteq> i \<Longrightarrow> x \<notin> set (cs_owned (kv_sessions kv ! j))"
    and "count (mset (cs_owned (kv_sessions kv ! i))) x = 1"
proof -
  let ?own = "\<lambda>s. mset (cs_owned s)" and ?S = "kv_sessions kv"
  obtain R where R: "mset ?S = add_mset (?S ! i) R" using i by (metis mset_add nth_mem set_mset_mset)
  have all: "count (mset (kv_receiver_slots kv)) x + (count (?own (?S ! i)) x + count (\<Sum>\<^sub># (image_mset ?own R)) x) = count (mset [0..<n]) x"
    using inv R unfolding consumer_inv_def by (metis (no_types, lifting) count_union image_mset_add_mset sum_mset.insert)
  have pos: "0 < count (?own (?S ! i)) x" using x by simp
  show "count (?own (?S ! i)) x = 1" using all pos count_upt[of n x] by linarith
  have "count (mset (kv_receiver_slots kv)) x = 0" using all pos count_upt[of n x] by linarith
  then show "x \<notin> set (kv_receiver_slots kv)" by (simp add: count_mset_0_iff)
  show "x \<notin> set (cs_owned (?S ! j))" if "j < length ?S" "j \<noteq> i"
  proof -
    have "{i, j} \<subseteq> {..<length ?S}" using i that by simp
    then have "(\<Sum>k \<in> {i, j}. count (?own (?S ! k)) x) \<le> (\<Sum>k < length ?S. count (?own (?S ! k)) x)" by (intro sum_mono2) auto
    then have two: "count (?own (?S ! i)) x + count (?own (?S ! j)) x \<le> (\<Sum>k < length ?S. count (?own (?S ! k)) x)" using that(2) by simp
    have "(\<Sum>k < length ?S. count (?own (?S ! k)) x) = count (\<Sum>\<^sub># (image_mset ?own (mset ?S))) x" by (rule count_owned)
    also have "\<dots> = count (?own (?S ! i)) x + count (\<Sum>\<^sub># (image_mset ?own R)) x" unfolding R by simp
    finally have "count (?own (?S ! j)) x = 0" using two all pos count_upt[of n x] by linarith
    then show ?thesis by (simp add: count_mset_0_iff)
  qed
qed

text \<open>
  C7: When every abort is acknowledged, a receiver slot that the producer may still write for a chunk of a session is owned by that
  session alone: it is not in the queue of free slots, no other session owns it, no other chunk of the session uses it, and it is not
  being decoded.
\<close>

theorem granted_slots_private:
  assumes "reach (consumer_init n) (consumer_step null True) kv" "i < length (kv_sessions kv)" "(c, x) \<in> set (cs_grants (kv_sessions kv ! i))"
  shows "x \<in> set (cs_owned (kv_sessions kv ! i)) \<and> x \<notin> set (kv_receiver_slots kv) \<and>
    (\<forall>j < length (kv_sessions kv). j \<noteq> i \<longrightarrow> x \<notin> set (cs_owned (kv_sessions kv ! j))) \<and>
    (\<forall>c'. (c', x) \<in> set (cs_inflight (kv_sessions kv ! i)) \<longrightarrow> c' = c) \<and> x \<notin> snd ` set (cs_decode_tasks (kv_sessions kv ! i))"
proof -
  let ?s = "kv_sessions kv ! i"
  have inv: "consumer_inv null True n kv" by (rule consumer.reach_inv[OF assms(1)])
  have ok: "sess_ok null True ?s" by (rule consumer_inv_sess[OF inv assms(2)])
  have inf: "(c, x) \<in> set (cs_inflight ?s)" and ph: "cs_phase ?s \<noteq> Ended" using ok assms(3) by (auto simp: sess_ok_def grants_ok_def)
  obtain I where I: "mset (cs_inflight ?s) = add_mset (c, x) I" using inf by (metis mset_add set_mset_mset)
  have own: "mset (cs_owned ?s) = mset (map snd (cs_inflight ?s)) + mset (map snd (cs_decode_tasks ?s)) + mset (map snd (cs_failed ?s))"
    using ok ph by (simp add: sess_ok_def owned_ok_def)
  have x: "x \<in> set (cs_owned ?s)" using arg_cong[OF own, of set_mset] inf by force
  note priv = owned_private[OF inv assms(2) x]
  have cnt: "count (image_mset snd I) x + count (image_mset snd (mset (cs_decode_tasks ?s))) x = 0"
    using arg_cong[OF own, of "\<lambda>m. count m x"] priv(3) I by simp
  have "c' = c" if "(c', x) \<in> set (cs_inflight ?s)" for c'
  proof (rule ccontr)
    assume "c' \<noteq> c"
    moreover have "(c', x) \<in># add_mset (c, x) I" using that unfolding I[symmetric] by simp
    ultimately have "(c', x) \<in># I" by simp
    then have "x \<in># image_mset snd I" by force
    then show False using cnt by (simp add: count_eq_zero_iff)
  qed
  moreover have "x \<notin> snd ` set (cs_decode_tasks ?s)" using cnt by (simp add: count_eq_zero_iff)
  ultimately show ?thesis using x priv(1,2) by blast
qed

text \<open>
  C20: A session that ends with no failed block, of a request that has blocks, has asked for every chunk and got every answer, and has
  started exactly one decode job for each of its chunks; every job whose exception was not lost along the way succeeded.
\<close>

theorem consumer_success_complete:
  assumes "reach (consumer_init n) (consumer_step null strict) kv" "s \<in> set (kv_sessions kv)" "cs_phase s = Ended"
    and "cs_result s = Some {}" "all_blocks null (cs_block_ids s) \<noteq> {}"
  shows "cs_inflight s = [] \<and> mset (map fst (cs_decoded s)) + mset (map fst (cs_failed s)) = mset [0..<cs_total_chunks s] \<and>
    (cs_failed s = [] \<longrightarrow> distinct (map fst (cs_decoded s)) \<and> set (map fst (cs_decoded s)) = {..<cs_total_chunks s})"
proof -
  have ok: "sess_ok null strict s" using consumer.reach_inv[OF assms(1)] assms(2) by (simp add: consumer_inv_def)
  have ch: "chunks_ok s" and c: "cs_completed s = cs_total_chunks s" and d: "cs_decode_tasks s = []"
    using ok assms(3-5) by (auto simp: sess_ok_def phase_facts_def)
  note all = completed_all[OF ch c]
  have m: "mset (map fst (cs_decoded s)) + mset (map fst (cs_failed s)) = mset [0..<cs_total_chunks s]"
    using ch all d by (simp add: chunks_ok_def)
  have "distinct (map fst (cs_decoded s))" "set (map fst (cs_decoded s)) = {..<cs_total_chunks s}" if "cs_failed s = []"
  proof -
    have eq: "mset (map fst (cs_decoded s)) = mset [0..<cs_total_chunks s]" using m that by simp
    show "distinct (map fst (cs_decoded s))" using mset_eq_imp_distinct_iff[OF eq] by simp
    show "set (map fst (cs_decoded s)) = {..<cs_total_chunks s}" using mset_eq_setD[OF eq] by auto
  qed
  then show ?thesis using all(1) m by blast
qed

section \<open>Runs\<close>

text \<open>Two slots; the first session asks for two chunks.\<close>

definition kv_0 :: consumer_service where "kv_0 = \<lparr>kv_receiver_slots = [0, 1], kv_sessions = []\<rparr>"

definition kv_1 :: consumer_service where "kv_1 = kv_0\<lparr>kv_sessions := kv_sessions kv_0 @ [new_consumer_session [[5]]]\<rparr>"

definition kv_2 :: consumer_service where "kv_2 = put_session 0 (session_opened (Some 2) (kv_sessions kv_1 ! 0)) (kv_receiver_slots kv_1) kv_1"

definition kv_3 :: consumer_service where "kv_3 = put_session 0 (issue_chunk 0 (kv_sessions kv_2 ! 0)) ([1]) kv_2"

definition kv_4 :: consumer_service where "kv_4 = put_session 0 (issue_chunk 1 (kv_sessions kv_3 ! 0)) ([]) kv_3"

definition kv_a1 :: consumer_service where "kv_a1 = put_session 0 (chunk_ready 0 True (kv_sessions kv_4 ! 0)) (kv_receiver_slots kv_4) kv_4"

definition kv_a2 :: consumer_service where "kv_a2 = put_session 0 (decode_failed (0, 0) False (kv_sessions kv_a1 ! 0)) (kv_receiver_slots kv_a1) kv_a1"

definition kv_a3 :: consumer_service where "kv_a3 = put_session 0 (chunk_ready 1 True (kv_sessions kv_a2 ! 0)) (kv_receiver_slots kv_a2) kv_a2"

definition kv_a4 :: consumer_service where "kv_a4 = put_session 0 (decode_done (1, 1) (kv_sessions kv_a3 ! 0)) (kv_receiver_slots kv_a3 @ [snd (1 :: nat, 1)]) kv_a3"

definition kv_a5 :: consumer_service where "kv_a5 = put_session 0 (gathered (kv_sessions kv_a4 ! 0)) (kv_receiver_slots kv_a4) kv_a4"

definition kv_a6 :: consumer_service where "kv_a6 = put_session 0 (cleanup_session (kv_sessions kv_a5 ! 0)) (kv_receiver_slots kv_a5 @ cs_owned (kv_sessions kv_a5 ! 0)) kv_a5"

definition kv_b1 :: consumer_service where "kv_b1 = put_session 0 (chunk_ready 1 False (kv_sessions kv_4 ! 0)) (kv_receiver_slots kv_4) kv_4"

definition kv_b2 :: consumer_service where "kv_b2 = put_session 0 (abort_ended 0 False (kv_sessions kv_b1 ! 0)) (kv_receiver_slots kv_b1) kv_b1"

definition kv_b3 :: consumer_service where "kv_b3 = put_session 0 (cleanup_session (kv_sessions kv_b2 ! 0)) (kv_receiver_slots kv_b2 @ cs_owned (kv_sessions kv_b2 ! 0)) kv_b2"

definition kv_b4 :: consumer_service where "kv_b4 = kv_b3\<lparr>kv_sessions := kv_sessions kv_b3 @ [new_consumer_session [[6]]]\<rparr>"

definition kv_b5 :: consumer_service where "kv_b5 = put_session 1 (session_opened (Some 1) (kv_sessions kv_b4 ! 1)) (kv_receiver_slots kv_b4) kv_b4"

definition kv_b6 :: consumer_service where "kv_b6 = put_session 1 (issue_chunk 0 (kv_sessions kv_b5 ! 1)) [1] kv_b5"

lemma kv_0_reach: "reach (consumer_init 2) (consumer_step 0 b) kv_0"
  by (rule reach_init) code_simp

lemma kv_1_reach: "reach (consumer_init 2) (consumer_step 0 b) kv_1"
  unfolding kv_1_def by (rule reach_step[OF kv_0_reach cs_start])

lemma kv_2_reach: "reach (consumer_init 2) (consumer_step 0 b) kv_2"
  unfolding kv_2_def by (rule reach_step[OF kv_1_reach cs_open[where i = 0]]; code_simp)

lemma kv_3_reach: "reach (consumer_init 2) (consumer_step 0 b) kv_3"
  unfolding kv_3_def by (rule reach_step[OF kv_2_reach cs_issue[where i = 0]]; code_simp)

lemma kv_4_reach: "reach (consumer_init 2) (consumer_step 0 b) kv_4"
  unfolding kv_4_def by (rule reach_step[OF kv_3_reach cs_issue[where i = 0]]; code_simp)

lemma kv_a1_reach: "reach (consumer_init 2) (consumer_step 0 b) kv_a1"
  unfolding kv_a1_def by (rule reach_step[OF kv_4_reach cs_ready[where i = 0]]; code_simp)

lemma kv_a2_reach: "reach (consumer_init 2) (consumer_step 0 b) kv_a2"
  unfolding kv_a2_def by (rule reach_step[OF kv_a1_reach cs_decode_error[where i = 0]]; code_simp)

lemma kv_a3_reach: "reach (consumer_init 2) (consumer_step 0 b) kv_a3"
  unfolding kv_a3_def by (rule reach_step[OF kv_a2_reach cs_ready[where i = 0]]; code_simp)

lemma kv_a4_reach: "reach (consumer_init 2) (consumer_step 0 b) kv_a4"
  unfolding kv_a4_def by (rule reach_step[OF kv_a3_reach cs_decode_ok[where i = 0]]; code_simp)

lemma kv_a5_reach: "reach (consumer_init 2) (consumer_step 0 b) kv_a5"
  unfolding kv_a5_def by (rule reach_step[OF kv_a4_reach cs_gather[where i = 0]]; code_simp)

lemma kv_a6_reach: "reach (consumer_init 2) (consumer_step 0 b) kv_a6"
  unfolding kv_a6_def by (rule reach_step[OF kv_a5_reach cs_cleanup[where i = 0]]; code_simp)

lemma kv_b1_reach: "reach (consumer_init 2) (consumer_step 0 False) kv_b1"
  unfolding kv_b1_def by (rule reach_step[OF kv_4_reach cs_ready[where i = 0]]; code_simp)

lemma kv_b2_reach: "reach (consumer_init 2) (consumer_step 0 False) kv_b2"
  unfolding kv_b2_def by (rule reach_step[OF kv_b1_reach cs_abort[where i = 0]]; code_simp)

lemma kv_b3_reach: "reach (consumer_init 2) (consumer_step 0 False) kv_b3"
  unfolding kv_b3_def by (rule reach_step[OF kv_b2_reach cs_cleanup[where i = 0]]; code_simp)

lemma kv_b4_reach: "reach (consumer_init 2) (consumer_step 0 False) kv_b4"
  unfolding kv_b4_def by (rule reach_step[OF kv_b3_reach cs_start])

lemma kv_b5_reach: "reach (consumer_init 2) (consumer_step 0 False) kv_b5"
  unfolding kv_b5_def by (rule reach_step[OF kv_b4_reach cs_open[where i = 1]]; code_simp)

lemma kv_b6_reach: "reach (consumer_init 2) (consumer_step 0 False) kv_b6"
  unfolding kv_b6_def by (rule reach_step[OF kv_b5_reach cs_issue[where i = 1]]; code_simp)

text \<open>
  A run ends with the empty set of failed blocks although the decode job of its first chunk failed: the task of that
  job had left \<open>decode_tasks\<close> when the loop looked for exceptions, and all aborts of the run were acknowledged.
\<close>

lemma decode_failure_lost:
  "reach (consumer_init 2) (consumer_step 0 True) kv_a6 \<and> map cs_phase (kv_sessions kv_a6) = [Ended] \<and>
   map cs_result (kv_sessions kv_a6) = [Some {}] \<and> map cs_failed (kv_sessions kv_a6) = [[(0, 0)]] \<and>
   map (\<lambda>s. all_blocks 0 (cs_block_ids s)) (kv_sessions kv_a6) = [{5}]"
proof -
  have "map cs_phase (kv_sessions kv_a6) = [Ended]" "map cs_result (kv_sessions kv_a6) = [Some {}]"
    "map cs_failed (kv_sessions kv_a6) = [[(0, 0)]]" "map (\<lambda>s. all_blocks 0 (cs_block_ids s)) (kv_sessions kv_a6) = [{5}]" by code_simp+
  then show ?thesis using kv_a6_reach by blast
qed

text \<open>
  When an abort is not acknowledged the slots of the session go back to the queue all the same: a run gives slot \<open>0\<close> to a second
  session while the producer may still write a chunk of the first one into it.
\<close>

lemma unacknowledged_slot_reused:
  "reach (consumer_init 2) (consumer_step 0 False) kv_b6 \<and> cs_grants (kv_sessions kv_b6 ! 0) = [(0, 0)] \<and>
   cs_phase (kv_sessions kv_b6 ! 0) = Ended \<and> cs_inflight (kv_sessions kv_b6 ! 1) = [(0, 0)]"
proof -
  have "cs_grants (kv_sessions kv_b6 ! 0) = [(0, 0)]" "cs_phase (kv_sessions kv_b6 ! 0) = Ended"
    "cs_inflight (kv_sessions kv_b6 ! 1) = [(0, 0)]" by code_simp+
  then show ?thesis using kv_b6_reach by blast
qed

theorem granted_slots_private_witness:
  "1 \<in> set (cs_owned (kv_sessions kv_4 ! 0)) \<and> 1 \<notin> set (kv_receiver_slots kv_4) \<and> 1 \<notin> snd ` set (cs_decode_tasks (kv_sessions kv_4 ! 0))"
proof -
  have "0 < length (kv_sessions kv_4)" "(1, 1) \<in> set (cs_grants (kv_sessions kv_4 ! 0))" by code_simp+
  then show ?thesis using granted_slots_private[OF kv_4_reach] by blast
qed

theorem consumer_success_complete_witness:
  "mset (map fst (cs_decoded (kv_sessions kv_a6 ! 0))) + mset (map fst (cs_failed (kv_sessions kv_a6 ! 0))) = mset [0..<2]"
proof -
  have "kv_sessions kv_a6 ! 0 \<in> set (kv_sessions kv_a6)" "cs_phase (kv_sessions kv_a6 ! 0) = Ended" "cs_result (kv_sessions kv_a6 ! 0) = Some {}"
    "all_blocks 0 (cs_block_ids (kv_sessions kv_a6 ! 0)) \<noteq> {}" "cs_total_chunks (kv_sessions kv_a6 ! 0) = 2" by code_simp+
  then show ?thesis using consumer_success_complete[OF kv_a6_reach[of True]] by metis
qed

end
