(* ===== verification/Mooncake_Scheduler.thy ===== *)
theory Mooncake_Scheduler
  imports Session_Producer
begin

text \<open>
  The scheduler of the Mooncake connector (\<open>MooncakeConnectorScheduler\<close> of \<^verbatim>\<open>mooncake/mooncake_connector.py\<close>), the metadata it hands
  to the worker and what the worker tells the session helper.  Requests are shared objects whose transfer parameters the scheduler
  changes; they live in a heap by their id.  vLLM's selection of the transferred groups is a parameter of the configuration.
\<close>

section \<open>State\<close>

text \<open>The dict \<open>kv_transfer_params\<close>, field by field; \<open>None\<close> is a missing key.\<close>

record kv_params =
  kp_prefill :: "bool option"
  kp_decode :: "bool option"
  kp_transfer_id :: "string option"
  kp_engine_id :: "string option"
  kp_bootstrap :: "string option"
  kp_truncated :: bool

definition params_truthy :: "kv_params option \<Rightarrow> bool" where
  "params_truthy p = (case p of None \<Rightarrow> False
     | Some q \<Rightarrow> \<not> (kp_prefill q = None \<and> kp_decode q = None \<and> kp_transfer_id q = None \<and> kp_engine_id q = None \<and> kp_bootstrap q = None \<and> \<not> kp_truncated q))"

definition flag :: "bool option \<Rightarrow> bool" where
  "flag b \<longleftrightarrow> b = Some True"

definition has_text :: "string option \<Rightarrow> bool" where
  "has_text s = (case s of None \<Rightarrow> False | Some t \<Rightarrow> t \<noteq> [])"

record m_request =
  mr_params :: "kv_params option"
  mr_prompt_token_ids :: "int list option"
  mr_prompt_embeds :: "int list option"
  mr_all_token_ids :: "int list"
  mr_num_prompt_tokens :: int
  mr_max_tokens :: int
  mr_length_capped :: bool
  mr_num_computed_tokens :: int
  mr_num_in_flight_tokens :: int

record mooncake_config =
  mc_producer :: bool
  mc_consumer :: bool
  mc_hma_required :: bool
  mc_has_mamba :: bool
  mc_block_size :: int
  mc_windows :: "(int \<times> int) option list"
  mc_transfer_groups :: nat
  mc_select :: "int list list \<Rightarrow> int list list"

record mooncake_sched =
  ms_requests :: "(string \<times> m_request) list"
  ms_need_recv :: "(string \<times> int list list) list"
  ms_need_send :: "(string \<times> int list list) list"
  ms_send_num_tokens :: "(string \<times> int) list"
  ms_not_processed :: "string set"

definition new_mooncake_sched :: mooncake_sched where
  "new_mooncake_sched = \<lparr>ms_requests = [], ms_need_recv = [], ms_need_send = [], ms_send_num_tokens = [], ms_not_processed = {}\<rparr>"

text \<open>The sliding windows of the groups, in blocks; \<open>None\<close> for a group without one.\<close>

definition blocks_per_sw :: "mooncake_config \<Rightarrow> int list result" where
  "blocks_per_sw mc = map_res (\<lambda>w. let (n, bs) = (case w of None \<Rightarrow> (0, mc_block_size mc) | Some (n, bs) \<Rightarrow> (n, bs)) in
     if n = 0 then Inr 0 else if bs = 0 then Inl ZeroDivisionError else Inr (- (- n div bs) + 1)) (mc_windows mc)"

section \<open>Operations\<close>

definition clip_window :: "int list \<Rightarrow> nat \<times> int list \<Rightarrow> int list result" where
  "clip_window sw x = (case x of (i, blocks) \<Rightarrow>
     if length sw \<le> i then Inl IndexError
     else if 0 < sw ! i then Inr (drop (length blocks - nat (sw ! i)) blocks) else Inr blocks)"

definition get_sw_clipped_blocks :: "mooncake_config \<Rightarrow> int list \<Rightarrow> int list list \<Rightarrow> int list list result" where
  "get_sw_clipped_blocks mc sw ids =
     (if ids = [] then Inr []
      else let selected = (if length ids = mc_transfer_groups mc then ids else mc_select mc ids) in
        if selected = [] \<or> \<not> mc_hma_required mc then Inr selected
        else map_res (clip_window sw) (List.enumerate 0 selected))"

definition get_remote_prefill_token_count :: "mooncake_config \<Rightarrow> int \<Rightarrow> int" where
  "get_remote_prefill_token_count mc n = (if mc_has_mamba mc \<and> 1 < n then n - 1 else n)"

definition truncate_mamba_request_for_prefill :: "m_request \<Rightarrow> m_request result" where
  "truncate_mamba_request_for_prefill r = (case mr_params r of
       None \<Rightarrow> Inr r
     | Some p \<Rightarrow>
         if kp_truncated p \<or> mr_num_prompt_tokens r \<le> 1 then Inr r
         else bind_res (case mr_prompt_token_ids r of
                 Some ids \<Rightarrow> if ids = [] then Inl IndexError else Inr (Some (r\<lparr>mr_prompt_token_ids := Some (butlast ids)\<rparr>))
               | None \<Rightarrow> Inr (map_option (\<lambda>e. r\<lparr>mr_prompt_embeds := Some (butlast e)\<rparr>) (mr_prompt_embeds r))) (\<lambda>x. case x of
             None \<Rightarrow> Inr r
           | Some r1 \<Rightarrow>
               if mr_all_token_ids r1 = [] then Inl IndexError
               else Inr (r1\<lparr>mr_all_token_ids := butlast (mr_all_token_ids r1), mr_num_prompt_tokens := mr_num_prompt_tokens r1 - 1,
                            mr_max_tokens := 1, mr_params := Some (p\<lparr>kp_truncated := True\<rparr>)\<rparr>)))"

definition on_new_request :: "mooncake_config \<Rightarrow> m_request \<Rightarrow> m_request result" where
  "on_new_request mc r = (case mr_params r of
       None \<Rightarrow> Inr r
     | Some p \<Rightarrow> if flag (kp_decode p) \<and> mc_has_mamba mc then truncate_mamba_request_for_prefill r else Inr r)"

definition get_num_new_matched_tokens :: "mooncake_config \<Rightarrow> m_request \<Rightarrow> int \<Rightarrow> (int \<times> bool) result" where
  "get_num_new_matched_tokens mc r num_computed =
     (if \<not> params_truthy (mr_params r) then Inr (0, False)
      else if flag (kp_prefill (the (mr_params r)))
      then if mc_producer mc then Inl AssertionError
           else let ids = (case mr_prompt_token_ids r of None \<Rightarrow> [] | Some xs \<Rightarrow> xs);
                    n = get_remote_prefill_token_count mc (int (length ids)) - num_computed
                in Inr (if 0 < n then (n, True) else (0, False))
      else Inr (0, False))"

definition update_request :: "string \<Rightarrow> (m_request \<Rightarrow> m_request) \<Rightarrow> mooncake_sched \<Rightarrow> mooncake_sched" where
  "update_request rid f ms = ms\<lparr>ms_requests := map (\<lambda>(k, r). (k, if k = rid then f r else r)) (ms_requests ms)\<rparr>"

definition clear_prefill :: "m_request \<Rightarrow> m_request" where
  "clear_prefill r = r\<lparr>mr_params := map_option (\<lambda>p. p\<lparr>kp_prefill := Some False\<rparr>) (mr_params r)\<rparr>"

text \<open>\<open>unhashed\<close> are the blocks of the request that vLLM's allocation left without a hash.\<close>

definition update_state_after_alloc ::
    "mooncake_config \<Rightarrow> int list \<Rightarrow> string \<Rightarrow> int list list \<Rightarrow> int \<Rightarrow> mooncake_sched \<Rightarrow> mooncake_sched result" where
  "update_state_after_alloc mc sw rid unhashed num_external ms = (case map_of (ms_requests ms) rid of
       None \<Rightarrow> Inl KeyError
     | Some r \<Rightarrow>
         if \<not> params_truthy (mr_params r) then Inr ms
         else let p = the (mr_params r) in
           if flag (kp_prefill p)
           then if mc_producer mc then Inl AssertionError
                else if kp_engine_id p \<noteq> None \<and> kp_bootstrap p \<noteq> None \<and> kp_transfer_id p \<noteq> None
                then bind_res (get_sw_clipped_blocks mc sw (if 0 < num_external then unhashed else [])) (\<lambda>ids.
                       Inr (update_request rid clear_prefill (ms\<lparr>ms_need_recv := dict_set (ms_need_recv ms) rid ids\<rparr>)))
                else Inr (update_request rid clear_prefill ms)
           else if flag (kp_decode p)
           then if mc_consumer mc then Inl AssertionError
                else if \<not> has_text (kp_transfer_id p) then Inr ms
                else Inr (ms\<lparr>ms_need_send := dict_set (ms_need_send ms) rid []\<rparr>)
           else Inr ms)"

section \<open>Metadata\<close>

record pull_req_meta =
  pr_d_req_id :: string
  pr_transfer_id :: string
  pr_local_block_ids :: "int list list"
  pr_engine_id :: string
  pr_bootstrap :: string
  pr_num_tokens :: "int option"

record mooncake_meta =
  mm_recv :: "(string \<times> (string \<times> pull_req_meta) list) list"
  mm_send :: "(string \<times> string \<times> int list list) list"
  mm_not_processed :: "string set"
  mm_num_tokens :: "(string \<times> int option) list"

definition add_new_req :: "string \<Rightarrow> int list list \<Rightarrow> kv_params \<Rightarrow> bool \<Rightarrow> int option \<Rightarrow> mooncake_meta \<Rightarrow> mooncake_meta result" where
  "add_new_req rid ids p load_remote num_tokens mm = (case kp_transfer_id p of
       None \<Rightarrow> Inl KeyError
     | Some tid \<Rightarrow>
         let mm1 = mm\<lparr>mm_num_tokens := dict_set (mm_num_tokens mm) rid num_tokens\<rparr> in
         if load_remote
         then (case (kp_engine_id p, kp_bootstrap p) of
             (Some e, Some b) \<Rightarrow>
               let old = (case map_of (mm_recv mm1) e of None \<Rightarrow> [] | Some d \<Rightarrow> d) in
               Inr (mm1\<lparr>mm_recv := dict_set (mm_recv mm1) e (dict_set old rid \<lparr>pr_d_req_id = rid, pr_transfer_id = tid, pr_local_block_ids = ids,
                      pr_engine_id = e, pr_bootstrap = b, pr_num_tokens = num_tokens\<rparr>)\<rparr>)
           | _ \<Rightarrow> Inl KeyError)
         else Inr (mm1\<lparr>mm_send := dict_set (mm_send mm1) rid (tid, ids)\<rparr>))"

definition request_params_of :: "mooncake_sched \<Rightarrow> string \<Rightarrow> (m_request \<times> kv_params) result" where
  "request_params_of ms rid = (case map_of (ms_requests ms) rid of None \<Rightarrow> Inl KeyError
     | Some r \<Rightarrow> (case mr_params r of None \<Rightarrow> Inl AssertionError | Some p \<Rightarrow> Inr (r, p)))"

definition add_recv :: "mooncake_config \<Rightarrow> mooncake_sched \<Rightarrow> string \<times> int list list \<Rightarrow> mooncake_meta \<Rightarrow> mooncake_meta result" where
  "add_recv mc ms x mm = (case x of (rid, ids) \<Rightarrow> bind_res (request_params_of ms rid) (\<lambda>(r, p).
     add_new_req rid ids p True (Some (get_remote_prefill_token_count mc (mr_num_prompt_tokens r))) mm))"

definition add_send :: "mooncake_sched \<Rightarrow> string \<times> int list list \<Rightarrow> mooncake_meta \<times> (string \<times> int) list \<Rightarrow> (mooncake_meta \<times> (string \<times> int) list) result" where
  "add_send ms x acc = (case x of (rid, ids) \<Rightarrow> case acc of (mm, counts) \<Rightarrow> bind_res (request_params_of ms rid) (\<lambda>(r, p).
     bind_res (add_new_req rid ids p False (map_of counts rid) mm) (\<lambda>mm1. Inr (mm1, dict_pop counts rid))))"

definition build_connector_meta :: "mooncake_config \<Rightarrow> mooncake_sched \<Rightarrow> (mooncake_sched \<times> mooncake_meta) result" where
  "build_connector_meta mc ms =
     (let mm0 = \<lparr>mm_recv = [], mm_send = [], mm_not_processed = {}, mm_num_tokens = []\<rparr> in
      bind_res (if mc_producer mc then Inr (ms, mm0)
                else bind_res (fold_res (add_recv mc ms) (ms_need_recv ms) mm0) (\<lambda>mm. Inr (ms\<lparr>ms_need_recv := []\<rparr>, mm))) (\<lambda>(ms1, mm1).
      if mc_consumer mc then Inr (ms1, mm1)
      else bind_res (fold_res (add_send ms1) (ms_need_send ms1) (mm1, ms_send_num_tokens ms1)) (\<lambda>(mm2, counts).
        Inr (ms1\<lparr>ms_need_send := [], ms_send_num_tokens := counts, ms_not_processed := {}\<rparr>, mm2\<lparr>mm_not_processed := ms_not_processed ms1\<rparr>))))"

definition request_finished ::
    "mooncake_config \<Rightarrow> int list \<Rightarrow> string \<Rightarrow> int list list \<Rightarrow> mooncake_sched \<Rightarrow> (mooncake_sched \<times> bool) result" where
  "request_finished mc sw rid block_ids ms = (case map_of (ms_requests ms) rid of
       None \<Rightarrow> Inl KeyError
     | Some r \<Rightarrow>
         if \<not> params_truthy (mr_params r) \<or> \<not> has_text (kp_transfer_id (the (mr_params r))) then Inr (ms, False)
         else let p = the (mr_params r) in
           if flag (kp_prefill p)
           then if mc_producer mc then Inl AssertionError
                else Inr (update_request rid clear_prefill (ms\<lparr>ms_need_recv := dict_set (ms_need_recv ms) rid []\<rparr>), False)
           else if \<not> flag (kp_decode p) then Inr (ms, False)
           else if mc_consumer mc then Inl AssertionError
           else if \<not> mr_length_capped r then Inr (ms\<lparr>ms_not_processed := insert (the (kp_transfer_id p)) (ms_not_processed ms)\<rparr>, False)
           else if \<not> list_ex (\<lambda>g. g \<noteq> []) block_ids then Inr (ms, False)
           else bind_res (get_sw_clipped_blocks mc sw block_ids) (\<lambda>ids.
             Inr (ms\<lparr>ms_send_num_tokens := dict_set (ms_send_num_tokens ms) rid
                        (min (mr_num_computed_tokens r - mr_num_in_flight_tokens r) (mr_num_prompt_tokens r)),
                     ms_need_send := dict_set (ms_need_send ms) rid ids\<rparr>, True)))"

section \<open>What the helper is told\<close>

definition announced_of :: "mooncake_meta \<Rightarrow> announcement list" where
  "announced_of mm = map (\<lambda>(rid, tid, ids). \<lparr>an_p_req_id = rid, an_transfer_id = tid, an_local_block_ids = ids,
     an_num_tokens = (case map_of (mm_num_tokens mm) rid of None \<Rightarrow> None | Some n \<Rightarrow> n)\<rparr>) (filter (\<lambda>(_, _, ids). ids \<noteq> []) (mm_send mm))"

definition published_of :: "mooncake_meta \<Rightarrow> (string \<times> string) list" where
  "published_of mm = map (\<lambda>(rid, tid, _). (rid, tid)) (filter (\<lambda>(_, _, ids). ids = []) (mm_send mm))"

text \<open>\<open>_producer_session_metadata\<close>; the order of the dropped transfers is that of a set.\<close>

definition producer_session_metadata :: "mooncake_meta \<Rightarrow> announcement list \<times> (string \<times> string) list \<times> string set" where
  "producer_session_metadata mm = (announced_of mm, published_of mm, mm_not_processed mm)"

record consumer_request =
  cr_d_req_id :: string
  cr_transfer_id :: string
  cr_local_block_ids :: "int list list"
  cr_num_tokens :: "int option"
  cr_engine_id :: string
  cr_bootstrap :: string

definition consumer_session_metadata :: "mooncake_meta \<Rightarrow> consumer_request list" where
  "consumer_session_metadata mm = concat (map (\<lambda>(_, pulls). map (\<lambda>(_, m). \<lparr>cr_d_req_id = pr_d_req_id m, cr_transfer_id = pr_transfer_id m,
     cr_local_block_ids = pr_local_block_ids m, cr_num_tokens = pr_num_tokens m, cr_engine_id = pr_engine_id m, cr_bootstrap = pr_bootstrap m\<rparr>) pulls) (mm_recv mm))"

section \<open>Requests and metadata\<close>

lemma map_of_update_request:
  "map_of (ms_requests (update_request rid f ms)) k = (if k = rid then map_option f (map_of (ms_requests ms) k) else map_of (ms_requests ms) k)"
proof -
  have "map_of (map (\<lambda>(k, r). (k, if k = rid then f r else r)) xs) k = (if k = rid then map_option f (map_of xs k) else map_of xs k)" for xs
    by (induction xs) auto
  then show ?thesis by (simp add: update_request_def)
qed

lemma update_request_frame [simp]:
  "ms_need_recv (update_request rid f ms) = ms_need_recv ms" "ms_need_send (update_request rid f ms) = ms_need_send ms"
  "ms_send_num_tokens (update_request rid f ms) = ms_send_num_tokens ms"
  by (simp_all add: update_request_def)

definition pulls :: "mooncake_meta \<Rightarrow> (string \<times> pull_req_meta) list" where
  "pulls mm = concat (map snd (mm_recv mm))"

lemma consumer_requests_ids:
  "\<forall>(k, m) \<in> set (pulls mm). pr_d_req_id m = k \<Longrightarrow> map cr_d_req_id (consumer_session_metadata mm) = map fst (pulls mm)"
  by (auto simp: consumer_session_metadata_def pulls_def map_concat comp_def split_beta intro!: arg_cong[where f = concat])

lemma mset_nested_add:
  "mset (concat (map snd (dict_set d e ((case map_of d e of None \<Rightarrow> [] | Some x \<Rightarrow> x) @ [y])))) = add_mset y (mset (concat (map snd d)))"
  by (induction d) auto

lemma add_new_recv:
  assumes "add_new_req rid ids p True num_tokens mm = Inr mm'"
  obtains e m old where "mm_recv mm' = dict_set (mm_recv mm) e (dict_set old rid m)" "old = (case map_of (mm_recv mm) e of None \<Rightarrow> [] | Some d \<Rightarrow> d)"
    "pr_d_req_id m = rid" "pr_num_tokens m = num_tokens" "set old \<subseteq> set (pulls mm)"
proof -
  obtain tid where tid: "kp_transfer_id p = Some tid" using assms by (cases "kp_transfer_id p") (simp_all add: add_new_req_def)
  obtain e where e: "kp_engine_id p = Some e" using assms tid by (cases "kp_engine_id p") (simp_all add: add_new_req_def Let_def)
  obtain b where b: "kp_bootstrap p = Some b" using assms tid e by (cases "kp_bootstrap p") (simp_all add: add_new_req_def Let_def)
  have "set (case map_of (mm_recv mm) e of None \<Rightarrow> [] | Some d \<Rightarrow> d) \<subseteq> set (pulls mm)"
  proof (cases "map_of (mm_recv mm) e")
    case (Some d)
    then have "(e, d) \<in> set (mm_recv mm)" by (rule map_of_SomeD)
    then show ?thesis using Some by (auto simp: pulls_def intro!: bexI[of _ "(e, d)"])
  qed simp
  then show thesis using assms tid e b that by (auto simp: add_new_req_def Let_def)
qed

lemma add_recv_cases:
  assumes "add_recv mc ms (rid, ids) mm = Inr mm'"
  obtains r e m old where "map_of (ms_requests ms) rid = Some r" "mm_recv mm' = dict_set (mm_recv mm) e (dict_set old rid m)"
    "old = (case map_of (mm_recv mm) e of None \<Rightarrow> [] | Some d \<Rightarrow> d)" "pr_d_req_id m = rid" "set old \<subseteq> set (pulls mm)"
    "pr_num_tokens m = Some (get_remote_prefill_token_count mc (mr_num_prompt_tokens r))"
proof -
  obtain r p where rp: "request_params_of ms rid = Inr (r, p)"
      "add_new_req rid ids p True (Some (get_remote_prefill_token_count mc (mr_num_prompt_tokens r))) mm = Inr mm'"
    using assms unfolding add_recv_def by (auto simp: bind_res_eq_Inr)
  have r: "map_of (ms_requests ms) rid = Some r" using rp(1) by (auto simp: request_params_of_def split: option.splits)
  show thesis using that[OF r] by (rule add_new_recv[OF rp(2)])
qed

lemma add_recv_pulls:
  assumes "add_recv mc ms (rid, ids) mm = Inr mm'" "rid \<notin> fst ` set (pulls mm)"
  shows "\<exists>m. mset (pulls mm') = add_mset (rid, m) (mset (pulls mm)) \<and> pr_d_req_id m = rid"
proof -
  obtain r e m old where m: "mm_recv mm' = dict_set (mm_recv mm) e (dict_set old rid m)"
    "old = (case map_of (mm_recv mm) e of None \<Rightarrow> [] | Some d \<Rightarrow> d)" "pr_d_req_id m = rid" "set old \<subseteq> set (pulls mm)"
    by (rule add_recv_cases[OF assms(1)])
  then have "mm_recv mm' = dict_set (mm_recv mm) e (old @ [(rid, m)])" using assms(2) by (metis dict_set_fresh image_mono subsetD)
  then show ?thesis using m(2,3) mset_nested_add[of "mm_recv mm" e "(rid, m)"] by (auto simp: pulls_def)
qed

lemma fold_recv_pulls:
  assumes "fold_res (add_recv mc ms) xs mm = Inr mm'" "distinct (map fst xs)" "fst ` set (pulls mm) \<inter> fst ` set xs = {}"
    and "\<forall>(k, m) \<in> set (pulls mm). pr_d_req_id m = k"
  shows "mset (map fst (pulls mm')) = mset (map fst (pulls mm)) + mset (map fst xs) \<and> (\<forall>(k, m) \<in> set (pulls mm'). pr_d_req_id m = k)"
  using assms
proof (induction xs arbitrary: mm)
  case (Cons x xs)
  obtain rid ids where x: "x = (rid, ids)" by (cases x)
  obtain mm1 where mm1: "add_recv mc ms (rid, ids) mm = Inr mm1" "fold_res (add_recv mc ms) xs mm1 = Inr mm'"
    using Cons.prems(1) x by (auto simp: bind_res_eq_Inr)
  obtain m where m: "mset (pulls mm1) = add_mset (rid, m) (mset (pulls mm))" "pr_d_req_id m = rid"
    using add_recv_pulls[OF mm1(1)] Cons.prems(3) x by auto
  have s: "set (pulls mm1) = insert (rid, m) (set (pulls mm))" using arg_cong[OF m(1), of set_mset] by simp
  have "fst ` set (pulls mm1) \<inter> fst ` set xs = {}" using s Cons.prems(2,3) x by auto
  moreover have "\<forall>(k, m) \<in> set (pulls mm1). pr_d_req_id m = k" using s m(2) Cons.prems(4) by auto
  moreover have "distinct (map fst xs)" using Cons.prems(2) by simp
  ultimately show ?case using Cons.IH[OF mm1(2)] m(1) x by simp
qed simp

lemma fold_send_recv: "fold_res (add_send ms) xs acc = Inr acc' \<Longrightarrow> mm_recv (fst acc') = mm_recv (fst acc)"
proof (induction xs arbitrary: acc)
  case (Cons x xs)
  obtain acc1 where a: "add_send ms x acc = Inr acc1" "fold_res (add_send ms) xs acc1 = Inr acc'" using Cons.prems by (auto simp: bind_res_eq_Inr)
  have "mm_recv (fst acc1) = mm_recv (fst acc)"
    using a(1) by (auto simp: add_send_def add_new_req_def bind_res_eq_Inr Let_def split: prod.splits option.splits)
  then show ?case using Cons.IH[OF a(2)] by simp
qed simp

lemma build_recv:
  assumes "build_connector_meta mc ms = Inr (ms', mm)" "\<not> mc_producer mc" "distinct (map fst (ms_need_recv ms))"
  shows "mset (map cr_d_req_id (consumer_session_metadata mm)) = mset (map fst (ms_need_recv ms))" "ms_need_recv ms' = []" "ms_requests ms' = ms_requests ms"
proof -
  let ?mm0 = "\<lparr>mm_recv = [], mm_send = [], mm_not_processed = {}, mm_num_tokens = []\<rparr>"
  obtain mm1 where mm1: "fold_res (add_recv mc ms) (ms_need_recv ms) ?mm0 = Inr mm1" "mm_recv mm = mm_recv mm1"
    using assms(1,2) by (auto simp: build_connector_meta_def bind_res_eq_Inr Let_def split: if_splits dest!: fold_send_recv)
  have "mset (map fst (pulls mm1)) = mset (map fst (ms_need_recv ms)) \<and> (\<forall>(k, m) \<in> set (pulls mm1). pr_d_req_id m = k)"
    using fold_recv_pulls[OF mm1(1) assms(3)] by (simp add: pulls_def)
  moreover have "pulls mm = pulls mm1" using mm1(2) by (simp add: pulls_def)
  ultimately show "mset (map cr_d_req_id (consumer_session_metadata mm)) = mset (map fst (ms_need_recv ms))"
    using consumer_requests_ids[of mm] by simp
  show "ms_need_recv ms' = []" "ms_requests ms' = ms_requests ms"
    using assms(1,2) by (auto simp: build_connector_meta_def bind_res_eq_Inr Let_def split: if_splits)
qed

section \<open>Every remote prefill is pulled once\<close>

datatype sched_op = Alloc string "int list list" int | Finish string "int list list" | Build

fun sched_step :: "mooncake_config \<Rightarrow> int list \<Rightarrow> sched_op \<Rightarrow> mooncake_sched \<Rightarrow> (mooncake_sched \<times> consumer_request list) result" where
  "sched_step mc sw (Alloc rid ids n) ms = bind_res (update_state_after_alloc mc sw rid ids n ms) (\<lambda>ms1. Inr (ms1, []))"
| "sched_step mc sw (Finish rid ids) ms = bind_res (request_finished mc sw rid ids ms) (\<lambda>(ms1, _). Inr (ms1, []))"
| "sched_step mc sw Build ms = bind_res (build_connector_meta mc ms) (\<lambda>(ms1, mm). Inr (ms1, consumer_session_metadata mm))"

fun sched_run :: "mooncake_config \<Rightarrow> int list \<Rightarrow> sched_op list \<Rightarrow> mooncake_sched \<Rightarrow> (mooncake_sched \<times> consumer_request list) result" where
  "sched_run mc sw [] ms = Inr (ms, [])"
| "sched_run mc sw (op # ops) ms = bind_res (sched_step mc sw op ms) (\<lambda>(ms1, out1).
     bind_res (sched_run mc sw ops ms1) (\<lambda>(ms2, out2). Inr (ms2, out1 @ out2)))"

text \<open>A request whose parameters name a producer, and whether its pull is still to be asked for.\<close>

definition complete_params :: "mooncake_sched \<Rightarrow> string \<Rightarrow> bool" where
  "complete_params ms rid \<longleftrightarrow> (\<exists>r p. map_of (ms_requests ms) rid = Some r \<and> mr_params r = Some p \<and> kp_engine_id p \<noteq> None \<and>
     kp_bootstrap p \<noteq> None \<and> has_text (kp_transfer_id p))"

definition wants_prefill :: "mooncake_sched \<Rightarrow> string \<Rightarrow> bool" where
  "wants_prefill ms rid \<longleftrightarrow> (\<exists>r p. map_of (ms_requests ms) rid = Some r \<and> mr_params r = Some p \<and> flag (kp_prefill p))"

definition pull_state :: "mooncake_sched \<Rightarrow> string \<Rightarrow> nat" where
  "pull_state ms rid = (if wants_prefill ms rid then 1 else 0) + (if rid \<in> fst ` set (ms_need_recv ms) then 1 else 0)"

definition queue_ok :: "mooncake_sched \<Rightarrow> bool" where
  "queue_ok ms \<longleftrightarrow> distinct (map fst (ms_need_recv ms)) \<and> (\<forall>rid. wants_prefill ms rid \<longrightarrow> rid \<notin> fst ` set (ms_need_recv ms))"

lemma clear_prefill_facts:
  "wants_prefill (update_request rid clear_prefill ms) k \<longleftrightarrow> k \<noteq> rid \<and> wants_prefill ms k"
  "complete_params (update_request rid clear_prefill ms) k = complete_params ms k"
  by (auto simp: wants_prefill_def complete_params_def map_of_update_request clear_prefill_def flag_def)

lemma same_requests:
  "ms_requests ms' = ms_requests ms \<Longrightarrow> wants_prefill ms' k = wants_prefill ms k"
  "ms_requests ms' = ms_requests ms \<Longrightarrow> complete_params ms' k = complete_params ms k"
  by (simp_all add: wants_prefill_def complete_params_def)

text \<open>The two ways a pull is queued.\<close>

lemma queue_pull:
  fixes ids :: "int list list"
  assumes "queue_ok ms" "wants_prefill ms rid"
  defines "ms' \<equiv> update_request rid clear_prefill (ms\<lparr>ms_need_recv := dict_set (ms_need_recv ms) rid ids\<rparr>)"
  shows "queue_ok ms' \<and> pull_state ms' k = pull_state ms k \<and> complete_params ms' k = complete_params ms k"
proof -
  have fresh: "rid \<notin> fst ` set (ms_need_recv ms)" using assms(1,2) by (simp add: queue_ok_def)
  have w: "wants_prefill ms' j \<longleftrightarrow> j \<noteq> rid \<and> wants_prefill ms j" for j
    unfolding ms'_def clear_prefill_facts by (simp add: wants_prefill_def)
  have c: "complete_params ms' k = complete_params ms k" unfolding ms'_def clear_prefill_facts by (simp add: complete_params_def)
  have n: "fst ` set (ms_need_recv ms') = insert rid (fst ` set (ms_need_recv ms))" by (simp add: ms'_def)
  have "distinct (map fst (ms_need_recv ms'))" using assms(1) by (simp add: ms'_def queue_ok_def distinct_dict_set)
  then have "queue_ok ms'" using assms(1) w n by (auto simp: queue_ok_def)
  moreover have "pull_state ms' k = pull_state ms k" using fresh assms(2) w n by (auto simp: pull_state_def)
  ultimately show ?thesis using c by blast
qed

lemma finished_effect:
  assumes "request_finished mc sw rid ids ms = Inr (ms', b)" "\<not> mc_producer mc"
  shows "wants_prefill ms rid \<and> ms' = update_request rid clear_prefill (ms\<lparr>ms_need_recv := dict_set (ms_need_recv ms) rid []\<rparr>) \<or>
    ms_requests ms' = ms_requests ms \<and> ms_need_recv ms' = ms_need_recv ms"
proof -
  obtain r where r: "map_of (ms_requests ms) rid = Some r" using assms(1) by (cases "map_of (ms_requests ms) rid") (auto simp: request_finished_def)
  show ?thesis
  proof (cases "params_truthy (mr_params r) \<and> has_text (kp_transfer_id (the (mr_params r)))")
    case False
    then show ?thesis using assms(1) r by (simp add: request_finished_def)
  next
    case True
    then obtain p where p: "mr_params r = Some p" by (auto simp: params_truthy_def split: option.splits)
    show ?thesis
    proof (cases "flag (kp_prefill p)")
      case f: True
      then show ?thesis using True assms r p by (auto simp: request_finished_def wants_prefill_def)
    next
      case f: False
      then show ?thesis using True assms(1) r p by (auto simp: request_finished_def Let_def bind_res_eq_Inr split: if_splits)
    qed
  qed
qed

lemma alloc_effect:
  assumes "update_state_after_alloc mc sw rid ids n ms = Inr ms'" "\<not> mc_producer mc"
  shows "wants_prefill ms rid \<and> (\<exists>ids'. ms' = update_request rid clear_prefill (ms\<lparr>ms_need_recv := dict_set (ms_need_recv ms) rid ids'\<rparr>)) \<or>
    ms' = update_request rid clear_prefill ms \<and> \<not> complete_params ms rid \<or>
    ms_requests ms' = ms_requests ms \<and> ms_need_recv ms' = ms_need_recv ms"
proof -
  obtain r where r: "map_of (ms_requests ms) rid = Some r" using assms(1) by (cases "map_of (ms_requests ms) rid") (auto simp: update_state_after_alloc_def)
  show ?thesis
  proof (cases "params_truthy (mr_params r)")
    case False
    then show ?thesis using assms(1) r by (simp add: update_state_after_alloc_def)
  next
    case True
    then obtain p where p: "mr_params r = Some p" by (cases "mr_params r") (simp_all add: params_truthy_def)
    show ?thesis
    proof (cases "flag (kp_prefill p)")
      case f: False
      then have "ms_requests ms' = ms_requests ms \<and> ms_need_recv ms' = ms_need_recv ms"
        using True assms(1) r p by (auto simp: update_state_after_alloc_def Let_def split: if_splits)
      then show ?thesis by blast
    next
      case f: True
      note u = assms r p True f
      have w: "wants_prefill ms rid" using r p f by (simp add: wants_prefill_def)
      show ?thesis
      proof (cases "kp_engine_id p \<noteq> None \<and> kp_bootstrap p \<noteq> None \<and> kp_transfer_id p \<noteq> None")
        case c: True
        then show ?thesis using u w by (auto simp: update_state_after_alloc_def Let_def bind_res_eq_Inr)
      next
        case c: False
        have "\<not> complete_params ms rid" using r p c by (auto simp: complete_params_def has_text_def)
        moreover have "ms' = update_request rid clear_prefill ms" using u c by (auto simp: update_state_after_alloc_def Let_def)
        ultimately show ?thesis by blast
      qed
    qed
  qed
qed

lemma sched_step_pull:
  assumes op: "sched_step mc sw op ms = Inr (ms', out)" and mc: "\<not> mc_producer mc" and q: "queue_ok ms" and c: "complete_params ms k"
  shows "queue_ok ms' \<and> complete_params ms' k \<and> length (filter (\<lambda>x. cr_d_req_id x = k) out) + pull_state ms' k = pull_state ms k"
proof (cases op)
  case (Build)
  then obtain mm where b: "build_connector_meta mc ms = Inr (ms', mm)" "out = consumer_session_metadata mm" using op by (auto simp: bind_res_eq_Inr)
  have d: "distinct (map fst (ms_need_recv ms))" using q by (simp add: queue_ok_def)
  note br = build_recv[OF b(1) mc d]
  have "length (filter (\<lambda>x. cr_d_req_id x = k) out) = count (mset (map cr_d_req_id out)) k"
    by (induction out) auto
  also have "\<dots> = (if k \<in> fst ` set (ms_need_recv ms) then 1 else 0)"
    unfolding b(2) br(1) using d by (simp add: distinct_count_atmost_1)
  finally show ?thesis using br(2) same_requests[OF br(3)] q c by (auto simp: pull_state_def queue_ok_def)
next
  case (Alloc rid ids n)
  then have u: "update_state_after_alloc mc sw rid ids n ms = Inr ms'" "out = []" using op by (auto simp: bind_res_eq_Inr)
  consider (pull) ids' where "wants_prefill ms rid" "ms' = update_request rid clear_prefill (ms\<lparr>ms_need_recv := dict_set (ms_need_recv ms) rid ids'\<rparr>)"
    | (bad) "ms' = update_request rid clear_prefill ms" "\<not> complete_params ms rid"
    | (same) "ms_requests ms' = ms_requests ms" "ms_need_recv ms' = ms_need_recv ms"
    using alloc_effect[OF u(1) mc] by blast
  then show ?thesis
  proof cases
    case pull
    then show ?thesis using queue_pull[OF q pull(1), of ids' k] c u(2) by simp
  next
    case bad
    then have "k \<noteq> rid" using c by auto
    moreover have "ms_need_recv ms' = ms_need_recv ms" using bad(1) by (simp add: update_request_def)
    ultimately show ?thesis using bad(1) q c u(2) by (simp add: clear_prefill_facts pull_state_def queue_ok_def)
  next
    case same
    then show ?thesis using same_requests[OF same(1)] q c u(2) by (simp add: pull_state_def queue_ok_def)
  qed
next
  case (Finish rid ids)
  then obtain b where u: "request_finished mc sw rid ids ms = Inr (ms', b)" "out = []" using op by (auto simp: bind_res_eq_Inr)
  show ?thesis
  proof (cases "ms' = update_request rid clear_prefill (ms\<lparr>ms_need_recv := dict_set (ms_need_recv ms) rid []\<rparr>) \<and> wants_prefill ms rid")
    case True
    then show ?thesis using queue_pull[OF q, of rid "[]" k] c u(2) by simp
  next
    case False
    then have "ms_requests ms' = ms_requests ms" "ms_need_recv ms' = ms_need_recv ms" using finished_effect[OF u(1) mc] by auto
    then show ?thesis using same_requests[of ms' ms] q c u(2) by (simp add: pull_state_def queue_ok_def)
  qed
qed

text \<open>
  C17: A request with a remote prefill and complete parameters is pulled exactly once: after any successful sequence of allocations, ends
  of requests and metadata, either its prefill is still to be asked for, or its pull waits for the next metadata, or exactly one consumer
  request has been handed out for it, also when the request ends before it was ever scheduled.
\<close>

theorem remote_prefill_pulled_once:
  assumes "sched_run mc sw ops ms = Inr (ms', out)" "\<not> mc_producer mc" "queue_ok ms" "complete_params ms rid" "wants_prefill ms rid"
  shows "length (filter (\<lambda>x. cr_d_req_id x = rid) out) + pull_state ms' rid = 1"
proof -
  have "queue_ok ms' \<and> length (filter (\<lambda>x. cr_d_req_id x = rid) out) + pull_state ms' rid = pull_state ms rid"
    using assms(1,3,4)
  proof (induction ops arbitrary: ms out)
    case (Cons op ops)
    then obtain ms1 out1 out2 where s: "sched_step mc sw op ms = Inr (ms1, out1)" "sched_run mc sw ops ms1 = Inr (ms', out2)" "out = out1 @ out2"
      by (auto simp: bind_res_eq_Inr)
    note st = sched_step_pull[OF s(1) assms(2) Cons.prems(2,3)]
    then have "queue_ok ms' \<and> length (filter (\<lambda>x. cr_d_req_id x = rid) out2) + pull_state ms' rid = pull_state ms1 rid" using Cons.IH[OF s(2)] by blast
    then show ?case using st s(3) by auto
  qed simp
  moreover have "pull_state ms rid = 1" using assms(3,5) by (simp add: pull_state_def queue_ok_def)
  ultimately show ?thesis by simp
qed

definition pulling_params :: kv_params where
  "pulling_params = \<lparr>kp_prefill = Some True, kp_decode = None, kp_transfer_id = Some ''t'', kp_engine_id = Some ''e'', kp_bootstrap = Some ''b'',
     kp_truncated = False\<rparr>"

definition sample_request :: "kv_params \<Rightarrow> m_request" where
  "sample_request p = \<lparr>mr_params = Some p, mr_prompt_token_ids = Some [1, 2, 3], mr_prompt_embeds = None, mr_all_token_ids = [1, 2, 3],
     mr_num_prompt_tokens = 3, mr_max_tokens = 8, mr_length_capped = True, mr_num_computed_tokens = 3, mr_num_in_flight_tokens = 0\<rparr>"

definition consumer_config :: mooncake_config where
  "consumer_config = \<lparr>mc_producer = False, mc_consumer = True, mc_hma_required = False, mc_has_mamba = False, mc_block_size = 16,
     mc_windows = [None], mc_transfer_groups = 1, mc_select = id\<rparr>"

definition pulling_sched :: mooncake_sched where
  "pulling_sched = new_mooncake_sched\<lparr>ms_requests := [(''r'', sample_request pulling_params)]\<rparr>"

lemmas sample_defs = pulling_sched_def new_mooncake_sched_def sample_request_def pulling_params_def consumer_config_def

theorem remote_prefill_pulled_once_witness:
  "case sched_run consumer_config [0] [Alloc ''r'' [[4, 5]] 3, Build, Finish ''r'' [[4, 5]], Build] pulling_sched of
     Inr (ms', out) \<Rightarrow> length (filter (\<lambda>x. cr_d_req_id x = ''r'') out) + pull_state ms' ''r'' = 1 | _ \<Rightarrow> False"
proof -
  obtain ms' out where r: "sched_run consumer_config [0] [Alloc ''r'' [[4, 5]] 3, Build, Finish ''r'' [[4, 5]], Build] pulling_sched = Inr (ms', out)"
    by (simp add: sample_defs update_state_after_alloc_def params_truthy_def flag_def has_text_def update_request_def clear_prefill_def
        build_connector_meta_def request_finished_def get_sw_clipped_blocks_def add_recv_def request_params_of_def add_new_req_def Let_def)
  have "\<not> mc_producer consumer_config" "queue_ok pulling_sched" "complete_params pulling_sched ''r''" "wants_prefill pulling_sched ''r''"
    by (simp_all add: sample_defs queue_ok_def complete_params_def wants_prefill_def flag_def has_text_def)
  then show ?thesis using remote_prefill_pulled_once[OF r] r by simp
qed


section \<open>Token counts of the two sides\<close>

lemma add_new_send:
  assumes "add_send ms (rid, ids) (mm, c) = Inr (mm', c')"
  obtains r p tid where "request_params_of ms rid = Inr (r, p)" "kp_transfer_id p = Some tid" "c' = dict_pop c rid"
    "mm' = mm\<lparr>mm_num_tokens := dict_set (mm_num_tokens mm) rid (map_of c rid), mm_send := dict_set (mm_send mm) rid (tid, ids)\<rparr>"
proof -
  obtain r p where rp: "request_params_of ms rid = Inr (r, p)" "add_new_req rid ids p False (map_of c rid) mm = Inr mm'" "c' = dict_pop c rid"
    using assms unfolding add_send_def by (auto simp: bind_res_eq_Inr)
  obtain tid where "kp_transfer_id p = Some tid" using rp(2) by (cases "kp_transfer_id p") (simp_all add: add_new_req_def)
  then show thesis using rp that by (auto simp: add_new_req_def Let_def)
qed

lemma fold_send_entries:
  assumes "fold_res (add_send ms) xs (mm, c) = Inr (mm', c')" "distinct (map fst xs)"
  shows "rid \<notin> fst ` set xs \<Longrightarrow> map_of (mm_num_tokens mm') rid = map_of (mm_num_tokens mm) rid \<and> map_of (mm_send mm') rid = map_of (mm_send mm) rid"
    and "(rid, ids) \<in> set xs \<Longrightarrow> map_of (mm_num_tokens mm') rid = Some (map_of c rid) \<and>
      (\<exists>r p tid. request_params_of ms rid = Inr (r, p) \<and> kp_transfer_id p = Some tid \<and> map_of (mm_send mm') rid = Some (tid, ids))"
  using assms
proof (induction xs arbitrary: mm c)
  case (Cons x xs)
  obtain k bs where x: "x = (k, bs)" by (cases x)
  {
    case 1
    then obtain mm1 c1 where s: "add_send ms (k, bs) (mm, c) = Inr (mm1, c1)" "fold_res (add_send ms) xs (mm1, c1) = Inr (mm', c')"
      using x by (auto simp: bind_res_eq_Inr)
    have "rid \<noteq> k" "rid \<notin> fst ` set xs" "distinct (map fst xs)" using 1 x by auto
    then show ?case using Cons.IH(1)[OF _ s(2)] by (auto intro: add_new_send[OF s(1)])
  next
    case 2
    then obtain mm1 c1 where s: "add_send ms (k, bs) (mm, c) = Inr (mm1, c1)" "fold_res (add_send ms) xs (mm1, c1) = Inr (mm', c')"
      using x by (auto simp: bind_res_eq_Inr)
    obtain r p tid where e: "request_params_of ms k = Inr (r, p)" "kp_transfer_id p = Some tid" "c1 = dict_pop c k"
        "mm1 = mm\<lparr>mm_num_tokens := dict_set (mm_num_tokens mm) k (map_of c k), mm_send := dict_set (mm_send mm) k (tid, bs)\<rparr>"
      by (rule add_new_send[OF s(1)])
    have d: "distinct (map fst xs)" "k \<notin> fst ` set xs" using 2 x by auto
    show ?case
    proof (cases "rid = k")
      case True
      then have "ids = bs" using 2(1) x d(2) by (auto simp: image_iff)
      then show ?thesis using Cons.IH(1)[OF _ s(2) d(1)] d(2) e True by auto
    next
      case False
      then have "(rid, ids) \<in> set xs" using 2(1) x by auto
      then show ?thesis using Cons.IH(2)[OF _ s(2) d(1)] e(3) False by auto
    qed
  }
qed simp_all

definition pull_counted :: "mooncake_config \<Rightarrow> mooncake_sched \<Rightarrow> string \<times> pull_req_meta \<Rightarrow> bool" where
  "pull_counted mc ms x \<longleftrightarrow> (case x of (k, m) \<Rightarrow> pr_d_req_id m = k \<and> (\<exists>r. map_of (ms_requests ms) k = Some r \<and>
     pr_num_tokens m = Some (get_remote_prefill_token_count mc (mr_num_prompt_tokens r))))"

lemma add_recv_counted:
  assumes "add_recv mc ms x mm = Inr mm'" "\<forall>y \<in> set (pulls mm). pull_counted mc ms y"
  shows "\<forall>y \<in> set (pulls mm'). pull_counted mc ms y"
proof -
  obtain rid ids where x: "x = (rid, ids)" by (cases x)
  obtain r e m old where m: "map_of (ms_requests ms) rid = Some r" "mm_recv mm' = dict_set (mm_recv mm) e (dict_set old rid m)"
    "pr_d_req_id m = rid" "set old \<subseteq> set (pulls mm)" "pr_num_tokens m = Some (get_remote_prefill_token_count mc (mr_num_prompt_tokens r))"
    using assms(1) unfolding x by (rule add_recv_cases)
  have "y \<in> set (pulls mm) \<or> y = (rid, m)" if "y \<in> set (pulls mm')" for y
    using that m(4) unfolding pulls_def m(2) by (auto dest!: set_dict_set_sub)
  moreover have "pull_counted mc ms (rid, m)" using m by (simp add: pull_counted_def)
  ultimately show ?thesis using assms(2) by blast
qed


lemma build_send:
  assumes "build_connector_meta mc ms = Inr (ms', mm)" "\<not> mc_consumer mc"
  obtains ms3 mm1 mm2 counts where "ms_need_send ms3 = ms_need_send ms" "ms_send_num_tokens ms3 = ms_send_num_tokens ms"
    "ms_requests ms3 = ms_requests ms" "fold_res (add_send ms3) (ms_need_send ms) (mm1, ms_send_num_tokens ms) = Inr (mm2, counts)"
    "mm = mm2\<lparr>mm_not_processed := ms_not_processed ms3\<rparr>"
proof (cases "mc_producer mc")
  case True
  then show thesis using assms that[of ms] by (auto simp: build_connector_meta_def bind_res_eq_Inr Let_def)
next
  case False
  then show thesis using assms that[of "ms\<lparr>ms_need_recv := []\<rparr>"] by (auto simp: build_connector_meta_def bind_res_eq_Inr Let_def)
qed

text \<open>What the next metadata says of a request that ended with its blocks kept.\<close>

lemma finished_announced:
  assumes "request_finished mc sw rid block_ids ms = Inr (ms1, True)" "build_connector_meta mc ms1 = Inr (ms2, mm)" "distinct (map fst (ms_need_send ms))"
  obtains r p tid ids where "map_of (ms_requests ms) rid = Some r" "mr_params r = Some p" "kp_transfer_id p = Some tid"
    "get_sw_clipped_blocks mc sw block_ids = Inr ids" "map_of (mm_send mm) rid = Some (tid, ids)"
    "map_of (mm_num_tokens mm) rid = Some (Some (min (mr_num_computed_tokens r - mr_num_in_flight_tokens r) (mr_num_prompt_tokens r)))"
proof -
  obtain r where r: "map_of (ms_requests ms) rid = Some r" using assms(1) by (cases "map_of (ms_requests ms) rid") (auto simp: request_finished_def)
  have "params_truthy (mr_params r)" "\<not> flag (kp_prefill (the (mr_params r)))" "\<not> mc_consumer mc" "flag (kp_decode (the (mr_params r)))"
    using assms(1) r by (auto simp: request_finished_def Let_def split: if_splits)
  then obtain p where p: "mr_params r = Some p" and c: "\<not> mc_consumer mc" by (cases "mr_params r") (simp_all add: params_truthy_def)
  let ?n = "min (mr_num_computed_tokens r - mr_num_in_flight_tokens r) (mr_num_prompt_tokens r)"
  obtain ids where ids: "get_sw_clipped_blocks mc sw block_ids = Inr ids"
      "ms1 = ms\<lparr>ms_send_num_tokens := dict_set (ms_send_num_tokens ms) rid ?n, ms_need_send := dict_set (ms_need_send ms) rid ids\<rparr>"
    using assms(1) r p by (auto simp: request_finished_def Let_def bind_res_eq_Inr split: if_splits)
  obtain ms3 mm1 mm2 counts where b: "ms_need_send ms3 = ms_need_send ms1" "ms_send_num_tokens ms3 = ms_send_num_tokens ms1"
      "ms_requests ms3 = ms_requests ms1" "fold_res (add_send ms3) (ms_need_send ms1) (mm1, ms_send_num_tokens ms1) = Inr (mm2, counts)"
      "mm = mm2\<lparr>mm_not_processed := ms_not_processed ms3\<rparr>"
    by (rule build_send[OF assms(2) c])
  have d: "distinct (map fst (ms_need_send ms1))" using assms(3) ids(2) by (simp add: distinct_dict_set)
  have "map_of (ms_need_send ms1) rid = Some ids" using ids(2) by simp
  then have "(rid, ids) \<in> set (ms_need_send ms1)" by (rule map_of_SomeD)
  note e = fold_send_entries(2)[OF b(4) d this]
  have "request_params_of ms3 rid = Inr (r, p)" using r p b(3) ids(2) by (simp add: request_params_of_def)
  then obtain tid where "kp_transfer_id p = Some tid" "map_of (mm_send mm2) rid = Some (tid, ids)" using e by auto
  then show thesis using that[OF r p _ ids(1)] e ids(2) b(5) by simp
qed

lemma pulls_counted:
  assumes "build_connector_meta mc ms = Inr (ms', mm)" "\<not> mc_producer mc" "x \<in> set (consumer_session_metadata mm)"
  shows "\<exists>r. map_of (ms_requests ms) (cr_d_req_id x) = Some r \<and> cr_num_tokens x = Some (get_remote_prefill_token_count mc (mr_num_prompt_tokens r))"
proof -
  let ?mm0 = "\<lparr>mm_recv = [], mm_send = [], mm_not_processed = {}, mm_num_tokens = []\<rparr>"
  obtain mm1 where mm1: "fold_res (add_recv mc ms) (ms_need_recv ms) ?mm0 = Inr mm1" "mm_recv mm = mm_recv mm1"
    using assms(1,2) by (auto simp: build_connector_meta_def bind_res_eq_Inr Let_def split: if_splits dest!: fold_send_recv)
  have "pulls ?mm0 = []" by (simp add: pulls_def)
  then have "\<forall>y \<in> set (pulls ?mm0). pull_counted mc ms y" by simp
  then have "\<forall>y \<in> set (pulls mm1). pull_counted mc ms y"
    by (rule fold_res_invariant[OF mm1(1), where I = "\<lambda>mm. \<forall>y \<in> set (pulls mm). pull_counted mc ms y"]) (erule (1) add_recv_counted[rotated])
  then have "\<forall>y \<in> set (pulls mm). pull_counted mc ms y" using mm1(2) by (simp add: pulls_def)
  moreover obtain k m where km: "(k, m) \<in> set (pulls mm)" "cr_d_req_id x = pr_d_req_id m" "cr_num_tokens x = pr_num_tokens m"
    using assms(3) unfolding consumer_session_metadata_def pulls_def by fastforce
  ultimately have "pull_counted mc ms (k, m)" by blast
  then show ?thesis using km(2,3) by (auto simp: pull_counted_def)
qed

lemma truncated_prompt:
  assumes "on_new_request mc r0 = Inr r" "mr_params r0 = Some p" "flag (kp_decode p)" "\<not> kp_truncated p" "mr_prompt_token_ids r0 = Some ids"
  shows "mr_num_prompt_tokens r = get_remote_prefill_token_count mc (mr_num_prompt_tokens r0)"
  using assms by (auto simp: on_new_request_def truncate_mamba_request_for_prefill_def get_remote_prefill_token_count_def bind_res_eq_Inr split: if_splits)

text \<open>
  C24: Producer and consumer of a request agree on the number of tokens whose KV data moves.  The producer truncates the prompt of a
  model with recurrent state when the request arrives and, when the prefill has ended with all of it computed, announces that many tokens;
  the consumer asks for the same number, computed from its own, untruncated copy of the prompt.
\<close>

theorem transfer_token_counts_agree:
  assumes "on_new_request mcp r0 = Inr r1" "mr_params r0 = Some p" "flag (kp_decode p)" "\<not> kp_truncated p" "mr_prompt_token_ids r0 = Some toks"
    and "map_of (ms_requests ms) rid = Some r" "mr_num_prompt_tokens r = mr_num_prompt_tokens r1" "distinct (map fst (ms_need_send ms))"
    and "mr_num_prompt_tokens r \<le> mr_num_computed_tokens r - mr_num_in_flight_tokens r"
    and "request_finished mcp swp rid block_ids ms = Inr (ms1, True)" "build_connector_meta mcp ms1 = Inr (ms2, mm)"
    and "build_connector_meta mcc mt = Inr (mt1, nn)" "\<not> mc_producer mcc" "mc_has_mamba mcc = mc_has_mamba mcp"
    and "x \<in> set (consumer_session_metadata nn)" "map_of (ms_requests mt) (cr_d_req_id x) = Some q" "mr_num_prompt_tokens q = mr_num_prompt_tokens r0"
    and "a \<in> set (announced_of mm)" "an_p_req_id a = rid"
  shows "an_num_tokens a = cr_num_tokens x"
proof -
  obtain r' where "map_of (ms_requests ms) rid = Some r'"
    "map_of (mm_num_tokens mm) rid = Some (Some (min (mr_num_computed_tokens r' - mr_num_in_flight_tokens r') (mr_num_prompt_tokens r')))"
    by (rule finished_announced[OF assms(10,11,8)])
  then have "map_of (mm_num_tokens mm) rid = Some (Some (mr_num_prompt_tokens r1))" using assms(6,7,9) by (simp add: min_def)
  then have "an_num_tokens a = Some (mr_num_prompt_tokens r1)" using assms(18,19) by (auto simp: announced_of_def)
  moreover have "cr_num_tokens x = Some (get_remote_prefill_token_count mcc (mr_num_prompt_tokens r0))"
    using pulls_counted[OF assms(12,13,15)] assms(16,17) by auto
  ultimately show ?thesis using truncated_prompt[OF assms(1-5)] assms(14) by (simp add: get_remote_prefill_token_count_def)
qed

definition decode_params :: kv_params where
  "decode_params = \<lparr>kp_prefill = None, kp_decode = Some True, kp_transfer_id = Some ''t'', kp_engine_id = None, kp_bootstrap = None, kp_truncated = False\<rparr>"

definition producer_config :: mooncake_config where
  "producer_config = \<lparr>mc_producer = True, mc_consumer = False, mc_hma_required = False, mc_has_mamba = True, mc_block_size = 16,
     mc_windows = [None], mc_transfer_groups = 1, mc_select = id\<rparr>"

definition prefilled_request :: m_request where
  "prefilled_request = (sample_request (decode_params\<lparr>kp_truncated := True\<rparr>))
     \<lparr>mr_prompt_token_ids := Some [1, 2], mr_all_token_ids := [1, 2], mr_num_prompt_tokens := 2, mr_max_tokens := 1\<rparr>"

definition prefilled_sched :: mooncake_sched where
  "prefilled_sched = new_mooncake_sched\<lparr>ms_requests := [(''p'', prefilled_request)]\<rparr>"

definition mamba_consumer :: mooncake_config where
  "mamba_consumer = consumer_config\<lparr>mc_has_mamba := True\<rparr>"

definition asking_sched :: mooncake_sched where
  "asking_sched = pulling_sched\<lparr>ms_need_recv := [(''r'', [[4, 5]])]\<rparr>"

lemmas agree_defs = sample_defs decode_params_def producer_config_def prefilled_request_def prefilled_sched_def mamba_consumer_def asking_sched_def

theorem transfer_token_counts_agree_witness:
  "\<exists>ms1 ms2 mm mt1 nn a x. request_finished producer_config [0] ''p'' [[7, 8]] prefilled_sched = Inr (ms1, True) \<and>
     build_connector_meta producer_config ms1 = Inr (ms2, mm) \<and> announced_of mm = [a] \<and>
     build_connector_meta mamba_consumer asking_sched = Inr (mt1, nn) \<and> consumer_session_metadata nn = [x] \<and> an_num_tokens a = cr_num_tokens x"
proof -
  have on: "on_new_request producer_config (sample_request decode_params) = Inr prefilled_request"
    by (simp add: agree_defs on_new_request_def truncate_mamba_request_for_prefill_def flag_def)
  obtain ms1 where f: "request_finished producer_config [0] ''p'' [[7, 8]] prefilled_sched = Inr (ms1, True)"
      "ms1 = prefilled_sched\<lparr>ms_send_num_tokens := [(''p'', 2)], ms_need_send := [(''p'', [[7, 8]])]\<rparr>"
    by (simp add: agree_defs request_finished_def params_truthy_def flag_def has_text_def get_sw_clipped_blocks_def)
  obtain ms2 mm a where b: "build_connector_meta producer_config ms1 = Inr (ms2, mm)" "announced_of mm = [a]" "an_p_req_id a = ''p''"
    by (simp add: f(2) agree_defs build_connector_meta_def add_send_def request_params_of_def add_new_req_def announced_of_def Let_def)
  obtain mt1 nn x where c: "build_connector_meta mamba_consumer asking_sched = Inr (mt1, nn)" "consumer_session_metadata nn = [x]" "cr_d_req_id x = ''r''"
    by (simp add: agree_defs build_connector_meta_def add_recv_def request_params_of_def add_new_req_def consumer_session_metadata_def Let_def)
  have "an_num_tokens a = cr_num_tokens x"
    by (rule transfer_token_counts_agree[OF on _ _ _ _ _ _ _ _ f(1) b(1) c(1), of decode_params "[1, 2, 3]" prefilled_request x "sample_request pulling_params" a])
      (simp_all add: b(2,3) c(2,3), simp_all add: agree_defs flag_def)
  then show ?thesis using f(1) b c by blast
qed

text \<open>
  C40: A remote prefill whose parameters name a transfer but no producer is refused with a warning when it is scheduled, and the next
  metadata is built without it; when the same request ends before it was scheduled, its end is accepted and the next metadata raises \<open>KeyError\<close>.
\<close>

theorem unscheduled_abort_raises:
  assumes "mc_consumer mc" "\<not> mc_producer mc" "ms_need_recv ms = []" "map_of (ms_requests ms) rid = Some r" "mr_params r = Some p"
    "flag (kp_prefill p)" "has_text (kp_transfer_id p)" "kp_engine_id p = None"
  shows "sched_run mc sw [Alloc rid ids n, Build] ms = Inr (update_request rid clear_prefill ms, []) \<and>
    sched_run mc sw [Finish rid ids] ms = Inr (update_request rid clear_prefill (ms\<lparr>ms_need_recv := [(rid, [])]\<rparr>), []) \<and>
    sched_run mc sw [Finish rid ids, Build] ms = Inl KeyError"
proof -
  have t: "params_truthy (Some p)" using assms(6) by (auto simp: params_truthy_def flag_def)
  have "ms\<lparr>ms_need_recv := []\<rparr> = ms" using assms(3) by simp
  have a: "update_state_after_alloc mc sw rid ids n ms = Inr (update_request rid clear_prefill ms)"
    using assms t by (simp add: update_state_after_alloc_def Let_def)
  have f: "request_finished mc sw rid ids ms = Inr (update_request rid clear_prefill (ms\<lparr>ms_need_recv := [(rid, [])]\<rparr>), False)"
    using assms t by (simp add: request_finished_def Let_def)
  have q: "request_params_of (update_request rid clear_prefill (ms\<lparr>ms_need_recv := [(rid, [])]\<rparr>)) rid = Inr (clear_prefill r, p\<lparr>kp_prefill := Some False\<rparr>)"
    using assms(4,5) by (simp add: request_params_of_def map_of_update_request clear_prefill_def)
  obtain tid where "kp_transfer_id p = Some tid" using assms(7) by (cases "kp_transfer_id p") (simp_all add: has_text_def)
  then have "build_connector_meta mc (update_request rid clear_prefill (ms\<lparr>ms_need_recv := [(rid, [])]\<rparr>)) = Inl KeyError"
    using assms(2,8) q by (simp add: build_connector_meta_def add_recv_def add_new_req_def Let_def)
  moreover have "build_connector_meta mc (update_request rid clear_prefill ms) = Inr (update_request rid clear_prefill ms, \<lparr>mm_recv = [], mm_send = [], mm_not_processed = {}, mm_num_tokens = []\<rparr>)"
    using assms(1-3) by (simp add: build_connector_meta_def update_request_def Let_def)
  ultimately show ?thesis using a f by (simp add: consumer_session_metadata_def)
qed

theorem unscheduled_abort_raises_witness:
  "sched_run consumer_config [0] [Finish ''r'' [[4, 5]], Build]
     (new_mooncake_sched\<lparr>ms_requests := [(''r'', sample_request (pulling_params\<lparr>kp_engine_id := None\<rparr>))]\<rparr>) = Inl KeyError"
  using unscheduled_abort_raises[of consumer_config "new_mooncake_sched\<lparr>ms_requests := [(''r'', sample_request (pulling_params\<lparr>kp_engine_id := None\<rparr>))]\<rparr>"
      "''r''" "sample_request (pulling_params\<lparr>kp_engine_id := None\<rparr>)" "pulling_params\<lparr>kp_engine_id := None\<rparr>" "[0]" "[[4, 5]]"]
  by (simp add: sample_defs flag_def has_text_def)

end
