(* ===== verification/Session_Jobs.thy ===== *)
theory Session_Jobs
  imports Session_Consumer Mooncake_Scheduler
begin

text \<open>
  The two channels between the engine and its session helper (\<^verbatim>\<open>mooncake/session_process.py\<close>): jobs that the helper submits and
  the thread pool of \<open>SessionProcess\<close> runs, and receive requests from their metadata to the queues that the engine reads, with the
  lookup of the remote workers at the bootstrap server in between.  The handler of the jobs is an argument of \<open>SessionProcess\<close> and
  of the model.  Start and shutdown of the processes are not modelled.
\<close>

section \<open>Jobs\<close>

text \<open>
  \<open>jb_out\<close> is the pipe to the engine, \<open>jb_pool\<close> what its pool runs and \<open>jb_back\<close> the way back.
  \<open>jb_submitted\<close> and \<open>jb_awaited\<close> record what was submitted and what \<open>_submit\<close> returned, \<open>None\<close> for a timeout.
\<close>

record ('j, 'r) job_system =
  jb_next_job_id :: nat
  jb_pending_jobs :: "nat list"
  jb_out :: "(nat \<times> 'j) list"
  jb_pool :: "(nat \<times> 'j) list"
  jb_back :: "(nat \<times> 'r result) list"
  jb_submitted :: "(nat \<times> 'j) list"
  jb_awaited :: "(nat \<times> 'r result option) list"

definition job_init :: "('j, 'r) job_system \<Rightarrow> bool" where
  "job_init jb \<longleftrightarrow> jb = \<lparr>jb_next_job_id = 0, jb_pending_jobs = [], jb_out = [], jb_pool = [], jb_back = [], jb_submitted = [], jb_awaited = []\<rparr>"

definition submit :: "'j \<Rightarrow> ('j, 'r) job_system \<Rightarrow> ('j, 'r) job_system" where
  "submit j jb = (let n = jb_next_job_id jb + 1 in
     jb\<lparr>jb_next_job_id := n, jb_pending_jobs := jb_pending_jobs jb @ [n], jb_out := jb_out jb @ [(n, j)], jb_submitted := jb_submitted jb @ [(n, j)]\<rparr>)"

text \<open>The timeout of \<open>wait_for\<close>, with the \<open>finally\<close> of \<open>_submit\<close>.\<close>

definition job_timeout :: "nat \<Rightarrow> ('j, 'r) job_system \<Rightarrow> ('j, 'r) job_system" where
  "job_timeout n jb = jb\<lparr>jb_pending_jobs := remove1 n (jb_pending_jobs jb), jb_awaited := jb_awaited jb @ [(n, None)]\<rparr>"

definition read_job :: "('j, 'r) job_system \<Rightarrow> ('j, 'r) job_system" where
  "read_job jb = (case jb_out jb of [] \<Rightarrow> jb | x # xs \<Rightarrow> jb\<lparr>jb_out := xs, jb_pool := jb_pool jb @ [x]\<rparr>)"

text \<open>\<open>_run_job\<close>: an exception of the handler is sent back as the error of the job.\<close>

definition run_job :: "('j \<Rightarrow> 'r result) \<Rightarrow> nat \<times> 'j \<Rightarrow> ('j, 'r) job_system \<Rightarrow> ('j, 'r) job_system" where
  "run_job handler t jb = jb\<lparr>jb_pool := remove1 t (jb_pool jb), jb_back := jb_back jb @ [(fst t, handler (snd t))]\<rparr>"

text \<open>\<open>_on_engine_message\<close> for a \<open>JobDone\<close>; a result that nobody waits for is dropped with a warning.\<close>

definition on_job_done :: "('j, 'r) job_system \<Rightarrow> ('j, 'r) job_system" where
  "on_job_done jb = (case jb_back jb of
       [] \<Rightarrow> jb
     | (n, r) # xs \<Rightarrow>
         if n \<in> set (jb_pending_jobs jb)
         then jb\<lparr>jb_back := xs, jb_pending_jobs := remove1 n (jb_pending_jobs jb), jb_awaited := jb_awaited jb @ [(n, Some r)]\<rparr>
         else jb\<lparr>jb_back := xs\<rparr>)"

inductive job_step :: "('j \<Rightarrow> 'r result) \<Rightarrow> ('j, 'r) job_system \<Rightarrow> ('j, 'r) job_system \<Rightarrow> bool" for handler where
  jb_submit: "job_step handler jb (submit j jb)"
| jb_timeout: "n \<in> set (jb_pending_jobs jb) \<Longrightarrow> job_step handler jb (job_timeout n jb)"
| jb_read: "job_step handler jb (read_job jb)"
| jb_run: "t \<in> set (jb_pool jb) \<Longrightarrow> job_step handler jb (run_job handler t jb)"
| jb_done: "job_step handler jb (on_job_done jb)"

definition travelling :: "('j, 'r) job_system \<Rightarrow> nat multiset" where
  "travelling jb = mset (map fst (jb_out jb)) + mset (map fst (jb_pool jb)) + mset (map fst (jb_back jb))"

definition jobs_numbered :: "('j, 'r) job_system \<Rightarrow> bool" where
  "jobs_numbered jb \<longleftrightarrow> distinct (map fst (jb_submitted jb)) \<and> (\<forall>n \<in> fst ` set (jb_submitted jb). n \<le> jb_next_job_id jb) \<and>
     mset (jb_pending_jobs jb) + mset (map fst (jb_awaited jb)) = mset (map fst (jb_submitted jb))"

definition jobs_travel :: "('j, 'r) job_system \<Rightarrow> bool" where
  "jobs_travel jb \<longleftrightarrow> travelling jb \<subseteq># mset (map fst (jb_submitted jb)) \<and> set (jb_pending_jobs jb) \<subseteq> set_mset (travelling jb)"

definition jobs_honest :: "('j \<Rightarrow> 'r result) \<Rightarrow> ('j, 'r) job_system \<Rightarrow> bool" where
  "jobs_honest handler jb \<longleftrightarrow> set (jb_out jb) \<subseteq> set (jb_submitted jb) \<and> set (jb_pool jb) \<subseteq> set (jb_submitted jb) \<and>
     (\<forall>(n, r) \<in> set (jb_back jb). \<exists>j. (n, j) \<in> set (jb_submitted jb) \<and> r = handler j) \<and>
     (\<forall>(n, r) \<in> set (jb_awaited jb). \<forall>x. r = Some x \<longrightarrow> (\<exists>j. (n, j) \<in> set (jb_submitted jb) \<and> x = handler j))"

definition job_inv :: "('j \<Rightarrow> 'r result) \<Rightarrow> ('j, 'r) job_system \<Rightarrow> bool" where
  "job_inv handler jb \<longleftrightarrow> jobs_numbered jb \<and> jobs_travel jb \<and> jobs_honest handler jb"

lemmas job_inv_defs = job_inv_def jobs_numbered_def jobs_travel_def jobs_honest_def travelling_def

lemma numbered_distinct:
  assumes "jobs_numbered jb"
  shows "distinct (map fst (jb_submitted jb))" "distinct (jb_pending_jobs jb @ map fst (jb_awaited jb))"
proof -
  show d: "distinct (map fst (jb_submitted jb))" using assms by (simp add: jobs_numbered_def)
  have "mset (jb_pending_jobs jb @ map fst (jb_awaited jb)) = mset (map fst (jb_submitted jb))"
    using assms unfolding jobs_numbered_def mset_append by blast
  then show "distinct (jb_pending_jobs jb @ map fst (jb_awaited jb))" using d mset_eq_imp_distinct_iff by blast
qed

lemma numbered_frame:
  "jobs_numbered jb \<Longrightarrow> jb_pending_jobs jb' = jb_pending_jobs jb \<Longrightarrow> jb_awaited jb' = jb_awaited jb \<Longrightarrow> jb_submitted jb' = jb_submitted jb \<Longrightarrow>
    jb_next_job_id jb' = jb_next_job_id jb \<Longrightarrow> jobs_numbered jb'"
  by (simp add: jobs_numbered_def)

lemma submit_inv:
  assumes "job_inv handler jb"
  shows "job_inv handler (submit j jb)"
proof -
  have "jobs_numbered (submit j jb)" using assms by (force simp: job_inv_def jobs_numbered_def submit_def Let_def)
  moreover have "jobs_travel (submit j jb)" using assms by (auto simp: job_inv_def jobs_travel_def travelling_def submit_def Let_def union_assoc)
  moreover have "jobs_honest handler (submit j jb)" using assms by (fastforce simp: job_inv_def jobs_honest_def submit_def Let_def)
  ultimately show ?thesis by (simp add: job_inv_def)
qed

lemma returned_numbered:
  assumes "jobs_numbered jb" "n \<in> set (jb_pending_jobs jb)" "jb_pending_jobs jb' = remove1 n (jb_pending_jobs jb)"
    "jb_awaited jb' = jb_awaited jb @ [(n, r)]" "jb_submitted jb' = jb_submitted jb" "jb_next_job_id jb' = jb_next_job_id jb"
  shows "jobs_numbered jb'"
proof -
  have "mset (jb_pending_jobs jb) = add_mset n (mset (jb_pending_jobs jb'))" using assms(2,3) by simp
  then have "mset (jb_pending_jobs jb') + mset (map fst (jb_awaited jb')) = mset (jb_pending_jobs jb) + mset (map fst (jb_awaited jb))" by (simp add: assms(4))
  then show ?thesis using assms(1,5,6) unfolding jobs_numbered_def by metis
qed

lemma timeout_inv:
  assumes "job_inv handler jb" "n \<in> set (jb_pending_jobs jb)"
  shows "job_inv handler (job_timeout n jb)"
proof -
  have "jobs_numbered (job_timeout n jb)"
    by (rule returned_numbered[OF _ assms(2)]) (use assms(1) in \<open>simp_all add: job_inv_def job_timeout_def\<close>)
  moreover have "jobs_travel (job_timeout n jb)"
    using assms(1) by (auto simp: job_inv_def jobs_travel_def travelling_def job_timeout_def dest: notin_set_remove1)
  moreover have "jobs_honest handler (job_timeout n jb)" using assms(1) by (auto simp: job_inv_def jobs_honest_def job_timeout_def)
  ultimately show ?thesis by (simp add: job_inv_def)
qed

lemma read_inv: "job_inv handler jb \<Longrightarrow> job_inv handler (read_job jb)"
  by (auto simp: job_inv_defs read_job_def split: list.splits)

lemma travelling_run: "t \<in> set (jb_pool jb) \<Longrightarrow> travelling (run_job handler t jb) = travelling jb"
proof -
  assume "t \<in> set (jb_pool jb)"
  then have "mset (jb_pool jb) = add_mset t (mset (remove1 t (jb_pool jb)))" by simp
  then have "image_mset fst (mset (jb_pool jb)) = add_mset (fst t) (image_mset fst (mset (remove1 t (jb_pool jb))))" by (metis image_mset_add_mset)
  then show ?thesis by (simp add: travelling_def run_job_def)
qed

lemma run_inv:
  assumes "job_inv handler jb" "t \<in> set (jb_pool jb)"
  shows "job_inv handler (run_job handler t jb)"
proof -
  have "jobs_travel (run_job handler t jb)"
    using assms(1) travelling_run[OF assms(2), of handler] by (simp add: job_inv_def jobs_travel_def) (simp add: run_job_def)
  moreover have "jobs_numbered (run_job handler t jb)" 
    by (rule numbered_frame[of jb]) (use assms(1) in \<open>simp_all add: job_inv_def run_job_def\<close>)
  moreover have "jobs_honest handler (run_job handler t jb)"
    using assms by (cases t) (auto simp: job_inv_def jobs_honest_def run_job_def dest: notin_set_remove1)
  ultimately show ?thesis by (simp add: job_inv_def)
qed

lemma done_travel:
  assumes num: "jobs_numbered jb" and tr: "jobs_travel jb" and b: "jb_back jb = (n, r) # xs"
  shows "jobs_travel (on_job_done jb)"
proof -
  let ?T = "travelling (on_job_done jb)"
  have t: "travelling jb = add_mset n ?T" using b by (simp add: travelling_def on_job_done_def)
  have s: "mset (map fst (jb_submitted (on_job_done jb))) = mset (map fst (jb_submitted jb))" using b by (simp add: on_job_done_def)
  have p: "set (jb_pending_jobs (on_job_done jb)) = set (jb_pending_jobs jb) - {n}"
    using b numbered_distinct(2)[OF num] by (auto simp: on_job_done_def)
  have "?T \<subseteq># mset (map fst (jb_submitted jb))" using tr t by (metis jobs_travel_def mset_subset_eq_insertD subset_mset.less_imp_le)
  moreover have "set (jb_pending_jobs jb) - {n} \<subseteq> set_mset ?T" using tr t by (auto simp: jobs_travel_def)
  ultimately show ?thesis using s p by (simp add: jobs_travel_def)
qed

lemma done_inv:
  assumes "job_inv handler jb"
  shows "job_inv handler (on_job_done jb)"
proof (cases "jb_back jb")
  case Nil
  then show ?thesis using assms by (simp add: on_job_done_def)
next
  case (Cons x xs)
  obtain n r where x: "jb_back jb = (n, r) # xs" using Cons by (cases x) simp
  have "jobs_travel (on_job_done jb)" using assms done_travel[OF _ _ x] by (simp add: job_inv_def)
  moreover have "jobs_numbered (on_job_done jb)"
  proof (cases "n \<in> set (jb_pending_jobs jb)")
    case True
    then show ?thesis by (rule returned_numbered[rotated]) (use assms x True in \<open>simp_all add: job_inv_def on_job_done_def\<close>)
  next
    case False
    then have "on_job_done jb = jb\<lparr>jb_back := xs\<rparr>" using x by (simp add: on_job_done_def)
    then show ?thesis using assms by (simp add: job_inv_def jobs_numbered_def)
  qed
  moreover have "jobs_honest handler (on_job_done jb)" using assms x by (auto simp: job_inv_def jobs_honest_def on_job_done_def)
  ultimately show ?thesis by (simp add: job_inv_def)
qed

interpretation jobs: inductive_invariant job_init "job_step handler" "job_inv handler" for handler
proof unfold_locales
  show "job_inv handler jb" if "job_init jb" for jb using that by (simp add: job_init_def job_inv_defs)
  show "job_inv handler jb'" if "job_inv handler jb" "job_step handler jb jb'" for jb jb'
    using that(2,1) by cases (simp_all add: submit_inv timeout_inv read_inv run_inv done_inv)
qed

text \<open>
  C21: Results of jobs reach the right waiter.  Whatever the order in which the pool runs the jobs and however timeouts fall, every
  submitted job is awaited or has returned, and returned only once; a result that was returned is what the handler made of that very job;
  and the completion of every job that is still awaited is on its way, on the pipe, in the pool or on the way back.
\<close>

theorem job_results_routed:
  assumes "reach job_init (job_step handler) jb"
  shows "distinct (jb_pending_jobs jb @ map fst (jb_awaited jb)) \<and> set (jb_pending_jobs jb @ map fst (jb_awaited jb)) = fst ` set (jb_submitted jb) \<and>
    (\<forall>n r. (n, Some r) \<in> set (jb_awaited jb) \<longrightarrow> (\<exists>!j. (n, j) \<in> set (jb_submitted jb)) \<and> (\<exists>j. (n, j) \<in> set (jb_submitted jb) \<and> r = handler j)) \<and>
    (\<forall>n \<in> set (jb_pending_jobs jb). count (travelling jb) n = 1)"
proof -
  have inv: "job_inv handler jb" by (rule jobs.reach_inv[OF assms])
  then have num: "jobs_numbered jb" and tr: "jobs_travel jb" and hon: "jobs_honest handler jb" by (simp_all add: job_inv_def)
  note d = numbered_distinct[OF num]
  have "mset (jb_pending_jobs jb @ map fst (jb_awaited jb)) = mset (map fst (jb_submitted jb))"
    using num unfolding jobs_numbered_def mset_append by blast
  then have s: "set (jb_pending_jobs jb @ map fst (jb_awaited jb)) = fst ` set (jb_submitted jb)" by (metis list.set_map mset_eq_setD)
  have one: "j = j'" if "(n, j) \<in> set (jb_submitted jb)" "(n, j') \<in> set (jb_submitted jb)" for n j j'
    using d(1) that by (metis eq_key_imp_eq_value)
  have aw: "\<exists>j. (n, j) \<in> set (jb_submitted jb) \<and> r = handler j" if "(n, Some r) \<in> set (jb_awaited jb)" for n r
    using hon that by (auto simp: jobs_honest_def)
  have "count (travelling jb) n = 1" if "n \<in> set (jb_pending_jobs jb)" for n
  proof -
    have "count (travelling jb) n \<le> count (mset (map fst (jb_submitted jb))) n" using tr by (simp add: jobs_travel_def mset_subset_eq_count)
    also have "\<dots> \<le> 1" using d(1) distinct_count_atmost_1[of "map fst (jb_submitted jb)"] by (simp split: if_splits)
    finally show ?thesis using tr that by (metis One_nat_def jobs_travel_def le_antisym count_greater_eq_one_iff subsetD)
  qed
  then show ?thesis using d(2) s aw one by blast
qed


section \<open>Receive requests\<close>

text \<open>The rank of the worker (\<open>InitMessage\<close>) and what the helper knows of remote engines: by engine, tensor rank and pipeline rank.\<close>

record helper_ranks =
  hr_tp_rank :: int
  hr_tp_size :: int
  hr_pp_rank :: int
  hr_pp_size :: int

type_synonym worker_table = "(int \<times> (int \<times> string) list) list"

datatype recv_phase = AwaitAgent nat | AwaitSessions "string list" | RecvEnded

record recv_service =
  rv_agents :: "(string \<times> worker_table) list"
  rv_remote_tp_sizes :: "(string \<times> int) list"
  rv_bootstrap_pending :: "(string \<times> nat) list"
  rv_events :: "bool list"
  rv_queries :: "(string \<times> nat) list"
  rv_tasks :: "(consumer_request \<times> recv_phase) list"
  rv_out :: "(string \<times> int list) list"

definition recv_init :: "recv_service \<Rightarrow> bool" where
  "recv_init rv \<longleftrightarrow> rv = \<lparr>rv_agents = [], rv_remote_tp_sizes = [], rv_bootstrap_pending = [], rv_events = [], rv_queries = [], rv_tasks = [], rv_out = []\<rparr>"

definition worker_addrs_of :: "helper_ranks \<Rightarrow> worker_table \<Rightarrow> int \<Rightarrow> string list result" where
  "worker_addrs_of hr table rank = (case map_of table rank of
       None \<Rightarrow> Inl KeyError
     | Some pp_to_addr \<Rightarrow>
         let pp_ranks = (if hr_pp_size hr = int (length pp_to_addr) \<and> hr_pp_rank hr \<in> fst ` set pp_to_addr then [hr_pp_rank hr]
                         else sort (map fst pp_to_addr))
         in Inr (map (\<lambda>pp. the (map_of pp_to_addr pp)) pp_ranks))"

definition handshake_worker_addrs :: "helper_ranks \<Rightarrow> string \<Rightarrow> recv_service \<Rightarrow> string list result" where
  "handshake_worker_addrs hr engine rv = (case map_of (rv_remote_tp_sizes rv) engine of
       None \<Rightarrow> Inl KeyError
     | Some remote_tp_size \<Rightarrow>
         bind_res (handshake_target_ranks (hr_tp_rank hr) (hr_tp_size hr) remote_tp_size) (\<lambda>ranks.
         bind_res (map_res (\<lambda>rank. case map_of (rv_agents rv) engine of None \<Rightarrow> Inl KeyError | Some table \<Rightarrow> worker_addrs_of hr table rank) ranks) (\<lambda>addrs.
           Inr (concat addrs))))"

definition recv_done :: "consumer_request \<Rightarrow> int set \<Rightarrow> recv_phase \<times> (string \<times> int list) list" where
  "recv_done req failed = (RecvEnded, [(cr_d_req_id req, sorted_list_of_set failed)])"

text \<open>\<open>_recv_request\<close> after the agent is known, up to its \<open>gather\<close>; an exception ends it with all blocks failed.\<close>

definition recv_connect :: "helper_ranks \<Rightarrow> int \<Rightarrow> consumer_request \<Rightarrow> recv_service \<Rightarrow> recv_phase \<times> (string \<times> int list) list" where
  "recv_connect hr null req rv =
     (if cr_engine_id req \<notin> fst ` set (rv_agents rv) then recv_done req (all_blocks null (cr_local_block_ids req))
      else case handshake_worker_addrs hr (cr_engine_id req) rv of
        Inl _ \<Rightarrow> recv_done req (all_blocks null (cr_local_block_ids req))
      | Inr addrs \<Rightarrow> if addrs = [] then recv_done req (all_blocks null (cr_local_block_ids req)) else (AwaitSessions addrs, []))"

definition recv_gathered :: "consumer_request \<Rightarrow> int set list \<Rightarrow> recv_phase \<times> (string \<times> int list) list" where
  "recv_gathered req results = recv_done req (\<Union> (set results))"

text \<open>\<open>_ensure_remote_agent\<close> up to its \<open>await\<close>: one query per bootstrap address, shared by all that wait for it.\<close>

definition ensure_remote_agent :: "string \<Rightarrow> recv_service \<Rightarrow> recv_service \<times> nat" where
  "ensure_remote_agent addr rv = (case map_of (rv_bootstrap_pending rv) addr of
       Some e \<Rightarrow> (rv, e)
     | None \<Rightarrow> let e = length (rv_events rv) in
         (rv\<lparr>rv_events := rv_events rv @ [False], rv_bootstrap_pending := dict_set (rv_bootstrap_pending rv) addr e,
             rv_queries := rv_queries rv @ [(addr, e)]\<rparr>, e))"

definition add_task :: "consumer_request \<Rightarrow> recv_phase \<times> (string \<times> int list) list \<Rightarrow> recv_service \<Rightarrow> recv_service" where
  "add_task req x rv = rv\<lparr>rv_tasks := rv_tasks rv @ [(req, fst x)], rv_out := rv_out rv @ snd x\<rparr>"

definition recv_begin :: "helper_ranks \<Rightarrow> int \<Rightarrow> consumer_request \<Rightarrow> recv_service \<Rightarrow> recv_service" where
  "recv_begin hr null req rv =
     (if cr_engine_id req \<in> fst ` set (rv_agents rv) then add_task req (recv_connect hr null req rv) rv
      else case ensure_remote_agent (cr_bootstrap req) rv of (rv1, e) \<Rightarrow> add_task req (AwaitAgent e, []) rv1)"

definition put_task :: "nat \<Rightarrow> consumer_request \<Rightarrow> recv_phase \<times> (string \<times> int list) list \<Rightarrow> recv_service \<Rightarrow> recv_service" where
  "put_task i req x rv = rv\<lparr>rv_tasks := (rv_tasks rv)[i := (req, fst x)], rv_out := rv_out rv @ snd x\<rparr>"

text \<open>\<open>_query_bootstrap\<close>: the entries that were stored before it ended or raised, then the \<open>finally\<close>.\<close>

definition store_agent :: "string \<times> worker_table \<Rightarrow> recv_service \<Rightarrow> recv_service" where
  "store_agent x rv = rv\<lparr>rv_agents := dict_set (rv_agents rv) (fst x) (snd x),
     rv_remote_tp_sizes := dict_set (rv_remote_tp_sizes rv) (fst x) (int (length (snd x)))\<rparr>"

definition query_ended :: "(string \<times> worker_table) list \<Rightarrow> string \<times> nat \<Rightarrow> recv_service \<Rightarrow> recv_service" where
  "query_ended entries q rv = (let rv1 = fold store_agent entries rv in
     rv1\<lparr>rv_events := (rv_events rv1)[snd q := True], rv_bootstrap_pending := dict_pop (rv_bootstrap_pending rv1) (fst q),
         rv_queries := remove1 q (rv_queries rv1)\<rparr>)"

text \<open>A session ends with no failed block or with all blocks of its request (\<open>session_result\<close>).\<close>

inductive recv_step :: "helper_ranks \<Rightarrow> int \<Rightarrow> recv_service \<Rightarrow> recv_service \<Rightarrow> bool" for hr null where
  rv_start: "recv_step hr null rv (recv_begin hr null req rv)"
| rv_query: "q \<in> set (rv_queries rv) \<Longrightarrow> recv_step hr null rv (query_ended entries q rv)"
| rv_wake: "i < length (rv_tasks rv) \<Longrightarrow> rv_tasks rv ! i = (req, AwaitAgent e) \<Longrightarrow> rv_events rv ! e \<Longrightarrow>
     recv_step hr null rv (put_task i req (recv_connect hr null req rv) rv)"
| rv_gather: "i < length (rv_tasks rv) \<Longrightarrow> rv_tasks rv ! i = (req, AwaitSessions addrs) \<Longrightarrow> length results = length addrs \<Longrightarrow>
     set results \<subseteq> {{}, all_blocks null (cr_local_block_ids req)} \<Longrightarrow> recv_step hr null rv (put_task i req (recv_gathered req results) rv)"

lemma session_result:
  assumes "reach (consumer_init n) (consumer_step null strict) kv" "s \<in> set (kv_sessions kv)" "cs_phase s = Ended"
  shows "cs_result s = Some {} \<or> cs_result s = Some (all_blocks null (cs_block_ids s))"
  using consumer.reach_inv[OF assms(1)] assms(2,3) by (auto simp: consumer_inv_def sess_ok_def phase_facts_def)

section \<open>The queues of the engine\<close>

record engine_queues =
  eq_finished_sending :: "string list"
  eq_finished_recving :: "string list"
  eq_invalid_block_ids :: "int set list"
  eq_failed_recv :: nat
  eq_expired :: nat

definition handle_final_event :: "string \<times> string \<Rightarrow> engine_queues \<Rightarrow> engine_queues" where
  "handle_final_event ev eq = (case ev of (kind, rid) \<Rightarrow>
     if kind = ''sending'' then eq\<lparr>eq_finished_sending := eq_finished_sending eq @ [rid]\<rparr>
     else if kind = ''sending_expired'' then eq\<lparr>eq_expired := eq_expired eq + 1, eq_finished_sending := eq_finished_sending eq @ [rid]\<rparr>
     else eq)"

definition handle_recv_done :: "string \<times> int list \<Rightarrow> engine_queues \<Rightarrow> engine_queues" where
  "handle_recv_done m eq = (case m of (rid, failed) \<Rightarrow>
     let eq1 = (if failed \<noteq> [] then eq\<lparr>eq_invalid_block_ids := eq_invalid_block_ids eq @ [set failed], eq_failed_recv := eq_failed_recv eq + 1\<rparr> else eq)
     in eq1\<lparr>eq_finished_recving := eq_finished_recving eq1 @ [rid]\<rparr>)"

definition new_queues :: engine_queues where
  "new_queues = \<lparr>eq_finished_sending = [], eq_finished_recving = [], eq_invalid_block_ids = [], eq_failed_recv = 0, eq_expired = 0\<rparr>"

definition engine_view :: "recv_service \<Rightarrow> engine_queues" where
  "engine_view rv = fold handle_recv_done (rv_out rv) new_queues"


section \<open>Every receive request is reported once\<close>

definition ended_ids :: "recv_service \<Rightarrow> string list" where
  "ended_ids rv = map (\<lambda>t. cr_d_req_id (fst t)) (filter (\<lambda>t. snd t = RecvEnded) (rv_tasks rv))"

definition out_ok :: "int \<Rightarrow> recv_service \<Rightarrow> bool" where
  "out_ok null rv \<longleftrightarrow> mset (map fst (rv_out rv)) = mset (ended_ids rv) \<and>
     (\<forall>(rid, fs) \<in> set (rv_out rv). fs = [] \<or> (\<exists>req. (req, RecvEnded) \<in> set (rv_tasks rv) \<and> cr_d_req_id req = rid \<and> set fs = all_blocks null (cr_local_block_ids req)))"

definition event_ok :: "recv_service \<Rightarrow> nat \<Rightarrow> bool" where
  "event_ok rv e \<longleftrightarrow> e < length (rv_events rv) \<and> (rv_events rv ! e \<or> (\<exists>addr. (addr, e) \<in> set (rv_queries rv)))"

definition events_ok :: "recv_service \<Rightarrow> bool" where
  "events_ok rv \<longleftrightarrow> set (rv_bootstrap_pending rv) \<subseteq> set (rv_queries rv) \<and> (\<forall>q \<in> set (rv_queries rv). snd q < length (rv_events rv)) \<and>
     (\<forall>req e. (req, AwaitAgent e) \<in> set (rv_tasks rv) \<longrightarrow> event_ok rv e)"

definition recv_inv :: "int \<Rightarrow> recv_service \<Rightarrow> bool" where
  "recv_inv null rv \<longleftrightarrow> out_ok null rv \<and> events_ok rv"

text \<open>What a stretch of \<open>_recv_request\<close> leaves: an end with one message about the request, or a wait without one.\<close>

definition fair_outcome :: "int \<Rightarrow> consumer_request \<Rightarrow> recv_phase \<times> (string \<times> int list) list \<Rightarrow> bool" where
  "fair_outcome null req x \<longleftrightarrow> (if fst x = RecvEnded
     then \<exists>fs. snd x = [(cr_d_req_id req, fs)] \<and> (fs = [] \<or> set fs = all_blocks null (cr_local_block_ids req)) else snd x = [])"

lemma finite_all_blocks [simp]: "finite (all_blocks null ids)"
  by (simp add: all_blocks_def)

lemma fair_done: "F = {} \<or> F = all_blocks null (cr_local_block_ids req) \<Longrightarrow> fair_outcome null req (recv_done req F)"
  by (auto simp: fair_outcome_def recv_done_def)

lemma fair_connect: "fair_outcome null req (recv_connect hr null req rv)"
  by (simp add: recv_connect_def fair_done split: sum.splits) (simp add: fair_outcome_def)

lemma connect_phase: "fst (recv_connect hr null req rv) \<noteq> AwaitAgent e"
  by (simp add: recv_connect_def recv_done_def split: sum.splits)

lemma fair_gathered:
  assumes "set results \<subseteq> {{}, all_blocks null (cr_local_block_ids req)}"
  shows "fair_outcome null req (recv_gathered req results)"
  unfolding recv_gathered_def by (rule fair_done) (use assms in auto)

lemma out_ok_add: "out_ok null rv \<Longrightarrow> fair_outcome null req x \<Longrightarrow> out_ok null (add_task req x rv)"
  by (auto simp: out_ok_def add_task_def ended_ids_def fair_outcome_def split: if_splits)

lemma out_ok_put:
  assumes ok: "out_ok null rv" and x: "fair_outcome null req x" and i: "i < length (rv_tasks rv)" "rv_tasks rv ! i = (req, ph)" "ph \<noteq> RecvEnded"
  shows "out_ok null (put_task i req x rv)"
proof -
  let ?rv = "put_task i req x rv"
  obtain R where R: "mset (rv_tasks rv) = add_mset (req, ph) R" using i by (metis mset_add nth_mem set_mset_mset)
  have R': "mset (rv_tasks ?rv) = add_mset (req, fst x) R" using i(1,2) by (simp add: put_task_def mset_update R)
  have ids: "mset (ended_ids rv) = image_mset (\<lambda>t. cr_d_req_id (fst t)) (filter_mset (\<lambda>t. snd t = RecvEnded) (mset (rv_tasks rv)))" for rv
    by (simp add: ended_ids_def mset_filter)
  have "mset (ended_ids ?rv) = mset (ended_ids rv) + (if fst x = RecvEnded then {#cr_d_req_id req#} else {#})"
    unfolding ids R R' using i(3) by simp
  moreover have "mset (map fst (rv_out ?rv)) = mset (map fst (rv_out rv)) + mset (map fst (snd x))" by (simp add: put_task_def)
  moreover have "mset (map fst (snd x)) = (if fst x = RecvEnded then {#cr_d_req_id req#} else {#})"
    using x by (auto simp: fair_outcome_def split: if_splits)
  ultimately have "mset (map fst (rv_out ?rv)) = mset (ended_ids ?rv)" using ok by (simp add: out_ok_def)
  moreover have sub: "(r, RecvEnded) \<in> set (rv_tasks ?rv)" if "(r, RecvEnded) \<in> set (rv_tasks rv)" for r
  proof -
    have "(r, RecvEnded) \<in># add_mset (req, ph) R" using that unfolding R[symmetric] by simp
    then have "(r, RecvEnded) \<in># mset (rv_tasks ?rv)" unfolding R' using i(3) by auto
    then show ?thesis by simp
  qed
  moreover have new: "(req, fst x) \<in> set (rv_tasks ?rv)" using i(1) by (simp add: put_task_def set_update_memI)
  ultimately show ?thesis using ok x new unfolding out_ok_def
    by (fastforce simp: put_task_def fair_outcome_def split: if_splits)
qed

lemma events_ok_add: "events_ok rv \<Longrightarrow> (\<And>e. fst x = AwaitAgent e \<Longrightarrow> event_ok rv e) \<Longrightarrow> events_ok (add_task req x rv)"
  by (auto simp: events_ok_def add_task_def event_ok_def)

lemma events_ok_put:
  assumes "events_ok rv" "\<And>e. fst x \<noteq> AwaitAgent e"
  shows "events_ok (put_task i req x rv)"
proof -
  have "(r, AwaitAgent e) \<in> set (rv_tasks rv)" if "(r, AwaitAgent e) \<in> set (rv_tasks (put_task i req x rv))" for r e
  proof -
    have "(r, AwaitAgent e) \<in> insert (req, fst x) (set (rv_tasks rv))"
      using that set_update_subset_insert[of "rv_tasks rv" i "(req, fst x)"] unfolding put_task_def by auto
    moreover have "(r, AwaitAgent e) \<noteq> (req, fst x)" using assms(2)[of e] by auto
    ultimately show ?thesis by blast
  qed
  moreover have "event_ok (put_task i req x rv) = event_ok rv" by (simp add: fun_eq_iff event_ok_def put_task_def)
  moreover have "rv_bootstrap_pending (put_task i req x rv) = rv_bootstrap_pending rv" "rv_queries (put_task i req x rv) = rv_queries rv"
    "rv_events (put_task i req x rv) = rv_events rv" by (simp_all add: put_task_def)
  ultimately show ?thesis using assms(1) by (metis events_ok_def)
qed

lemma ensure_events:
  assumes "events_ok rv" "ensure_remote_agent addr rv = (rv1, e)"
  shows "events_ok rv1 \<and> event_ok rv1 e \<and> rv_tasks rv1 = rv_tasks rv \<and> rv_out rv1 = rv_out rv"
proof (cases "map_of (rv_bootstrap_pending rv) addr")
  case (Some e')
  then have "(addr, e') \<in> set (rv_queries rv)" using assms(1) by (auto simp: events_ok_def dest!: map_of_SomeD)
  then show ?thesis using Some assms by (auto simp: ensure_remote_agent_def event_ok_def events_ok_def)
next
  case None
  then have r: "rv1 = rv\<lparr>rv_events := rv_events rv @ [False], rv_bootstrap_pending := dict_set (rv_bootstrap_pending rv) addr e,
      rv_queries := rv_queries rv @ [(addr, e)]\<rparr>" "e = length (rv_events rv)" using assms(2) by (auto simp: ensure_remote_agent_def Let_def)
  have "event_ok rv1 e'" if "event_ok rv e'" for e' using that by (auto simp: event_ok_def r nth_append)
  moreover have "set (rv_bootstrap_pending rv1) \<subseteq> set (rv_queries rv1)" using assms(1) by (auto simp: events_ok_def r dest: set_dict_set_sub)
  moreover have "event_ok rv1 e" by (auto simp: event_ok_def r)
  ultimately show ?thesis using assms(1) by (auto simp: events_ok_def r)
qed

lemma fold_store_frame [simp]:
  "rv_events (fold store_agent xs rv) = rv_events rv" "rv_bootstrap_pending (fold store_agent xs rv) = rv_bootstrap_pending rv"
  "rv_queries (fold store_agent xs rv) = rv_queries rv" "rv_tasks (fold store_agent xs rv) = rv_tasks rv" "rv_out (fold store_agent xs rv) = rv_out rv"
  by (induction xs arbitrary: rv) (simp_all add: store_agent_def)

lemma query_events:
  assumes "events_ok rv" "q \<in> set (rv_queries rv)"
  shows "events_ok (query_ended entries q rv)"
proof -
  let ?rv = "query_ended entries q rv"
  have f: "rv_events ?rv = (rv_events rv)[snd q := True]" "rv_queries ?rv = remove1 q (rv_queries rv)" "rv_tasks ?rv = rv_tasks rv"
      "rv_bootstrap_pending ?rv = dict_pop (rv_bootstrap_pending rv) (fst q)" by (simp_all add: query_ended_def Let_def)
  have keep: "x \<in> set (rv_queries ?rv)" if "x \<in> set (rv_queries rv)" "x \<noteq> q" for x using that by (simp add: f)
  have "event_ok ?rv e" if "event_ok rv e" for e
  proof (cases "e = snd q")
    case True
    then show ?thesis using that by (simp add: event_ok_def f)
  next
    case False
    then have "(addr, e) \<in> set (rv_queries ?rv)" if "(addr, e) \<in> set (rv_queries rv)" for addr using False keep[OF that] by (metis snd_conv)
    then show ?thesis using \<open>event_ok rv e\<close> False by (auto simp: event_ok_def f(1))
  qed
  moreover have "set (rv_bootstrap_pending ?rv) \<subseteq> set (rv_queries ?rv)"
  proof
    fix x
    assume "x \<in> set (rv_bootstrap_pending ?rv)"
    then have "x \<in> set (rv_queries rv)" "x \<noteq> q" using assms(1) by (auto simp: events_ok_def f(4) dict_pop_def)
    then show "x \<in> set (rv_queries ?rv)" by (rule keep)
  qed
  ultimately show ?thesis using assms(1) by (auto simp: events_ok_def f dest: notin_set_remove1)
qed

lemma recv_step_inv:
  assumes "recv_step hr null rv rv'" "recv_inv null rv"
  shows "recv_inv null rv'"
  using assms
proof cases
  case (rv_start req)
  show ?thesis
  proof (cases "cr_engine_id req \<in> fst ` set (rv_agents rv)")
    case True
    have "events_ok (add_task req (recv_connect hr null req rv) rv)" using assms(2) by (intro events_ok_add) (simp_all add: recv_inv_def connect_phase)
    then show ?thesis using True rv_start assms(2) out_ok_add[OF _ fair_connect] by (simp add: recv_begin_def recv_inv_def)
  next
    case False
    obtain rv1 e where e: "ensure_remote_agent (cr_bootstrap req) rv = (rv1, e)" by (cases "ensure_remote_agent (cr_bootstrap req) rv")
    have "events_ok rv" using assms(2) by (simp add: recv_inv_def)
    note en = ensure_events[OF this e]
    have "out_ok null rv1" using en assms(2) by (simp add: recv_inv_def out_ok_def ended_ids_def)
    then have "out_ok null (add_task req (AwaitAgent e, []) rv1)" by (rule out_ok_add) (simp add: fair_outcome_def)
    moreover have "events_ok (add_task req (AwaitAgent e, []) rv1)" using en by (intro events_ok_add) auto
    ultimately show ?thesis using rv_start False e by (simp add: recv_begin_def recv_inv_def)
  qed
next
  case (rv_query q entries)
  have "out_ok null rv'" using assms(2) rv_query(1) by (simp add: recv_inv_def out_ok_def ended_ids_def query_ended_def Let_def)
  then show ?thesis using assms(2) rv_query query_events by (simp add: recv_inv_def)
next
  case (rv_wake i req e)
  then show ?thesis using assms(2) out_ok_put[OF _ fair_connect rv_wake(2,3)] events_ok_put[OF _ connect_phase] by (simp add: recv_inv_def)
next
  case (rv_gather i req addrs results)
  then show ?thesis using assms(2) out_ok_put[OF _ fair_gathered[OF rv_gather(5)] rv_gather(2,3)] events_ok_put[of rv "recv_gathered req results"]
    by (simp add: recv_inv_def recv_gathered_def recv_done_def)
qed

interpretation receives: inductive_invariant recv_init "recv_step hr null" "recv_inv null" for hr null
proof unfold_locales
  show "recv_inv null rv" if "recv_init rv" for rv using that by (simp add: recv_init_def recv_inv_def out_ok_def events_ok_def ended_ids_def)
qed (rule recv_step_inv)


text \<open>The engine's queues hold what the messages say.\<close>

lemma engine_fold:
  "eq_finished_recving (fold handle_recv_done ms eq) = eq_finished_recving eq @ map fst ms"
  "eq_invalid_block_ids (fold handle_recv_done ms eq) = eq_invalid_block_ids eq @ map (set \<circ> snd) (filter (\<lambda>m. snd m \<noteq> []) ms)"
  by (induction ms arbitrary: eq) (auto simp: handle_recv_done_def Let_def split: prod.splits)

text \<open>A state in which a request has not ended has a step that brings it closer to its end.\<close>

fun task_weight :: "recv_phase \<Rightarrow> nat" where
  "task_weight (AwaitAgent _) = 2" | "task_weight (AwaitSessions _) = 1" | "task_weight RecvEnded = 0"

definition recv_weight :: "recv_service \<Rightarrow> nat" where
  "recv_weight rv = length (rv_queries rv) + (\<Sum>t\<leftarrow>rv_tasks rv. task_weight (snd t))"

lemma put_weight:
  assumes "i < length (rv_tasks rv)" "rv_tasks rv ! i = (req, ph)" "task_weight (fst x) < task_weight ph"
  shows "recv_weight (put_task i req x rv) < recv_weight rv \<and> map fst (rv_tasks (put_task i req x rv)) = map fst (rv_tasks rv)"
proof -
  have "map fst ((rv_tasks rv)[i := (req, fst x)]) = map fst (rv_tasks rv)"
    using assms(1,2) by (metis fst_conv list_update_id map_update)
  then show ?thesis using sum_list_update_less[of i "rv_tasks rv" "\<lambda>t. task_weight (snd t)" "(req, fst x)"] assms
    by (simp add: recv_weight_def put_task_def)
qed

lemma recv_progress:
  assumes "events_ok rv" "t \<in> set (rv_tasks rv)" "snd t \<noteq> RecvEnded"
  shows "\<exists>rv'. recv_step hr null rv rv' \<and> recv_weight rv' < recv_weight rv \<and> map fst (rv_tasks rv') = map fst (rv_tasks rv)"
proof -
  obtain i where i: "i < length (rv_tasks rv)" "rv_tasks rv ! i = t" using assms(2) by (metis in_set_conv_nth)
  obtain req ph where t: "t = (req, ph)" by (cases t)
  show ?thesis
  proof (cases ph)
    case (AwaitAgent e)
    show ?thesis
    proof (cases "rv_events rv ! e")
      case True
      have "task_weight (fst (recv_connect hr null req rv)) < task_weight ph"
        using connect_phase[of hr null req rv] AwaitAgent by (cases "fst (recv_connect hr null req rv)") auto
      then show ?thesis using rv_wake[OF i(1) _ True] put_weight[OF i(1)] i(2) t AwaitAgent by blast
    next
      case False
      have "event_ok rv e" using assms(1,2) t AwaitAgent by (simp add: events_ok_def)
      then obtain addr where q: "(addr, e) \<in> set (rv_queries rv)" using False by (auto simp: event_ok_def)
      have "length (remove1 (addr, e) (rv_queries rv)) < length (rv_queries rv)"
        using q length_pos_if_in_set[OF q] by (simp add: length_remove1)
      then have "recv_weight (query_ended [] (addr, e) rv) < recv_weight rv" "rv_tasks (query_ended [] (addr, e) rv) = rv_tasks rv"
        by (simp_all add: recv_weight_def query_ended_def Let_def)
      then show ?thesis using rv_query[OF q] by metis
    qed
  next
    case (AwaitSessions addrs)
    have "recv_step hr null rv (put_task i req (recv_gathered req (replicate (length addrs) {})) rv)"
      using i t AwaitSessions by (intro rv_gather) auto
    moreover have "task_weight (fst (recv_gathered req (replicate (length addrs) {}))) < task_weight ph"
      by (simp add: recv_gathered_def recv_done_def AwaitSessions)
    ultimately show ?thesis using put_weight[OF i(1)] i(2) t by blast
  qed (use assms(3) t in simp)
qed

lemma recv_can_end:
  assumes "recv_inv null rv"
  shows "\<exists>rv'. (recv_step hr null)\<^sup>*\<^sup>* rv rv' \<and> (\<forall>t \<in> set (rv_tasks rv'). snd t = RecvEnded) \<and> map fst (rv_tasks rv') = map fst (rv_tasks rv)"
  using assms
proof (induction "recv_weight rv" arbitrary: rv rule: less_induct)
  case less
  show ?case
  proof (cases "\<forall>t \<in> set (rv_tasks rv). snd t = RecvEnded")
    case False
    then obtain t where t: "t \<in> set (rv_tasks rv)" "snd t \<noteq> RecvEnded" by blast
    have "events_ok rv" using less.prems by (simp add: recv_inv_def)
    then obtain rv1 where s: "recv_step hr null rv rv1" "recv_weight rv1 < recv_weight rv" "map fst (rv_tasks rv1) = map fst (rv_tasks rv)"
      using recv_progress t by blast
    then show ?thesis using less.hyps[OF s(2) recv_step_inv[OF s(1) less.prems]] by (metis converse_rtranclp_into_rtranclp)
  qed blast
qed

text \<open>
  C18: A receive request is reported once and with honest blocks.  In every reachable state the engine has been told of exactly the requests
  that have ended, each once; every set of invalid blocks it was given is the set of all blocks of an ended request; and no request is
  stuck: one that waits for the address of its producer waits for a query that is running or has ended, and from every state all
  requests can be brought to their end.
\<close>

theorem receives_reported_once:
  assumes "reach recv_init (recv_step hr null) rv"
  shows "mset (eq_finished_recving (engine_view rv)) = mset (ended_ids rv) \<and>
    (\<forall>B \<in> set (eq_invalid_block_ids (engine_view rv)). B \<noteq> {} \<and>
       (\<exists>req. (req, RecvEnded) \<in> set (rv_tasks rv) \<and> B = all_blocks null (cr_local_block_ids req))) \<and>
    (\<forall>req e. (req, AwaitAgent e) \<in> set (rv_tasks rv) \<longrightarrow> rv_events rv ! e \<or> (\<exists>addr. (addr, e) \<in> set (rv_queries rv))) \<and>
    (\<exists>rv'. (recv_step hr null)\<^sup>*\<^sup>* rv rv' \<and> mset (eq_finished_recving (engine_view rv')) = mset (map (\<lambda>t. cr_d_req_id (fst t)) (rv_tasks rv)))"
proof -
  have inv: "recv_inv null rv" by (rule receives.reach_inv[OF assms])
  have fin: "mset (eq_finished_recving (engine_view r)) = mset (ended_ids r)" if "recv_inv null r" for r
    using that by (simp add: engine_view_def engine_fold new_queues_def recv_inv_def out_ok_def)
  have bad: "B \<noteq> {} \<and> (\<exists>req. (req, RecvEnded) \<in> set (rv_tasks rv) \<and> B = all_blocks null (cr_local_block_ids req))"
    if b: "B \<in> set (eq_invalid_block_ids (engine_view rv))" for B
  proof -
    obtain rid fs where m: "(rid, fs) \<in> set (rv_out rv)" "fs \<noteq> []" "B = set fs"
      using b by (auto simp: engine_view_def engine_fold new_queues_def)
    then show ?thesis using inv by (fastforce simp: recv_inv_def out_ok_def)
  qed
  obtain rv' where r: "(recv_step hr null)\<^sup>*\<^sup>* rv rv'" "\<forall>t \<in> set (rv_tasks rv'). snd t = RecvEnded" "map fst (rv_tasks rv') = map fst (rv_tasks rv)"
    using recv_can_end[OF inv] by blast
  have "recv_inv null rv'" using r(1) inv by (induction rule: rtranclp_induct) (auto intro: recv_step_inv)
  moreover have "ended_ids rv' = map cr_d_req_id (map fst (rv_tasks rv'))" using r(2) by (simp add: ended_ids_def comp_def)
  ultimately have "mset (eq_finished_recving (engine_view rv')) = mset (map cr_d_req_id (map fst (rv_tasks rv')))" using fin by metis
  then have "mset (eq_finished_recving (engine_view rv')) = mset (map (\<lambda>t. cr_d_req_id (fst t)) (rv_tasks rv))" unfolding r(3) by (simp add: comp_def)
  moreover have "rv_events rv ! e \<or> (\<exists>addr. (addr, e) \<in> set (rv_queries rv))" if "(req, AwaitAgent e) \<in> set (rv_tasks rv)" for req e
    using inv that by (auto simp: recv_inv_def events_ok_def event_ok_def)
  ultimately show ?thesis using fin[OF inv] bad r(1) by blast
qed


section \<open>Sample runs\<close>

definition jb_0 :: "(int, int) job_system" where
  "jb_0 = \<lparr>jb_next_job_id = 0, jb_pending_jobs = [], jb_out = [], jb_pool = [], jb_back = [], jb_submitted = [], jb_awaited = []\<rparr>"

definition sample_handler :: "int \<Rightarrow> int result" where
  "sample_handler j = (if j = 0 then Inl RuntimeError else Inr (10 * j))"

text \<open>Two jobs, of which the second ends first and the first times out.\<close>

definition jb_7 :: "(int, int) job_system" where
  "jb_7 = on_job_done (job_timeout 1 (run_job sample_handler (2, 7) (read_job (read_job (submit 7 (submit 0 jb_0))))))"

lemma jb_7_reach: "reach job_init (job_step sample_handler) jb_7"
proof -
  have r0: "reach job_init (job_step sample_handler) jb_0" by (rule reach_init) (simp add: job_init_def jb_0_def)
  note r2 = reach_step[OF reach_step[OF r0 jb_submit[of _ _ 0]] jb_submit[of _ _ 7]]
  note r4 = reach_step[OF reach_step[OF r2 jb_read] jb_read]
  have r5: "reach job_init (job_step sample_handler) (run_job sample_handler (2, 7) (read_job (read_job (submit 7 (submit 0 jb_0)))))"
    by (rule reach_step[OF r4 jb_run]) code_simp
  have r6: "reach job_init (job_step sample_handler) (job_timeout 1 (run_job sample_handler (2, 7) (read_job (read_job (submit 7 (submit 0 jb_0))))))"
    by (rule reach_step[OF r5 jb_timeout]) code_simp
  show ?thesis unfolding jb_7_def by (rule reach_step[OF r6 jb_done])
qed

theorem job_results_routed_witness:
  "jb_awaited jb_7 = [(1, None), (2, Some (Inr 70))] \<and> (\<exists>j. (2, j) \<in> set (jb_submitted jb_7) \<and> Inr 70 = sample_handler j)"
proof -
  have a: "jb_awaited jb_7 = [(1, None), (2, Some (Inr 70))]" by code_simp
  then have "(2, Some (Inr 70)) \<in> set (jb_awaited jb_7)" by simp
  then show ?thesis using a job_results_routed[OF jb_7_reach] by blast
qed

definition rv_0 :: recv_service where
  "rv_0 = \<lparr>rv_agents = [], rv_remote_tp_sizes = [], rv_bootstrap_pending = [], rv_events = [], rv_queries = [], rv_tasks = [], rv_out = []\<rparr>"

definition sample_ranks :: helper_ranks where
  "sample_ranks = \<lparr>hr_tp_rank = 0, hr_tp_size = 1, hr_pp_rank = 0, hr_pp_size = 1\<rparr>"

definition sample_receive :: consumer_request where
  "sample_receive = \<lparr>cr_d_req_id = ''r'', cr_transfer_id = ''t'', cr_local_block_ids = [[4, 5]], cr_num_tokens = Some 20, cr_engine_id = ''e'', cr_bootstrap = ''b''\<rparr>"

definition rv_1 :: recv_service where "rv_1 = recv_begin sample_ranks 0 sample_receive rv_0"

definition rv_2 :: recv_service where "rv_2 = query_ended [(''e'', [(0, [(0, ''w'')])])] (''b'', 0) rv_1"

definition rv_3 :: recv_service where "rv_3 = put_task 0 sample_receive (recv_connect sample_ranks 0 sample_receive rv_2) rv_2"

definition rv_4 :: recv_service where "rv_4 = put_task 0 sample_receive (recv_gathered sample_receive [{4, 5}]) rv_3"

lemma rv_4_reach: "reach recv_init (recv_step sample_ranks 0) rv_4"
proof -
  have r0: "reach recv_init (recv_step sample_ranks 0) rv_0" by (rule reach_init) (simp add: recv_init_def rv_0_def)
  have r1: "reach recv_init (recv_step sample_ranks 0) rv_1" unfolding rv_1_def by (rule reach_step[OF r0 rv_start])
  have r2: "reach recv_init (recv_step sample_ranks 0) rv_2" unfolding rv_2_def by (rule reach_step[OF r1 rv_query]) code_simp
  have r3: "reach recv_init (recv_step sample_ranks 0) rv_3" unfolding rv_3_def by (rule reach_step[OF r2 rv_wake[where e = 0]]) code_simp+
  show ?thesis unfolding rv_4_def
  proof (rule reach_step[OF r3 rv_gather[where addrs = "[''w'']"]])
    show "set [{4, 5}] \<subseteq> {{}, all_blocks 0 (cr_local_block_ids sample_receive)}" by (auto simp: sample_receive_def all_blocks_def)
  qed code_simp+
qed

theorem receives_reported_once_witness:
  "\<exists>req. (req, RecvEnded) \<in> set (rv_tasks rv_4) \<and> {4, 5} = all_blocks 0 (cr_local_block_ids req)"
proof -
  have "rv_out rv_4 = rv_out rv_3 @ [(''r'', sorted_list_of_set {4, 5})]"
    by (simp add: rv_4_def put_task_def recv_gathered_def recv_done_def sample_receive_def)
  moreover have "rv_out rv_3 = []" by code_simp
  ultimately have "eq_invalid_block_ids (engine_view rv_4) = [{4, 5}]" by (simp add: engine_view_def handle_recv_done_def new_queues_def)
  then show ?thesis using receives_reported_once[OF rv_4_reach] by simp
qed

end
