(* ===== verification/Spec2Isabelle.thy ===== *)
theory Spec2Isabelle
  imports Runtime_Manager Wire Recv_Credits Online_Controller Bitpack Connector_Worker Store_Lookup Store_Pins Session_Jobs
begin

text \<open>
  KVServe moves the KV caches of large language models between serving engines: a producer computes the prefill of a request, compresses
  its KV blocks and sends them to a consumer that decodes, or stores them in a shared Mooncake store from which later requests load
  them.  This development models the Python code that decides where bytes go, who may touch them and when, and proves that it keeps
  its promises.  Paths below are under \<^verbatim>\<open>src/kvserve_v1\<close> (the runtime and the NCCL connector) and
  \<^verbatim>\<open>src/kvsfuse-vllm0.30.0/mooncake\<close> (the Mooncake connector and store).

  \<^bold>\<open>Parts and how they interact.\<close>
  The \<^emph>\<open>runtime\<close> plans memory from a configuration, carves one device buffer into slots and lays out each compressed chunk in them.
  The \<^emph>\<open>connector\<close> has a scheduler half, which decides at every engine step which requests save or load, and a worker half, which
  extracts blocks, turns them into a \<^emph>\<open>wire\<close> payload, hands it to the \<^emph>\<open>transport\<close> and injects what arrives; the \<^emph>\<open>controller\<close> chooses
  a compression profile per request.  The \<^emph>\<open>Mooncake store\<close> has a scheduler that asks rank 0 what is cached (protocol, lookup, coordinator)
  and pins blocks while the sending threads of all ranks put them.  The \<^emph>\<open>Mooncake connector\<close> moves blocks directly: its scheduler
  announces requests, a helper process per rank runs compression sessions between producer and consumer, and the engine executes
  the jobs that the helper submits.

  \<^bold>\<open>Shared theories.\<close>
  \<^item> \<^theory_text>\<open>KV_Prelude\<close>: exceptions as values (\<open>py_error\<close>, the result type and its bind, fold and map), stacks of byte regions, reachability,
    and the locales of the library: \<open>bump_cursor\<close> (an allocator that only moves forward), \<open>inductive_invariant\<close> (a step relation with an
    invariant) and \<open>lossless_codec\<close> (an encoder with its decoder).  Each is interpreted on the definitions of the components.
  \<^item> \<^theory_text>\<open>Py_Values\<close>: dynamic Python values of configuration files and metadata, and dictionaries in insertion order.
  \<^item> \<^theory_text>\<open>Wire_Values\<close>: tensors as element type, shape and bytes, and the containers that hold them.

  \<^bold>\<open>The runtime\<close> (\<^verbatim>\<open>compression/runtime\<close>).
  \<^item> \<^theory_text>\<open>Runtime_Spec\<close> (\<^verbatim>\<open>spec.py\<close>), \<^theory_text>\<open>Runtime_Config\<close> (\<^verbatim>\<open>config.py\<close>): cache geometry and configuration; an accepted configuration satisfies
    the numeric and ordering constraints that the rest relies on.
  \<^item> \<^theory_text>\<open>Head_Scores\<close> (\<^verbatim>\<open>scores.py\<close>): selection of low-precision heads; every order is a permutation of the local heads.
  \<^item> \<^theory_text>\<open>Runtime_Layout\<close> (\<^verbatim>\<open>layout.py\<close>): the byte layout of a chunk; auxiliary regions are aligned, disjoint and inside their reserve, scratch and
    packed streams fit the arena.
  \<^item> \<^theory_text>\<open>Workspace_Allocator\<close>, \<^theory_text>\<open>Memory_Plan\<close> (\<^verbatim>\<open>memory.py\<close>): the first allocator as a step relation whose live and free regions tile the buffer
    in every reachable state, the registry of allocators, and the plan.
  \<^item> \<^theory_text>\<open>Runtime_Manager\<close> (\<^verbatim>\<open>manager.py\<close>): all buffers of the runtime are carved disjoint and untruncated from what the plan sized.

  \<^bold>\<open>Payloads, transport and control.\<close>
  \<^item> \<^theory_text>\<open>Wire\<close> (\<^verbatim>\<open>compression/wire.py\<close>): restoring the wire form of a payload gives the payload back.
  \<^item> \<^theory_text>\<open>Bitpack\<close> (\<^verbatim>\<open>codec/bitpack_codec.py\<close>): packing and unpacking at the level of the kernels, for all widths, with 32-bit lane indices.
  \<^item> \<^theory_text>\<open>KV_Blocks\<close> (\<^verbatim>\<open>utils/kv_utils.py\<close>): extraction and injection of paged blocks move exactly the named blocks.
  \<^item> \<^theory_text>\<open>Nccl_Transport\<close>, \<^theory_text>\<open>Recv_Credits\<close> (\<^verbatim>\<open>transport/nccl_transport.py\<close>): the two ends as one step relation; order and content per request survive
    retries and failures, byte counters are exact, and staged bytes are bounded.
  \<^item> \<^theory_text>\<open>Bandit_State\<close>, \<^theory_text>\<open>Online_Controller\<close> (\<^verbatim>\<open>compression/controller\<close>): statistics, profiles, the latency model and the selection; floats are
    rationals, random choices are arguments.

  \<^bold>\<open>The connector\<close> (\<^verbatim>\<open>connector/compressed_kv_connector.py\<close>).
  \<^item> \<^theory_text>\<open>Connector_Scheduler\<close>: metadata of every step; a chunked prefill is announced once and complete, and the producer refines a reference
    machine per request.
  \<^item> \<^theory_text>\<open>Connector_Worker\<close>: save and load with and without compression; end to end the consumer holds the producer's blocks, the load loop ends
    and gives back its staging credit.  The compression adapter is a parameter with its documented laws as hypotheses.

  \<^bold>\<open>The Mooncake store\<close> (\<^verbatim>\<open>mooncake/store\<close>).
  \<^item> \<^theory_text>\<open>Store_Protocol\<close> (\<^verbatim>\<open>protocol.py\<close>), \<^theory_text>\<open>Store_Layout\<close> (\<^verbatim>\<open>data.py\<close>), \<^theory_text>\<open>Store_Coordinator\<close> (\<^verbatim>\<open>coordinator.py\<close>), \<^theory_text>\<open>Store_Lookup\<close> (\<^verbatim>\<open>worker.py\<close>, lookup):
    the lookup from request to answer; its search for a common hit ends and is the longest one, and what it reports is present.
  \<^item> \<^theory_text>\<open>Store_Scheduler\<close> (\<^verbatim>\<open>scheduler.py\<close>), \<^theory_text>\<open>Store_Sender\<close> (\<^verbatim>\<open>worker.py\<close>, sending thread), \<^theory_text>\<open>Store_Pins\<close> (both together): blocks of outstanding jobs are
    referenced, references balance with the reports of the ranks and can always be drained.  \<open>tail_reads_unreferenced\<close> is the one kind of
    job for which this fails in the code.

  \<^bold>\<open>The Mooncake connector\<close> (\<^verbatim>\<open>mooncake\<close>).
  \<^item> \<^theory_text>\<open>Transfer_Plan\<close> (\<^verbatim>\<open>mooncake_connector.py\<close>, regions, slices, descriptors, submission): merged descriptors move the bytes of the plain copy,
    alignment pairs matching layers, slices of ranks tile a block, submission ends within its limits.
  \<^item> \<^theory_text>\<open>Session_Chunks\<close> (\<^verbatim>\<open>session_ipc.py\<close>, \<^verbatim>\<open>compression/tokens.py\<close>, session jobs): both sides of a session cut the same chunks.
  \<^item> \<^theory_text>\<open>Session_Producer\<close>, \<^theory_text>\<open>Session_Abort\<close> (\<^verbatim>\<open>session_process.py\<close>, producer): every coroutine is a task that rests at its awaits, so every
    interleaving of an event loop is a run; slots are held once, counters are exact, an acknowledged abort has no encoding under way.
  \<^item> \<^theory_text>\<open>Session_Consumer\<close> (\<^verbatim>\<open>session_process.py\<close>, consumer): slots that a producer may write are private, and a successful session is complete.
    Two lemmas show where the code falls short: a lost decode error and a slot reused without acknowledgement.
  \<^item> \<^theory_text>\<open>Mooncake_Scheduler\<close> (\<open>MooncakeConnectorScheduler\<close>): remote prefills are pulled once, and both sides agree on the number of tokens.
  \<^item> \<^theory_text>\<open>Session_Jobs\<close> (\<^verbatim>\<open>session_process.py\<close>, \<open>SessionProcess\<close> and receive requests): results reach the waiter of their job, and every receive
    request is reported once.

  \<^bold>\<open>Conventions, bounds and termination.\<close>
  Python integers are \<open>int\<close> or \<open>nat\<close> with the checks of the code; NumPy and kernel integers keep their width.  Every raise is a value
  of the result type; messages are not kept, only their class.  Dicts are association lists where their order matters.  No definition uses fuel:
  loops are structural, have a measure (\<open>send_loop\<close>, \<open>split_bytes\<close>), or, for the \<open>while True\<close> of the coordinator, are a partial function whose
  termination is a theorem (\<open>longest_hit_terminates\<close>).  Concurrent parts are step relations over the stretches of code between two points at
  which another thread or task can run; times are steps of a clock or nondeterministic.  Code that is not in the repository (vLLM's block pool, cache specs
  and block tables, the transfer engine, nvCOMP, NCCL) is a parameter of the definitions that use it.

  \<^bold>\<open>Not modelled.\<close>
  GPU code and its drivers (\<^verbatim>\<open>runtime/pipeline.py\<close>, \<^verbatim>\<open>codec.py\<close>, \<^verbatim>\<open>cpp_backend.py\<close>, \<^verbatim>\<open>csrc\<close>, \<^verbatim>\<open>tilelang_ops\<close>, quantizers, transforms, native codecs): their effect
  is in kernels and floating point.  The legacy \<^verbatim>\<open>compression_manager.py\<close> with its adapter, which only composes them.  The variant of the runtime
  in \<^verbatim>\<open>mooncake/compression\<close> (tokens and messages apart), the uncompressed and in-process paths of \<open>MooncakeConnectorWorker\<close>, the receiving thread of the store
  worker, and the facades, which forward to the parts above.  Process start and shutdown, sockets, HTTP, metrics, logging, files, offline search, benchmarks, tests
  and the vendored vLLM files.
\<close>

end
